(* ===== verification/Prelude.thy ===== *)
theory Prelude
  imports Main "HOL-Library.Word"
begin

unbundle bit_operations_syntax

text \<open>
  Shared vocabulary of the development: bytes and code points at their machine
  width, the input buffer with bounds-checked reads, list slices, and the
  lane masks of the SIMD loops.  Everything here is used by several
  components; no JSON rule lives in this theory.
\<close>

section \<open>Bytes, buffers and slices\<close>

type_synonym byte = "8 word"
type_synonym bytes = "8 word list"
type_synonym u32 = "32 word"
type_synonym u64 = "64 word"

named_theorems buf_simps

text \<open>The largest \<^verbatim>\<open>size_t\<close> of a 64-bit platform.\<close>

definition SIZE_MAX :: nat where "SIZE_MAX = 2 ^ 64 - 1"

text \<open>The bytes of an ASCII literal.\<close>

definition lit :: "string \<Rightarrow> bytes" where
  "lit s = map of_char s"

text \<open>
  A read through a raw pointer: \<^term>\<open>None\<close> when the address is outside the
  buffer, which is undefined behaviour in the source.
\<close>

definition rd :: "bytes \<Rightarrow> nat \<Rightarrow> byte option" where
  "rd buf i = (if i < length buf then Some (buf ! i) else None)"

definition slice :: "bytes \<Rightarrow> nat \<Rightarrow> nat \<Rightarrow> bytes" where
  "slice buf i n = take n (drop i buf)"

text \<open>Successive writes through an output cursor into the same buffer.\<close>

definition put_bytes :: "bytes \<Rightarrow> nat \<Rightarrow> bytes \<Rightarrow> bytes" where
  "put_bytes buf i bs = take i buf @ bs @ drop (i + length bs) buf"

lemma rd_drop [buf_simps]: "rd (drop i buf) k = rd buf (i + k)"
  by (simp add: rd_def less_diff_conv add.commute)

lemma rd_append_length [simp]: "rd (xs @ y # ys) (length xs) = Some y"
  by (simp add: rd_def)

lemma rd_Cons_0 [simp]: "rd (x # xs) 0 = Some x"
  by (simp add: rd_def)

lemma rd_Cons_Suc [simp]: "rd (x # xs) (Suc k) = rd xs k"
  by (simp add: rd_def)

lemma rd_Nil [simp]: "rd [] k = None"
  by (simp add: rd_def)

lemma rd_eq_NoneD: "rd buf i = None \<longleftrightarrow> length buf \<le> i"
  by (simp add: rd_def)

lemma rd_eq_SomeD: "rd buf i = Some b \<longleftrightarrow> i < length buf \<and> buf ! i = b"
  by (auto simp: rd_def)

lemma rd_rest0:
  assumes "drop i buf = x # xs"
  shows "rd buf i = Some x" "i < length buf" "buf ! i = x" "drop (Suc i) buf = xs"
proof -
  show l: "i < length buf"
    using assms by (metis drop_eq_Nil leI list.distinct(1))
  have "drop i buf = buf ! i # drop (Suc i) buf"
    using l by (rule Cons_nth_drop_Suc [symmetric])
  then show "buf ! i = x" "drop (Suc i) buf = xs" using assms by auto
  then show "rd buf i = Some x" using l by (simp add: rd_def)
qed

lemma rd_rest:
  assumes "drop i buf = xs" "k < length xs"
  shows "rd buf (i + k) = Some (xs ! k)"
  using assms by (auto simp: rd_def)

lemma length_put_bytes:
  "i + length bs \<le> length buf \<Longrightarrow> length (put_bytes buf i bs) = length buf"
  by (simp add: put_bytes_def)

lemma drop_put_bytes:
  assumes "i + length bs \<le> j" "j \<le> length buf"
  shows "drop j (put_bytes buf i bs) = drop j buf"
proof -
  obtain k where k: "j = i + length bs + k"
    using assms(1) le_Suc_ex by blast
  from assms have "i \<le> length buf" by simp
  then show ?thesis
    by (simp add: put_bytes_def k add.commute add.left_commute)
qed

lemma take_put_bytes:
  assumes "j \<le> i" "i \<le> length buf"
  shows "take j (put_bytes buf i bs) = take j buf"
  using assms by (simp add: put_bytes_def min_absorb1)

lemma take_put_bytes_end:
  assumes "i \<le> length buf"
  shows "take (i + length bs) (put_bytes buf i bs) = take i buf @ bs"
  using assms by (simp add: put_bytes_def)

lemma slice_put_bytes:
  assumes "start \<le> i" "i + length bs \<le> length buf"
  shows "slice (put_bytes buf i bs) start (i + length bs - start)
           = slice buf start (i - start) @ bs"
proof -
  have "slice (put_bytes buf i bs) start (i + length bs - start)
          = drop start (take (i + length bs) (put_bytes buf i bs))"
    using assms by (simp add: slice_def drop_take)
  also have "\<dots> = drop start (take i buf) @ bs"
    using assms by (simp add: take_put_bytes_end)
  also have "drop start (take i buf) = slice buf start (i - start)"
    by (simp add: slice_def drop_take)
  finally show ?thesis .
qed

lemma slice_take_eq:
  assumes "take m buf = take m buf'" "i + n \<le> m"
  shows "slice buf i n = slice buf' i n"
proof -
  have "slice b i n = take n (drop i (take m b))" for b :: bytes
    using assms(2) by (simp add: slice_def drop_take min_absorb1)
  then show ?thesis using assms(1) by simp
qed

lemma length_slice [simp]: "i + n \<le> length buf \<Longrightarrow> length (slice buf i n) = n"
  by (simp add: slice_def)

lemma slice_0 [simp]: "slice buf i 0 = []"
  by (simp add: slice_def)

lemma slice_append_mid:
  "slice (pre @ t @ suf) (length pre) (length t) = t"
  by (simp add: slice_def)

lemma slice_all: "slice buf 0 (length buf) = buf"
  by (simp add: slice_def)

lemma drop_slice_append:
  "i + n \<le> length buf \<Longrightarrow> drop i buf = slice buf i n @ drop (i + n) buf"
  using append_take_drop_id [of n "drop i buf"] by (simp add: slice_def add.commute)

section \<open>Words as natural numbers\<close>

lemma nat_or_add: "(x::nat) < 2 ^ k \<Longrightarrow> m * 2 ^ k OR x = m * 2 ^ k + x"
proof -
  assume x: "x < 2 ^ k"
  have "\<not> bit (m * 2 ^ k) n \<or> \<not> bit x n" for n
  proof (cases "n < k")
    case True
    then have "\<not> bit (m * 2 ^ k) n"
      by (simp add: bit_push_bit_iff flip: push_bit_eq_mult)
    then show ?thesis by simp
  next
    case False
    then have "\<not> bit x n"
      using x by (metis bit_take_bit_iff take_bit_nat_eq_self)
    then show ?thesis by simp
  qed
  then show ?thesis by (rule disjunctive_add [symmetric])
qed

lemma unat_and_mask: "unat (w AND mask n) = unat w mod 2 ^ n"
proof -
  have "unat (w AND mask n) = take_bit n (unat w)"
    by (simp only: take_bit_eq_mask [symmetric] unsigned_take_bit_eq)
  then show ?thesis by (simp only: take_bit_eq_mod)
qed

lemma unat_and_7 [buf_simps]: "unat (w AND 0x07 :: 'a::len word) = unat w mod 8"
  using unat_and_mask [of w 3] by (simp add: mask_eq_exp_minus_1)

lemma unat_and_F [buf_simps]: "unat (w AND 0x0F :: 'a::len word) = unat w mod 16"
  using unat_and_mask [of w 4] by (simp add: mask_eq_exp_minus_1)

lemma unat_and_1F [buf_simps]: "unat (w AND 0x1F :: 'a::len word) = unat w mod 32"
  using unat_and_mask [of w 5] by (simp add: mask_eq_exp_minus_1)

lemma unat_and_3F [buf_simps]: "unat (w AND 0x3F :: 'a::len word) = unat w mod 64"
  using unat_and_mask [of w 6] by (simp add: mask_eq_exp_minus_1)

lemma unat_drop_bit: "unat (drop_bit n w) = unat w div 2 ^ n"
  by (simp only: unat_drop_bit_eq drop_bit_eq_div [where ?'a = nat])

lemma unat_push_bit:
  "unat w * 2 ^ n < 2 ^ LENGTH('a) \<Longrightarrow> unat (push_bit n (w :: 'a::len word)) = unat w * 2 ^ n"
  by (simp only: unsigned_push_bit_eq push_bit_eq_mult [where ?'a = nat] take_bit_nat_eq_self)

lemma unat_or_add:
  assumes "unat b < 2 ^ k" "unat a = m * 2 ^ k"
  shows "unat (a OR b) = unat a + unat b"
  using assms by (simp add: unsigned_or_eq nat_or_add)

lemma unat_ucast_8_32: "unat (ucast (b :: 8 word) :: 32 word) = unat b"
  using unsigned_less [of b, where ?'a = nat] by (simp add: unsigned_ucast_eq take_bit_nat_eq_self)

lemma unat_ucast_32_8: "unat (ucast (w :: 32 word) :: 8 word) = unat w mod 256"
  by (simp add: unsigned_ucast_eq take_bit_eq_mod) 

lemma unat_lt8: "unat (b::8 word) < 256" using unsigned_less [of b, where ?'a = nat] by simp

lemma lead_byte:
  assumes "unat x < 2 ^ k" "unat (c::32 word) = m * 2 ^ k" "unat c + unat x < 256"
  shows "unat (ucast (c OR x) :: 8 word) = unat c + unat x"
  using assms by (simp add: unat_ucast_32_8 unat_or_add)

lemma word_eq_unat: "unat a = unat b \<Longrightarrow> a = b"
  by (rule unsigned_word_eqI)

section \<open>First hit of a predicate\<close>

lemma takeWhile_find:
  assumes "k < length xs" "P (xs ! k)" "\<And>j. j < k \<Longrightarrow> \<not> P (xs ! j)"
  shows "length (takeWhile (\<lambda>x. \<not> P x) xs) = k"
proof -
  have "takeWhile (\<lambda>x. \<not> P x) xs = take k xs"
    using assms by (intro takeWhile_eq_take_P_nth) auto
  then show ?thesis using assms(1) by simp
qed

lemma takeWhile_prefix:
  assumes "drop i xs = t @ x # r" "\<forall>y \<in> set t. P y" "\<not> P x"
  shows "length (takeWhile P (drop i xs)) = length t"
  using assms by (simp add: takeWhile_tail takeWhile_append)

section \<open>SIMD lane masks\<close>

text \<open>
  The wide loops of the source load a batch of \<open>w\<close> bytes, compare every lane
  and read the comparison result as a 64-bit mask, lane \<open>i\<close> in bit \<open>i\<close>.
  The batch width is chosen by the platform (the source asserts at most 64 lanes
  and twice the width within the padding), so it is a parameter here.
\<close>

definition mask64 :: "bool list \<Rightarrow> u64" where
  "mask64 bs = horner_sum of_bool 2 bs"

definition lane_mask :: "(byte \<Rightarrow> bool) \<Rightarrow> bytes \<Rightarrow> u64" where
  "lane_mask P b = mask64 (map P b)"

text \<open>Keep the low \<open>w\<close> lanes; the step is compiled out for a full 64-lane batch.\<close>

definition keep_lanes :: "nat \<Rightarrow> u64 \<Rightarrow> u64" where
  "keep_lanes w m = (if w < 64 then m AND (push_bit w 1 - 1) else m)"

definition countr_zero :: "u64 \<Rightarrow> nat" where
  "countr_zero m = length (takeWhile (\<lambda>i. \<not> bit m i) [0..<64])"

definition width_ok :: "nat \<Rightarrow> bool" where
  "width_ok w \<longleftrightarrow> 0 < w \<and> w \<le> 64"

lemma bit_mask64: "bit (mask64 bs) i \<longleftrightarrow> i < 64 \<and> i < length bs \<and> bs ! i"
  by (auto simp: mask64_def bit_horner_sum_bit_word_iff)

lemma bit_lane_mask:
  "bit (lane_mask P b) i \<longleftrightarrow> i < 64 \<and> i < length b \<and> P (b ! i)"
  by (auto simp: lane_mask_def bit_mask64)

lemma bit_keep_lanes: "bit (keep_lanes w m) i \<longleftrightarrow> bit m i \<and> i < (if w < 64 then w else 64)"
proof (cases "w < 64")
  case True
  have "push_bit w 1 - 1 = (mask w :: u64)"
    by (simp add: mask_eq_exp_minus_1 push_bit_eq_mult)
  with True show ?thesis
    by (auto simp: keep_lanes_def bit_and_iff bit_mask_iff dest: bit_imp_le_length)
next
  case False
  then show ?thesis by (auto simp: keep_lanes_def dest: bit_imp_le_length)
qed

lemma keep_lanes_lane_mask:
  assumes "length b = w" "w \<le> 64"
  shows "keep_lanes w (lane_mask P b) = lane_mask P b"
  by (rule bit_word_eqI) (use assms in \<open>auto simp: bit_keep_lanes bit_lane_mask\<close>)

lemma keep_lanes_not_lane_mask:
  assumes "length b = w" "w \<le> 64"
  shows "keep_lanes w (NOT (lane_mask P b)) = lane_mask (\<lambda>x. \<not> P x) b"
  by (rule bit_word_eqI)
    (use assms in \<open>auto simp: bit_keep_lanes bit_lane_mask bit_not_iff\<close>)

lemma lane_mask_eq_0:
  assumes "length b \<le> 64"
  shows "lane_mask P b = 0 \<longleftrightarrow> (\<forall>x \<in> set b. \<not> P x)"
proof
  assume "lane_mask P b = 0"
  then have "\<not> bit (lane_mask P b) i" for i by simp
  then show "\<forall>x \<in> set b. \<not> P x"
    using assms by (auto simp: bit_lane_mask in_set_conv_nth)
next
  assume "\<forall>x \<in> set b. \<not> P x"
  then show "lane_mask P b = 0"
    by (intro bit_word_eqI) (auto simp: bit_lane_mask)
qed

lemma countr_zero_lane_mask:
  assumes "length b \<le> 64" "k < length b" "P (b ! k)" "\<And>j. j < k \<Longrightarrow> \<not> P (b ! j)"
  shows "countr_zero (lane_mask P b) = k"
  unfolding countr_zero_def
  by (rule takeWhile_find) (use assms in \<open>auto simp: bit_lane_mask\<close>)

text \<open>
  The loop shared by the wide scans: load a batch, stop at the first lane whose
  mask bit is set, otherwise advance by one batch.  \<^term>\<open>None\<close> is a batch
  load that would leave the buffer.
\<close>

function simd_scan :: "nat \<Rightarrow> (bytes \<Rightarrow> u64) \<Rightarrow> bytes \<Rightarrow> nat \<Rightarrow> nat option" where
  "simd_scan w m buf i =
     (if w = 0 \<or> length buf < i + w then None
      else if m (take w (drop i buf)) \<noteq> 0
      then Some (i + countr_zero (m (take w (drop i buf))))
      else simd_scan w m buf (i + w))"
  by pat_completeness auto
termination
  by (relation "measure (\<lambda>(w, m, buf, i). length buf - i)") auto

declare simd_scan.simps [simp del]

text \<open>
  With room for one batch behind the first hit the wide loop finds exactly the
  first byte satisfying the predicate, whatever the width.
\<close>

lemma simd_scan_first:
  assumes "width_ok w" and m: "\<And>b. length b = w \<Longrightarrow> m b = lane_mask P b"
    and "i \<le> k" "k + w \<le> length buf" "P (buf ! k)" "\<And>j. i \<le> j \<Longrightarrow> j < k \<Longrightarrow> \<not> P (buf ! j)"
  shows "simd_scan w m buf i = Some k"
  using assms(3-)
proof (induction "k - i" arbitrary: i rule: less_induct)
  case less
  have w: "0 < w" "w \<le> 64" using assms(1) by (auto simp: width_ok_def)
  let ?b = "take w (drop i buf)"
  have len: "length ?b = w" "i + w \<le> length buf" using less.prems by auto
  have nth: "?b ! j = buf ! (i + j)" if "j < w" for j
    using that len by simp
  show ?case
  proof (cases "k < i + w")
    case True
    have hit: "P (?b ! (k - i))" and bef: "\<And>j. j < k - i \<Longrightarrow> \<not> P (?b ! j)"
      using less.prems True nth by auto
    have "k - i < length ?b" using True less.prems len by simp
    then have "countr_zero (m ?b) = k - i" and "m ?b \<noteq> 0"
      using hit bef countr_zero_lane_mask [of ?b "k - i" P] len w m [OF len(1)]
        lane_mask_eq_0 [of ?b P] nth_mem [of "k - i" ?b] by auto
    then show ?thesis
      using less.prems len w by (subst simd_scan.simps) simp
  next
    case False
    have "\<forall>x \<in> set ?b. \<not> P x"
    proof
      fix x assume "x \<in> set ?b"
      then obtain j where "j < w" "x = ?b ! j" using len by (metis in_set_conv_nth)
      then show "\<not> P x" using less.prems(4) [of "i + j"] False nth by auto
    qed
    then have "m ?b = 0" using lane_mask_eq_0 [of ?b P] m [OF len(1)] len w by simp
    moreover have "simd_scan w m buf (i + w) = Some k"
      by (rule less.hyps) (use less.prems False w in auto)
    ultimately show ?thesis
      using len w by (subst simd_scan.simps) simp
  qed
qed

end
