(* ===== verification/Errors.thy ===== *)
theory Errors
  imports Prelude
begin

text \<open>
  The error vocabulary of \<^verbatim>\<open>include/pjh_json/error.hpp\<close>: the kernel error codes, the
  message table, the fixed-size \<^verbatim>\<open>Error\<close> slot and its rendering.  An exception thrown by a
  public entry point is the value of this type it is materialised from.
\<close>

section \<open>Decimal rendering of an unsigned integer\<close>

text \<open>\<^verbatim>\<open>std::to_string\<close> and \<^verbatim>\<open>std::to_chars\<close> on an unsigned value.\<close>

fun dec :: "nat \<Rightarrow> bytes" where
  "dec n = (if n < 10 then [of_nat (48 + n)] else dec (n div 10) @ [of_nat (48 + n mod 10)])"

declare dec.simps [simp del]

section \<open>Codes, categories and messages\<close>

datatype category = CatParse | CatType | CatJson | CatPatch | CatSchema

datatype error_code =
    NoError
  | ExtraCharactersAfterValue
  | MaxDepthExceeded
  | ExpectedCommaOrBracket
  | InvalidLiteral
  | InvalidLiteralTrailing
  | NumberNoIntDigits
  | NumberLeadingZero
  | NumberNoFracDigits
  | NumberNoExpDigits
  | NumberOutOfRange
  | NumberInvalidFormat
  | ExpectedStringKey
  | ExpectedColon
  | UnexpectedEndOfObject
  | ExpectedCommaOrBrace
  | ExpectedQuote
  | UnterminatedString
  | UnescapedControl
  | InvalidHexDigit
  | InvalidEscapeChar
  | InvalidSurrogatePair
  | ExpectedLowSurrogate
  | LoneLowSurrogate
  | UnexpectedCharacter
  | UnexpectedEndOfInput
  | UnexpectedValueCharacter
  | Utf8Overlong
  | Utf8InvalidLead
  | Utf8InvalidContinuation
  | Utf8Surrogate
  | Utf8ExceedsMax
  | Utf8Truncated
  | InputTooLarge
  | ParserRequiresPadding
  | BufferTooSmall
  | InSituPaddingNotNul
  | DuplicateKey
  | InvalidCodepoint
  | FileOpenFailed
  | FileSizeFailed
  | FileReadFailed
  | StreamReadFailed
  | NonFiniteDouble
  | FormatDoubleFailed
  | FormatIntFailed
  | DumpMaxDepthExceeded
  | FileWriteOpenFailed
  | FileWriteFailed
  | FileWriteCloseFailed
  | StreamWriteFailed
  | InvalidIndentChar

primrec message_of :: "error_code \<Rightarrow> string" where
    "message_of NoError = ''''"
  | "message_of ExtraCharactersAfterValue = ''Extra characters after complete JSON value''"
  | "message_of MaxDepthExceeded = ''Maximum nesting depth exceeded''"
  | "message_of ExpectedCommaOrBracket = ''Expected '' @ [CHR 0x27] @ '','' @ [CHR 0x27] @ '' or '' @ [CHR 0x27] @ '']'' @ [CHR 0x27] @ '' in array''"
  | "message_of InvalidLiteral = ''Invalid literal, expected true/false/null''"
  | "message_of InvalidLiteralTrailing = ''Invalid literal, unexpected characters after true/false/null''"
  | "message_of NumberNoIntDigits = ''Invalid number: no digits after '' @ [CHR 0x27] @ ''-'' @ [CHR 0x27]"
  | "message_of NumberLeadingZero = ''Invalid number: leading zeros are not allowed''"
  | "message_of NumberNoFracDigits = ''Invalid number: no digits after decimal point''"
  | "message_of NumberNoExpDigits = ''Invalid number: no digits in exponent''"
  | "message_of NumberOutOfRange = ''Number out of double range''"
  | "message_of NumberInvalidFormat = ''Invalid number format''"
  | "message_of ExpectedStringKey = ''Expected string key in object''"
  | "message_of ExpectedColon = ''Expected '' @ [CHR 0x27] @ '':'' @ [CHR 0x27] @ '' in object''"
  | "message_of UnexpectedEndOfObject = ''Unexpected end of object''"
  | "message_of ExpectedCommaOrBrace = ''Expected '' @ [CHR 0x27] @ '','' @ [CHR 0x27] @ '' or '' @ [CHR 0x27] @ ''}'' @ [CHR 0x27] @ '' in object''"
  | "message_of ExpectedQuote = ''Expected '' @ [CHR 0x27] @ [CHR 0x22] @ [CHR 0x27]"
  | "message_of UnterminatedString = ''Unterminated string''"
  | "message_of UnescapedControl = ''Unescaped control character in string''"
  | "message_of InvalidHexDigit = ''Invalid hex digit in unicode escape''"
  | "message_of InvalidEscapeChar = ''Invalid escape character''"
  | "message_of InvalidSurrogatePair = ''Invalid surrogate pair''"
  | "message_of ExpectedLowSurrogate = ''Expected low surrogate''"
  | "message_of LoneLowSurrogate = ''Lone low surrogate, expected high surrogate first''"
  | "message_of UnexpectedCharacter = ''Unexpected character''"
  | "message_of UnexpectedEndOfInput = ''Unexpected end of input''"
  | "message_of UnexpectedValueCharacter = ''Unexpected character parsing value''"
  | "message_of Utf8Overlong = ''Overlong UTF-8 sequence in string''"
  | "message_of Utf8InvalidLead = ''Invalid UTF-8 lead byte in string''"
  | "message_of Utf8InvalidContinuation = ''Invalid UTF-8 continuation byte in string''"
  | "message_of Utf8Surrogate = ''UTF-8 surrogate codepoint in string''"
  | "message_of Utf8ExceedsMax = ''UTF-8 codepoint exceeds U+10FFFF in string''"
  | "message_of Utf8Truncated = ''Truncated UTF-8 sequence in string''"
  | "message_of InputTooLarge = ''Input too large to pad''"
  | "message_of ParserRequiresPadding = ''Parser requires NUL padding (kPaddingWidth trailing NUL bytes); use the parse_* entry points''"
  | "message_of BufferTooSmall = ''Buffer too small for in-situ parse''"
  | "message_of InSituPaddingNotNul = ''In-situ buffer padding must be NUL bytes''"
  | "message_of DuplicateKey = ''Duplicate key '' @ [CHR 0x22] @ ''{}'' @ [CHR 0x22] @ '' in object''"
  | "message_of InvalidCodepoint = ''Invalid unicode codepoint''"
  | "message_of FileOpenFailed = ''Failed to open file: {}''"
  | "message_of FileSizeFailed = ''Failed to get file size: {}''"
  | "message_of FileReadFailed = ''Failed to read file: {}''"
  | "message_of StreamReadFailed = ''Failed to read stream''"
  | "message_of NonFiniteDouble = ''Cannot serialize non-finite double (NaN/Inf) to JSON''"
  | "message_of FormatDoubleFailed = ''Failed to format double''"
  | "message_of FormatIntFailed = ''Failed to format integer''"
  | "message_of DumpMaxDepthExceeded = ''Maximum nesting depth exceeded during dump''"
  | "message_of FileWriteOpenFailed = ''Failed to open file for writing: {}''"
  | "message_of FileWriteFailed = ''Failed to write file: {}''"
  | "message_of FileWriteCloseFailed = ''Failed to close file: {}''"
  | "message_of StreamWriteFailed = ''Failed to write to stream''"
  | "message_of InvalidIndentChar = ''Invalid indent character: expected space or tab''"

section \<open>The error slot\<close>

record error =
  code :: error_code
  err_category :: category
  position :: nat
  positioned :: bool
  detail :: bytes

definition has_error :: "error \<Rightarrow> bool" where
  "has_error e \<longleftrightarrow> code e \<noteq> NoError"

text \<open>A failure with an input position, and one without.\<close>

definition positioned_error :: "error_code \<Rightarrow> nat \<Rightarrow> error" where
  "positioned_error c p =
     \<lparr>code = c, err_category = CatParse, position = p, positioned = True, detail = []\<rparr>"

definition context_error :: "error_code \<Rightarrow> category \<Rightarrow> bytes \<Rightarrow> error" where
  "context_error c k d =
     \<lparr>code = c, err_category = k, position = 0, positioned = False, detail = d\<rparr>"

text \<open>Replace the first placeholder \<open>{}\<close> of a message by the detail bytes.\<close>

fun subst_placeholder :: "bytes \<Rightarrow> bytes \<Rightarrow> bytes" where
  "subst_placeholder [] d = []"
| "subst_placeholder [a] d = [a]"
| "subst_placeholder (a # b # cs) d =
     (if a = 0x7B \<and> b = 0x7D then d @ cs else a # subst_placeholder (b # cs) d)"

definition format_error :: "error \<Rightarrow> bytes" where
  "format_error e =
     subst_placeholder (lit (message_of (code e))) (detail e) @
     (if positioned e then lit '' at offset '' @ dec (position e) else [])"

lemma code_positioned_error [simp]: "code (positioned_error c p) = c"
  by (simp add: positioned_error_def)

lemma position_positioned_error [simp]: "position (positioned_error c p) = p"
  by (simp add: positioned_error_def)

lemma code_context_error [simp]: "code (context_error c k d) = c"
  by (simp add: context_error_def)

section \<open>Decimal digits\<close>

definition is_dec_digit :: "byte \<Rightarrow> bool" where
  "is_dec_digit b \<longleftrightarrow> 0x30 \<le> b \<and> b \<le> 0x39"

definition digit_val :: "byte \<Rightarrow> nat" where
  "digit_val b = unat b - 48"

definition digits_val :: "bytes \<Rightarrow> nat" where
  "digits_val ds = foldl (\<lambda>v d. v * 10 + digit_val d) 0 ds"

lemma unat_digit: "d < 10 \<Longrightarrow> unat (of_nat (48 + d) :: byte) = 48 + d"
  by (simp add: unat_of_nat del: of_nat_add)

lemma is_dec_digit_of_nat: "d < 10 \<Longrightarrow> is_dec_digit (of_nat (48 + d))"
  by (simp add: is_dec_digit_def word_le_nat_alt unat_of_nat del: of_nat_add)

lemma digit_val_of_nat: "d < 10 \<Longrightarrow> digit_val (of_nat (48 + d)) = d"
  by (simp add: digit_val_def unat_of_nat del: of_nat_add)

lemma digits_val_snoc: "digits_val (ds @ [d]) = digits_val ds * 10 + digit_val d"
  by (simp add: digits_val_def)

lemma digits_val_dec: "digits_val (dec n) = n"
proof (induction n rule: dec.induct)
  case (1 n)
  show ?case
  proof (cases "n < 10")
    case True
    then show ?thesis
      by (subst dec.simps) (simp add: digits_val_def digit_val_of_nat del: of_nat_add)
  next
    case False
    then show ?thesis
      using 1 by (subst dec.simps) (simp add: digits_val_snoc digit_val_of_nat del: of_nat_add)
  qed
qed

lemma dec_digits: "\<forall>d \<in> set (dec n). is_dec_digit d"
proof (induction n rule: dec.induct)
  case (1 n)
  then show ?case
    by (subst dec.simps) (auto simp: is_dec_digit_of_nat simp del: of_nat_add)
qed

lemma dec_not_Nil: "dec n \<noteq> []"
  by (subst dec.simps) simp

lemma dec_inject: "dec m = dec n \<Longrightarrow> m = n"
  by (metis digits_val_dec)

text \<open>No leading zero, except for zero itself.\<close>

lemma dec_hd: "10 \<le> n \<Longrightarrow> hd (dec n) \<noteq> 0x30"
proof (induction n rule: dec.induct)
  case (1 n)
  show ?case
  proof (cases "n div 10 < 10")
    case True
    have "n div 10 \<noteq> 0" using 1(2) by simp
    have "(of_nat (48 + n div 10) :: byte) \<noteq> 0x30"
    proof
      assume "(of_nat (48 + n div 10) :: byte) = 0x30"
      then have "unat (of_nat (48 + n div 10) :: byte) = unat (0x30 :: byte)" by simp
      then show False using True \<open>n div 10 \<noteq> 0\<close> unat_digit [OF True] by simp
    qed
    then show ?thesis
      using 1(2) True by (subst dec.simps, subst dec.simps) (simp del: of_nat_add)
  next
    case False
    then show ?thesis
      using 1 by (subst dec.simps) (simp add: dec_not_Nil)
  qed
qed

lemma length_dec_1: "length (dec n) = 1 \<longleftrightarrow> n < 10"
proof -
  have "0 < length (dec (n div 10))" by (simp add: dec_not_Nil)
  then show ?thesis by (subst dec.simps) auto
qed

text \<open>An \<open>n\<close>-digit run is below \<open>10 ^ n\<close>.\<close>

lemma digit_val_le: "is_dec_digit d \<Longrightarrow> digit_val d \<le> 9"
  by (auto simp: is_dec_digit_def digit_val_def word_le_nat_alt)

lemma digits_val_bound:
  "\<forall>d \<in> set ds. is_dec_digit d \<Longrightarrow> digits_val ds < 10 ^ length ds"
proof (induction ds rule: rev_induct)
  case Nil
  show ?case by (simp add: digits_val_def)
next
  case (snoc d ds)
  then have "digits_val ds < 10 ^ length ds" "digit_val d \<le> 9"
    by (auto intro: digit_val_le)
  then show ?case by (simp add: digits_val_snoc)
qed

end
