(* ===== verification/Grammar.thy ===== *)
theory Grammar
  imports Errors "HOL-Library.List_Lexorder"
begin

text \<open>
  The shared lexical rules of \<^verbatim>\<open>include/pjh_json/grammar.hpp\<close>.  Every scanner of that
  file reads only below its end pointer, so a cursor pair \<^verbatim>\<open>[p, e)\<close> is the list
  of the bytes in between, and a scanner returns how many bytes it moved \<^verbatim>\<open>p\<close>.
\<close>

section \<open>Byte classes\<close>

definition is_whitespace :: "byte \<Rightarrow> bool" where
  "is_whitespace c \<longleftrightarrow> c = 0x20 \<or> c = 0x09 \<or> c = 0x0A \<or> c = 0x0D"

fun match_literal :: "bytes \<Rightarrow> bytes \<Rightarrow> bool" where
  "match_literal p [] = True"
| "match_literal [] (l # ls) = False"
| "match_literal (c # p) (l # ls) = (c = l \<and> match_literal p ls)"

text \<open>Zero is "not a short escape".\<close>

definition short_escape_value :: "byte \<Rightarrow> byte" where
  "short_escape_value c =
     (if c = 0x22 then 0x22          \<comment> \<open>quote\<close>
      else if c = 0x5C then 0x5C     \<comment> \<open>backslash\<close>
      else if c = 0x2F then 0x2F     \<comment> \<open>slash\<close>
      else if c = 0x62 then 0x08     \<comment> \<open>b\<close>
      else if c = 0x66 then 0x0C     \<comment> \<open>f\<close>
      else if c = 0x6E then 0x0A     \<comment> \<open>n\<close>
      else if c = 0x72 then 0x0D     \<comment> \<open>r\<close>
      else if c = 0x74 then 0x09     \<comment> \<open>t\<close>
      else 0)"

definition is_short_escape :: "byte \<Rightarrow> bool" where
  "is_short_escape c \<longleftrightarrow> short_escape_value c \<noteq> 0"

definition hex_value :: "byte \<Rightarrow> nat option" where
  "hex_value c =
     (if 0x30 \<le> c \<and> c \<le> 0x39 then Some (unat c - 0x30)
      else if 0x61 \<le> c \<and> c \<le> 0x66 then Some (unat c - 0x61 + 10)
      else if 0x41 \<le> c \<and> c \<le> 0x46 then Some (unat c - 0x41 + 10)
      else None)"

definition is_high_surrogate :: "u32 \<Rightarrow> bool" where
  "is_high_surrogate cp \<longleftrightarrow> 0xD800 \<le> cp \<and> cp \<le> 0xDBFF"

definition is_low_surrogate :: "u32 \<Rightarrow> bool" where
  "is_low_surrogate cp \<longleftrightarrow> 0xDC00 \<le> cp \<and> cp \<le> 0xDFFF"

definition is_surrogate :: "u32 \<Rightarrow> bool" where
  "is_surrogate cp \<longleftrightarrow> 0xD800 \<le> cp \<and> cp \<le> 0xDFFF"

definition is_json5_whitespace_ascii :: "byte \<Rightarrow> bool" where
  "is_json5_whitespace_ascii c \<longleftrightarrow> is_whitespace c \<or> c = 0x0B \<or> c = 0x0C"

definition is_json5_whitespace_unicode :: "u32 \<Rightarrow> bool" where
  "is_json5_whitespace_unicode cp \<longleftrightarrow>
     cp = 0x00A0 \<or> cp = 0x1680 \<or> (0x2000 \<le> cp \<and> cp \<le> 0x200A) \<or> cp = 0x2028 \<or> cp = 0x2029 \<or>
     cp = 0x202F \<or> cp = 0x205F \<or> cp = 0x3000 \<or> cp = 0xFEFF"

definition is_json5_whitespace :: "u32 \<Rightarrow> bool" where
  "is_json5_whitespace cp \<longleftrightarrow>
     (if cp \<le> 0x7F then is_json5_whitespace_ascii (ucast cp) else is_json5_whitespace_unicode cp)"

definition is_identifier_start_ascii :: "byte \<Rightarrow> bool" where
  "is_identifier_start_ascii c \<longleftrightarrow>
     (0x41 \<le> c \<and> c \<le> 0x5A) \<or> (0x61 \<le> c \<and> c \<le> 0x7A) \<or> c = 0x5F \<or> c = 0x24"

definition is_identifier_continue_ascii :: "byte \<Rightarrow> bool" where
  "is_identifier_continue_ascii c \<longleftrightarrow> is_identifier_start_ascii c \<or> (0x30 \<le> c \<and> c \<le> 0x39)"

definition short_escape_value_json5 :: "byte \<Rightarrow> byte" where
  "short_escape_value_json5 c =
     (if c = 0x27 then 0x27 else if c = 0x76 then 0x0B else short_escape_value c)"

definition is_json5_line_terminator_ascii :: "byte \<Rightarrow> bool" where
  "is_json5_line_terminator_ascii c \<longleftrightarrow> c = 0x0A \<or> c = 0x0D"

section \<open>Number tokens\<close>

datatype number_error = NumOk | NoIntDigits | LeadingZero | NoFracDigits | NoExpDigits

text \<open>\<^verbatim>\<open>int_start\<close> is kept as the offset of the first integer digit in the token.\<close>

record number_scan =
  int_start :: nat
  int_digits :: nat
  negative :: bool
  is_float :: bool

definition digit_run :: "bytes \<Rightarrow> nat" where
  "digit_run p = length (takeWhile is_dec_digit p)"

definition at_digit :: "bytes \<Rightarrow> bool" where
  "at_digit p \<longleftrightarrow> p \<noteq> [] \<and> is_dec_digit (hd p)"

definition at_byte :: "bytes \<Rightarrow> byte \<Rightarrow> bool" where
  "at_byte p c \<longleftrightarrow> p \<noteq> [] \<and> hd p = c"

definition has_leading_zero :: "bytes \<Rightarrow> nat \<Rightarrow> bool" where
  "has_leading_zero p n \<longleftrightarrow> 1 < n \<and> hd p = 0x30"

text \<open>
  \<^verbatim>\<open>scan_number\<close>: result, bytes consumed (on failure the error anchor) and the scan.
  The optional fraction and the optional exponent are the two tail stages.
\<close>

definition scan_exponent :: "bytes \<Rightarrow> number_error \<times> nat \<times> bool" where
  "scan_exponent p =
     (if at_byte p 0x65 \<or> at_byte p 0x45 then
        (let p1 = tl p;
             s = (if at_byte p1 0x2B \<or> at_byte p1 0x2D then 1 else 0);
             p2 = drop s p1
         in if \<not> at_digit p2 then (NoExpDigits, 1 + s, True)
            else (NumOk, 1 + s + digit_run p2, True))
      else (NumOk, 0, False))"

definition scan_fraction :: "bytes \<Rightarrow> number_error \<times> nat \<times> bool" where
  "scan_fraction p =
     (if at_byte p 0x2E then
        (if \<not> at_digit (tl p) then (NoFracDigits, 1, True)
         else (NumOk, 1 + digit_run (tl p), True))
      else (NumOk, 0, False))"

definition scan_number :: "bytes \<Rightarrow> number_error \<times> nat \<times> number_scan" where
  "scan_number t =
     (let neg = at_byte t 0x2D; i = (if neg then 1 else 0); t1 = drop i t in
      if \<not> at_digit t1
      then (NoIntDigits, i, \<lparr>int_start = 0, int_digits = 0, negative = neg, is_float = False\<rparr>)
      else
        let k = digit_run t1;
            sc = \<lparr>int_start = i, int_digits = k, negative = neg, is_float = False\<rparr> in
        if has_leading_zero t1 k then (LeadingZero, i + k, sc)
        else case scan_fraction (drop (i + k) t) of (e1, n1, f1) \<Rightarrow>
          if e1 \<noteq> NumOk then (e1, i + k + n1, sc\<lparr>is_float := f1\<rparr>)
          else case scan_exponent (drop (i + k + n1) t) of (e2, n2, f2) \<Rightarrow>
            (e2, i + k + n1 + n2, sc\<lparr>is_float := f1 \<or> f2\<rparr>))"

record number_scan_json5 = number_scan +
  explicit_plus :: bool
  is_hex :: bool

definition hex_run :: "bytes \<Rightarrow> nat" where
  "hex_run p = length (takeWhile (\<lambda>c. hex_value c \<noteq> None) p)"

definition scan_number_json5 :: "bytes \<Rightarrow> number_error \<times> nat \<times> number_scan_json5" where
  "scan_number_json5 t =
     (let neg = at_byte t 0x2D; plus = at_byte t 0x2B;
          i = (if neg \<or> plus then 1 else 0); t1 = drop i t;
          sc = \<lparr>int_start = 0, int_digits = 0, negative = neg, is_float = False,
                explicit_plus = plus, is_hex = False\<rparr> in
      if 2 \<le> length t1 \<and> t1 ! 0 = 0x30 \<and> (t1 ! 1 = 0x78 \<or> t1 ! 1 = 0x58) then
        (let k = hex_run (drop 2 t1);
             sc' = sc\<lparr>is_hex := True, int_start := i + 2, int_digits := k\<rparr> in
         if k = 0 then (NoIntDigits, i + 2, sc') else (NumOk, i + 2 + k, sc'))
      else
        case
          (if at_byte t1 0x2E then
             (let t2 = drop 1 t1 in
              if \<not> at_digit t2 then (NoFracDigits, i + 1, sc\<lparr>is_float := True\<rparr>)
              else (NumOk, i + 1 + digit_run t2,
                    sc\<lparr>is_float := True, int_start := i + 1, int_digits := digit_run t2\<rparr>))
           else if \<not> at_digit t1 then (NoIntDigits, i, sc)
           else
             (let k = digit_run t1; sc' = sc\<lparr>int_start := i, int_digits := k\<rparr> in
              if has_leading_zero t1 k then (LeadingZero, i + k, sc')
              else if at_byte (drop k t1) 0x2E
              then (NumOk, i + k + 1 + digit_run (drop (k + 1) t1), sc'\<lparr>is_float := True\<rparr>)
              else (NumOk, i + k, sc')))
        of (e1, j1, sc1) \<Rightarrow>
          if e1 \<noteq> NumOk then (e1, j1, sc1)
          else case scan_exponent (drop j1 t) of (e2, n2, f2) \<Rightarrow>
            (e2, j1 + n2, if f2 then sc1\<lparr>is_float := True\<rparr> else sc1))"

datatype json5_nonfinite = NfNone | NfInfinity | NfNan

definition match_json5_nonfinite :: "bytes \<Rightarrow> nat \<times> json5_nonfinite" where
  "match_json5_nonfinite p =
     (if match_literal p (lit ''Infinity'') then (8, NfInfinity)
      else if match_literal p (lit ''NaN'') then (3, NfNan)
      else (0, NfNone))"

section \<open>The number grammar as an abstract specification\<close>

definition digits1 :: "bytes \<Rightarrow> bool" where
  "digits1 ds \<longleftrightarrow> ds \<noteq> [] \<and> (\<forall>d \<in> set ds. is_dec_digit d)"

definition int_part :: "bytes \<Rightarrow> bool" where
  "int_part ip \<longleftrightarrow> digits1 ip \<and> (1 < length ip \<longrightarrow> hd ip \<noteq> 0x30)"

definition frac_part :: "bytes \<Rightarrow> bool" where
  "frac_part fr \<longleftrightarrow> fr = [] \<or> (\<exists>ds. fr = 0x2E # ds \<and> digits1 ds)"

definition exp_part :: "bytes \<Rightarrow> bool" where
  "exp_part ex \<longleftrightarrow> ex = [] \<or>
     (\<exists>e s ds. ex = e # s @ ds \<and> (e = 0x65 \<or> e = 0x45) \<and> (s = [] \<or> s = [0x2B] \<or> s = [0x2D]) \<and> digits1 ds)"

text \<open>RFC 8259 section 6: optional minus, integer part, optional fraction and exponent.\<close>

definition number_parts :: "bool \<Rightarrow> bytes \<Rightarrow> bytes \<Rightarrow> bytes \<Rightarrow> bytes \<Rightarrow> bool" where
  "number_parts neg ip fr ex t \<longleftrightarrow>
     t = (if neg then [0x2D] else []) @ ip @ fr @ ex \<and> int_part ip \<and> frac_part fr \<and> exp_part ex"

definition parts_scan :: "bool \<Rightarrow> bytes \<Rightarrow> bytes \<Rightarrow> bytes \<Rightarrow> number_scan" where
  "parts_scan neg ip fr ex =
     \<lparr>int_start = (if neg then 1 else 0), int_digits = length ip, negative = neg,
      is_float = (fr \<noteq> [] \<or> ex \<noteq> [])\<rparr>"

text \<open>What may follow a number so that it is the longest match.\<close>

definition num_stop :: "bytes \<Rightarrow> bool" where
  "num_stop r \<longleftrightarrow>
     r = [] \<or> \<not> is_dec_digit (hd r) \<and> hd r \<noteq> 0x2E \<and> hd r \<noteq> 0x65 \<and> hd r \<noteq> 0x45"

lemma digit_run_append:
  assumes "\<forall>d \<in> set ds. is_dec_digit d" "r = [] \<or> \<not> is_dec_digit (hd r)"
  shows "digit_run (ds @ r) = length ds"
proof -
  have tw: "takeWhile is_dec_digit ds = ds" using assms(1) by (simp add: takeWhile_eq_all_conv)
  show ?thesis using assms by (cases r) (auto simp: digit_run_def takeWhile_append tw)
qed

lemma digit_run_take:
  "\<forall>d \<in> set (take (digit_run p) p). is_dec_digit d"
  by (simp add: digit_run_def flip: takeWhile_eq_take) (meson set_takeWhileD)

lemma digit_run_le: "digit_run p \<le> length p"
  by (simp add: digit_run_def length_takeWhile_le)

lemma digit_run_pos: "at_digit p \<Longrightarrow> 0 < digit_run p"
  by (cases p) (auto simp: at_digit_def digit_run_def)

lemma digits1_run: "at_digit p \<Longrightarrow> digits1 (take (digit_run p) p)"
  using digit_run_take [of p] digit_run_pos [of p] by (auto simp: digits1_def at_digit_def)

lemma at_digit_append: "digits1 ds \<Longrightarrow> at_digit (ds @ r)"
  by (cases ds) (auto simp: digits1_def at_digit_def)

lemma not_digit_marks [simp]:
  "\<not> is_dec_digit 0x2E" "\<not> is_dec_digit 0x65" "\<not> is_dec_digit 0x45" "\<not> is_dec_digit 0x2B"
  "\<not> is_dec_digit 0x2D"
  by (simp_all add: is_dec_digit_def)

lemma digits1_Cons: "digits1 ds \<Longrightarrow> \<exists>d ds'. ds = d # ds' \<and> is_dec_digit d"
  by (cases ds) (auto simp: digits1_def)

lemma scan_exponent_complete:
  assumes "exp_part ex" "num_stop r"
  shows "scan_exponent (ex @ r) = (NumOk, length ex, ex \<noteq> [])"
proof (cases "ex = []")
  case True
  then show ?thesis using assms(2) by (auto simp: scan_exponent_def at_byte_def num_stop_def)
next
  case False
  then obtain e s ds where ex: "ex = e # s @ ds" "e = 0x65 \<or> e = 0x45"
      "s = [] \<or> s = [0x2B] \<or> s = [0x2D]" and ds: "digits1 ds"
    using assms(1) by (auto simp: exp_part_def)
  have run: "digit_run (ds @ r) = length ds" "at_digit (ds @ r)"
    using ds assms(2) by (auto intro!: digit_run_append at_digit_append simp: digits1_def num_stop_def)
  have nd: "\<not> at_byte (ds @ r) 0x2B" "\<not> at_byte (ds @ r) 0x2D"
    using digits1_Cons [OF ds] by (auto simp: at_byte_def)
  have e: "at_byte (e # p) 0x65 \<or> at_byte (e # p) 0x45" for p
    using ex(2) by (auto simp: at_byte_def)
  from ex(3) show ?thesis
  proof (elim disjE)
    assume "s = []"
    then show ?thesis using e run nd by (simp add: scan_exponent_def ex(1))
  next
    assume "s = [0x2B]"
    then show ?thesis using e run by (simp add: scan_exponent_def ex(1) at_byte_def)
  next
    assume "s = [0x2D]"
    then show ?thesis using e run by (simp add: scan_exponent_def ex(1) at_byte_def)
  qed
qed

lemma scan_fraction_complete:
  assumes "frac_part fr" "fr \<noteq> [] \<or> \<not> at_byte r 0x2E" "r = [] \<or> \<not> is_dec_digit (hd r)"
  shows "scan_fraction (fr @ r) = (NumOk, length fr, fr \<noteq> [])"
proof (cases "fr = []")
  case True
  then show ?thesis using assms(2) by (simp add: scan_fraction_def)
next
  case False
  then obtain ds where fr: "fr = 0x2E # ds" and ds: "digits1 ds" using assms(1) by (auto simp: frac_part_def)
  have "digit_run (ds @ r) = length ds" "at_digit (ds @ r)"
    using ds assms(3) by (auto intro!: digit_run_append at_digit_append simp: digits1_def)
  then show ?thesis by (simp add: scan_fraction_def fr at_byte_def)
qed

lemma exp_part_hd:
  assumes "exp_part ex" "num_stop r"
  shows "ex @ r = [] \<or> \<not> is_dec_digit (hd (ex @ r))" "\<not> at_byte (ex @ r) 0x2E"
  using assms by (auto simp: exp_part_def num_stop_def at_byte_def)

lemma scan_number_complete:
  assumes "number_parts neg ip fr ex t" "num_stop r"
  shows "scan_number (t @ r) = (NumOk, length t, parts_scan neg ip fr ex)"
proof -
  have t: "t = (if neg then [0x2D] else []) @ ip @ fr @ ex" and ip: "int_part ip"
    and fr: "frac_part fr" and ex: "exp_part ex"
    using assms(1) by (auto simp: number_parts_def)
  let ?u = "fr @ ex @ r"
  have u: "?u = [] \<or> \<not> is_dec_digit (hd ?u)"
    using exp_part_hd [OF ex assms(2)] fr by (auto simp: frac_part_def)
  have run: "digit_run (ip @ ?u) = length ip" "at_digit (ip @ ?u)"
    using ip u by (auto intro!: digit_run_append at_digit_append simp: digits1_def int_part_def)
  have nd: "\<not> at_byte (ip @ ?u) 0x2D"
    using digits1_Cons [of ip] ip by (auto simp: at_byte_def int_part_def)
  have lz: "\<not> has_leading_zero (ip @ ?u) (length ip)"
    using ip by (cases ip) (auto simp: has_leading_zero_def int_part_def)
  have f: "scan_fraction ?u = (NumOk, length fr, fr \<noteq> [])"
    using exp_part_hd [OF ex assms(2)] by (intro scan_fraction_complete [OF fr]) auto
  have e: "scan_exponent (ex @ r) = (NumOk, length ex, ex \<noteq> [])"
    by (rule scan_exponent_complete [OF ex assms(2)])
  show ?thesis
  proof (cases neg)
    case True
    then show ?thesis
      using run lz f e by (simp add: t scan_number_def Let_def at_byte_def parts_scan_def)
  next
    case False
    then show ?thesis
      using run lz f e nd by (simp add: t scan_number_def Let_def parts_scan_def)
  qed
qed

lemma at_byteE:
  assumes "at_byte p c"
  obtains q where "p = c # q"
  using assms by (cases p) (auto simp: at_byte_def)

lemma scan_exponent_sound:
  assumes "scan_exponent p = (NumOk, n, f)"
  shows "n \<le> length p \<and> exp_part (take n p) \<and> (f \<longleftrightarrow> take n p \<noteq> [])"
proof (cases "at_byte p 0x65 \<or> at_byte p 0x45")
  case False
  then show ?thesis using assms by (auto simp: scan_exponent_def exp_part_def)
next
  case True
  then obtain e p1 where p: "p = e # p1" and e: "e = 0x65 \<or> e = 0x45" by (auto elim: at_byteE)
  define s where "s = (if at_byte p1 0x2B \<or> at_byte p1 0x2D then 1 else 0 :: nat)"
  have s: "take s p1 = [] \<or> take s p1 = [0x2B] \<or> take s p1 = [0x2D]" "s \<le> length p1"
    by (auto simp: s_def at_byte_def neq_Nil_conv)
  define m where "m = digit_run (drop s p1)"
  have d: "at_digit (drop s p1)" and n: "n = 1 + s + m" and f: "f"
    using assms True unfolding s_def m_def
    by (auto simp: scan_exponent_def Let_def p split: if_splits)
  have "take n p = e # take s p1 @ take m (drop s p1)"
    by (simp add: p n take_add)
  moreover have "m \<le> length (drop s p1)" unfolding m_def by (rule digit_run_le)
  moreover have "exp_part (e # take s p1 @ take m (drop s p1))"
    using e s(1) digits1_run [OF d] unfolding exp_part_def m_def by blast
  ultimately show ?thesis using f n s(2) by (auto simp: p)
qed

lemma scan_fraction_sound:
  assumes "scan_fraction p = (NumOk, n, f)"
  shows "n \<le> length p \<and> frac_part (take n p) \<and> (f \<longleftrightarrow> take n p \<noteq> [])"
proof (cases "at_byte p 0x2E")
  case False
  then show ?thesis using assms by (auto simp: scan_fraction_def frac_part_def)
next
  case True
  then obtain q where q: "p = 0x2E # q" by (rule at_byteE)
  then have "at_digit q" "n = Suc (digit_run q)" "f"
    using assms True by (auto simp: scan_fraction_def split: if_splits)
  then show ?thesis
    using digits1_run [of q] digit_run_le [of q] by (auto simp: q frac_part_def)
qed

lemma scan_number_sound:
  assumes "scan_number t = (NumOk, n, sc)"
  shows "n \<le> length t \<and> (\<exists>neg ip fr ex. number_parts neg ip fr ex (take n t) \<and> sc = parts_scan neg ip fr ex)"
proof -
  define neg where "neg = at_byte t 0x2D"
  define i where "i = (if neg then 1 else 0 :: nat)"
  define t1 where "t1 = drop i t"
  define k where "k = digit_run t1"
  have i: "i \<le> length t" "take i t = (if neg then [0x2D] else [])"
    by (auto simp: i_def neg_def at_byte_def neq_Nil_conv)
  have d: "at_digit t1" and lz: "\<not> has_leading_zero t1 k"
    using assms unfolding k_def t1_def i_def neg_def
    by (auto simp: scan_number_def Let_def split: if_splits)
  obtain n1 f1 where fr: "scan_fraction (drop (i + k) t) = (NumOk, n1, f1)"
    using assms d lz unfolding k_def t1_def i_def neg_def
    by (auto simp: scan_number_def Let_def split: if_splits prod.splits)
  obtain n2 f2 where ex: "scan_exponent (drop (i + k + n1) t) = (NumOk, n2, f2)"
      and n: "n = i + k + n1 + n2"
      and sc: "sc = \<lparr>int_start = i, int_digits = k, negative = neg, is_float = f1 \<or> f2\<rparr>"
    using assms d lz fr unfolding k_def t1_def i_def neg_def
    by (auto simp: scan_number_def Let_def split: if_splits prod.splits)
  let ?ip = "take k t1" and ?fr = "take n1 (drop (i + k) t)" and ?ex = "take n2 (drop (i + k + n1) t)"
  have k: "k \<le> length t1" "0 < k" unfolding k_def using digit_run_le digit_run_pos [OF d] by auto
  have "hd ?ip = hd t1" using k by (cases t1) (auto simp: take_Cons')
  then have ip: "int_part ?ip"
    using digits1_run [OF d] lz k by (auto simp: int_part_def has_leading_zero_def k_def)
  have split: "take n t = take i t @ ?ip @ ?fr @ ?ex"
    by (simp add: n take_add t1_def add.commute add.left_commute)
  have fe: "n1 \<le> length (drop (i + k) t)" "frac_part ?fr" "f1 \<longleftrightarrow> ?fr \<noteq> []"
    "n2 \<le> length (drop (i + k + n1) t)" "exp_part ?ex" "f2 \<longleftrightarrow> ?ex \<noteq> []"
    using scan_fraction_sound [OF fr] scan_exponent_sound [OF ex] by auto
  have len: "n \<le> length t" using fe(1,4) k i by (auto simp: n t1_def)
  have "number_parts neg ?ip ?fr ?ex (take n t)"
    using ip fe split i(2) by (simp add: number_parts_def)
  moreover have "sc = parts_scan neg ?ip ?fr ?ex"
    using sc k fe(3,6) by (simp add: parts_scan_def i_def)
  ultimately show ?thesis using len by blast
qed

end
