(* ===== verification/JsonData.thy ===== *)
theory JsonData
  imports Prelude
begin

text \<open>
  The tagged union \<^verbatim>\<open>Json\<close> (\<^verbatim>\<open>include/pjh_json/json.hpp\<close>).  The type is
  polymorphic in the representation of a string: the parser builds trees whose
  strings are views \<open>(start, length)\<close> into the input buffer, every other component
  works on the byte contents.  The numeric slots are a 64-bit two's complement integer
  and a 64-bit IEEE pattern.
\<close>

section \<open>Values\<close>

datatype 's json =
    JNull
  | JBool bool
  | JInt u64
  | JFloat u64
  | JStr 's
  | JArr "'s json list"
  | JObj "('s \<times> 's json) list"

type_synonym jvalue = "bytes json"
type_synonym jentries = "(bytes \<times> bytes json) list"

text \<open>Nesting depth of a value: scalars 0, an empty container 1.\<close>

fun json_depth :: "'s json \<Rightarrow> nat" where
  "json_depth (JArr xs) = Suc (fold max (map json_depth xs) 0)"
| "json_depth (JObj es) = Suc (fold max (map (\<lambda>(k, v). json_depth v) es) 0)"
| "json_depth _ = 0"

text \<open>The number of nodes below a value, a measure for recursions over it.\<close>

fun json_weight :: "'s json \<Rightarrow> nat" where
  "json_weight (JArr xs) = Suc (sum_list (map (\<lambda>v. Suc (json_weight v)) xs))"
| "json_weight (JObj es) = Suc (sum_list (map (\<lambda>e. Suc (json_weight (snd e))) es))"
| "json_weight _ = 0"

lemma json_weight_mem:
  "v \<in> set xs \<Longrightarrow> json_weight v < json_weight (JArr xs)"
  "e \<in> set es \<Longrightarrow> json_weight (snd e) < json_weight (JObj es)"
  using member_le_sum_list [of "Suc (json_weight v)" "map (\<lambda>v. Suc (json_weight v)) xs"]
    member_le_sum_list [of "Suc (json_weight (snd e))" "map (\<lambda>e. Suc (json_weight (snd e))) es"]
  by fastforce+

text \<open>Objects with distinct keys all the way down.\<close>

fun unique_keys :: "'s json \<Rightarrow> bool" where
  "unique_keys (JArr xs) = list_all unique_keys xs"
| "unique_keys (JObj es) = (distinct (map fst es) \<and> list_all (\<lambda>e. unique_keys (snd e)) es)"
| "unique_keys _ = True"

section \<open>The 64-bit floating pattern\<close>

definition f_sign :: "u64 \<Rightarrow> bool" where
  "f_sign b \<longleftrightarrow> bit b 63"

definition f_exp :: "u64 \<Rightarrow> nat" where
  "f_exp b = unat (drop_bit 52 b AND 0x7FF)"

definition f_mant :: "u64 \<Rightarrow> nat" where
  "f_mant b = unat (b AND 0xFFFFFFFFFFFFF)"

definition f_isnan :: "u64 \<Rightarrow> bool" where
  "f_isnan b \<longleftrightarrow> f_exp b = 0x7FF \<and> f_mant b \<noteq> 0"

definition f_isfinite :: "u64 \<Rightarrow> bool" where
  "f_isfinite b \<longleftrightarrow> f_exp b \<noteq> 0x7FF"

definition f_neg :: "u64 \<Rightarrow> u64" where
  "f_neg b = b XOR 0x8000000000000000"

definition f_infinity :: u64 where "f_infinity = 0x7FF0000000000000"
definition f_quiet_nan :: u64 where "f_quiet_nan = 0x7FF8000000000000"

text \<open>
  The IEEE order through a sign-magnitude key; the two zeros share the key 0.  A comparison
  with a NaN operand is false.
\<close>

definition f_key :: "u64 \<Rightarrow> int" where
  "f_key b = (let m = int (unat (b AND 0x7FFFFFFFFFFFFFFF)) in if f_sign b then - m else m)"

definition f_eq :: "u64 \<Rightarrow> u64 \<Rightarrow> bool" where
  "f_eq a b \<longleftrightarrow> \<not> f_isnan a \<and> \<not> f_isnan b \<and> f_key a = f_key b"

definition f_lt :: "u64 \<Rightarrow> u64 \<Rightarrow> bool" where
  "f_lt a b \<longleftrightarrow> \<not> f_isnan a \<and> \<not> f_isnan b \<and> f_key a < f_key b"

section \<open>Correct rounding of a rational to a double\<close>

text \<open>
  The conversions of \<^verbatim>\<open><charconv>\<close> are specified by exact rounding: the nearest
  double, ties to even.  \<^term>\<open>round_double neg N D\<close> rounds \<open>N / D\<close>.  With
  \<open>k\<close> the binary exponent that leaves a 53-bit quotient (at least \<open>-1074\<close>, the
  exponent of the subnormals), the rounded quotient \<open>m\<close> has the bit pattern
  \<open>(k + 1074) * 2^52 + m\<close>, which is uniform over subnormal, normal and carry cases.
  \<^term>\<open>None\<close> is \<^verbatim>\<open>result_out_of_range\<close>: overflow to infinity, or a non-zero
  value that rounds to zero.
\<close>

fun bitlen :: "nat \<Rightarrow> nat" where
  "bitlen n = (if n = 0 then 0 else Suc (bitlen (n div 2)))"

declare bitlen.simps [simp del]

definition scaled :: "nat \<Rightarrow> nat \<Rightarrow> int \<Rightarrow> nat \<times> nat" where
  "scaled N D k = (if 0 \<le> k then (N, D * 2 ^ nat k) else (N * 2 ^ nat (- k), D))"

definition round_exp :: "nat \<Rightarrow> nat \<Rightarrow> int" where
  "round_exp N D =
     (let k0 = int (bitlen N) - int (bitlen D) - 53; (n, d) = scaled N D k0
      in max (if 2 ^ 53 \<le> n div d then k0 + 1 else k0) (- 1074))"

definition round_quot :: "nat \<Rightarrow> nat \<Rightarrow> nat" where
  "round_quot n d =
     (let q = n div d; r = n mod d
      in if 2 * r > d \<or> (2 * r = d \<and> odd q) then q + 1 else q)"

definition sign_bit :: "bool \<Rightarrow> u64" where
  "sign_bit neg = (if neg then 0x8000000000000000 else 0)"

definition round_double :: "bool \<Rightarrow> nat \<Rightarrow> nat \<Rightarrow> u64 option" where
  "round_double neg N D =
     (if N = 0 then Some (sign_bit neg)
      else
        let k = round_exp N D; (n, d) = scaled N D k; m = round_quot n d;
            bits = nat (k + 1074) * 2 ^ 52 + m
        in if m = 0 \<or> 0x7FF0000000000000 \<le> bits then None
           else Some (word_of_nat bits OR sign_bit neg))"

text \<open>The rounded quotient is a nearest integer: at most half a unit away.\<close>

lemma round_quot_nearest:
  assumes "0 < d"
  shows "2 * \<bar>int (round_quot n d) * int d - int n\<bar> \<le> int d"
proof -
  define q r where "q = n div d" and "r = n mod d"
  have n: "int n = int q * int d + int r" and r: "r < d"
    using assms by (simp_all add: q_def r_def flip: of_nat_mult of_nat_add)
  have up: "(1 + int q) * x = int q * x + x" for x by (simp add: algebra_simps)
  have d2: "int q * int d * 2 = 2 * (int q * int d)" by simp
  have abs: "\<bar>int q * int d - (int q * int d + int r)\<bar> = int r"
    "\<bar>(1 + int q) * int d - (int q * int d + int r)\<bar> = int d - int r"
    using r by (simp_all add: up)
  show ?thesis
    unfolding round_quot_def Let_def q_def [symmetric] r_def [symmetric] n
    using r by (simp add: abs)
qed

lemma round_quot_exact:
  assumes "0 < d" "d dvd n"
  shows "round_quot n d = n div d"
  using assms by (auto simp: round_quot_def Let_def)

end
