(* ===== verification/Numbers.thy ===== *)
theory Numbers
  imports Grammar JsonData
begin

text \<open>
  Number values (\<^verbatim>\<open>src/parser/number.cpp\<close>): the classification of a scanned token into
  an int64 or a finite double, and \<^verbatim>\<open>std::from_chars\<close> as exact rounding.
\<close>

section \<open>std::from_chars\<close>

datatype from_chars_result = FcInvalid | FcRange nat | FcOk nat u64

definition exponent_value :: "bool \<Rightarrow> bytes \<Rightarrow> int" where
  "exponent_value neg ds = (if neg then - int (digits_val ds) else int (digits_val ds))"

text \<open>The decimal \<open>m * 10 ^ e\<close> as a rounded double.\<close>

definition round_decimal :: "bool \<Rightarrow> nat \<Rightarrow> int \<Rightarrow> u64 option" where
  "round_decimal neg m e =
     (if 0 \<le> e then round_double neg (m * 10 ^ nat e) 1
      else round_double neg m (10 ^ nat (- e)))"

definition fc_exponent :: "bytes \<Rightarrow> nat \<times> int" where
  "fc_exponent p =
     (if at_byte p 0x65 \<or> at_byte p 0x45 then
        (let p1 = tl p; s = (if at_byte p1 0x2B \<or> at_byte p1 0x2D then 1 else 0); p2 = drop s p1
         in if at_digit p2
            then (1 + s + digit_run p2, exponent_value (at_byte p1 0x2D) (take (digit_run p2) p2))
            else (0, 0))
      else (0, 0))"

text \<open>
  \<^verbatim>\<open>from_chars(first, last, double&)\<close> with the general format: optional minus, digits
  with an optional point (at least one digit), optional exponent; longest match.
\<close>

definition from_chars_general :: "bytes \<Rightarrow> from_chars_result" where
  "from_chars_general t =
     (let neg = at_byte t 0x2D; i = (if neg then 1 else 0); t1 = drop i t;
          ip = take (digit_run t1) t1; t2 = drop (digit_run t1) t1;
          fr = (if at_byte t2 0x2E then take (digit_run (tl t2)) (tl t2) else []);
          j = (if at_byte t2 0x2E then 1 + digit_run (tl t2) else 0);
          (n, e) = fc_exponent (drop j t2)
      in if ip = [] \<and> fr = [] then FcInvalid
         else case round_decimal neg (digits_val (ip @ fr)) (e - int (length fr)) of
                None \<Rightarrow> FcRange (i + length ip + j + n)
              | Some b \<Rightarrow> FcOk (i + length ip + j + n) b)"

definition hex_digits_val :: "bytes \<Rightarrow> nat" where
  "hex_digits_val ds =
     foldl (\<lambda>v c. v * 16 + (case hex_value c of None \<Rightarrow> 0 | Some h \<Rightarrow> h)) 0 ds"

text \<open>\<^verbatim>\<open>chars_format::hex\<close> on a bare run of hex digits.\<close>

definition from_chars_hex :: "bytes \<Rightarrow> from_chars_result" where
  "from_chars_hex t =
     (let k = hex_run t in
      if k = 0 then FcInvalid
      else case round_double False (hex_digits_val (take k t)) 1 of
             None \<Rightarrow> FcRange k | Some b \<Rightarrow> FcOk k b)"

section \<open>Classification of an RFC 8259 token\<close>

text \<open>The 64-bit accumulation; the callers bound \<open>n\<close> by 19.\<close>

definition parse_u64 :: "bytes \<Rightarrow> nat \<Rightarrow> u64" where
  "parse_u64 p n = foldl (\<lambda>v c. v * 10 + (ucast c - 0x30)) 0 (take n p)"

definition kInt64MinAbs :: u64 where
  "kInt64MinAbs = 9223372036854775808"

definition kInt64MaxDigits :: bytes where
  "kInt64MaxDigits = lit ''9223372036854775807''"

definition kInt64MinAbsDigits :: bytes where
  "kInt64MinAbsDigits = lit ''9223372036854775808''"

text \<open>Equal-width lexicographic comparison of 19 digits.\<close>

definition fits_int64_19 :: "bytes \<Rightarrow> bool \<Rightarrow> bool" where
  "fits_int64_19 p neg = (take 19 p \<le> (if neg then kInt64MinAbsDigits else kInt64MaxDigits))"

text \<open>
  \<^verbatim>\<open>classify_number\<close> on the token \<open>[token_begin, token_end)\<close>: the value, or
  the error code and its offset in the token.  The digit count is cast to
  \<^verbatim>\<open>uint32_t\<close>, hence the \<open>mod 2 ^ 32\<close>.
\<close>

definition classify_number :: "bytes \<Rightarrow> number_scan \<Rightarrow> (error_code \<times> nat) + 's json" where
  "classify_number tok sc =
     (let neg = negative sc; ds = drop (int_start sc) tok;
          digits = int_digits sc mod 2 ^ 32;
          to_double = (case from_chars_general tok of
                         FcRange _ \<Rightarrow> Inl (NumberOutOfRange, 0)
                       | FcInvalid \<Rightarrow> Inl (NumberInvalidFormat, length tok)
                       | FcOk n b \<Rightarrow> if n \<noteq> length tok then Inl (NumberInvalidFormat, length tok)
                                     else Inr (JFloat b))
      in if \<not> is_float sc then
           (if digits < 19 then
              (let uval = parse_u64 ds digits in Inr (JInt (if neg then - uval else uval)))
            else if digits = 19 \<and> fits_int64_19 ds neg then
              (let uval = parse_u64 ds digits in
               if neg \<and> uval = kInt64MinAbs then Inr (JInt 0x8000000000000000)
               else Inr (JInt (if neg then - uval else uval)))
            else to_double)
         else to_double)"

section \<open>JSON5 numbers\<close>

text \<open>
  \<^verbatim>\<open>parse_number_json5\<close> on a scanned token: hexadecimal tokens stay integers as
  long as they fit, decimal tokens share the gate above; \<^verbatim>\<open>from_chars\<close> is fed the
  spelling after an explicit plus.
\<close>

definition hex_u64 :: "bytes \<Rightarrow> u64" where
  "hex_u64 ds = foldl (\<lambda>v c. v * 16 + (case hex_value c of None \<Rightarrow> - 1 | Some h \<Rightarrow> word_of_nat h)) 0 ds"

definition int64_of_magnitude :: "bool \<Rightarrow> u64 \<Rightarrow> 's json" where
  "int64_of_magnitude neg uval =
     (if neg \<and> uval = kInt64MinAbs then JInt 0x8000000000000000
      else JInt (if neg then - uval else uval))"

definition classify_hex_json5 :: "bytes \<Rightarrow> number_scan_json5 \<Rightarrow> (error_code \<times> nat) + 's json" where
  "classify_hex_json5 tok sc =
     (let neg = negative sc; ds = drop (int_start sc) tok; sig = dropWhile (\<lambda>c. c = 0x30) ds;
          uval = hex_u64 ds;
          fits = (length sig = 16 \<longrightarrow> (if neg then uval \<le> kInt64MinAbs else uval \<le> 0x7FFFFFFFFFFFFFFF))
      in if length sig \<le> 16 \<and> fits then Inr (int64_of_magnitude neg uval)
         else case from_chars_hex sig of
           FcRange _ \<Rightarrow> Inl (NumberOutOfRange, 0)
         | FcInvalid \<Rightarrow> Inl (NumberInvalidFormat, length tok)
         | FcOk n b \<Rightarrow> if n \<noteq> length sig then Inl (NumberInvalidFormat, length tok)
                       else Inr (JFloat (if neg then f_neg b else b)))"

definition classify_number_json5 :: "bytes \<Rightarrow> number_scan_json5 \<Rightarrow> (error_code \<times> nat) + 's json" where
  "classify_number_json5 tok sc =
     (let neg = negative sc; ds = drop (int_start sc) tok; digits = int_digits sc mod 2 ^ 32;
          num = (if explicit_plus sc then drop 1 tok else tok);
          to_double = (case from_chars_general num of
                         FcRange _ \<Rightarrow> Inl (NumberOutOfRange, 0)
                       | FcInvalid \<Rightarrow> Inl (NumberInvalidFormat, length tok)
                       | FcOk n b \<Rightarrow> if n \<noteq> length num then Inl (NumberInvalidFormat, length tok)
                                     else Inr (JFloat b))
      in if is_hex sc then classify_hex_json5 tok sc
         else if \<not> is_float sc then
           (if digits < 19 then
              (let uval = parse_u64 ds digits in Inr (JInt (if neg then - uval else uval)))
            else if digits = 19 \<and> fits_int64_19 ds neg
              then Inr (int64_of_magnitude neg (parse_u64 ds digits))
            else to_double)
         else to_double)"

definition number_error_code :: "number_error \<Rightarrow> error_code" where
  "number_error_code e =
     (case e of NumOk \<Rightarrow> NoError | NoIntDigits \<Rightarrow> NumberNoIntDigits | LeadingZero \<Rightarrow> NumberLeadingZero
      | NoFracDigits \<Rightarrow> NumberNoFracDigits | NoExpDigits \<Rightarrow> NumberNoExpDigits)"

text \<open>
  \<^verbatim>\<open>parse_number\<close> and \<^verbatim>\<open>parse_number_json5\<close> on the bytes \<open>[m_curr, m_end)\<close>: the
  bytes consumed and the value, or the code and its offset from the token start.
\<close>

definition number_rfc :: "bytes \<Rightarrow> (error_code \<times> nat) + (nat \<times> 's json)" where
  "number_rfc p =
     (case scan_number p of (e, n, sc) \<Rightarrow>
        if e \<noteq> NumOk then Inl (number_error_code e, n)
        else case classify_number (take n p) sc of
               Inl err \<Rightarrow> Inl err | Inr v \<Rightarrow> Inr (n, v))"

definition number_json5 :: "bytes \<Rightarrow> (error_code \<times> nat) + (nat \<times> 's json)" where
  "number_json5 p =
     (let neg = at_byte p 0x2D; i = (if at_byte p 0x2B \<or> at_byte p 0x2D then 1 else 0);
          (n, nf) = match_json5_nonfinite (drop i p);
          d = (if nf = NfInfinity then f_infinity else f_quiet_nan)
      in if nf \<noteq> NfNone then Inr (i + n, JFloat (if neg then f_neg d else d))
         else case scan_number_json5 p of (e, n, sc) \<Rightarrow>
           if e \<noteq> NumOk then Inl (number_error_code e, n)
           else case classify_number_json5 (take n p) sc of
                  Inl err \<Rightarrow> Inl err | Inr v \<Rightarrow> Inr (n, v))"

section \<open>Value of a token\<close>

definition exp_value :: "bytes \<Rightarrow> int" where
  "exp_value ex = snd (fc_exponent ex)"

text \<open>The double an out-of-range integer or a float token stands for.\<close>

definition token_double :: "bool \<Rightarrow> bytes \<Rightarrow> bytes \<Rightarrow> bytes \<Rightarrow> u64 option" where
  "token_double neg ip fr ex =
     round_decimal neg (digits_val (ip @ tl fr)) (exp_value ex - int (length (tl fr)))"

definition int64_range :: "bool \<Rightarrow> nat \<Rightarrow> bool" where
  "int64_range neg v \<longleftrightarrow> v \<le> (if neg then 2 ^ 63 else 2 ^ 63 - 1)"

definition token_value :: "bool \<Rightarrow> bytes \<Rightarrow> bytes \<Rightarrow> bytes \<Rightarrow> 's json option" where
  "token_value neg ip fr ex =
     (if fr = [] \<and> ex = [] \<and> int64_range neg (digits_val ip)
      then Some (JInt (if neg then - word_of_nat (digits_val ip) else word_of_nat (digits_val ip)))
      else map_option JFloat (token_double neg ip fr ex))"

lemma fc_exponent_parts:
  assumes "exp_part ex"
  shows "fc_exponent ex = (length ex, exp_value ex)"
proof -
  have "fst (fc_exponent ex) = length ex"
  proof (cases "ex = []")
    case True
    then show ?thesis by (simp add: fc_exponent_def at_byte_def)
  next
    case False
    then obtain e s ds where ex: "ex = e # s @ ds" "e = 0x65 \<or> e = 0x45"
        "s = [] \<or> s = [0x2B] \<or> s = [0x2D]" and ds: "digits1 ds"
      using assms by (auto simp: exp_part_def)
    have run: "digit_run ds = length ds" "at_digit ds"
      using ds digit_run_append [of ds "[]"] at_digit_append [of ds "[]"] by (auto simp: digits1_def)
    have nd: "\<not> at_byte ds 0x2B" "\<not> at_byte ds 0x2D"
      using digits1_Cons [OF ds] by (auto simp: at_byte_def)
    have e: "at_byte (e # p) 0x65 \<or> at_byte (e # p) 0x45" for p
      using ex(2) by (auto simp: at_byte_def)
    from ex(3) show ?thesis
    proof (elim disjE)
      assume "s = []"
      then show ?thesis using e run nd by (simp add: fc_exponent_def ex(1))
    next
      assume "s = [0x2B]"
      then show ?thesis using e run by (simp add: fc_exponent_def ex(1) at_byte_def)
    next
      assume "s = [0x2D]"
      then show ?thesis using e run by (simp add: fc_exponent_def ex(1) at_byte_def)
    qed
  qed
  then show ?thesis by (simp add: exp_value_def prod_eq_iff)
qed

lemma from_chars_general_parts:
  assumes "number_parts neg ip fr ex t"
  shows "from_chars_general t =
    (case token_double neg ip fr ex of None \<Rightarrow> FcRange (length t) | Some b \<Rightarrow> FcOk (length t) b)"
proof -
  have t: "t = (if neg then [0x2D] else []) @ ip @ fr @ ex" and ip: "int_part ip"
    and fr: "frac_part fr" and ex: "exp_part ex"
    using assms by (auto simp: number_parts_def)
  let ?u = "fr @ ex"
  have stop: "num_stop []" by (simp add: num_stop_def)
  have u: "?u = [] \<or> \<not> is_dec_digit (hd ?u)"
    using exp_part_hd [OF ex stop] fr by (auto simp: frac_part_def)
  have run: "digit_run (ip @ ?u) = length ip"
    using ip u by (auto intro!: digit_run_append simp: digits1_def int_part_def)
  have nd: "\<not> at_byte (ip @ ?u) 0x2D" and ne: "ip \<noteq> []"
    using digits1_Cons [of ip] ip by (auto simp: at_byte_def int_part_def)
  have i: "drop (if neg then 1 else 0) t = ip @ ?u" "at_byte t 0x2D \<longleftrightarrow> neg"
    using nd by (auto simp: t at_byte_def)
  have nfr: "at_byte ?u 0x2E \<longleftrightarrow> fr \<noteq> []"
    using fr exp_part_hd [OF ex stop] by (auto simp: frac_part_def at_byte_def)
  have frun: "fr \<noteq> [] \<Longrightarrow> digit_run (tl ?u) = length (tl fr)"
  proof -
    assume "fr \<noteq> []"
    then obtain ds where f: "fr = 0x2E # ds" "digits1 ds" using fr by (auto simp: frac_part_def)
    then show ?thesis
      using exp_part_hd(1) [OF ex stop] by (auto intro!: digit_run_append simp: digits1_def)
  qed
  have len: "(if neg then 1 else 0) + length ip + (length fr + length ex) = length t"
    by (simp add: t)
  have j: "(if at_byte ?u 0x2E then 1 + digit_run (tl ?u) else 0) = length fr"
    "(if at_byte ?u 0x2E then take (digit_run (tl ?u)) (tl ?u) else []) = tl fr"
    using nfr frun by (cases fr; simp)+
  have sp: "take (length ip) (ip @ ?u) = ip" "drop (length ip) (ip @ ?u) = ?u"
    "drop (length fr) ?u = ex" by simp_all
  have e: "length (tl fr) = length fr - 1" by simp
  show ?thesis
    unfolding from_chars_general_def i(2) Let_def i(1) run sp j fc_exponent_parts [OF ex] prod.case
      token_double_def
    using ne len by (cases neg) (simp_all add: add.assoc split: option.splits)
qed

section \<open>Integer accumulation and the 19-digit comparison\<close>

lemma dec_digit_num: "is_dec_digit c \<longleftrightarrow> 48 \<le> unat c \<and> unat c \<le> 57"
  by (simp add: is_dec_digit_def word_le_nat_alt)

lemma u64_digit:
  assumes "is_dec_digit c"
  shows "(ucast c - 0x30 :: u64) = word_of_nat (digit_val c)"
proof -
  have "(ucast c :: u64) = word_of_nat (unat c)" by simp
  moreover have "unat c = 48 + digit_val c"
    using assms by (simp add: dec_digit_num digit_val_def)
  ultimately have "(ucast c :: u64) = word_of_nat (48 + digit_val c)" by simp
  then show ?thesis by simp
qed

lemma parse_u64_value:
  "\<forall>d \<in> set ds. is_dec_digit d \<Longrightarrow> parse_u64 ds (length ds) = word_of_nat (digits_val ds)"
proof (induction ds rule: rev_induct)
  case Nil
  then show ?case by (simp add: parse_u64_def digits_val_def)
next
  case (snoc d ds)
  then show ?case by (simp add: parse_u64_def digits_val_def u64_digit)
qed

lemma digit_val_less:
  "is_dec_digit c \<Longrightarrow> is_dec_digit d \<Longrightarrow> digit_val c < digit_val d \<longleftrightarrow> c < d"
  by (auto simp: dec_digit_num digit_val_def word_less_nat_alt)

lemma digits_val_Cons: "digits_val (d # ds) = digit_val d * 10 ^ length ds + digits_val ds"
proof (induction ds rule: rev_induct)
  case Nil
  then show ?case by (simp add: digits_val_def)
next
  case (snoc x ds)
  have "digits_val (d # ds @ [x]) = digits_val (d # ds) * 10 + digit_val x"
    using digits_val_snoc [of "d # ds" x] by simp
  then show ?case using snoc by (simp add: digits_val_snoc algebra_simps)
qed

text \<open>On runs of one width the lexicographic order is the numeric one.\<close>

lemma digits_less_iff:
  assumes "length xs = length ys" "\<forall>d \<in> set xs. is_dec_digit d" "\<forall>d \<in> set ys. is_dec_digit d"
  shows "xs < ys \<longleftrightarrow> digits_val xs < digits_val ys"
  using assms
proof (induction xs ys rule: list_induct2)
  case Nil
  then show ?case by simp
next
  case (Cons x xs y ys)
  let ?B = "10 ^ length ys :: nat"
  have b: "digits_val xs < ?B" "digits_val ys < ?B"
    using digits_val_bound [of xs] digits_val_bound [of ys] Cons by auto
  consider "x < y" | "y < x" | "x = y" by (rule linorder_cases)
  then show ?case
  proof cases
    case 1
    then have "Suc (digit_val x) \<le> digit_val y" using Cons digit_val_less [of x y] by simp
    then have "Suc (digit_val x) * ?B \<le> digit_val y * ?B" by (rule mult_le_mono1)
    then show ?thesis using 1 b Cons by (simp add: digits_val_Cons)
  next
    case 2
    then have "Suc (digit_val y) \<le> digit_val x" using Cons digit_val_less [of y x] by simp
    then have "Suc (digit_val y) * ?B \<le> digit_val x * ?B" by (rule mult_le_mono1)
    moreover have "\<not> x < y" "x \<noteq> y" using 2 by auto
    ultimately show ?thesis using b Cons by (simp add: digits_val_Cons)
  next
    case 3
    then show ?thesis using Cons by (simp add: digits_val_Cons)
  qed
qed

lemma int64_limits:
  "digits_val kInt64MaxDigits = 2 ^ 63 - 1" "digits_val kInt64MinAbsDigits = 2 ^ 63"
  "length kInt64MaxDigits = 19" "length kInt64MinAbsDigits = 19"
  "\<forall>d \<in> set kInt64MaxDigits. is_dec_digit d" "\<forall>d \<in> set kInt64MinAbsDigits. is_dec_digit d"
  by (simp_all add: kInt64MaxDigits_def kInt64MinAbsDigits_def lit_def digits_val_def digit_val_def
      is_dec_digit_def)

lemma fits_int64_19_iff:
  assumes "length ds = 19" "\<forall>d \<in> set ds. is_dec_digit d"
  shows "fits_int64_19 (ds @ r) neg \<longleftrightarrow> int64_range neg (digits_val ds)"
proof -
  let ?l = "if neg then kInt64MinAbsDigits else kInt64MaxDigits"
  have "\<not> ?l < ds \<longleftrightarrow> \<not> digits_val ?l < digits_val ds"
    using assms int64_limits digits_less_iff [of ?l ds] by simp
  then show ?thesis
    using assms(1) int64_limits by (simp add: fits_int64_19_def int64_range_def not_less)
qed

lemma int64_range_digits:
  assumes "int_part ip" "int64_range neg (digits_val ip)"
  shows "length ip \<le> 19"
proof (rule ccontr)
  assume n: "\<not> length ip \<le> 19"
  obtain d ds where ip: "ip = d # ds" and d: "is_dec_digit d"
    using assms(1) digits1_Cons [of ip] by (auto simp: int_part_def)
  have "ds \<noteq> []" using n by (auto simp: ip)
  then have "d \<noteq> 0x30" using assms(1) by (simp add: int_part_def ip)
  then have "unat d \<noteq> 48" using word_eq_unat [of d "0x30"] by auto
  then have "1 \<le> digit_val d" using d by (auto simp: digit_val_def dec_digit_num)
  then have "1 * 10 ^ length ds \<le> digit_val d * 10 ^ length ds" by (rule mult_le_mono1)
  moreover have "(10::nat) ^ 19 \<le> 10 ^ length ds"
    by (rule power_increasing) (use n in \<open>simp_all add: ip\<close>)
  ultimately have "10 ^ 19 \<le> digits_val ip" unfolding ip digits_val_Cons by linarith
  then show False using assms(2) by (simp add: int64_range_def split: if_splits)
qed

lemma int64_range_short:
  assumes "int_part ip" "length ip < 19"
  shows "int64_range neg (digits_val ip)"
proof -
  have "digits_val ip < 10 ^ length ip"
    using assms(1) by (intro digits_val_bound) (simp add: int_part_def digits1_def)
  moreover have "(10::nat) ^ length ip \<le> 10 ^ 18" using assms(2) by (intro power_increasing) auto
  ultimately have "digits_val ip < 10 ^ 18" by simp
  then show ?thesis by (simp add: int64_range_def)
qed

lemma classify_number_parts:
  assumes "number_parts neg ip fr ex t" "length t < 2 ^ 32"
  shows "classify_number t (parts_scan neg ip fr ex) =
    (case token_value neg ip fr ex of None \<Rightarrow> Inl (NumberOutOfRange, 0) | Some v \<Rightarrow> Inr v)"
proof -
  have t: "t = (if neg then [0x2D] else []) @ ip @ fr @ ex" and ip: "int_part ip"
    using assms(1) by (auto simp: number_parts_def)
  have ds: "drop (if neg then 1 else 0) t = ip @ fr @ ex" by (simp add: t)
  have len: "length ip mod 2 ^ 32 = length ip" using assms(2) by (simp add: t)
  have dig: "\<forall>d \<in> set ip. is_dec_digit d" using ip by (simp add: int_part_def digits1_def)
  have pu: "parse_u64 (ip @ fr @ ex) (length ip) = word_of_nat (digits_val ip)"
    using parse_u64_value [OF dig] by (simp add: parse_u64_def)
  have fits: "length ip = 19 \<Longrightarrow> fits_int64_19 (ip @ fr @ ex) neg \<longleftrightarrow> int64_range neg (digits_val ip)"
    using fits_int64_19_iff [OF _ dig] by simp
  have minus: "neg \<Longrightarrow> word_of_nat (digits_val ip) = kInt64MinAbs \<Longrightarrow>
      (0x8000000000000000 :: u64) = - word_of_nat (digits_val ip)"
    by (simp add: kInt64MinAbs_def)
  have sc: "int_start (parts_scan neg ip fr ex) = (if neg then 1 else 0)"
    "int_digits (parts_scan neg ip fr ex) = length ip" "negative (parts_scan neg ip fr ex) = neg"
    "is_float (parts_scan neg ip fr ex) \<longleftrightarrow> fr \<noteq> [] \<or> ex \<noteq> []"
    by (simp_all add: parts_scan_def)
  note unf = classify_number_def sc Let_def ds len pu
    from_chars_general_parts [OF assms(1)] token_value_def
  show ?thesis
  proof (cases "fr = [] \<and> ex = [] \<and> int64_range neg (digits_val ip)")
    case True
    then have "length ip < 19 \<or> length ip = 19 \<and> fits_int64_19 (ip @ fr @ ex) neg"
      using int64_range_digits [OF ip] fits by auto
    then show ?thesis
      using True pu minus unfolding unf by auto
  next
    case False
    then have no: "fr = [] \<and> ex = [] \<Longrightarrow> \<not> length ip < 19"
        "fr = [] \<and> ex = [] \<Longrightarrow> length ip = 19 \<Longrightarrow> \<not> fits_int64_19 (ip @ fr @ ex) neg"
      using int64_range_short [OF ip] fits by auto
    have "(if \<not> (fr \<noteq> [] \<or> ex \<noteq> []) then
        if length ip < 19 then A else if length ip = 19 \<and> fits_int64_19 (ip @ fr @ ex) neg then B else C
        else C) = C" for A B C :: "(error_code \<times> nat) + 'a json"
      using no by auto
    then show ?thesis
      unfolding unf using False by (auto split: option.splits)
  qed
qed

text \<open>What the scanner and the classifier make of a maximal number token.\<close>

lemma number_rfc_complete:
  assumes "number_parts neg ip fr ex t" "num_stop r" "length t < 2 ^ 32"
  shows "(number_rfc (t @ r) :: (error_code \<times> nat) + (nat \<times> 's json)) =
    (case token_value neg ip fr ex of None \<Rightarrow> Inl (NumberOutOfRange, 0) | Some v \<Rightarrow> Inr (length t, v))"
  using scan_number_complete [OF assms(1,2)] classify_number_parts [OF assms(1,3), where 'a = 's]
  by (simp add: number_rfc_def split: option.splits)

lemma number_rfc_sound:
  assumes "number_rfc p = Inr (n, v :: 's json)" "n < 2 ^ 32"
  shows "n \<le> length p \<and> (\<exists>neg ip fr ex. number_parts neg ip fr ex (take n p) \<and> token_value neg ip fr ex = Some v)"
proof -
  obtain sc where sc: "scan_number p = (NumOk, n, sc)" "classify_number (take n p) sc = Inr v"
    using assms(1) by (auto simp: number_rfc_def split: prod.splits if_splits sum.splits)
  then obtain neg ip fr ex where parts: "number_parts neg ip fr ex (take n p)"
      "sc = parts_scan neg ip fr ex" and n: "n \<le> length p"
    using scan_number_sound [OF sc(1)] by auto
  have "length (take n p) < 2 ^ 32" using assms(2) by simp
  from classify_number_parts [OF parts(1) this, where 'a = 's] sc(2) parts(2)
  have "token_value neg ip fr ex = Some v" by (simp split: option.splits)
  with parts(1) n show ?thesis by blast
qed

end
