(* ===== verification/ToChars.thy ===== *)
theory ToChars
  imports Numbers
begin

text \<open>
  \<^verbatim>\<open>std::to_chars\<close> as the writer uses it: exact decimal output of an \<open>int64\<close>, and
  the shortest text of a double that \<^verbatim>\<open>std::from_chars\<close> reads back to the same bits.
\<close>

section \<open>Integers\<close>

definition to_chars_int :: "nat \<Rightarrow> u64 \<Rightarrow> bytes option" where
  "to_chars_int room i =
     (let s = (if sint i < 0 then 0x2D # dec (nat (- sint i)) else dec (nat (sint i)))
      in if length s \<le> room then Some s else None)"

section \<open>Doubles\<close>

text \<open>The magnitude as a fraction: \<open>m * 2 ^ e\<close>.\<close>

definition f_fraction :: "u64 \<Rightarrow> nat \<times> nat" where
  "f_fraction b =
     (let m = (if f_exp b = 0 then f_mant b else f_mant b + 2 ^ 52);
          e = int (if f_exp b = 0 then 1 else f_exp b) - 1075
      in if 0 \<le> e then (m * 2 ^ nat e, 1) else (m, 2 ^ nat (- e)))"

text \<open>The exponent of the leading decimal digit of \<open>N / D\<close>.\<close>

definition log10_floor :: "nat \<Rightarrow> nat \<Rightarrow> int" where
  "log10_floor N D =
     (if D \<le> N then int (length (dec (N div D))) - 1 else - int (length (dec ((D - 1) div N))))"

definition two_digits :: "nat \<Rightarrow> bytes" where
  "two_digits n = (if n < 10 then 0x30 # dec n else dec n)"

text \<open>The two notations of \<open>d * 10 ^ k\<close>.\<close>

definition scientific :: "nat \<Rightarrow> int \<Rightarrow> bytes" where
  "scientific d k =
     (let ds = dec d; x = k + int (length ds) - 1
      in [hd ds] @ (if tl ds = [] then [] else 0x2E # tl ds) @
         [0x65, if x < 0 then 0x2D else 0x2B] @ two_digits (nat \<bar>x\<bar>))"

definition fixed :: "nat \<Rightarrow> int \<Rightarrow> bytes" where
  "fixed d k =
     (let ds = dec d; n = length ds; f = nat (- k)
      in if 0 \<le> k then ds @ replicate (nat k) 0x30
         else if f < n then take (n - f) ds @ 0x2E # drop (n - f) ds
         else 0x30 # 0x2E # replicate (f - n) 0x30 @ ds)"

text \<open>A rounded-up neighbour may end in zeros.\<close>

fun strip_zeros :: "nat \<Rightarrow> int \<Rightarrow> nat \<times> int" where
  "strip_zeros d k = (if d \<noteq> 0 \<and> d mod 10 = 0 then strip_zeros (d div 10) (k + 1) else (d, k))"

declare strip_zeros.simps [simp del]

text \<open>The decimals with \<open>n\<close> digits next to \<open>N / D\<close>, the nearer one first.\<close>

definition neighbours :: "nat \<Rightarrow> nat \<Rightarrow> nat \<Rightarrow> (nat \<times> int) list" where
  "neighbours N D n =
     (let k = log10_floor N D - int n + 1;
          (p, q) = (if 0 \<le> k then (N, D * 10 ^ nat k) else (N * 10 ^ nat (- k), D));
          d = p div q
      in if p mod q = 0 then [(d, k)]
         else if 2 * (p mod q) \<le> q then [(d, k), (d + 1, k)] else [(d + 1, k), (d, k)])"

text \<open>Candidates, the closer and the plainer first among texts of one length.\<close>

definition candidates :: "nat \<Rightarrow> nat \<Rightarrow> bytes list" where
  "candidates N D =
     (if N mod D = 0 then [dec (N div D)] else []) @
     concat (map (\<lambda>(d, k). if d = 0 then []
                          else case strip_zeros d k of (d, k) \<Rightarrow> [fixed d k, scientific d k])
       (concat (map (neighbours N D) [1 ..< 18])))"

text \<open>
  The shortest candidate that reads back.  Seventeen digits always suffice for a double; if
  none did, the result would be the error the caller checks for.
\<close>

definition shortest_text :: "u64 \<Rightarrow> bytes option" where
  "shortest_text b =
     (let (N, D) = f_fraction b; minus = (if f_sign b then [0x2D] else [])
      in if N = 0 then Some (minus @ [0x30])
         else find (\<lambda>s. from_chars_general s = FcOk (length s) b)
                (map (\<lambda>s. minus @ s) (sort_key length (candidates N D))))"

definition to_chars_double :: "nat \<Rightarrow> u64 \<Rightarrow> bytes option" where
  "to_chars_double room b =
     (case shortest_text b of
        None \<Rightarrow> None
      | Some s \<Rightarrow> if length s \<le> room then Some s else None)"

end
