(* ===== verification/Utf8.thy ===== *)
theory Utf8
  imports Errors
begin

unbundle bit_operations_syntax

text \<open>
  UTF-8: the encoder of the escape decoder (\<^verbatim>\<open>src/parser/utils.cpp\<close>), the
  strict bounded decoder (\<^verbatim>\<open>src/parser/unicode.hpp\<close>) and the sequential checker
  behind \<^verbatim>\<open>Config::strict_utf8\<close> (\<^verbatim>\<open>include/pjh_json/detail/utf8.hpp\<close>), with the
  proof that the three agree on what a well-formed byte string is.
\<close>

section \<open>Encoder and decoder\<close>

definition encode_utf8 :: "u32 \<Rightarrow> bytes option" where
  "encode_utf8 cp =
     (if cp \<le> 0x7F then Some [ucast cp]
      else if cp \<le> 0x7FF then
        Some [ucast (0xC0 OR (drop_bit 6 cp AND 0x1F)),
              ucast (0x80 OR (cp AND 0x3F))]
      else if cp \<le> 0xFFFF then
        Some [ucast (0xE0 OR (drop_bit 12 cp AND 0x0F)),
              ucast (0x80 OR (drop_bit 6 cp AND 0x3F)),
              ucast (0x80 OR (cp AND 0x3F))]
      else if cp \<le> 0x10FFFF then
        Some [ucast (0xF0 OR (drop_bit 18 cp AND 0x07)),
              ucast (0x80 OR (drop_bit 12 cp AND 0x3F)),
              ucast (0x80 OR (drop_bit 6 cp AND 0x3F)),
              ucast (0x80 OR (cp AND 0x3F))]
      else None)"

definition is_cont :: "byte \<Rightarrow> bool" where
  "is_cont b \<longleftrightarrow> 0x80 \<le> b \<and> b \<le> 0xBF"

text \<open>
  \<^verbatim>\<open>unicode::decode_utf8\<close> on the bytes left in \<^verbatim>\<open>[p, e)\<close>: the code point and
  the length of the sequence.
\<close>

definition decode_utf8 :: "bytes \<Rightarrow> (u32 \<times> nat) option" where
  "decode_utf8 p =
     (if p = [] then None else
      let b0 = p ! 0 in
      if b0 \<le> 0x7F then Some (ucast b0, 1)
      else if 0xC2 \<le> b0 \<and> b0 \<le> 0xDF then
        (if length p < 2 \<or> \<not> is_cont (p ! 1) then None
         else Some (push_bit 6 (ucast (b0 AND 0x1F)) OR ucast (p ! 1 AND 0x3F), 2))
      else if 0xE0 \<le> b0 \<and> b0 \<le> 0xEF then
        (if length p < 3 then None else
         let b1 = p ! 1; b2 = p ! 2;
             c1_lo = (if b0 = 0xE0 then 0xA0 else 0x80);
             c1_hi = (if b0 = 0xED then 0x9F else 0xBF)
         in if b1 < c1_lo \<or> c1_hi < b1 \<or> \<not> is_cont b2 then None
            else Some (push_bit 12 (ucast (b0 AND 0x0F)) OR push_bit 6 (ucast (b1 AND 0x3F))
                         OR ucast (b2 AND 0x3F), 3))
      else if 0xF0 \<le> b0 \<and> b0 \<le> 0xF4 then
        (if length p < 4 then None else
         let b1 = p ! 1; b2 = p ! 2; b3 = p ! 3;
             c1_lo = (if b0 = 0xF0 then 0x90 else 0x80);
             c1_hi = (if b0 = 0xF4 then 0x8F else 0xBF)
         in if b1 < c1_lo \<or> c1_hi < b1 \<or> \<not> is_cont b2 \<or> \<not> is_cont b3 then None
            else Some (push_bit 18 (ucast (b0 AND 0x07)) OR push_bit 12 (ucast (b1 AND 0x3F))
                         OR push_bit 6 (ucast (b2 AND 0x3F)) OR ucast (b3 AND 0x3F), 4))
      else None)"

text \<open>A byte string is well formed when it is a sequence of decodable units.\<close>

lemma decode_utf8_len:
  "decode_utf8 p = Some (cp, n) \<Longrightarrow> 1 \<le> n \<and> n \<le> 4 \<and> n \<le> length p"
  by (auto simp: decode_utf8_def Let_def Suc_le_eq split: if_splits)

function utf8_valid :: "bytes \<Rightarrow> bool" where
  "utf8_valid p =
     (if p = [] then True
      else case decode_utf8 p of None \<Rightarrow> False | Some (cp, n) \<Rightarrow> utf8_valid (drop n p))"
  by pat_completeness auto
termination
  by (relation "measure length") (auto dest!: decode_utf8_len)

declare utf8_valid.simps [simp del]

section \<open>The sequential checker\<close>

record utf8_checker =
  need :: nat
  c1lo :: byte
  c1hi :: byte
  lead :: nat
  m_fail_code :: error_code
  ck_code :: error_code
  ck_err :: nat

definition checker0 :: utf8_checker where
  "checker0 = \<lparr>need = 0, c1lo = 0, c1hi = 0, lead = 0, m_fail_code = NoError,
     ck_code = NoError, ck_err = 0\<rparr>"

definition ck_failed :: "utf8_checker \<Rightarrow> bool" where
  "ck_failed ck \<longleftrightarrow> ck_code ck \<noteq> NoError"

definition ck_set :: "error_code \<Rightarrow> nat \<Rightarrow> utf8_checker \<Rightarrow> utf8_checker" where
  "ck_set c pos ck = (if ck_failed ck then ck else ck\<lparr>ck_code := c, ck_err := pos\<rparr>)"

definition ck_start ::
  "nat \<Rightarrow> byte \<Rightarrow> byte \<Rightarrow> error_code \<Rightarrow> nat \<Rightarrow> utf8_checker \<Rightarrow> utf8_checker" where
  "ck_start n lo hi c pos ck =
     ck\<lparr>need := n, c1lo := lo, c1hi := hi, m_fail_code := c, lead := pos\<rparr>"

text \<open>\<^verbatim>\<open>Utf8Checker::feed\<close>: one byte at its source position.\<close>

definition ck_feed :: "byte \<Rightarrow> nat \<Rightarrow> utf8_checker \<Rightarrow> utf8_checker" where
  "ck_feed b pos ck =
     (if ck_failed ck then ck
      else if need ck = 0 then
        (if b \<le> 0x7F then ck
         else if 0xC2 \<le> b \<and> b \<le> 0xDF then ck_start 1 0x80 0xBF NoError pos ck
         else if b = 0xE0 then ck_start 2 0xA0 0xBF Utf8Overlong pos ck
         else if b = 0xED then ck_start 2 0x80 0x9F Utf8Surrogate pos ck
         else if (0xE1 \<le> b \<and> b \<le> 0xEC) \<or> b = 0xEE \<or> b = 0xEF
           then ck_start 2 0x80 0xBF NoError pos ck
         else if b = 0xF0 then ck_start 3 0x90 0xBF Utf8Overlong pos ck
         else if b = 0xF4 then ck_start 3 0x80 0x8F Utf8ExceedsMax pos ck
         else if 0xF1 \<le> b \<and> b \<le> 0xF3 then ck_start 3 0x80 0xBF NoError pos ck
         else if b = 0xC0 \<or> b = 0xC1 then ck_set Utf8Overlong pos ck
         else ck_set Utf8InvalidLead pos ck)
      else if b < 0x20 then ck
      else if pos = lead ck + 1 then
        (if b < 0x80 \<or> 0xBF < b then ck_set Utf8InvalidContinuation pos ck
         else if b < c1lo ck \<or> c1hi ck < b then ck_set (m_fail_code ck) (lead ck) ck
         else ck\<lparr>need := need ck - 1\<rparr>)
      else if b < 0x80 \<or> 0xBF < b then ck_set Utf8InvalidContinuation pos ck
      else ck\<lparr>need := need ck - 1\<rparr>)"

definition ck_end :: "utf8_checker \<Rightarrow> utf8_checker" where
  "ck_end ck = (if need ck \<noteq> 0 \<and> \<not> ck_failed ck then ck_set Utf8Truncated (lead ck) ck else ck)"

text \<open>\<^verbatim>\<open>feed_range\<close>: a run of bytes starting at position \<open>pos\<close>.\<close>

fun feed_range :: "bytes \<Rightarrow> nat \<Rightarrow> utf8_checker \<Rightarrow> utf8_checker" where
  "feed_range [] pos ck = ck"
| "feed_range (b # bs) pos ck =
     (if ck_failed ck then ck else feed_range bs (Suc pos) (ck_feed b pos ck))"

definition check_utf8_strict :: "bytes \<Rightarrow> nat \<Rightarrow> error_code \<times> nat" where
  "check_utf8_strict bs pos =
     (let ck = ck_end (feed_range bs pos checker0) in (ck_code ck, ck_err ck))"

section \<open>Encoding and decoding are inverse\<close>

definition is_scalar :: "u32 \<Rightarrow> bool" where
  "is_scalar cp \<longleftrightarrow> unat cp < 0x110000 \<and> \<not> (0xD800 \<le> unat cp \<and> unat cp \<le> 0xDFFF)"

lemma cont_byte: "unat (ucast (0x80 OR (x AND 0x3F) :: u32) :: byte) = 0x80 + unat x mod 64"
  by (subst lead_byte [where k = 6 and m = 2]) (auto simp: buf_simps)

lemma lead2_byte: "unat (ucast (0xC0 OR (x AND 0x1F) :: u32) :: byte) = 0xC0 + unat x mod 32"
  by (subst lead_byte [where k = 5 and m = 6]) (auto simp: buf_simps)

lemma lead3_byte: "unat (ucast (0xE0 OR (x AND 0x0F) :: u32) :: byte) = 0xE0 + unat x mod 16"
  by (subst lead_byte [where k = 4 and m = 14]) (auto simp: buf_simps)

lemma lead4_byte: "unat (ucast (0xF0 OR (x AND 0x07) :: u32) :: byte) = 0xF0 + unat x mod 8"
  by (subst lead_byte [where k = 3 and m = 30]) (auto simp: buf_simps)

lemmas enc_bytes = cont_byte lead2_byte lead3_byte lead4_byte unat_drop_bit

lemma unat_bits6: "unat (ucast (b AND 0x3F :: byte) :: u32) = unat b mod 64"
  by (simp add: unat_ucast_8_32 buf_simps)

lemma dec2_val:
  "unat (push_bit 6 (ucast (b0 AND 0x1F :: byte)) OR ucast (b1 AND 0x3F :: byte) :: u32)
     = (unat b0 mod 32) * 64 + unat b1 mod 64"
proof -
  have "unat (push_bit 6 (ucast (b0 AND 0x1F :: byte)) :: u32) = (unat b0 mod 32) * 64"
    by (subst unat_push_bit) (auto simp: unat_ucast_8_32 buf_simps)
  then show ?thesis
    by (subst unat_or_add [where k = 6 and m = "unat b0 mod 32"]) (auto simp: unat_bits6)
qed

lemma dec3_val:
  "unat (push_bit 12 (ucast (b0 AND 0x0F :: byte)) OR push_bit 6 (ucast (b1 AND 0x3F :: byte))
           OR ucast (b2 AND 0x3F :: byte) :: u32)
     = (unat b0 mod 16) * 4096 + (unat b1 mod 64) * 64 + unat b2 mod 64"
proof -
  have a: "unat (push_bit 12 (ucast (b0 AND 0x0F :: byte)) :: u32) = (unat b0 mod 16) * 4096"
    by (subst unat_push_bit) (auto simp: unat_ucast_8_32 buf_simps)
  have b: "unat (push_bit 6 (ucast (b1 AND 0x3F :: byte)) :: u32) = (unat b1 mod 64) * 64"
    by (subst unat_push_bit) (auto simp: unat_ucast_8_32 buf_simps)
  have bc: "unat (push_bit 6 (ucast (b1 AND 0x3F :: byte)) OR ucast (b2 AND 0x3F :: byte) :: u32)
          = (unat b1 mod 64) * 64 + unat b2 mod 64"
    by (subst unat_or_add [where k = 6 and m = "unat b1 mod 64"]) (auto simp: b unat_bits6)
  have "(unat b1 mod 64) * 64 + unat b2 mod 64 < 2 ^ 12"
    using pos_mod_bound [of 64 "int (unat b1)"] mod_less_divisor [of 64 "unat b1"]
      mod_less_divisor [of 64 "unat b2"] by simp
  then show ?thesis
    by (subst unat_or_add [where k = 12 and m = "unat b0 mod 16"]) (auto simp: a bc)
qed

lemma dec4_val:
  "unat (push_bit 18 (ucast (b0 AND 0x07 :: byte)) OR push_bit 12 (ucast (b1 AND 0x3F :: byte))
           OR push_bit 6 (ucast (b2 AND 0x3F :: byte)) OR ucast (b3 AND 0x3F :: byte) :: u32)
     = (unat b0 mod 8) * 262144 + (unat b1 mod 64) * 4096 + (unat b2 mod 64) * 64 + unat b3 mod 64"
proof -
  have a: "unat (push_bit 18 (ucast (b0 AND 0x07 :: byte)) :: u32) = (unat b0 mod 8) * 262144"
    by (subst unat_push_bit) (auto simp: unat_ucast_8_32 buf_simps)
  have b: "unat (push_bit 12 (ucast (b1 AND 0x3F :: byte)) :: u32) = (unat b1 mod 64) * 4096"
    by (subst unat_push_bit) (auto simp: unat_ucast_8_32 buf_simps)
  have c: "unat (push_bit 6 (ucast (b2 AND 0x3F :: byte)) :: u32) = (unat b2 mod 64) * 64"
    by (subst unat_push_bit) (auto simp: unat_ucast_8_32 buf_simps)
  have m: "unat b1 mod 64 < 64" "unat b2 mod 64 < 64" "unat b3 mod 64 < 64" by simp_all
  have cd: "unat (push_bit 6 (ucast (b2 AND 0x3F :: byte)) OR ucast (b3 AND 0x3F :: byte) :: u32)
          = (unat b2 mod 64) * 64 + unat b3 mod 64"
    by (subst unat_or_add [where k = 6 and m = "unat b2 mod 64"]) (auto simp: c unat_bits6)
  have "(unat b2 mod 64) * 64 + unat b3 mod 64 < 2 ^ 12" using m by simp
  then have bcd: "unat (push_bit 12 (ucast (b1 AND 0x3F :: byte)) OR push_bit 6 (ucast (b2 AND 0x3F :: byte))
              OR ucast (b3 AND 0x3F :: byte) :: u32)
          = (unat b1 mod 64) * 4096 + ((unat b2 mod 64) * 64 + unat b3 mod 64)"
    by (subst unat_or_add [where k = 12 and m = "unat b1 mod 64"]) (auto simp: b cd)
  have "(unat b1 mod 64) * 4096 + ((unat b2 mod 64) * 64 + unat b3 mod 64) < 2 ^ 18" using m by simp
  then show ?thesis
    by (subst unat_or_add [where k = 18 and m = "unat b0 mod 8"]) (auto simp: a bcd)
qed

lemma byte_eq_unat: "(b :: byte) = c \<longleftrightarrow> unat b = unat c"
  by (auto intro: word_eq_unat)

lemmas byte_num = word_le_nat_alt word_less_nat_alt byte_eq_unat is_cont_def

text \<open>What the decoder does on each shape of unit, in terms of the byte values.\<close>

lemma decode1: "unat b0 \<le> 0x7F \<Longrightarrow> decode_utf8 (b0 # r) = Some (ucast b0, 1)"
  by (simp add: decode_utf8_def word_le_nat_alt)

lemma mod_bits:
  "0xC0 \<le> n \<Longrightarrow> n < 0xE0 \<Longrightarrow> n mod 32 = n - (0xC0 :: nat)"
  "0x80 \<le> n \<Longrightarrow> n < 0xC0 \<Longrightarrow> n mod 64 = n - (0x80 :: nat)"
  "0xE0 \<le> n \<Longrightarrow> n < 0xF0 \<Longrightarrow> n mod 16 = n - (0xE0 :: nat)"
  "0xF0 \<le> n \<Longrightarrow> n < 0xF8 \<Longrightarrow> n mod 8 = n - (0xF0 :: nat)"
  by (rule mod_nat_eqI; simp)+

definition u32_of :: "nat \<Rightarrow> u32" where
  "u32_of n = word_of_nat n"

lemma unat_u32: "n < 2 ^ 32 \<Longrightarrow> unat (u32_of n) = n"
  by (simp add: u32_of_def unat_of_nat)

lemma u32_of_eq: "n = unat w \<Longrightarrow> u32_of n = w"
  by (simp add: u32_of_def)

lemma decode2:
  assumes "0xC2 \<le> unat b0" "unat b0 \<le> 0xDF"
  shows "decode_utf8 (b0 # r) =
     (case r of b1 # _ \<Rightarrow> if is_cont b1
        then Some (u32_of ((unat b0 - 0xC0) * 64 + (unat b1 - 0x80)), 2) else None
      | [] \<Rightarrow> None)"
proof (cases r)
  case (Cons b1 r')
  have "push_bit 6 (ucast (b0 AND 0x1F)) OR ucast (b1 AND 0x3F)
          = u32_of ((unat b0 - 0xC0) * 64 + (unat b1 - 0x80))" if c: "is_cont b1"
  proof -
    have c': "0x80 \<le> unat b1" "unat b1 \<le> 0xBF" using c by (auto simp: byte_num)
    then have e: "(unat b0 - 0xC0) * 64 + (unat b1 - 0x80) < 2 ^ 32" using assms by simp
    have m: "unat b0 mod 32 = unat b0 - 0xC0" "unat b1 mod 64 = unat b1 - 0x80"
      using assms c' by (simp_all add: mod_bits)
    show ?thesis by (rule word_eq_unat) (simp only: dec2_val unat_u32 [OF e] m)
  qed
  then show ?thesis
    using assms Cons by (simp add: decode_utf8_def byte_num)
qed (use assms in \<open>simp add: decode_utf8_def byte_num\<close>)

lemma decode3:
  assumes "0xE0 \<le> unat b0" "unat b0 \<le> 0xEF"
  shows "decode_utf8 (b0 # r) =
     (case r of b1 # b2 # _ \<Rightarrow>
        if is_cont b1 \<and> is_cont b2 \<and> (unat b0 = 0xE0 \<longrightarrow> 0xA0 \<le> unat b1) \<and> (unat b0 = 0xED \<longrightarrow> unat b1 \<le> 0x9F)
        then Some (u32_of ((unat b0 - 0xE0) * 4096 + (unat b1 - 0x80) * 64 + (unat b2 - 0x80)), 3)
        else None
      | _ \<Rightarrow> None)"
proof (cases "\<exists>b1 b2 r'. r = b1 # b2 # r'")
  case True
  then obtain b1 b2 r' where r: "r = b1 # b2 # r'" by blast
  have "push_bit 12 (ucast (b0 AND 0x0F)) OR push_bit 6 (ucast (b1 AND 0x3F)) OR ucast (b2 AND 0x3F)
          = u32_of ((unat b0 - 0xE0) * 4096 + (unat b1 - 0x80) * 64 + (unat b2 - 0x80))"
    if c: "is_cont b1" "is_cont b2"
  proof -
    have c': "0x80 \<le> unat b1" "unat b1 \<le> 0xBF" "0x80 \<le> unat b2" "unat b2 \<le> 0xBF"
      using c by (auto simp: byte_num)
    then have e: "(unat b0 - 0xE0) * 4096 + (unat b1 - 0x80) * 64 + (unat b2 - 0x80) < 2 ^ 32"
      using assms by simp
    have m: "unat b0 mod 16 = unat b0 - 0xE0" "unat b1 mod 64 = unat b1 - 0x80"
        "unat b2 mod 64 = unat b2 - 0x80"
      using assms c' by (simp_all add: mod_bits)
    show ?thesis by (rule word_eq_unat) (simp only: dec3_val unat_u32 [OF e] m)
  qed
  then show ?thesis
    using assms r by (auto simp: decode_utf8_def byte_num Let_def)
next
  case False
  then show ?thesis
    using assms by (auto simp: decode_utf8_def byte_num split: list.splits)
qed

lemma decode4:
  assumes "0xF0 \<le> unat b0" "unat b0 \<le> 0xF4"
  shows "decode_utf8 (b0 # r) =
     (case r of b1 # b2 # b3 # _ \<Rightarrow>
        if is_cont b1 \<and> is_cont b2 \<and> is_cont b3
           \<and> (unat b0 = 0xF0 \<longrightarrow> 0x90 \<le> unat b1) \<and> (unat b0 = 0xF4 \<longrightarrow> unat b1 \<le> 0x8F)
        then Some (u32_of ((unat b0 - 0xF0) * 262144 + (unat b1 - 0x80) * 4096
                      + (unat b2 - 0x80) * 64 + (unat b3 - 0x80)), 4)
        else None
      | _ \<Rightarrow> None)"
proof (cases "\<exists>b1 b2 b3 r'. r = b1 # b2 # b3 # r'")
  case True
  then obtain b1 b2 b3 r' where r: "r = b1 # b2 # b3 # r'" by blast
  have "push_bit 18 (ucast (b0 AND 0x07)) OR push_bit 12 (ucast (b1 AND 0x3F))
          OR push_bit 6 (ucast (b2 AND 0x3F)) OR ucast (b3 AND 0x3F)
          = u32_of ((unat b0 - 0xF0) * 262144 + (unat b1 - 0x80) * 4096
                      + (unat b2 - 0x80) * 64 + (unat b3 - 0x80))"
    if c: "is_cont b1" "is_cont b2" "is_cont b3"
  proof -
    have c': "0x80 \<le> unat b1" "unat b1 \<le> 0xBF" "0x80 \<le> unat b2" "unat b2 \<le> 0xBF"
      "0x80 \<le> unat b3" "unat b3 \<le> 0xBF"
      using c by (auto simp: byte_num)
    then have e: "(unat b0 - 0xF0) * 262144 + (unat b1 - 0x80) * 4096
        + (unat b2 - 0x80) * 64 + (unat b3 - 0x80) < 2 ^ 32"
      using assms by simp
    have m: "unat b0 mod 8 = unat b0 - 0xF0" "unat b1 mod 64 = unat b1 - 0x80"
        "unat b2 mod 64 = unat b2 - 0x80" "unat b3 mod 64 = unat b3 - 0x80"
      using assms c' by (simp_all add: mod_bits)
    show ?thesis by (rule word_eq_unat) (simp only: dec4_val unat_u32 [OF e] m)
  qed
  then show ?thesis
    using assms r by (auto simp: decode_utf8_def byte_num Let_def)
next
  case False
  then show ?thesis
    using assms by (auto simp: decode_utf8_def byte_num split: list.splits)
qed

lemma decode_bad:
  "0x7F < unat b0 \<and> unat b0 < 0xC2 \<or> 0xF4 < unat b0 \<Longrightarrow> decode_utf8 (b0 # r) = None"
  by (auto simp: decode_utf8_def byte_num)

lemma div_bits:
  "(n :: nat) div 64 * 64 + n mod 64 = n"
  "(n :: nat) div 4096 * 4096 + n div 64 mod 64 * 64 + n mod 64 = n"
  "(n :: nat) div 262144 * 262144 + n div 4096 mod 64 * 4096 + n div 64 mod 64 * 64 + n mod 64 = n"
proof -
  have a: "n div 64 * 64 + n mod 64 = n" by simp
  have b: "n div 4096 * 64 + n div 64 mod 64 = n div 64"
    using div_mult_mod_eq [of "n div 64" 64] by (simp flip: div_mult2_eq)
  have c: "n div 262144 * 64 + n div 4096 mod 64 = n div 4096"
    using div_mult_mod_eq [of "n div 4096" 64] by (simp flip: div_mult2_eq)
  show "n div 64 * 64 + n mod 64 = n" by (rule a)
  show "n div 4096 * 4096 + n div 64 mod 64 * 64 + n mod 64 = n" using a b by linarith
  show "n div 262144 * 262144 + n div 4096 mod 64 * 4096 + n div 64 mod 64 * 64 + n mod 64 = n"
    using a b c by linarith
qed

lemma mod_le: "(n :: nat) mod 64 \<le> 63"
  using mod_less_divisor [of 64 n] by simp

lemma decode_encode_ex:
  assumes "is_scalar cp"
  shows "\<exists>bs. encode_utf8 cp = Some bs \<and> (\<forall>r. decode_utf8 (bs @ r) = Some (cp, length bs))"
proof -
  define n where "n = unat cp"
  have bound: "n < 0x110000" and nosur: "n < 0xD800 \<or> 0xDFFF < n"
    using assms by (auto simp: is_scalar_def n_def)
  define a b c d where "a = n div 262144" and "b = n div 4096 mod 64" and "c = n div 64 mod 64"
    and "d = n mod 64"
  have le: "b \<le> 63" "c \<le> 63" "d \<le> 63" unfolding b_def c_def d_def by (rule mod_le)+
  have bk: "u32_of n = cp" by (simp add: u32_of_eq n_def)
  consider "n \<le> 0x7F" | "0x7F < n" "n \<le> 0x7FF" | "0x7FF < n" "n \<le> 0xFFFF" | "0xFFFF < n"
    by linarith
  then show ?thesis
  proof cases
    case 1
    have "(ucast (ucast cp :: byte) :: u32) = cp"
      using 1 by (intro word_eq_unat) (simp add: unat_ucast_8_32 unat_ucast_32_8 n_def)
    then show ?thesis
      using 1 by (auto simp: encode_utf8_def byte_num unat_ucast_32_8 decode1 n_def)
  next
    case 2
    have "n div 64 \<le> 31" "2 \<le> n div 64" using 2 by simp_all
    moreover have "n div 64 * 64 + d = n" unfolding d_def by (rule div_bits)
    ultimately show ?thesis
      using 2 le bk
      by (simp add: encode_utf8_def byte_num enc_bytes decode2 div_bits
            flip: n_def d_def)
  next
    case 3
    define a' where "a' = n div 4096"
    have n: "a' * 4096 + c * 64 + d = n"
      unfolding a'_def c_def d_def by (rule div_bits)
    then have "a' \<le> 15" "a' \<noteq> 0 \<or> 32 \<le> c" "a' \<noteq> 13 \<or> c \<le> 31" using 3 nosur le by linarith+
    then show ?thesis
      using 3 le bk n
      by (simp add: encode_utf8_def byte_num enc_bytes decode3
            flip: n_def d_def a'_def c_def)
  next
    case 4
    have n: "a * 262144 + b * 4096 + c * 64 + d = n"
      unfolding a_def b_def c_def d_def by (rule div_bits)
    then have "a \<le> 4" "a \<noteq> 0 \<or> 16 \<le> b" "a \<noteq> 4 \<or> b \<le> 15" using 4 bound le by linarith+
    then show ?thesis
      using 4 bound le bk n
      by (simp add: encode_utf8_def byte_num enc_bytes decode4
            flip: n_def a_def b_def d_def c_def)
  qed
qed
lemma split_units:
  fixes x y :: nat
  shows "y < 64 \<Longrightarrow> (x * 64 + y) div 64 = x \<and> (x * 64 + y) mod 64 = y"
  by simp

lemma encode_decode:
  assumes "decode_utf8 p = Some (cp, n)"
  shows "is_scalar cp \<and> encode_utf8 cp = Some (take n p)"
proof -
  obtain b0 r where p: "p = b0 # r" using assms by (cases p) (auto simp: decode_utf8_def)
  have lt: "unat b < 256" for b :: byte by (rule unat_lt8)
  consider "unat b0 \<le> 0x7F" | "0xC2 \<le> unat b0" "unat b0 \<le> 0xDF" | "0xE0 \<le> unat b0" "unat b0 \<le> 0xEF"
    | "0xF0 \<le> unat b0" "unat b0 \<le> 0xF4"
    using assms decode_bad [of b0 r] p by fastforce
  then show ?thesis
  proof cases
    case 1
    then show ?thesis
      using assms p
      by (auto simp: decode1 is_scalar_def unat_ucast_8_32 encode_utf8_def byte_num unat_ucast_32_8
          intro!: word_eq_unat)
  next
    case 2
    then obtain b1 r' where r: "r = b1 # r'" "is_cont b1" "n = 2"
        and cp: "cp = u32_of ((unat b0 - 0xC0) * 64 + (unat b1 - 0x80))"
      using assms p by (auto simp: decode2 split: list.splits if_splits)
    define x y where "x = unat b0 - 0xC0" and "y = unat b1 - 0x80"
    have b: "unat b0 = 0xC0 + x" "unat b1 = 0x80 + y" "2 \<le> x" "x \<le> 31" "y < 64"
      using 2 r(2) by (auto simp: x_def y_def byte_num)
    have cp': "unat cp = x * 64 + y" using b by (simp add: cp unat_u32 flip: x_def y_def)
    have "x * 64 + y < 0x800" "0x7F < x * 64 + y" using b by linarith+
    then show ?thesis using b r p
      by (auto simp: is_scalar_def encode_utf8_def byte_num enc_bytes cp' intro!: word_eq_unat)
  next
    case 3
    then obtain b1 b2 r' where r: "r = b1 # b2 # r'" "is_cont b1" "is_cont b2" "n = 3"
        and e0: "unat b0 = 0xE0 \<longrightarrow> 0xA0 \<le> unat b1" and ed: "unat b0 = 0xED \<longrightarrow> unat b1 \<le> 0x9F"
        and cp: "cp = u32_of ((unat b0 - 0xE0) * 4096 + (unat b1 - 0x80) * 64 + (unat b2 - 0x80))"
      using assms p by (auto simp: decode3 split: list.splits if_splits)
    define x y z where "x = unat b0 - 0xE0" and "y = unat b1 - 0x80" and "z = unat b2 - 0x80"
    have b: "unat b0 = 0xE0 + x" "unat b1 = 0x80 + y" "unat b2 = 0x80 + z" "x \<le> 15" "y < 64" "z < 64"
        "x = 0 \<longrightarrow> 32 \<le> y" "x = 13 \<longrightarrow> y \<le> 31"
      using 3 r(2,3) e0 ed by (auto simp: x_def y_def z_def byte_num)
    define v where "v = x * 4096 + y * 64 + z"
    have cp': "unat cp = v" using b by (simp add: cp unat_u32 v_def flip: x_def y_def z_def)
    have v: "0x7FF < v" "v \<le> 0xFFFF" using b unfolding v_def by linarith+
    consider "x \<le> 12" | "x = 13" | "14 \<le> x" by linarith
    then have nos: "v < 0xD800 \<or> 0xDFFF < v" by cases (use b in \<open>auto simp: v_def\<close>)
    have "v = (x * 64 + y) * 64 + z" by (simp add: v_def)
    then have "v div 64 = x * 64 + y \<and> v mod 64 = z" using b split_units by blast
    moreover have "v div 4096 = x"
      using calculation split_units [of y x] b div_mult2_eq [of v 64 64] by auto
    ultimately have d: "v div 4096 = x" "v div 64 mod 64 = y" "v mod 64 = z"
      using split_units [of y x] b by simp_all
    show ?thesis using b r p v d nos
      by (auto simp: is_scalar_def encode_utf8_def byte_num enc_bytes cp' intro!: word_eq_unat)
  next
    case 4
    then obtain b1 b2 b3 r' where r: "r = b1 # b2 # b3 # r'" "is_cont b1" "is_cont b2" "is_cont b3" "n = 4"
        and f0: "unat b0 = 0xF0 \<longrightarrow> 0x90 \<le> unat b1" and f4: "unat b0 = 0xF4 \<longrightarrow> unat b1 \<le> 0x8F"
        and cp: "cp = u32_of ((unat b0 - 0xF0) * 262144 + (unat b1 - 0x80) * 4096
                      + (unat b2 - 0x80) * 64 + (unat b3 - 0x80))"
      using assms p by (auto simp: decode4 split: list.splits if_splits)
    define w x y z where "w = unat b0 - 0xF0" and "x = unat b1 - 0x80" and "y = unat b2 - 0x80" and "z = unat b3 - 0x80"
    have b: "unat b0 = 0xF0 + w" "unat b1 = 0x80 + x" "unat b2 = 0x80 + y" "unat b3 = 0x80 + z" "w \<le> 4"
        "x < 64" "y < 64" "z < 64" "w = 0 \<longrightarrow> 16 \<le> x" "w = 4 \<longrightarrow> x \<le> 15"
      using 4 r(2-4) f0 f4 by (auto simp: w_def x_def y_def z_def byte_num)
    define v where "v = w * 262144 + x * 4096 + y * 64 + z"
    have cp': "unat cp = v" using b by (simp add: cp unat_u32 v_def flip: w_def x_def y_def z_def)
    have v: "0xFFFF < v" "v \<le> 0x10FFFF" using b unfolding v_def by linarith+
    have "v = ((w * 64 + x) * 64 + y) * 64 + z" by (simp add: v_def)
    then have d1: "v div 64 = (w * 64 + x) * 64 + y \<and> v mod 64 = z" using b split_units by blast
    then have d2: "v div 4096 = w * 64 + x \<and> v div 64 mod 64 = y"
      using split_units [of y "w * 64 + x"] b div_mult2_eq [of v 64 64] by auto
    then have d3: "v div 262144 = w \<and> v div 4096 mod 64 = x"
      using split_units [of x w] b div_mult2_eq [of v 4096 64] by auto
    show ?thesis using b r p v d1 d2 d3
      by (auto simp: is_scalar_def encode_utf8_def byte_num enc_bytes cp' intro!: word_eq_unat)
  qed
qed

section \<open>The checker accepts exactly the well-formed strings\<close>

definition ck_idle :: "utf8_checker \<Rightarrow> bool" where
  "ck_idle ck \<longleftrightarrow> need ck = 0 \<and> ck_code ck = NoError"

definition ck_accepts :: "utf8_checker \<Rightarrow> bool" where
  "ck_accepts ck \<longleftrightarrow> ck_code (ck_end ck) = NoError"

lemma feed_range_failed: "ck_failed ck \<Longrightarrow> feed_range bs pos ck = ck"
  by (cases bs) auto

lemma feed_range_append:
  "feed_range (xs @ ys) pos ck = feed_range ys (pos + length xs) (feed_range xs pos ck)"
  by (induction xs arbitrary: pos ck) (auto simp: feed_range_failed)

lemma ck_failed_end: "ck_failed ck \<Longrightarrow> \<not> ck_accepts ck"
  by (simp add: ck_accepts_def ck_end_def ck_failed_def)

lemmas ck_simps = ck_feed_def ck_start_def ck_set_def ck_failed_def ck_idle_def ck_accepts_def ck_end_def

lemma ck_start_sel [simp]:
  "need (ck_start n lo hi c pos ck) = n" "lead (ck_start n lo hi c pos ck) = pos"
  "c1lo (ck_start n lo hi c pos ck) = lo" "c1hi (ck_start n lo hi c pos ck) = hi"
  "m_fail_code (ck_start n lo hi c pos ck) = c" "ck_code (ck_start n lo hi c pos ck) = ck_code ck"
  "(ck_start n lo hi c pos ck)\<lparr>need := k\<rparr> = ck_start k lo hi c pos ck"
  by (simp_all add: ck_start_def)

lemma feed_cont_first:
  assumes "need ck = Suc n" "pos = Suc (lead ck)" "\<not> ck_failed ck" "0x20 \<le> b"
  shows "ck_feed b pos ck =
    (if \<not> is_cont b then ck_set Utf8InvalidContinuation pos ck
     else if b < c1lo ck \<or> c1hi ck < b then ck_set (m_fail_code ck) (lead ck) ck
     else ck\<lparr>need := n\<rparr>)"
  using assms by (auto simp: ck_feed_def is_cont_def not_less not_le)

lemma feed_cont_later:
  assumes "need ck = Suc n" "Suc (lead ck) < pos" "\<not> ck_failed ck" "0x20 \<le> b"
  shows "ck_feed b pos ck =
    (if \<not> is_cont b then ck_set Utf8InvalidContinuation pos ck else ck\<lparr>need := n\<rparr>)"
  using assms by (auto simp: ck_feed_def is_cont_def not_less not_le)

lemma ck_set_failed: "c \<noteq> NoError \<Longrightarrow> ck_failed (ck_set c pos ck)"
  by (simp add: ck_set_def ck_failed_def)

text \<open>A started sequence is accepted when its continuation bytes fit and the rest is accepted.\<close>

lemma later_accept:
  assumes "need ck = n" "Suc (lead ck) < pos" "\<not> ck_failed ck" "\<forall>b \<in> set r. 0x20 \<le> b"
  shows "ck_accepts (feed_range r pos ck) \<longleftrightarrow>
    n \<le> length r \<and> (\<forall>b \<in> set (take n r). is_cont b) \<and>
    ck_accepts (feed_range (drop n r) (pos + n) (ck\<lparr>need := 0\<rparr>))"
  using assms
proof (induction n arbitrary: ck r pos)
  case 0
  then have "ck\<lparr>need := 0\<rparr> = ck" by simp
  then show ?case by simp
next
  case (Suc n)
  show ?case
  proof (cases r)
    case Nil
    then show ?thesis using Suc.prems by (simp add: ck_accepts_def ck_end_def ck_set_def ck_failed_def)
  next
    case (Cons b r')
    note step = feed_cont_later [OF Suc.prems(1-3), of b]
    show ?thesis
    proof (cases "is_cont b")
      case True
      then show ?thesis
        using Suc.IH [of "ck\<lparr>need := n\<rparr>" "Suc pos" r'] Suc.prems Cons step
        by (simp add: ck_failed_def)
    next
      case False
      then show ?thesis
        using Suc.prems Cons step
        by (simp add: feed_range_failed ck_set_failed ck_failed_end)
    qed
  qed
qed

lemma start_accept:
  assumes "ck_idle ck" "c \<noteq> NoError \<or> (lo = 0x80 \<and> hi = 0xBF)" "\<forall>b \<in> set r. 0x20 \<le> b"
  shows "ck_accepts (feed_range r (Suc pos) (ck_start (Suc n) lo hi c pos ck)) \<longleftrightarrow>
    Suc n \<le> length r \<and> (\<forall>b \<in> set (take (Suc n) r). is_cont b) \<and> lo \<le> r ! 0 \<and> r ! 0 \<le> hi \<and>
    ck_accepts (feed_range (drop (Suc n) r) (pos + Suc (Suc n)) (ck_start 0 lo hi c pos ck))"
proof (cases r)
  case Nil
  then show ?thesis using assms by (simp add: ck_simps)
next
  case (Cons b r')
  let ?ck = "ck_start (Suc n) lo hi c pos ck"
  have nf: "\<not> ck_failed ?ck" "need ?ck = Suc n" "lead ?ck = pos"
    using assms(1) by (auto simp: ck_simps)
  note step = feed_cont_first [OF nf(2), of "Suc pos" b]
  consider "\<not> is_cont b" | "is_cont b" "b < lo \<or> hi < b" | "is_cont b" "lo \<le> b" "b \<le> hi"
    by fastforce
  then show ?thesis
  proof cases
    case 1
    then show ?thesis
      using assms(3) Cons step nf by (simp add: feed_range_failed ck_set_failed ck_failed_end)
  next
    case 2
    then have "c \<noteq> NoError" using assms(2) by (auto simp: is_cont_def)
    then show ?thesis
      using 2 assms(3) Cons step nf
      by (auto simp: feed_range_failed ck_set_failed ck_failed_end not_le)
  next
    case 3
    have "ck_feed b (Suc pos) ?ck = ck_start n lo hi c pos ck"
      using 3 assms(3) Cons step nf by simp
    then show ?thesis
      using 3 nf assms Cons later_accept [of "ck_start n lo hi c pos ck" n "Suc (Suc pos)" r']
      by (simp add: ck_failed_def)
  qed
qed

lemma idle_start0: "ck_idle ck \<Longrightarrow> ck_idle (ck_start 0 lo hi c pos ck)"
  by (simp add: ck_simps)

lemma feed_range_Cons:
  "ck_idle ck \<Longrightarrow> feed_range (b # r) pos ck = feed_range r (Suc pos) (ck_feed b pos ck)"
  by (simp add: ck_idle_def ck_failed_def)

lemma feed_accept:
  assumes "ck_idle ck" "\<forall>b \<in> set bs. 0x20 \<le> b"
  shows "ck_accepts (feed_range bs pos ck) \<longleftrightarrow> utf8_valid bs"
  using assms
proof (induction bs arbitrary: pos ck rule: utf8_valid.induct)
  case (1 p)
  show ?case
  proof (cases p)
    case Nil
    then show ?thesis using 1 by (simp add: ck_simps utf8_valid.simps)
  next
    case (Cons b0 r)
    have valid: "utf8_valid p \<longleftrightarrow> (case decode_utf8 p of None \<Rightarrow> False | Some (cp, n) \<Rightarrow> utf8_valid (drop n p))"
      using Cons by (subst utf8_valid.simps) simp
    have IH: "ck_accepts (feed_range (drop n p) pos' ck') \<longleftrightarrow> utf8_valid (drop n p)"
      if "decode_utf8 p = Some (cp, n)" "ck_idle ck'" for cp n pos' ck'
    proof -
      have "\<forall>b \<in> set (drop n p). 0x20 \<le> b" using 1(3) in_set_dropD by fast
      then show ?thesis using 1(1) [of "(cp, n)" cp n ck' pos'] that Cons by simp
    qed
    have ge: "\<forall>b \<in> set r. 0x20 \<le> b" using 1(3) Cons by auto
    note cons = feed_range_Cons [OF 1(2)]
    have idle: "\<not> ck_failed ck" "need ck = 0" using 1(2) by (auto simp: ck_simps)
    consider (one) "unat b0 \<le> 0x7F" | (two) "0xC2 \<le> unat b0" "unat b0 \<le> 0xDF"
      | (three) "0xE0 \<le> unat b0" "unat b0 \<le> 0xEF" | (four) "0xF0 \<le> unat b0" "unat b0 \<le> 0xF4"
      | (bad) "0x7F < unat b0 \<and> unat b0 < 0xC2 \<or> 0xF4 < unat b0" by linarith
    then show ?thesis
    proof cases
      case one
      then have "ck_feed b0 pos ck = ck" using idle by (simp add: ck_feed_def byte_num)
      then show ?thesis
        using one Cons cons valid IH [of "ucast b0" 1] 1(2) by (simp add: decode1)
    next
      case two
      then have f: "ck_feed b0 pos ck = ck_start (Suc 0) 0x80 0xBF NoError pos ck"
        using idle by (simp add: ck_feed_def byte_num)
      show ?thesis
        using two Cons cons valid f start_accept [OF 1(2) _ ge, where c = NoError and lo = "0x80" and hi = "0xBF" and n = 0 and pos = pos] IH idle_start0 [OF 1(2)]
        by (cases r) (auto simp: decode2 is_cont_def)
    next
      case three
      define lo where "lo = (if b0 = 0xE0 then 0xA0 else 0x80 :: byte)"
      define hi where "hi = (if b0 = 0xED then 0x9F else 0xBF :: byte)"
      define c where "c = (if b0 = 0xE0 then Utf8Overlong else if b0 = 0xED then Utf8Surrogate else NoError)"
      have "ck_feed b0 pos ck = ck_start 2 lo hi c pos ck"
      proof -
        consider "unat b0 = 0xE0" | "unat b0 = 0xED"
          | "unat b0 \<noteq> 0xE0" "unat b0 \<noteq> 0xED"
            "0xE1 \<le> unat b0 \<and> unat b0 \<le> 0xEC \<or> unat b0 = 0xEE \<or> unat b0 = 0xEF"
          using three by linarith
        then show ?thesis
          by cases (use idle three in \<open>simp_all add: ck_feed_def byte_num lo_def hi_def c_def\<close>)
      qed
      note f = this [unfolded numeral_2_eq_2]
      have ok: "c \<noteq> NoError \<or> lo = 0x80 \<and> hi = 0xBF"
        by (auto simp: lo_def hi_def c_def)
      have d: "decode_utf8 p \<noteq> None \<longleftrightarrow> Suc (Suc 0) \<le> length r \<and> (\<forall>b \<in> set (take (Suc (Suc 0)) r). is_cont b) \<and> lo \<le> r ! 0 \<and> r ! 0 \<le> hi"
        using three Cons by (auto simp: decode3 lo_def hi_def byte_num Suc_le_length_iff split: list.splits)
      have n: "decode_utf8 p = Some (cp, n) \<Longrightarrow> n = Suc (Suc (Suc 0))" for cp n
        using three Cons by (auto simp: decode3 split: list.splits if_splits)
      show ?thesis
        using three Cons cons valid f start_accept [OF 1(2) ok ge, where n = "Suc 0" and pos = pos] IH idle_start0 [OF 1(2)] d n
        by (cases "decode_utf8 p") auto
    next
      case four
      define lo where "lo = (if b0 = 0xF0 then 0x90 else 0x80 :: byte)"
      define hi where "hi = (if b0 = 0xF4 then 0x8F else 0xBF :: byte)"
      define c where "c = (if b0 = 0xF0 then Utf8Overlong else if b0 = 0xF4 then Utf8ExceedsMax else NoError)"
      have "ck_feed b0 pos ck = ck_start 3 lo hi c pos ck"
      proof -
        consider "unat b0 = 0xF0" | "unat b0 = 0xF4"
          | "unat b0 \<noteq> 0xF0" "unat b0 \<noteq> 0xF4" "0xF1 \<le> unat b0" "unat b0 \<le> 0xF3"
          using four by linarith
        then show ?thesis
          by cases (use idle four in \<open>simp_all add: ck_feed_def byte_num lo_def hi_def c_def\<close>)
      qed
      note f = this [unfolded numeral_3_eq_3]
      have ok: "c \<noteq> NoError \<or> lo = 0x80 \<and> hi = 0xBF"
        by (auto simp: lo_def hi_def c_def)
      have d: "decode_utf8 p \<noteq> None \<longleftrightarrow> Suc (Suc (Suc 0)) \<le> length r \<and> (\<forall>b \<in> set (take (Suc (Suc (Suc 0))) r). is_cont b) \<and> lo \<le> r ! 0 \<and> r ! 0 \<le> hi"
        using four Cons by (auto simp: decode4 lo_def hi_def byte_num Suc_le_length_iff split: list.splits)
      have n: "decode_utf8 p = Some (cp, n) \<Longrightarrow> n = Suc (Suc (Suc (Suc 0)))" for cp n
        using four Cons by (auto simp: decode4 split: list.splits if_splits)
      show ?thesis
        using four Cons cons valid f start_accept [OF 1(2) ok ge, where n = "Suc (Suc 0)" and pos = pos] IH idle_start0 [OF 1(2)] d n
        by (cases "decode_utf8 p") auto
    next
      case bad
      then have "ck_failed (ck_feed b0 pos ck)"
      proof -
        have "ck_feed b0 pos ck = ck_set Utf8Overlong pos ck
            \<or> ck_feed b0 pos ck = ck_set Utf8InvalidLead pos ck"
        proof -
          consider "0x7F < unat b0" "unat b0 < 0xC2" | "0xF4 < unat b0" using bad by blast
          then show ?thesis by cases (use idle in \<open>simp_all add: ck_feed_def byte_num\<close>)
        qed
        then show ?thesis by (auto simp: ck_set_failed)
      qed
      then show ?thesis
        using bad Cons cons valid by (simp add: decode_bad feed_range_failed ck_failed_end)
    qed
  qed
qed
lemma check_utf8_strict_NoError:
  "fst (check_utf8_strict bs pos) = NoError \<longleftrightarrow> ck_accepts (feed_range bs pos checker0)"
  by (simp add: check_utf8_strict_def Let_def ck_accepts_def)

lemma ck_idle_checker0 [simp]: "ck_idle checker0"
  by (simp add: ck_idle_def checker0_def)

section \<open>Properties\<close>

text \<open>
  C5: \<^verbatim>\<open>encode_utf8\<close> and \<^verbatim>\<open>unicode::decode_utf8\<close> are inverse to each other: every
  Unicode scalar value is encoded, the encoding is decoded back to it whatever follows,
  and whatever the decoder accepts is a scalar value whose encoding is the consumed bytes
  (so no overlong form and no surrogate is ever accepted).
\<close>

theorem utf8_codec_inverse:
  "(is_scalar cp \<longrightarrow>
      (\<exists>bs. encode_utf8 cp = Some bs \<and> (\<forall>r. decode_utf8 (bs @ r) = Some (cp, length bs))))
   \<and> (decode_utf8 p = Some (cp, n) \<longrightarrow> is_scalar cp \<and> encode_utf8 cp = Some (take n p))"
  using decode_encode_ex encode_decode by blast

theorem utf8_codec_inverse_witness:
  "\<exists>bs. encode_utf8 0x20AC = Some bs \<and> (\<forall>r. decode_utf8 (bs @ r) = Some (0x20AC, length bs))"
proof -
  have "is_scalar 0x20AC" by (simp add: is_scalar_def)
  then show ?thesis using utf8_codec_inverse [of "0x20AC"] by blast
qed

text \<open>
  C6: on content without control bytes the strict checker accepts exactly the
  well-formed UTF-8 strings, so it agrees with the bounded decoder.
\<close>

theorem strict_checker_exact:
  assumes "\<forall>b \<in> set bs. 0x20 \<le> b"
  shows "fst (check_utf8_strict bs pos) = NoError \<longleftrightarrow> utf8_valid bs"
  using assms by (simp add: check_utf8_strict_NoError feed_accept)

theorem strict_checker_exact_witness:
  "fst (check_utf8_strict [0xE2, 0x82, 0xAC] 7) = NoError \<longleftrightarrow> utf8_valid [0xE2, 0x82, 0xAC]"
  by (rule strict_checker_exact) simp


end
