(* ===== verification/Writer.thy ===== *)
theory Writer
  imports ToChars Utf8 "HOL-Library.Multiset"
begin

text \<open>
  The writer: \<^verbatim>\<open>src/writer/string.cpp\<close> (escaping), \<^verbatim>\<open>src/writer/dump.cpp\<close>
  (recursive serialisation and its entry points) and \<^verbatim>\<open>src/writer/jsonl.cpp\<close>.  The sink
  is threaded through, so that a failing dump shows what was already written.
\<close>

section \<open>Options and results\<close>

record dump_options =
  o_pretty :: bool
  o_indent :: byte
  o_indent_char :: byte
  o_ascii :: bool
  o_sort_keys :: bool

definition compact_options :: dump_options where
  "compact_options = \<lparr>o_pretty = False, o_indent = 2, o_indent_char = 0x20, o_ascii = False, o_sort_keys = False\<rparr>"

text \<open>The sink after success, or after \<^verbatim>\<open>return false\<close> with the recorded error.\<close>

datatype written = WOk bytes | WFail bytes error

definition bindw :: "written \<Rightarrow> (bytes \<Rightarrow> written) \<Rightarrow> written" where
  "bindw m f = (case m of WOk sink \<Rightarrow> f sink | WFail sink e \<Rightarrow> WFail sink e)"

lemma bindw_simps [simp]: "bindw (WOk s) f = f s" "bindw (WFail s e) f = WFail s e"
  by (simp_all add: bindw_def)

text \<open>\<^verbatim>\<open>DumpState::fail\<close>; the writer never records a second failure.\<close>

definition dump_error :: "error_code \<Rightarrow> bytes \<Rightarrow> error" where
  "dump_error c d = context_error c CatJson d"

section \<open>Escaping\<close>

definition HEX :: bytes where
  "HEX = lit ''0123456789abcdef''"

definition append_escape :: "byte \<Rightarrow> bytes" where
  "append_escape c =
     (if c = 0x22 then [0x5C, 0x22]
      else if c = 0x5C then [0x5C, 0x5C]
      else if c = 0x08 then [0x5C, 0x62]
      else if c = 0x0C then [0x5C, 0x66]
      else if c = 0x0A then [0x5C, 0x6E]
      else if c = 0x0D then [0x5C, 0x72]
      else if c = 0x09 then [0x5C, 0x74]
      else [0x5C, 0x75, 0x30, 0x30, HEX ! unat (drop_bit 4 c AND 0xF), HEX ! unat (c AND 0xF)])"

definition append_u4 :: "16 word \<Rightarrow> bytes" where
  "append_u4 v =
     [0x5C, 0x75, HEX ! unat (drop_bit 12 v AND 0xF), HEX ! unat (drop_bit 8 v AND 0xF),
      HEX ! unat (drop_bit 4 v AND 0xF), HEX ! unat (v AND 0xF)]"

definition needs_escape :: "byte \<Rightarrow> bool" where
  "needs_escape c \<longleftrightarrow> c = 0x22 \<or> c = 0x5C \<or> c < 0x20"

text \<open>
  The decoder of the ASCII mode: the lead byte and its length, the continuation bytes, then
  the checks of the decoded code point, each with its own code.
\<close>

definition lead_of :: "byte \<Rightarrow> (u32 \<times> nat) option" where
  "lead_of c =
     (if c AND 0xE0 = 0xC0 then Some (ucast (c AND 0x1F), 2)
      else if c AND 0xF0 = 0xE0 then Some (ucast (c AND 0x0F), 3)
      else if c AND 0xF8 = 0xF0 then Some (ucast (c AND 0x07), 4)
      else None)"

fun continuation :: "u32 \<Rightarrow> bytes \<Rightarrow> u32 option" where
  "continuation cp [] = Some cp"
| "continuation cp (b # bs) =
     (if b AND 0xC0 \<noteq> 0x80 then None
      else continuation (push_bit 6 cp OR ucast (b AND 0x3F)) bs)"

definition code_point_error :: "nat \<Rightarrow> u32 \<Rightarrow> error_code option" where
  "code_point_error len cp =
     (if len = 2 \<and> cp < 0x80 then Some Utf8Overlong
      else if len = 3 \<and> cp < 0x800 then Some Utf8Overlong
      else if len = 4 \<and> cp < 0x10000 then Some Utf8Overlong
      else if 0x10FFFF < cp then Some Utf8ExceedsMax
      else if 0xD800 \<le> cp \<and> cp \<le> 0xDFFF then Some Utf8Surrogate
      else None)"

definition ascii_code_point :: "u32 \<Rightarrow> bytes" where
  "ascii_code_point cp =
     (if cp \<le> 0xFFFF then append_u4 (ucast cp)
      else let c = cp - 0x10000
           in append_u4 (ucast (0xD800 + drop_bit 10 c)) @ append_u4 (ucast (0xDC00 + (c AND 0x3FF))))"

definition ascii_unit :: "bytes \<Rightarrow> error_code + (u32 \<times> nat)" where
  "ascii_unit p =
     (case lead_of (hd p) of
        None \<Rightarrow> Inl Utf8InvalidLead
      | Some (cp0, len) \<Rightarrow>
          if length p < len then Inl Utf8Truncated
          else case continuation cp0 (take (len - 1) (tl p)) of
            None \<Rightarrow> Inl Utf8InvalidContinuation
          | Some cp \<Rightarrow>
              (case code_point_error len cp of Some e \<Rightarrow> Inl e | None \<Rightarrow> Inr (cp, len)))"

lemma ascii_unit_len: "ascii_unit p = Inr (cp, n) \<Longrightarrow> 2 \<le> n \<and> n \<le> length p"
  by (auto simp: ascii_unit_def lead_of_def split: option.splits if_splits)

function write_escaped_ascii :: "bytes \<Rightarrow> bytes \<Rightarrow> written" where
  "write_escaped_ascii sink p =
     (if p = [] then WOk sink
      else let c = hd p in
        if needs_escape c then write_escaped_ascii (sink @ append_escape c) (tl p)
        else if c < 0x80 then write_escaped_ascii (sink @ [c]) (tl p)
        else case ascii_unit p of
          Inl e \<Rightarrow> WFail sink (dump_error e [])
        | Inr (cp, n) \<Rightarrow> write_escaped_ascii (sink @ ascii_code_point cp) (drop n p))"
  by pat_completeness auto
termination
  by (relation "measure (\<lambda>(sink, p). length p)") (auto dest!: ascii_unit_len)

declare write_escaped_ascii.simps [simp del]

text \<open>
  The wide loop: all hits of one batch by clearing the lowest set bit of the mask, the clean
  run before each hit copied verbatim.  \<open>run\<close> is where the run not yet copied starts.
\<close>

lemma clear_lowest_less: "hits \<noteq> (0 :: u64) \<Longrightarrow> unat (hits AND (hits - 1)) < unat hits"
proof -
  assume m: "hits \<noteq> 0"
  have "hits AND (hits - 1) \<le> hits - 1" by (metis and.commute word_and_le1)
  moreover have "unat (hits - 1) < unat hits" using m unat_gt_0 [of hits] by (simp add: unat_minus_one)
  ultimately show ?thesis by (simp add: word_le_nat_alt)
qed

function write_hits :: "bytes \<Rightarrow> nat \<Rightarrow> u64 \<Rightarrow> nat \<times> bytes \<Rightarrow> nat \<times> bytes" where
  "write_hits s pos hits (run, sink) =
     (if hits = 0 then (run, sink)
      else let hit = pos + countr_zero hits
           in write_hits s pos (hits AND (hits - 1))
                (hit + 1, sink @ slice s run (hit - run) @ append_escape (s ! hit)))"
  by pat_completeness auto
termination
  by (relation "measure (\<lambda>(s, pos, hits, x). unat hits)") (use clear_lowest_less in auto)

declare write_hits.simps [simp del]

definition escape_mask :: "nat \<Rightarrow> bytes \<Rightarrow> u64" where
  "escape_mask w b =
     keep_lanes w (lane_mask (\<lambda>c. c = 0x22) b OR lane_mask (\<lambda>c. c = 0x5C) b OR lane_mask (\<lambda>c. c < 0x20) b)"

function write_batches :: "nat \<Rightarrow> bytes \<Rightarrow> nat \<Rightarrow> nat \<times> bytes \<Rightarrow> nat \<times> nat \<times> bytes" where
  "write_batches w s pos x =
     (if w = 0 \<or> length s < pos + w then (pos, x)
      else write_batches w s (pos + w) (write_hits s pos (escape_mask w (slice s pos w)) x))"
  by pat_completeness auto
termination
  by (relation "measure (\<lambda>(w, s, pos, x). length s - pos)") auto

declare write_batches.simps [simp del]

function write_tail :: "bytes \<Rightarrow> nat \<Rightarrow> nat \<times> bytes \<Rightarrow> nat \<times> bytes" where
  "write_tail s pos (run, sink) =
     (if length s \<le> pos then (run, sink)
      else if needs_escape (s ! pos)
        then write_tail s (pos + 1) (pos + 1, sink @ slice s run (pos - run) @ append_escape (s ! pos))
      else write_tail s (pos + 1) (run, sink))"
  by pat_completeness auto
termination
  by (relation "measure (\<lambda>(s, pos, x). length s - pos)") auto

declare write_tail.simps [simp del]

definition write_escaped_impl :: "nat \<Rightarrow> bytes \<Rightarrow> bytes \<Rightarrow> bool \<Rightarrow> written" where
  "write_escaped_impl w sink s ascii =
     (let sink = sink @ [0x22] in
      if ascii then bindw (write_escaped_ascii sink s) (\<lambda>sink. WOk (sink @ [0x22]))
      else
        (case write_batches w s 0 (0, sink) of
           (pos, x) \<Rightarrow>
             (case write_tail s pos x of
                (run, sink) \<Rightarrow> WOk (sink @ slice s run (length s - run) @ [0x22]))))"

section \<open>Values\<close>

definition write_indent :: "dump_options \<Rightarrow> nat \<Rightarrow> bytes" where
  "write_indent opts depth = 0x0A # replicate (unat (o_indent opts) * depth) (o_indent_char opts)"

definition indented :: "dump_options \<Rightarrow> nat \<Rightarrow> bytes" where
  "indented opts depth = (if o_pretty opts then write_indent opts depth else [])"

definition has_point :: "bytes \<Rightarrow> bool" where
  "has_point s \<longleftrightarrow> (\<exists>c \<in> set s. c = 0x2E \<or> c = 0x65 \<or> c = 0x45)"

definition write_double :: "bytes \<Rightarrow> u64 \<Rightarrow> written" where
  "write_double sink b =
     (if \<not> f_isfinite b then WFail sink (dump_error NonFiniteDouble [])
      else case to_chars_double 32 b of
        None \<Rightarrow> WFail sink (dump_error FormatDoubleFailed [])
      | Some s \<Rightarrow> WOk (sink @ s @ (if has_point s then [] else [0x2E, 0x30])))"

definition write_int :: "bytes \<Rightarrow> u64 \<Rightarrow> written" where
  "write_int sink i =
     (case to_chars_int 24 i of
        None \<Rightarrow> WFail sink (dump_error FormatIntFailed [])
      | Some s \<Rightarrow> WOk (sink @ s))"

definition too_deep :: "nat \<Rightarrow> nat \<Rightarrow> bool" where
  "too_deep max_depth depth \<longleftrightarrow> max_depth \<noteq> 0 \<and> max_depth < depth + 1"

text \<open>The order in which members are emitted; keys compare as unsigned bytes.\<close>

definition emission_order :: "dump_options \<Rightarrow> jentries \<Rightarrow> jentries" where
  "emission_order opts es = (if o_sort_keys opts then sort_key fst es else es)"

lemma mset_emission_order [simp]: "mset (emission_order opts es) = mset es"
  by (simp add: emission_order_def)

lemma weight_emission_order [simp]:
  "sum_list (map (\<lambda>e. Suc (json_weight (snd e))) (emission_order opts es)) =
   sum_list (map (\<lambda>e. Suc (json_weight (snd e))) es)"
  by (simp only: sum_mset_sum_list [symmetric] mset_map mset_emission_order)

text \<open>\<open>w\<close> is the SIMD width; \<open>write_elements\<close> and \<open>write_members\<close> are the two loops.\<close>

function write_value :: "dump_options \<Rightarrow> nat \<Rightarrow> nat \<Rightarrow> bytes \<Rightarrow> jvalue \<Rightarrow> nat \<Rightarrow> written"
and write_elements :: "dump_options \<Rightarrow> nat \<Rightarrow> nat \<Rightarrow> bool \<Rightarrow> bytes \<Rightarrow> jvalue list \<Rightarrow> nat \<Rightarrow> written"
and write_members :: "dump_options \<Rightarrow> nat \<Rightarrow> nat \<Rightarrow> bool \<Rightarrow> bytes \<Rightarrow> jentries \<Rightarrow> nat \<Rightarrow> written"
where
  "write_value opts w max_depth sink JNull depth = WOk (sink @ lit ''null'')"
| "write_value opts w max_depth sink (JBool b) depth =
     WOk (sink @ (if b then lit ''true'' else lit ''false''))"
| "write_value opts w max_depth sink (JInt i) depth = write_int sink i"
| "write_value opts w max_depth sink (JFloat f) depth = write_double sink f"
| "write_value opts w max_depth sink (JStr s) depth = write_escaped_impl w sink s (o_ascii opts)"
| "write_value opts w max_depth sink (JArr xs) depth =
     (if too_deep max_depth depth then WFail sink (dump_error DumpMaxDepthExceeded [])
      else if xs = [] then WOk (sink @ [0x5B, 0x5D])
      else bindw (write_elements opts w max_depth True (sink @ [0x5B]) xs depth)
             (\<lambda>sink. WOk (sink @ indented opts depth @ [0x5D])))"
| "write_value opts w max_depth sink (JObj es) depth =
     (if too_deep max_depth depth then WFail sink (dump_error DumpMaxDepthExceeded [])
      else if es = [] then WOk (sink @ [0x7B, 0x7D])
      else bindw (write_members opts w max_depth True (sink @ [0x7B]) (emission_order opts es) depth)
             (\<lambda>sink. WOk (sink @ indented opts depth @ [0x7D])))"
| "write_elements opts w max_depth first sink [] depth = WOk sink"
| "write_elements opts w max_depth first sink (v # vs) depth =
     bindw (write_value opts w max_depth
              (sink @ (if first then [] else [0x2C]) @ indented opts (depth + 1)) v (depth + 1))
       (\<lambda>sink. write_elements opts w max_depth False sink vs depth)"
| "write_members opts w max_depth first sink [] depth = WOk sink"
| "write_members opts w max_depth first sink ((k, v) # es) depth =
     bindw (write_escaped_impl w
              (sink @ (if first then [] else [0x2C]) @ indented opts (depth + 1)) k (o_ascii opts))
       (\<lambda>sink.
         bindw (write_value opts w max_depth
                  (sink @ (if o_pretty opts then [0x3A, 0x20] else [0x3A])) v (depth + 1))
           (\<lambda>sink. write_members opts w max_depth False sink es depth))"
  by pat_completeness auto
termination
  by (relation "measure (\<lambda>x. case x of
        Inl (opts, w, m, sink, v, d) \<Rightarrow> json_weight v
      | Inr (Inl (opts, w, m, first, sink, vs, d)) \<Rightarrow> sum_list (map (\<lambda>v. Suc (json_weight v)) vs)
      | Inr (Inr (opts, w, m, first, sink, es, d)) \<Rightarrow> sum_list (map (\<lambda>e. Suc (json_weight (snd e))) es))")
    auto

section \<open>Entry points\<close>

definition dump_value_to :: "dump_options \<Rightarrow> nat \<Rightarrow> nat \<Rightarrow> bytes \<Rightarrow> jvalue \<Rightarrow> written" where
  "dump_value_to opts w max_depth sink v =
     (if o_pretty opts \<and> o_indent_char opts \<noteq> 0x20 \<and> o_indent_char opts \<noteq> 0x09
      then WFail sink (dump_error InvalidIndentChar [])
      else write_value opts w max_depth sink v 0)"

text \<open>\<^verbatim>\<open>dump_to(std::pmr::string &)\<close>: writes directly, a failure leaves the partial text.\<close>

definition dump_to_pmr :: "dump_options \<Rightarrow> nat \<Rightarrow> nat \<Rightarrow> bytes \<Rightarrow> jvalue \<Rightarrow> written" where
  "dump_to_pmr opts w max_depth sink v = dump_value_to opts w max_depth sink v"

definition dump_impl :: "dump_options \<Rightarrow> nat \<Rightarrow> nat \<Rightarrow> jvalue \<Rightarrow> error + bytes" where
  "dump_impl opts w max_depth v =
     (case dump_value_to opts w max_depth [] v of WOk s \<Rightarrow> Inr s | WFail _ e \<Rightarrow> Inl e)"

text \<open>\<^verbatim>\<open>dump_to(std::string &)\<close>: the text is materialised before the sink is touched.\<close>

definition dump_to_string :: "dump_options \<Rightarrow> nat \<Rightarrow> nat \<Rightarrow> bytes \<Rightarrow> jvalue \<Rightarrow> written" where
  "dump_to_string opts w max_depth sink v =
     (case dump_impl opts w max_depth v of Inl e \<Rightarrow> WFail sink e | Inr s \<Rightarrow> WOk (sink @ s))"

text \<open>A stream that takes the bytes, or fails the write.\<close>

definition dump_to_stream :: "dump_options \<Rightarrow> nat \<Rightarrow> nat \<Rightarrow> bool \<Rightarrow> bytes \<Rightarrow> jvalue \<Rightarrow> written" where
  "dump_to_stream opts w max_depth good sink v =
     (case dump_impl opts w max_depth v of
        Inl e \<Rightarrow> WFail sink e
      | Inr s \<Rightarrow> if good then WOk (sink @ s) else WFail sink (dump_error StreamWriteFailed []))"

text \<open>How far the output file went: opening, writing, closing.\<close>

record file_sink =
  fo_opens :: bool
  fo_writes :: bool
  fo_closes :: bool

definition write_file_impl :: "file_sink \<Rightarrow> bytes \<Rightarrow> bytes \<Rightarrow> error option" where
  "write_file_impl f path dat =
     (if \<not> fo_opens f then Some (dump_error FileWriteOpenFailed path)
      else if \<not> fo_writes f then Some (dump_error FileWriteFailed path)
      else if \<not> fo_closes f then Some (dump_error FileWriteCloseFailed path)
      else None)"

definition dump_file_impl ::
  "file_sink \<Rightarrow> bytes \<Rightarrow> dump_options \<Rightarrow> nat \<Rightarrow> nat \<Rightarrow> jvalue \<Rightarrow> error + bytes" where
  "dump_file_impl f path opts w max_depth v =
     (case dump_impl opts w max_depth v of
        Inl e \<Rightarrow> Inl e
      | Inr s \<Rightarrow> (case write_file_impl f path s of Some e \<Rightarrow> Inl e | None \<Rightarrow> Inr s))"

fun jsonl_sink :: "nat \<Rightarrow> nat \<Rightarrow> bytes \<Rightarrow> jvalue list \<Rightarrow> written" where
  "jsonl_sink w max_depth sink [] = WOk sink"
| "jsonl_sink w max_depth sink (v # vs) =
     bindw (dump_value_to compact_options w max_depth sink v) (\<lambda>sink. jsonl_sink w max_depth (sink @ [0x0A]) vs)"

definition dump_jsonl_impl :: "nat \<Rightarrow> nat \<Rightarrow> jvalue list \<Rightarrow> error + bytes" where
  "dump_jsonl_impl w max_depth vs =
     (case jsonl_sink w max_depth [] vs of WOk s \<Rightarrow> Inr s | WFail _ e \<Rightarrow> Inl e)"

definition dump_jsonl_file_impl ::
  "file_sink \<Rightarrow> bytes \<Rightarrow> nat \<Rightarrow> nat \<Rightarrow> jvalue list \<Rightarrow> error + bytes" where
  "dump_jsonl_file_impl f path w max_depth vs =
     (case dump_jsonl_impl w max_depth vs of
        Inl e \<Rightarrow> Inl e
      | Inr s \<Rightarrow> (case write_file_impl f path s of Some e \<Rightarrow> Inl e | None \<Rightarrow> Inr s))"

end
