(* ===== verification/ParserState.thy ===== *)
theory ParserState
  imports Unicode Numbers
begin

text \<open>
  The state of \<^verbatim>\<open>class Parser\<close> (\<^verbatim>\<open>include/pjh_json/parser.hpp\<close>): the fields captured
  by the constructor, the cursor over a mutable buffer, the first-error slot, the
  white space scanners (\<^verbatim>\<open>src/parser/utils.cpp\<close>) and the literals
  (\<^verbatim>\<open>src/parser/literal.cpp\<close>).
\<close>

section \<open>State and results\<close>

text \<open>\<^verbatim>\<open>c_lanes\<close> is the width of the SIMD batch, \<^verbatim>\<open>c_hash\<close> is \<^verbatim>\<open>std::hash\<close> on a key.\<close>

record pctx =
  c_begin :: nat
  c_end :: nat
  c_padded :: bool
  c_strip_bom :: bool
  c_strict_utf8 :: bool
  c_json5 :: bool
  c_max_depth :: nat
  c_strict_dup :: bool
  c_lanes :: nat
  c_hash :: "bytes \<Rightarrow> nat"

record pstate =
  st_buf :: bytes
  st_curr :: nat
  st_depth :: nat
  st_err :: "error option"

text \<open>A borrowed \<^verbatim>\<open>std::string_view\<close>: start and length in the buffer.\<close>

type_synonym view = "nat \<times> nat"

definition view_bytes :: "bytes \<Rightarrow> view \<Rightarrow> bytes" where
  "view_bytes buf v = slice buf (fst v) (snd v)"

text \<open>
  A parse step returns normally, returns \<^verbatim>\<open>false\<close> with the recorded first error, or
  touches memory outside the buffer (\<^verbatim>\<open>POob\<close>, undefined behaviour in the source);
  \<^verbatim>\<open>PFuel\<close> is exhausted recursion fuel.
\<close>

datatype 'a pres = POk 'a pstate | PFail error | POob | PFuel

definition bindp :: "'a pres \<Rightarrow> ('a \<Rightarrow> pstate \<Rightarrow> 'b pres) \<Rightarrow> 'b pres" where
  "bindp m f = (case m of POk a st \<Rightarrow> f a st | PFail e \<Rightarrow> PFail e | POob \<Rightarrow> POob | PFuel \<Rightarrow> PFuel)"

lemma bindp_simps [simp]:
  "bindp (POk a st) f = f a st" "bindp (PFail e) f = PFail e" "bindp POob f = POob"
  "bindp PFuel f = PFuel"
  by (simp_all add: bindp_def)

lemma bindp_eq_POk: "bindp m f = POk b st' \<longleftrightarrow> (\<exists>a st. m = POk a st \<and> f a st = POk b st')"
  by (cases m) auto

text \<open>\<^verbatim>\<open>Parser::fail\<close> and \<^verbatim>\<open>fail_context\<close>: the first recorded error wins.\<close>

definition first_error :: "pstate \<Rightarrow> error \<Rightarrow> error" where
  "first_error st e = (case st_err st of Some e' \<Rightarrow> e' | None \<Rightarrow> e)"

definition pfail :: "pctx \<Rightarrow> error_code \<Rightarrow> nat \<Rightarrow> pstate \<Rightarrow> 'a pres" where
  "pfail ctx c pos st = PFail (first_error st (positioned_error c (pos - c_begin ctx)))"

definition pfail_context :: "error_code \<Rightarrow> bytes \<Rightarrow> pstate \<Rightarrow> 'a pres" where
  "pfail_context c d st = PFail (first_error st (context_error c CatParse d))"

definition record_error :: "pctx \<Rightarrow> error_code \<Rightarrow> nat \<Rightarrow> pstate \<Rightarrow> pstate" where
  "record_error ctx c pos st =
     st\<lparr>st_err := Some (first_error st (positioned_error c (pos - c_begin ctx)))\<rparr>"

text \<open>Dereference of the cursor, and a \<^verbatim>\<open>memcpy\<close> load behind it.\<close>

definition at_cursor :: "pstate \<Rightarrow> (byte \<Rightarrow> 'a pres) \<Rightarrow> 'a pres" where
  "at_cursor st f = (case rd (st_buf st) (st_curr st) of None \<Rightarrow> POob | Some c \<Rightarrow> f c)"

definition load :: "bytes \<Rightarrow> nat \<Rightarrow> nat \<Rightarrow> bytes option" where
  "load buf i n = (if i + n \<le> length buf then Some (slice buf i n) else None)"

definition advance :: "nat \<Rightarrow> pstate \<Rightarrow> pstate" where
  "advance n st = st\<lparr>st_curr := st_curr st + n\<rparr>"

text \<open>The unread content, the bytes of \<open>[m_curr, m_end)\<close>.\<close>

definition unread :: "pctx \<Rightarrow> pstate \<Rightarrow> bytes" where
  "unread ctx st = slice (st_buf st) (st_curr st) (c_end ctx - st_curr st)"

section \<open>White space and JSON5 trivia\<close>

fun line_comment :: "bytes \<Rightarrow> nat" where
  "line_comment [] = 0"
| "line_comment (c # r) =
     (if c = 0x0A \<or> c = 0x0D then 0
      else if 2 \<le> length r \<and> c = 0xE2 \<and> r ! 0 = 0x80 \<and> (r ! 1 = 0xA8 \<or> r ! 1 = 0xA9) then 0
      else Suc (line_comment r))"

text \<open>Offset of the closing marker of a block comment.\<close>

fun block_comment :: "bytes \<Rightarrow> nat option" where
  "block_comment (c # d # r) =
     (if c = 0x2A \<and> d = 0x2F then Some 0 else map_option Suc (block_comment (d # r)))"
| "block_comment _ = None"

lemma line_comment_le: "line_comment p \<le> length p"
  by (induction p) auto

lemma block_comment_le: "block_comment p = Some k \<Longrightarrow> k + 2 \<le> length p"
  by (induction p arbitrary: k rule: block_comment.induct) (auto split: if_splits)

text \<open>
  \<^verbatim>\<open>skip_json5_trivia\<close> on \<open>[m_curr, m_end)\<close>: bytes skipped, and whether an
  unterminated block comment was recorded.
\<close>

definition unicode_space :: "bytes \<Rightarrow> nat" where
  "unicode_space q =
     (if q \<noteq> [] \<and> 0x80 \<le> hd q then
        (case decode_utf8 q of None \<Rightarrow> 0
         | Some (cp, n) \<Rightarrow> if is_json5_whitespace cp then n else 0)
      else 0)"

function json5_trivia :: "bytes \<Rightarrow> nat \<times> bool" where
  "json5_trivia p =
     (let n = length (takeWhile is_json5_whitespace_ascii p); q = drop n p; u = unicode_space q in
      if 0 < u then (let (k, bad) = json5_trivia (drop u q) in (n + u + k, bad))
      else if 2 \<le> length q \<and> q ! 0 = 0x2F \<and> q ! 1 = 0x2F then
        (let c = line_comment (drop 2 q); (k, bad) = json5_trivia (drop (2 + c) q)
         in (n + 2 + c + k, bad))
      else if 2 \<le> length q \<and> q ! 0 = 0x2F \<and> q ! 1 = 0x2A then
        (case block_comment (drop 2 q) of
           None \<Rightarrow> (n + 2 + (length q - 3), True)
         | Some c \<Rightarrow> (let (k, bad) = json5_trivia (drop (4 + c) q) in (n + 4 + c + k, bad)))
      else (n, False))"
  by pat_completeness auto
termination
proof (relation "measure length", goal_cases)
  case (2 p n q u)
  then show ?case by (cases "q = []") (auto simp: unicode_space_def)
next
  case (3 p n q u c)
  then show ?case by auto
next
  case (4 p n q u c)
  then show ?case using block_comment_le [of "drop 2 q" c] by auto
qed simp

declare json5_trivia.simps [simp del]

definition skip_json5_trivia :: "pctx \<Rightarrow> pstate \<Rightarrow> pstate" where
  "skip_json5_trivia ctx st =
     (let (n, bad) = json5_trivia (unread ctx st); st' = advance n st
      in if bad then record_error ctx UnexpectedEndOfInput (c_end ctx) st' else st')"

definition non_ws_mask :: "nat \<Rightarrow> bytes \<Rightarrow> u64" where
  "non_ws_mask w b = keep_lanes w (NOT (lane_mask is_whitespace b))"

definition skip_whitespace :: "pctx \<Rightarrow> pstate \<Rightarrow> unit pres" where
  "skip_whitespace ctx st =
     (if c_json5 ctx then POk () (skip_json5_trivia ctx st)
      else at_cursor st (\<lambda>c.
        if 0x20 < c then POk () st
        else case simd_scan (c_lanes ctx) (non_ws_mask (c_lanes ctx)) (st_buf st) (st_curr st) of
               None \<Rightarrow> POob | Some k \<Rightarrow> POk () (st\<lparr>st_curr := k\<rparr>)))"

section \<open>Byte order mark\<close>

definition starts_with_utf8_bom :: "bytes \<Rightarrow> bool" where
  "starts_with_utf8_bom p \<longleftrightarrow> 3 \<le> length p \<and> p ! 0 = 0xEF \<and> p ! 1 = 0xBB \<and> p ! 2 = 0xBF"

definition skip_leading_bom :: "pctx \<Rightarrow> pstate \<Rightarrow> pstate" where
  "skip_leading_bom ctx st =
     (if st_curr st = c_begin ctx \<and> starts_with_utf8_bom (unread ctx st) then advance 3 st else st)"

section \<open>Literals\<close>

definition kTrueMagic :: bytes where "kTrueMagic = lit ''true''"
definition kNullMagic :: bytes where "kNullMagic = lit ''null''"
definition kFalseMagic :: bytes where "kFalseMagic = lit ''false'' @ [0, 0, 0]"
definition kFalseMask :: bytes where "kFalseMask = [0xFF, 0xFF, 0xFF, 0xFF, 0xFF, 0, 0, 0]"

text \<open>\<^verbatim>\<open>kValidAfterLiteral\<close>.\<close>

definition valid_after_literal :: "byte \<Rightarrow> bool" where
  "valid_after_literal c \<longleftrightarrow>
     c = 0 \<or> c = 9 \<or> c = 10 \<or> c = 13 \<or> c = 32 \<or> c = 44 \<or> c = 58 \<or> c = 93 \<or> c = 125"

definition literal_tail :: "pctx \<Rightarrow> nat \<Rightarrow> view json \<Rightarrow> pstate \<Rightarrow> view json pres" where
  "literal_tail ctx n v st =
     (let st' = advance n st in
      if c_json5 ctx then POk v st'
      else at_cursor st' (\<lambda>c.
        if valid_after_literal c then POk v st'
        else pfail ctx InvalidLiteralTrailing (st_curr st') st'))"

definition parse_literal :: "pctx \<Rightarrow> pstate \<Rightarrow> view json pres" where
  "parse_literal ctx st =
     (case load (st_buf st) (st_curr st) 4 of
        None \<Rightarrow> POob
      | Some val32 \<Rightarrow>
          if val32 = kTrueMagic then literal_tail ctx 4 (JBool True) st
          else if val32 = kNullMagic then literal_tail ctx 4 JNull st
          else case load (st_buf st) (st_curr st) 8 of
                 None \<Rightarrow> POob
               | Some val64 \<Rightarrow>
                   if map2 (AND) val64 kFalseMask = kFalseMagic
                   then literal_tail ctx 5 (JBool False) st
                   else pfail ctx InvalidLiteral (st_curr st) st)"

section \<open>Numbers\<close>

definition parse_number :: "pctx \<Rightarrow> pstate \<Rightarrow> view json pres" where
  "parse_number ctx st =
     (case (if c_json5 ctx then number_json5 (unread ctx st) else number_rfc (unread ctx st)) of
        Inl (c, off) \<Rightarrow> pfail ctx c (st_curr st + off) st
      | Inr (n, v) \<Rightarrow> POk v (advance n st))"

section \<open>Reading under the padding contract\<close>

text \<open>
  The contract of \<^verbatim>\<open>kPaddingWidth\<close>: 128 NUL bytes behind the content.
\<close>

definition kPaddingWidth :: nat where "kPaddingWidth = 128"

definition pad_ok :: "pctx \<Rightarrow> bytes \<Rightarrow> bool" where
  "pad_ok ctx buf \<longleftrightarrow> (\<exists>more. drop (c_end ctx) buf = replicate kPaddingWidth 0 @ more)
     \<and> c_end ctx \<le> length buf"

definition lanes_ok :: "pctx \<Rightarrow> bool" where
  "lanes_ok ctx \<longleftrightarrow> width_ok (c_lanes ctx) \<and> 2 * c_lanes ctx \<le> kPaddingWidth"

lemma advance_simps [simp]:
  "st_curr (advance n st) = st_curr st + n" "st_buf (advance n st) = st_buf st"
  "st_depth (advance n st) = st_depth st" "st_err (advance n st) = st_err st"
  "advance 0 st = st" "advance m (advance n st) = advance (n + m) st"
  by (simp_all add: advance_def add.assoc)

lemma drop_unread:
  assumes "pad_ok ctx (st_buf st)" "st_curr st \<le> c_end ctx"
  obtains more where "drop (st_curr st) (st_buf st) = unread ctx st @ replicate 128 0 @ more"
proof -
  obtain more where m: "drop (c_end ctx) (st_buf st) = replicate 128 0 @ more" "c_end ctx \<le> length (st_buf st)"
    using assms(1) by (auto simp: pad_ok_def kPaddingWidth_def)
  have "drop (st_curr st) (st_buf st) = unread ctx st @ drop (c_end ctx) (st_buf st)"
    using drop_slice_append [of "st_curr st" "c_end ctx - st_curr st" "st_buf st"] assms(2) m(2)
    by (simp add: unread_def)
  then show ?thesis using m(1) that by simp
qed

lemma length_unread:
  "pad_ok ctx (st_buf st) \<Longrightarrow> st_curr st \<le> c_end ctx \<Longrightarrow> length (unread ctx st) = c_end ctx - st_curr st"
  by (simp add: unread_def pad_ok_def)

text \<open>What a cursor sees: the content, then NUL padding.\<close>

definition ahead :: "pctx \<Rightarrow> pstate \<Rightarrow> bytes \<Rightarrow> bool" where
  "ahead ctx st t \<longleftrightarrow> pad_ok ctx (st_buf st) \<and> st_curr st \<le> c_end ctx \<and> unread ctx st = t"

lemma aheadE:
  assumes "ahead ctx st t"
  obtains more where "drop (st_curr st) (st_buf st) = t @ replicate 128 0 @ more"
  using assms drop_unread [of ctx st] unfolding ahead_def by blast

lemma ahead_rd:
  assumes "ahead ctx st t" "k \<le> length t"
  shows "rd (st_buf st) (st_curr st + k) = Some (if k < length t then t ! k else 0)"
proof -
  obtain more where "drop (st_curr st) (st_buf st) = t @ replicate 128 0 @ more"
    using assms(1) by (rule aheadE)
  then show ?thesis using assms(2) by (subst rd_rest) (auto simp: nth_append)
qed

lemma at_cursor_ahead:
  "ahead ctx st t \<Longrightarrow> at_cursor st f = f (if t = [] then 0 else hd t)"
  using ahead_rd [of ctx st t 0] by (cases t) (auto simp: at_cursor_def)

lemma ahead_length: "ahead ctx st t \<Longrightarrow> st_curr st + length t = c_end ctx"
  using length_unread [of ctx st] by (auto simp: ahead_def)

lemma ahead_advance:
  assumes "ahead ctx st t" "n \<le> length t"
  shows "ahead ctx (advance n st) (drop n t)"
proof -
  have "drop n (unread ctx st) = unread ctx (advance n st)"
    by (simp add: unread_def slice_def drop_take add.commute)
  then show ?thesis
    using assms ahead_length [OF assms(1)] by (auto simp: ahead_def)
qed

definition ws_run :: "bytes \<Rightarrow> nat" where
  "ws_run p = length (takeWhile is_whitespace p)"

lemma ws_run_le: "ws_run p \<le> length p"
  by (simp add: ws_run_def length_takeWhile_le)

lemma ws_run_append:
  assumes "\<forall>c \<in> set w. is_whitespace c" "r = [] \<or> \<not> is_whitespace (hd r)"
  shows "ws_run (w @ r) = length w"
proof -
  have tw: "takeWhile is_whitespace w = w" using assms(1) by (simp add: takeWhile_eq_all_conv)
  show ?thesis using assms by (cases r) (auto simp: ws_run_def takeWhile_append tw)
qed

lemma ws_run_stop: "drop (ws_run p) p = [] \<or> \<not> is_whitespace (hd (drop (ws_run p) p))"
  using hd_dropWhile [of is_whitespace p] by (auto simp: ws_run_def dropWhile_eq_drop)

lemma ws_run_take: "\<forall>c \<in> set (take (ws_run p) p). is_whitespace c"
  by (simp add: ws_run_def flip: takeWhile_eq_take) (meson set_takeWhileD)

lemma not_ws_0 [simp]: "\<not> is_whitespace 0"
  by (simp add: is_whitespace_def)

text \<open>
  A wide scan for a byte class that contains NUL stops at the first member, at the
  latest at the padding behind the content.
\<close>

lemma simd_scan_ahead:
  assumes "lanes_ok ctx" "ahead ctx st t" "P 0"
    and m: "\<And>b. length b = c_lanes ctx \<Longrightarrow> m b = lane_mask P b"
  shows "simd_scan (c_lanes ctx) m (st_buf st) (st_curr st)
    = Some (st_curr st + length (takeWhile (\<lambda>c. \<not> P c) t))"
proof -
  obtain more where d: "drop (st_curr st) (st_buf st) = t @ replicate 128 0 @ more"
    using assms(2) by (rule aheadE)
  let ?i = "st_curr st" and ?b = "st_buf st" and ?w = "c_lanes ctx"
  let ?k = "length (takeWhile (\<lambda>c. \<not> P c) t)"
  have w: "width_ok ?w" "?w \<le> 64" using assms(1) by (auto simp: lanes_ok_def kPaddingWidth_def)
  have len: "length ?b = ?i + length t + 128 + length more"
  proof -
    have "length ?b - ?i = length t + 128 + length more" using arg_cong [OF d, of length] by simp
    then show ?thesis by simp
  qed
  have k: "?k \<le> length t" by (rule length_takeWhile_le)
  have nth: "?b ! (?i + j) = t ! j" if "j < length t" for j
    using that len arg_cong [OF d, of "\<lambda>xs. xs ! j"] by (simp add: nth_append)
  have nul: "?b ! (?i + length t) = 0"
    using len arg_cong [OF d, of "\<lambda>xs. xs ! length t"] by (simp add: nth_append)
  have stop: "P (?b ! (?i + ?k))"
  proof (cases "?k = length t")
    case True
    then show ?thesis using nul assms(3) by simp
  next
    case False
    then have "?k < length t" using k by simp
    then show ?thesis using nth nth_length_takeWhile [of "\<lambda>c. \<not> P c" t] by simp
  qed
  have run: "\<not> P (?b ! j)" if "?i \<le> j" "j < ?i + ?k" for j
  proof -
    have j: "j - ?i < ?k" using that by linarith
    then have "\<not> P (t ! (j - ?i))"
      using takeWhile_nth [of "j - ?i" "\<lambda>c. \<not> P c" t] set_takeWhileD [OF nth_mem [OF j]] by metis
    then show ?thesis using nth [of "j - ?i"] j k that by simp
  qed
  show ?thesis
    by (rule simd_scan_first [OF w(1) m]) (use w len k stop run in auto)
qed

text \<open>
  The wide white space scan of the RFC mode stops at the first other byte; NUL
  padding stops it at the end of the content.
\<close>

lemma skip_whitespace_rfc:
  assumes "\<not> c_json5 ctx" "lanes_ok ctx" "ahead ctx st t"
  shows "skip_whitespace ctx st = POk () (advance (ws_run t) st)"
proof -
  let ?i = "st_curr st" and ?b = "st_buf st" and ?w = "c_lanes ctx" and ?k = "ws_run t"
  have w: "?w \<le> 64" using assms(2) by (auto simp: lanes_ok_def kPaddingWidth_def)
  have "non_ws_mask ?w b = lane_mask (\<lambda>c. \<not> is_whitespace c) b" if "length b = ?w" for b
    using keep_lanes_not_lane_mask [OF that w] by (simp add: non_ws_mask_def)
  then have scan: "simd_scan ?w (non_ws_mask ?w) ?b ?i = Some (?i + ?k)"
    using simd_scan_ahead [OF assms(2,3), of "\<lambda>c. \<not> is_whitespace c" "non_ws_mask ?w"]
    by (simp add: ws_run_def)
  show ?thesis
  proof (cases "0x20 < (if t = [] then 0 else hd t)")
    case True
    then have "?k = 0"
      by (cases t) (auto simp: ws_run_def is_whitespace_def split: if_splits)
    then show ?thesis
      using assms(1) True by (simp add: skip_whitespace_def at_cursor_ahead [OF assms(3)])
  next
    case False
    then show ?thesis
      using assms(1) scan
      by (simp only: skip_whitespace_def at_cursor_ahead [OF assms(3)] if_False option.case advance_def)
  qed
qed

end
