(* ===== verification/Strings.thy ===== *)
theory Strings
  imports ParserState
begin

unbundle bit_operations_syntax

text \<open>
  String scanning and in-place escape decoding: \<^verbatim>\<open>parse_hex4\<close> and
  \<^verbatim>\<open>handle_escape\<close> of \<^verbatim>\<open>src/parser/utils.cpp\<close>, the RFC and JSON5 string parsers of
  \<^verbatim>\<open>src/parser/string.cpp\<close>, the identifier keys of \<^verbatim>\<open>src/parser/object.cpp\<close>.  The
  decoders write through an output cursor into the buffer they read from.
\<close>

section \<open>Escape sequences\<close>

text \<open>
  An escape handler yields the bytes it writes and its new cursor, or the error code
  and the offending position (\<^term>\<open>None\<close>: context free), or reads outside the buffer.
\<close>

datatype 'a esc = EscOk 'a nat | EscFail error_code "nat option" | EscOob

fun hex4_loop :: "bytes \<Rightarrow> nat \<Rightarrow> nat \<Rightarrow> u32 \<Rightarrow> u32 esc" where
  "hex4_loop buf cur 0 acc = EscOk acc cur"
| "hex4_loop buf cur (Suc k) acc =
     (case rd buf cur of
        None \<Rightarrow> EscOob
      | Some c \<Rightarrow> (case hex_value c of
            None \<Rightarrow> EscFail InvalidHexDigit (Some cur)
          | Some v \<Rightarrow> hex4_loop buf (Suc cur) k (push_bit 4 acc OR word_of_nat v)))"

definition parse_hex4 :: "bytes \<Rightarrow> nat \<Rightarrow> u32 esc" where
  "parse_hex4 buf cur = hex4_loop buf cur 4 0"

definition combine_surrogates :: "u32 \<Rightarrow> u32 \<Rightarrow> u32" where
  "combine_surrogates hi lo = 0x10000 + (push_bit 10 (hi - 0xD800) OR (lo - 0xDC00))"

definition emit_utf8 :: "u32 \<Rightarrow> nat \<Rightarrow> bytes esc" where
  "emit_utf8 cp cur =
     (case encode_utf8 cp of None \<Rightarrow> EscFail InvalidCodepoint None | Some bs \<Rightarrow> EscOk bs cur)"

definition rd2_is :: "bytes \<Rightarrow> nat \<Rightarrow> byte \<Rightarrow> byte \<Rightarrow> bool option" where
  "rd2_is buf i a b =
     (case rd buf i of None \<Rightarrow> None
      | Some x \<Rightarrow> if x \<noteq> a then Some False else map_option (\<lambda>y. y = b) (rd buf (Suc i)))"

text \<open>The \<open>\uXXXX\<close> part of \<^verbatim>\<open>handle_escape\<close>; the cursor is behind the \<open>u\<close>.\<close>

definition unicode_escape :: "bytes \<Rightarrow> nat \<Rightarrow> bytes esc" where
  "unicode_escape buf cur =
     (case parse_hex4 buf cur of
        EscFail c p \<Rightarrow> EscFail c p
      | EscOob \<Rightarrow> EscOob
      | EscOk cp q \<Rightarrow>
          if is_high_surrogate cp then
            (case rd2_is buf q 0x5C 0x75 of
               None \<Rightarrow> EscOob
             | Some False \<Rightarrow> EscFail ExpectedLowSurrogate (Some q)
             | Some True \<Rightarrow> (case parse_hex4 buf (q + 2) of
                   EscFail c p \<Rightarrow> EscFail c p
                 | EscOob \<Rightarrow> EscOob
                 | EscOk cp2 r \<Rightarrow>
                     if is_low_surrogate cp2 then emit_utf8 (combine_surrogates cp cp2) r
                     else EscFail InvalidSurrogatePair (Some r)))
          else if is_low_surrogate cp then EscFail LoneLowSurrogate (Some q)
          else emit_utf8 cp q)"

definition handle_escape :: "bytes \<Rightarrow> nat \<Rightarrow> bytes esc" where
  "handle_escape buf cur =
     (case rd buf (Suc cur) of
        None \<Rightarrow> EscOob
      | Some e \<Rightarrow>
          if short_escape_value e \<noteq> 0 then EscOk [short_escape_value e] (cur + 2)
          else if e \<noteq> 0x75 then EscFail InvalidEscapeChar (Some (Suc cur))
          else unicode_escape buf (cur + 2))"

lemma hex4_loop_cursor: "hex4_loop buf i k c = EscOk cp j \<Longrightarrow> j = i + k"
  by (induction buf i k c rule: hex4_loop.induct) (auto split: option.splits)

lemma emit_utf8_cursor: "emit_utf8 cp i = EscOk bs j \<Longrightarrow> j = i"
  by (auto simp: emit_utf8_def split: option.splits)

lemma unicode_escape_cursor: "unicode_escape buf i = EscOk bs j \<Longrightarrow> i < j"
  by (auto simp: unicode_escape_def parse_hex4_def dest!: hex4_loop_cursor emit_utf8_cursor
      split: esc.splits if_splits option.splits bool.splits)

lemma handle_escape_cursor: "handle_escape buf i = EscOk bs j \<Longrightarrow> i < j"
  by (auto simp: handle_escape_def dest!: unicode_escape_cursor split: option.splits if_splits)

section \<open>The RFC string\<close>

text \<open>A write behind the buffer is undefined behaviour like a read.\<close>

definition put :: "bytes \<Rightarrow> nat \<Rightarrow> bytes \<Rightarrow> bytes option" where
  "put buf i bs = (if i + length bs \<le> length buf then Some (put_bytes buf i bs) else None)"

lemma put_length: "put buf i bs = Some buf' \<Longrightarrow> length buf' = length buf"
  by (auto simp: put_def length_put_bytes split: if_splits)

definition feed_strict :: "pctx \<Rightarrow> byte \<Rightarrow> nat \<Rightarrow> utf8_checker \<Rightarrow> utf8_checker" where
  "feed_strict ctx c pos ck = (if c_strict_utf8 ctx then ck_feed c pos ck else ck)"

definition end_strict :: "pctx \<Rightarrow> utf8_checker \<Rightarrow> utf8_checker" where
  "end_strict ctx ck = (if c_strict_utf8 ctx then ck_end ck else ck)"

definition esc_fail :: "pctx \<Rightarrow> error_code \<Rightarrow> nat option \<Rightarrow> pstate \<Rightarrow> 'a pres" where
  "esc_fail ctx c p st =
     (case p of Some pos \<Rightarrow> pfail ctx c pos st | None \<Rightarrow> pfail_context c [] st)"

text \<open>
  Phase 2 of \<^verbatim>\<open>parse_string\<close>: decode in place until the closing quote, from the
  cursor, with output cursor \<open>dst\<close> and the content starting at \<open>start\<close>.
\<close>

function decode_in_situ ::
  "pctx \<Rightarrow> nat \<Rightarrow> nat \<Rightarrow> utf8_checker \<Rightarrow> pstate \<Rightarrow> view pres" where
  "decode_in_situ ctx start dst ck st =
     (case rd (st_buf st) (st_curr st) of
        None \<Rightarrow> POob
      | Some c \<Rightarrow>
          if c = 0x22 then
            (let ck' = end_strict ctx ck in
             if ck_failed ck' then pfail ctx (ck_code ck') (ck_err ck') st
             else POk (start, dst - start) (advance 1 st))
          else
            let ck' = feed_strict ctx c (st_curr st) ck in
            if ck_failed ck' then pfail ctx (ck_code ck') (ck_err ck') st
            else if c = 0x5C then
              (case handle_escape (st_buf st) (st_curr st) of
                 EscOob \<Rightarrow> POob
               | EscFail e p \<Rightarrow> esc_fail ctx e p st
               | EscOk bs j \<Rightarrow> (case put (st_buf st) dst bs of
                     None \<Rightarrow> POob
                   | Some buf' \<Rightarrow>
                       decode_in_situ ctx start (dst + length bs) ck'
                         (st\<lparr>st_buf := buf', st_curr := j\<rparr>)))
            else if c < 0x20 then pfail ctx UnescapedControl (st_curr st) st
            else (case put (st_buf st) dst [c] of
                    None \<Rightarrow> POob
                  | Some buf' \<Rightarrow>
                      decode_in_situ ctx start (dst + 1) ck'
                        (st\<lparr>st_buf := buf', st_curr := st_curr st + 1\<rparr>)))"
  by pat_completeness auto
termination
  by (relation "measure (\<lambda>(ctx, start, dst, ck, st). length (st_buf st) - st_curr st)")
    (auto simp: rd_eq_SomeD dest!: put_length handle_escape_cursor)

declare decode_in_situ.simps [simp del]

definition string_stop :: "byte \<Rightarrow> bool" where
  "string_stop c \<longleftrightarrow> c = 0x22 \<or> c = 0x5C \<or> c < 0x20"

definition string_mask :: "nat \<Rightarrow> bytes \<Rightarrow> u64" where
  "string_mask w b = keep_lanes w (lane_mask string_stop b)"

text \<open>\<^verbatim>\<open>parse_string\<close> behind the opening quote: the wide scan, then by the byte found.\<close>

definition parse_string_rfc :: "pctx \<Rightarrow> pstate \<Rightarrow> view pres" where
  "parse_string_rfc ctx st =
     (let start = st_curr st in
      case simd_scan (c_lanes ctx) (string_mask (c_lanes ctx)) (st_buf st) start of
        None \<Rightarrow> POob
      | Some k \<Rightarrow>
          let st' = st\<lparr>st_curr := k\<rparr> in
          at_cursor st' (\<lambda>c.
            if c = 0x22 then
              (let (ec, ep) = (if c_strict_utf8 ctx
                               then check_utf8_strict (slice (st_buf st) start (k - start)) start
                               else (NoError, 0)) in
               if ec \<noteq> NoError then pfail ctx ec ep st'
               else POk (start, k - start) (advance 1 st'))
            else if c = 0x5C then
              (let ck = (if c_strict_utf8 ctx
                         then feed_range (slice (st_buf st) start (k - start)) start checker0
                         else checker0) in
               if ck_failed ck then pfail ctx (ck_code ck) (ck_err ck) st'
               else decode_in_situ ctx start k ck st')
            else if c_end ctx \<le> k then pfail ctx UnterminatedString k st'
            else pfail ctx UnescapedControl k st'))"

section \<open>The JSON5 string\<close>

text \<open>The bounded handlers read below \<open>end\<close> only, so the buffer is an argument read by index.\<close>

definition below :: "bytes \<Rightarrow> nat \<Rightarrow> nat \<Rightarrow> byte \<Rightarrow> bool" where
  "below buf e i c \<longleftrightarrow> i < e \<and> rd buf i = Some c"

fun hex4_bounded_loop :: "bytes \<Rightarrow> nat \<Rightarrow> nat \<Rightarrow> nat \<Rightarrow> u32 \<Rightarrow> u32 esc" where
  "hex4_bounded_loop buf e cur 0 acc = EscOk acc cur"
| "hex4_bounded_loop buf e cur (Suc k) acc =
     (if e \<le> cur then EscFail UnterminatedString (Some cur)
      else case rd buf cur of
        None \<Rightarrow> EscOob
      | Some c \<Rightarrow> (case hex_value c of
            None \<Rightarrow> EscFail InvalidHexDigit (Some cur)
          | Some v \<Rightarrow> hex4_bounded_loop buf e (Suc cur) k (push_bit 4 acc OR word_of_nat v)))"

definition read_hex4_bounded :: "bytes \<Rightarrow> nat \<Rightarrow> nat \<Rightarrow> u32 esc" where
  "read_hex4_bounded buf e cur = hex4_bounded_loop buf e cur 4 0"

definition unicode_escape_bounded :: "bytes \<Rightarrow> nat \<Rightarrow> nat \<Rightarrow> bytes esc" where
  "unicode_escape_bounded buf e cur =
     (case read_hex4_bounded buf e cur of
        EscFail c p \<Rightarrow> EscFail c p
      | EscOob \<Rightarrow> EscOob
      | EscOk cp q \<Rightarrow>
          if is_high_surrogate cp then
            (if q + 2 \<le> e \<and> below buf e q 0x5C \<and> below buf e (q + 1) 0x75 then
               (case read_hex4_bounded buf e (q + 2) of
                  EscFail c p \<Rightarrow> EscFail c p
                | EscOob \<Rightarrow> EscOob
                | EscOk cp2 r \<Rightarrow>
                    if is_low_surrogate cp2 then emit_utf8 (combine_surrogates cp cp2) r
                    else EscFail InvalidSurrogatePair (Some r))
             else EscFail ExpectedLowSurrogate (Some q))
          else if is_low_surrogate cp then EscFail LoneLowSurrogate (Some q)
          else emit_utf8 cp q)"

text \<open>\<^verbatim>\<open>\xHH\<close>; the cursor is behind the \<open>x\<close>.\<close>

definition hex2_escape :: "bytes \<Rightarrow> nat \<Rightarrow> nat \<Rightarrow> bytes esc" where
  "hex2_escape buf e cur =
     (if e < cur + 2 then EscFail UnterminatedString (Some cur)
      else case (rd buf cur, rd buf (cur + 1)) of
        (Some a, Some b) \<Rightarrow>
          (case hex_value a of
             None \<Rightarrow> EscFail InvalidHexDigit (Some cur)
           | Some hi \<Rightarrow> (case hex_value b of
                 None \<Rightarrow> EscFail InvalidHexDigit (Some (cur + 1))
               | Some lo \<Rightarrow> EscOk [push_bit 4 (word_of_nat hi) OR word_of_nat lo] (cur + 2)))
      | _ \<Rightarrow> EscOob)"

definition handle_escape_json5_bounded :: "bytes \<Rightarrow> nat \<Rightarrow> nat \<Rightarrow> bytes esc" where
  "handle_escape_json5_bounded buf e bs_pos =
     (let cur = Suc bs_pos in
      if e \<le> cur then EscFail UnterminatedString (Some cur)
      else case rd buf cur of
        None \<Rightarrow> EscOob
      | Some c \<Rightarrow>
          if c = 0x0A then EscOk [] (cur + 1)
          else if c = 0x0D then EscOk [] (if below buf e (cur + 1) 0x0A then cur + 2 else cur + 1)
          else if c = 0xE2 \<and> cur + 3 \<le> e \<and> below buf e (cur + 1) 0x80 \<and>
                  (below buf e (cur + 2) 0xA8 \<or> below buf e (cur + 2) 0xA9)
            then EscOk [] (cur + 3)
          else if c = 0x78 then hex2_escape buf e (cur + 1)
          else if c = 0x30 then
            (if cur + 1 < e \<and> (\<exists>d \<in> set_option (rd buf (cur + 1)). is_dec_digit d)
             then EscFail InvalidEscapeChar (Some cur) else EscOk [0] (cur + 1))
          else if 0x31 \<le> c \<and> c \<le> 0x39 then EscFail InvalidEscapeChar (Some cur)
          else if c = 0x75 then unicode_escape_bounded buf e (cur + 1)
          else if short_escape_value_json5 c \<noteq> 0
            then EscOk [short_escape_value_json5 c] (cur + 1)
          else EscOk [c] (cur + 1))"

lemma hex4_bounded_cursor: "hex4_bounded_loop buf e i k c = EscOk cp j \<Longrightarrow> j = i + k"
  by (induction buf e i k c rule: hex4_bounded_loop.induct) (auto split: option.splits if_splits)

lemma unicode_escape_bounded_cursor: "unicode_escape_bounded buf e i = EscOk bs j \<Longrightarrow> i < j"
  by (auto simp: unicode_escape_bounded_def read_hex4_bounded_def
      dest!: hex4_bounded_cursor emit_utf8_cursor split: esc.splits if_splits)

lemma hex2_escape_cursor: "hex2_escape buf e i = EscOk bs j \<Longrightarrow> i < j"
  by (auto simp: hex2_escape_def split: option.splits if_splits)

lemma handle_escape_json5_cursor:
  "handle_escape_json5_bounded buf e i = EscOk bs j \<Longrightarrow> i < j"
  by (auto simp: handle_escape_json5_bounded_def Let_def
      dest!: hex2_escape_cursor unicode_escape_bounded_cursor split: option.splits if_splits)

text \<open>
  The loop of \<^verbatim>\<open>parse_string_json5\<close>; \<open>dst\<close> is \<^term>\<open>None\<close> until the first escape.
\<close>

function string_json5_loop ::
  "pctx \<Rightarrow> byte \<Rightarrow> nat \<Rightarrow> nat option \<Rightarrow> utf8_checker \<Rightarrow> pstate \<Rightarrow> view pres" where
  "string_json5_loop ctx quote start dst ck st =
     (if c_end ctx \<le> st_curr st then pfail ctx UnterminatedString (st_curr st) st
      else case rd (st_buf st) (st_curr st) of
        None \<Rightarrow> POob
      | Some c \<Rightarrow>
          if c = quote then
            (let ck' = end_strict ctx ck in
             if ck_failed ck' then pfail ctx (ck_code ck') (ck_err ck') st
             else POk (start, (case dst of Some d \<Rightarrow> d | None \<Rightarrow> st_curr st) - start) (advance 1 st))
          else
            let ck' = feed_strict ctx c (st_curr st) ck in
            if ck_failed ck' then pfail ctx (ck_code ck') (ck_err ck') st
            else if c = 0x5C then
              (let d = (case dst of Some d \<Rightarrow> d | None \<Rightarrow> st_curr st) in
               case handle_escape_json5_bounded (st_buf st) (c_end ctx) (st_curr st) of
                 EscOob \<Rightarrow> POob
               | EscFail e p \<Rightarrow> esc_fail ctx e p st
               | EscOk bs j \<Rightarrow> (case put (st_buf st) d bs of
                     None \<Rightarrow> POob
                   | Some buf' \<Rightarrow>
                       string_json5_loop ctx quote start (Some (d + length bs)) ck'
                         (st\<lparr>st_buf := buf', st_curr := j\<rparr>)))
            else if is_json5_line_terminator_ascii c
              then pfail ctx UnescapedControl (st_curr st) st
            else (case dst of
                    None \<Rightarrow> string_json5_loop ctx quote start None ck' (advance 1 st)
                  | Some d \<Rightarrow> (case put (st_buf st) d [c] of
                        None \<Rightarrow> POob
                      | Some buf' \<Rightarrow>
                          string_json5_loop ctx quote start (Some (d + 1)) ck'
                            (st\<lparr>st_buf := buf', st_curr := st_curr st + 1\<rparr>))))"
  by pat_completeness auto
termination
  by (relation "measure (\<lambda>(ctx, q, start, dst, ck, st). length (st_buf st) - st_curr st)")
    (auto simp: rd_eq_SomeD dest!: put_length handle_escape_json5_cursor)

declare string_json5_loop.simps [simp del]

definition parse_string_json5 :: "pctx \<Rightarrow> byte \<Rightarrow> pstate \<Rightarrow> view pres" where
  "parse_string_json5 ctx quote st =
     (let st' = advance 1 st in string_json5_loop ctx quote (st_curr st') None checker0 st')"

definition parse_string :: "pctx \<Rightarrow> pstate \<Rightarrow> view pres" where
  "parse_string ctx st =
     (if c_end ctx \<le> st_curr st then pfail ctx ExpectedQuote (st_curr st) st
      else at_cursor st (\<lambda>c.
        if c \<noteq> 0x22 then pfail ctx ExpectedQuote (st_curr st) st
        else if c_json5 ctx then parse_string_json5 ctx 0x22 st
        else parse_string_rfc ctx (advance 1 st)))"

section \<open>Identifier keys\<close>

text \<open>\<^verbatim>\<open>decode_identifier_escape\<close> on \<open>[p, e)\<close>: the code point and the escape's length.\<close>

fun hex_quad :: "bytes \<Rightarrow> u32 option" where
  "hex_quad (a # b # c # d # r) =
     (case (hex_value a, hex_value b, hex_value c, hex_value d) of
        (Some w, Some x, Some y, Some z) \<Rightarrow>
          Some (push_bit 4 (push_bit 4 (push_bit 4 (word_of_nat w) OR word_of_nat x) OR word_of_nat y)
                OR word_of_nat z)
      | _ \<Rightarrow> None)"
| "hex_quad _ = None"

definition decode_identifier_escape :: "bytes \<Rightarrow> (u32 \<times> nat) option" where
  "decode_identifier_escape p =
     (if \<not> (2 \<le> length p \<and> p ! 0 = 0x5C \<and> p ! 1 = 0x75) then None
      else case hex_quad (drop 2 p) of
        None \<Rightarrow> None
      | Some cu \<Rightarrow>
          if is_high_surrogate cu then
            (let q = drop 6 p in
             if \<not> (6 \<le> length q \<and> q ! 0 = 0x5C \<and> q ! 1 = 0x75) then None
             else case hex_quad (drop 2 q) of
               None \<Rightarrow> None
             | Some cl \<Rightarrow> if \<not> is_low_surrogate cl then None
                          else Some (combine_surrogates cu cl, 12))
          else if is_low_surrogate cu then None
          else Some (cu, 6))"

text \<open>One unit of an identifier: code point, length, and whether it is an escape.\<close>

definition identifier_unit :: "bytes \<Rightarrow> (u32 \<times> nat \<times> bool) option" where
  "identifier_unit p =
     (if p = [] then None
      else if hd p = 0x5C then map_option (\<lambda>(cp, n). (cp, n, True)) (decode_identifier_escape p)
      else if hd p \<le> 0x7F then Some (ucast (hd p), 1, False)
      else map_option (\<lambda>(cp, n). (cp, n, False)) (decode_utf8 p))"

lemma hex_quad_len: "hex_quad p = Some v \<Longrightarrow> 4 \<le> length p"
  by (cases p rule: hex_quad.cases) auto

lemma decode_identifier_escape_len:
  "decode_identifier_escape p = Some (cp, n) \<Longrightarrow> 0 < n \<and> n \<le> length p"
  by (auto simp: decode_identifier_escape_def Let_def dest!: hex_quad_len
      split: if_splits option.splits)

lemma identifier_unit_len: "identifier_unit p = Some (cp, n, b) \<Longrightarrow> 0 < n \<and> n \<le> length p"
  by (auto simp: identifier_unit_def Suc_le_eq dest!: decode_identifier_escape_len decode_utf8_len
      split: if_splits)

function identifier_loop ::
  "pctx \<Rightarrow> nat \<Rightarrow> nat option \<Rightarrow> bool \<Rightarrow> pstate \<Rightarrow> view pres" where
  "identifier_loop ctx start dst fst_unit st =
     (let stop = (if st_curr st = start then pfail ctx ExpectedStringKey (st_curr st) st
                  else POk (start, (case dst of Some d \<Rightarrow> d | None \<Rightarrow> st_curr st) - start) st) in
      case identifier_unit (unread ctx st) of
        None \<Rightarrow> stop
      | Some (cp, n, escaped) \<Rightarrow>
          if \<not> (if fst_unit then is_identifier_start cp else is_identifier_continue cp) then stop
          else if escaped then
            (let d = (case dst of Some d \<Rightarrow> d | None \<Rightarrow> st_curr st) in
             case encode_utf8 cp of
               None \<Rightarrow> pfail_context InvalidCodepoint [] st
             | Some bs \<Rightarrow> (case put (st_buf st) d bs of
                   None \<Rightarrow> POob
                 | Some buf' \<Rightarrow>
                     identifier_loop ctx start (Some (d + length bs)) False
                       (st\<lparr>st_buf := buf', st_curr := st_curr st + n\<rparr>)))
          else (case dst of
                  None \<Rightarrow> identifier_loop ctx start None False (advance n st)
                | Some d \<Rightarrow> (case put (st_buf st) d (slice (st_buf st) (st_curr st) n) of
                      None \<Rightarrow> POob
                    | Some buf' \<Rightarrow>
                        identifier_loop ctx start (Some (d + n)) False
                          (st\<lparr>st_buf := buf', st_curr := st_curr st + n\<rparr>))))"
  by pat_completeness auto
termination
  by (relation "measure (\<lambda>(ctx, start, dst, f, st). length (st_buf st) - st_curr st)")
    (auto simp: unread_def slice_def dest!: put_length identifier_unit_len)

declare identifier_loop.simps [simp del]

definition parse_identifier_key :: "pctx \<Rightarrow> pstate \<Rightarrow> view pres" where
  "parse_identifier_key ctx st = identifier_loop ctx (st_curr st) None True st"

end
