(* ===== verification/StringProofs.thy ===== *)
theory StringProofs
  imports Strings
begin

text \<open>
  The RFC 8259 string grammar as a relation between source bytes and decoded content,
  and the proof that wide scan plus in-place decoding implement it: complete, sound,
  inside the buffer, and touching only the bytes of the string itself.
\<close>

section \<open>The string grammar\<close>

definition hex4_val :: "bytes \<Rightarrow> u32 \<Rightarrow> bool" where
  "hex4_val h cp \<longleftrightarrow> length h = 4 \<and> hex_quad h = Some cp"

inductive escape_text :: "bytes \<Rightarrow> bytes \<Rightarrow> bool" where
  short: "short_escape_value c \<noteq> 0 \<Longrightarrow> escape_text [0x5C, c] [short_escape_value c]"
| bmp: "hex4_val h cp \<Longrightarrow> \<not> is_surrogate cp \<Longrightarrow> encode_utf8 cp = Some bs \<Longrightarrow>
        escape_text ([0x5C, 0x75] @ h) bs"
| pair: "hex4_val h hi \<Longrightarrow> hex4_val h' lo \<Longrightarrow> is_high_surrogate hi \<Longrightarrow> is_low_surrogate lo \<Longrightarrow>
        encode_utf8 (combine_surrogates hi lo) = Some bs \<Longrightarrow>
        escape_text ([0x5C, 0x75] @ h @ [0x5C, 0x75] @ h') bs"

inductive string_text :: "bytes \<Rightarrow> bytes \<Rightarrow> bool" where
  nil: "string_text [] []"
| raw: "0x20 \<le> c \<Longrightarrow> c \<noteq> 0x22 \<Longrightarrow> c \<noteq> 0x5C \<Longrightarrow> string_text raw s \<Longrightarrow> string_text (c # raw) (c # s)"
| esc: "escape_text e bs \<Longrightarrow> string_text raw s \<Longrightarrow> string_text (e @ raw) (bs @ s)"

section \<open>Escapes\<close>

lemma surrogate_cases: "is_surrogate cp \<longleftrightarrow> is_high_surrogate cp \<or> is_low_surrogate cp"
proof -
  have "cp \<le> 0xDBFF \<or> 0xDC00 \<le> cp" by (cases "cp \<le> 0xDBFF") (auto simp: word_le_nat_alt)
  then show ?thesis
    unfolding is_surrogate_def is_high_surrogate_def is_low_surrogate_def word_le_nat_alt
    by simp linarith
qed

lemma high_not_low: "is_high_surrogate cp \<Longrightarrow> \<not> is_low_surrogate cp"
  by (auto simp: is_high_surrogate_def is_low_surrogate_def word_le_nat_alt)

lemma drop_skip: "drop i buf = xs @ r \<Longrightarrow> drop (i + length xs) buf = r"
  using drop_drop [of "length xs" i buf] by (simp add: add.commute)

lemma list4: "4 \<le> length xs \<Longrightarrow> \<exists>a b c d r. xs = a # b # c # d # r"
  by (auto simp: numeral_eq_Suc Suc_le_length_iff)

text \<open>The unbounded hex reader on bytes that are there.\<close>

lemma parse_hex4_rest:
  assumes "drop i buf = a # b # c # d # r"
  shows "parse_hex4 buf i =
    (case hex_value a of None \<Rightarrow> EscFail InvalidHexDigit (Some i)
     | Some w \<Rightarrow> (case hex_value b of None \<Rightarrow> EscFail InvalidHexDigit (Some (i + 1))
     | Some x \<Rightarrow> (case hex_value c of None \<Rightarrow> EscFail InvalidHexDigit (Some (i + 2))
     | Some y \<Rightarrow> (case hex_value d of None \<Rightarrow> EscFail InvalidHexDigit (Some (i + 3))
     | Some z \<Rightarrow> EscOk (push_bit 4 (push_bit 4 (push_bit 4 (word_of_nat w) OR word_of_nat x) OR
                          word_of_nat y) OR word_of_nat z) (i + 4)))))"
proof -
  have "rd buf i = Some a" "rd buf (Suc i) = Some b" "rd buf (Suc (Suc i)) = Some c"
    "rd buf (Suc (Suc (Suc i))) = Some d"
    using rd_rest [OF assms, of 0] rd_rest [OF assms, of 1] rd_rest [OF assms, of 2] rd_rest [OF assms, of 3]
    by (simp_all add: numeral_2_eq_2 numeral_3_eq_3)
  then show ?thesis
    by (simp add: parse_hex4_def numeral_eq_Suc split: option.splits)
qed

lemma parse_hex4_complete:
  assumes "drop i buf = h @ r" "hex4_val h cp"
  shows "parse_hex4 buf i = EscOk cp (i + 4)"
proof -
  obtain a b c d where h: "h = [a, b, c, d]"
    using assms(2) by (auto simp: hex4_val_def length_Suc_conv numeral_eq_Suc)
  show ?thesis
    using assms by (subst parse_hex4_rest [of i buf a b c d r])
      (auto simp: h hex4_val_def split: option.splits)
qed

lemma hex4_loop_sound:
  "hex4_loop buf i k c = EscOk cp j \<Longrightarrow> k \<le> length (drop i buf)"
  by (induction buf i k c rule: hex4_loop.induct) (auto simp: rd_eq_SomeD split: option.splits)

lemma parse_hex4_sound:
  assumes "parse_hex4 buf i = EscOk cp j"
  shows "\<exists>h r. drop i buf = h @ r \<and> hex4_val h cp \<and> j = i + 4"
proof -
  have "4 \<le> length (drop i buf)" using assms unfolding parse_hex4_def by (rule hex4_loop_sound)
  then obtain a b c d r where d: "drop i buf = a # b # c # d # r"
    using list4 by blast
  have "hex4_val [a, b, c, d] cp \<and> j = i + 4"
    using assms unfolding parse_hex4_rest [OF d] by (auto simp: hex4_val_def split: option.splits)
  then show ?thesis using d by (intro exI [of _ "[a, b, c, d]"] exI [of _ r]) simp
qed

lemma short_escape_u: "short_escape_value 0x75 = 0"
  by (simp add: short_escape_value_def)

lemma handle_escape_complete:
  assumes "escape_text e bs" "drop i buf = e @ r"
  shows "handle_escape buf i = EscOk bs (i + length e)"
  using assms
proof (cases rule: escape_text.cases)
  case (short c)
  then show ?thesis using rd_rest [OF assms(2), of 1] by (simp add: handle_escape_def)
next
  case (bmp h cp)
  have d: "drop (i + 2) buf = h @ r" using drop_skip [of i buf "[0x5C, 0x75]" "h @ r"] assms(2) bmp(1) by simp
  have u: "rd buf (Suc i) = Some 0x75" using rd_rest [OF assms(2), of 1] bmp(1) by simp
  have "\<not> is_high_surrogate cp" "\<not> is_low_surrogate cp" using bmp(3) by (auto simp: surrogate_cases)
  moreover have "length h = 4" using bmp(2) by (simp add: hex4_val_def)
  ultimately show ?thesis
    using u parse_hex4_complete [OF d bmp(2)] bmp
    by (simp add: handle_escape_def short_escape_value_def unicode_escape_def emit_utf8_def)
next
  case (pair h hi h' lo)
  have len: "length h = 4" "length h' = 4" using pair by (auto simp: hex4_val_def)
  have d: "drop (i + 2) buf = h @ [0x5C, 0x75] @ h' @ r"
    using drop_skip [of i buf "[0x5C, 0x75]" "h @ [0x5C, 0x75] @ h' @ r"] assms(2) pair(1) by simp
  have d2: "drop (i + 6) buf = [0x5C, 0x75] @ h' @ r"
    using drop_skip [OF d] len by (simp add: add.commute)
  have d3: "drop (i + 8) buf = h' @ r"
    using drop_skip [OF d2] by (simp add: add.commute)
  have u: "rd buf (Suc i) = Some 0x75" using rd_rest [OF assms(2), of 1] pair(1) by simp
  have "rd2_is buf (i + 6) 0x5C 0x75 = Some True"
    using rd_rest [OF d2, of 0] rd_rest [OF d2, of 1] by (simp add: rd2_is_def)
  moreover have "parse_hex4 buf (i + 2) = EscOk hi (i + 6)"
    using parse_hex4_complete [OF d pair(2)] by (simp add: add.commute)
  moreover have "parse_hex4 buf (i + 6 + 2) = EscOk lo (i + length e)"
    using parse_hex4_complete [OF d3 pair(3)] pair(1) len by (simp add: add.commute)
  moreover have "unicode_escape buf (i + 2) = EscOk bs (i + length e)"
    unfolding unicode_escape_def calculation(2) esc.case if_P [OF pair(4)] calculation(1) option.case
      calculation(3) if_P [OF pair(5)] emit_utf8_def pair(6) by simp
  ultimately show ?thesis using u by (simp add: handle_escape_def short_escape_u)
qed

lemma handle_escape_sound:
  assumes "handle_escape buf i = EscOk bs j" "rd buf i = Some 0x5C"
  shows "\<exists>e r. drop i buf = e @ r \<and> escape_text e bs \<and> j = i + length e"
proof -
  obtain c where c: "rd buf (Suc i) = Some c"
    using assms(1) by (auto simp: handle_escape_def split: option.splits)
  obtain r where r: "drop i buf = 0x5C # c # r"
    using assms(2) c by (auto simp: rd_eq_SomeD Cons_nth_drop_Suc [symmetric])
  show ?thesis
  proof (cases "short_escape_value c \<noteq> 0")
    case True
    then have "bs = [short_escape_value c]" "j = i + 2"
      using assms(1) c by (simp_all add: handle_escape_def)
    then show ?thesis
      using short [OF True] r by (intro exI [of _ "[0x5C, c]"] exI [of _ r]) simp
  next
    case False
    then have u: "c = 0x75" and ue: "unicode_escape buf (i + 2) = EscOk bs j"
      using assms(1) c by (auto simp: handle_escape_def split: if_splits)
    from ue obtain cp q where cp: "parse_hex4 buf (i + 2) = EscOk cp q"
      by (auto simp: unicode_escape_def split: esc.splits)
    then obtain h r1 where h: "drop (i + 2) buf = h @ r1" "hex4_val h cp" "q = i + 6"
      using parse_hex4_sound [OF cp] by auto
    have len: "length h = 4" using h(2) by (simp add: hex4_val_def)
    have r1: "r = h @ r1" using h(1) r drop_skip [of i buf "[0x5C, c]" r] by simp
    show ?thesis
    proof (cases "is_high_surrogate cp")
      case False
      then have low: "\<not> is_low_surrogate cp" and em: "emit_utf8 cp q = EscOk bs j"
        using ue cp by (auto simp: unicode_escape_def split: if_splits)
      then have "escape_text ([0x5C, 0x75] @ h) bs" "j = q"
        using False bmp [OF h(2), of bs] by (auto simp: emit_utf8_def surrogate_cases split: option.splits)
      then show ?thesis
        using r r1 u h(3) len by (intro exI [of _ "[0x5C, 0x75] @ h"] exI [of _ r1]) simp
    next
      case True
      then have two: "rd2_is buf q 0x5C 0x75 = Some True"
        using ue cp by (auto simp: unicode_escape_def split: option.splits bool.splits)
      then obtain cp2 p2 where cp2: "parse_hex4 buf (q + 2) = EscOk cp2 p2"
        and low: "is_low_surrogate cp2" and em: "emit_utf8 (combine_surrogates cp cp2) p2 = EscOk bs j"
        using ue cp True by (auto simp: unicode_escape_def split: esc.splits if_splits)
      obtain h' r2 where h': "drop (q + 2) buf = h' @ r2" "hex4_val h' cp2" "p2 = q + 6"
        using parse_hex4_sound [OF cp2] by auto
      have len': "length h' = 4" using h'(2) by (simp add: hex4_val_def)
      have "drop q buf = 0x5C # 0x75 # drop (q + 2) buf"
        using two by (auto simp: rd2_is_def rd_eq_SomeD Cons_nth_drop_Suc [symmetric]
            split: option.splits if_splits)
      moreover have "drop q buf = r1" using drop_skip [OF h(1)] len h(3) by (simp add: add.commute)
      ultimately have r1': "r1 = [0x5C, 0x75] @ h' @ r2" using h'(1) by simp
      have "escape_text ([0x5C, 0x75] @ h @ [0x5C, 0x75] @ h') bs" "j = p2"
        using em low True pair [OF h(2) h'(2), of bs] by (auto simp: emit_utf8_def split: option.splits)
      then show ?thesis
        using r r1 r1' u h(3) h'(3) len len'
        by (intro exI [of _ "[0x5C, 0x75] @ h @ [0x5C, 0x75] @ h'"] exI [of _ r2]) simp
    qed
  qed
qed

section \<open>Shape of an escape\<close>

definition plain :: "bytes \<Rightarrow> bool" where
  "plain e \<longleftrightarrow> (\<forall>b \<in> set e. 0x20 \<le> b \<and> b \<le> 0x7F)"

lemma hex_value_plain: "hex_value c = Some v \<Longrightarrow> 0x20 \<le> c \<and> c \<le> 0x7F"
  by (auto simp: hex_value_def word_le_nat_alt split: if_splits)

lemma short_escape_plain: "short_escape_value c \<noteq> 0 \<Longrightarrow> 0x20 \<le> c \<and> c \<le> 0x7F"
  by (auto simp: short_escape_value_def split: if_splits)

lemma hex4_val_plain: "hex4_val h cp \<Longrightarrow> plain h"
  by (cases h rule: hex_quad.cases)
    (auto simp: hex4_val_def plain_def dest: hex_value_plain split: option.splits)

lemma encode_utf8_length: "encode_utf8 cp = Some bs \<Longrightarrow> length bs \<le> 4"
  by (auto simp: encode_utf8_def split: if_splits)

lemma escape_text_shape:
  assumes "escape_text e bs"
  shows "\<exists>e'. e = 0x5C # e' \<and> plain e' \<and> length bs \<le> length e'"
  using assms
proof cases
  case (short c)
  then show ?thesis using short_escape_plain [of c] by (simp add: plain_def)
next
  case (bmp h cp)
  then show ?thesis
    using hex4_val_plain [of h cp] encode_utf8_length [of cp bs] by (simp add: plain_def hex4_val_def)
next
  case (pair h hi h' lo)
  then show ?thesis
    using hex4_val_plain [of h hi] hex4_val_plain [of h' lo] encode_utf8_length [of "combine_surrogates hi lo" bs]
    by (auto simp: plain_def hex4_val_def)
qed

lemma string_text_bytes: "string_text raw s \<Longrightarrow> \<forall>b \<in> set raw. 0x20 \<le> b"
  by (induction rule: string_text.induct) (auto simp: plain_def dest!: escape_text_shape)

lemma string_text_length: "string_text raw s \<Longrightarrow> length s \<le> length raw"
  by (induction rule: string_text.induct) (auto dest!: escape_text_shape)

section \<open>The strict gate along a string\<close>

definition strict_ok :: "pctx \<Rightarrow> bytes \<Rightarrow> nat \<Rightarrow> utf8_checker \<Rightarrow> bool" where
  "strict_ok ctx raw pos ck \<longleftrightarrow>
     (if c_strict_utf8 ctx then ck_accepts (feed_range raw pos ck) else \<not> ck_failed ck)"

lemma feed_range_step: "\<not> ck_failed ck \<Longrightarrow> feed_range (c # raw) pos ck = feed_range raw (Suc pos) (ck_feed c pos ck)"
  by simp

lemma strict_ok_Nil: "\<not> ck_failed ck \<Longrightarrow> strict_ok ctx [] pos ck \<longleftrightarrow> \<not> ck_failed (end_strict ctx ck)"
  by (simp add: strict_ok_def end_strict_def ck_accepts_def ck_failed_def)

lemma strict_ok_Cons:
  assumes "\<not> ck_failed ck"
  shows "strict_ok ctx (c # raw) pos ck \<longleftrightarrow>
    \<not> ck_failed (feed_strict ctx c pos ck) \<and> strict_ok ctx raw (Suc pos) (feed_strict ctx c pos ck)"
  using assms ck_failed_end
  by (auto simp: strict_ok_def feed_strict_def feed_range_failed)

lemma feed_range_plain:
  assumes "need ck = 0" "plain e"
  shows "feed_range e pos ck = ck"
  using assms(2)
proof (induction e arbitrary: pos)
  case (Cons b e)
  then show ?case
    using assms(1) by (cases "ck_failed ck") (auto simp: plain_def ck_feed_def feed_range_failed)
qed simp

lemma feed_backslash:
  assumes "\<not> ck_failed ck" "\<not> ck_failed (ck_feed 0x5C pos ck)"
  shows "need ck = 0 \<and> ck_feed 0x5C pos ck = ck"
  using assms by (auto simp: ck_simps split: if_splits)

lemma strict_ok_escape:
  assumes "\<not> ck_failed ck" "e = 0x5C # e'" "plain e'"
  shows "strict_ok ctx (e @ raw) pos ck \<longleftrightarrow>
    \<not> ck_failed (feed_strict ctx 0x5C pos ck) \<and>
    strict_ok ctx raw (pos + length e) (feed_strict ctx 0x5C pos ck)"
proof (cases "c_strict_utf8 ctx")
  case False
  then show ?thesis using assms(1) by (simp add: strict_ok_def feed_strict_def)
next
  case True
  show ?thesis
  proof (cases "ck_failed (ck_feed 0x5C pos ck)")
    case failed: True
    then show ?thesis
      using True assms ck_failed_end by (simp add: strict_ok_def feed_strict_def feed_range_failed)
  next
    case False
    then have "feed_range (e @ raw) pos ck = feed_range raw (pos + length e) ck"
      using feed_backslash [OF assms(1) False] feed_range_plain [OF _ assms(3), of ck "Suc pos"] assms
      by (simp add: feed_range_append)
    then show ?thesis
      using True False feed_backslash [OF assms(1) False] by (simp add: strict_ok_def feed_strict_def)
  qed
qed

section \<open>Decoding in place\<close>

text \<open>Two buffers that differ only in \<open>[i, j)\<close>.\<close>

definition buf_frame :: "bytes \<Rightarrow> bytes \<Rightarrow> nat \<Rightarrow> nat \<Rightarrow> bool" where
  "buf_frame buf buf' i j \<longleftrightarrow>
     length buf' = length buf \<and> take i buf' = take i buf \<and> drop j buf' = drop j buf"

lemma buf_frame_refl [simp]: "buf_frame buf buf i j"
  by (simp add: buf_frame_def)

lemma buf_frame_trans:
  assumes "buf_frame a b i j" "buf_frame b c i' j'" "m \<le> i" "m \<le> i'" "j \<le> n" "j' \<le> n"
  shows "buf_frame a c m n"
proof -
  have "take m c = take m b" "take m b = take m a"
    using assms unfolding buf_frame_def by (metis min.absorb1 take_take)+
  moreover have "drop n c = drop n b" "drop n b = drop n a"
    using assms unfolding buf_frame_def by (metis drop_drop le_Suc_ex add.commute)+
  ultimately show ?thesis using assms by (simp add: buf_frame_def)
qed

lemma buf_frame_put:
  assumes "put buf d bs = Some buf'" "d + length bs \<le> j"
  shows "buf_frame buf buf' d j"
proof (cases "j \<le> length buf")
  case True
  then show ?thesis
    using assms by (auto simp: put_def buf_frame_def length_put_bytes take_put_bytes drop_put_bytes
        split: if_splits)
next
  case False
  then show ?thesis
    using assms by (auto simp: put_def buf_frame_def length_put_bytes take_put_bytes split: if_splits)
qed

text \<open>The result of a completed in-place decode.\<close>

definition decoded :: "pstate \<Rightarrow> nat \<Rightarrow> bytes \<Rightarrow> nat \<Rightarrow> pstate \<Rightarrow> bool" where
  "decoded st dst s n st' \<longleftrightarrow>
     (\<exists>buf'. st' = st\<lparr>st_buf := buf', st_curr := st_curr st + n\<rparr> \<and>
        buf_frame (st_buf st) buf' dst (st_curr st + n) \<and> slice buf' dst (length s) = s)"

lemma decoded_refl: "decoded st dst [] 0 st"
  by (auto simp: decoded_def intro: exI [of _ "st_buf st"])

lemma slice_add: "slice buf i (m + n) = slice buf i m @ slice buf (i + m) n"
  by (simp add: slice_def take_add add.commute)

lemma slice_put:
  assumes "put buf d bs = Some buf'"
  shows "slice buf' d (length bs) = bs"
  using assms by (auto simp: put_def slice_def put_bytes_def split: if_splits)

lemma decoded_step:
  assumes "put (st_buf st) dst bs = Some buf1" "dst + length bs \<le> st_curr st + n"
    and "decoded (st\<lparr>st_buf := buf1, st_curr := st_curr st + n\<rparr>) (dst + length bs) s m st'"
  shows "decoded st dst (bs @ s) (n + m) st'"
proof -
  obtain buf' where st': "st' = st\<lparr>st_buf := buf', st_curr := st_curr st + n + m\<rparr>"
    and fr: "buf_frame buf1 buf' (dst + length bs) (st_curr st + n + m)"
    and s: "slice buf' (dst + length bs) (length s) = s"
    using assms(3) by (auto simp: decoded_def)
  have "buf_frame (st_buf st) buf1 dst (st_curr st + n)"
    using buf_frame_put [OF assms(1,2)] .
  then have "buf_frame (st_buf st) buf' dst (st_curr st + n + m)"
    by (rule buf_frame_trans [OF _ fr]) auto
  moreover have "slice buf' dst (length bs) = slice buf1 dst (length bs)"
    by (rule slice_take_eq [where m = "dst + length bs"]) (use fr in \<open>auto simp: buf_frame_def\<close>)
  then have "slice buf' dst (length (bs @ s)) = bs @ s"
    using slice_put [OF assms(1)] s by (simp add: slice_add)
  ultimately show ?thesis using st' by (auto simp: decoded_def add.assoc)
qed

text \<open>
  Phase 2 decodes exactly the string grammar: every grammatical source whose bytes pass
  the strict gate is decoded to its content.
\<close>

lemma put_room:
  "d + length bs \<le> length buf \<Longrightarrow> \<exists>buf'. put buf d bs = Some buf'"
  by (simp add: put_def)

lemma drop_after_put:
  assumes "put buf d bs = Some buf'" "d + length bs \<le> j"
  shows "drop j buf' = drop j buf"
  using buf_frame_put [OF assms] by (simp add: buf_frame_def)

lemma decode_in_situ_complete:
  assumes "string_text raw s" "drop (st_curr st) (st_buf st) = raw @ 0x22 # r"
    and "start \<le> dst" "dst \<le> st_curr st" "\<not> ck_failed ck" "strict_ok ctx raw (st_curr st) ck"
  shows "\<exists>st'. decode_in_situ ctx start dst ck st = POk (start, dst + length s - start) (advance 1 st')
    \<and> decoded st dst s (length raw) st'"
  using assms
proof (induction arbitrary: st dst ck rule: string_text.induct)
  case nil
  then have "rd (st_buf st) (st_curr st) = Some 0x22" using rd_rest0(1) [of "st_curr st" "st_buf st"] by simp
  then show ?case
    using nil strict_ok_Nil [of ck ctx "st_curr st"]
    by (intro exI [of _ st], subst decode_in_situ.simps) (simp add: Let_def decoded_refl)
next
  case (raw c raw s)
  let ?ck = "feed_strict ctx c (st_curr st) ck"
  have c: "rd (st_buf st) (st_curr st) = Some c" "st_curr st < length (st_buf st)"
      "drop (Suc (st_curr st)) (st_buf st) = raw @ 0x22 # r"
    using rd_rest0 [of "st_curr st" "st_buf st"] raw.prems(1) by simp_all
  have ck: "\<not> ck_failed ?ck" "strict_ok ctx raw (Suc (st_curr st)) ?ck"
    using raw.prems strict_ok_Cons by blast+
  obtain buf1 where put: "put (st_buf st) dst [c] = Some buf1"
    using put_room [of dst "[c]" "st_buf st"] raw.prems(3) c(2) by auto
  let ?st = "st\<lparr>st_buf := buf1, st_curr := st_curr st + 1\<rparr>"
  have "drop (st_curr ?st) (st_buf ?st) = raw @ 0x22 # r"
    using drop_after_put [OF put, of "st_curr st + 1"] raw.prems(3) c(3) by simp
  then obtain st' where ih: "decode_in_situ ctx start (dst + 1) ?ck ?st
      = POk (start, dst + 1 + length s - start) (advance 1 st')" "decoded ?st (dst + 1) s (length raw) st'"
    using raw.IH [of ?st "dst + 1" ?ck] raw.prems(2,3) ck by auto
  have "decoded st dst ([c] @ s) (1 + length raw) st'"
    by (rule decoded_step [OF put]) (use ih(2) raw.prems(3) in auto)
  moreover have "\<not> c < 0x20" using raw.hyps(1) by (rule leD)
  ultimately show ?case
    using raw.hyps(2,3) c(1) ck(1) put ih(1)
    by (intro exI [of _ st'], subst decode_in_situ.simps) (simp add: Let_def)
next
  case (esc e bs raw s)
  let ?ck = "feed_strict ctx 0x5C (st_curr st) ck"
  obtain e' where e: "e = 0x5C # e'" "plain e'" "length bs \<le> length e'"
    using escape_text_shape [OF esc.hyps(1)] by blast
  have d: "drop (st_curr st) (st_buf st) = e @ raw @ 0x22 # r" using esc.prems(1) by simp
  have c: "rd (st_buf st) (st_curr st) = Some 0x5C"
    using d e(1) rd_rest0(1) [of "st_curr st" "st_buf st"] by simp
  have len: "st_curr st + length e < length (st_buf st)"
    using arg_cong [OF d, of length] by simp
  have ck: "\<not> ck_failed ?ck" "strict_ok ctx raw (st_curr st + length e) ?ck"
    using esc.prems strict_ok_escape [OF _ e(1,2)] by blast+
  obtain buf1 where put: "put (st_buf st) dst bs = Some buf1"
    using put_room [of dst bs "st_buf st"] esc.prems(3) len e by auto
  let ?st = "st\<lparr>st_buf := buf1, st_curr := st_curr st + length e\<rparr>"
  have "drop (st_curr ?st) (st_buf ?st) = raw @ 0x22 # r"
    using drop_after_put [OF put, of "st_curr st + length e"] esc.prems(3) e drop_skip [OF d] by simp
  then obtain st' where ih: "decode_in_situ ctx start (dst + length bs) ?ck ?st
      = POk (start, dst + length bs + length s - start) (advance 1 st')"
      "decoded ?st (dst + length bs) s (length raw) st'"
    using esc.IH [of ?st "dst + length bs" ?ck] esc.prems(2,3) ck e by auto
  have "decoded st dst (bs @ s) (length e + length raw) st'"
    by (rule decoded_step [OF put]) (use ih(2) esc.prems(3) e in auto)
  then show ?case
    using handle_escape_complete [OF esc.hyps(1) d] c ck(1) put ih(1)
    by (intro exI [of _ st'], subst decode_in_situ.simps) (simp add: Let_def add.assoc)
qed

lemma decode_in_situ_sound:
  assumes "decode_in_situ ctx start dst ck st = POk v st'" "start \<le> dst" "dst \<le> st_curr st"
    "\<not> ck_failed ck"
  shows "\<exists>raw s r. drop (st_curr st) (st_buf st) = raw @ 0x22 # r \<and> string_text raw s \<and>
    strict_ok ctx raw (st_curr st) ck"
  using assms
proof (induction ctx start dst ck st rule: decode_in_situ.induct)
  case (1 ctx start dst ck st)
  let ?d = "drop (st_curr st) (st_buf st)"
  obtain c where c: "rd (st_buf st) (st_curr st) = Some c"
    using "1.prems"(1)
    by (cases "rd (st_buf st) (st_curr st)") (simp_all add: decode_in_situ.simps)
  from c have dc: "?d = c # drop (Suc (st_curr st)) (st_buf st)"
    by (auto simp: rd_eq_SomeD Cons_nth_drop_Suc [symmetric])
  let ?ck = "feed_strict ctx c (st_curr st) ck"
  show ?case
  proof (cases "c = 0x22")
    case True
    then have "\<not> ck_failed (end_strict ctx ck)"
      using "1.prems"(1) c by (subst (asm) decode_in_situ.simps) (auto simp: Let_def pfail_def split: if_splits)
    then show ?thesis
      using dc True strict_ok_Nil [OF "1.prems"(4)] string_text.nil
      by (intro exI [of _ "[]"] exI [of _ "drop (Suc (st_curr st)) (st_buf st)"]) simp
  next
    case q: False
    then have ck: "\<not> ck_failed ?ck"
      using "1.prems"(1) c by (subst (asm) decode_in_situ.simps) (auto simp: Let_def pfail_def split: if_splits)
    show ?thesis
    proof (cases "c = 0x5C")
      case True
      obtain bs j buf1 where esc: "handle_escape (st_buf st) (st_curr st) = EscOk bs j"
          "put (st_buf st) dst bs = Some buf1"
          "decode_in_situ ctx start (dst + length bs) ?ck (st\<lparr>st_buf := buf1, st_curr := j\<rparr>) = POk v st'"
        using "1.prems"(1) c q ck True
        by (subst (asm) decode_in_situ.simps)
          (auto simp: Let_def esc_fail_def pfail_def pfail_context_def split: esc.splits option.splits)
      obtain e r where e: "?d = e @ r" "escape_text e bs" "j = st_curr st + length e"
        using handle_escape_sound [OF esc(1)] c True by auto
      obtain e' where sh: "e = 0x5C # e'" "plain e'" "length bs \<le> length e'"
        using escape_text_shape [OF e(2)] by blast
      have "drop j buf1 = r"
        using drop_after_put [OF esc(2), of j] e(3) sh "1.prems"(3) drop_skip [OF e(1)] by simp
      moreover have "\<exists>raw s r'. drop j buf1 = raw @ 0x22 # r' \<and> string_text raw s \<and> strict_ok ctx raw j ?ck"
        using "1.IH"(1) [OF c q refl ck True esc(1) esc(2) esc(3)] ck "1.prems"(2,3) e(3) sh by simp
      ultimately obtain raw s r' where ih: "r = raw @ 0x22 # r'" "string_text raw s" "strict_ok ctx raw j ?ck"
        by auto
      have "strict_ok ctx (e @ raw) (st_curr st) ck"
        using strict_ok_escape [OF "1.prems"(4) sh(1,2)] ck ih(3) True e(3) by simp
      then show ?thesis
        using e(1) ih string_text.esc [OF e(2) ih(2)]
        by (intro exI [of _ "e @ raw"] exI [of _ "bs @ s"] exI [of _ r']) simp
    next
      case b: False
      obtain buf1 where st: "\<not> c < 0x20" "put (st_buf st) dst [c] = Some buf1"
          "decode_in_situ ctx start (dst + 1) ?ck (st\<lparr>st_buf := buf1, st_curr := st_curr st + 1\<rparr>) = POk v st'"
        using "1.prems"(1) c q ck b
        by (subst (asm) decode_in_situ.simps) (auto simp: Let_def pfail_def split: option.splits if_splits)
      have "drop (st_curr st + 1) buf1 = drop (Suc (st_curr st)) (st_buf st)"
        using drop_after_put [OF st(2), of "st_curr st + 1"] "1.prems"(3) by simp
      moreover have "\<exists>raw s r'. drop (st_curr st + 1) buf1 = raw @ 0x22 # r' \<and> string_text raw s \<and>
          strict_ok ctx raw (st_curr st + 1) ?ck"
        using "1.IH"(2) [OF c q refl ck b st(1) st(2) st(3)] ck "1.prems"(2,3) by simp
      ultimately obtain raw s r' where ih: "drop (Suc (st_curr st)) (st_buf st) = raw @ 0x22 # r'"
          "string_text raw s" "strict_ok ctx raw (Suc (st_curr st)) ?ck"
        by auto
      have "strict_ok ctx (c # raw) (st_curr st) ck"
        using strict_ok_Cons [OF "1.prems"(4)] ck ih(3) by simp
      moreover have "string_text (c # raw) (c # s)" using st(1) q b ih(2) by (intro string_text.raw) auto
      ultimately show ?thesis
        using dc ih(1) by (intro exI [of _ "c # raw"] exI [of _ "c # s"] exI [of _ r']) simp
    qed
  qed
qed

text \<open>
  A NUL byte ahead stops every reader: with one at or behind the cursor neither the
  escape handler nor phase 2 leaves the buffer.
\<close>

lemma hex4_loop_nul:
  assumes "buf ! k = 0" "k < length buf" "i \<le> k"
  shows "hex4_loop buf i n c \<noteq> EscOob \<and> (\<forall>cp j. hex4_loop buf i n c = EscOk cp j \<longrightarrow> j \<le> k)"
  using assms
proof (induction buf i n c rule: hex4_loop.induct)
  case (2 buf i n c)
  have r: "rd buf i = Some (buf ! i)" using 2 by (simp add: rd_def)
  show ?case
  proof (cases "i = k")
    case True
    then show ?thesis using 2 r by (simp add: hex_value_def)
  next
    case False
    then have "Suc i \<le> k" using 2 by simp
    then show ?thesis using 2 r by (auto split: option.splits)
  qed
qed simp

lemma emit_utf8_inside: "emit_utf8 cp i \<noteq> EscOob"
  by (simp add: emit_utf8_def split: option.splits)

lemma unicode_escape_nul:
  assumes k: "buf ! k = 0" "k < length buf" "i \<le> k"
  shows "unicode_escape buf i \<noteq> EscOob \<and> (\<forall>bs j. unicode_escape buf i = EscOk bs j \<longrightarrow> j \<le> k)"
proof (cases "parse_hex4 buf i")
  case (EscOk cp q)
  then have q: "q \<le> k" using hex4_loop_nul [OF k] by (auto simp: parse_hex4_def)
  have two: "rd2_is buf q 0x5C 0x75 \<noteq> None \<and> (rd2_is buf q 0x5C 0x75 = Some True \<longrightarrow> q + 2 \<le> k)"
  proof (cases "q = k")
    case True
    then show ?thesis using k by (simp add: rd2_is_def rd_def)
  next
    case False
    then have "Suc q \<le> k" using q by simp
    then show ?thesis using k by (cases "Suc q = k") (auto simp: rd2_is_def rd_def)
  qed
  have n: "parse_hex4 buf (q + 2) \<noteq> EscOob \<and> (\<forall>cp j. parse_hex4 buf (q + 2) = EscOk cp j \<longrightarrow> j \<le> k)"
    if "q + 2 \<le> k" using hex4_loop_nul [OF k(1,2) that] by (simp add: parse_hex4_def)
  show ?thesis
    using EscOk q two n
    by (auto simp: unicode_escape_def emit_utf8_inside dest!: emit_utf8_cursor
        split: option.splits bool.splits esc.splits if_splits)
next
  case (EscFail c p)
  then show ?thesis by (simp add: unicode_escape_def)
next
  case EscOob
  then show ?thesis using hex4_loop_nul [OF k] by (simp add: parse_hex4_def)
qed

lemma handle_escape_nul:
  assumes k: "buf ! k = 0" "k < length buf" "i < k"
  shows "handle_escape buf i \<noteq> EscOob \<and> (\<forall>bs j. handle_escape buf i = EscOk bs j \<longrightarrow> j \<le> k)"
proof -
  have r: "rd buf (Suc i) = Some (buf ! Suc i)" using k by (simp add: rd_def)
  show ?thesis
  proof (cases "Suc i = k")
    case True
    then show ?thesis using k r by (simp add: handle_escape_def short_escape_value_def)
  next
    case False
    then have "i + 2 \<le> k" using k by simp
    then show ?thesis using r unicode_escape_nul [OF k(1,2), of "i + 2"]
      by (auto simp: handle_escape_def split: if_splits)
  qed
qed

lemma decode_in_situ_nul:
  assumes "st_buf st ! k = 0" "k < length (st_buf st)" "st_curr st \<le> k" "dst \<le> st_curr st"
  shows "decode_in_situ ctx start dst ck st \<noteq> POob \<and> decode_in_situ ctx start dst ck st \<noteq> PFuel"
  using assms
proof (induction ctx start dst ck st rule: decode_in_situ.induct)
  case (1 ctx start dst ck st)
  have r: "rd (st_buf st) (st_curr st) = Some (st_buf st ! st_curr st)"
    using "1.prems" by (simp add: rd_def)
  let ?c = "st_buf st ! st_curr st"
  let ?ck = "feed_strict ctx ?c (st_curr st) ck"
  have keep: "buf1 ! k = 0 \<and> k < length buf1"
    if put: "put (st_buf st) dst bs = Some buf1" and "dst + length bs \<le> j" "j \<le> k" for bs buf1 j
  proof -
    have "drop k buf1 = drop k (st_buf st)" "length buf1 = length (st_buf st)"
      using drop_after_put [OF put, of k] put_length [OF put] that by auto
    then have "k < length buf1" using "1.prems"(2) by simp
    moreover have "hd (drop k buf1) = hd (drop k (st_buf st))"
      using \<open>drop k buf1 = drop k (st_buf st)\<close> by simp
    ultimately show ?thesis using "1.prems"(1,2) by (simp add: hd_drop_conv_nth)
  qed
  consider "?c = 0x22" | "?c \<noteq> 0x22" "ck_failed ?ck" | "?c \<noteq> 0x22" "\<not> ck_failed ?ck" "?c = 0x5C"
    | "?c \<noteq> 0x22" "\<not> ck_failed ?ck" "?c \<noteq> 0x5C" "?c < 0x20"
    | "?c \<noteq> 0x22" "\<not> ck_failed ?ck" "?c \<noteq> 0x5C" "\<not> ?c < 0x20"
    by blast
  then show ?case
  proof cases
    case 3
    then have i: "st_curr st < k" using "1.prems"(1,3) by (cases "st_curr st = k") auto
    note h = handle_escape_nul [OF "1.prems"(1,2) i]
    show ?thesis
    proof (cases "handle_escape (st_buf st) (st_curr st)")
      case (EscOk bs j)
      then have j: "j \<le> k" using h by blast
      obtain e s where e: "escape_text e bs" "j = st_curr st + length e"
        using handle_escape_sound [OF EscOk] 3(3) r by auto
      then have room: "dst + length bs \<le> j" using escape_text_shape [OF e(1)] "1.prems"(4) by auto
      then obtain buf1 where put: "put (st_buf st) dst bs = Some buf1"
        using put_room [of dst bs "st_buf st"] j "1.prems"(2) by auto
      have "decode_in_situ ctx start (dst + length bs) ?ck (st\<lparr>st_buf := buf1, st_curr := j\<rparr>) \<noteq> POob \<and>
            decode_in_situ ctx start (dst + length bs) ?ck (st\<lparr>st_buf := buf1, st_curr := j\<rparr>) \<noteq> PFuel"
        using "1.IH"(1) [OF r 3(1) refl 3(2) 3(3) EscOk put] keep [OF put room j] j room by simp
      then show ?thesis
        using r 3 EscOk put by (subst (1 2) decode_in_situ.simps) (simp add: Let_def)
    qed (use r 3 h in \<open>auto simp: decode_in_situ.simps [of ctx start dst ck st] Let_def esc_fail_def
           pfail_def pfail_context_def split: option.splits\<close>)
  next
    case 5
    then have i: "st_curr st + 1 \<le> k" using "1.prems"(1,3) by (cases "st_curr st = k") auto
    obtain buf1 where put: "put (st_buf st) dst [?c] = Some buf1"
      using put_room [of dst "[?c]" "st_buf st"] i "1.prems"(2,4) by auto
    have "decode_in_situ ctx start (dst + 1) ?ck (st\<lparr>st_buf := buf1, st_curr := st_curr st + 1\<rparr>) \<noteq> POob \<and>
          decode_in_situ ctx start (dst + 1) ?ck (st\<lparr>st_buf := buf1, st_curr := st_curr st + 1\<rparr>) \<noteq> PFuel"
      using "1.IH"(2) [OF r 5(1) refl 5(2,3,4) put] keep [OF put _ i] i "1.prems"(4) by simp
    then show ?thesis
      using r 5 put by (subst (1 2) decode_in_situ.simps) (simp add: Let_def)
  qed (use r in \<open>auto simp: decode_in_situ.simps [of ctx start dst ck st] Let_def pfail_def\<close>)
qed

section \<open>The whole string parser\<close>

lemma checker0_ok [simp]: "\<not> ck_failed checker0"
  by (simp add: checker0_def ck_failed_def)

lemma strict_ok_start:
  assumes "\<forall>b \<in> set raw. 0x20 \<le> b"
  shows "strict_ok ctx raw pos checker0 \<longleftrightarrow> (c_strict_utf8 ctx \<longrightarrow> utf8_valid raw)"
  using feed_accept [OF ck_idle_checker0 assms] by (simp add: strict_ok_def)

definition checker_at :: "pctx \<Rightarrow> bytes \<Rightarrow> nat \<Rightarrow> utf8_checker" where
  "checker_at ctx a pos = (if c_strict_utf8 ctx then feed_range a pos checker0 else checker0)"

lemma strict_ok_append:
  "strict_ok ctx (a @ b) pos checker0 \<longleftrightarrow>
    \<not> ck_failed (checker_at ctx a pos) \<and> strict_ok ctx b (pos + length a) (checker_at ctx a pos)"
  using ck_failed_end
  by (auto simp: strict_ok_def checker_at_def feed_range_append feed_range_failed)

lemma string_text_drop_raw:
  "string_text (a @ b) s \<Longrightarrow> \<forall>c \<in> set a. \<not> string_stop c \<Longrightarrow> \<exists>s'. s = a @ s' \<and> string_text b s'"
proof (induction a arbitrary: s)
  case (Cons c a)
  from Cons.prems(1) show ?case
  proof (cases rule: string_text.cases)
    case (raw c' raw' s0)
    then show ?thesis using Cons by auto
  next
    case (esc e bs raw' s0)
    then show ?thesis
      using escape_text_shape [OF esc(3)] Cons.prems(2) by (auto simp: string_stop_def)
  qed simp
qed simp

lemma string_text_raw_append:
  "\<forall>c \<in> set a. \<not> string_stop c \<Longrightarrow> string_text b s \<Longrightarrow> string_text (a @ b) (a @ s)"
  by (induction a) (auto simp: string_stop_def not_less intro: string_text.raw)

lemma string_text_hd: "string_text (c # b) s \<Longrightarrow> string_stop c \<Longrightarrow> c = 0x5C"
  by (cases rule: string_text.cases) (auto simp: string_stop_def dest!: escape_text_shape)

lemma string_scan:
  assumes "lanes_ok ctx" "ahead ctx st t"
  shows "simd_scan (c_lanes ctx) (string_mask (c_lanes ctx)) (st_buf st) (st_curr st)
    = Some (st_curr st + length (takeWhile (\<lambda>c. \<not> string_stop c) t))"
proof (rule simd_scan_ahead [OF assms])
  show "string_stop 0" by (simp add: string_stop_def)
  show "string_mask (c_lanes ctx) b = lane_mask string_stop b" if "length b = c_lanes ctx" for b
    using keep_lanes_lane_mask [OF that] assms(1)
    by (simp add: string_mask_def lanes_ok_def kPaddingWidth_def)
qed

lemma takeWhile_split:
  "\<exists>a b. t = a @ b \<and> (\<forall>c \<in> set a. P c) \<and> (b = [] \<or> \<not> P (hd b))"
  by (rule exI [of _ "takeWhile P t"], rule exI [of _ "dropWhile P t"])
    (use hd_dropWhile [of P t] in \<open>auto dest: set_takeWhileD\<close>)

lemma ahead_slice: "ahead ctx st (a @ b) \<Longrightarrow> slice (st_buf st) (st_curr st) (length a) = a"
  by (elim aheadE) (simp add: slice_def)

lemma decoded_prefix:
  assumes "decoded (st\<lparr>st_curr := st_curr st + length a\<rparr>) (st_curr st + length a) s n st'"
    "ahead ctx st (a @ b)"
  shows "decoded st (st_curr st) (a @ s) (length a + n) st'"
proof -
  let ?i = "st_curr st"
  obtain buf' where st': "st' = st\<lparr>st_buf := buf', st_curr := ?i + length a + n\<rparr>"
    and fr: "buf_frame (st_buf st) buf' (?i + length a) (?i + length a + n)"
    and s: "slice buf' (?i + length a) (length s) = s"
    using assms(1) by (auto simp: decoded_def)
  have "slice buf' ?i (length a) = slice (st_buf st) ?i (length a)"
    by (rule slice_take_eq [where m = "?i + length a"]) (use fr in \<open>auto simp: buf_frame_def\<close>)
  then have "slice buf' ?i (length (a @ s)) = a @ s"
    using ahead_slice [OF assms(2)] s by (simp add: slice_add)
  moreover have "buf_frame (st_buf st) buf' ?i (?i + length a + n)"
    by (rule buf_frame_trans [OF fr buf_frame_refl]) auto
  ultimately show ?thesis using st' by (auto simp: decoded_def add.assoc)
qed

lemma parse_string_rfc_complete:
  assumes "lanes_ok ctx" "ahead ctx st (raw @ 0x22 # r)" "string_text raw s"
    "c_strict_utf8 ctx \<longrightarrow> utf8_valid raw"
  shows "\<exists>st'. parse_string_rfc ctx st = POk (st_curr st, length s) (advance 1 st')
    \<and> decoded st (st_curr st) s (length raw) st'"
proof -
  obtain a b where ab: "raw = a @ b" "\<forall>c \<in> set a. \<not> string_stop c" "b = [] \<or> string_stop (hd b)"
    using takeWhile_split [of raw "\<lambda>c. \<not> string_stop c"] by blast
  let ?t = "raw @ 0x22 # r" and ?i = "st_curr st"
  let ?k = "?i + length a"
  have tw: "takeWhile (\<lambda>c. \<not> string_stop c) ?t = a"
    using ab by (cases b) (auto simp: takeWhile_append string_stop_def takeWhile_eq_all_conv)
  have scan: "simd_scan (c_lanes ctx) (string_mask (c_lanes ctx)) (st_buf st) ?i = Some ?k"
    using string_scan [OF assms(1,2)] by (simp add: tw)
  have sl: "slice (st_buf st) ?i (length a) = a"
    using ahead_slice [of ctx st a "b @ 0x22 # r"] assms(2) ab(1) by simp
  obtain s' where s': "s = a @ s'" "string_text b s'"
    using string_text_drop_raw assms(3) ab(1,2) by blast
  have ok: "strict_ok ctx raw ?i checker0"
    using strict_ok_start string_text_bytes [OF assms(3)] assms(4) by blast
  then have ck: "\<not> ck_failed (checker_at ctx a ?i)" "strict_ok ctx b ?k (checker_at ctx a ?i)"
    using strict_ok_append [of ctx a b ?i] ab(1) by auto
  let ?st = "st\<lparr>st_curr := ?k\<rparr>"
  show ?thesis
  proof (cases "b = []")
    case True
    then have "s' = []" using string_text_length [OF s'(2)] by simp
    have at: "rd (st_buf st) ?k = Some 0x22"
      using ahead_rd [OF assms(2), of "length a"] ab(1) True by (simp add: nth_append)
    have "c_strict_utf8 ctx \<Longrightarrow> fst (check_utf8_strict a ?i) = NoError"
      using ok ab(1) True by (simp add: check_utf8_strict_NoError strict_ok_def)
    then have "parse_string_rfc ctx st = POk (?i, length a) (advance 1 ?st)"
      using scan at sl
      by (cases "check_utf8_strict a ?i")
        (auto simp: parse_string_rfc_def Let_def at_cursor_def split: prod.splits)
    moreover have "decoded st ?i a (length a) ?st"
      using sl by (auto simp: decoded_def intro: exI [of _ "st_buf st"])
    ultimately show ?thesis using ab(1) True s'(1) \<open>s' = []\<close> by auto
  next
    case False
    then have hd: "hd b = 0x5C"
      using ab(3) string_text_hd [of "hd b" "tl b" s'] s'(2) by simp
    have at: "rd (st_buf st) ?k = Some 0x5C"
      using ahead_rd [OF assms(2), of "length a"] ab(1) False hd
      by (simp add: nth_append hd_conv_nth)
    have d: "drop (st_curr ?st) (st_buf ?st) = b @ 0x22 # (r @ replicate 128 0 @ more)"
      if "drop ?i (st_buf st) = ?t @ replicate 128 0 @ more" for more
      using drop_skip [of ?i "st_buf st" a] that ab(1) by simp
    obtain more where "drop ?i (st_buf st) = ?t @ replicate 128 0 @ more"
      using assms(2) by (rule aheadE)
    from decode_in_situ_complete [OF s'(2) d [OF this] _ order_refl ck(1), of ?i]
    obtain st' where st': "decode_in_situ ctx ?i ?k (checker_at ctx a ?i) ?st
          = POk (?i, ?k + length s' - ?i) (advance 1 st')" "decoded ?st ?k s' (length b) st'"
      using ck(2) by auto
    have "parse_string_rfc ctx st = POk (?i, length s) (advance 1 st')"
      using scan at sl ck(1) st'(1) s'(1)
      by (simp add: parse_string_rfc_def Let_def at_cursor_def checker_at_def split: if_splits)
    moreover have "decoded st ?i s (length raw) st'"
      using decoded_prefix [of st a s' "length b" st' ctx "b @ 0x22 # r"] st'(2) assms(2) ab(1) s'(1) by simp
    ultimately show ?thesis by blast
  qed
qed

text \<open>A zero-free prefix of padded content is a prefix of the content.\<close>

lemma zero_free_prefix:
  assumes "u @ r = t @ replicate (Suc n) 0 @ rest" "\<forall>b \<in> set u. b \<noteq> (0 :: byte)"
  shows "\<exists>r'. t = u @ r'"
proof -
  from assms(1) obtain us where "u = t @ us \<and> us @ r = replicate (Suc n) 0 @ rest \<or>
      u @ us = t \<and> r = us @ replicate (Suc n) 0 @ rest"
    unfolding append_eq_append_conv2 by blast
  then show ?thesis
  proof
    assume us: "u = t @ us \<and> us @ r = replicate (Suc n) 0 @ rest"
    then have "us = []" using assms(2) by (cases us) auto
    with us show ?thesis by simp
  qed auto
qed

lemma parse_string_rfc_sound:
  assumes "lanes_ok ctx" "ahead ctx st t" "parse_string_rfc ctx st = POk v st'"
  shows "\<exists>raw s r. t = raw @ 0x22 # r \<and> string_text raw s \<and> (c_strict_utf8 ctx \<longrightarrow> utf8_valid raw)"
proof -
  obtain a b where ab: "t = a @ b" "\<forall>c \<in> set a. \<not> string_stop c" "b = [] \<or> string_stop (hd b)"
    using takeWhile_split [of t "\<lambda>c. \<not> string_stop c"] by blast
  let ?i = "st_curr st"
  let ?k = "?i + length a"
  have tw: "takeWhile (\<lambda>c. \<not> string_stop c) t = a"
    using ab by (cases b) (auto simp: takeWhile_append takeWhile_eq_all_conv)
  have scan: "simd_scan (c_lanes ctx) (string_mask (c_lanes ctx)) (st_buf st) ?i = Some ?k"
    using string_scan [OF assms(1,2)] by (simp add: tw)
  have sl: "slice (st_buf st) ?i (length a) = a"
    using ahead_slice [of ctx st a b] assms(2) ab(1) by simp
  have at: "rd (st_buf st) ?k = Some (if b = [] then 0 else hd b)"
    using ahead_rd [OF assms(2), of "length a"] ab(1) by (simp add: nth_append hd_conv_nth)
  let ?st = "st\<lparr>st_curr := ?k\<rparr>"
  have text_a: "string_text (a @ r) (a @ u)" if "string_text r u" for r u
    using string_text_raw_append ab(2) that by blast
  consider "b \<noteq> [] \<and> hd b = 0x22" | "b \<noteq> [] \<and> hd b = 0x5C"
    using assms(3) scan at
    by (auto simp: parse_string_rfc_def Let_def at_cursor_def pfail_def split: if_splits)
  then show ?thesis
  proof cases
    case 1
    then have b: "b = 0x22 # tl b" by (metis list.collapse)
    have "c_strict_utf8 ctx \<Longrightarrow> fst (check_utf8_strict a ?i) = NoError"
      using assms(3) scan at sl 1
      by (auto simp: parse_string_rfc_def Let_def at_cursor_def pfail_def split: if_splits prod.splits)
    then have "strict_ok ctx a ?i checker0"
      by (simp add: check_utf8_strict_NoError strict_ok_def)
    moreover have st: "string_text a a" using text_a [OF string_text.nil] by simp
    ultimately have "c_strict_utf8 ctx \<longrightarrow> utf8_valid a"
      using strict_ok_start string_text_bytes by blast
    then show ?thesis using st ab(1) b by metis
  next
    case 2
    then have ck: "\<not> ck_failed (checker_at ctx a ?i)"
        "decode_in_situ ctx ?i ?k (checker_at ctx a ?i) ?st = POk v st'"
      using assms(3) scan at sl
      by (auto simp: parse_string_rfc_def Let_def at_cursor_def pfail_def checker_at_def split: if_splits)
    obtain raw s r where dec: "drop ?k (st_buf st) = raw @ 0x22 # r" "string_text raw s"
        "strict_ok ctx raw ?k (checker_at ctx a ?i)"
      using decode_in_situ_sound [OF ck(2) _ _ ck(1)] by auto
    obtain more where m: "drop ?i (st_buf st) = t @ replicate 128 0 @ more"
      using assms(2) by (rule aheadE)
    then have "drop ?k (st_buf st) = b @ replicate 128 0 @ more"
      using drop_skip [of ?i "st_buf st" a "b @ replicate 128 0 @ more"] ab(1) by simp
    then have "(raw @ [0x22]) @ r = b @ replicate (Suc 127) 0 @ more" using dec(1) by simp
    moreover have "\<forall>c \<in> set (raw @ [0x22]). c \<noteq> 0" using string_text_bytes [OF dec(2)] by auto
    ultimately obtain r' where "b = (raw @ [0x22]) @ r'" using zero_free_prefix by blast
    then have t: "t = (a @ raw) @ 0x22 # r'" using ab(1) by simp
    have st: "string_text (a @ raw) (a @ s)" by (rule text_a [OF dec(2)])
    have "strict_ok ctx (a @ raw) ?i checker0" using strict_ok_append ck(1) dec(3) by blast
    then have "c_strict_utf8 ctx \<longrightarrow> utf8_valid (a @ raw)"
      using strict_ok_start string_text_bytes [OF st] by blast
    then show ?thesis using t st by blast
  qed
qed

lemma parse_string_rfc_total:
  assumes "lanes_ok ctx" "ahead ctx st t"
  shows "parse_string_rfc ctx st \<noteq> POob \<and> parse_string_rfc ctx st \<noteq> PFuel"
proof -
  let ?a = "takeWhile (\<lambda>c. \<not> string_stop c) t" and ?i = "st_curr st"
  let ?k = "?i + length ?a"
  have le: "length ?a \<le> length t" by (rule length_takeWhile_le)
  have at: "rd (st_buf st) ?k \<noteq> None" using ahead_rd [OF assms(2) le] by simp
  have nul: "rd (st_buf st) (?i + length t) = Some 0" using ahead_rd [OF assms(2), of "length t"] by simp
  have "decode_in_situ ctx ?i ?k ck (st\<lparr>st_curr := ?k\<rparr>) \<noteq> POob \<and>
        decode_in_situ ctx ?i ?k ck (st\<lparr>st_curr := ?k\<rparr>) \<noteq> PFuel" for ck
    by (rule decode_in_situ_nul [where k = "?i + length t"]) (use nul le in \<open>auto simp: rd_eq_SomeD\<close>)
  then show ?thesis
    using string_scan [OF assms] at
    by (auto simp: parse_string_rfc_def Let_def at_cursor_def pfail_def split: prod.splits if_splits)
qed

end
