(* ===== verification/EscapeProofs.thy ===== *)
theory EscapeProofs
  imports Writer StringProofs
begin

text \<open>
  Escaping: the wide loop with its mask walk equals the byte-by-byte escape, and what either
  mode writes is a string body of the RFC 8259 grammar for the content.
\<close>

section \<open>The reference\<close>

definition escape_byte :: "byte \<Rightarrow> bytes" where
  "escape_byte c = (if needs_escape c then append_escape c else [c])"

definition escaped :: "bytes \<Rightarrow> bytes" where
  "escaped s = concat (map escape_byte s)"

lemma escaped_simps [simp]:
  "escaped [] = []" "escaped (c # s) = escape_byte c @ escaped s" "escaped (s @ t) = escaped s @ escaped t"
  by (simp_all add: escaped_def)

lemma escaped_clean: "\<forall>c \<in> set s. \<not> needs_escape c \<Longrightarrow> escaped s = s"
  by (induction s) (simp_all add: escape_byte_def)

section \<open>Clearing the lowest set bit\<close>

lemma countr_zero_props:
  assumes "m \<noteq> (0 :: u64)"
  shows "bit m (countr_zero m)" "\<And>j. j < countr_zero m \<Longrightarrow> \<not> bit m j" "countr_zero m < 64"
proof -
  have ex: "\<exists>i < 64. bit m i"
  proof (rule ccontr)
    assume "\<not> ?thesis"
    then have "m = 0" by (intro bit_word_eqI) simp
    then show False using assms by simp
  qed
  let ?xs = "[0..<64]"
  let ?k = "countr_zero m"
  show k: "?k < 64"
  proof -
    have "takeWhile (\<lambda>i. \<not> bit m i) ?xs \<noteq> ?xs" using ex by (auto simp: takeWhile_eq_all_conv)
    then have "length (takeWhile (\<lambda>i. \<not> bit m i) ?xs) < length ?xs"
      by (metis le_neq_implies_less length_takeWhile_le takeWhile_eq_take take_all order_refl)
    then show ?thesis by (simp add: countr_zero_def)
  qed
  show "bit m ?k"
    using nth_length_takeWhile [of "\<lambda>i. \<not> bit m i" ?xs] k by (simp add: countr_zero_def)
  show "\<And>j. j < ?k \<Longrightarrow> \<not> bit m j"
    using k takeWhile_nth [of _ "\<lambda>i. \<not> bit m i" ?xs] set_takeWhileD [OF nth_mem]
    unfolding countr_zero_def by fastforce
qed

lemma bit_clear_lowest:
  assumes "m \<noteq> (0 :: u64)"
  shows "bit (m AND (m - 1)) i \<longleftrightarrow> bit m i \<and> i \<noteq> countr_zero m"
proof -
  let ?k = "countr_zero m"
  note p = countr_zero_props [OF assms]
  define a where "a = m AND NOT (mask (Suc ?k))"
  have bit_a: "bit a j \<longleftrightarrow> bit m j \<and> ?k < j" for j
    by (auto simp: a_def bit_and_iff bit_not_iff bit_mask_iff dest: bit_imp_le_length)
  define t where "t = (push_bit ?k 1 :: u64)"
  have bit_2k: "bit t j \<longleftrightarrow> j = ?k" for j
    unfolding t_def using p(3) by (simp only: Bit_Operations.bit_push_bit_iff bit_1_iff possible_bit_word) auto
  have "m = a OR t"
    by (rule bit_word_eqI) (use p in \<open>auto simp: bit_or_iff bit_a bit_2k linorder_neq_iff\<close>)
  also have "\<dots> = a + t"
    by (rule disjunctive_add [symmetric]) (auto simp: bit_a bit_2k)
  finally have "m - 1 = a + (t - 1)" by simp
  also have "t - 1 = (mask ?k :: u64)" by (simp add: t_def mask_eq_exp_minus_1 push_bit_eq_mult)
  also have "a + mask ?k = a OR mask ?k"
    by (rule disjunctive_add) (auto simp: bit_a bit_mask_iff)
  finally have "m - 1 = a OR mask ?k" .
  then show ?thesis
    using p(1,2) by (auto simp: bit_and_iff bit_or_iff bit_a bit_mask_iff linorder_neq_iff)
qed

section \<open>The wide loop\<close>

text \<open>Bytes before \<open>run\<close> are written, bytes between \<open>run\<close> and \<open>pos\<close> are clean.\<close>

definition esc_inv :: "bytes \<Rightarrow> bytes \<Rightarrow> nat \<Rightarrow> nat \<times> bytes \<Rightarrow> bool" where
  "esc_inv s sink0 pos x \<longleftrightarrow>
     fst x \<le> pos \<and> pos \<le> length s \<and> snd x = sink0 @ escaped (take (fst x) s) \<and>
     (\<forall>i. fst x \<le> i \<and> i < pos \<longrightarrow> \<not> needs_escape (s ! i))"

lemma esc_inv_run:
  assumes "esc_inv s sink0 pos (run, sink)"
  shows "escaped (take pos s) = escaped (take run s) @ slice s run (pos - run)"
proof -
  have le: "run \<le> pos" "pos \<le> length s" and cl: "\<forall>i. run \<le> i \<and> i < pos \<longrightarrow> \<not> needs_escape (s ! i)"
    using assms by (auto simp: esc_inv_def)
  have "take pos s = take run s @ slice s run (pos - run)"
    using le take_add [of run "pos - run" s] by (simp add: slice_def)
  moreover have "escaped (slice s run (pos - run)) = slice s run (pos - run)"
  proof (rule escaped_clean, rule ballI)
    fix c assume "c \<in> set (slice s run (pos - run))"
    then obtain i where "i < pos - run" "c = s ! (run + i)"
      using le by (auto simp: slice_def in_set_conv_nth)
    then show "\<not> needs_escape c" using cl by simp
  qed
  ultimately show ?thesis by simp
qed

lemma esc_inv_hit:
  assumes "esc_inv s sink0 pos (run, sink)" "pos < length s" "needs_escape (s ! pos)"
  shows "esc_inv s sink0 (Suc pos) (Suc pos, sink @ slice s run (pos - run) @ append_escape (s ! pos))"
  using assms esc_inv_run [OF assms(1)] by (simp add: esc_inv_def take_Suc_conv_app_nth escape_byte_def)

lemma esc_inv_extend:
  assumes "esc_inv s sink0 pos x" "pos \<le> pos'" "pos' \<le> length s" "\<forall>i. pos \<le> i \<and> i < pos' \<longrightarrow> \<not> needs_escape (s ! i)"
  shows "esc_inv s sink0 pos' x"
proof -
  have "\<not> needs_escape (s ! i)" if "fst x \<le> i" "i < pos'" for i
    using assms that by (cases "i < pos") (auto simp: esc_inv_def)
  then show ?thesis using assms by (auto simp: esc_inv_def)
qed

lemma write_hits_inv:
  assumes "esc_inv s sink0 p (run, sink)" "pos \<le> p" "p \<le> pos + w" "pos + w \<le> length s"
    and "\<forall>i. bit hits i \<longleftrightarrow> i < w \<and> p \<le> pos + i \<and> needs_escape (s ! (pos + i))"
  shows "esc_inv s sink0 (pos + w) (write_hits s pos hits (run, sink))"
  using assms
proof (induction s pos hits "(run, sink)" arbitrary: p run sink rule: write_hits.induct)
  case (1 s pos hits run sink)
  show ?case
  proof (cases "hits = 0")
    case True
    have "\<not> needs_escape (s ! i)" if "p \<le> i" "i < pos + w" for i
      using 1(6) [THEN spec, of "i - pos"] True that 1(3) by auto
    then show ?thesis
      using esc_inv_extend [OF 1(2) 1(4,5)] True by (simp add: write_hits.simps)
  next
    case False
    let ?k = "countr_zero hits"
    let ?hit = "pos + ?k"
    note z = countr_zero_props [OF False]
    have k: "?k < w" "p \<le> ?hit" "needs_escape (s ! ?hit)" using z(1) 1(6) by auto
    have clean: "\<forall>i. p \<le> i \<and> i < ?hit \<longrightarrow> \<not> needs_escape (s ! i)"
    proof (intro allI impI)
      fix i assume i: "p \<le> i \<and> i < ?hit"
      then have "\<not> bit hits (i - pos)" using z(2) 1(3) by auto
      then show "\<not> needs_escape (s ! i)" using 1(6) [THEN spec, of "i - pos"] i 1(3) k(1) by auto
    qed
    have len: "?hit < length s" using k(1) 1(5) by simp
    have inv: "esc_inv s sink0 ?hit (run, sink)"
      using esc_inv_extend [OF 1(2) k(2) _ clean] len by simp
    have inv2: "esc_inv s sink0 (Suc ?hit) (Suc ?hit, sink @ slice s run (?hit - run) @ append_escape (s ! ?hit))"
      by (rule esc_inv_hit [OF inv len k(3)])
    have "esc_inv s sink0 (pos + w) (write_hits s pos (hits AND (hits - 1))
        (?hit + 1, sink @ slice s run (?hit - run) @ append_escape (s ! ?hit)))"
    proof (rule 1(1) [OF False refl, of "Suc ?hit"])
      show "\<forall>i. bit (hits AND (hits - 1)) i \<longleftrightarrow> i < w \<and> Suc ?hit \<le> pos + i \<and> needs_escape (s ! (pos + i))"
      proof
        fix i
        have "bit hits i \<and> i \<noteq> ?k \<longleftrightarrow> bit hits i \<and> ?k < i" using z(2) by (metis linorder_neqE_nat)
        then show "bit (hits AND (hits - 1)) i \<longleftrightarrow> i < w \<and> Suc ?hit \<le> pos + i \<and> needs_escape (s ! (pos + i))"
          unfolding bit_clear_lowest [OF False] using 1(6) [THEN spec, of i] k(2) by auto
      qed
    qed (use inv2 k 1(5) in auto)
    then show ?thesis using False by (subst write_hits.simps) (simp add: Let_def)
  qed
qed

lemma escape_mask_lanes:
  assumes "length b = w" "w \<le> 64"
  shows "escape_mask w b = lane_mask needs_escape b"
proof -
  have "lane_mask (\<lambda>c. c = 0x22) b OR lane_mask (\<lambda>c. c = 0x5C) b OR lane_mask (\<lambda>c. c < 0x20) b
      = lane_mask needs_escape b"
    by (rule bit_word_eqI) (auto simp: bit_or_iff bit_lane_mask needs_escape_def)
  then show ?thesis using keep_lanes_lane_mask [OF assms] by (simp add: escape_mask_def)
qed

lemma write_batches_inv:
  assumes "w \<le> 64" "esc_inv s sink0 pos x"
  shows "esc_inv s sink0 (fst (write_batches w s pos x)) (snd (write_batches w s pos x))"
  using assms
proof (induction w s pos x rule: write_batches.induct)
  case (1 w s pos x)
  show ?case
  proof (cases "w = 0 \<or> length s < pos + w")
    case True
    then show ?thesis using 1(3) by (simp add: write_batches.simps)
  next
    case False
    let ?b = "slice s pos w"
    obtain run sink where x: "x = (run, sink)" by (cases x)
    have b: "length ?b = w" "\<And>i. i < w \<Longrightarrow> ?b ! i = s ! (pos + i)"
      using False by (auto simp: slice_def)
    have "bit (escape_mask w ?b) i \<longleftrightarrow> i < w \<and> pos \<le> pos + i \<and> needs_escape (s ! (pos + i))" for i
      unfolding escape_mask_lanes [OF b(1) 1(2)] bit_lane_mask b(1) using 1(2) b(2) by auto
    then have "esc_inv s sink0 (pos + w) (write_hits s pos (escape_mask w ?b) (run, sink))"
      using write_hits_inv [OF 1(3) [unfolded x], of pos w "escape_mask w ?b"] False by simp
    then have inv: "esc_inv s sink0 (pos + w) (write_hits s pos (escape_mask w ?b) x)" by (simp only: x)
    have eq: "write_batches w s pos x = write_batches w s (pos + w) (write_hits s pos (escape_mask w ?b) x)"
      using False by (subst write_batches.simps) simp
    show ?thesis unfolding eq by (rule 1(1) [OF False 1(2) inv])
  qed
qed

lemma write_tail_inv:
  assumes "esc_inv s sink0 pos x"
  shows "esc_inv s sink0 (length s) (write_tail s pos x)"
  using assms
proof (induction s pos x rule: write_tail.induct)
  case (1 s pos run sink)
  show ?case
  proof (cases "length s \<le> pos")
    case True
    then show ?thesis using 1(3) by (simp add: write_tail.simps esc_inv_def)
  next
    case False
    have "esc_inv s sink0 (Suc pos) (run, sink)" if "\<not> needs_escape (s ! pos)"
      by (rule esc_inv_extend [OF 1(3)]) (use False that in \<open>auto simp: less_Suc_eq\<close>)
    then show ?thesis
      using 1(1,2) False esc_inv_hit [OF 1(3)] by (subst write_tail.simps) auto
  qed
qed

lemma write_escaped_plain:
  assumes "w \<le> 64"
  shows "write_escaped_impl w sink s False = WOk (sink @ 0x22 # escaped s @ [0x22])"
proof -
  obtain pos x where b: "write_batches w s 0 (0, sink @ [0x22]) = (pos, x)" by (cases "write_batches w s 0 (0, sink @ [0x22])")
  obtain run sink' where t: "write_tail s pos x = (run, sink')" by (cases "write_tail s pos x")
  have "esc_inv s (sink @ [0x22]) 0 (0, sink @ [0x22])" by (simp add: esc_inv_def)
  then have inv: "esc_inv s (sink @ [0x22]) (length s) (run, sink')"
    using write_batches_inv [OF assms, of s "sink @ [0x22]" 0 "(0, sink @ [0x22])"]
      write_tail_inv [of s "sink @ [0x22]" pos x] by (simp add: b t)
  then show ?thesis
    using esc_inv_run [OF inv] by (simp add: write_escaped_impl_def Let_def b t esc_inv_def)
qed

section \<open>Escapes are grammatical\<close>

lemma hex_value_HEX: "n < 16 \<Longrightarrow> hex_value (HEX ! n) = Some n"
proof -
  have "\<forall>n < 16. hex_value (HEX ! n) = Some n" by code_simp
  then show "n < 16 \<Longrightarrow> hex_value (HEX ! n) = Some n" by blast
qed

lemma nibble_step:
  assumes "unat x < 2 ^ 12" "y < 16"
  shows "unat (push_bit 4 x OR word_of_nat y :: u32) = 16 * unat x + y"
proof -
  have p: "unat (push_bit 4 x) = unat x * 2 ^ 4" using assms(1) by (intro unat_push_bit) simp
  have y: "unat (word_of_nat y :: u32) = y" using assms(2) by (simp add: unat_of_nat)
  have "unat (word_of_nat y :: u32) < 2 ^ 4" using assms(2) y by simp
  from unat_or_add [OF this p] show ?thesis using p y by simp
qed

lemma nibbles:
  fixes n :: nat
  assumes "n < 65536"
  shows "16 * (16 * (16 * (n div 4096 mod 16) + n div 256 mod 16) + n div 16 mod 16) + n mod 16 = n"
proof -
  have "n div 4096 mod 16 = n div 4096" using assms by simp
  moreover have "16 * (n div 4096) + n div 256 mod 16 = n div 256" using mult_div_mod_eq [of 16 "n div 256"]
    by (simp add: div_mult2_eq [symmetric])
  moreover have "16 * (n div 256) + n div 16 mod 16 = n div 16" using mult_div_mod_eq [of 16 "n div 16"]
    by (simp add: div_mult2_eq [symmetric])
  moreover have "16 * (n div 16) + n mod 16 = n" by simp
  ultimately show ?thesis by metis
qed

lemma append_u4_hex:
  "\<exists>h. append_u4 v = [0x5C, 0x75] @ h \<and> hex4_val h (ucast v)"
proof -
  let ?n = "unat v"
  define a b c d where "a = ?n div 4096 mod 16" and "b = ?n div 256 mod 16" and "c = ?n div 16 mod 16" and "d = ?n mod 16"
  have lt: "a < 16" "b < 16" "c < 16" "d < 16" by (simp_all add: a_def b_def c_def d_def)
  have n: "?n < 65536" using unsigned_less [of v, where ?'a = nat] by simp
  let ?q = "push_bit 4 (push_bit 4 (push_bit 4 (word_of_nat a) OR word_of_nat b) OR word_of_nat c) OR word_of_nat d :: u32"
  have ua: "unat (word_of_nat a :: u32) = a" using lt(1) by (simp add: unat_of_nat)
  have "unat (push_bit 4 (word_of_nat a) OR word_of_nat b :: u32) = 16 * a + b"
    using nibble_step [of "word_of_nat a" b] ua lt by simp
  then have "unat (push_bit 4 (push_bit 4 (word_of_nat a) OR word_of_nat b) OR word_of_nat c :: u32)
      = 16 * (16 * a + b) + c"
    using nibble_step [of "push_bit 4 (word_of_nat a) OR word_of_nat b" c] lt by simp
  then have "unat ?q = 16 * (16 * (16 * a + b) + c) + d"
    using nibble_step [of "push_bit 4 (push_bit 4 (word_of_nat a) OR word_of_nat b) OR word_of_nat c" d] lt by simp
  also have "\<dots> = ?n" unfolding a_def b_def c_def d_def by (rule nibbles [OF n])
  also have "?n = unat (ucast v :: u32)" using n by (simp add: unsigned_ucast_eq take_bit_nat_eq_self)
  finally have "?q = ucast v" by (rule word_eq_unat)
  then have "hex4_val [HEX ! a, HEX ! b, HEX ! c, HEX ! d] (ucast v)"
    using hex_value_HEX lt by (simp add: hex4_val_def)
  then show ?thesis
    by (intro exI [of _ "[HEX ! a, HEX ! b, HEX ! c, HEX ! d]"])
      (simp add: append_u4_def a_def b_def c_def d_def unat_drop_bit unat_and_F)
qed

lemma append_escape_u4:
  assumes "c < 0x20" "c \<notin> {0x08, 0x0C, 0x0A, 0x0D, 0x09}"
  shows "append_escape c = append_u4 (ucast c)"
proof -
  have u: "unat (ucast c :: 16 word) = unat c" "unat c < 32"
    using assms(1) unat_lt8 [of c] by (simp_all add: unsigned_ucast_eq take_bit_nat_eq_self word_less_nat_alt)
  have "c \<noteq> 0x22" "c \<noteq> 0x5C" using assms(1) by (auto simp: word_less_nat_alt)
  then show ?thesis
    using assms(2) u by (simp add: append_escape_def append_u4_def unat_drop_bit unat_and_F HEX_def lit_def)
qed

lemma append_escape_text:
  assumes "needs_escape c"
  shows "escape_text (append_escape c) [c]"
proof -
  consider "c \<in> {0x22, 0x5C, 0x08, 0x0C, 0x0A, 0x0D, 0x09}" | "c < 0x20" "c \<notin> {0x08, 0x0C, 0x0A, 0x0D, 0x09}"
    using assms by (auto simp: needs_escape_def)
  then show ?thesis
  proof cases
    case 1
    have s: "escape_text [0x5C, e] [c]" if "short_escape_value e = c" "c \<noteq> 0" for e
      using short [of e] that by simp
    show ?thesis
      using 1 s [of "0x22"] s [of "0x5C"] s [of "0x62"] s [of "0x66"] s [of "0x6E"] s [of "0x72"] s [of "0x74"]
      by (auto simp: append_escape_def short_escape_value_def)
  next
    case 2
    obtain h where h: "append_u4 (ucast c) = [0x5C, 0x75] @ h" "hex4_val h (ucast (ucast c :: 16 word))"
      using append_u4_hex by blast
    have cc: "ucast (ucast c :: 16 word) = (ucast c :: u32)"
      by (rule bit_word_eqI) (auto simp: bit_ucast_iff dest: bit_imp_le_length)
    have "unat (ucast c :: u32) < 32" using 2(1) by (simp add: unat_ucast_8_32 word_less_nat_alt)
    then have "\<not> is_surrogate (ucast c)" "(ucast c :: u32) \<le> 0x7F"
      by (simp_all add: is_surrogate_def word_le_nat_alt)
    moreover have "(ucast (ucast c :: u32) :: byte) = c"
      using unat_lt8 [of c] by (intro word_eq_unat) (simp add: unat_ucast_32_8 unat_ucast_8_32)
    ultimately have "escape_text ([0x5C, 0x75] @ h) [c]"
      using bmp [OF h(2) [unfolded cc], of "[c]"] by (simp add: encode_utf8_def)
    then show ?thesis using append_escape_u4 [OF 2] h(1) by simp
  qed
qed

lemma escaped_text: "string_text (escaped s) s"
proof (induction s)
  case (Cons c s)
  show ?case
  proof (cases "needs_escape c")
    case True
    from esc [OF append_escape_text [OF True] Cons] show ?thesis using True by (simp add: escape_byte_def)
  next
    case False
    then have "0x20 \<le> c" "c \<noteq> 0x22" "c \<noteq> 0x5C" by (auto simp: needs_escape_def)
    from raw [OF this Cons] show ?thesis using False by (simp add: escape_byte_def)
  qed
qed (simp add: nil)

section \<open>The decoder of the ASCII mode\<close>

lemma unat_high_bits:
  fixes c :: byte
  assumes "n < 8"
  shows "unat (c AND push_bit n (mask (8 - n))) = unat c div 2 ^ n * 2 ^ n"
proof -
  have "c AND push_bit n (mask (8 - n)) = push_bit n (drop_bit n c)"
    by (rule bit_word_eqI) (auto simp: bit_and_iff bit_push_bit_iff bit_mask_iff bit_drop_bit_eq)
  moreover have "unat (drop_bit n c) * 2 ^ n < 2 ^ LENGTH(8)"
    using unat_lt8 [of c] by (simp add: unat_drop_bit) (metis div_times_less_eq_dividend le_less_trans)
  ultimately show ?thesis by (simp add: unat_push_bit unat_drop_bit)
qed

lemma lead_masks:
  fixes c :: byte
  shows "c AND 0xE0 = 0xC0 \<longleftrightarrow> 0xC0 \<le> unat c \<and> unat c < 0xE0"
    "c AND 0xF0 = 0xE0 \<longleftrightarrow> 0xE0 \<le> unat c \<and> unat c < 0xF0"
    "c AND 0xF8 = 0xF0 \<longleftrightarrow> 0xF0 \<le> unat c \<and> unat c < 0xF8"
    "c AND 0xC0 = 0x80 \<longleftrightarrow> 0x80 \<le> unat c \<and> unat c < 0xC0"
proof -
  have k: "(0xE0 :: byte) = push_bit 5 (mask (8 - 5))" "(0xF0 :: byte) = push_bit 4 (mask (8 - 4))"
    "(0xF8 :: byte) = push_bit 3 (mask (8 - 3))" "(0xC0 :: byte) = push_bit 6 (mask (8 - 6))"
    by (simp_all add: mask_eq_exp_minus_1 push_bit_eq_mult)
  note u = unat_high_bits [of 5 c, folded k] unat_high_bits [of 4 c, folded k] unat_high_bits [of 3 c, folded k]
    unat_high_bits [of 6 c, folded k]
  show "c AND 0xE0 = 0xC0 \<longleftrightarrow> 0xC0 \<le> unat c \<and> unat c < 0xE0"
    using u(1) by (simp add: byte_eq_unat) linarith
  show "c AND 0xF0 = 0xE0 \<longleftrightarrow> 0xE0 \<le> unat c \<and> unat c < 0xF0"
    using u(2) by (simp add: byte_eq_unat) linarith
  show "c AND 0xF8 = 0xF0 \<longleftrightarrow> 0xF0 \<le> unat c \<and> unat c < 0xF8"
    using u(3) by (simp add: byte_eq_unat) linarith
  show "c AND 0xC0 = 0x80 \<longleftrightarrow> 0x80 \<le> unat c \<and> unat c < 0xC0"
    using u(4) by (simp add: byte_eq_unat) linarith
qed

lemma continuation_step:
  assumes "unat cp < 2 ^ 20" "is_cont b"
  shows "unat (push_bit 6 cp OR ucast (b AND 0x3F) :: u32) = unat cp * 64 + (unat b - 0x80)"
proof -
  have p: "unat (push_bit 6 cp) = unat cp * 2 ^ 6" using assms(1) by (intro unat_push_bit) simp
  have b: "0x80 \<le> unat b" "unat b < 0xC0" using assms(2) by (auto simp: byte_num)
  have u: "unat (ucast (b AND 0x3F) :: u32) = unat b - 0x80"
    using mod_bits(2) [OF b] by (simp add: unat_ucast_8_32 unat_and_3F)
  have "unat (ucast (b AND 0x3F) :: u32) < 2 ^ 6" using u b by simp
  from unat_or_add [OF this p] show ?thesis using p u by simp
qed

lemma is_cont_mask: "b AND 0xC0 = 0x80 \<longleftrightarrow> is_cont b"
  unfolding lead_masks(4) is_cont_def word_le_nat_alt by auto

lemma continuation_u32:
  assumes "n < 2 ^ 20"
  shows "continuation (u32_of n) (b # bs) =
    (if is_cont b then continuation (u32_of (n * 64 + (unat b - 0x80))) bs else None)"
proof -
  have n: "unat (u32_of n) = n" using assms by (intro unat_u32) simp
  have "n * 64 + (unat b - 0x80) < 2 ^ 32" using assms unat_lt8 [of b] by simp
  note u = unat_u32 [OF this]
  have "push_bit 6 (u32_of n) OR ucast (b AND 0x3F) = u32_of (n * 64 + (unat b - 0x80))" if "is_cont b"
    using assms continuation_step [of "u32_of n" b, OF _ that] by (intro word_eq_unat) (simp only: u n)
  then show ?thesis by (simp add: is_cont_mask)
qed

lemma lead_of_cases:
  "0xC0 \<le> unat c \<Longrightarrow> unat c < 0xE0 \<Longrightarrow> lead_of c = Some (u32_of (unat c - 0xC0), 2)"
  "0xE0 \<le> unat c \<Longrightarrow> unat c < 0xF0 \<Longrightarrow> lead_of c = Some (u32_of (unat c - 0xE0), 3)"
  "0xF0 \<le> unat c \<Longrightarrow> unat c < 0xF8 \<Longrightarrow> lead_of c = Some (u32_of (unat c - 0xF0), 4)"
  "unat c < 0xC0 \<or> 0xF8 \<le> unat c \<Longrightarrow> lead_of c = None"
  unfolding lead_of_def lead_masks
  by (auto simp: unat_ucast_8_32 unat_u32 unat_and_1F unat_and_F unat_and_7 mod_bits intro!: word_eq_unat)

lemma code_point_error_None:
  assumes "n < 2 ^ 32"
  shows "code_point_error len (u32_of n) = None \<longleftrightarrow>
    (len = 2 \<longrightarrow> 0x80 \<le> n) \<and> (len = 3 \<longrightarrow> 0x800 \<le> n) \<and> (len = 4 \<longrightarrow> 0x10000 \<le> n) \<and>
    n \<le> 0x10FFFF \<and> (n < 0xD800 \<or> 0xDFFF < n)"
  using unat_u32 [OF assms] by (auto simp: code_point_error_def word_le_nat_alt word_less_nat_alt)

lemma list_ge: "2 \<le> length xs \<Longrightarrow> \<exists>a b r. xs = a # b # r" "3 \<le> length xs \<Longrightarrow> \<exists>a b c r. xs = a # b # c # r"
  by (auto simp: numeral_eq_Suc Suc_le_length_iff)

lemma ascii_unit_Inr:
  assumes "lead_of b0 = Some (u32_of x, len)" "length r = len - 1" "continuation (u32_of x) r = Some (u32_of N)" "N < 2 ^ 32"
    "0 < len"
  shows "ascii_unit (b0 # r @ q) = Inr (cp, n) \<longleftrightarrow>
    code_point_error len (u32_of N) = None \<and> cp = u32_of N \<and> n = len"
  using assms by (auto simp: ascii_unit_def split: option.splits)

lemma ascii_unit_2:
  assumes "0xC0 \<le> unat b0" "unat b0 < 0xE0"
  shows "ascii_unit (b0 # r) = Inr (cp, n) \<longleftrightarrow> decode_utf8 (b0 # r) = Some (cp, n)"
proof (cases "\<exists>b1 q. r = b1 # q \<and> is_cont b1")
  case False
  then show ?thesis
    using assms decode_bad [of b0 r] by (cases "0xC2 \<le> unat b0"; cases r)
      (auto simp: ascii_unit_def lead_of_cases decode2 is_cont_mask)
next
  case True
  then obtain b1 q where r: "r = b1 # q" "is_cont b1" by blast
  define N where "N = (unat b0 - 0xC0) * 64 + (unat b1 - 0x80)"
  have c: "0x80 \<le> unat b1" "unat b1 \<le> 0xBF" using r(2) by (auto simp: byte_num)
  have N: "N < 0x800" "0x80 \<le> N \<longleftrightarrow> 0xC2 \<le> unat b0" using assms c unfolding N_def by linarith+
  have k: "continuation (u32_of (unat b0 - 0xC0)) [b1] = Some (u32_of N)"
    using assms r(2) by (simp add: continuation_u32 N_def del: continuation.simps(2))
  have "ascii_unit (b0 # [b1] @ q) = Inr (cp, n) \<longleftrightarrow> 0x80 \<le> N \<and> cp = u32_of N \<and> n = 2"
    using ascii_unit_Inr [OF lead_of_cases(1) [OF assms] _ k] N(1) code_point_error_None [of N 2] by auto
  then show ?thesis
    using assms decode_bad [of b0 r] N(2) r by (cases "0xC2 \<le> unat b0") (auto simp: decode2 N_def)
qed

lemma ascii_unit_3:
  assumes "0xE0 \<le> unat b0" "unat b0 < 0xF0"
  shows "ascii_unit (b0 # r) = Inr (cp, n) \<longleftrightarrow> decode_utf8 (b0 # r) = Some (cp, n)"
proof (cases "\<exists>b1 b2 q. r = b1 # b2 # q \<and> is_cont b1 \<and> is_cont b2")
  case False
  show ?thesis
  proof (cases "\<exists>b1 b2 q. r = b1 # b2 # q")
    case True
    then obtain b1 b2 q where r: "r = b1 # b2 # q" by blast
    have "unat b0 - 0xE0 < 2 ^ 20" "(unat b0 - 0xE0) * 64 + (unat b1 - 0x80) < 2 ^ 20"
      using assms unat_lt8 [of b1] by simp_all
    then have "continuation (u32_of (unat b0 - 0xE0)) [b1, b2] = None"
      using False r by (simp add: is_cont_mask)
    then show ?thesis using False assms r by (auto simp: ascii_unit_def lead_of_cases decode3)
  next
    case F: False
    then have "length r < 2" using list_ge(1) not_less by blast
    then show ?thesis using F assms by (auto simp: ascii_unit_def lead_of_cases decode3 split: list.splits)
  qed
next
  case True
  then obtain b1 b2 q where r: "r = b1 # b2 # q" "is_cont b1" "is_cont b2" by blast
  define N where "N = (unat b0 - 0xE0) * 4096 + (unat b1 - 0x80) * 64 + (unat b2 - 0x80)"
  have c: "0x80 \<le> unat b1" "unat b1 \<le> 0xBF" "0x80 \<le> unat b2" "unat b2 \<le> 0xBF"
    using r(2,3) by (auto simp: byte_num)
  have N: "N < 0x10000" "0x800 \<le> N \<longleftrightarrow> unat b0 = 0xE0 \<longrightarrow> 0xA0 \<le> unat b1"
    using assms c unfolding N_def by linarith+
  have N3: "N < 0xD800 \<or> 0xDFFF < N \<longleftrightarrow> unat b0 = 0xED \<longrightarrow> unat b1 \<le> 0x9F"
  proof (cases "unat b0 = 0xED")
    case True
    then have "\<not> 0xDFFF < N" "unat b1 \<le> 0x9F \<Longrightarrow> N < 0xD800" "\<not> unat b1 \<le> 0x9F \<Longrightarrow> \<not> N < 0xD800"
      using c unfolding N_def by linarith+
    then show ?thesis using True by blast
  next
    case False
    then have "unat b0 < 0xED \<or> 0xED < unat b0" by linarith
    then have "N < 0xD800 \<or> 0xDFFF < N" using assms c unfolding N_def by linarith
    then show ?thesis using False by blast
  qed
  have k: "continuation (u32_of (unat b0 - 0xE0)) [b1, b2] = Some (u32_of N)"
    using assms r(2,3) c by (simp add: continuation_u32 N_def algebra_simps del: continuation.simps(2))
  have "ascii_unit (b0 # [b1, b2] @ q) = Inr (cp, n) \<longleftrightarrow>
      0x800 \<le> N \<and> (N < 0xD800 \<or> 0xDFFF < N) \<and> cp = u32_of N \<and> n = 3"
    using ascii_unit_Inr [OF lead_of_cases(2) [OF assms] _ k] N(1) code_point_error_None [of N 3] by auto
  then show ?thesis unfolding N(2) N3 using assms r by (auto simp: decode3 N_def)
qed

lemma ascii_unit_4:
  assumes "0xF0 \<le> unat b0" "unat b0 < 0xF8"
  shows "ascii_unit (b0 # r) = Inr (cp, n) \<longleftrightarrow> decode_utf8 (b0 # r) = Some (cp, n)"
proof (cases "\<exists>b1 b2 b3 q. r = b1 # b2 # b3 # q \<and> is_cont b1 \<and> is_cont b2 \<and> is_cont b3")
  case False
  show ?thesis
  proof (cases "\<exists>b1 b2 b3 q. r = b1 # b2 # b3 # q")
    case True
    then obtain b1 b2 b3 q where r: "r = b1 # b2 # b3 # q" by blast
    have "unat b0 - 0xF0 < 2 ^ 20" "(unat b0 - 0xF0) * 64 + (unat b1 - 0x80) < 2 ^ 20"
      "((unat b0 - 0xF0) * 64 + (unat b1 - 0x80)) * 64 + (unat b2 - 0x80) < 2 ^ 20"
      using assms unat_lt8 [of b1] unat_lt8 [of b2] by simp_all
    then have "continuation (u32_of (unat b0 - 0xF0)) [b1, b2, b3] = None"
      using False r by (simp add: is_cont_mask)
    then show ?thesis using False assms r decode_bad [of b0 r]
      by (cases "unat b0 \<le> 0xF4") (auto simp: ascii_unit_def lead_of_cases decode4)
  next
    case F: False
    then have "length r < 3" using list_ge(2) not_less by blast
    then show ?thesis using F assms decode_bad [of b0 r]
      by (cases "unat b0 \<le> 0xF4") (auto simp: ascii_unit_def lead_of_cases decode4 split: list.splits)
  qed
next
  case True
  then obtain b1 b2 b3 q where r: "r = b1 # b2 # b3 # q" "is_cont b1" "is_cont b2" "is_cont b3" by blast
  define N where "N = (unat b0 - 0xF0) * 262144 + (unat b1 - 0x80) * 4096 + (unat b2 - 0x80) * 64 + (unat b3 - 0x80)"
  have c: "0x80 \<le> unat b1" "unat b1 \<le> 0xBF" "0x80 \<le> unat b2" "unat b2 \<le> 0xBF" "0x80 \<le> unat b3" "unat b3 \<le> 0xBF"
    using r(2-4) by (auto simp: byte_num)
  have N: "N < 0x200000" "0x10000 \<le> N \<longleftrightarrow> unat b0 = 0xF0 \<longrightarrow> 0x90 \<le> unat b1"
      "N \<le> 0x10FFFF \<longleftrightarrow> unat b0 < 0xF4 \<or> unat b0 = 0xF4 \<and> unat b1 \<le> 0x8F"
    using assms c unfolding N_def by linarith+
  have k: "continuation (u32_of (unat b0 - 0xF0)) [b1, b2, b3] = Some (u32_of N)"
    using assms r(2-4) c by (simp add: continuation_u32 N_def algebra_simps del: continuation.simps(2))
  have "ascii_unit (b0 # [b1, b2, b3] @ q) = Inr (cp, n) \<longleftrightarrow>
      0x10000 \<le> N \<and> N \<le> 0x10FFFF \<and> cp = u32_of N \<and> n = 4"
    using ascii_unit_Inr [OF lead_of_cases(3) [OF assms] _ k] N(1) code_point_error_None [of N 4] by auto
  then show ?thesis unfolding N(2,3) using assms r decode_bad [of b0 r]
    by (cases "unat b0 \<le> 0xF4") (auto simp: decode4 N_def)
qed

text \<open>The two decoders of the library agree on every non-ASCII unit.\<close>

lemma ascii_unit_decode:
  assumes "0x80 \<le> unat (hd p)" "p \<noteq> []"
  shows "ascii_unit p = Inr (cp, n) \<longleftrightarrow> decode_utf8 p = Some (cp, n)"
proof -
  obtain b0 r where p: "p = b0 # r" using assms(2) by (cases p) auto
  consider "unat b0 < 0xC0 \<or> 0xF8 \<le> unat b0" | "0xC0 \<le> unat b0" "unat b0 < 0xE0" | "0xE0 \<le> unat b0" "unat b0 < 0xF0"
    | "0xF0 \<le> unat b0" "unat b0 < 0xF8" by linarith
  then show ?thesis
  proof cases
    case 1
    then have "decode_utf8 p = None" using assms p by (auto intro!: decode_bad)
    then show ?thesis using 1 p by (simp add: ascii_unit_def lead_of_cases)
  qed (use p ascii_unit_2 ascii_unit_3 ascii_unit_4 in blast)+
qed

section \<open>Non-ASCII code points as escapes\<close>

lemma ucast_16_32: "unat (x :: u32) < 65536 \<Longrightarrow> ucast (ucast x :: 16 word) = x"
  by (rule word_eq_unat) (simp add: unsigned_ucast_eq unsigned_take_bit_eq take_bit_nat_eq_self)

lemma append_u4_value: "unat (x :: u32) < 65536 \<Longrightarrow> \<exists>h. append_u4 (ucast x) = [0x5C, 0x75] @ h \<and> hex4_val h x"
  using append_u4_hex [of "ucast x"] ucast_16_32 [of x] by simp

lemma surrogate_split:
  fixes cp :: u32
  assumes "0x10000 \<le> unat cp" "unat cp \<le> 0x10FFFF"
  defines "c \<equiv> cp - 0x10000"
  shows "unat (0xD800 + drop_bit 10 c) = 0xD800 + unat c div 1024"
    "unat (0xDC00 + (c AND 0x3FF)) = 0xDC00 + unat c mod 1024"
    "unat c = unat cp - 0x10000" "unat c div 1024 < 1024"
proof -
  have "unat (cp - 0x10000) = unat cp - unat (0x10000 :: u32)"
    by (rule unat_sub) (use assms(1) in \<open>simp add: word_le_nat_alt\<close>)
  then show c: "unat c = unat cp - 0x10000" by (simp add: c_def)
  then show d: "unat c div 1024 < 1024" using assms(2) by simp
  have "unat (c AND mask 10) = unat c mod 2 ^ 10" by (rule unat_and_mask)
  then have m: "unat (c AND 0x3FF) = unat c mod 1024" by (simp add: mask_eq_exp_minus_1)
  have db: "unat (drop_bit 10 c) = unat c div 1024" by (simp add: unat_drop_bit)
  have "unat (drop_bit 10 c) < 1024" using d db by simp
  then show "unat (0xD800 + drop_bit 10 c) = 0xD800 + unat c div 1024"
    by (subst unat_add_lem [THEN iffD1]) (simp_all add: db)
  have "unat (c AND 0x3FF) < 1024" using m by simp
  then show "unat (0xDC00 + (c AND 0x3FF)) = 0xDC00 + unat c mod 1024"
    by (subst unat_add_lem [THEN iffD1]) (simp_all add: m)
qed

lemma combine_split:
  assumes "0x10000 \<le> unat cp" "unat cp \<le> 0x10FFFF"
  defines "c \<equiv> cp - 0x10000"
  shows "combine_surrogates (0xD800 + drop_bit 10 c) (0xDC00 + (c AND 0x3FF)) = cp"
proof -
  have "combine_surrogates (0xD800 + drop_bit 10 c) (0xDC00 + (c AND 0x3FF)) = 0x10000 + (push_bit 10 (drop_bit 10 c) OR (c AND 0x3FF))"
    by (simp add: combine_surrogates_def)
  also have "push_bit 10 (drop_bit 10 c) OR (c AND 0x3FF) = c"
  proof -
    have k: "(0x3FF :: u32) = mask 10" by (simp add: mask_eq_exp_minus_1)
    show ?thesis unfolding k
      by (rule bit_word_eqI) (auto simp: bit_or_iff bit_and_iff bit_mask_iff bit_push_bit_iff bit_drop_bit_eq)
  qed
  finally show ?thesis by (simp add: c_def)
qed

lemma ascii_code_point_text:
  assumes "is_scalar cp" "encode_utf8 cp = Some bs"
  shows "escape_text (ascii_code_point cp) bs"
proof (cases "cp \<le> 0xFFFF")
  case True
  then have "unat cp < 65536" by (simp add: word_le_nat_alt)
  then obtain h where h: "append_u4 (ucast cp) = [0x5C, 0x75] @ h" "hex4_val h cp"
    using append_u4_value by blast
  have "\<not> is_surrogate cp" using assms(1) by (auto simp: is_scalar_def is_surrogate_def word_le_nat_alt)
  from bmp [OF h(2) this assms(2)] show ?thesis using True h(1) by (simp add: ascii_code_point_def)
next
  case False
  have r: "0x10000 \<le> unat cp" "unat cp \<le> 0x10FFFF"
    using False assms(1) by (auto simp: is_scalar_def word_le_nat_alt)
  define c where "c = cp - 0x10000"
  let ?hi = "0xD800 + drop_bit 10 c" and ?lo = "0xDC00 + (c AND 0x3FF)"
  note s = surrogate_split [OF r, folded c_def]
  have lt: "unat ?hi < 65536" "unat ?lo < 65536" unfolding s(1,2) using s(4) by simp_all
  obtain h h' where h: "append_u4 (ucast ?hi) = [0x5C, 0x75] @ h" "hex4_val h ?hi"
      "append_u4 (ucast ?lo) = [0x5C, 0x75] @ h'" "hex4_val h' ?lo"
    using append_u4_value [OF lt(1)] append_u4_value [OF lt(2)] by blast
  have "is_high_surrogate ?hi" "is_low_surrogate ?lo"
    unfolding is_high_surrogate_def is_low_surrogate_def word_le_nat_alt s(1,2) using s(4) by simp_all
  moreover have "encode_utf8 (combine_surrogates ?hi ?lo) = Some bs"
    using combine_split [OF r] assms(2) by (simp add: c_def)
  ultimately have "escape_text ([0x5C, 0x75] @ h @ [0x5C, 0x75] @ h') bs" by (rule pair [OF h(2,4)])
  then show ?thesis using False h(1,3) by (simp add: ascii_code_point_def Let_def flip: c_def)
qed

section \<open>The ASCII mode as a whole\<close>

definition all_ascii :: "bytes \<Rightarrow> bool" where
  "all_ascii t \<longleftrightarrow> (\<forall>c \<in> set t. c < 0x80)"

lemma all_ascii_simps [simp]:
  "all_ascii []" "all_ascii (a @ b) \<longleftrightarrow> all_ascii a \<and> all_ascii b" "all_ascii (c # t) \<longleftrightarrow> c < 0x80 \<and> all_ascii t"
  by (auto simp: all_ascii_def)

lemma HEX_ascii: "n < 16 \<Longrightarrow> HEX ! n < 0x80"
proof -
  have "\<forall>n < 16. HEX ! n < 0x80" by code_simp
  then show "n < 16 \<Longrightarrow> HEX ! n < 0x80" by blast
qed

lemma append_u4_ascii: "all_ascii (append_u4 v)"
  by (simp add: append_u4_def HEX_ascii unat_and_F)

lemma append_escape_ascii: "all_ascii (append_escape c)"
  by (simp add: append_escape_def HEX_ascii unat_and_F)

lemma ascii_code_point_ascii: "all_ascii (ascii_code_point cp)"
  by (simp add: ascii_code_point_def Let_def append_u4_ascii)

lemma utf8_valid_unit:
  "decode_utf8 p = Some (cp, n) \<Longrightarrow> utf8_valid p = utf8_valid (drop n p)"
  by (subst utf8_valid.simps) (auto simp: decode_utf8_def)

lemma utf8_valid_ascii_hd: "c < 0x80 \<Longrightarrow> utf8_valid (c # t) = utf8_valid t"
  using utf8_valid_unit [of "c # t" "ucast c" 1] decode1 [of c t] by (simp add: word_less_nat_alt)

lemma utf8_valid_Nil [simp]: "utf8_valid []"
  by (simp add: utf8_valid.simps)

lemma utf8_valid_ascii: "all_ascii t \<Longrightarrow> utf8_valid (t @ u) = utf8_valid u"
  by (induction t) (simp_all add: utf8_valid_ascii_hd)

text \<open>Outcome of the ASCII mode: it fails exactly on ill-formed UTF-8.\<close>

definition ascii_failure :: "error_code \<Rightarrow> bool" where
  "ascii_failure c \<longleftrightarrow>
     c \<in> {Utf8InvalidLead, Utf8Truncated, Utf8InvalidContinuation, Utf8Overlong, Utf8ExceedsMax, Utf8Surrogate}"

definition ascii_outcome :: "bytes \<Rightarrow> bytes \<Rightarrow> written \<Rightarrow> bool" where
  "ascii_outcome sink p r \<longleftrightarrow>
     (if utf8_valid p then \<exists>t. r = WOk (sink @ t) \<and> string_text t p \<and> all_ascii t
      else \<exists>sink' c. r = WFail sink' (dump_error c []) \<and> ascii_failure c)"

lemma ascii_outcome_step:
  assumes "ascii_outcome (sink @ a) q r" "utf8_valid p = utf8_valid q" "all_ascii a"
    and "\<And>t. string_text t q \<Longrightarrow> string_text (a @ t) p"
  shows "ascii_outcome sink p r"
  using assms unfolding ascii_outcome_def by (cases "utf8_valid q") fastforce+

lemma ascii_unit_failure: "ascii_unit p = Inl e \<Longrightarrow> ascii_failure e"
  by (auto simp: ascii_failure_def ascii_unit_def code_point_error_def split: option.splits if_splits)

lemma write_escaped_ascii_outcome: "ascii_outcome sink p (write_escaped_ascii sink p)"
proof (induction sink p rule: write_escaped_ascii.induct)
  case (1 sink p)
  show ?case
  proof (cases p)
    case Nil
    then show ?thesis by (simp add: write_escaped_ascii.simps ascii_outcome_def string_text.nil)
  next
    case (Cons c r)
    then have p: "p \<noteq> []" "hd p = c" "tl p = r" by simp_all
    consider "needs_escape c" | "\<not> needs_escape c" "c < 0x80" | "\<not> needs_escape c" "\<not> c < 0x80" by blast
    then show ?thesis
    proof cases
      case c: 1
      then have a: "c < 0x80" by (auto simp: needs_escape_def word_less_nat_alt)
      have "write_escaped_ascii sink p = write_escaped_ascii (sink @ append_escape c) r"
        using c p by (subst write_escaped_ascii.simps) simp
      moreover have "ascii_outcome (sink @ append_escape c) r (write_escaped_ascii (sink @ append_escape c) r)"
        using "1.IH"(1) [OF p(1) refl] c p by simp
      moreover have "string_text (append_escape c @ t) p" if "string_text t r" for t
        using esc [OF append_escape_text [OF c] that] Cons by simp
      ultimately show ?thesis
        using ascii_outcome_step [of sink "append_escape c" r _ p] append_escape_ascii utf8_valid_ascii_hd [OF a, of r] Cons
        by simp
    next
      case c: 2
      then have "0x20 \<le> c" "c \<noteq> 0x22" "c \<noteq> 0x5C" by (auto simp: needs_escape_def)
      from string_text.raw [OF this] have t: "string_text ([c] @ t) p" if "string_text t r" for t
        using that Cons by simp
      have "write_escaped_ascii sink p = write_escaped_ascii (sink @ [c]) r"
        using c p by (subst write_escaped_ascii.simps) simp
      moreover have "ascii_outcome (sink @ [c]) r (write_escaped_ascii (sink @ [c]) r)"
        using "1.IH"(2) [OF p(1) refl] c p by simp
      ultimately show ?thesis
        using ascii_outcome_step [of sink "[c]" r _ p] t c utf8_valid_ascii_hd [OF c(2), of r] Cons by simp
    next
      case c: 3
      then have hi: "0x80 \<le> unat (hd p)" using p by (auto simp: word_less_nat_alt)
      show ?thesis
      proof (cases "ascii_unit p")
        case (Inl e)
        then have "decode_utf8 p = None" using ascii_unit_decode [OF hi p(1)] by (cases "decode_utf8 p") auto
        then have "\<not> utf8_valid p" using p(1) by (subst utf8_valid.simps) simp
        moreover have "write_escaped_ascii sink p = WFail sink (dump_error e [])"
          using c p Inl by (subst write_escaped_ascii.simps) simp
        ultimately show ?thesis using ascii_unit_failure [OF Inl] by (auto simp: ascii_outcome_def)
      next
        case (Inr y)
        obtain cp n where y: "y = (cp, n)" by (cases y)
        have d: "decode_utf8 p = Some (cp, n)" using ascii_unit_decode [OF hi p(1), of cp n] Inr y by simp
        have s: "is_scalar cp" "encode_utf8 cp = Some (take n p)" using encode_decode [OF d] by auto
        have "write_escaped_ascii sink p = write_escaped_ascii (sink @ ascii_code_point cp) (drop n p)"
          using c p Inr y by (subst write_escaped_ascii.simps) simp
        moreover have "ascii_outcome (sink @ ascii_code_point cp) (drop n p)
            (write_escaped_ascii (sink @ ascii_code_point cp) (drop n p))"
          using "1.IH"(3) [OF p(1) refl _ _ Inr y [symmetric]] c p by simp
        moreover have "string_text (ascii_code_point cp @ t) p" if "string_text t (drop n p)" for t
          using esc [OF ascii_code_point_text [OF s] that] by simp
        ultimately show ?thesis
          using ascii_outcome_step [of sink "ascii_code_point cp" "drop n p" _ p] ascii_code_point_ascii utf8_valid_unit [OF d]
          by simp
      qed
    qed
  qed
qed

lemma decode_high_bytes:
  assumes "decode_utf8 p = Some (cp, n)" "\<not> hd p < 0x80"
  shows "\<forall>b \<in> set (take n p). 0x80 \<le> b"
proof -
  obtain b0 r where p: "p = b0 # r" using assms by (cases p) (auto simp: decode_utf8_def)
  have h: "0x80 \<le> unat b0" using assms(2) p by (simp add: word_less_nat_alt)
  have c: "is_cont b \<Longrightarrow> 0x80 \<le> b" for b by (simp add: is_cont_def)
  consider "0xC2 \<le> unat b0" "unat b0 \<le> 0xDF" | "0xE0 \<le> unat b0" "unat b0 \<le> 0xEF"
    | "0xF0 \<le> unat b0" "unat b0 \<le> 0xF4"
    using assms(1) decode_bad [of b0 r] p h by fastforce
  then show ?thesis
    using assms(1) h p
    by cases (auto simp: decode2 decode3 decode4 c word_le_nat_alt [of _ b0] split: list.splits if_splits)
qed

text \<open>In plain mode well-formed content stays well-formed.\<close>

lemma utf8_valid_escaped: "utf8_valid s \<Longrightarrow> utf8_valid (escaped s)"
proof (induction s rule: utf8_valid.induct)
  case (1 p)
  show ?case
  proof (cases p)
    case (Cons c r)
    show ?thesis
    proof (cases "c < 0x80")
      case True
      have "all_ascii (escape_byte c)" using append_escape_ascii True by (simp add: escape_byte_def)
      moreover have "utf8_valid (escaped r)"
        using 1 Cons True utf8_valid_ascii_hd [OF True] decode1 [of c r] by (auto simp: word_less_nat_alt)
      ultimately show ?thesis using Cons by (simp add: utf8_valid_ascii)
    next
      case False
      obtain cp n where d: "decode_utf8 p = Some (cp, n)"
        using 1(2) Cons by (subst (asm) utf8_valid.simps) (auto split: option.splits)
      have s: "is_scalar cp" "encode_utf8 cp = Some (take n p)" using encode_decode [OF d] by auto
      have hi: "\<forall>b \<in> set (take n p). \<not> needs_escape b"
        using decode_high_bytes [OF d] False Cons by (auto simp: needs_escape_def word_le_nat_alt word_less_nat_alt)
      have "utf8_valid (escaped (drop n p))" using 1 Cons d utf8_valid_unit [OF d] by auto
      moreover have "decode_utf8 (take n p @ escaped (drop n p)) = Some (cp, length (take n p))"
        using decode_encode_ex [OF s(1)] s(2) by auto
      ultimately have "utf8_valid (take n p @ escaped (drop n p))"
        using utf8_valid_unit [of "take n p @ escaped (drop n p)"] by simp
      moreover have "escaped p = take n p @ escaped (drop n p)"
        using escaped_simps(3) [of "take n p" "drop n p"] escaped_clean [OF hi] by simp
      ultimately show ?thesis by simp
    qed
  qed simp
qed

section \<open>Both modes\<close>

lemma write_escaped_text:
  assumes "w \<le> 64" "write_escaped_impl w sink s ascii = WOk sink'"
  shows "\<exists>t. sink' = sink @ 0x22 # t @ [0x22] \<and> string_text t s \<and> (utf8_valid s \<longrightarrow> utf8_valid t) \<and>
    (ascii \<longrightarrow> utf8_valid s \<and> all_ascii t)"
proof (cases ascii)
  case False
  then show ?thesis
    using assms write_escaped_plain [OF assms(1), of sink s] escaped_text [of s] utf8_valid_escaped [of s] by auto
next
  case True
  obtain t where "write_escaped_ascii (sink @ [0x22]) s = WOk (sink @ 0x22 # t)" "string_text t s" "all_ascii t" "utf8_valid s"
      "sink' = sink @ 0x22 # t @ [0x22]"
    using assms(2) write_escaped_ascii_outcome [of "sink @ [0x22]" s] True
    by (auto simp: write_escaped_impl_def ascii_outcome_def bindw_def split: if_splits written.splits)
  then show ?thesis using utf8_valid_ascii [of t "[]"] by auto
qed

lemma write_escaped_total:
  assumes "w \<le> 64"
  shows "(\<exists>sink'. write_escaped_impl w sink s ascii = WOk sink') \<longleftrightarrow> (ascii \<longrightarrow> utf8_valid s)"
proof (cases ascii)
  case False
  then show ?thesis using write_escaped_plain [OF assms] by simp
next
  case True
  then show ?thesis
    using write_escaped_ascii_outcome [of "sink @ [0x22]" s]
    by (auto simp: write_escaped_impl_def Let_def ascii_outcome_def bindw_def split: if_splits)
qed

end
