(* ===== verification/RoundProofs.thy ===== *)
theory RoundProofs
  imports Complex_Main ToChars
begin

text \<open>
  Rounding depends on the rational only: a fraction and its expansion by a common factor
  round to the same double.  This is what makes an integral double and its text with an
  appended \<open>.0\<close> the same number.
\<close>

lemma bitlen_bounds: "0 < n \<Longrightarrow> 2 ^ (bitlen n - 1) \<le> n \<and> n < 2 ^ bitlen n \<and> 0 < bitlen n"
proof (induction n rule: bitlen.induct)
  case (1 n)
  show ?case
  proof (cases "n = 1")
    case True
    then show ?thesis by (simp add: bitlen.simps)
  next
    case False
    let ?h = "n div 2"
    have h: "0 < ?h" using 1(2) False by auto
    have ih: "2 ^ (bitlen ?h - 1) \<le> ?h" "?h < 2 ^ bitlen ?h" "0 < bitlen ?h" using 1 h by auto
    have b: "bitlen n = Suc (bitlen ?h)" using 1(2) by (subst bitlen.simps) simp
    have p: "(2::nat) ^ bitlen ?h = 2 * 2 ^ (bitlen ?h - 1)" using ih(3) by (cases "bitlen ?h") simp_all
    have "2 * ?h \<le> n" "n < 2 * ?h + 2" by linarith+
    moreover have "?h + 1 \<le> 2 ^ bitlen ?h" using ih(2) by simp
    ultimately have "2 * 2 ^ (bitlen ?h - 1) \<le> n" "n < 2 * 2 ^ bitlen ?h" using ih(1) by linarith+
    then show ?thesis using p by (simp add: b)
  qed
qed

text \<open>The window in which the binary exponent puts the quotient.\<close>

definition in_window :: "real \<Rightarrow> int \<Rightarrow> bool" where
  "in_window r k \<longleftrightarrow> 2 powi (k + 52) \<le> r \<and> r < 2 powi (k + 53)"

lemma powi_less_imp: "2 powi a < (2 powi b :: real) \<Longrightarrow> a < b"
  by (metis linorder_not_le one_le_numeral power_int_increasing)

lemma in_window_unique:
  assumes "in_window r k" "in_window r l"
  shows "k = l"
proof -
  have "k + 52 < l + 53" "l + 52 < k + 53"
    using assms unfolding in_window_def by (meson le_less_trans powi_less_imp)+
  then show ?thesis by simp
qed

lemma scaled_le:
  assumes "0 < D" "scaled N D k = (n, d)"
  shows "x \<le> n div d \<longleftrightarrow> real x * 2 powi k \<le> real N / real D" "0 < d"
proof -
  have "real x * 2 powi k \<le> real N / real D \<longleftrightarrow> real x * 2 powi k * real D \<le> real N"
    using assms(1) by (simp add: pos_le_divide_eq)
  also have "\<dots> \<longleftrightarrow> x * d \<le> n"
  proof (cases "0 \<le> k")
    case True
    then have n: "n = N" "d = D * 2 ^ nat k" and p: "(2::real) powi k = real (2 ^ nat k)"
      using assms(2) by (simp_all add: scaled_def power_int_def)
    have "real x * 2 powi k * real D \<le> real N \<longleftrightarrow> real (x * (D * 2 ^ nat k)) \<le> real N"
      unfolding p by (simp add: mult_ac)
    then show ?thesis by (simp only: n of_nat_le_iff)
  next
    case False
    then have n: "n = N * 2 ^ nat (- k)" "d = D" and p: "(2::real) powi k = inverse (real (2 ^ nat (- k)))"
      using assms(2) by (simp_all add: scaled_def power_int_def flip: power_inverse)
    have "real x * 2 powi k * real D \<le> real N \<longleftrightarrow> real (x * D) \<le> real (N * 2 ^ nat (- k))"
      unfolding p by (simp add: field_simps)
    then show ?thesis by (simp only: n of_nat_le_iff)
  qed
  also have "\<dots> \<longleftrightarrow> x \<le> n div d"
    using assms by (auto simp: scaled_def less_eq_div_iff_mult_less_eq split: if_splits)
  finally show "x \<le> n div d \<longleftrightarrow> real x * 2 powi k \<le> real N / real D" by simp
  show "0 < d" using assms by (auto simp: scaled_def split: if_splits)
qed

lemma bitlen_real:
  assumes "0 < n"
  shows "2 powi (int (bitlen n) - 1) \<le> real n" "real n < 2 powi int (bitlen n)"
proof -
  note b = bitlen_bounds [OF assms]
  have "int (bitlen n) - 1 = int (bitlen n - 1)" using b by simp
  then have "2 powi (int (bitlen n) - 1) = real (2 ^ (bitlen n - 1))" "2 powi int (bitlen n) = real (2 ^ bitlen n)"
    by (simp_all only: power_int_of_nat of_nat_power of_nat_numeral)
  then show "2 powi (int (bitlen n) - 1) \<le> real n" "real n < 2 powi int (bitlen n)"
    using b by (simp_all only: of_nat_le_iff of_nat_less_iff)
qed

lemma round_exp_window:
  assumes "0 < N" "0 < D"
  shows "\<exists>k. in_window (real N / real D) k \<and> round_exp N D = max k (- 1074)"
proof -
  define a b where "a = int (bitlen N)" and "b = int (bitlen D)"
  define k where "k = a - b - 53"
  let ?r = "real N / real D"
  have N: "2 powi (a - 1) \<le> real N" "real N < 2 powi a"
    using bitlen_real [OF assms(1)] by (simp_all add: a_def)
  have D: "2 powi (b - 1) \<le> real D" "real D < 2 powi b"
    using bitlen_real [OF assms(2)] by (simp_all add: b_def)
  have p: "2 powi x / 2 powi y = (2 powi (x - y) :: real)" for x y :: int by (simp add: power_int_diff)
  have "2 powi (k + 52) \<le> ?r"
  proof -
    have "(2::real) powi (a - 1) / 2 powi b \<le> ?r" using N D assms by (intro frac_le) auto
    then show ?thesis unfolding p by (simp add: k_def algebra_simps)
  qed
  moreover have "?r < 2 powi (k + 54)"
  proof -
    have "?r < (2::real) powi a / 2 powi (b - 1)" using N D assms by (intro frac_less) auto
    then show ?thesis unfolding p by (simp add: k_def algebra_simps)
  qed
  moreover obtain n d where nd: "scaled N D k = (n, d)" by (cases "scaled N D k")
  have q: "2 ^ 53 \<le> n div d \<longleftrightarrow> 2 powi (k + 53) \<le> ?r"
    using scaled_le(1) [OF assms(2) nd, of "2 ^ 53"] by (simp add: power_int_add mult.commute)
  have "round_exp N D = max (if 2 ^ 53 \<le> n div d then k + 1 else k) (- 1074)"
    by (simp add: round_exp_def Let_def nd flip: a_def b_def k_def)
  ultimately show ?thesis
    unfolding q in_window_def by (intro exI [of _ "if 2 powi (k + 53) \<le> ?r then k + 1 else k"]) (auto simp: add.assoc)
qed

lemma round_quot_scale: "0 < c \<Longrightarrow> round_quot (c * n) (c * d) = round_quot n d"
  by (auto simp: round_quot_def Let_def simp flip: mult_mod_right)

lemma round_double_scale:
  assumes "0 < c" "0 < D"
  shows "round_double neg (c * N) (c * D) = round_double neg N D"
proof (cases "N = 0")
  case False
  have e: "round_exp (c * N) (c * D) = round_exp N D"
  proof -
    have "real (c * N) / real (c * D) = real N / real D" using assms(1) by simp
    then show ?thesis
      using round_exp_window [of N D] round_exp_window [of "c * N" "c * D"] in_window_unique assms False
      by (metis mult_eq_0_iff neq0_conv)
  qed
  obtain n d where s: "scaled N D (round_exp N D) = (n, d)" by (cases "scaled N D (round_exp N D)")
  have "scaled (c * N) (c * D) (round_exp N D) = (c * n, c * d)"
    using s by (auto simp: scaled_def mult.assoc split: if_splits)
  then show ?thesis using assms(1) False by (simp add: round_double_def e s round_quot_scale)
qed (simp add: round_double_def)

lemma token_double_point_zero:
  "token_double neg ip [0x2E, 0x30] [] = token_double neg ip [] []"
proof -
  have "digits_val (ip @ [0x30]) = 10 * digits_val ip" by (simp add: digits_val_snoc digit_val_def)
  then show ?thesis
    using round_double_scale [of 10 1 neg "digits_val ip"]
    by (simp add: token_double_def round_decimal_def exp_value_def fc_exponent_def at_byte_def)
qed

section \<open>The texts of the writer are JSON numbers\<close>

lemma dec_hd_nonzero: "d \<noteq> 0 \<Longrightarrow> hd (dec d) \<noteq> 0x30"
proof (cases "d < 10")
  case True
  assume d: "d \<noteq> 0"
  have "unat (of_nat (48 + d) :: byte) = 48 + d" using True by (rule unat_digit)
  then have "(of_nat (48 + d) :: byte) \<noteq> 0x30" using d by auto
  then show ?thesis using True by (subst dec.simps) simp
qed (use dec_hd in simp)

lemma digits1_dec: "digits1 (dec n)"
  using dec_digits [of n] dec_not_Nil [of n] by (simp add: digits1_def)

lemma int_part_dec: "int_part (dec n)"
  using digits1_dec [of n] length_dec_1 [of n] dec_hd [of n] by (auto simp: int_part_def)

lemma is_dec_digit_0 [simp]: "is_dec_digit 0x30"
  by (simp add: is_dec_digit_def)

definition json_number :: "bool \<Rightarrow> bytes \<Rightarrow> bool" where
  "json_number neg s \<longleftrightarrow> (\<exists>ip fr ex. number_parts neg ip fr ex s)"

lemma json_number_sign:
  "json_number False s \<Longrightarrow> json_number neg ((if neg then [0x2D] else []) @ s)"
  unfolding json_number_def number_parts_def by auto

lemma json_number_dec: "json_number False (dec n)"
  unfolding json_number_def number_parts_def
  using int_part_dec by (intro exI [of _ "dec n"] exI [of _ "[]"]) (simp add: frac_part_def exp_part_def)

lemma fixed_json:
  assumes "d \<noteq> 0"
  shows "json_number False (fixed d k)"
proof -
  let ?ds = "dec d"
  let ?f = "nat (- k)"
  note d1 = digits1_dec [of d, unfolded digits1_def]
  have hd: "hd ?ds \<noteq> 0x30" by (rule dec_hd_nonzero [OF assms])
  consider "0 \<le> k" | "k < 0" "?f < length ?ds" | "k < 0" "length ?ds \<le> ?f" by linarith
  then show ?thesis
  proof cases
    case 1
    then have "int_part (fixed d k)" using d1 hd by (auto simp: fixed_def Let_def int_part_def digits1_def)
    then show ?thesis
      unfolding json_number_def number_parts_def
      by (intro exI [of _ "fixed d k"] exI [of _ "[]"]) (simp add: frac_part_def exp_part_def)
  next
    case 2
    let ?n = "length ?ds - ?f"
    have "take ?n ?ds \<noteq> []" "hd (take ?n ?ds) = hd ?ds" "drop ?n ?ds \<noteq> []" using 2 d1 by auto
    then have "int_part (take ?n ?ds)" "digits1 (drop ?n ?ds)"
      using d1 hd by (auto simp: int_part_def digits1_def dest: in_set_takeD in_set_dropD)
    then show ?thesis
      unfolding json_number_def number_parts_def
      by (intro exI [of _ "take ?n ?ds"] exI [of _ "0x2E # drop ?n ?ds"] exI [of _ "[]"])
        (use 2 in \<open>simp add: fixed_def Let_def frac_part_def exp_part_def\<close>)
  next
    case 3
    have "digits1 (replicate (?f - length ?ds) 0x30 @ ?ds)" using d1 by (auto simp: digits1_def)
    moreover have "int_part [0x30]" by (simp add: int_part_def digits1_def)
    ultimately show ?thesis
      unfolding json_number_def number_parts_def
      by (intro exI [of _ "[0x30]"] exI [of _ "0x2E # replicate (?f - length ?ds) 0x30 @ ?ds"] exI [of _ "[]"])
        (use 3 in \<open>simp add: fixed_def Let_def frac_part_def exp_part_def\<close>)
  qed
qed

lemma digits1_two: "digits1 (two_digits n)"
  using digits1_dec [of n] by (auto simp: two_digits_def digits1_def)

lemma scientific_json: "json_number False (scientific d k)"
proof -
  let ?ds = "dec d"
  note d1 = digits1_dec [of d, unfolded digits1_def]
  define x where "x = k + int (length ?ds) - 1"
  have "int_part [hd ?ds]" using d1 by (simp add: int_part_def digits1_def)
  moreover have "frac_part (if tl ?ds = [] then [] else 0x2E # tl ?ds)"
    using d1 by (auto simp: frac_part_def digits1_def dest: list.set_sel(2))
  moreover have "exp_part (0x65 # [if x < 0 then 0x2D else 0x2B] @ two_digits (nat \<bar>x\<bar>))"
    unfolding exp_part_def using digits1_two
    by (intro disjI2 exI [of _ "0x65"] exI [of _ "[if x < 0 then 0x2D else 0x2B]"]
        exI [of _ "two_digits (nat \<bar>x\<bar>)"]) simp
  ultimately show ?thesis
    unfolding json_number_def number_parts_def
    by (intro exI [of _ "[hd ?ds]"] exI [of _ "if tl ?ds = [] then [] else 0x2E # tl ?ds"]
        exI [of _ "0x65 # [if x < 0 then 0x2D else 0x2B] @ two_digits (nat \<bar>x\<bar>)"])
      (simp add: scientific_def Let_def x_def)
qed

lemma strip_zeros_nonzero: "d \<noteq> 0 \<Longrightarrow> strip_zeros d k = (d', k') \<Longrightarrow> d' \<noteq> 0"
proof (induction d k rule: strip_zeros.induct)
  case (1 d k)
  show ?case
  proof (cases "d mod 10 = 0")
    case True
    then show ?thesis using 1 by (auto simp: strip_zeros.simps [of d k])
  next
    case False
    then show ?thesis using 1(2,3) by (auto simp: strip_zeros.simps [of d k])
  qed
qed

lemma candidates_json: "s \<in> set (candidates N D) \<Longrightarrow> json_number False s"
  using strip_zeros_nonzero [OF _ sym]
  by (auto simp: candidates_def json_number_dec scientific_json split: if_splits prod.splits)
    (metis fixed_json neq0_conv)+

section \<open>The text of a double reads back\<close>

lemma find_SomeD: "find P xs = Some x \<Longrightarrow> x \<in> set xs \<and> P x"
  by (auto simp: find_Some_iff)

lemma zero_double:
  assumes "fst (f_fraction b) = 0"
  shows "b = sign_bit (f_sign b)"
proof -
  have z: "f_exp b = 0" "f_mant b = 0"
    using assms by (auto simp: f_fraction_def Let_def split: if_splits)
  have e: "drop_bit 52 b AND 0x7FF = 0" and m: "b AND 0xFFFFFFFFFFFFF = 0"
    using z by (simp_all add: f_exp_def f_mant_def unat_eq_zero)
  have k: "(0x7FF :: u64) = mask 11" "(0xFFFFFFFFFFFFF :: u64) = mask 52" by (simp_all add: mask_eq_exp_minus_1)
  have bits: "\<not> bit b i" if "i < 63" for i
  proof (cases "i < 52")
    case True
    have "\<not> bit (b AND mask 52) i" using m k(2) by simp
    then show ?thesis using True by (simp add: bit_and_iff bit_mask_iff)
  next
    case False
    have "\<not> bit (drop_bit 52 b AND mask 11) (i - 52)" using e k(1) by simp
    moreover have "i - 52 < 11" using False that by linarith
    ultimately show ?thesis using False that by (simp add: bit_and_iff bit_mask_iff bit_drop_bit_eq)
  qed
  have s: "(0x8000000000000000 :: u64) = push_bit 63 1" by (simp add: push_bit_eq_mult)
  have top: "bit (0x8000000000000000 :: u64) i \<longleftrightarrow> i = 63" for i
    unfolding s by (simp only: Bit_Operations.bit_push_bit_iff bit_1_iff possible_bit_word) auto
  show ?thesis
  proof (rule bit_word_eqI)
    fix i assume "i < LENGTH(64)"
    then have "i < 63 \<or> i = 63" by auto
    then show "bit b i = bit (sign_bit (f_sign b)) i"
      using bits by (cases "bit b 63") (auto simp only: sign_bit_def f_sign_def top if_True if_False bit_0_eq bot_fun_def bot_bool_def)
  qed
qed

lemma shortest_text_parts:
  assumes "shortest_text b = Some s"
  shows "\<exists>ip fr ex. number_parts (f_sign b) ip fr ex s \<and> token_double (f_sign b) ip fr ex = Some b"
proof (cases "fst (f_fraction b) = 0")
  case True
  then have s: "s = (if f_sign b then [0x2D] else []) @ [0x30]"
    using assms by (simp add: shortest_text_def split_beta)
  have "number_parts (f_sign b) [0x30] [] [] s"
    by (simp add: number_parts_def s int_part_def digits1_def frac_part_def exp_part_def)
  moreover have "token_double (f_sign b) [0x30] [] [] = Some b"
    using zero_double [OF True]
    by (simp add: token_double_def round_decimal_def exp_value_def fc_exponent_def at_byte_def
        digits_val_def digit_val_def round_double_def)
  ultimately show ?thesis by blast
next
  case False
  let ?minus = "if f_sign b then [0x2D] else []"
  have f: "find (\<lambda>s. from_chars_general s = FcOk (length s) b)
      (map (\<lambda>s. ?minus @ s) (sort_key length (candidates (fst (f_fraction b)) (snd (f_fraction b))))) = Some s"
    using assms False by (simp add: shortest_text_def split_beta)
  then obtain u where u: "u \<in> set (candidates (fst (f_fraction b)) (snd (f_fraction b)))" "s = ?minus @ u"
    "from_chars_general s = FcOk (length s) b"
    using find_SomeD [OF f] by auto
  obtain ip fr ex where p: "number_parts (f_sign b) ip fr ex s"
    using json_number_sign [OF candidates_json [OF u(1)], of "f_sign b"] u(2) by (auto simp: json_number_def)
  have "token_double (f_sign b) ip fr ex = Some b"
    using from_chars_general_parts [OF p] u(3) by (simp split: option.splits)
  then show ?thesis using p by blast
qed

end
