(* ===== verification/OpenAddress.thy ===== *)
theory OpenAddress
  imports Prelude
begin

unbundle bit_operations_syntax

text \<open>
  Linear probing in a flat slot array, shared by the parser's \<^verbatim>\<open>KeyIndex\<close>
  (\<^verbatim>\<open>src/parser/object.cpp\<close>) and by \<^verbatim>\<open>Object::Index\<close> (\<^verbatim>\<open>src/object.cpp\<close>).  A slot
  holds an entry position plus one, zero is free; keys are read from the entries, so
  the table is described by a predicate and a hash on positions.
\<close>

section \<open>The probe loop\<close>

text \<open>
  \<^term>\<open>Inl p\<close>: position \<open>p\<close> matches; \<^term>\<open>Inr s\<close>: the probe reached the free slot
  \<open>s\<close>.  A table without a free slot would loop, hence \<^verbatim>\<open>partial_function\<close>: not
  returning is \<^term>\<open>None\<close>.
\<close>

partial_function (option) probe ::
  "nat list \<Rightarrow> nat \<Rightarrow> (nat \<Rightarrow> bool) \<Rightarrow> nat \<Rightarrow> (nat + nat) option" where
  [code]: "probe slots msk matches slot =
     (if slots ! slot = 0 then Some (Inr slot)
      else if matches (slots ! slot - 1) then Some (Inl (slots ! slot - 1))
      else probe slots msk matches ((slot + 1) AND msk))"

section \<open>Tables\<close>

text \<open>
  \<open>home p\<close> is the hash of the key at position \<open>p\<close>; every position of \<open>P\<close> sits behind
  a run of occupied slots that starts at its home slot.
\<close>

definition pow2_table :: "nat list \<Rightarrow> nat \<Rightarrow> bool" where
  "pow2_table slots msk \<longleftrightarrow> (\<exists>m. length slots = 2 ^ m \<and> msk = 2 ^ m - 1)"

definition at_off :: "nat list \<Rightarrow> nat \<Rightarrow> nat \<Rightarrow> nat" where
  "at_off slots h k = slots ! ((h + k) mod length slots)"

definition reaches :: "nat list \<Rightarrow> nat \<Rightarrow> nat \<Rightarrow> bool" where
  "reaches slots h p \<longleftrightarrow> (\<exists>k. at_off slots h k = Suc p \<and> (\<forall>j<k. at_off slots h j \<noteq> 0))"

definition occupied :: "nat list \<Rightarrow> nat" where
  "occupied slots = length (filter (\<lambda>v. v \<noteq> 0) slots)"

definition table_ok :: "nat list \<Rightarrow> nat \<Rightarrow> (nat \<Rightarrow> nat) \<Rightarrow> nat set \<Rightarrow> bool" where
  "table_ok slots msk home P \<longleftrightarrow>
     pow2_table slots msk \<and> (\<forall>v \<in> set slots. v = 0 \<or> v - 1 \<in> P) \<and>
     (\<forall>p \<in> P. reaches slots (home p) p)"

lemma mask_mod: "pow2_table slots msk \<Longrightarrow> x AND msk = x mod length slots"
  using take_bit_eq_mask [where a = x]
  by (auto simp: pow2_table_def mask_eq_exp_minus_1 take_bit_eq_mod)

lemma table_length: "pow2_table slots msk \<Longrightarrow> 0 < length slots"
  by (auto simp: pow2_table_def)

text \<open>With a free slot the probe returns, and its answer is exact.\<close>

lemma free_slot_offset:
  assumes "0 \<in> set slots"
  shows "\<exists>k < length slots. at_off slots h k = 0"
proof -
  obtain s where s: "s < length slots" "slots ! s = 0" using assms by (auto simp: in_set_conv_nth)
  let ?n = "length slots"
  let ?k = "(s + ?n - h mod ?n) mod ?n"
  have n: "0 < ?n" using s by linarith
  have "(h + ?k) mod ?n = (h mod ?n + (s + ?n - h mod ?n)) mod ?n" by (simp add: mod_simps)
  also have "h mod ?n + (s + ?n - h mod ?n) = s + ?n"
    using mod_less_divisor [OF n, of h] by simp
  finally have "(h + ?k) mod ?n = s" using s(1) by simp
  moreover have "?k < ?n" using n by (rule mod_less_divisor)
  ultimately show ?thesis using s by (intro exI [of _ ?k]) (simp add: at_off_def)
qed

lemma probe_run:
  assumes t: "pow2_table slots msk"
    and "\<forall>j<k. at_off slots h j \<noteq> 0 \<and> \<not> matches (at_off slots h j - 1)"
  shows "probe slots msk matches (h mod length slots) = probe slots msk matches ((h + k) mod length slots)"
  using assms(2)
proof (induction k)
  case (Suc k)
  have "probe slots msk matches ((h + k) mod length slots)
      = probe slots msk matches (((h + k) mod length slots + 1) AND msk)"
    using Suc.prems [rule_format, of k] by (subst probe.simps) (simp add: at_off_def)
  then show ?case using Suc mask_mod [OF t] by (simp add: mod_simps)
qed simp

lemma probe_result:
  assumes t: "pow2_table slots msk" and zero: "0 \<in> set slots"
  obtains (found) k p where "probe slots msk matches (h mod length slots) = Some (Inl p)"
      "at_off slots h k = Suc p" "matches p" "\<forall>j<k. at_off slots h j \<noteq> 0 \<and> \<not> matches (at_off slots h j - 1)"
    | (free) k s where "probe slots msk matches (h mod length slots) = Some (Inr s)"
      "s < length slots" "slots ! s = 0" "s = (h + k) mod length slots"
      "\<forall>j<k. at_off slots h j \<noteq> 0 \<and> \<not> matches (at_off slots h j - 1)"
proof -
  define stop where "stop k \<longleftrightarrow> at_off slots h k = 0 \<or> matches (at_off slots h k - 1)" for k
  obtain k0 where "stop k0" using free_slot_offset [OF zero, of h] by (auto simp: stop_def)
  define k where "k = (LEAST k. stop k)"
  have k: "stop k" unfolding k_def using \<open>stop k0\<close> by (rule LeastI [where P = stop])
  have before: "\<forall>j<k. at_off slots h j \<noteq> 0 \<and> \<not> matches (at_off slots h j - 1)"
  proof (intro allI impI)
    fix j assume "j < k"
    then have "\<not> stop j" unfolding k_def by (rule not_less_Least)
    then show "at_off slots h j \<noteq> 0 \<and> \<not> matches (at_off slots h j - 1)" by (simp add: stop_def)
  qed
  note run = probe_run [OF t before]
  show ?thesis
  proof (cases "at_off slots h k = 0")
    case True
    have "probe slots msk matches ((h + k) mod length slots) = Some (Inr ((h + k) mod length slots))"
      using True by (subst probe.simps) (simp add: at_off_def)
    then show ?thesis
      using that(2) [of "(h + k) mod length slots" k] run before True table_length [OF t]
      by (simp add: at_off_def)
  next
    case False
    then obtain p where p: "at_off slots h k = Suc p" by (cases "at_off slots h k") auto
    then have "matches p" using k by (simp add: stop_def)
    moreover have "probe slots msk matches ((h + k) mod length slots) = Some (Inl p)"
      using p \<open>matches p\<close> by (subst probe.simps) (simp add: at_off_def)
    ultimately show ?thesis using that(1) run before p by simp
  qed
qed

lemma probe_miss:
  assumes "\<forall>j<k. at_off slots h j \<noteq> 0 \<and> \<not> matches (at_off slots h j - 1)" "at_off slots h k = 0"
    and "reaches slots h p" "matches p"
  shows False
proof -
  obtain i where i: "at_off slots h i = Suc p" "\<forall>j<i. at_off slots h j \<noteq> 0"
    using assms(3) by (auto simp: reaches_def)
  consider "i < k" | "i = k" | "k < i" by linarith
  then show False using assms i by cases auto
qed

text \<open>Storing a new position at the free slot where its probe ended.\<close>

lemma occupied_update:
  "s < length slots \<Longrightarrow> slots ! s = 0 \<Longrightarrow> occupied (slots[s := Suc v]) = Suc (occupied slots)"
proof (induction slots arbitrary: s)
  case (Cons x xs)
  then show ?case by (cases s) (auto simp: occupied_def)
qed simp

lemma free_slot_count: "occupied slots < length slots \<Longrightarrow> 0 \<in> set slots"
proof (rule ccontr)
  assume "occupied slots < length slots" "0 \<notin> set slots"
  then have "filter (\<lambda>v. v \<noteq> 0) slots = slots" by (auto simp: filter_id_conv intro: gr0I)
  then show False using \<open>occupied slots < length slots\<close> by (simp add: occupied_def)
qed

lemma reaches_update:
  assumes "reaches slots h p" "slots ! s = 0"
  shows "reaches (slots[s := Suc v]) h p"
proof -
  obtain k where k: "at_off slots h k = Suc p" "\<forall>j<k. at_off slots h j \<noteq> 0"
    using assms(1) by (auto simp: reaches_def)
  have "at_off (slots[s := Suc v]) h j = (if (h + j) mod length slots = s \<and> s < length slots then Suc v else at_off slots h j)" for j
    by (cases "s < length slots") (auto simp: at_off_def nth_list_update list_update_beyond)
  then show ?thesis using k assms(2)
    by (auto simp: reaches_def at_off_def intro!: exI [of _ k] split: if_splits)
qed

lemma table_ok_insert:
  assumes ok: "table_ok slots msk home P" and s: "s < length slots" "slots ! s = 0"
    "s = (home p + k) mod length slots" and path: "\<forall>j<k. at_off slots (home p) j \<noteq> 0"
  shows "table_ok (slots[s := Suc p]) msk home (insert p P)"
proof -
  have "reaches (slots[s := Suc p]) (home p) p"
    using s path
    by (auto simp: reaches_def at_off_def nth_list_update intro!: exI [of _ k])
  moreover have "reaches (slots[s := Suc p]) (home q) q" if "q \<in> P" for q
    using ok that reaches_update [OF _ s(2)] by (simp add: table_ok_def)
  moreover have "v = 0 \<or> v - 1 \<in> insert p P" if "v \<in> set (slots[s := Suc p])" for v
    using that ok set_update_subset_insert [of slots s "Suc p"] by (auto simp: table_ok_def)
  moreover have "pow2_table (slots[s := Suc p]) msk"
    using ok by (simp add: table_ok_def pow2_table_def)
  ultimately show ?thesis by (auto simp: table_ok_def)
qed

lemma table_ok_empty:
  "cap = 2 ^ m \<Longrightarrow> table_ok (replicate cap 0) (cap - 1) home {}"
  by (auto simp: table_ok_def pow2_table_def)

section \<open>Filling a table\<close>

text \<open>\<^verbatim>\<open>cap <<= 1\<close> until the requested head room is there.\<close>

function grow_cap :: "nat \<Rightarrow> nat \<Rightarrow> nat" where
  "grow_cap lim cap = (if 0 < cap \<and> cap < lim then grow_cap lim (2 * cap) else cap)"
  by pat_completeness auto
termination
  by (relation "measure (\<lambda>(lim, cap). lim - cap)") auto

declare grow_cap.simps [simp del]

lemma grow_cap_pow2: "\<exists>m. cap = 2 ^ m \<Longrightarrow> \<exists>m. grow_cap lim cap = 2 ^ m"
proof (induction lim cap rule: grow_cap.induct)
  case (1 lim cap)
  then obtain m where m: "cap = 2 ^ m" by blast
  then have "\<exists>m. 2 * cap = 2 ^ m" by (intro exI [of _ "Suc m"]) simp
  with 1 show ?case by (subst grow_cap.simps) auto
qed

lemma grow_cap_ge: "0 < cap \<Longrightarrow> lim \<le> grow_cap lim cap \<and> cap \<le> grow_cap lim cap"
proof (induction lim cap rule: grow_cap.induct)
  case (1 lim cap)
  then show ?case by (subst (1 2) grow_cap.simps) auto
qed

text \<open>Insertion of a position whose key is not in the table: no slot matches.\<close>

definition put_free :: "(nat \<Rightarrow> nat) \<Rightarrow> nat list \<times> nat \<Rightarrow> nat \<Rightarrow> (nat list \<times> nat) option" where
  "put_free home = (\<lambda>(slots, msk) p.
     case probe slots msk (\<lambda>_. False) (home p AND msk) of
       Some (Inr s) \<Rightarrow> Some (slots[s := Suc p], msk)
     | _ \<Rightarrow> None)"

fun put_all :: "(nat \<Rightarrow> nat) \<Rightarrow> nat list \<times> nat \<Rightarrow> nat list \<Rightarrow> (nat list \<times> nat) option" where
  "put_all home t [] = Some t"
| "put_all home t (p # ps) =
     (case put_free home t p of None \<Rightarrow> None | Some t' \<Rightarrow> put_all home t' ps)"

lemma put_free_ok:
  assumes "table_ok slots msk home P" "occupied slots < length slots"
  shows "\<exists>slots'. put_free home (slots, msk) p = Some (slots', msk) \<and>
    table_ok slots' msk home (insert p P) \<and> occupied slots' = Suc (occupied slots) \<and>
    length slots' = length slots"
proof -
  have t: "pow2_table slots msk" using assms(1) by (simp add: table_ok_def)
  have z: "0 \<in> set slots" using assms(2) by (rule free_slot_count)
  show ?thesis
  proof (rule probe_result [OF t z, of "\<lambda>_. False" "home p"])
    fix k s
    assume p: "probe slots msk (\<lambda>_. False) (home p mod length slots) = Some (Inr s)"
      and s: "s < length slots" "slots ! s = 0" "s = (home p + k) mod length slots"
      and run: "\<forall>j<k. at_off slots (home p) j \<noteq> 0 \<and> \<not> False"
    have "put_free home (slots, msk) p = Some (slots[s := Suc p], msk)"
      using p by (simp add: put_free_def mask_mod [OF t])
    then show ?thesis
      using table_ok_insert [OF assms(1) s] run occupied_update [OF s(1,2)] by simp
  qed simp
qed

lemma put_all_ok:
  assumes "table_ok slots msk home P" "occupied slots + length ps \<le> length slots" 
  shows "\<exists>slots'. put_all home (slots, msk) ps = Some (slots', msk) \<and>
    table_ok slots' msk home (set ps \<union> P) \<and> occupied slots' = occupied slots + length ps \<and>
    length slots' = length slots"
  using assms
proof (induction ps arbitrary: slots P)
  case (Cons p ps)
  then obtain s1 where s1: "put_free home (slots, msk) p = Some (s1, msk)"
      "table_ok s1 msk home (insert p P)" "occupied s1 = Suc (occupied slots)" "length s1 = length slots"
    using put_free_ok [of slots msk home P p] by auto
  then show ?case using Cons.IH [of s1 "insert p P"] Cons.prems(2) by auto
qed auto

lemma occupied_replicate [simp]: "occupied (replicate n 0) = 0"
  by (simp add: occupied_def filter_replicate)

lemma table_ok_cong:
  "table_ok slots msk home P \<Longrightarrow> (\<And>p. p \<in> P \<Longrightarrow> home p = home' p) \<Longrightarrow> table_ok slots msk home' P"
  by (simp add: table_ok_def)

text \<open>The positions of a table in slot order.\<close>

definition slot_positions :: "nat list \<Rightarrow> nat list" where
  "slot_positions slots = map (\<lambda>v. v - 1) (filter (\<lambda>v. v \<noteq> 0) slots)"

lemma set_slot_positions:
  assumes "table_ok slots msk home P"
  shows "set (slot_positions slots) = P"
proof
  show "set (slot_positions slots) \<subseteq> P" using assms by (auto simp: slot_positions_def table_ok_def)
  show "P \<subseteq> set (slot_positions slots)"
  proof
    fix p assume "p \<in> P"
    then obtain k where "at_off slots (home p) k = Suc p"
      using assms by (auto simp: table_ok_def reaches_def)
    moreover have "at_off slots (home p) k \<in> set slots"
      using table_length [of slots msk] assms by (simp add: at_off_def table_ok_def)
    ultimately have "Suc p \<in> set (filter (\<lambda>v. v \<noteq> 0) slots)" by simp
    then show "p \<in> set (slot_positions slots)" by (force simp: slot_positions_def)
  qed
qed

lemma length_slot_positions: "length (slot_positions slots) = occupied slots"
  by (simp add: slot_positions_def occupied_def)

text \<open>A search by key: exact on the positions of the table.\<close>

lemma probe_key:
  assumes ok: "table_ok slots msk home P" and z: "occupied slots < length slots"
    and m: "\<And>p. p \<in> P \<Longrightarrow> matches p \<Longrightarrow> home p = h"
  obtains (hit) p where "probe slots msk matches (h AND msk) = Some (Inl p)" "p \<in> P" "matches p"
    | (miss) s k where "probe slots msk matches (h AND msk) = Some (Inr s)" "\<forall>p \<in> P. \<not> matches p"
      "s < length slots" "slots ! s = 0" "s = (h + k) mod length slots" "\<forall>j<k. at_off slots h j \<noteq> 0"
proof -
  have t: "pow2_table slots msk" using ok by (simp add: table_ok_def)
  show thesis
  proof (rule probe_result [OF t free_slot_count [OF z], of matches h])
    fix k p assume p: "probe slots msk matches (h mod length slots) = Some (Inl p)"
      and at: "at_off slots h k = Suc p" and mp: "matches p"
    have "at_off slots h k \<in> set slots" using table_length [OF t] by (simp add: at_off_def)
    then have "p \<in> P" using ok at by (force simp: table_ok_def)
    then show thesis using hit p mp by (simp add: mask_mod [OF t])
  next
    fix k s assume p: "probe slots msk matches (h mod length slots) = Some (Inr s)"
      and s: "s < length slots" "slots ! s = 0" "s = (h + k) mod length slots"
      and run: "\<forall>j<k. at_off slots h j \<noteq> 0 \<and> \<not> matches (at_off slots h j - 1)"
    have "\<not> matches q" if "q \<in> P" for q
    proof
      assume mq: "matches q"
      then have "reaches slots h q" using ok that m by (metis table_ok_def)
      moreover have "at_off slots h k = 0" using s by (simp add: at_off_def)
      ultimately show False using probe_miss [OF run] mq by blast
    qed
    then show thesis using miss [of s k] p s run by (simp add: mask_mod [OF t])
  qed
qed

end
