(* ===== verification/KeyIndex.thy ===== *)
theory KeyIndex
  imports OpenAddress
begin

unbundle bit_operations_syntax

text \<open>
  Where an object member goes: the contract of a key locator as a locale, and the two
  locators of \<^verbatim>\<open>parse_object_inplace\<close> (\<^verbatim>\<open>src/parser/object.cpp\<close>), the linear sweep
  and the lazily built \<^verbatim>\<open>KeyIndex\<close>.  Keys are the live entry keys, read by position.
\<close>

section \<open>The contract of a locator\<close>

text \<open>
  \<open>locate ks i key\<close> answers the position of the first entry with that key, or the
  number of entries when the key is new; in that case the state already accounts for
  the append that follows.
\<close>

locale key_locator =
  fixes ok :: "bytes list \<Rightarrow> 'i \<Rightarrow> bool"
    and locate :: "bytes list \<Rightarrow> 'i \<Rightarrow> bytes \<Rightarrow> (nat \<times> 'i) option"
  assumes hit: "ok ks i \<Longrightarrow> distinct ks \<Longrightarrow> key \<in> set ks \<Longrightarrow>
      \<exists>p i'. locate ks i key = Some (p, i') \<and> p < length ks \<and> ks ! p = key \<and> ok ks i'"
    and miss: "ok ks i \<Longrightarrow> distinct ks \<Longrightarrow> key \<notin> set ks \<Longrightarrow>
      \<exists>i'. locate ks i key = Some (length ks, i') \<and> ok (ks @ [key]) i'"

text \<open>The keys after an insertion, and the entries: overwrite in place or append.\<close>

definition key_put :: "bytes list \<Rightarrow> bytes \<Rightarrow> bytes list" where
  "key_put ks key = (if key \<in> set ks then ks else ks @ [key])"

lemma distinct_key_put [simp]: "distinct ks \<Longrightarrow> distinct (key_put ks key)"
  by (simp add: key_put_def)

fun obj_put :: "('k \<times> 'v) list \<Rightarrow> 'k \<Rightarrow> 'v \<Rightarrow> ('k \<times> 'v) list" where
  "obj_put [] k v = [(k, v)]"
| "obj_put ((k', v') # es) k v = (if k' = k then (k', v) # es else (k', v') # obj_put es k v)"

text \<open>The source's form: assign at the located position, or append.\<close>

definition put_at :: "('k \<times> 'v) list \<Rightarrow> nat \<Rightarrow> 'k \<Rightarrow> 'v \<Rightarrow> ('k \<times> 'v) list" where
  "put_at es p k v = (if p < length es then es[p := (fst (es ! p), v)] else es @ [(k, v)])"

lemma obj_put_new: "k \<notin> fst ` set es \<Longrightarrow> obj_put es k v = es @ [(k, v)]"
  by (induction es) auto

lemma obj_put_old:
  "distinct (map fst es) \<Longrightarrow> p < length es \<Longrightarrow> fst (es ! p) = k \<Longrightarrow> obj_put es k v = es[p := (k, v)]"
proof (induction es arbitrary: p)
  case (Cons e es)
  obtain k' v' where [simp]: "e = (k', v')" by (cases e)
  show ?case
  proof (cases p)
    case (Suc q)
    then have "k \<in> fst ` set es" using Cons.prems by auto
    then have "k' \<noteq> k" using Cons.prems(1) by auto
    then show ?thesis using Cons Suc by simp
  qed (use Cons.prems in simp)
qed simp

lemma keys_obj_put:
  "map fst (obj_put es k v) = (if k \<in> fst ` set es then map fst es else map fst es @ [k])"
  by (induction es) force+

lemma distinct_obj_put: "distinct (map fst es) \<Longrightarrow> distinct (map fst (obj_put es k v))"
  by (simp add: keys_obj_put)

lemma map_of_obj_put: "map_of (obj_put es k v) = (map_of es)(k \<mapsto> v)"
  by (induction es) auto

context key_locator begin

text \<open>Any locator implements insertion with the last value winning.\<close>

lemma locate_put:
  assumes "ok (map fst es) i" "distinct (map fst es)"
  shows "\<exists>p i'. locate (map fst es) i key = Some (p, i') \<and> p \<le> length es \<and>
    (\<forall>v. put_at es p key v = obj_put es key v) \<and> (p < length es \<longrightarrow> fst (es ! p) = key) \<and>
    ok (key_put (map fst es) key) i'"
proof (cases "key \<in> set (map fst es)")
  case True
  then obtain p i' where p: "locate (map fst es) i key = Some (p, i')" "p < length es"
      "map fst es ! p = key" "ok (map fst es) i'"
    using hit [OF assms True] by auto
  then show ?thesis
    using True obj_put_old [OF assms(2) p(2), of key] by (auto simp: put_at_def key_put_def)
next
  case False
  then obtain i' where "locate (map fst es) i key = Some (length (map fst es), i')"
      "ok (map fst es @ [key]) i'"
    using miss [OF assms False] by auto
  then show ?thesis
    using False by (auto simp: put_at_def key_put_def obj_put_new)
qed

end

section \<open>The linear sweep\<close>

fun first_index :: "bytes list \<Rightarrow> bytes \<Rightarrow> nat" where
  "first_index [] key = 0"
| "first_index (k # ks) key = (if k = key then 0 else Suc (first_index ks key))"

lemma first_index_hit: "key \<in> set ks \<Longrightarrow> first_index ks key < length ks \<and> ks ! first_index ks key = key"
  by (induction ks) auto

lemma first_index_miss: "key \<notin> set ks \<Longrightarrow> first_index ks key = length ks"
  by (induction ks) auto

definition sweep :: "bytes list \<Rightarrow> unit \<Rightarrow> bytes \<Rightarrow> (nat \<times> unit) option" where
  "sweep ks i key = Some (first_index ks key, ())"

interpretation lin: key_locator "\<lambda>ks i. True" sweep
  by unfold_locales (auto simp: sweep_def first_index_hit first_index_miss)

section \<open>KeyIndex\<close>

record key_index =
  ki_slots :: "nat list"
  ki_mask :: nat
  ki_count :: nat

definition ki_home :: "(bytes \<Rightarrow> nat) \<Rightarrow> bytes list \<Rightarrow> nat \<Rightarrow> nat" where
  "ki_home h ks p = h (ks ! p)"

text \<open>\<^verbatim>\<open>build\<close> and \<^verbatim>\<open>grow\<close> refill a fresh array through \<^verbatim>\<open>insert_slot\<close>.\<close>

definition ki_fill :: "(bytes \<Rightarrow> nat) \<Rightarrow> bytes list \<Rightarrow> nat \<Rightarrow> nat list \<Rightarrow> key_index option" where
  "ki_fill h ks cap ps =
     (case put_all (ki_home h ks) (replicate cap 0, cap - 1) ps of
        None \<Rightarrow> None
      | Some (slots, msk) \<Rightarrow> Some \<lparr>ki_slots = slots, ki_mask = msk, ki_count = length ps\<rparr>)"

definition ki_build :: "(bytes \<Rightarrow> nat) \<Rightarrow> bytes list \<Rightarrow> key_index option" where
  "ki_build h ks = ki_fill h ks (grow_cap (length ks * 4) 16) [0..<length ks]"

definition ki_grow :: "(bytes \<Rightarrow> nat) \<Rightarrow> bytes list \<Rightarrow> key_index \<Rightarrow> key_index option" where
  "ki_grow h ks ki = ki_fill h ks (length (ki_slots ki) * 2) (slot_positions (ki_slots ki))"

definition ki_store :: "key_index \<Rightarrow> nat \<Rightarrow> nat \<Rightarrow> nat \<times> key_index" where
  "ki_store ki slot pos =
     (pos, ki\<lparr>ki_slots := (ki_slots ki)[slot := Suc pos], ki_count := Suc (ki_count ki)\<rparr>)"

definition ki_find_or_insert ::
  "(bytes \<Rightarrow> nat) \<Rightarrow> bytes list \<Rightarrow> key_index \<Rightarrow> bytes \<Rightarrow> (nat \<times> key_index) option" where
  "ki_find_or_insert h ks ki key =
     (case probe (ki_slots ki) (ki_mask ki) (\<lambda>p. ks ! p = key) (h key AND ki_mask ki) of
        None \<Rightarrow> None
      | Some (Inl idx) \<Rightarrow> Some (idx, ki)
      | Some (Inr slot) \<Rightarrow>
          if length (ki_slots ki) < (ki_count ki + 1) * 2 then
            (case ki_grow h ks ki of
               None \<Rightarrow> None
             | Some ki' \<Rightarrow> (case probe (ki_slots ki') (ki_mask ki') (\<lambda>_. False) (h key AND ki_mask ki') of
                   Some (Inr slot') \<Rightarrow> Some (ki_store ki' slot' (length ks))
                 | _ \<Rightarrow> None))
          else Some (ki_store ki slot (length ks)))"

definition ki_ok :: "(bytes \<Rightarrow> nat) \<Rightarrow> bytes list \<Rightarrow> key_index \<Rightarrow> bool" where
  "ki_ok h ks ki \<longleftrightarrow>
     table_ok (ki_slots ki) (ki_mask ki) (ki_home h ks) {..<length ks} \<and>
     occupied (ki_slots ki) = length ks \<and> ki_count ki = length ks \<and>
     2 * length ks \<le> length (ki_slots ki)"

lemma ki_fill_ok:
  assumes "cap = 2 ^ m" "2 * length ks \<le> cap" "set ps = {..<length ks}" "length ps = length ks"
  shows "\<exists>ki. ki_fill h ks cap ps = Some ki \<and> ki_ok h ks ki \<and> length (ki_slots ki) = cap"
proof -
  have "occupied (replicate cap 0) + length ps \<le> length (replicate cap 0)" using assms by simp
  from put_all_ok [OF table_ok_empty [OF assms(1), of "ki_home h ks"] this]
  obtain slots where s: "put_all (ki_home h ks) (replicate cap 0, cap - 1) ps = Some (slots, cap - 1)"
      "table_ok slots (cap - 1) (ki_home h ks) (set ps \<union> {})" "occupied slots = length ps" "length slots = cap"
    by auto
  then show ?thesis using assms by (simp add: ki_fill_def ki_ok_def)
qed

lemma ki_build_ok: "\<exists>ki. ki_build h ks = Some ki \<and> ki_ok h ks ki"
proof -
  have "\<exists>m. (16 :: nat) = 2 ^ m" by (rule exI [of _ 4]) simp
  then obtain m where "grow_cap (length ks * 4) 16 = 2 ^ m" using grow_cap_pow2 by blast
  moreover have "2 * length ks \<le> grow_cap (length ks * 4) 16"
    using grow_cap_ge [of 16 "length ks * 4"] by simp
  ultimately show ?thesis
    using ki_fill_ok [of "grow_cap (length ks * 4) 16" m ks "[0..<length ks]" h]
    by (auto simp: ki_build_def atLeast0LessThan)
qed

lemma ki_grow_ok:
  assumes "ki_ok h ks ki"
  shows "\<exists>ki'. ki_grow h ks ki = Some ki' \<and> ki_ok h ks ki' \<and> length (ki_slots ki') = 2 * length (ki_slots ki)"
proof -
  obtain m where m: "length (ki_slots ki) = 2 ^ m"
    using assms by (auto simp: ki_ok_def table_ok_def pow2_table_def)
  have "set (slot_positions (ki_slots ki)) = {..<length ks}"
    using assms by (intro set_slot_positions) (auto simp: ki_ok_def)
  moreover have "length (slot_positions (ki_slots ki)) = length ks"
    using assms by (simp add: length_slot_positions ki_ok_def)
  ultimately show ?thesis
    using ki_fill_ok [of "length (ki_slots ki) * 2" "Suc m" ks "slot_positions (ki_slots ki)" h] m assms
    by (auto simp: ki_grow_def ki_ok_def)
qed

text \<open>Storing the position that the next append will use.\<close>

lemma ki_store_ok:
  assumes ok: "ki_ok h ks ki" and room: "2 * (length ks + 1) \<le> length (ki_slots ki)"
    and s: "s < length (ki_slots ki)" "ki_slots ki ! s = 0" "s = (h key + k) mod length (ki_slots ki)"
    and run: "\<forall>j<k. at_off (ki_slots ki) (h key) j \<noteq> 0"
  shows "\<exists>ki'. ki_store ki s (length ks) = (length ks, ki') \<and> ki_ok h (ks @ [key]) ki'"
proof -
  have "table_ok (ki_slots ki) (ki_mask ki) (ki_home h (ks @ [key])) {..<length ks}"
    using ok by (auto simp: ki_ok_def ki_home_def nth_append elim: table_ok_cong)
  from table_ok_insert [OF this s(1,2), of "length ks" k] s(3) run
  have "table_ok ((ki_slots ki)[s := Suc (length ks)]) (ki_mask ki) (ki_home h (ks @ [key])) {..<length (ks @ [key])}"
    by (simp add: ki_home_def lessThan_Suc)
  then show ?thesis
    using ok room occupied_update [OF s(1,2)] by (simp add: ki_store_def ki_ok_def)
qed

lemma ki_find_or_insert_ok:
  assumes ok: "ki_ok h ks ki"
  shows "\<exists>p ki'. ki_find_or_insert h ks ki key = Some (p, ki') \<and>
    (if key \<in> set ks then p < length ks \<and> ks ! p = key \<and> ki_ok h ks ki'
     else p = length ks \<and> ki_ok h (ks @ [key]) ki')"
proof -
  have t: "table_ok (ki_slots ki) (ki_mask ki) (ki_home h ks) {..<length ks}"
    and occ: "occupied (ki_slots ki) = length ks" "2 * length ks \<le> length (ki_slots ki)"
      "ki_count ki = length ks"
    using ok by (auto simp: ki_ok_def)
  have pos: "0 < length (ki_slots ki)" using t table_length by (auto simp: table_ok_def)
  then have z: "occupied (ki_slots ki) < length (ki_slots ki)" using occ by linarith
  have m: "ki_home h ks p = h key" if "p \<in> {..<length ks}" "ks ! p = key" for p
    using that by (simp add: ki_home_def)
  show ?thesis
  proof (rule probe_key [OF t z m])
    fix p assume p: "probe (ki_slots ki) (ki_mask ki) (\<lambda>p. ks ! p = key) (h key AND ki_mask ki) = Some (Inl p)"
      "p \<in> {..<length ks}" "ks ! p = key"
    then have "key \<in> set ks" by auto
    then show ?thesis using p ok by (simp add: ki_find_or_insert_def)
  next
    fix s k
    assume p: "probe (ki_slots ki) (ki_mask ki) (\<lambda>p. ks ! p = key) (h key AND ki_mask ki) = Some (Inr s)"
      and no: "\<forall>p \<in> {..<length ks}. ks ! p \<noteq> key"
      and s: "s < length (ki_slots ki)" "ki_slots ki ! s = 0" "s = (h key + k) mod length (ki_slots ki)"
        "\<forall>j<k. at_off (ki_slots ki) (h key) j \<noteq> 0"
    have nk: "key \<notin> set ks" using no by (auto simp: in_set_conv_nth)
    show ?thesis
    proof (cases "length (ki_slots ki) < (ki_count ki + 1) * 2")
      case False
      then have "2 * (length ks + 1) \<le> length (ki_slots ki)" using occ by simp
      from ki_store_ok [OF ok this s] show ?thesis
        using p nk False by (auto simp: ki_find_or_insert_def)
    next
      case True
      obtain ki' where g: "ki_grow h ks ki = Some ki'" "ki_ok h ks ki'"
          "length (ki_slots ki') = 2 * length (ki_slots ki)"
        using ki_grow_ok [OF ok] by auto
      have t': "table_ok (ki_slots ki') (ki_mask ki') (ki_home h ks) {..<length ks}"
        and occ': "occupied (ki_slots ki') = length ks" using g(2) by (auto simp: ki_ok_def)
      have z': "occupied (ki_slots ki') < length (ki_slots ki')" using occ occ' g(3) pos by linarith
      have room: "2 * (length ks + 1) \<le> length (ki_slots ki')"
      proof -
        obtain mm where "length (ki_slots ki) = 2 ^ mm" using t by (auto simp: table_ok_def pow2_table_def)
        then show ?thesis using g(3) occ pos by (cases "length ks") auto
      qed
      show ?thesis
      proof (rule probe_key [OF t' z', of "\<lambda>_. False" "h key"])
        fix s' k'
        assume p': "probe (ki_slots ki') (ki_mask ki') (\<lambda>_. False) (h key AND ki_mask ki') = Some (Inr s')"
          and s': "s' < length (ki_slots ki')" "ki_slots ki' ! s' = 0"
            "s' = (h key + k') mod length (ki_slots ki')" "\<forall>j<k'. at_off (ki_slots ki') (h key) j \<noteq> 0"
        from ki_store_ok [OF g(2) room s'] show ?thesis
          using p p' g(1) nk True by (auto simp: ki_find_or_insert_def)
      qed auto
    qed
  qed
qed

interpretation kidx: key_locator "ki_ok h" "ki_find_or_insert h" for h
proof
  fix ks i key assume "ki_ok h ks i"
  note found = ki_find_or_insert_ok [OF this, of key]
  show "\<exists>p i'. ki_find_or_insert h ks i key = Some (p, i') \<and> p < length ks \<and> ks ! p = key \<and> ki_ok h ks i'"
    if "key \<in> set ks" using found that by simp
  show "\<exists>i'. ki_find_or_insert h ks i key = Some (length ks, i') \<and> ki_ok h (ks @ [key]) i'"
    if "key \<notin> set ks" using found that by simp
qed

section \<open>The lazy switch of the object parser\<close>

definition kKeyIndexThreshold :: nat where "kKeyIndexThreshold = 256"

text \<open>The state is \<^verbatim>\<open>std::optional<KeyIndex>\<close>.\<close>

definition locate_key ::
  "(bytes \<Rightarrow> nat) \<Rightarrow> bytes list \<Rightarrow> key_index option \<Rightarrow> bytes \<Rightarrow> (nat \<times> key_index option) option" where
  "locate_key h ks ki key =
     (if kKeyIndexThreshold \<le> length ks then
        (case (case ki of None \<Rightarrow> ki_build h ks | Some i \<Rightarrow> Some i) of
           None \<Rightarrow> None
         | Some i \<Rightarrow> map_option (\<lambda>(p, i'). (p, Some i')) (ki_find_or_insert h ks i key))
      else Some (first_index ks key, ki))"

definition lazy_ok :: "(bytes \<Rightarrow> nat) \<Rightarrow> bytes list \<Rightarrow> key_index option \<Rightarrow> bool" where
  "lazy_ok h ks ki \<longleftrightarrow>
     (case ki of None \<Rightarrow> True | Some i \<Rightarrow> kKeyIndexThreshold \<le> length ks \<and> ki_ok h ks i)"

lemma locate_key_contract:
  assumes "lazy_ok h ks ki"
  shows "\<exists>p ki'. locate_key h ks ki key = Some (p, ki') \<and>
    (if key \<in> set ks then p < length ks \<and> ks ! p = key \<and> lazy_ok h ks ki'
     else p = length ks \<and> lazy_ok h (ks @ [key]) ki')"
proof (cases "kKeyIndexThreshold \<le> length ks")
  case False
  then have "ki = None" using assms by (auto simp: lazy_ok_def split: option.splits)
  then show ?thesis
    using False first_index_hit [of key ks] first_index_miss [of key ks]
    by (auto simp: locate_key_def lazy_ok_def)
next
  case True
  obtain i where i: "(case ki of None \<Rightarrow> ki_build h ks | Some i \<Rightarrow> Some i) = Some i" "ki_ok h ks i"
    using assms ki_build_ok [of h ks] by (cases ki) (auto simp: lazy_ok_def)
  obtain p i' where "ki_find_or_insert h ks i key = Some (p, i')"
    "if key \<in> set ks then p < length ks \<and> ks ! p = key \<and> ki_ok h ks i'
     else p = length ks \<and> ki_ok h (ks @ [key]) i'"
    using ki_find_or_insert_ok [OF i(2), of key] by blast
  then show ?thesis
    using True i(1) by (intro exI [of _ p] exI [of _ "Some i'"]) (simp add: locate_key_def lazy_ok_def split: if_splits)
qed

interpretation lazy: key_locator "lazy_ok h" "locate_key h" for h
proof
  fix ks i key assume "lazy_ok h ks i"
  note found = locate_key_contract [OF this, of key]
  show "\<exists>p i'. locate_key h ks i key = Some (p, i') \<and> p < length ks \<and> ks ! p = key \<and> lazy_ok h ks i'"
    if "key \<in> set ks" using found that by simp
  show "\<exists>i'. locate_key h ks i key = Some (length ks, i') \<and> lazy_ok h (ks @ [key]) i'"
    if "key \<notin> set ks" using found that by simp
qed

end
