(* ===== verification/Parser.thy ===== *)
theory Parser
  imports Strings KeyIndex
begin

text \<open>
  The recursive descent of \<^verbatim>\<open>class Parser\<close>: container loops
  (\<^verbatim>\<open>src/parser/array.cpp\<close>, \<^verbatim>\<open>src/parser/object.cpp\<close>), value dispatch
  (\<^verbatim>\<open>src/parser/value.cpp\<close>) and the kernel \<^verbatim>\<open>Parser::parse\<close> with the entry points of
  \<^verbatim>\<open>src/parser/parse.cpp\<close>.  The recursion carries fuel; \<^verbatim>\<open>ParserProofs\<close> shows that
  the amount chosen by \<^verbatim>\<open>parse_kernel\<close> is never exhausted.
\<close>

section \<open>Dispatch\<close>

definition literal_start :: "byte \<Rightarrow> bool" where
  "literal_start c \<longleftrightarrow> c = 0x74 \<or> c = 0x66 \<or> c = 0x6E"

definition number_start :: "byte \<Rightarrow> bool" where
  "number_start c \<longleftrightarrow> c = 0x2D \<or> is_dec_digit c"

definition json5_number_start :: "byte \<Rightarrow> bool" where
  "json5_number_start c \<longleftrightarrow> c = 0x2B \<or> c = 0x2E \<or> c = 0x49 \<or> c = 0x4E"

definition json_string :: "view pres \<Rightarrow> view json pres" where
  "json_string r = bindp r (\<lambda>s st. POk (JStr s) st)"

text \<open>The cases of the switch that are not containers; \<open>dflt\<close> is the final failure.\<close>

definition parse_scalar :: "pctx \<Rightarrow> byte \<Rightarrow> pstate \<Rightarrow> view json pres \<Rightarrow> view json pres" where
  "parse_scalar ctx c st dflt =
     (if c = 0x22 then json_string (parse_string ctx st)
      else if literal_start c then parse_literal ctx st
      else if number_start c then parse_number ctx st
      else if c_json5 ctx \<and> c = 0x27 then json_string (parse_string_json5 ctx 0x27 st)
      else if c_json5 ctx \<and> json5_number_start c then parse_number ctx st
      else dflt)"

definition depth_exceeded :: "pctx \<Rightarrow> pstate \<Rightarrow> bool" where
  "depth_exceeded ctx st \<longleftrightarrow> c_max_depth ctx \<noteq> 0 \<and> c_max_depth ctx < st_depth st + 1"

text \<open>\<^verbatim>\<open>DepthFrame\<close>.\<close>

definition enter :: "pstate \<Rightarrow> pstate" where
  "enter st = st\<lparr>st_depth := st_depth st + 1\<rparr>"

definition leave :: "pstate \<Rightarrow> pstate" where
  "leave st = st\<lparr>st_depth := st_depth st - 1\<rparr>"

definition closes :: "pctx \<Rightarrow> byte \<Rightarrow> pstate \<Rightarrow> bool" where
  "closes ctx c st \<longleftrightarrow> below (st_buf st) (c_end ctx) (st_curr st) c"

definition below_end_not :: "pctx \<Rightarrow> byte \<Rightarrow> pstate \<Rightarrow> bool" where
  "below_end_not ctx c st \<longleftrightarrow> st_curr st < c_end ctx \<and> \<not> closes ctx c st"

definition parse_key :: "pctx \<Rightarrow> pstate \<Rightarrow> view pres" where
  "parse_key ctx st =
     (if c_json5 ctx \<and> closes ctx 0x27 st then parse_string_json5 ctx 0x27 st
      else if c_json5 ctx \<and> below_end_not ctx 0x22 st then parse_identifier_key ctx st
      else at_cursor st (\<lambda>c.
        if c \<noteq> 0x22 then pfail ctx ExpectedStringKey (st_curr st) st else parse_string ctx st))"

text \<open>Where the value of a key goes: append in strict mode, else the locator.\<close>

definition member_slot ::
  "pctx \<Rightarrow> bytes list \<Rightarrow> key_index option \<Rightarrow> bytes \<Rightarrow> (nat \<times> key_index option) option" where
  "member_slot ctx ks ki key =
     (if c_strict_dup ctx then Some (length ks, ki) else locate_key (c_hash ctx) ks ki key)"

section \<open>The recursion\<close>

fun parse_value_inplace :: "pctx \<Rightarrow> nat \<Rightarrow> pstate \<Rightarrow> view json pres"
and parse_array_inplace :: "pctx \<Rightarrow> nat \<Rightarrow> pstate \<Rightarrow> view json pres"
and array_loop :: "pctx \<Rightarrow> nat \<Rightarrow> view json list \<Rightarrow> pstate \<Rightarrow> view json pres"
and parse_object_inplace :: "pctx \<Rightarrow> nat \<Rightarrow> pstate \<Rightarrow> view json pres"
and object_loop :: "pctx \<Rightarrow> nat \<Rightarrow> key_index option \<Rightarrow> (view \<times> view json) list \<Rightarrow> pstate \<Rightarrow> view json pres"
where
  "parse_value_inplace ctx 0 st = PFuel"
| "parse_value_inplace ctx (Suc n) st =
     bindp (skip_whitespace ctx st) (\<lambda>_ st. at_cursor st (\<lambda>c.
       if c = 0x7B then parse_object_inplace ctx n st
       else if c = 0x5B then parse_array_inplace ctx n st
       else parse_scalar ctx c st (pfail ctx UnexpectedCharacter (st_curr st) st)))"
| "parse_array_inplace ctx 0 st = PFuel"
| "parse_array_inplace ctx (Suc n) st =
     (if depth_exceeded ctx st then pfail ctx MaxDepthExceeded (st_curr st) st
      else bindp (skip_whitespace ctx (advance 1 (enter st))) (\<lambda>_ st.
        if closes ctx 0x5D st then POk (JArr []) (leave (advance 1 st))
        else array_loop ctx n [] st))"
| "array_loop ctx 0 xs st = PFuel"
| "array_loop ctx (Suc n) xs st =
     bindp (parse_value_inplace ctx n st) (\<lambda>v st.
       bindp (skip_whitespace ctx st) (\<lambda>_ st. at_cursor st (\<lambda>c.
         if c = 0x5D then POk (JArr (xs @ [v])) (leave (advance 1 st))
         else if c = 0x2C then
           (if c_json5 ctx then
              bindp (skip_whitespace ctx (advance 1 st)) (\<lambda>_ st.
                if closes ctx 0x5D st then POk (JArr (xs @ [v])) (leave (advance 1 st))
                else array_loop ctx n (xs @ [v]) st)
            else array_loop ctx n (xs @ [v]) (advance 1 st))
         else pfail ctx ExpectedCommaOrBracket (st_curr st) st)))"
| "parse_object_inplace ctx 0 st = PFuel"
| "parse_object_inplace ctx (Suc n) st =
     (if depth_exceeded ctx st then pfail ctx MaxDepthExceeded (st_curr st) st
      else bindp (skip_whitespace ctx (advance 1 (enter st))) (\<lambda>_ st. at_cursor st (\<lambda>c.
        if c = 0x7D then POk (JObj []) (leave (advance 1 st))
        else object_loop ctx n None [] st)))"
| "object_loop ctx 0 ki es st = PFuel"
| "object_loop ctx (Suc n) ki es st =
     bindp (skip_whitespace ctx st) (\<lambda>_ st.
     bindp (parse_key ctx st) (\<lambda>k st.
       let key = view_bytes (st_buf st) k; ks = map (\<lambda>e. view_bytes (st_buf st) (fst e)) es in
       if c_strict_dup ctx \<and> key \<in> set ks then pfail_context DuplicateKey key st
       else bindp (skip_whitespace ctx st) (\<lambda>_ st. at_cursor st (\<lambda>c.
         if c \<noteq> 0x3A then pfail ctx ExpectedColon (st_curr st) st
         else case member_slot ctx ks ki key of
           None \<Rightarrow> PFuel
         | Some (pos, ki') \<Rightarrow>
             bindp (parse_value_inplace ctx n (advance 1 st)) (\<lambda>v st.
             bindp (skip_whitespace ctx st) (\<lambda>_ st.
               let es' = put_at es pos k v in
               if c_end ctx \<le> st_curr st then pfail ctx UnexpectedEndOfObject (st_curr st) st
               else at_cursor st (\<lambda>c.
                 if c = 0x7D then POk (JObj es') (leave (advance 1 st))
                 else if c = 0x2C then
                   (if c_json5 ctx then
                      bindp (skip_whitespace ctx (advance 1 st)) (\<lambda>_ st.
                        if closes ctx 0x7D st then POk (JObj es') (leave (advance 1 st))
                        else object_loop ctx n ki' es' st)
                    else object_loop ctx n ki' es' (advance 1 st))
                 else pfail ctx ExpectedCommaOrBrace (st_curr st) st)))))))"

section \<open>The kernel\<close>

definition parse_value :: "pctx \<Rightarrow> nat \<Rightarrow> pstate \<Rightarrow> view json pres" where
  "parse_value ctx n st =
     bindp (skip_whitespace ctx st) (\<lambda>_ st. at_cursor st (\<lambda>c.
       if c = 0x7B then parse_object_inplace ctx n st
       else if c = 0x5B then parse_array_inplace ctx n st
       else if c = 0 \<and> c_end ctx \<le> st_curr st then pfail ctx UnexpectedEndOfInput (st_curr st) st
       else parse_scalar ctx c st (pfail ctx UnexpectedValueCharacter (st_curr st) st)))"

definition unless_error :: "pstate \<Rightarrow> 'a pres \<Rightarrow> 'a pres" where
  "unless_error st r = (case st_err st of Some e \<Rightarrow> PFail e | None \<Rightarrow> r)"

definition parse_kernel :: "pctx \<Rightarrow> pstate \<Rightarrow> view json pres" where
  "parse_kernel ctx st =
     (if \<not> c_padded ctx then pfail_context ParserRequiresPadding [] st
      else
        let st1 = (if c_strip_bom ctx then skip_leading_bom ctx st else st) in
        bindp (parse_value ctx (4 * (c_end ctx - st_curr st1) + 4) st1) (\<lambda>v st.
          unless_error st (bindp (skip_whitespace ctx st) (\<lambda>_ st.
            unless_error st
              (if st_curr st < c_end ctx then pfail ctx ExtraCharactersAfterValue (st_curr st) st
               else POk v st)))))"

section \<open>Entry points\<close>

record config =
  cfg_strip_bom :: bool
  cfg_strict_utf8 :: bool
  cfg_json5 :: bool
  cfg_max_depth :: nat
  cfg_strict_dup :: bool
  cfg_arena_block_size :: nat

text \<open>What the platform supplies: SIMD width and \<^verbatim>\<open>std::hash\<close>.\<close>

record platform =
  pl_lanes :: nat
  pl_hash :: "bytes \<Rightarrow> nat"

definition parser_ctx :: "config \<Rightarrow> platform \<Rightarrow> nat \<Rightarrow> nat \<Rightarrow> bool \<Rightarrow> pctx" where
  "parser_ctx cfg pl b e strip =
     \<lparr>c_begin = b, c_end = e, c_padded = True, c_strip_bom = strip,
      c_strict_utf8 = cfg_strict_utf8 cfg, c_json5 = cfg_json5 cfg, c_max_depth = cfg_max_depth cfg,
      c_strict_dup = cfg_strict_dup cfg, c_lanes = pl_lanes pl, c_hash = pl_hash pl\<rparr>"

definition start_state :: "bytes \<Rightarrow> nat \<Rightarrow> pstate" where
  "start_state buf b = \<lparr>st_buf = buf, st_curr = b, st_depth = 0, st_err = None\<rparr>"

record document =
  doc_root :: "view json"
  doc_buffer :: bytes
  doc_is_view :: bool
  doc_block :: nat

text \<open>The tree a reader of the document sees: the views resolved in its buffer.\<close>

definition doc_json :: "document \<Rightarrow> jvalue" where
  "doc_json d = map_json (view_bytes (doc_buffer d)) (doc_root d)"

text \<open>
  \<^verbatim>\<open>Result<Document, ParseError>\<close>; \<^verbatim>\<open>Undefined\<close> stands for a read outside the buffer or
  an endless recursion and is shown unreachable.
\<close>

datatype 'a entry = Ok 'a | Err error | Undefined

definition kBlock :: nat where "kBlock = 4096"
definition kMaxArenaBlock :: nat where "kMaxArenaBlock = 2 ^ 34"
definition arena_block_for :: "config \<Rightarrow> nat \<Rightarrow> nat" where
  "arena_block_for cfg n =
     (if 0 < cfg_arena_block_size cfg then cfg_arena_block_size cfg
      else if n \<le> kBlock then kBlock
      else if kMaxArenaBlock div 3 < n then kMaxArenaBlock
      else n * 3)"

definition padded_fits :: "nat \<Rightarrow> bool" where
  "padded_fits n \<longleftrightarrow> n \<le> SIZE_MAX - kPaddingWidth"

definition entry_error :: "error_code \<Rightarrow> bytes \<Rightarrow> 'a entry" where
  "entry_error c d = Err (context_error c CatParse d)"

definition make_document :: "bool \<Rightarrow> nat \<Rightarrow> view json pres \<Rightarrow> document entry" where
  "make_document is_view block r =
     (case r of
        POk v st \<Rightarrow> Ok \<lparr>doc_root = v, doc_buffer = st_buf st, doc_is_view = is_view, doc_block = block\<rparr>
      | PFail e \<Rightarrow> Err e
      | _ \<Rightarrow> Undefined)"

definition run_parser :: "config \<Rightarrow> platform \<Rightarrow> bool \<Rightarrow> bytes \<Rightarrow> nat \<Rightarrow> document entry" where
  "run_parser cfg pl is_view buf sz =
     make_document is_view (arena_block_for cfg sz)
       (parse_kernel (parser_ctx cfg pl 0 sz (cfg_strip_bom cfg)) (start_state buf 0))"

definition parse_in_situ_impl :: "config \<Rightarrow> platform \<Rightarrow> bytes \<Rightarrow> document entry" where
  "parse_in_situ_impl cfg pl buf =
     (if length buf < kPaddingWidth then entry_error BufferTooSmall []
      else
        let sz = length buf - kPaddingWidth in
        if \<exists>c \<in> set (drop sz buf). c \<noteq> 0 then entry_error InSituPaddingNotNul []
        else run_parser cfg pl False buf sz)"

definition pad :: "bytes \<Rightarrow> bytes" where
  "pad input = input @ replicate kPaddingWidth 0"

definition parse_copy_impl :: "config \<Rightarrow> platform \<Rightarrow> bytes \<Rightarrow> document entry" where
  "parse_copy_impl cfg pl input =
     (if \<not> padded_fits (length input) then entry_error InputTooLarge []
      else run_parser cfg pl False (pad input) (length input))"

text \<open>Caller-owned memory: the buffer reaches at least as far as the caller promised.\<close>

definition parse_view_impl :: "config \<Rightarrow> platform \<Rightarrow> bytes \<Rightarrow> nat \<Rightarrow> document entry" where
  "parse_view_impl cfg pl mem content_len = run_parser cfg pl True mem content_len"

text \<open>
  The file system's answers for \<^verbatim>\<open>parse_file_impl\<close>; \<^verbatim>\<open>fs_read\<close> is \<^term>\<open>None\<close> when the
  read fails.
\<close>

record file_state =
  fs_is_directory :: bool
  fs_is_open :: bool
  fs_tellg :: int
  fs_read :: "bytes option"

definition parse_file_impl ::
  "config \<Rightarrow> platform \<Rightarrow> nat \<Rightarrow> bytes \<Rightarrow> file_state \<Rightarrow> document entry" where
  "parse_file_impl cfg pl max_size path fs =
     (if fs_is_directory fs then entry_error FileOpenFailed path
      else if \<not> fs_is_open fs then entry_error FileOpenFailed path
      else if fs_tellg fs < 0 then entry_error FileSizeFailed path
      else if \<not> padded_fits (nat (fs_tellg fs)) then entry_error InputTooLarge []
      else if max_size < kPaddingWidth \<or> max_size - kPaddingWidth < nat (fs_tellg fs)
        then entry_error FileSizeFailed path
      else case fs_read fs of
        None \<Rightarrow> entry_error FileReadFailed path
      | Some content \<Rightarrow> parse_in_situ_impl cfg pl (pad content))"

text \<open>One \<^verbatim>\<open>in.read\<close> of the stream loop: bytes extracted, then the state bits.\<close>

record read_event =
  re_bytes :: bytes
  re_bad :: bool
  re_fail :: bool

fun stream_loop :: "bytes \<Rightarrow> read_event list \<Rightarrow> bytes option" where
  "stream_loop buf [] = Some buf"
| "stream_loop buf (ev # evs) =
     (let buf' = buf @ re_bytes ev in
      if re_bytes ev = [] then Some buf'
      else if re_bad ev then None
      else if re_fail ev then Some buf'
      else stream_loop buf' evs)"

definition parse_from_istream_impl ::
  "config \<Rightarrow> platform \<Rightarrow> bool \<Rightarrow> read_event list \<Rightarrow> document entry" where
  "parse_from_istream_impl cfg pl bad evs =
     (if bad then entry_error StreamReadFailed []
      else case stream_loop [] evs of
        None \<Rightarrow> entry_error StreamReadFailed []
      | Some buf \<Rightarrow>
          if \<not> padded_fits (length buf) then entry_error InputTooLarge []
          else parse_in_situ_impl cfg pl (pad buf))"

section \<open>Newline-delimited input\<close>

function blank_json5 :: "bytes \<Rightarrow> bool" where
  "blank_json5 p =
     (if p = [] then True
      else if hd p < 0x80 then is_json5_whitespace_ascii (hd p) \<and> blank_json5 (tl p)
      else case decode_utf8 p of
        None \<Rightarrow> False
      | Some (cp, n) \<Rightarrow> is_json5_whitespace cp \<and> blank_json5 (drop n p))"
  by pat_completeness auto
termination
  by (relation "measure length") (auto dest!: decode_utf8_len)

declare blank_json5.simps [simp del]

definition blank_line :: "config \<Rightarrow> bytes \<Rightarrow> bool" where
  "blank_line cfg line =
     (if cfg_json5 cfg then blank_json5 line else list_all is_whitespace line)"

text \<open>
  The line scan: from offset \<open>i\<close> of the content of length \<open>n\<close>; each line's parser runs on
  the shared buffer, so it sees the writes of the lines before it.
\<close>

definition line_length :: "bytes \<Rightarrow> nat" where
  "line_length p = length (takeWhile (\<lambda>c. c \<noteq> 0x0A) p)"

definition strip_cr :: "bytes \<Rightarrow> nat" where
  "strip_cr line = (if line \<noteq> [] \<and> last line = 0x0D then length line - 1 else length line)"

function jsonl_loop ::
  "config \<Rightarrow> platform \<Rightarrow> nat \<Rightarrow> bytes \<Rightarrow> view json list \<Rightarrow> nat \<Rightarrow> view json pres" where
  "jsonl_loop cfg pl n buf arr i =
     (if i < n then
        (let nl = i + line_length (slice buf i (n - i));
             len = strip_cr (slice buf i (nl - i));
             next_i = (if nl < n then nl + 1 else n)
         in if blank_line cfg (slice buf i len) then jsonl_loop cfg pl n buf arr next_i
            else bindp (parse_kernel (parser_ctx cfg pl i (i + len) False) (start_state buf i))
              (\<lambda>v st. jsonl_loop cfg pl n (st_buf st) (arr @ [v]) next_i))
      else POk (JArr arr) (start_state buf i))"
  by pat_completeness auto
termination
  by (relation "measure (\<lambda>(cfg, pl, n, buf, arr, i). n - i)") (auto simp: Let_def)

declare jsonl_loop.simps [simp del]

definition parse_jsonl_impl :: "config \<Rightarrow> platform \<Rightarrow> bytes \<Rightarrow> document entry" where
  "parse_jsonl_impl cfg pl input =
     (if \<not> padded_fits (length input) then entry_error InputTooLarge []
      else
        let i = (if cfg_strip_bom cfg \<and> starts_with_utf8_bom input then 3 else 0) in
        make_document False (arena_block_for cfg (length input))
          (jsonl_loop cfg pl (length input) (pad input) [] i))"

end
