(* ===== verification/JsonText.thy ===== *)
theory JsonText
  imports StringProofs Parser
begin

text \<open>
  RFC 8259 as an inductive definition: which byte strings are JSON texts and what they
  mean.  The relation is indexed by the strict UTF-8 and strict duplicate-key settings and
  by a bound on the nesting depth.  It is the abstract specification that the parser is
  proved to implement.
\<close>

section \<open>Grammar\<close>

definition ws :: "bytes \<Rightarrow> bool" where
  "ws w \<longleftrightarrow> (\<forall>c \<in> set w. is_whitespace c)"

record rules =
  r_strict_utf8 :: bool
  r_strict_dup :: bool

definition quoted :: "rules \<Rightarrow> bytes \<Rightarrow> bytes \<Rightarrow> bool" where
  "quoted R t s \<longleftrightarrow> (\<exists>raw. t = 0x22 # raw @ [0x22] \<and> string_text raw s \<and>
     (r_strict_utf8 R \<longrightarrow> utf8_valid raw))"

definition member_ok :: "rules \<Rightarrow> jentries \<Rightarrow> bytes \<Rightarrow> bool" where
  "member_ok R acc k \<longleftrightarrow> (r_strict_dup R \<longrightarrow> k \<notin> fst ` set acc)"

inductive value_text :: "rules \<Rightarrow> nat \<Rightarrow> bytes \<Rightarrow> jvalue \<Rightarrow> bool"
  and elements_text :: "rules \<Rightarrow> nat \<Rightarrow> bytes \<Rightarrow> jvalue list \<Rightarrow> bool"
  and members_text :: "rules \<Rightarrow> nat \<Rightarrow> jentries \<Rightarrow> bytes \<Rightarrow> jentries \<Rightarrow> bool"
  for R :: rules
where
  null: "value_text R d (lit ''null'') JNull"
| true: "value_text R d (lit ''true'') (JBool True)"
| false: "value_text R d (lit ''false'') (JBool False)"
| number: "number_parts neg ip fr ex t \<Longrightarrow> token_value neg ip fr ex = Some v \<Longrightarrow> value_text R d t v"
| string: "quoted R t s \<Longrightarrow> value_text R d t (JStr s)"
| empty_array: "ws w \<Longrightarrow> value_text R (Suc d) (0x5B # w @ [0x5D]) (JArr [])"
| array: "elements_text R d t vs \<Longrightarrow> value_text R (Suc d) (0x5B # t @ [0x5D]) (JArr vs)"
| empty_object: "ws w \<Longrightarrow> value_text R (Suc d) (0x7B # w @ [0x7D]) (JObj [])"
| object: "members_text R d [] t es \<Longrightarrow> value_text R (Suc d) (0x7B # t @ [0x7D]) (JObj es)"
| last_element: "ws w1 \<Longrightarrow> value_text R d t v \<Longrightarrow> ws w2 \<Longrightarrow> elements_text R d (w1 @ t @ w2) [v]"
| more_elements: "ws w1 \<Longrightarrow> value_text R d t v \<Longrightarrow> ws w2 \<Longrightarrow> elements_text R d r vs \<Longrightarrow>
    elements_text R d (w1 @ t @ w2 @ 0x2C # r) (v # vs)"
| last_member: "ws w1 \<Longrightarrow> quoted R kt k \<Longrightarrow> member_ok R acc k \<Longrightarrow> ws w2 \<Longrightarrow> ws w3 \<Longrightarrow>
    value_text R d t v \<Longrightarrow> ws w4 \<Longrightarrow>
    members_text R d acc (w1 @ kt @ w2 @ 0x3A # w3 @ t @ w4) (obj_put acc k v)"
| more_members: "ws w1 \<Longrightarrow> quoted R kt k \<Longrightarrow> member_ok R acc k \<Longrightarrow> ws w2 \<Longrightarrow> ws w3 \<Longrightarrow>
    value_text R d t v \<Longrightarrow> ws w4 \<Longrightarrow> members_text R d (obj_put acc k v) r es \<Longrightarrow>
    members_text R d acc (w1 @ kt @ w2 @ 0x3A # w3 @ t @ w4 @ 0x2C # r) es"

text \<open>A whole document: one value, white space around it.\<close>

definition json_text :: "rules \<Rightarrow> nat \<Rightarrow> bytes \<Rightarrow> jvalue \<Rightarrow> bool" where
  "json_text R d t v \<longleftrightarrow> (\<exists>w1 u w2. t = w1 @ u @ w2 \<and> ws w1 \<and> ws w2 \<and> value_text R d u v)"

section \<open>First bytes\<close>

lemma number_parts_hd:
  assumes "number_parts neg ip fr ex t"
  shows "\<exists>c r. t = c # r \<and> number_start c"
proof -
  obtain d ds where "ip = d # ds" "is_dec_digit d"
    using assms digits1_Cons [of ip] by (auto simp: number_parts_def int_part_def)
  then show ?thesis using assms by (auto simp: number_parts_def number_start_def)
qed

lemma start_not_ws:
  "number_start c \<Longrightarrow> \<not> is_whitespace c" "literal_start c \<Longrightarrow> \<not> is_whitespace c"
  by (auto simp: number_start_def literal_start_def is_whitespace_def is_dec_digit_def)

lemma value_text_hd:
  "value_text R d t v \<Longrightarrow> \<exists>c r. t = c # r \<and> \<not> is_whitespace c"
  by (erule value_text.cases)
    (auto simp: lit_def quoted_def is_whitespace_def dest!: number_parts_hd start_not_ws(1))

end
