(* ===== verification/ScalarProofs.thy ===== *)
theory ScalarProofs
  imports JsonText
begin

unbundle bit_operations_syntax

text \<open>
  One parse step as a relation between states, and its proof for the scalar values:
  literals, numbers and strings agree with the grammar in both directions and never read
  outside the buffer.
\<close>

section \<open>Steps\<close>

definition rules_of :: "pctx \<Rightarrow> rules" where
  "rules_of ctx = \<lparr>r_strict_utf8 = c_strict_utf8 ctx, r_strict_dup = c_strict_dup ctx\<rparr>"

lemma rules_of_sel [simp]:
  "r_strict_utf8 (rules_of ctx) = c_strict_utf8 ctx" "r_strict_dup (rules_of ctx) = c_strict_dup ctx"
  by (simp_all add: rules_of_def)

text \<open>RFC mode on a buffer whose content is shorter than 4 GiB.\<close>

definition rfc_ok :: "pctx \<Rightarrow> bool" where
  "rfc_ok ctx \<longleftrightarrow> \<not> c_json5 ctx \<and> lanes_ok ctx \<and> c_end ctx < 2 ^ 32"

definition follow :: "bytes \<Rightarrow> bool" where
  "follow r \<longleftrightarrow> r = [] \<or> is_whitespace (hd r) \<or> hd r = 0x2C \<or> hd r = 0x5D \<or> hd r = 0x7D"

definition views_in :: "nat \<Rightarrow> nat \<Rightarrow> view json \<Rightarrow> bool" where
  "views_in lo hi v \<longleftrightarrow> (\<forall>x \<in> set_json v. lo \<le> fst x \<and> fst x + snd x \<le> hi)"

definition resolve :: "bytes \<Rightarrow> view json \<Rightarrow> jvalue" where
  "resolve buf = map_json (view_bytes buf)"

text \<open>The state moved \<open>n\<close> bytes and wrote only inside them.\<close>

definition moves :: "pstate \<Rightarrow> nat \<Rightarrow> pstate \<Rightarrow> bool" where
  "moves st n st' \<longleftrightarrow>
     (\<exists>buf'. st' = st\<lparr>st_buf := buf', st_curr := st_curr st + n\<rparr> \<and>
        buf_frame (st_buf st) buf' (st_curr st) (st_curr st + n))"

text \<open>In addition the tree \<open>v'\<close> over views from \<open>lo\<close> on resolves to \<open>v\<close>.\<close>

definition parsed :: "nat \<Rightarrow> pstate \<Rightarrow> nat \<Rightarrow> view json \<Rightarrow> jvalue \<Rightarrow> pstate \<Rightarrow> bool" where
  "parsed lo st n v' v st' \<longleftrightarrow>
     moves st n st' \<and> resolve (st_buf st') v' = v \<and> views_in lo (st_curr st') v'"

lemma moves_sel:
  assumes "moves st n st'"
  shows "st_curr st' = st_curr st + n" "st_depth st' = st_depth st" "st_err st' = st_err st"
    "buf_frame (st_buf st) (st_buf st') (st_curr st) (st_curr st')"
  using assms by (auto simp: moves_def)

lemma moves_advance [simp]: "moves st n (advance n st)"
  unfolding moves_def by (rule exI [of _ "st_buf st"]) (simp add: advance_def)

lemma moves_trans:
  assumes "moves a m b" "moves b n c"
  shows "moves a (m + n) c"
proof -
  obtain buf1 where 1: "b = a\<lparr>st_buf := buf1, st_curr := st_curr a + m\<rparr>"
      "buf_frame (st_buf a) buf1 (st_curr a) (st_curr a + m)"
    using assms(1) by (auto simp: moves_def)
  obtain buf2 where 2: "c = b\<lparr>st_buf := buf2, st_curr := st_curr b + n\<rparr>"
      "buf_frame (st_buf b) buf2 (st_curr b) (st_curr b + n)"
    using assms(2) by (auto simp: moves_def)
  have "buf_frame (st_buf a) buf2 (st_curr a) (st_curr a + (m + n))"
    using 2(2) by (intro buf_frame_trans [OF 1(2)]) (auto simp: 1(1))
  then show ?thesis unfolding moves_def by (intro exI [of _ buf2]) (simp add: 1(1) 2(1) add.assoc)
qed

lemma moves_then_advance: "moves a m b \<Longrightarrow> moves a (m + n) (advance n b)"
  by (rule moves_trans [OF _ moves_advance])

lemma advance_then_moves: "moves (advance m a) n b \<Longrightarrow> moves a (m + n) b"
  by (rule moves_trans [OF moves_advance])

lemma moves_inside: "moves (enter st) n st' \<Longrightarrow> moves st n (leave st')"
  by (auto simp: moves_def enter_def leave_def)

lemma moves_ahead:
  assumes "ahead ctx st (t @ r)" "moves st (length t) st'"
  shows "ahead ctx st' r"
proof -
  have a: "ahead ctx (advance (length t) st) r" using ahead_advance [OF assms(1), of "length t"] by simp
  note m = moves_sel [OF assms(2)]
  have d: "drop (st_curr st') (st_buf st') = drop (st_curr st') (st_buf st)"
    and len: "length (st_buf st') = length (st_buf st)" using m(4) by (simp_all add: buf_frame_def)
  have e: "st_curr st' \<le> c_end ctx" using a m(1) by (simp add: ahead_def)
  then have "drop (c_end ctx) (st_buf st') = drop (c_end ctx) (st_buf st)"
    using d by (metis drop_drop le_add_diff_inverse2)
  then have "pad_ok ctx (st_buf st')" using a len by (simp add: ahead_def pad_ok_def)
  moreover have "unread ctx st' = unread ctx (advance (length t) st)"
    using d m(1) by (simp add: unread_def slice_def)
  ultimately show ?thesis using a e by (simp add: ahead_def)
qed

text \<open>Views that end before the cursor keep their content.\<close>

lemma view_bytes_moves:
  assumes "moves st n st'" "fst k + snd k \<le> st_curr st"
  shows "view_bytes (st_buf st') k = view_bytes (st_buf st) k"
  unfolding view_bytes_def
  by (rule slice_take_eq [where m = "st_curr st"])
    (use moves_sel(4) [OF assms(1)] assms(2) in \<open>auto simp: buf_frame_def\<close>)

lemma resolve_moves:
  assumes "moves st n st'" "views_in lo (st_curr st) v"
  shows "resolve (st_buf st') v = resolve (st_buf st) v"
  unfolding resolve_def
  by (rule json.map_cong0) (use view_bytes_moves [OF assms(1)] assms(2) in \<open>auto simp: views_in_def\<close>)

lemma views_in_mono: "views_in lo hi v \<Longrightarrow> lo' \<le> lo \<Longrightarrow> hi \<le> hi' \<Longrightarrow> views_in lo' hi' v"
  by (force simp: views_in_def)

lemma parsed_same:
  "set_json v' = {} \<Longrightarrow> resolve (st_buf st) v' = v \<Longrightarrow> parsed lo st n v' v (advance n st)"
  by (simp add: parsed_def views_in_def)

lemma ahead_skip: "ahead ctx st (w @ r) \<Longrightarrow> ahead ctx (advance (length w) st) r"
  using ahead_advance [of ctx st "w @ r" "length w"] by simp

lemma skip_ws:
  assumes "rfc_ok ctx" "ahead ctx st (w @ r)" "ws w" "r = [] \<or> \<not> is_whitespace (hd r)"
  shows "skip_whitespace ctx st = POk () (advance (length w) st)"
  using skip_whitespace_rfc [of ctx st "w @ r"] ws_run_append [of w r] assms
  by (simp add: rfc_ok_def ws_def)

section \<open>Literals\<close>

lemma load_ahead:
  assumes "ahead ctx st u" "n \<le> 128"
  shows "load (st_buf st) (st_curr st) n = Some (take n (u @ replicate 128 0))"
proof -
  obtain tl where d: "drop (st_curr st) (st_buf st) = u @ replicate 128 0 @ tl"
    using assms(1) by (rule aheadE)
  have "length (st_buf st) - st_curr st = length u + 128 + length tl"
    using arg_cong [OF d, of length] by simp
  then have "st_curr st + n \<le> length (st_buf st)" using assms(2) by linarith
  moreover have "take n (u @ replicate 128 0 @ tl) = take n (u @ replicate 128 0)"
    using assms(2) by (simp add: take_append)
  ultimately show ?thesis using d by (simp add: load_def slice_def)
qed

lemma and_ff: "(x :: byte) AND 0xFF = x"
proof -
  have ff: "(0xFF :: byte) = - 1" by simp
  show ?thesis unfolding ff by (rule and.right_neutral)
qed

lemma lit_facts:
  "length (lit ''true'') = 4" "length (lit ''null'') = 4" "length (lit ''false'') = 5"
  "\<forall>b \<in> set (lit ''true''). b \<noteq> 0" "\<forall>b \<in> set (lit ''null''). b \<noteq> 0"
  "\<forall>b \<in> set (lit ''false''). b \<noteq> 0" "lit ''true'' \<noteq> lit ''null''"
  by (simp_all add: lit_def)

lemma false_mask:
  assumes "length xs = 8"
  shows "map2 (AND) xs kFalseMask = kFalseMagic \<longleftrightarrow> take 5 xs = lit ''false''"
proof -
  obtain a b c d e f g h where "xs = [a, b, c, d, e, f, g, h]"
    using assms by (auto simp: length_Suc_conv numeral_eq_Suc)
  then show ?thesis
    by (simp add: kFalseMask_def kFalseMagic_def lit_def and_ff)
qed

lemma literal_tail_follow:
  assumes "rfc_ok ctx" "ahead ctx st (t @ r)" "follow r"
  shows "literal_tail ctx (length t) v st = POk v (advance (length t) st)"
proof -
  have "valid_after_literal (if r = [] then 0 else hd r)"
    using assms(3) by (auto simp: follow_def valid_after_literal_def is_whitespace_def)
  then show ?thesis
    using assms(1) by (simp add: literal_tail_def Let_def at_cursor_ahead [OF ahead_skip [OF assms(2)]])
qed

lemma parse_literal_complete:
  assumes "rfc_ok ctx" "ahead ctx st (t @ r)" "follow r"
    and "t = lit ''true'' \<and> v = JBool True \<or> t = lit ''null'' \<and> v = JNull \<or> t = lit ''false'' \<and> v = JBool False"
  shows "parse_literal ctx st = POk v (advance (length t) st)"
proof -
  let ?p = "t @ r @ replicate 128 0"
  have l4: "load (st_buf st) (st_curr st) 4 = Some (take 4 ?p)"
    and l8: "load (st_buf st) (st_curr st) 8 = Some (take 8 ?p)"
    using load_ahead [OF assms(2)] by simp_all
  have len: "length (take 8 ?p) = 8" by simp
  note tail = literal_tail_follow [OF assms(1-3)]
  from assms(4) show ?thesis
  proof (elim disjE conjE)
    assume "t = lit ''true''" "v = JBool True"
    then show ?thesis using l4 tail [of v] by (simp add: parse_literal_def kTrueMagic_def lit_facts)
  next
    assume "t = lit ''null''" "v = JNull"
    then show ?thesis
      using l4 tail [of v] by (simp add: parse_literal_def kTrueMagic_def kNullMagic_def lit_facts lit_facts(7) [symmetric])
  next
    assume f: "t = lit ''false''" "v = JBool False"
    have "take 5 (take 8 ?p) = lit ''false''" by (simp add: f lit_def)
    then have "map2 (AND) (take 8 ?p) kFalseMask = kFalseMagic" using false_mask [OF len] by blast
    moreover have "take 4 ?p = lit ''fals''" by (simp add: f lit_def)
    moreover have "lit ''fals'' \<noteq> lit ''true''" "lit ''fals'' \<noteq> lit ''null''" by (simp_all add: lit_def)
    moreover have "literal_tail ctx 5 v st = POk v (advance 5 st)"
      using tail [of v] unfolding f(1) lit_facts .
    ultimately show ?thesis
      using l4 l8 by (simp only: parse_literal_def kTrueMagic_def kNullMagic_def option.case if_False if_True
          f lit_facts simp_thms)
  qed
qed

lemma prefix_of_padded:
  assumes "take n (u @ replicate 128 0) = t" "length t = n" "\<forall>b \<in> set t. b \<noteq> (0 :: byte)"
  shows "\<exists>r. u = t @ r"
proof -
  have "t @ drop (length t) (u @ replicate 128 0) = u @ replicate (Suc 127) 0 @ []"
    using assms(1,2) append_take_drop_id [of "length t" "u @ replicate 128 0"] by simp
  then show ?thesis using zero_free_prefix assms(3) by blast
qed

lemma literal_tail_POk: "literal_tail ctx n v st = POk x st' \<Longrightarrow> x = v \<and> st' = advance n st"
  by (auto simp: literal_tail_def Let_def at_cursor_def pfail_def split: if_splits option.splits)

lemma parse_literal_sound:
  assumes "ahead ctx st u" "parse_literal ctx st = POk v st'"
  shows "\<exists>t r. u = t @ r \<and> st' = advance (length t) st \<and>
    (t = lit ''true'' \<and> v = JBool True \<or> t = lit ''null'' \<and> v = JNull \<or> t = lit ''false'' \<and> v = JBool False)"
proof -
  let ?p = "u @ replicate 128 0"
  have l4: "load (st_buf st) (st_curr st) 4 = Some (take 4 ?p)"
    and l8: "load (st_buf st) (st_curr st) 8 = Some (take 8 ?p)"
    using load_ahead [OF assms(1)] by simp_all
  consider "take 4 ?p = lit ''true''" "literal_tail ctx 4 (JBool True) st = POk v st'"
    | "take 4 ?p = lit ''null''" "literal_tail ctx 4 JNull st = POk v st'"
    | "map2 (AND) (take 8 ?p) kFalseMask = kFalseMagic" "literal_tail ctx 5 (JBool False) st = POk v st'"
    using assms(2) l4 l8
    by (auto simp: parse_literal_def kTrueMagic_def kNullMagic_def pfail_def split: if_splits)
  then show ?thesis
  proof cases
    case 1
    then obtain r where "u = lit ''true'' @ r"
      using prefix_of_padded lit_facts by blast
    then show ?thesis using literal_tail_POk [OF 1(2)]
      by (intro exI [of _ "lit ''true''"] exI [of _ r]) (simp add: lit_def)
  next
    case 2
    then obtain r where "u = lit ''null'' @ r"
      using prefix_of_padded lit_facts by blast
    then show ?thesis using literal_tail_POk [OF 2(2)]
      by (intro exI [of _ "lit ''null''"] exI [of _ r]) (simp add: lit_def)
  next
    case 3
    have "length (take 8 ?p) = 8" by simp
    from false_mask [OF this] 3(1) have "take 5 (take 8 ?p) = lit ''false''" by blast
    then have "take 5 ?p = lit ''false''" unfolding take_take by simp
    then obtain r where "u = lit ''false'' @ r"
      using prefix_of_padded lit_facts by blast
    then show ?thesis using literal_tail_POk [OF 3(2)]
      by (intro exI [of _ "lit ''false''"] exI [of _ r]) (simp add: lit_def)
  qed
qed

lemma parse_literal_total:
  assumes "ahead ctx st u"
  shows "parse_literal ctx st \<noteq> POob \<and> parse_literal ctx st \<noteq> PFuel"
proof -
  let ?p = "u @ replicate 128 0"
  have l: "load (st_buf st) (st_curr st) 4 = Some (take 4 ?p)"
      "load (st_buf st) (st_curr st) 8 = Some (take 8 ?p)"
    using load_ahead [OF assms] by simp_all
  then have "st_curr st + 8 \<le> length (st_buf st)" by (simp add: load_def split: if_splits)
  then have "literal_tail ctx n v st \<noteq> POob \<and> literal_tail ctx n v st \<noteq> PFuel" if "n \<le> 5" for n v
    using that by (simp add: literal_tail_def Let_def at_cursor_def rd_def pfail_def)
  then show ?thesis using l by (simp add: parse_literal_def pfail_def)
qed

section \<open>Numbers\<close>

lemma follow_stop: "follow r \<Longrightarrow> num_stop r"
  by (auto simp: follow_def num_stop_def is_whitespace_def is_dec_digit_def)

lemma ahead_short: "rfc_ok ctx \<Longrightarrow> ahead ctx st u \<Longrightarrow> length u < 2 ^ 32"
  using ahead_length [of ctx st u] by (simp add: rfc_ok_def)

lemma token_value_views: "token_value neg ip fr ex = Some v \<Longrightarrow> set_json v = {}"
  by (auto simp: token_value_def split: if_splits)

lemma token_value_resolve:
  "resolve buf v = v' \<and> token_value neg ip fr ex = Some v \<Longrightarrow> token_value neg ip fr ex = Some v'"
  by (auto simp: token_value_def resolve_def split: if_splits)

lemma token_value_any:
  "token_value neg ip fr ex = Some (v' :: jvalue) \<Longrightarrow>
   \<exists>v :: view json. token_value neg ip fr ex = Some v \<and> resolve buf v = v'"
  by (auto simp: token_value_def resolve_def split: if_splits)

lemma parse_number_complete:
  assumes "rfc_ok ctx" "ahead ctx st (t @ r)" "follow r" "number_parts neg ip fr ex t"
    "token_value neg ip fr ex = Some v"
  shows "\<exists>v' st'. parse_number ctx st = POk v' st' \<and> parsed (st_curr st) st (length t) v' v st'"
proof -
  obtain v' :: "view json" where v': "token_value neg ip fr ex = Some v'" "resolve (st_buf st) v' = v"
    using token_value_any [OF assms(5)] by blast
  have "length t < 2 ^ 32" using ahead_short [OF assms(1,2)] by simp
  from number_rfc_complete [OF assms(4) follow_stop [OF assms(3)] this, where 's = view] v'(1)
  have "parse_number ctx st = POk v' (advance (length t) st)"
    using assms(1,2) by (simp add: parse_number_def rfc_ok_def ahead_def)
  then show ?thesis
    using parsed_same [of v' st v "st_curr st" "length t"] token_value_views [OF v'(1)] v'(2) by blast
qed

lemma parse_number_sound:
  assumes "rfc_ok ctx" "ahead ctx st u" "parse_number ctx st = POk v' st'"
  shows "\<exists>t r v. u = t @ r \<and> value_text R d t v \<and> parsed (st_curr st) st (length t) v' v st'"
proof -
  obtain n where n: "number_rfc u = Inr (n, v')" "st' = advance n st"
    using assms by (auto simp: parse_number_def rfc_ok_def ahead_def pfail_def split: sum.splits prod.splits)
  have "n \<le> length u"
    using n(1) scan_number_sound [of u n] by (auto simp: number_rfc_def split: prod.splits if_splits sum.splits)
  moreover from this have "n < 2 ^ 32" using ahead_short [OF assms(1,2)] by simp
  from number_rfc_sound [OF n(1) this] obtain neg ip fr ex where
    p: "number_parts neg ip fr ex (take n u)" "token_value neg ip fr ex = Some v'" by blast
  have "value_text R d (take n u) (resolve (st_buf st) v')"
    by (rule value_text_elements_text_members_text.number [OF p(1) token_value_resolve]) (use p(2) in blast)
  moreover have "parsed (st_curr st) st n v' (resolve (st_buf st) v') st'"
    unfolding n(2) by (rule parsed_same [OF token_value_views [OF p(2)] refl])
  ultimately show ?thesis
    by (intro exI [of _ "take n u"] exI [of _ "drop n u"]) (auto simp: min_absorb2)
qed

lemma parse_number_total: "parse_number ctx st \<noteq> POob \<and> parse_number ctx st \<noteq> PFuel"
  by (auto simp: parse_number_def pfail_def split: sum.splits)

section \<open>Strings\<close>

lemma parse_string_dispatch:
  assumes "rfc_ok ctx" "ahead ctx st (0x22 # u)"
  shows "parse_string ctx st = parse_string_rfc ctx (advance 1 st)" "ahead ctx (advance 1 st) u"
proof -
  have "st_curr st < c_end ctx" using ahead_length [OF assms(2)] by simp
  then show "parse_string ctx st = parse_string_rfc ctx (advance 1 st)"
    using assms(1) by (simp add: parse_string_def at_cursor_ahead [OF assms(2)] rfc_ok_def)
  show "ahead ctx (advance 1 st) u" using ahead_skip [of ctx st "[0x22]" u] assms(2) by simp
qed

text \<open>A decoded string with its two quotes, as a step from the opening quote.\<close>

definition string_step :: "pstate \<Rightarrow> nat \<Rightarrow> view \<Rightarrow> bytes \<Rightarrow> pstate \<Rightarrow> bool" where
  "string_step st n k s st' \<longleftrightarrow>
     moves st n st' \<and> view_bytes (st_buf st') k = s \<and>
     st_curr st \<le> fst k \<and> fst k + snd k \<le> st_curr st'"

lemma decoded_string_step:
  assumes "decoded (advance 1 st) (st_curr st + 1) s m st'" "length s \<le> m"
  shows "string_step st (m + 2) (st_curr st + 1, length s) s (advance 1 st')"
proof -
  obtain buf' where b: "st' = (advance 1 st)\<lparr>st_buf := buf', st_curr := st_curr st + 1 + m\<rparr>"
      "buf_frame (st_buf st) buf' (st_curr st + 1) (st_curr st + 1 + m)" "slice buf' (st_curr st + 1) (length s) = s"
    using assms(1) by (auto simp: decoded_def)
  have "moves (advance 1 st) m st'"
    unfolding moves_def by (rule exI [of _ buf']) (use b in simp)
  then have "moves st (1 + m + 1) (advance 1 st')"
    by (intro moves_then_advance advance_then_moves)
  then show ?thesis
    using b assms(2) by (simp add: string_step_def view_bytes_def)
qed

lemma parse_string_complete:
  assumes "rfc_ok ctx" "ahead ctx st (t @ r)" "quoted (rules_of ctx) t s"
  shows "\<exists>k st'. parse_string ctx st = POk k st' \<and> string_step st (length t) k s st'"
proof -
  obtain raw where raw: "t = 0x22 # raw @ [0x22]" "string_text raw s" "c_strict_utf8 ctx \<longrightarrow> utf8_valid raw"
    using assms(3) by (auto simp: quoted_def)
  have a: "ahead ctx st (0x22 # raw @ 0x22 # r)" using assms(2) raw(1) by simp
  have lanes: "lanes_ok ctx" using assms(1) by (simp add: rfc_ok_def)
  obtain st' where "parse_string_rfc ctx (advance 1 st) = POk (st_curr st + 1, length s) (advance 1 st')"
      "decoded (advance 1 st) (st_curr st + 1) s (length raw) st'"
    using parse_string_rfc_complete [OF lanes parse_string_dispatch(2) [OF assms(1) a] raw(2,3)] by auto
  then show ?thesis
    using decoded_string_step [of st s "length raw" st'] string_text_length [OF raw(2)]
      parse_string_dispatch(1) [OF assms(1) a] raw(1) by auto
qed

lemma parse_string_sound:
  assumes "rfc_ok ctx" "ahead ctx st (0x22 # u)" "parse_string ctx st = POk k st'"
  shows "\<exists>t r s. 0x22 # u = t @ r \<and> quoted (rules_of ctx) t s \<and> string_step st (length t) k s st'"
proof -
  have lanes: "lanes_ok ctx" using assms(1) by (simp add: rfc_ok_def)
  have "parse_string_rfc ctx (advance 1 st) = POk k st'"
    using assms(3) parse_string_dispatch(1) [OF assms(1,2)] by simp
  from parse_string_rfc_sound [OF lanes parse_string_dispatch(2) [OF assms(1,2)] this]
  obtain raw s r where u: "u = raw @ 0x22 # r" "string_text raw s" "c_strict_utf8 ctx \<longrightarrow> utf8_valid raw"
    by blast
  let ?t = "0x22 # raw @ [0x22]"
  have q: "quoted (rules_of ctx) ?t s" using u(2,3) by (auto simp: quoted_def)
  have "ahead ctx st (?t @ r)" using assms(2) u(1) by simp
  from parse_string_complete [OF assms(1) this q] assms(3)
  have "string_step st (length ?t) k s st'" by auto
  then show ?thesis using u(1) q by (intro exI [of _ ?t] exI [of _ r] exI [of _ s]) simp
qed

lemma parse_string_total:
  assumes "rfc_ok ctx" "ahead ctx st u"
  shows "parse_string ctx st \<noteq> POob \<and> parse_string ctx st \<noteq> PFuel"
proof (cases "u \<noteq> [] \<and> hd u = 0x22")
  case True
  then have a: "ahead ctx st (0x22 # tl u)" using assms(2) by (metis list.collapse)
  have lanes: "lanes_ok ctx" using assms(1) by (simp add: rfc_ok_def)
  show ?thesis
    using parse_string_rfc_total [OF lanes parse_string_dispatch(2) [OF assms(1) a]]
      parse_string_dispatch(1) [OF assms(1) a] by simp
next
  case False
  then show ?thesis
    by (cases "c_end ctx \<le> st_curr st")
      (auto simp: parse_string_def at_cursor_ahead [OF assms(2)] pfail_def)
qed

end
