(* ===== verification/ParserProofs.thy ===== *)
theory ParserProofs
  imports ScalarProofs
begin

text \<open>
  The recursive parser implements the grammar: every JSON text is parsed to its value,
  every accepted input is a JSON text with that value, and no input makes the parser read
  outside the padded buffer or exhaust its fuel.
\<close>

section \<open>Dispatch\<close>

definition value_at :: "pctx \<Rightarrow> nat \<Rightarrow> byte \<Rightarrow> pstate \<Rightarrow> view json pres \<Rightarrow> view json pres" where
  "value_at ctx n c st dflt =
     (if c = 0x7B then parse_object_inplace ctx n st
      else if c = 0x5B then parse_array_inplace ctx n st
      else parse_scalar ctx c st dflt)"

definition depth_ok :: "pctx \<Rightarrow> nat \<Rightarrow> nat \<Rightarrow> bool" where
  "depth_ok ctx depth d \<longleftrightarrow> c_max_depth ctx = 0 \<or> depth + d \<le> c_max_depth ctx"

lemma depth_ok_Suc: "depth_ok ctx k (Suc d) \<Longrightarrow> depth_ok ctx (Suc k) d"
  by (simp add: depth_ok_def)

lemma depth_ok_exceeded: "depth_ok ctx (st_depth st) (Suc d) \<Longrightarrow> \<not> depth_exceeded ctx st"
  by (auto simp: depth_ok_def depth_exceeded_def)

lemma enter_simps [simp]:
  "st_curr (enter st) = st_curr st" "st_buf (enter st) = st_buf st" "st_depth (enter st) = Suc (st_depth st)"
  "st_err (enter st) = st_err st" "st_curr (leave st) = st_curr st" "st_buf (leave st) = st_buf st"
  "st_err (leave st) = st_err st" "leave (enter st) = st" "advance n (enter st) = enter (advance n st)"
  by (simp_all add: enter_def leave_def advance_def)

lemma ahead_enter [simp]: "ahead ctx (enter st) t = ahead ctx st t"
  by (simp add: ahead_def unread_def)

lemma parse_value_inplace_at:
  assumes "rfc_ok ctx" "ahead ctx st (w @ c # r)" "ws w" "\<not> is_whitespace c"
  shows "parse_value_inplace ctx (Suc n) st =
    value_at ctx n c (advance (length w) st)
      (pfail ctx UnexpectedCharacter (st_curr (advance (length w) st)) (advance (length w) st))"
  using skip_ws [OF assms(1-3)] assms(4)
  by (simp add: value_at_def at_cursor_ahead [OF ahead_skip [OF assms(2)]])

lemma follow_ws: "ws w \<Longrightarrow> c = 0x2C \<or> c = 0x5D \<or> c = 0x7D \<Longrightarrow> follow (w @ c # r)"
  by (cases w) (auto simp: follow_def ws_def)

lemma closer_not_ws:
  "\<not> is_whitespace 0x5D" "\<not> is_whitespace 0x7D" "\<not> is_whitespace 0x2C" "\<not> is_whitespace 0x3A"
  "\<not> is_whitespace 0x22" "\<not> is_whitespace 0x7B" "\<not> is_whitespace 0x5B"
  by (simp_all add: is_whitespace_def)

lemma skip_to:
  assumes "rfc_ok ctx" "ahead ctx st (w @ c # r)" "ws w" "\<not> is_whitespace c"
  shows "skip_whitespace ctx st = POk () (advance (length w) st)"
    "at_cursor (advance (length w) st) f = f c" "ahead ctx (advance (length w) st) (c # r)"
  using skip_ws [OF assms(1-3)] assms(4) at_cursor_ahead [OF ahead_skip [OF assms(2)], of f]
    ahead_skip [OF assms(2)] by simp_all

lemma closes_ahead: "ahead ctx st (c # r) \<Longrightarrow> closes ctx b st \<longleftrightarrow> b = c"
  using ahead_rd [of ctx st "c # r" 0] ahead_length [of ctx st "c # r"]
  by (auto simp: closes_def below_def)

lemma closes_ahead_Nil: "ahead ctx st [] \<Longrightarrow> \<not> closes ctx b st"
  using ahead_length [of ctx st "[]"] by (simp add: closes_def below_def)

lemma ahead_tl: "ahead ctx st (c # r) \<Longrightarrow> ahead ctx (advance 1 st) r"
  using ahead_skip [of ctx st "[c]" r] by simp

section \<open>Accumulators\<close>

lemma resolve_simps [simp]:
  "resolve buf (JArr xs) = JArr (map (resolve buf) xs)"
  "resolve buf (JObj es) = JObj (map (\<lambda>(k, v). (view_bytes buf k, resolve buf v)) es)"
  "resolve buf (JStr k) = JStr (view_bytes buf k)" "resolve buf JNull = JNull"
  "resolve buf (JBool b) = JBool b" "resolve buf (JInt i) = JInt i" "resolve buf (JFloat f) = JFloat f"
  by (simp_all add: resolve_def map_prod_def)

definition entries_of :: "bytes \<Rightarrow> (view \<times> view json) list \<Rightarrow> jentries" where
  "entries_of buf es = map (\<lambda>(k, v). (view_bytes buf k, resolve buf v)) es"

lemma map_put_at:
  "p \<le> length es \<Longrightarrow> (p < length es \<longrightarrow> f (fst (es ! p)) = f k) \<Longrightarrow>
   map (\<lambda>(k, v). (f k, g v)) (put_at es p k v) = put_at (map (\<lambda>(k, v). (f k, g v)) es) p (f k) (g v)"
  by (auto simp: put_at_def map_update split: prod.splits)

lemma set_put_at:
  "x \<in> set (put_at es p k v) \<Longrightarrow> x \<in> set es \<or> x = (k, v) \<or> (p < length es \<and> x = (fst (es ! p), v))"
  by (auto simp: put_at_def split: if_splits dest: set_update_subset_insert [THEN subsetD])

lemma views_in_obj:
  "views_in lo hi (JObj es) \<longleftrightarrow>
    (\<forall>(k, v) \<in> set es. lo \<le> fst k \<and> fst k + snd k \<le> hi \<and> views_in lo hi v)"
  by (fastforce simp: views_in_def)

lemma views_in_arr: "views_in lo hi (JArr xs) \<longleftrightarrow> (\<forall>v \<in> set xs. views_in lo hi v)"
  by (fastforce simp: views_in_def)

lemma views_in_put_at:
  assumes "views_in lo hi (JObj es)" "lo \<le> fst k" "fst k + snd k \<le> hi" "views_in lo hi v"
  shows "views_in lo hi (JObj (put_at es p k v))"
  unfolding views_in_obj
proof
  fix x assume "x \<in> set (put_at es p k v)"
  then consider "x \<in> set es" | "x = (k, v)" | "p < length es" "x = (fst (es ! p), v)"
    using set_put_at by fastforce
  then show "case x of (k, v) \<Rightarrow> lo \<le> fst k \<and> fst k + snd k \<le> hi \<and> views_in lo hi v"
  proof cases
    case 3
    then have "es ! p \<in> set es" by simp
    with assms(1) have "lo \<le> fst (fst (es ! p)) \<and> fst (fst (es ! p)) + snd (fst (es ! p)) \<le> hi"
      unfolding views_in_obj by (cases "es ! p") auto
    then show ?thesis using assms(4) 3(2) by simp
  qed (use assms in \<open>auto simp: views_in_obj\<close>)
qed

section \<open>Completeness\<close>

definition arr_done :: "nat \<Rightarrow> pstate \<Rightarrow> nat \<Rightarrow> jvalue list \<Rightarrow> view json pres \<Rightarrow> bool" where
  "arr_done lo st n vs r \<longleftrightarrow>
     (\<exists>v' st'. r = POk v' (leave (advance 1 st')) \<and> parsed lo st n v' (JArr vs) st')"

definition obj_done :: "nat \<Rightarrow> pstate \<Rightarrow> nat \<Rightarrow> jentries \<Rightarrow> view json pres \<Rightarrow> bool" where
  "obj_done lo st n es r \<longleftrightarrow>
     (\<exists>v' st'. r = POk v' (leave (advance 1 st')) \<and> parsed lo st n v' (JObj es) st')"

definition obj_inv :: "pctx \<Rightarrow> nat \<Rightarrow> key_index option \<Rightarrow> (view \<times> view json) list \<Rightarrow> pstate \<Rightarrow> jentries \<Rightarrow> bool" where
  "obj_inv ctx lo ki es' st acc \<longleftrightarrow>
     resolve (st_buf st) (JObj es') = JObj acc \<and> views_in lo (st_curr st) (JObj es') \<and>
     lo \<le> st_curr st \<and> distinct (map fst acc) \<and>
     (\<not> c_strict_dup ctx \<longrightarrow> lazy_ok (c_hash ctx) (map fst acc) ki)"

lemma parsed_weaken:
  "parsed lo st n v' v st' \<Longrightarrow> lo' \<le> lo \<Longrightarrow> parsed lo' st n v' v st'"
  by (auto simp: parsed_def intro: views_in_mono)

lemma parsed_prefix:
  "parsed lo (advance m st) n v' v st' \<Longrightarrow> parsed lo st (m + n) v' v st'"
  by (auto simp: parsed_def intro: advance_then_moves)

lemma parsed_suffix:
  "parsed lo st n v' v st' \<Longrightarrow> parsed lo st (n + m) v' v (advance m st')"
  by (auto simp: parsed_def intro: moves_then_advance views_in_mono)

text \<open>One value between white space, as both loops use it.\<close>

lemma array_extend:
  assumes "parsed (st_curr st) st n v' v st'" "resolve (st_buf st) (JArr xs) = JArr vs"
    "views_in lo (st_curr st) (JArr xs)" "lo \<le> st_curr st"
  shows "parsed lo st n (JArr (xs @ [v'])) (JArr (vs @ [v])) st'"
proof -
  have m: "moves st n st'" and r: "resolve (st_buf st') v' = v" and vi: "views_in (st_curr st) (st_curr st') v'"
    using assms(1) by (auto simp: parsed_def)
  have "resolve (st_buf st') (JArr xs) = JArr vs"
    unfolding resolve_moves [OF m assms(3)] by (rule assms(2))
  then show ?thesis
    using m r vi assms(3,4) moves_sel(1) [OF m]
    by (auto simp: parsed_def views_in_arr intro: views_in_mono)
qed

lemma member_slot_put:
  assumes "obj_inv ctx lo ki es' st acc" "member_ok (rules_of ctx) acc key"
  shows "\<exists>p ki'. member_slot ctx (map fst acc) ki key = Some (p, ki') \<and> p \<le> length acc \<and>
    (\<forall>v. put_at acc p key v = obj_put acc key v) \<and> (p < length acc \<longrightarrow> fst (acc ! p) = key) \<and>
    (\<not> c_strict_dup ctx \<longrightarrow> lazy_ok (c_hash ctx) (key_put (map fst acc) key) ki')"
proof (cases "c_strict_dup ctx")
  case True
  then have "key \<notin> fst ` set acc" using assms(2) by (simp add: member_ok_def)
  then show ?thesis using True by (simp add: member_slot_def put_at_def obj_put_new)
next
  case False
  then show ?thesis
    using lazy.locate_put [of "c_hash ctx" acc ki key] assms(1)
    by (auto simp: member_slot_def obj_inv_def)
qed

definition value_spec :: "pctx \<Rightarrow> nat \<Rightarrow> nat \<Rightarrow> bytes \<Rightarrow> jvalue \<Rightarrow> bool" where
  "value_spec ctx d n t v \<longleftrightarrow>
     (\<forall>st r dflt. ahead ctx st (t @ r) \<longrightarrow> follow r \<longrightarrow> depth_ok ctx (st_depth st) d \<longrightarrow>
       (\<exists>v' st'. value_at ctx n (hd t) st dflt = POk v' st' \<and> parsed (st_curr st) st (length t) v' v st'))"

lemma value_inplace_spec:
  assumes "rfc_ok ctx" "value_spec ctx d n t v" "t \<noteq> []" "\<not> is_whitespace (hd t)"
    "ahead ctx st (w @ t @ r)" "ws w" "follow r" "depth_ok ctx (st_depth st) d"
  shows "\<exists>v' st'. parse_value_inplace ctx (Suc n) st = POk v' st' \<and>
    parsed (st_curr st) st (length w + length t) v' v st'"
proof -
  have t: "t = hd t # tl t" using assms(3) by simp
  have a: "ahead ctx st (w @ hd t # (tl t @ r))" using assms(5) t by (metis append_Cons)
  have "ahead ctx (advance (length w) st) (t @ r)" using ahead_skip assms(5) by blast
  then obtain v' st' where v': "parse_value_inplace ctx (Suc n) st = POk v' st'"
      "parsed (st_curr (advance (length w) st)) (advance (length w) st) (length t) v' v st'"
    using assms(2,7,8) parse_value_inplace_at [OF assms(1) a assms(6,4)]
    unfolding value_spec_def by fastforce
  have "parsed (st_curr st) st (length w + length t) v' v st'"
    using parsed_weaken [OF parsed_prefix [OF v'(2)]] by simp
  then show ?thesis using v'(1) by blast
qed

lemma array_element:
  assumes ok: "rfc_ok ctx" and v: "value_spec ctx d n t v" "t \<noteq> []" "\<not> is_whitespace (hd t)"
    and a: "ahead ctx st (w1 @ t @ w2 @ c # r)" and w: "ws w1" "ws w2" and c: "c = 0x2C \<or> c = 0x5D"
    and d: "depth_ok ctx (st_depth st) d"
    and xs: "resolve (st_buf st) (JArr xs) = JArr vs" "views_in lo (st_curr st) (JArr xs)" "lo \<le> st_curr st"
  shows "\<exists>xs' st'. parsed lo st (length (w1 @ t @ w2)) (JArr xs') (JArr (vs @ [v])) st' \<and>
    array_loop ctx (Suc (Suc n)) xs st =
      (if c = 0x5D then POk (JArr xs') (leave (advance 1 st')) else array_loop ctx (Suc n) xs' (advance 1 st'))"
proof -
  have f: "follow (w2 @ c # r)" using follow_ws [OF w(2)] c by blast
  obtain v' st1 where st1: "parse_value_inplace ctx (Suc n) st = POk v' st1"
      "parsed (st_curr st) st (length w1 + length t) v' v st1"
    using value_inplace_spec [OF ok v a w(1) f d] by blast
  have a1: "ahead ctx st1 (w2 @ c # r)"
    using moves_ahead [of ctx st "w1 @ t" "w2 @ c # r" st1] a st1(2) by (simp add: parsed_def)
  have cw: "\<not> is_whitespace c" using c closer_not_ws by auto
  let ?xs = "xs @ [v']" and ?st = "advance (length w2) st1"
  have p: "parsed lo st (length (w1 @ t @ w2)) (JArr ?xs) (JArr (vs @ [v])) ?st"
    using parsed_suffix [OF array_extend [OF st1(2) xs], of "length w2"] by (simp add: add.assoc)
  have j: "\<not> c_json5 ctx" using ok by (simp add: rfc_ok_def)
  have "array_loop ctx (Suc (Suc n)) xs st =
      (if c = 0x5D then POk (JArr ?xs) (leave (advance 1 ?st)) else array_loop ctx (Suc n) ?xs (advance 1 ?st))"
    using c by (simp add: st1(1) skip_to [OF ok a1 w(2) cw] j del: parse_value_inplace.simps) auto
  then show ?thesis using p by blast
qed

text \<open>Key and value of a member put together: the loop invariant moves on.\<close>

lemma member_assemble:
  assumes inv: "obj_inv ctx lo ki es st acc" and mok: "member_ok (rules_of ctx) acc k"
    and ss: "string_step (advance n1 st) nk kv k s2"
    and p: "parsed (st_curr (advance 1 (advance n2 s2))) (advance 1 (advance n2 s2)) n3 v' v s4"
    and slot: "member_slot ctx (map fst acc) ki k = Some (p, ki')"
  shows "moves st (n1 + nk + n2 + 1 + n3 + n4) (advance n4 s4)"
    "obj_inv ctx lo ki' (put_at es p kv v') (advance n4 s4) (obj_put acc k v)"
proof -
  let ?s3 = "advance n2 s2"
  have m2: "moves (advance n1 st) nk s2" and kv: "view_bytes (st_buf s2) kv = k" "st_curr (advance n1 st) \<le> fst kv"
      "fst kv + snd kv \<le> st_curr s2" using ss by (auto simp: string_step_def)
  have m2': "moves st (n1 + nk) s2" by (rule advance_then_moves [OF m2])
  have es2: "resolve (st_buf s2) (JObj es) = JObj acc"
    using inv resolve_moves [OF m2', of lo "JObj es"] by (simp add: obj_inv_def)
  have put: "p \<le> length acc" "\<forall>v. put_at acc p k v = obj_put acc k v" "p < length acc \<longrightarrow> fst (acc ! p) = k"
      "\<not> c_strict_dup ctx \<longrightarrow> lazy_ok (c_hash ctx) (key_put (map fst acc) k) ki'"
    using member_slot_put [OF inv mok] slot by auto
  have m4: "moves (advance 1 ?s3) n3 s4" and rv: "resolve (st_buf s4) v' = v"
      and viv: "views_in (st_curr (advance 1 ?s3)) (st_curr s4) v'"
    using p by (auto simp: parsed_def)
  let ?s5 = "advance n4 s4" and ?es = "put_at es p kv v'"
  have m24: "moves s2 (n2 + 1 + n3) s4"
    using advance_then_moves [OF m4] by (auto dest: advance_then_moves simp: add.assoc)
  show mall: "moves st (n1 + nk + n2 + 1 + n3 + n4) ?s5"
    using moves_then_advance [OF moves_trans [OF m2' m24], of n4] by (simp add: add_ac)
  have vies: "views_in lo (st_curr s2) (JObj es)" and lo: "lo \<le> st_curr st"
    using inv views_in_mono [of lo "st_curr st" "JObj es" lo "st_curr s2"] moves_sel(1) [OF m2']
    by (simp_all add: obj_inv_def)
  have "resolve (st_buf s4) (JObj es) = JObj acc"
    unfolding resolve_moves [OF m24 vies] by (rule es2)
  then have es4: "map (\<lambda>(k, v). (view_bytes (st_buf s4) k, resolve (st_buf s4) v)) es = acc" by simp
  have kv4: "view_bytes (st_buf s4) kv = k" using view_bytes_moves [OF m24 kv(3)] kv(1) by simp
  have len: "length es = length acc" using es4 by auto
  have fst_p: "p < length es \<Longrightarrow> view_bytes (st_buf s4) (fst (es ! p)) = view_bytes (st_buf s4) kv"
    using put(3) len kv4 arg_cong [OF es4, of "\<lambda>xs. fst (xs ! p)"] by (simp add: split_beta)
  have "map (\<lambda>(k, v). (view_bytes (st_buf s4) k, resolve (st_buf s4) v)) ?es = put_at acc p k v"
    using map_put_at [of p es "view_bytes (st_buf s4)" kv "resolve (st_buf s4)" v'] put(1) len fst_p es4 kv4 rv
    by simp
  then have r5: "resolve (st_buf ?s5) (JObj ?es) = JObj (obj_put acc k v)" using put(2) by simp
  have c5: "st_curr st \<le> fst kv" "fst kv + snd kv \<le> st_curr ?s5" "st_curr s4 \<le> st_curr ?s5"
      "st_curr s2 \<le> st_curr ?s5" "st_curr st \<le> st_curr (advance 1 ?s3)"
    using kv moves_sel(1) [OF m24] moves_sel(1) [OF m2'] by simp_all
  have "views_in lo (st_curr ?s5) (JObj ?es)"
    by (rule views_in_put_at) (use c5 lo vies viv in \<open>auto intro: views_in_mono\<close>)
  then show "obj_inv ctx lo ki' ?es ?s5 (obj_put acc k v)"
    using r5 put(4) inv moves_sel(1) [OF mall] distinct_obj_put [of acc k v]
    by (simp add: obj_inv_def keys_obj_put key_put_def)
qed

lemma object_member:
  assumes ok: "rfc_ok ctx" and v: "value_spec ctx d n t v" "t \<noteq> []" "\<not> is_whitespace (hd t)"
    and a: "ahead ctx st (w1 @ kt @ w2 @ 0x3A # w3 @ t @ w4 @ c # r)"
    and w: "ws w1" "ws w2" "ws w3" "ws w4" and c: "c = 0x2C \<or> c = 0x7D"
    and k: "quoted (rules_of ctx) kt k" and mok: "member_ok (rules_of ctx) acc k"
    and d: "depth_ok ctx (st_depth st) d" and inv: "obj_inv ctx lo ki es st acc"
  shows "\<exists>ki' es' st'. moves st (length (w1 @ kt @ w2 @ 0x3A # w3 @ t @ w4)) st' \<and>
    obj_inv ctx lo ki' es' st' (obj_put acc k v) \<and>
    object_loop ctx (Suc (Suc n)) ki es st =
      (if c = 0x7D then POk (JObj es') (leave (advance 1 st')) else object_loop ctx (Suc n) ki' es' (advance 1 st'))"
proof -
  have j: "\<not> c_json5 ctx" using ok by (simp add: rfc_ok_def)
  obtain raw where kt: "kt = 0x22 # raw @ [0x22]" using k by (auto simp: quoted_def)
  let ?s1 = "advance (length w1) st"
  have a0: "ahead ctx st (w1 @ 0x22 # (raw @ [0x22] @ w2 @ 0x3A # w3 @ t @ w4 @ c # r))" using a kt by simp
  note sk1 = skip_to [OF ok a0 w(1) closer_not_ws(5)]
  have a1: "ahead ctx ?s1 (kt @ (w2 @ 0x3A # w3 @ t @ w4 @ c # r))" using sk1(3) kt by simp
  obtain kv s2 where s2: "parse_string ctx ?s1 = POk kv s2" "string_step ?s1 (length kt) kv k s2"
    using parse_string_complete [OF ok a1 k] by blast
  have m2: "moves ?s1 (length kt) s2" and kv: "view_bytes (st_buf s2) kv = k" "st_curr ?s1 \<le> fst kv"
      "fst kv + snd kv \<le> st_curr s2" using s2(2) by (auto simp: string_step_def)
  have m2': "moves st (length w1 + length kt) s2" by (rule advance_then_moves [OF m2])
  have key: "parse_key ctx ?s1 = POk kv s2" using s2(1) j by (simp add: parse_key_def sk1(2))
  have es2: "resolve (st_buf s2) (JObj es) = JObj acc"
    using inv resolve_moves [OF m2', of lo "JObj es"] by (simp add: obj_inv_def)
  then have ks: "map (\<lambda>e. view_bytes (st_buf s2) (fst e)) es = map fst acc"
    by (auto simp: comp_def split_beta)
  have dup: "\<not> (c_strict_dup ctx \<and> k \<in> set (map fst acc))" using mok by (auto simp: member_ok_def)
  have a2: "ahead ctx s2 (w2 @ 0x3A # (w3 @ t @ w4 @ c # r))" by (rule moves_ahead [OF a1 m2])
  note sk2 = skip_to [OF ok a2 w(2) closer_not_ws(4)]
  let ?s3 = "advance (length w2) s2"
  obtain p ki' where slot: "member_slot ctx (map fst acc) ki k = Some (p, ki')" "p \<le> length acc"
      "\<forall>v. put_at acc p k v = obj_put acc k v" "p < length acc \<longrightarrow> fst (acc ! p) = k"
      "\<not> c_strict_dup ctx \<longrightarrow> lazy_ok (c_hash ctx) (key_put (map fst acc) k) ki'"
    using member_slot_put [OF inv mok] by blast
  have a3: "ahead ctx (advance 1 ?s3) (w3 @ t @ (w4 @ c # r))" by (rule ahead_tl [OF sk2(3)])
  have f: "follow (w4 @ c # r)" using follow_ws [OF w(4)] c by blast
  have d3: "depth_ok ctx (st_depth (advance 1 ?s3)) d" using d moves_sel(2) [OF m2'] by simp
  obtain v' s4 where s4: "parse_value_inplace ctx (Suc n) (advance 1 ?s3) = POk v' s4"
      "parsed (st_curr (advance 1 ?s3)) (advance 1 ?s3) (length w3 + length t) v' v s4"
    using value_inplace_spec [OF ok v a3 w(3) f d3] by blast
  have m4: "moves (advance 1 ?s3) (length (w3 @ t)) s4" using s4(2) by (auto simp: parsed_def)
  have a4: "ahead ctx s4 (w4 @ c # r)" using moves_ahead [of ctx "advance 1 ?s3" "w3 @ t"] a3 m4 by simp
  have cw: "\<not> is_whitespace c" using c closer_not_ws by auto
  note sk4 = skip_to [OF ok a4 w(4) cw]
  let ?s5 = "advance (length w4) s4" and ?es = "put_at es p kv v'"
  have lt: "\<not> c_end ctx \<le> st_curr ?s5" using ahead_length [OF sk4(3)] by simp
  note asm = member_assemble [OF inv mok s2(2) s4(2) slot(1), of "length w4"]
  have mall: "moves st (length (w1 @ kt @ w2 @ 0x3A # w3 @ t @ w4)) ?s5"
    using asm(1) by (simp add: add_ac)
  note inv5 = asm(2)
  have "object_loop ctx (Suc (Suc n)) ki es st =
      (if c = 0x7D then POk (JObj ?es) (leave (advance 1 ?s5)) else object_loop ctx (Suc n) ki' ?es (advance 1 ?s5))"
    unfolding object_loop.simps(2) [of ctx "Suc n"] sk1(1) bindp_simps(1) key Let_def kv(1) ks if_not_P [OF dup]
      sk2(1,2) slot(1) option.case prod.case s4(1) sk4(1,2) if_not_P [OF lt]
    using c j by auto
  then show ?thesis using mall inv5 by blast
qed

text \<open>The scalar rules and the two empty containers.\<close>

lemma scalar_spec:
  assumes "rfc_ok ctx" "R = rules_of ctx"
  shows "t = lit ''null'' \<and> v = JNull \<or> t = lit ''true'' \<and> v = JBool True \<or> t = lit ''false'' \<and> v = JBool False \<Longrightarrow>
      value_spec ctx d n t v"
    and "number_parts neg ip fr ex t \<Longrightarrow> token_value neg ip fr ex = Some v \<Longrightarrow> value_spec ctx d n t v"
    and "quoted R t s \<Longrightarrow> value_spec ctx d n t (JStr s)"
proof -
  show "value_spec ctx d n t v" if l: "t = lit ''null'' \<and> v = JNull \<or> t = lit ''true'' \<and> v = JBool True
      \<or> t = lit ''false'' \<and> v = JBool False"
    unfolding value_spec_def
  proof (intro allI impI)
    fix st r dflt assume a: "ahead ctx st (t @ r)" and f: "follow r"
    obtain v' :: "view json" where v': "t = lit ''true'' \<and> v' = JBool True \<or> t = lit ''null'' \<and> v' = JNull
        \<or> t = lit ''false'' \<and> v' = JBool False" "set_json v' = {}" "resolve (st_buf st) v' = v"
    proof (cases "v = JNull")
      case True
      then show ?thesis using l that [of JNull] by auto
    next
      case False
      then obtain b where "v = JBool b" using l by auto
      then show ?thesis using l that [of "JBool b"] by auto
    qed
    have "value_at ctx n (hd t) st dflt = parse_literal ctx st"
      using l by (auto simp: value_at_def parse_scalar_def literal_start_def lit_def)
    then show "\<exists>v' st'. value_at ctx n (hd t) st dflt = POk v' st' \<and> parsed (st_curr st) st (length t) v' v st'"
      using parse_literal_complete [OF assms(1) a f v'(1)] parsed_same [OF v'(2,3)] by auto
  qed
  show "value_spec ctx d n t v" if num: "number_parts neg ip fr ex t" "token_value neg ip fr ex = Some v"
    unfolding value_spec_def
  proof (intro allI impI)
    fix st r dflt assume a: "ahead ctx st (t @ r)" and f: "follow r"
    obtain c u where t: "t = c # u" "number_start c" using number_parts_hd [OF num(1)] by blast
    then have "c \<noteq> 0x7B" "c \<noteq> 0x5B" "c \<noteq> 0x22" "\<not> literal_start c"
      by (auto simp: number_start_def is_dec_digit_def literal_start_def)
    then have "value_at ctx n (hd t) st dflt = parse_number ctx st"
      using t by (simp add: value_at_def parse_scalar_def)
    then show "\<exists>v' st'. value_at ctx n (hd t) st dflt = POk v' st' \<and> parsed (st_curr st) st (length t) v' v st'"
      using parse_number_complete [OF assms(1) a f num] by simp
  qed
  show "value_spec ctx d n t (JStr s)" if q: "quoted R t s"
    unfolding value_spec_def
  proof (intro allI impI)
    fix st r dflt assume a: "ahead ctx st (t @ r)"
    obtain k st' where k: "parse_string ctx st = POk k st'" "string_step st (length t) k s st'"
      using parse_string_complete [OF assms(1) a] q assms(2) by blast
    have "hd t = 0x22" using q by (auto simp: quoted_def)
    then have "value_at ctx n (hd t) st dflt = POk (JStr k) st'"
      using k(1) by (simp add: value_at_def parse_scalar_def json_string_def)
    moreover have "parsed (st_curr st) st (length t) (JStr k) (JStr s) st'"
      using k(2) by (simp add: string_step_def parsed_def views_in_def)
    ultimately show "\<exists>v' st'. value_at ctx n (hd t) st dflt = POk v' st' \<and>
        parsed (st_curr st) st (length t) v' (JStr s) st'" by blast
  qed
qed

lemma parsed_container:
  assumes "parsed lo (advance 1 (enter st)) n v' v st'" "st_curr st \<le> lo"
  shows "parsed (st_curr st) st (n + 2) v' v (leave (advance 1 st'))"
proof -
  have "parsed lo (enter st) (1 + n + 1) v' v (advance 1 st')"
    using assms(1) by (intro parsed_suffix parsed_prefix) simp
  then show ?thesis
    using parsed_weaken [of lo _ _ _ _ _ "st_curr st"] assms(2) moves_inside by (auto simp: parsed_def views_in_mono)
qed

lemma empty_container:
  "set_json v' = {} \<Longrightarrow> resolve (st_buf st) v' = v \<Longrightarrow>
    parsed (st_curr st) st (n + 2) v' v (leave (advance 1 (advance n (advance 1 (enter st)))))"
  using parsed_container [of "st_curr st" st n v' v "advance n (advance 1 (enter st))"]
    parsed_same [of v' "advance 1 (enter st)" v "st_curr st" n] by simp

text \<open>The first byte of a non-empty container body; a loop skips white space itself.\<close>

lemma number_start_not_closer: "number_start c \<Longrightarrow> c \<noteq> 0x5D \<and> c \<noteq> 0x7D"
  by (auto simp: number_start_def is_dec_digit_def)

lemma number_parts_start:
  "number_parts neg ip fr ex t \<Longrightarrow> \<exists>c r. t = c # r \<and> \<not> is_whitespace c \<and> c \<noteq> 0x5D"
  using number_parts_hd number_start_not_closer start_not_ws(1) by metis

lemma value_text_start:
  "value_text R d t v \<Longrightarrow> \<exists>c r. t = c # r \<and> \<not> is_whitespace c \<and> c \<noteq> 0x5D"
  by (erule value_text.cases)
    (auto simp: lit_def quoted_def is_whitespace_def dest!: number_parts_start)

lemma elements_text_start:
  assumes "elements_text R d t vs"
  shows "\<exists>w c u. t = w @ c # u \<and> ws w \<and> \<not> is_whitespace c \<and> c \<noteq> 0x5D"
proof -
  obtain w t' v r where t: "t = w @ t' @ r" "ws w" "value_text R d t' v"
    using assms by (cases rule: elements_text.cases) auto
  obtain c u where "t' = c # u" "\<not> is_whitespace c" "c \<noteq> 0x5D" using value_text_start [OF t(3)] by blast
  then show ?thesis using t(1,2) by (intro exI [of _ w] exI [of _ c] exI [of _ "u @ r"]) simp
qed

lemma members_text_start:
  assumes "members_text R d acc t es"
  shows "\<exists>w u. t = w @ 0x22 # u \<and> ws w"
proof -
  obtain w kt k r where t: "t = w @ kt @ r" "ws w" "quoted R kt k"
    using assms by (cases rule: members_text.cases) auto
  obtain raw where "kt = 0x22 # raw @ [0x22]" using t(3) by (auto simp: quoted_def)
  then show ?thesis using t(1,2) by (intro exI [of _ w] exI [of _ "raw @ 0x22 # r"]) simp
qed

lemma array_loop_skip:
  assumes "rfc_ok ctx" "ahead ctx st (w @ c # r)" "ws w" "\<not> is_whitespace c"
  shows "array_loop ctx (Suc (Suc n)) xs (advance (length w) st) = array_loop ctx (Suc (Suc n)) xs st"
proof -
  note sk = skip_to [OF assms]
  have "skip_whitespace ctx (advance (length w) st) = POk () (advance (length w) st)"
    using skip_ws [OF assms(1), of "advance (length w) st" "[]" "c # r"] sk(3) assms(4) by (simp add: ws_def)
  then show ?thesis using sk(1) by simp
qed

lemma object_loop_skip:
  assumes "rfc_ok ctx" "ahead ctx st (w @ c # r)" "ws w" "\<not> is_whitespace c"
  shows "object_loop ctx (Suc n) ki es (advance (length w) st) = object_loop ctx (Suc n) ki es st"
proof -
  note sk = skip_to [OF assms]
  have "skip_whitespace ctx (advance (length w) st) = POk () (advance (length w) st)"
    using skip_ws [OF assms(1), of "advance (length w) st" "[]" "c # r"] sk(3) assms(4) by (simp add: ws_def)
  then show ?thesis using sk(1) by simp
qed

lemma parse_array_open:
  assumes ok: "rfc_ok ctx" and a: "ahead ctx st (0x5B # t @ 0x5D # r)" and d: "depth_ok ctx (st_depth st) (Suc d)"
    and e: "elements_text R d t vs" and n: "4 * length t + 2 \<le> n"
  shows "parse_array_inplace ctx (Suc n) st = array_loop ctx n [] (advance 1 (enter st))"
    "ahead ctx (advance 1 (enter st)) (t @ 0x5D # r)"
proof -
  let ?s = "advance 1 (enter st)"
  show a1: "ahead ctx ?s (t @ 0x5D # r)" using ahead_tl [of ctx st "0x5B" "t @ 0x5D # r"] a by simp
  obtain w c u where t: "t = w @ c # u" "ws w" "\<not> is_whitespace c" "c \<noteq> 0x5D"
    using elements_text_start [OF e] by blast
  have a2: "ahead ctx ?s (w @ c # (u @ 0x5D # r))" using a1 t(1) by simp
  note sk = skip_to [OF ok a2 t(2,3)]
  obtain m where m: "n = Suc (Suc m)" using n t(1) by (auto dest!: le_Suc_ex)
  show "parse_array_inplace ctx (Suc n) st = array_loop ctx n [] ?s"
    using sk(1) closes_ahead [OF sk(3)] t(4) depth_ok_exceeded [OF d] array_loop_skip [OF ok a2 t(2,3), of m "[]"]
    by (simp add: m del: array_loop.simps)
qed

lemma parse_object_open:
  assumes ok: "rfc_ok ctx" and a: "ahead ctx st (0x7B # t @ 0x7D # r)" and d: "depth_ok ctx (st_depth st) (Suc d)"
    and e: "members_text R d [] t es" and n: "4 * length t + 2 \<le> n"
  shows "parse_object_inplace ctx (Suc n) st = object_loop ctx n None [] (advance 1 (enter st))"
    "ahead ctx (advance 1 (enter st)) (t @ 0x7D # r)"
proof -
  let ?s = "advance 1 (enter st)"
  show a1: "ahead ctx ?s (t @ 0x7D # r)" using ahead_tl [of ctx st "0x7B" "t @ 0x7D # r"] a by simp
  obtain w u where t: "t = w @ 0x22 # u" "ws w" using members_text_start [OF e] by blast
  have a2: "ahead ctx ?s (w @ 0x22 # (u @ 0x7D # r))" using a1 t(1) by simp
  note sk = skip_to [OF ok a2 t(2) closer_not_ws(5)]
  obtain m where m: "n = Suc m" using n by (cases n) auto
  show "parse_object_inplace ctx (Suc n) st = object_loop ctx n None [] ?s"
    unfolding parse_object_inplace.simps(2) if_not_P [OF depth_ok_exceeded [OF d]] sk(1) bindp_simps(1) sk(2)
    using object_loop_skip [OF ok a2 t(2) closer_not_ws(5), of m None "[]"] m
    by (simp del: object_loop.simps)
qed

text \<open>The whole grammar, by rule induction.\<close>

lemma parser_complete:
  assumes ok: "rfc_ok ctx"
  shows "value_text R d t v \<Longrightarrow> R = rules_of ctx \<Longrightarrow>
      \<forall>n. 4 * length t \<le> n \<longrightarrow> value_spec ctx d n t v"
    and "elements_text R d t vs \<Longrightarrow> R = rules_of ctx \<Longrightarrow>
      \<forall>n lo xs vs0 st r. 4 * length t + 2 \<le> n \<longrightarrow> ahead ctx st (t @ 0x5D # r) \<longrightarrow>
        depth_ok ctx (st_depth st) d \<longrightarrow> resolve (st_buf st) (JArr xs) = JArr vs0 \<longrightarrow>
        views_in lo (st_curr st) (JArr xs) \<longrightarrow> lo \<le> st_curr st \<longrightarrow>
        arr_done lo st (length t) (vs0 @ vs) (array_loop ctx n xs st)"
    and "members_text R d acc t es \<Longrightarrow> R = rules_of ctx \<Longrightarrow>
      \<forall>n lo ki es' st r. 4 * length t + 2 \<le> n \<longrightarrow> ahead ctx st (t @ 0x7D # r) \<longrightarrow>
        depth_ok ctx (st_depth st) d \<longrightarrow> obj_inv ctx lo ki es' st acc \<longrightarrow>
        obj_done lo st (length t) es (object_loop ctx n ki es' st)"
proof (induction rule: value_text_elements_text_members_text.inducts)
  case (empty_array w d)
  show ?case
    unfolding value_spec_def
  proof (intro allI impI)
    fix n st r dflt
    assume n: "4 * length (0x5B # w @ [0x5D]) \<le> n" and a: "ahead ctx st ((0x5B # w @ [0x5D]) @ r)"
      and d: "depth_ok ctx (st_depth st) (Suc d)"
    obtain m where m: "n = Suc m" using n by (cases n) auto
    let ?s = "advance 1 (enter st)"
    have a1: "ahead ctx ?s (w @ 0x5D # r)" using ahead_tl [of ctx st "0x5B" "w @ 0x5D # r"] a by simp
    note sk = skip_to [OF ok a1 empty_array.hyps closer_not_ws(1)]
    have "value_at ctx n (hd (0x5B # w @ [0x5D])) st dflt = POk (JArr []) (leave (advance 1 (advance (length w) ?s)))"
      using sk(1) closes_ahead [OF sk(3)] depth_ok_exceeded [OF d] by (simp add: m value_at_def)
    then show "\<exists>v' st'. value_at ctx n (hd (0x5B # w @ [0x5D])) st dflt = POk v' st' \<and>
        parsed (st_curr st) st (length (0x5B # w @ [0x5D])) v' (JArr []) st'"
      using empty_container [of "JArr []" st "JArr []" "length w"] by auto
  qed
next
  case (array d t vs)
  show ?case
    unfolding value_spec_def
  proof (intro allI impI)
    fix n st r dflt
    assume n: "4 * length (0x5B # t @ [0x5D]) \<le> n" and a: "ahead ctx st ((0x5B # t @ [0x5D]) @ r)"
      and d: "depth_ok ctx (st_depth st) (Suc d)"
    obtain m where m: "n = Suc m" "4 * length t + 2 \<le> m" using n by (cases n) auto
    have a': "ahead ctx st (0x5B # t @ 0x5D # r)" using a by simp
    note op = parse_array_open [OF ok a' d array.IH(1) m(2)]
    have "arr_done (st_curr (advance 1 (enter st))) (advance 1 (enter st)) (length t) ([] @ vs)
        (array_loop ctx m [] (advance 1 (enter st)))"
      by (rule array.IH(2) [OF array.prems, rule_format, OF m(2) op(2)])
        (use depth_ok_Suc [OF d] in \<open>simp_all add: views_in_def\<close>)
    then obtain v' st' where r: "array_loop ctx m [] (advance 1 (enter st)) = POk v' (leave (advance 1 st'))"
        "parsed (st_curr st + 1) (advance 1 (enter st)) (length t) v' (JArr vs) st'" by (auto simp: arr_done_def)
    have "value_at ctx n (hd (0x5B # t @ [0x5D])) st dflt = POk v' (leave (advance 1 st'))"
      using op(1) r(1) by (simp add: m(1) value_at_def)
    then show "\<exists>v' st'. value_at ctx n (hd (0x5B # t @ [0x5D])) st dflt = POk v' st' \<and>
        parsed (st_curr st) st (length (0x5B # t @ [0x5D])) v' (JArr vs) st'"
      using parsed_container [OF r(2)] by auto
  qed
next
  case (empty_object w d)
  show ?case
    unfolding value_spec_def
  proof (intro allI impI)
    fix n st r dflt
    assume n: "4 * length (0x7B # w @ [0x7D]) \<le> n" and a: "ahead ctx st ((0x7B # w @ [0x7D]) @ r)"
      and d: "depth_ok ctx (st_depth st) (Suc d)"
    obtain m where m: "n = Suc m" using n by (cases n) auto
    let ?s = "advance 1 (enter st)"
    have a1: "ahead ctx ?s (w @ 0x7D # r)" using ahead_tl [of ctx st "0x7B" "w @ 0x7D # r"] a by simp
    note sk = skip_to [OF ok a1 empty_object.hyps closer_not_ws(2)]
    have "parse_object_inplace ctx (Suc m) st = POk (JObj []) (leave (advance 1 (advance (length w) ?s)))"
      unfolding parse_object_inplace.simps(2) if_not_P [OF depth_ok_exceeded [OF d]] sk(1) bindp_simps(1) sk(2)
      by simp
    then have "value_at ctx n (hd (0x7B # w @ [0x7D])) st dflt
        = POk (JObj []) (leave (advance 1 (advance (length w) ?s)))"
      by (simp add: m value_at_def)
    then show "\<exists>v' st'. value_at ctx n (hd (0x7B # w @ [0x7D])) st dflt = POk v' st' \<and>
        parsed (st_curr st) st (length (0x7B # w @ [0x7D])) v' (JObj []) st'"
      using empty_container [of "JObj []" st "JObj []" "length w"] by auto
  qed
next
  case (object d t es)
  show ?case
    unfolding value_spec_def
  proof (intro allI impI)
    fix n st r dflt
    assume n: "4 * length (0x7B # t @ [0x7D]) \<le> n" and a: "ahead ctx st ((0x7B # t @ [0x7D]) @ r)"
      and d: "depth_ok ctx (st_depth st) (Suc d)"
    obtain m where m: "n = Suc m" "4 * length t + 2 \<le> m" using n by (cases n) auto
    have a': "ahead ctx st (0x7B # t @ 0x7D # r)" using a by simp
    note op = parse_object_open [OF ok a' d object.IH(1) m(2)]
    have "obj_inv ctx (st_curr st + 1) None [] (advance 1 (enter st)) []"
      by (simp add: obj_inv_def views_in_def lazy_ok_def)
    then have "obj_done (st_curr st + 1) (advance 1 (enter st)) (length t) es
        (object_loop ctx m None [] (advance 1 (enter st)))"
      by (intro object.IH(2) [OF object.prems, rule_format, OF m(2) op(2)])
        (use depth_ok_Suc [OF d] in simp_all)
    then obtain v' st' where r: "object_loop ctx m None [] (advance 1 (enter st)) = POk v' (leave (advance 1 st'))"
        "parsed (st_curr st + 1) (advance 1 (enter st)) (length t) v' (JObj es) st'" by (auto simp: obj_done_def)
    have "value_at ctx n (hd (0x7B # t @ [0x7D])) st dflt = POk v' (leave (advance 1 st'))"
      using op(1) r(1) by (simp add: m(1) value_at_def)
    then show "\<exists>v' st'. value_at ctx n (hd (0x7B # t @ [0x7D])) st dflt = POk v' st' \<and>
        parsed (st_curr st) st (length (0x7B # t @ [0x7D])) v' (JObj es) st'"
      using parsed_container [OF r(2)] by auto
  qed
next
  case (last_element w1 d t v w2)
  show ?case
  proof (intro allI impI)
    fix n lo xs vs0 st r
    assume n: "4 * length (w1 @ t @ w2) + 2 \<le> n" and a: "ahead ctx st ((w1 @ t @ w2) @ 0x5D # r)"
      and d: "depth_ok ctx (st_depth st) d"
      and xs: "resolve (st_buf st) (JArr xs) = JArr vs0" "views_in lo (st_curr st) (JArr xs)" "lo \<le> st_curr st"
    obtain m where m: "n = Suc (Suc m)" "4 * length t \<le> m" using n by (auto dest!: le_Suc_ex)
    obtain c u where t: "t = c # u" "\<not> is_whitespace c" using value_text_hd [OF last_element.IH(1)] by blast
    have a': "ahead ctx st (w1 @ t @ w2 @ 0x5D # r)" using a by simp
    have vsp: "value_spec ctx d m t v" using last_element.IH(2) last_element.prems m(2) by blast
    from array_element [OF ok vsp _ _ a' last_element.hyps(1,2) _ d xs] t
    show "arr_done lo st (length (w1 @ t @ w2)) (vs0 @ [v]) (array_loop ctx n xs st)"
      unfolding arr_done_def m(1) by auto
  qed
next
  case (more_elements w1 d t v w2 r vs)
  show ?case
  proof (intro allI impI)
    fix n lo xs vs0 st r'
    assume n: "4 * length (w1 @ t @ w2 @ 0x2C # r) + 2 \<le> n"
      and a: "ahead ctx st ((w1 @ t @ w2 @ 0x2C # r) @ 0x5D # r')" and d: "depth_ok ctx (st_depth st) d"
      and xs: "resolve (st_buf st) (JArr xs) = JArr vs0" "views_in lo (st_curr st) (JArr xs)" "lo \<le> st_curr st"
    obtain m where m: "n = Suc (Suc m)" "4 * length t \<le> m" "4 * length r + 2 \<le> Suc m"
      using n by (auto dest!: le_Suc_ex)
    obtain c u where t: "t = c # u" "\<not> is_whitespace c" using value_text_hd [OF more_elements.IH(1)] by blast
    have a': "ahead ctx st (w1 @ t @ w2 @ 0x2C # (r @ 0x5D # r'))" using a by simp
    have vsp: "value_spec ctx d m t v" using more_elements.IH(2) more_elements.prems m(2) by blast
    obtain xs' st' where e: "parsed lo st (length (w1 @ t @ w2)) (JArr xs') (JArr (vs0 @ [v])) st'"
        "array_loop ctx (Suc (Suc m)) xs st = array_loop ctx (Suc m) xs' (advance 1 st')"
      using array_element [OF ok vsp _ _ a' more_elements.hyps(1,2) _ d xs] t by auto
    have mv: "moves st (length (w1 @ t @ w2)) st'" using e(1) by (simp add: parsed_def)
    have a2: "ahead ctx (advance 1 st') (r @ 0x5D # r')"
      using ahead_tl [OF moves_ahead [of ctx st "w1 @ t @ w2", OF _ mv]] a' by simp
    have "arr_done lo (advance 1 st') (length r) ((vs0 @ [v]) @ vs) (array_loop ctx (Suc m) xs' (advance 1 st'))"
      by (rule more_elements.IH(4) [OF more_elements.prems, rule_format, OF m(3) a2])
        (use d e(1) moves_sel(1,2) [OF mv] xs(3) views_in_mono [of lo "st_curr st'" "JArr xs'" lo "st_curr st' + 1"]
          in \<open>simp_all add: parsed_def\<close>)
    then obtain v' st2 where r2: "array_loop ctx (Suc m) xs' (advance 1 st') = POk v' (leave (advance 1 st2))"
        "parsed lo (advance 1 st') (length r) v' (JArr (vs0 @ v # vs)) st2" by (auto simp: arr_done_def)
    have "moves st (length (w1 @ t @ w2) + (1 + length r)) st2"
      using r2(2) by (intro moves_trans [OF mv] advance_then_moves) (simp add: parsed_def)
    then have "parsed lo st (length (w1 @ t @ w2 @ 0x2C # r)) v' (JArr (vs0 @ v # vs)) st2"
      using r2(2) by (simp add: parsed_def add_ac)
    then show "arr_done lo st (length (w1 @ t @ w2 @ 0x2C # r)) (vs0 @ v # vs) (array_loop ctx n xs st)"
      unfolding arr_done_def m(1) using e(2) r2(1) by auto
  qed
next
  case (last_member w1 kt k acc w2 w3 d t v w4)
  show ?case
  proof (intro allI impI)
    fix n lo ki es' st r
    assume n: "4 * length (w1 @ kt @ w2 @ 0x3A # w3 @ t @ w4) + 2 \<le> n"
      and a: "ahead ctx st ((w1 @ kt @ w2 @ 0x3A # w3 @ t @ w4) @ 0x7D # r)"
      and d: "depth_ok ctx (st_depth st) d" and inv: "obj_inv ctx lo ki es' st acc"
    obtain m where m: "n = Suc (Suc m)" "4 * length t \<le> m" using n by (auto dest!: le_Suc_ex)
    obtain c u where t: "t = c # u" "\<not> is_whitespace c" using value_text_hd [OF last_member.IH(3)] by blast
    have a': "ahead ctx st (w1 @ kt @ w2 @ 0x3A # w3 @ t @ w4 @ 0x7D # r)" using a by simp
    have vsp: "value_spec ctx d m t v" using last_member.IH(4) last_member.prems m(2) by blast
    have q: "quoted (rules_of ctx) kt k" "member_ok (rules_of ctx) acc k"
      using last_member.IH(1,2) last_member.prems by simp_all
    obtain ki' es2 st' where o: "moves st (length (w1 @ kt @ w2 @ 0x3A # w3 @ t @ w4)) st'"
        "obj_inv ctx lo ki' es2 st' (obj_put acc k v)"
        "object_loop ctx (Suc (Suc m)) ki es' st = POk (JObj es2) (leave (advance 1 st'))"
      using object_member [OF ok vsp _ _ a' last_member.hyps _ q d inv] t by auto
    then have "parsed lo st (length (w1 @ kt @ w2 @ 0x3A # w3 @ t @ w4)) (JObj es2) (JObj (obj_put acc k v)) st'"
      by (simp add: parsed_def obj_inv_def)
    then show "obj_done lo st (length (w1 @ kt @ w2 @ 0x3A # w3 @ t @ w4)) (obj_put acc k v)
        (object_loop ctx n ki es' st)"
      unfolding obj_done_def m(1) using o(3) by blast
  qed
next
  case (more_members w1 kt k acc w2 w3 d t v w4 r es)
  show ?case
  proof (intro allI impI)
    fix n lo ki es' st r'
    let ?t = "w1 @ kt @ w2 @ 0x3A # w3 @ t @ w4"
    assume n: "4 * length (w1 @ kt @ w2 @ 0x3A # w3 @ t @ w4 @ 0x2C # r) + 2 \<le> n"
      and a: "ahead ctx st ((w1 @ kt @ w2 @ 0x3A # w3 @ t @ w4 @ 0x2C # r) @ 0x7D # r')"
      and d: "depth_ok ctx (st_depth st) d" and inv: "obj_inv ctx lo ki es' st acc"
    obtain m where m: "n = Suc (Suc m)" "4 * length t \<le> m" "4 * length r + 2 \<le> Suc m"
      using n by (auto dest!: le_Suc_ex)
    obtain c u where t: "t = c # u" "\<not> is_whitespace c" using value_text_hd [OF more_members.IH(3)] by blast
    have a': "ahead ctx st (w1 @ kt @ w2 @ 0x3A # w3 @ t @ w4 @ 0x2C # (r @ 0x7D # r'))" using a by simp
    have vsp: "value_spec ctx d m t v" using more_members.IH(4) more_members.prems m(2) by blast
    have q: "quoted (rules_of ctx) kt k" "member_ok (rules_of ctx) acc k"
      using more_members.IH(1,2) more_members.prems by simp_all
    obtain ki' es2 st' where o: "moves st (length ?t) st'"
        "obj_inv ctx lo ki' es2 st' (obj_put acc k v)"
        "object_loop ctx (Suc (Suc m)) ki es' st = object_loop ctx (Suc m) ki' es2 (advance 1 st')"
      using object_member [OF ok vsp _ _ a' more_members.hyps _ q d inv] t by auto
    have a2: "ahead ctx (advance 1 st') (r @ 0x7D # r')"
      using ahead_tl [OF moves_ahead [of ctx st ?t, OF _ o(1)]] a' by simp
    have inv2: "obj_inv ctx lo ki' es2 (advance 1 st') (obj_put acc k v)"
      using o(2) views_in_mono [of lo "st_curr st'" "JObj es2" lo "st_curr (advance 1 st')"]
      by (simp add: obj_inv_def)
    have d2: "depth_ok ctx (st_depth (advance 1 st')) d" using d moves_sel(2) [OF o(1)] by simp
    have "obj_done lo (advance 1 st') (length r) es (object_loop ctx (Suc m) ki' es2 (advance 1 st'))"
      using more_members.IH(6) more_members.prems m(3) a2 d2 inv2 by blast
    then obtain v' st2 where r2: "object_loop ctx (Suc m) ki' es2 (advance 1 st') = POk v' (leave (advance 1 st2))"
        "parsed lo (advance 1 st') (length r) v' (JObj es) st2" by (auto simp: obj_done_def)
    have "moves st (length ?t + (1 + length r)) st2"
      using r2(2) by (intro moves_trans [OF o(1)] advance_then_moves) (simp add: parsed_def)
    then have "parsed lo st (length (w1 @ kt @ w2 @ 0x3A # w3 @ t @ w4 @ 0x2C # r)) v' (JObj es) st2"
      using r2(2) by (simp add: parsed_def add_ac)
    then show "obj_done lo st (length (w1 @ kt @ w2 @ 0x3A # w3 @ t @ w4 @ 0x2C # r)) es
        (object_loop ctx n ki es' st)"
      unfolding obj_done_def m(1) using o(3) r2(1) by auto
  qed
next
  case (null d)
  then show ?case using scalar_spec(1) [OF ok] by simp
next
  case (true d)
  then show ?case using scalar_spec(1) [OF ok] by simp
next
  case (false d)
  then show ?case using scalar_spec(1) [OF ok] by simp
next
  case (number neg ip fr ex t v d)
  then show ?case using scalar_spec(2) [OF ok] by blast
next
  case (string t s d)
  then show ?case using scalar_spec(3) [OF ok] by blast
qed

end
