(* ===== verification/ParserSound.thy ===== *)
theory ParserSound
  imports ParserProofs
begin

text \<open>
  Soundness and totality of the recursive parser: what it accepts is a JSON text with the
  value it returns, and on padded input it never reads outside the buffer and never runs
  out of the fuel of \<^verbatim>\<open>parse_kernel\<close>.
\<close>

section \<open>Monotonicity of the depth bound\<close>

lemma text_mono:
  "value_text R d t v \<Longrightarrow> \<forall>e. d \<le> e \<longrightarrow> value_text R e t v"
  "elements_text R d t vs \<Longrightarrow> \<forall>e. d \<le> e \<longrightarrow> elements_text R e t vs"
  "members_text R d acc t es \<Longrightarrow> \<forall>e. d \<le> e \<longrightarrow> members_text R e acc t es"
proof (induction rule: value_text_elements_text_members_text.inducts)
  case (array d t vs)
  show ?case
  proof (intro allI impI)
    fix e assume "Suc d \<le> e"
    then obtain e' where "e = Suc e'" "d \<le> e'" by (cases e) auto
    with array show "value_text R e (0x5B # t @ [0x5D]) (JArr vs)"
      by (auto intro: value_text_elements_text_members_text.array)
  qed
next
  case (object d t es)
  show ?case
  proof (intro allI impI)
    fix e assume "Suc d \<le> e"
    then obtain e' where "e = Suc e'" "d \<le> e'" by (cases e) auto
    with object show "value_text R e (0x7B # t @ [0x7D]) (JObj es)"
      by (auto intro: value_text_elements_text_members_text.object)
  qed
next
  case (empty_array w d)
  show ?case
  proof (intro allI impI)
    fix e assume "Suc d \<le> e"
    then obtain e' where "e = Suc e'" "d \<le> e'" by (cases e) auto
    with empty_array show "value_text R e (0x5B # w @ [0x5D]) (JArr [])"
      by (auto intro: value_text_elements_text_members_text.empty_array)
  qed
next
  case (empty_object w d)
  show ?case
  proof (intro allI impI)
    fix e assume "Suc d \<le> e"
    then obtain e' where "e = Suc e'" "d \<le> e'" by (cases e) auto
    with empty_object show "value_text R e (0x7B # w @ [0x7D]) (JObj [])"
      by (auto intro: value_text_elements_text_members_text.empty_object)
  qed
qed (auto intro: value_text_elements_text_members_text.intros)

lemmas value_mono = text_mono(1) [rule_format]
lemmas elements_mono = text_mono(2) [rule_format]
lemmas members_mono = text_mono(3) [rule_format]

lemma depth_ok_max: "depth_ok ctx k d \<Longrightarrow> depth_ok ctx k e \<Longrightarrow> depth_ok ctx k (max d e)"
  by (auto simp: depth_ok_def max_def)

section \<open>Steps on arbitrary content\<close>

lemma skip_any:
  assumes "rfc_ok ctx" "ahead ctx st u"
  obtains w u' where "u = w @ u'" "ws w" "u' = [] \<or> \<not> is_whitespace (hd u')"
    "skip_whitespace ctx st = POk () (advance (length w) st)" "ahead ctx (advance (length w) st) u'"
proof -
  let ?w = "take (ws_run u) u" and ?u = "drop (ws_run u) u"
  have l: "length ?w = ws_run u" using ws_run_le [of u] by simp
  have "skip_whitespace ctx st = POk () (advance (length ?w) st)"
    using skip_whitespace_rfc assms l by (simp add: rfc_ok_def)
  moreover have "ahead ctx (advance (length ?w) st) ?u"
    using ahead_skip [of ctx st ?w ?u] assms(2) by simp
  moreover have "ws ?w" using ws_run_take by (simp add: ws_def)
  ultimately show thesis using that [of ?w ?u] ws_run_stop by simp
qed

definition no_result :: "'a pres \<Rightarrow> bool" where
  "no_result r \<longleftrightarrow> (\<exists>e. r = PFail e)"

lemma pfail_no_result [simp]: "no_result (pfail ctx c p st)" "no_result (pfail_context c d st)"
  by (simp_all add: no_result_def pfail_def pfail_context_def)

lemma no_result_simps: "no_result r \<Longrightarrow> r \<noteq> POk v st" "no_result r \<Longrightarrow> r \<noteq> POob" "no_result r \<Longrightarrow> r \<noteq> PFuel"
  by (auto simp: no_result_def)

lemma no_result_POk: "pfail ctx c p st \<noteq> POk v st'" "pfail_context c d st \<noteq> POk v st'"
  by (simp_all add: pfail_def pfail_context_def)

lemma parse_scalar_sound:
  assumes "rfc_ok ctx" "ahead ctx st u" "c = (if u = [] then 0 else hd u)" "no_result dflt"
    and "parse_scalar ctx c st dflt = POk v' st'"
  shows "\<exists>t r v. u = t @ r \<and> value_text (rules_of ctx) d t v \<and> parsed (st_curr st) st (length t) v' v st'"
proof -
  have j: "\<not> c_json5 ctx" using assms(1) by (simp add: rfc_ok_def)
  consider "c = 0x22" "json_string (parse_string ctx st) = POk v' st'"
    | "literal_start c" "parse_literal ctx st = POk v' st'"
    | "number_start c" "parse_number ctx st = POk v' st'"
    using assms(4,5) j by (auto simp: parse_scalar_def no_result_simps split: if_splits)
  then show ?thesis
  proof cases
    case 1
    then obtain k where k: "parse_string ctx st = POk k st'" "v' = JStr k"
      by (auto simp: json_string_def bindp_eq_POk)
    have "u = 0x22 # tl u" using 1(1) assms(3) by (cases u) auto
    then obtain t r s where "u = t @ r" "quoted (rules_of ctx) t s" "string_step st (length t) k s st'"
      using parse_string_sound [OF assms(1) _ k(1)] assms(2) by metis
    then show ?thesis
      by (intro exI [of _ t] exI [of _ r] exI [of _ "JStr s"])
        (auto simp: k(2) string_step_def parsed_def views_in_def
          intro: value_text_elements_text_members_text.string)
  next
    case 2
    obtain t r where t: "u = t @ r" "st' = advance (length t) st"
      "t = lit ''true'' \<and> v' = JBool True \<or> t = lit ''null'' \<and> v' = JNull \<or> t = lit ''false'' \<and> v' = JBool False"
      using parse_literal_sound [OF assms(2) 2(2)] by blast
    have "value_text (rules_of ctx) d t (resolve (st_buf st) v')" "set_json v' = {}"
      using t(3) by (auto intro: value_text_elements_text_members_text.intros)
    then show ?thesis using t(1,2) parsed_same by blast
  next
    case 3
    then show ?thesis using parse_number_sound [OF assms(1,2)] by blast
  qed
qed

lemma parse_scalar_total:
  assumes "rfc_ok ctx" "ahead ctx st u" "no_result dflt"
  shows "parse_scalar ctx c st dflt \<noteq> POob \<and> parse_scalar ctx c st dflt \<noteq> PFuel"
proof -
  have "json_string (parse_string ctx st) \<noteq> POob" "json_string (parse_string ctx st) \<noteq> PFuel"
    using parse_string_total [OF assms(1,2)]
    by (cases "parse_string ctx st"; simp add: json_string_def)+
  then show ?thesis
    using assms(1,3) parse_literal_total [OF assms(2)] parse_number_total [of ctx st]
    by (auto simp: parse_scalar_def rfc_ok_def no_result_simps)
qed

text \<open>The key of a member.\<close>

lemma parse_key_sound:
  assumes "rfc_ok ctx" "ahead ctx st u" "parse_key ctx st = POk k st'"
  shows "\<exists>t r s. u = t @ r \<and> quoted (rules_of ctx) t s \<and> string_step st (length t) k s st'"
proof -
  have j: "\<not> c_json5 ctx" using assms(1) by (simp add: rfc_ok_def)
  have "(if u = [] then 0 else hd u) = 0x22" "parse_string ctx st = POk k st'"
    using assms(3) j
    by (auto simp: parse_key_def at_cursor_ahead [OF assms(2)] no_result_POk split: if_splits)
  moreover from this(1) have "u = 0x22 # tl u" by (cases u) auto
  ultimately show ?thesis using parse_string_sound [OF assms(1), of st "tl u" k st'] assms(2) by auto
qed

lemma parse_key_total:
  assumes "rfc_ok ctx" "ahead ctx st u"
  shows "parse_key ctx st \<noteq> POob \<and> parse_key ctx st \<noteq> PFuel"
  using assms(1) parse_string_total [OF assms]
  by (auto simp: parse_key_def rfc_ok_def at_cursor_ahead [OF assms(2)] no_result_simps)

section \<open>Soundness\<close>

definition value_sound :: "pctx \<Rightarrow> nat \<Rightarrow> bool" where
  "value_sound ctx n \<longleftrightarrow> (\<forall>st u v' st'. ahead ctx st u \<longrightarrow> depth_ok ctx (st_depth st) 0 \<longrightarrow>
     parse_value_inplace ctx n st = POk v' st' \<longrightarrow>
     (\<exists>w t r v d. u = w @ t @ r \<and> ws w \<and> value_text (rules_of ctx) d t v \<and>
        depth_ok ctx (st_depth st) d \<and> parsed (st_curr st) st (length (w @ t)) v' v st'))"

definition array_sound :: "pctx \<Rightarrow> nat \<Rightarrow> bool" where
  "array_sound ctx n \<longleftrightarrow> (\<forall>st u xs vs0 lo v' st2. ahead ctx st u \<longrightarrow> depth_ok ctx (st_depth st) 0 \<longrightarrow>
     array_loop ctx n xs st = POk v' st2 \<longrightarrow>
     resolve (st_buf st) (JArr xs) = JArr vs0 \<longrightarrow> views_in lo (st_curr st) (JArr xs) \<longrightarrow> lo \<le> st_curr st \<longrightarrow>
     (\<exists>t r vs d st'. u = t @ 0x5D # r \<and> elements_text (rules_of ctx) d t vs \<and> depth_ok ctx (st_depth st) d \<and>
        st2 = leave (advance 1 st') \<and> parsed lo st (length t) v' (JArr (vs0 @ vs)) st'))"

definition object_sound :: "pctx \<Rightarrow> nat \<Rightarrow> bool" where
  "object_sound ctx n \<longleftrightarrow> (\<forall>st u ki es' acc lo v' st2. ahead ctx st u \<longrightarrow> depth_ok ctx (st_depth st) 0 \<longrightarrow>
     object_loop ctx n ki es' st = POk v' st2 \<longrightarrow>
     obj_inv ctx lo ki es' st acc \<longrightarrow>
     (\<exists>t r es d st'. u = t @ 0x7D # r \<and> members_text (rules_of ctx) d acc t es \<and> depth_ok ctx (st_depth st) d \<and>
        st2 = leave (advance 1 st') \<and> parsed lo st (length t) v' (JObj es) st'))"

lemma not_exceeded_depth_ok: "\<not> depth_exceeded ctx st \<Longrightarrow> depth_ok ctx (st_depth (enter st)) d \<Longrightarrow>
    depth_ok ctx (st_depth st) (Suc d)"
  by (auto simp: depth_exceeded_def depth_ok_def)

lemma depth_ok_1: "\<not> depth_exceeded ctx st \<Longrightarrow> depth_ok ctx (st_depth st) (Suc 0)"
  by (auto simp: depth_exceeded_def depth_ok_def)

lemma depth_ok_enter: "\<not> depth_exceeded ctx st \<Longrightarrow> depth_ok ctx (st_depth (enter st)) 0"
  by (auto simp: depth_exceeded_def depth_ok_def)

lemma no_json5: "rfc_ok ctx \<Longrightarrow> \<not> c_json5 ctx"
  by (simp add: rfc_ok_def)

lemma at_cursor_head:
  assumes "ahead ctx st u" "at_cursor st f = POk v st'" "\<And>v st'. f 0 \<noteq> POk v st'"
  obtains c r where "u = c # r" "f c = POk v st'"
  using assms by (cases u) (auto simp: at_cursor_ahead [OF assms(1)])

text \<open>An element and its separator.\<close>

lemma array_loop_inv:
  assumes ok: "rfc_ok ctx" and a: "ahead ctx st u" and d0: "depth_ok ctx (st_depth st) 0"
    and vs: "value_sound ctx n" and r: "array_loop ctx (Suc n) xs st = POk v' st2"
    and xs: "resolve (st_buf st) (JArr xs) = JArr vs0" "views_in lo (st_curr st) (JArr xs)" "lo \<le> st_curr st"
  obtains w1 t w2 c r d v xs' st' where "u = w1 @ t @ w2 @ c # r" "ws w1" "value_text (rules_of ctx) d t v" "ws w2"
      "depth_ok ctx (st_depth st) d" "parsed lo st (length (w1 @ t @ w2)) (JArr xs') (JArr (vs0 @ [v])) st'"
      "ahead ctx st' (c # r)"
      "c = 0x5D \<and> v' = JArr xs' \<and> st2 = leave (advance 1 st') \<or>
       c = 0x2C \<and> array_loop ctx n xs' (advance 1 st') = POk v' st2"
proof -
  obtain v1 st1 where st1: "parse_value_inplace ctx n st = POk v1 st1"
    using r by (auto simp: bindp_eq_POk)
  obtain w1 t u1 v d where t: "u = w1 @ t @ u1" "ws w1" "value_text (rules_of ctx) d t v"
      "depth_ok ctx (st_depth st) d" "parsed (st_curr st) st (length (w1 @ t)) v1 v st1"
    using vs [unfolded value_sound_def, rule_format, OF a d0 st1] by blast
  have a1: "ahead ctx st1 u1"
    using moves_ahead [of ctx st "w1 @ t" u1 st1] a t(1,5) by (simp add: parsed_def)
  obtain w2 u2 where sk: "u1 = w2 @ u2" "ws w2" "skip_whitespace ctx st1 = POk () (advance (length w2) st1)"
      "ahead ctx (advance (length w2) st1) u2"
    using skip_any [OF ok a1] by blast
  let ?st = "advance (length w2) st1" and ?xs = "xs @ [v1]"
  have p: "parsed lo st (length (w1 @ t @ w2)) (JArr ?xs) (JArr (vs0 @ [v])) ?st"
    using parsed_suffix [OF array_extend [OF t(5) xs], of "length w2"] by (simp add: add.assoc)
  have "at_cursor ?st (\<lambda>c.
         if c = 0x5D then POk (JArr ?xs) (leave (advance 1 ?st))
         else if c = 0x2C then array_loop ctx n ?xs (advance 1 ?st)
         else pfail ctx ExpectedCommaOrBracket (st_curr ?st) ?st) = POk v' st2"
    using r unfolding array_loop.simps(2) st1 bindp_simps(1) sk(3) if_not_P [OF no_json5 [OF ok]] .
  then obtain c r' where c: "u2 = c # r'" "(if c = 0x5D then POk (JArr ?xs) (leave (advance 1 ?st))
         else if c = 0x2C then array_loop ctx n ?xs (advance 1 ?st)
         else pfail ctx ExpectedCommaOrBracket (st_curr ?st) ?st) = POk v' st2"
    by (rule at_cursor_head [OF sk(4)]) (simp_all add: no_result_POk)
  show thesis
    by (rule that [of w1 t w2 c r' d v ?xs ?st])
      (use t sk c p in \<open>auto simp: no_result_POk split: if_splits\<close>)
qed

lemma array_sound_Suc:
  assumes ok: "rfc_ok ctx" and vs: "value_sound ctx n" and as: "array_sound ctx n"
  shows "array_sound ctx (Suc n)"
  unfolding array_sound_def
proof (intro allI impI)
  fix st u xs vs0 lo v' st2
  assume a: "ahead ctx st u" and d0: "depth_ok ctx (st_depth st) 0"
    and r: "array_loop ctx (Suc n) xs st = POk v' st2"
    and xs: "resolve (st_buf st) (JArr xs) = JArr vs0" "views_in lo (st_curr st) (JArr xs)" "lo \<le> st_curr st"
  obtain w1 t w2 c r d v xs' st' where e: "u = w1 @ t @ w2 @ c # r" "ws w1"
      "value_text (rules_of ctx) d t v" "ws w2"
      "depth_ok ctx (st_depth st) d" "parsed lo st (length (w1 @ t @ w2)) (JArr xs') (JArr (vs0 @ [v])) st'"
      "ahead ctx st' (c # r)"
      "c = 0x5D \<and> v' = JArr xs' \<and> st2 = leave (advance 1 st') \<or>
       c = 0x2C \<and> array_loop ctx n xs' (advance 1 st') = POk v' st2"
    by (rule array_loop_inv [OF ok a d0 vs r xs])
  have mv: "moves st (length (w1 @ t @ w2)) st'" using e(6) by (simp add: parsed_def)
  from e(8) show "\<exists>t r vs d st'. u = t @ 0x5D # r \<and> elements_text (rules_of ctx) d t vs \<and>
      depth_ok ctx (st_depth st) d \<and> st2 = leave (advance 1 st') \<and>
      parsed lo st (length t) v' (JArr (vs0 @ vs)) st'"
  proof
    assume c: "c = 0x5D \<and> v' = JArr xs' \<and> st2 = leave (advance 1 st')"
    then show ?thesis
      using e(1-6) last_element [OF e(2,3,4)]
      by (intro exI [of _ "w1 @ t @ w2"] exI [of _ r] exI [of _ "[v]"] exI [of _ d] exI [of _ st']) auto
  next
    assume c: "c = 0x2C \<and> array_loop ctx n xs' (advance 1 st') = POk v' st2"
    have a2: "ahead ctx (advance 1 st') r" using ahead_tl [OF e(7)] .
    have d2: "depth_ok ctx (st_depth (advance 1 st')) 0" using d0 moves_sel(2) [OF mv] by simp
    have x2: "resolve (st_buf (advance 1 st')) (JArr xs') = JArr (vs0 @ [v])"
        "views_in lo (st_curr (advance 1 st')) (JArr xs')" "lo \<le> st_curr (advance 1 st')"
      using e(6) xs(3) moves_sel(1) [OF mv] views_in_mono [of lo "st_curr st'" "JArr xs'" lo "st_curr st' + 1"]
      by (simp_all add: parsed_def)
    obtain t2 r2 vs2 d2 st3 where ih: "r = t2 @ 0x5D # r2" "elements_text (rules_of ctx) d2 t2 vs2"
        "depth_ok ctx (st_depth (advance 1 st')) d2" "st2 = leave (advance 1 st3)"
        "parsed lo (advance 1 st') (length t2) v' (JArr ((vs0 @ [v]) @ vs2)) st3"
      using as [unfolded array_sound_def, rule_format, OF a2 d2 c [THEN conjunct2] x2] by blast
    let ?d = "max d d2"
    have "elements_text (rules_of ctx) ?d (w1 @ t @ w2 @ 0x2C # t2) (v # vs2)"
      by (rule more_elements [OF e(2) _ e(4)]) (auto intro: value_mono [OF e(3)] elements_mono [OF ih(2)])
    moreover have "depth_ok ctx (st_depth st) ?d"
      using e(5) ih(3) moves_sel(2) [OF mv] by (intro depth_ok_max) auto
    moreover have "parsed lo st (length (w1 @ t @ w2 @ 0x2C # t2)) v' (JArr (vs0 @ v # vs2)) st3"
    proof -
      have "moves st (length (w1 @ t @ w2) + (1 + length t2)) st3"
        using ih(5) by (intro moves_trans [OF mv] advance_then_moves) (simp add: parsed_def)
      then show ?thesis using ih(5) by (simp add: parsed_def add_ac)
    qed
    ultimately show ?thesis
      using e(1) ih(1,4) c
      by (intro exI [of _ "w1 @ t @ w2 @ 0x2C # t2"] exI [of _ r2] exI [of _ "v # vs2"] exI [of _ ?d] exI [of _ st3])
        simp
  qed
qed

text \<open>A member and its separator.\<close>

lemma object_loop_inv:
  assumes ok: "rfc_ok ctx" and a: "ahead ctx st u" and d0: "depth_ok ctx (st_depth st) 0"
    and vs: "value_sound ctx n" and r: "object_loop ctx (Suc n) ki es st = POk v' st2"
    and inv: "obj_inv ctx lo ki es st acc"
  obtains w1 kt k w2 w3 t v w4 c r d st' ki' es' where "u = (w1 @ kt @ w2 @ 0x3A # w3 @ t @ w4) @ c # r"
      "ws w1" "ws w2" "ws w3" "ws w4" "quoted (rules_of ctx) kt k" "member_ok (rules_of ctx) acc k"
      "value_text (rules_of ctx) d t v" "depth_ok ctx (st_depth st) d"
      "moves st (length (w1 @ kt @ w2 @ 0x3A # w3 @ t @ w4)) st'"
      "obj_inv ctx lo ki' es' st' (obj_put acc k v)" "ahead ctx st' (c # r)"
      "c = 0x7D \<and> v' = JObj es' \<and> st2 = leave (advance 1 st') \<or>
       c = 0x2C \<and> object_loop ctx n ki' es' (advance 1 st') = POk v' st2"
proof -
  note j = if_not_P [OF no_json5 [OF ok]]
  obtain w1 u1 where s1: "u = w1 @ u1" "ws w1" "skip_whitespace ctx st = POk () (advance (length w1) st)"
      "ahead ctx (advance (length w1) st) u1"
    using skip_any [OF ok a] by blast
  let ?s1 = "advance (length w1) st"
  obtain kv s2 where s2: "parse_key ctx ?s1 = POk kv s2"
    using r by (auto simp: s1(3) bindp_eq_POk)
  obtain kt u2 k where k: "u1 = kt @ u2" "quoted (rules_of ctx) kt k" "string_step ?s1 (length kt) kv k s2"
    using parse_key_sound [OF ok s1(4) s2] by blast
  have m2: "moves ?s1 (length kt) s2" and kv: "view_bytes (st_buf s2) kv = k"
    using k(3) by (auto simp: string_step_def)
  have m2': "moves st (length w1 + length kt) s2" by (rule advance_then_moves [OF m2])
  have a2: "ahead ctx s2 u2" using moves_ahead [OF _ m2] s1(4) k(1) by blast
  have "resolve (st_buf s2) (JObj es) = JObj acc"
    using inv resolve_moves [OF m2', of lo "JObj es"] by (simp add: obj_inv_def)
  then have ks: "map (\<lambda>e. view_bytes (st_buf s2) (fst e)) es = map fst acc"
    by (auto simp: comp_def split_beta)
  have dup: "\<not> (c_strict_dup ctx \<and> k \<in> set (map fst acc))"
  proof
    assume "c_strict_dup ctx \<and> k \<in> set (map fst acc)"
    then have "object_loop ctx (Suc n) ki es st = pfail_context DuplicateKey k s2"
      unfolding object_loop.simps(2) s1(3) bindp_simps(1) s2 Let_def kv ks by (rule if_P)
    then show False using r by (simp add: no_result_POk)
  qed
  obtain w2 u3 where s3: "u2 = w2 @ u3" "ws w2" "skip_whitespace ctx s2 = POk () (advance (length w2) s2)"
      "ahead ctx (advance (length w2) s2) u3"
    using skip_any [OF ok a2] by blast
  let ?s3 = "advance (length w2) s2"
  note r3 = r [unfolded object_loop.simps(2) s1(3) bindp_simps(1) s2 Let_def kv ks if_not_P [OF dup] s3(3)]
  obtain u4 where u4: "u3 = 0x3A # u4" and r4: "(case member_slot ctx (map fst acc) ki k of
           None \<Rightarrow> PFuel
         | Some (pos, ki') \<Rightarrow>
             bindp (parse_value_inplace ctx n (advance 1 ?s3)) (\<lambda>v st.
             bindp (skip_whitespace ctx st) (\<lambda>_ st.
               if c_end ctx \<le> st_curr st then pfail ctx UnexpectedEndOfObject (st_curr st) st
               else at_cursor st (\<lambda>c.
                 if c = 0x7D then POk (JObj (put_at es pos kv v)) (leave (advance 1 st))
                 else if c = 0x2C then object_loop ctx n ki' (put_at es pos kv v) (advance 1 st)
                 else pfail ctx ExpectedCommaOrBrace (st_curr st) st)))) = POk v' st2"
    using r3 unfolding j
    by (rule at_cursor_head [OF s3(4)]) (auto simp: no_result_POk split: if_splits)
  obtain pos ki' where slot: "member_slot ctx (map fst acc) ki k = Some (pos, ki')"
    using r4 by (cases "member_slot ctx (map fst acc) ki k") auto
  have a4: "ahead ctx (advance 1 ?s3) u4" using ahead_tl [of ctx ?s3 "0x3A" u4] s3(4) u4 by simp
  obtain v1 s5 where s5: "parse_value_inplace ctx n (advance 1 ?s3) = POk v1 s5"
    using r4 by (auto simp: slot bindp_eq_POk)
  have dd: "st_depth (advance 1 ?s3) = st_depth st" using moves_sel(2) [OF m2'] by simp
  then have d4: "depth_ok ctx (st_depth (advance 1 ?s3)) 0" using d0 by simp
  obtain w3 t u5 v d where t: "u4 = w3 @ t @ u5" "ws w3" "value_text (rules_of ctx) d t v"
      "depth_ok ctx (st_depth (advance 1 ?s3)) d" "parsed (st_curr (advance 1 ?s3)) (advance 1 ?s3) (length (w3 @ t)) v1 v s5"
    using vs [unfolded value_sound_def, rule_format, OF a4 d4 s5] by blast
  have a5: "ahead ctx s5 u5"
    using moves_ahead [of ctx "advance 1 ?s3" "w3 @ t" u5 s5] a4 t(1,5) by (simp add: parsed_def)
  obtain w4 u6 where s6: "u5 = w4 @ u6" "ws w4" "skip_whitespace ctx s5 = POk () (advance (length w4) s5)"
      "ahead ctx (advance (length w4) s5) u6"
    using skip_any [OF ok a5] by blast
  let ?s6 = "advance (length w4) s5" and ?es = "put_at es pos kv v1"
  have r6: "(if c_end ctx \<le> st_curr ?s6 then pfail ctx UnexpectedEndOfObject (st_curr ?s6) ?s6
      else at_cursor ?s6 (\<lambda>c.
         if c = 0x7D then POk (JObj ?es) (leave (advance 1 ?s6))
         else if c = 0x2C then object_loop ctx n ki' ?es (advance 1 ?s6)
         else pfail ctx ExpectedCommaOrBrace (st_curr ?s6) ?s6)) = POk v' st2"
    using r4 unfolding slot option.case prod.case s5 bindp_simps(1) s6(3) .
  then have r7: "at_cursor ?s6 (\<lambda>c.
         if c = 0x7D then POk (JObj ?es) (leave (advance 1 ?s6))
         else if c = 0x2C then object_loop ctx n ki' ?es (advance 1 ?s6)
         else pfail ctx ExpectedCommaOrBrace (st_curr ?s6) ?s6) = POk v' st2"
    by (auto simp: no_result_POk split: if_splits)
  obtain c r' where c: "u6 = c # r'" "(if c = 0x7D then POk (JObj ?es) (leave (advance 1 ?s6))
         else if c = 0x2C then object_loop ctx n ki' ?es (advance 1 ?s6)
         else pfail ctx ExpectedCommaOrBrace (st_curr ?s6) ?s6) = POk v' st2"
    by (rule at_cursor_head [OF s6(4) r7]) (simp_all add: no_result_POk)
  have mok: "member_ok (rules_of ctx) acc k" using dup by (auto simp: member_ok_def)
  note asm = member_assemble [OF inv mok k(3) t(5) slot, of "length w4"]
  have u: "u = (w1 @ kt @ w2 @ 0x3A # w3 @ t @ w4) @ c # r'" using s1 k(1) s3(1) u4 t(1) s6(1) c(1) by simp
  have mv: "moves st (length (w1 @ kt @ w2 @ 0x3A # w3 @ t @ w4)) ?s6"
    using asm(1) by (simp add: add_ac)
  show thesis
    by (rule that [OF u s1(2) s3(2) t(2) s6(2) k(2) mok t(3) _ mv asm(2)])
      (use t(4) s6(4) c dd in \<open>auto simp: no_result_POk split: if_splits\<close>)
qed

lemma object_sound_Suc:
  assumes ok: "rfc_ok ctx" and vs: "value_sound ctx n" and os: "object_sound ctx n"
  shows "object_sound ctx (Suc n)"
  unfolding object_sound_def
proof (intro allI impI)
  fix st u ki es acc lo v' st2
  assume a: "ahead ctx st u" and d0: "depth_ok ctx (st_depth st) 0"
    and r: "object_loop ctx (Suc n) ki es st = POk v' st2" and inv: "obj_inv ctx lo ki es st acc"
  obtain w1 kt k w2 w3 t v w4 c r d st' ki' es' where e: "u = (w1 @ kt @ w2 @ 0x3A # w3 @ t @ w4) @ c # r"
      "ws w1" "ws w2" "ws w3" "ws w4" "quoted (rules_of ctx) kt k" "member_ok (rules_of ctx) acc k"
      "value_text (rules_of ctx) d t v" "depth_ok ctx (st_depth st) d"
      "moves st (length (w1 @ kt @ w2 @ 0x3A # w3 @ t @ w4)) st'"
      "obj_inv ctx lo ki' es' st' (obj_put acc k v)" "ahead ctx st' (c # r)"
      "c = 0x7D \<and> v' = JObj es' \<and> st2 = leave (advance 1 st') \<or>
       c = 0x2C \<and> object_loop ctx n ki' es' (advance 1 st') = POk v' st2"
    by (rule object_loop_inv [OF ok a d0 vs r inv])
  let ?m = "w1 @ kt @ w2 @ 0x3A # w3 @ t @ w4"
  from e(13) show "\<exists>t r es d st'. u = t @ 0x7D # r \<and> members_text (rules_of ctx) d acc t es \<and>
      depth_ok ctx (st_depth st) d \<and> st2 = leave (advance 1 st') \<and> parsed lo st (length t) v' (JObj es) st'"
  proof
    assume c: "c = 0x7D \<and> v' = JObj es' \<and> st2 = leave (advance 1 st')"
    have "parsed lo st (length ?m) (JObj es') (JObj (obj_put acc k v)) st'"
      using e(10,11) by (simp add: parsed_def obj_inv_def)
    then show ?thesis
      using e(1,9) c last_member [OF e(2,6,7,3,4,8,5)]
      by (intro exI [of _ ?m] exI [of _ r] exI [of _ "obj_put acc k v"] exI [of _ d] exI [of _ st']) simp
  next
    assume c: "c = 0x2C \<and> object_loop ctx n ki' es' (advance 1 st') = POk v' st2"
    have a2: "ahead ctx (advance 1 st') r" using ahead_tl [OF e(12)] .
    have d2: "depth_ok ctx (st_depth (advance 1 st')) 0" using d0 moves_sel(2) [OF e(10)] by simp
    have inv2: "obj_inv ctx lo ki' es' (advance 1 st') (obj_put acc k v)"
      using e(11) views_in_mono [of lo "st_curr st'" "JObj es'" lo "st_curr (advance 1 st')"]
      by (simp add: obj_inv_def)
    obtain t2 r2 es2 d3 st3 where ih: "r = t2 @ 0x7D # r2"
        "members_text (rules_of ctx) d3 (obj_put acc k v) t2 es2"
        "depth_ok ctx (st_depth (advance 1 st')) d3" "st2 = leave (advance 1 st3)"
        "parsed lo (advance 1 st') (length t2) v' (JObj es2) st3"
      using os [unfolded object_sound_def, rule_format, OF a2 d2 c [THEN conjunct2] inv2] by blast
    let ?d = "max d d3"
    have "members_text (rules_of ctx) ?d acc (?m @ 0x2C # t2) es2"
      using more_members [OF e(2,6,7,3,4) _ e(5), of ?d t v t2 es2] value_mono [OF e(8), of ?d]
        members_mono [OF ih(2), of ?d] by simp
    moreover have "depth_ok ctx (st_depth st) ?d"
      using e(9) ih(3) moves_sel(2) [OF e(10)] by (intro depth_ok_max) auto
    moreover have "parsed lo st (length (?m @ 0x2C # t2)) v' (JObj es2) st3"
    proof -
      have "moves st (length ?m + (1 + length t2)) st3"
        using ih(5) by (intro moves_trans [OF e(10)] advance_then_moves) (simp add: parsed_def)
      then show ?thesis using ih(5) by (simp add: parsed_def add_ac)
    qed
    ultimately show ?thesis
      using e(1) ih(1,4) c
      by (intro exI [of _ "?m @ 0x2C # t2"] exI [of _ r2] exI [of _ es2] exI [of _ ?d] exI [of _ st3]) simp
  qed
qed

section \<open>Containers and values\<close>

lemma ws_append [simp]: "ws (a @ b) \<longleftrightarrow> ws a \<and> ws b"
  by (auto simp: ws_def)

lemma elements_text_prepend:
  assumes "elements_text R d t vs" "ws w"
  shows "elements_text R d (w @ t) vs"
  using assms(1)
proof (cases rule: elements_text.cases)
  case (last_element w1 t1 v w2)
  then show ?thesis
    using assms(2) value_text_elements_text_members_text.last_element [of "w @ w1" R d t1 v w2] by simp
next
  case (more_elements w1 t1 v w2 r vs)
  then show ?thesis
    using assms(2) value_text_elements_text_members_text.more_elements [of "w @ w1" R d t1 v w2 r vs] by simp
qed

lemma members_text_prepend:
  assumes "members_text R d acc t es" "ws w"
  shows "members_text R d acc (w @ t) es"
  using assms(1)
proof (cases rule: members_text.cases)
  case (last_member w1 kt k w2 w3 t1 v w4)
  then show ?thesis
    using assms(2) value_text_elements_text_members_text.last_member [of "w @ w1" R kt k acc w2 w3 d t1 v w4]
    by simp
next
  case (more_members w1 kt k w2 w3 t1 v w4 r)
  then show ?thesis
    using assms(2) value_text_elements_text_members_text.more_members [of "w @ w1" R kt k acc w2 w3 d t1 v w4 r es]
    by simp
qed

definition container_sound :: "pctx \<Rightarrow> pstate \<Rightarrow> bytes \<Rightarrow> view json \<Rightarrow> pstate \<Rightarrow> bool" where
  "container_sound ctx st u v' st' \<longleftrightarrow>
     (\<exists>t r v d. u = t @ r \<and> value_text (rules_of ctx) d t v \<and> depth_ok ctx (st_depth st) d \<and>
        parsed (st_curr st) st (length t) v' v st')"

lemma container_soundI:
  "u = t @ r \<Longrightarrow> value_text (rules_of ctx) d t v \<Longrightarrow> depth_ok ctx (st_depth st) d \<Longrightarrow>
   parsed (st_curr st) st (length t) v' v st' \<Longrightarrow> container_sound ctx st u v' st'"
  unfolding container_sound_def by blast

lemma array_inplace_sound:
  assumes ok: "rfc_ok ctx" and as: "array_sound ctx n" and a: "ahead ctx st (0x5B # u)"
    and r: "parse_array_inplace ctx (Suc n) st = POk v' st'"
  shows "container_sound ctx st (0x5B # u) v' st'"
proof -
  let ?s = "advance 1 (enter st)"
  have dx: "\<not> depth_exceeded ctx st" using r by (auto simp: no_result_POk)
  have a1: "ahead ctx ?s u" using ahead_tl [OF a] by simp
  obtain w u' where s1: "u = w @ u'" "ws w" "skip_whitespace ctx ?s = POk () (advance (length w) ?s)"
      "ahead ctx (advance (length w) ?s) u'"
    using skip_any [OF ok a1] by blast
  let ?s1 = "advance (length w) ?s"
  have r1: "(if closes ctx 0x5D ?s1 then POk (JArr []) (leave (advance 1 ?s1))
      else array_loop ctx n [] ?s1) = POk v' st'"
    using r unfolding parse_array_inplace.simps(2) if_not_P [OF dx] s1(3) bindp_simps(1) .
  show ?thesis
  proof (cases "closes ctx 0x5D ?s1")
    case True
    then obtain r' where u': "u' = 0x5D # r'"
      using s1(4) closes_ahead [of ctx ?s1] closes_ahead_Nil [of ctx ?s1] by (cases u') auto
    show ?thesis
      by (rule container_soundI [of _ "0x5B # w @ [0x5D]" r' _ "Suc 0" "JArr []"])
        (use True r1 u' s1(1,2) depth_ok_1 [OF dx] empty_container [of "JArr []" st "JArr []" "length w"]
          in \<open>auto intro: value_text_elements_text_members_text.empty_array\<close>)
  next
    case False
    then have r2: "array_loop ctx n [] ?s1 = POk v' st'" using r1 by simp
    have d0: "depth_ok ctx (st_depth ?s1) 0" using depth_ok_enter [OF dx] by simp
    obtain t r' vs d st3 where ih: "u' = t @ 0x5D # r'" "elements_text (rules_of ctx) d t vs"
        "depth_ok ctx (st_depth ?s1) d" "st' = leave (advance 1 st3)"
        "parsed (st_curr ?s1) ?s1 (length t) v' (JArr ([] @ vs)) st3"
      using as [unfolded array_sound_def, rule_format, OF s1(4) d0 r2, of "[]" "st_curr ?s1"]
      by (auto simp: views_in_def)
    have p: "parsed (st_curr ?s1) ?s (length w + length t) v' (JArr vs) st3"
      using parsed_prefix [OF ih(5)] by simp
    show ?thesis
      by (rule container_soundI [of _ "0x5B # (w @ t) @ [0x5D]" r' _ "Suc d" "JArr vs"])
        (use parsed_container [OF p] ih(1,4) s1(1) not_exceeded_depth_ok [OF dx] ih(3)
            value_text_elements_text_members_text.array [OF elements_text_prepend [OF ih(2) s1(2)]]
          in auto)
  qed
qed

lemma object_inplace_sound:
  assumes ok: "rfc_ok ctx" and os: "object_sound ctx n" and a: "ahead ctx st (0x7B # u)"
    and r: "parse_object_inplace ctx (Suc n) st = POk v' st'"
  shows "container_sound ctx st (0x7B # u) v' st'"
proof -
  let ?s = "advance 1 (enter st)"
  have dx: "\<not> depth_exceeded ctx st" using r by (auto simp: no_result_POk)
  have a1: "ahead ctx ?s u" using ahead_tl [OF a] by simp
  obtain w u' where s1: "u = w @ u'" "ws w" "skip_whitespace ctx ?s = POk () (advance (length w) ?s)"
      "ahead ctx (advance (length w) ?s) u'"
    using skip_any [OF ok a1] by blast
  let ?s1 = "advance (length w) ?s"
  have r1: "at_cursor ?s1 (\<lambda>c. if c = 0x7D then POk (JObj []) (leave (advance 1 ?s1))
      else object_loop ctx n None [] ?s1) = POk v' st'"
    using r unfolding parse_object_inplace.simps(2) if_not_P [OF dx] s1(3) bindp_simps(1) .
  show ?thesis
  proof (cases "u' \<noteq> [] \<and> hd u' = 0x7D")
    case True
    then obtain r' where u': "u' = 0x7D # r'" by (cases u') auto
    have "v' = JObj []" "st' = leave (advance 1 ?s1)" using r1 u' unfolding at_cursor_ahead [OF s1(4)] by simp_all
    then show ?thesis
      by (intro container_soundI [of _ "0x7B # w @ [0x7D]" r' _ "Suc 0" "JObj []"])
        (use u' s1(1,2) depth_ok_1 [OF dx] empty_container [of "JObj []" st "JObj []" "length w"]
          in \<open>auto intro: value_text_elements_text_members_text.empty_object\<close>)
  next
    case False
    then have r2: "object_loop ctx n None [] ?s1 = POk v' st'"
      using r1 unfolding at_cursor_ahead [OF s1(4)] by (cases u') simp_all
    have d0: "depth_ok ctx (st_depth ?s1) 0" using depth_ok_enter [OF dx] by simp
    have inv: "obj_inv ctx (st_curr ?s1) None [] ?s1 []" by (simp add: obj_inv_def views_in_def lazy_ok_def)
    obtain t r' es d st3 where ih: "u' = t @ 0x7D # r'" "members_text (rules_of ctx) d [] t es"
        "depth_ok ctx (st_depth ?s1) d" "st' = leave (advance 1 st3)"
        "parsed (st_curr ?s1) ?s1 (length t) v' (JObj es) st3"
      using os [unfolded object_sound_def, rule_format, OF s1(4) d0 r2 inv] by blast
    have p: "parsed (st_curr ?s1) ?s (length w + length t) v' (JObj es) st3"
      using parsed_prefix [OF ih(5)] by simp
    show ?thesis
      by (rule container_soundI [of _ "0x7B # (w @ t) @ [0x7D]" r' _ "Suc d" "JObj es"])
        (use parsed_container [OF p] ih(1,4) s1(1) not_exceeded_depth_ok [OF dx] ih(3)
            value_text_elements_text_members_text.object [OF members_text_prepend [OF ih(2) s1(2)]]
          in auto)
  qed
qed

text \<open>One dispatch on the first byte, as both value functions do it.\<close>

definition sound_below :: "pctx \<Rightarrow> nat \<Rightarrow> bool" where
  "sound_below ctx n \<longleftrightarrow> (\<forall>m < n. array_sound ctx m \<and> object_sound ctx m)"

lemma value_at_sound:
  assumes ok: "rfc_ok ctx" and sb: "sound_below ctx n" and a: "ahead ctx st u"
    and c: "c = (if u = [] then 0 else hd u)" and d0: "depth_ok ctx (st_depth st) 0"
    and df: "no_result dflt" and r: "value_at ctx n c st dflt = POk v' st'"
  shows "container_sound ctx st u v' st'"
proof -
  consider "c = 0x7B" | "c = 0x5B" | "c \<noteq> 0x7B" "c \<noteq> 0x5B" by blast
  then show ?thesis
  proof cases
    case 1
    then obtain u2 where u: "u = 0x7B # u2" using c by (cases u) auto
    obtain m where m: "n = Suc m" "parse_object_inplace ctx (Suc m) st = POk v' st'"
      using r 1 by (cases n) (auto simp: value_at_def)
    show ?thesis
      using object_inplace_sound [OF ok _ a [unfolded u] m(2)] sb m(1) by (simp add: sound_below_def u)
  next
    case 2
    then obtain u2 where u: "u = 0x5B # u2" using c by (cases u) auto
    obtain m where m: "n = Suc m" "parse_array_inplace ctx (Suc m) st = POk v' st'"
      using r 2 by (cases n) (auto simp: value_at_def)
    show ?thesis
      using array_inplace_sound [OF ok _ a [unfolded u] m(2)] sb m(1) by (simp add: sound_below_def u)
  next
    case 3
    then have "parse_scalar ctx c st dflt = POk v' st'" using r by (simp add: value_at_def)
    from parse_scalar_sound [OF ok a c df this, of 0] d0 show ?thesis
      unfolding container_sound_def by blast
  qed
qed

lemma value_sound_Suc:
  assumes ok: "rfc_ok ctx" and sb: "sound_below ctx n"
  shows "value_sound ctx (Suc n)"
  unfolding value_sound_def
proof (intro allI impI)
  fix st u v' st'
  assume a: "ahead ctx st u" and d0: "depth_ok ctx (st_depth st) 0"
    and r: "parse_value_inplace ctx (Suc n) st = POk v' st'"
  obtain w u' where s1: "u = w @ u'" "ws w" "skip_whitespace ctx st = POk () (advance (length w) st)"
      "ahead ctx (advance (length w) st) u'"
    using skip_any [OF ok a] by blast
  let ?s = "advance (length w) st"
  have va: "value_at ctx n (if u' = [] then 0 else hd u') ?s (pfail ctx UnexpectedCharacter (st_curr ?s) ?s) = POk v' st'"
    using r unfolding parse_value_inplace.simps(2) s1(3) bindp_simps(1) at_cursor_ahead [OF s1(4)] value_at_def .
  have d1: "depth_ok ctx (st_depth ?s) 0" using d0 by simp
  obtain t r' v d where t: "u' = t @ r'" "value_text (rules_of ctx) d t v" "depth_ok ctx (st_depth st) d"
      "parsed (st_curr ?s) ?s (length t) v' v st'"
    using value_at_sound [OF ok sb s1(4) refl d1 pfail_no_result(1) va]
    unfolding container_sound_def advance_simps by blast
  show "\<exists>w t r v d. u = w @ t @ r \<and> ws w \<and> value_text (rules_of ctx) d t v \<and>
      depth_ok ctx (st_depth st) d \<and> parsed (st_curr st) st (length (w @ t)) v' v st'"
    using s1(1,2) t(1-3) parsed_weaken [OF parsed_prefix [OF t(4)], of "st_curr st"]
    by (intro exI [of _ w] exI [of _ t] exI [of _ r'] exI [of _ v] exI [of _ d]) simp
qed

lemma parser_sound:
  assumes ok: "rfc_ok ctx"
  shows "value_sound ctx n \<and> array_sound ctx n \<and> object_sound ctx n"
proof (induction n rule: less_induct)
  case (less n)
  show ?case
  proof (cases n)
    case 0
    then show ?thesis by (simp add: value_sound_def array_sound_def object_sound_def)
  next
    case (Suc m)
    have "sound_below ctx m" using less Suc by (simp add: sound_below_def)
    then show ?thesis
      using value_sound_Suc [OF ok] array_sound_Suc [OF ok] object_sound_Suc [OF ok] less [of m] Suc by blast
  qed
qed

end
