(* ===== verification/ParserTotal.thy ===== *)
theory ParserTotal
  imports ParserSound
begin

text \<open>
  Totality: on padded input the recursive parser reads inside the buffer only, and fuel
  linear in the unread content is enough.
\<close>

section \<open>Safe results\<close>

definition safe :: "'a pres \<Rightarrow> bool" where
  "safe r \<longleftrightarrow> r \<noteq> POob \<and> r \<noteq> PFuel"

lemma safe_simps [simp]:
  "safe (POk v st)" "safe (PFail e)" "\<not> safe POob" "\<not> safe PFuel"
  "safe (pfail ctx c p st)" "safe (pfail_context c d st)"
  by (simp_all add: safe_def pfail_def pfail_context_def)

lemma safe_bindp:
  "safe m \<Longrightarrow> (\<And>a st. m = POk a st \<Longrightarrow> safe (f a st)) \<Longrightarrow> safe (bindp m f)"
  by (cases m) simp_all

lemma safe_at_cursor:
  "ahead ctx st u \<Longrightarrow> safe (f (if u = [] then 0 else hd u)) \<Longrightarrow> safe (at_cursor st f)"
  by (simp only: at_cursor_ahead)

definition value_total :: "pctx \<Rightarrow> nat \<Rightarrow> bool" where
  "value_total ctx n \<longleftrightarrow> (\<forall>st u. ahead ctx st u \<longrightarrow> depth_ok ctx (st_depth st) 0 \<longrightarrow>
     4 * length u + 1 \<le> n \<longrightarrow> safe (parse_value_inplace ctx n st))"

definition array_total :: "pctx \<Rightarrow> nat \<Rightarrow> bool" where
  "array_total ctx n \<longleftrightarrow> (\<forall>st u xs. ahead ctx st u \<longrightarrow> depth_ok ctx (st_depth st) 0 \<longrightarrow>
     4 * length u + 2 \<le> n \<longrightarrow> safe (array_loop ctx n xs st))"

definition object_total :: "pctx \<Rightarrow> nat \<Rightarrow> bool" where
  "object_total ctx n \<longleftrightarrow> (\<forall>st u ki es acc lo. ahead ctx st u \<longrightarrow> depth_ok ctx (st_depth st) 0 \<longrightarrow>
     obj_inv ctx lo ki es st acc \<longrightarrow> 4 * length u + 2 \<le> n \<longrightarrow> safe (object_loop ctx n ki es st))"

lemma array_total_Suc:
  assumes ok: "rfc_ok ctx" and vt: "value_total ctx n" and at: "array_total ctx n"
  shows "array_total ctx (Suc n)"
  unfolding array_total_def
proof (intro allI impI)
  fix st u xs
  assume a: "ahead ctx st u" and d0: "depth_ok ctx (st_depth st) 0" and n: "4 * length u + 2 \<le> Suc n"
  have vs: "value_sound ctx n" using parser_sound [OF ok] by blast
  show "safe (array_loop ctx (Suc n) xs st)"
    unfolding array_loop.simps(2)
  proof (rule safe_bindp)
    show "safe (parse_value_inplace ctx n st)"
      using vt [unfolded value_total_def, rule_format, OF a d0] n by simp
    fix v1 st1 assume st1: "parse_value_inplace ctx n st = POk v1 st1"
    obtain w t u1 v d where t: "u = w @ t @ u1" "value_text (rules_of ctx) d t v"
        "parsed (st_curr st) st (length (w @ t)) v1 v st1"
      using vs [unfolded value_sound_def, rule_format, OF a d0 st1] by blast
    have mv: "moves st (length (w @ t)) st1" using t(3) by (simp add: parsed_def)
    have a1: "ahead ctx st1 u1" using moves_ahead [of ctx st "w @ t" u1 st1] a t(1) mv by simp
    obtain w2 u2 where s: "u1 = w2 @ u2" "skip_whitespace ctx st1 = POk () (advance (length w2) st1)"
        "ahead ctx (advance (length w2) st1) u2"
      using skip_any [OF ok a1] by blast
    have rec: "safe (array_loop ctx n ys (advance 1 (advance (length w2) st1)))" if u2: "u2 = 0x2C # r" for ys r
    proof -
      have a2: "ahead ctx (advance 1 (advance (length w2) st1)) r" using ahead_tl s(3) u2 by blast
      have "depth_ok ctx (st_depth (advance 1 (advance (length w2) st1))) 0"
        using d0 moves_sel(2) [OF mv] by simp
      moreover have "4 * length r + 2 \<le> n" using n t(1) s(1) u2 by simp
      ultimately show ?thesis using at [unfolded array_total_def, rule_format, OF a2] by blast
    qed
    show "safe (bindp (skip_whitespace ctx st1) (\<lambda>_ st. at_cursor st (\<lambda>c.
         if c = 0x5D then POk (JArr (xs @ [v1])) (leave (advance 1 st))
         else if c = 0x2C then
           (if c_json5 ctx then
              bindp (skip_whitespace ctx (advance 1 st)) (\<lambda>_ st.
                if closes ctx 0x5D st then POk (JArr (xs @ [v1])) (leave (advance 1 st))
                else array_loop ctx n (xs @ [v1]) st)
            else array_loop ctx n (xs @ [v1]) (advance 1 st))
         else pfail ctx ExpectedCommaOrBracket (st_curr st) st)))"
      unfolding s(2) bindp_simps(1) if_not_P [OF no_json5 [OF ok]]
      by (rule safe_at_cursor [OF s(3)]) (use rec in \<open>cases u2; simp\<close>)
  qed
qed

lemma object_total_Suc:
  assumes ok: "rfc_ok ctx" and vt: "value_total ctx n" and ot: "object_total ctx n"
  shows "object_total ctx (Suc n)"
  unfolding object_total_def
proof (intro allI impI)
  fix st u ki es acc lo
  assume a: "ahead ctx st u" and d0: "depth_ok ctx (st_depth st) 0"
    and inv: "obj_inv ctx lo ki es st acc" and n: "4 * length u + 2 \<le> Suc n"
  have vs: "value_sound ctx n" using parser_sound [OF ok] by blast
  note j = if_not_P [OF no_json5 [OF ok]]
  obtain w1 u1 where s1: "u = w1 @ u1" "skip_whitespace ctx st = POk () (advance (length w1) st)"
      "ahead ctx (advance (length w1) st) u1"
    using skip_any [OF ok a] by blast
  let ?s1 = "advance (length w1) st"
  show "safe (object_loop ctx (Suc n) ki es st)"
    unfolding object_loop.simps(2) s1(2) bindp_simps(1) Let_def j
  proof (rule safe_bindp, goal_cases)
    case 1
    show ?case using parse_key_total [OF ok s1(3)] by (simp add: safe_def)
  next
    case (2 kv s2)
    obtain kt u2 k where k: "u1 = kt @ u2" "string_step ?s1 (length kt) kv k s2"
      using parse_key_sound [OF ok s1(3) 2] by blast
    have m2: "moves ?s1 (length kt) s2" and kv: "view_bytes (st_buf s2) kv = k"
      using k(2) by (auto simp: string_step_def)
    have m2': "moves st (length w1 + length kt) s2" by (rule advance_then_moves [OF m2])
    have "resolve (st_buf s2) (JObj es) = JObj acc"
      using inv resolve_moves [OF m2', of lo "JObj es"] by (simp add: obj_inv_def)
    then have ks: "map (\<lambda>e. view_bytes (st_buf s2) (fst e)) es = map fst acc"
      by (auto simp: comp_def split_beta)
    show ?case
    proof (cases "c_strict_dup ctx \<and> k \<in> set (map fst acc)")
      case True
      then show ?thesis unfolding kv ks if_P [OF True] by simp
    next
      case dup: False
      then have mok: "member_ok (rules_of ctx) acc k" by (auto simp: member_ok_def)
      obtain pos ki' where slot: "member_slot ctx (map fst acc) ki k = Some (pos, ki')"
        using member_slot_put [OF inv mok] by blast
      have a2: "ahead ctx s2 u2" using moves_ahead [OF _ m2] s1(3) k(1) by blast
      obtain w2 u3 where s3: "u2 = w2 @ u3" "skip_whitespace ctx s2 = POk () (advance (length w2) s2)"
          "ahead ctx (advance (length w2) s2) u3"
        using skip_any [OF ok a2] by blast
      let ?s3 = "advance (length w2) s2"
      let ?tail = "\<lambda>v st. bindp (skip_whitespace ctx st) (\<lambda>_ st.
               if c_end ctx \<le> st_curr st then pfail ctx UnexpectedEndOfObject (st_curr st) st
               else at_cursor st (\<lambda>c.
                 if c = 0x7D then POk (JObj (put_at es pos kv v)) (leave (advance 1 st))
                 else if c = 0x2C then object_loop ctx n ki' (put_at es pos kv v) (advance 1 st)
                 else pfail ctx ExpectedCommaOrBrace (st_curr st) st))"
      have rec: "safe (bindp (parse_value_inplace ctx n (advance 1 ?s3)) ?tail)" if u3: "u3 = 0x3A # u4" for u4
      proof (rule safe_bindp)
        have a4: "ahead ctx (advance 1 ?s3) u4" using ahead_tl s3(3) u3 by blast
        have d4: "depth_ok ctx (st_depth (advance 1 ?s3)) 0" using d0 moves_sel(2) [OF m2'] by simp
        show "safe (parse_value_inplace ctx n (advance 1 ?s3))"
          using vt [unfolded value_total_def, rule_format, OF a4 d4] n s1(1) k(1) s3(1) u3 by simp
        fix v1 s5 assume s5: "parse_value_inplace ctx n (advance 1 ?s3) = POk v1 s5"
        obtain w t u5 v d where t: "u4 = w @ t @ u5" "value_text (rules_of ctx) d t v"
            "parsed (st_curr (advance 1 ?s3)) (advance 1 ?s3) (length (w @ t)) v1 v s5"
          using vs [unfolded value_sound_def, rule_format, OF a4 d4 s5] by blast
        have mv: "moves (advance 1 ?s3) (length (w @ t)) s5" using t(3) by (simp add: parsed_def)
        have a5: "ahead ctx s5 u5" using moves_ahead [of ctx _ "w @ t" u5 s5] a4 t(1) mv by simp
        obtain w4 u6 where s6: "u5 = w4 @ u6" "skip_whitespace ctx s5 = POk () (advance (length w4) s5)"
            "ahead ctx (advance (length w4) s5) u6"
          using skip_any [OF ok a5] by blast
        let ?s6 = "advance (length w4) s5"
        note asm = member_assemble [OF inv mok k(2) t(3) slot, of "length w4"]
        have "safe (object_loop ctx n ki' (put_at es pos kv v1) (advance 1 ?s6))" if u6: "u6 = 0x2C # r" for r
        proof -
          have a7: "ahead ctx (advance 1 ?s6) r" using ahead_tl s6(3) u6 by blast
          have d7: "depth_ok ctx (st_depth (advance 1 ?s6)) 0" using d0 moves_sel(2) [OF asm(1)] by simp
          have "obj_inv ctx lo ki' (put_at es pos kv v1) (advance 1 ?s6) (obj_put acc k v)"
            using asm(2) views_in_mono [of lo "st_curr ?s6" "JObj (put_at es pos kv v1)" lo "st_curr (advance 1 ?s6)"]
            by (simp add: obj_inv_def)
          moreover have "4 * length r + 2 \<le> n" using n s1(1) k(1) s3(1) u3 t(1) s6(1) u6 by simp
          ultimately show ?thesis using ot [unfolded object_total_def, rule_format, OF a7 d7] by blast
        qed
        then have "safe (at_cursor ?s6 (\<lambda>c.
                 if c = 0x7D then POk (JObj (put_at es pos kv v1)) (leave (advance 1 ?s6))
                 else if c = 0x2C then object_loop ctx n ki' (put_at es pos kv v1) (advance 1 ?s6)
                 else pfail ctx ExpectedCommaOrBrace (st_curr ?s6) ?s6))"
          by (intro safe_at_cursor [OF s6(3)]) (cases u6; simp)
        then show "safe (?tail v1 s5)" unfolding s6(2) bindp_simps(1) by (simp only: split: if_splits) simp
      qed
      show ?thesis
        unfolding kv ks if_not_P [OF dup] s3(2) bindp_simps(1) slot option.case prod.case
        by (rule safe_at_cursor [OF s3(3)]) (use rec in \<open>cases u3; simp only: list.sel refl; simp\<close>)
    qed
  qed
qed

section \<open>Containers and values\<close>

lemma array_inplace_total:
  assumes ok: "rfc_ok ctx" and at: "array_total ctx n" and a: "ahead ctx st (c # u)"
    and n: "4 * length u + 2 \<le> n"
  shows "safe (parse_array_inplace ctx (Suc n) st)"
proof (cases "depth_exceeded ctx st")
  case False
  let ?s = "advance 1 (enter st)"
  have a1: "ahead ctx ?s u" using ahead_tl [OF a] by simp
  obtain w u' where s1: "u = w @ u'" "skip_whitespace ctx ?s = POk () (advance (length w) ?s)"
      "ahead ctx (advance (length w) ?s) u'"
    using skip_any [OF ok a1] by blast
  have d0: "depth_ok ctx (st_depth (advance (length w) ?s)) 0" using depth_ok_enter [OF False] by simp
  have "safe (array_loop ctx n [] (advance (length w) ?s))"
    using at [unfolded array_total_def, rule_format, OF s1(3) d0] n s1(1) by simp
  then show ?thesis
    unfolding parse_array_inplace.simps(2) if_not_P [OF False] s1(2) bindp_simps(1)
    by (simp only: safe_simps split: if_splits) simp
qed simp

lemma object_inplace_total:
  assumes ok: "rfc_ok ctx" and ot: "object_total ctx n" and a: "ahead ctx st (c # u)"
    and n: "4 * length u + 2 \<le> n"
  shows "safe (parse_object_inplace ctx (Suc n) st)"
proof (cases "depth_exceeded ctx st")
  case False
  let ?s = "advance 1 (enter st)"
  have a1: "ahead ctx ?s u" using ahead_tl [OF a] by simp
  obtain w u' where s1: "u = w @ u'" "skip_whitespace ctx ?s = POk () (advance (length w) ?s)"
      "ahead ctx (advance (length w) ?s) u'"
    using skip_any [OF ok a1] by blast
  let ?s1 = "advance (length w) ?s"
  have d0: "depth_ok ctx (st_depth ?s1) 0" using depth_ok_enter [OF False] by simp
  have inv: "obj_inv ctx (st_curr ?s1) None [] ?s1 []" by (simp add: obj_inv_def views_in_def lazy_ok_def)
  have "safe (object_loop ctx n None [] ?s1)"
    using ot [unfolded object_total_def, rule_format, OF s1(3) d0 inv] n s1(1) by simp
  then show ?thesis
    unfolding parse_object_inplace.simps(2) if_not_P [OF False] s1(2) bindp_simps(1)
    by (intro safe_at_cursor [OF s1(3)]) (simp only: safe_simps split: if_splits, simp)
qed simp

definition total_below :: "pctx \<Rightarrow> nat \<Rightarrow> bool" where
  "total_below ctx n \<longleftrightarrow> (\<forall>m < n. array_total ctx m \<and> object_total ctx m)"

lemma value_at_total:
  assumes ok: "rfc_ok ctx" and tb: "total_below ctx n" and a: "ahead ctx st u"
    and c: "c = (if u = [] then 0 else hd u)" and df: "no_result dflt" and n: "4 * length u \<le> n"
  shows "safe (value_at ctx n c st dflt)"
proof (cases "c = 0x7B \<or> c = 0x5B")
  case True
  then obtain u2 where u: "u = c # u2" using c by (cases u) auto
  obtain m where m: "n = Suc m" "4 * length u2 + 2 \<le> m" using n u by (cases n) auto
  show ?thesis
    using True array_inplace_total [OF ok _ a [unfolded u] m(2)] object_inplace_total [OF ok _ a [unfolded u] m(2)]
      tb m(1) by (auto simp: value_at_def total_below_def)
next
  case False
  then show ?thesis using parse_scalar_total [OF ok a df] by (simp add: value_at_def safe_def)
qed

lemma value_total_Suc:
  assumes ok: "rfc_ok ctx" and tb: "total_below ctx n"
  shows "value_total ctx (Suc n)"
  unfolding value_total_def
proof (intro allI impI)
  fix st u
  assume a: "ahead ctx st u" and n: "4 * length u + 1 \<le> Suc n"
  obtain w u' where s1: "u = w @ u'" "skip_whitespace ctx st = POk () (advance (length w) st)"
      "ahead ctx (advance (length w) st) u'"
    using skip_any [OF ok a] by blast
  let ?s = "advance (length w) st"
  have "safe (value_at ctx n (if u' = [] then 0 else hd u') ?s (pfail ctx UnexpectedCharacter (st_curr ?s) ?s))"
    by (rule value_at_total [OF ok tb s1(3) refl]) (use n s1(1) in simp_all)
  then show "safe (parse_value_inplace ctx (Suc n) st)"
    unfolding parse_value_inplace.simps(2) s1(2) bindp_simps(1) at_cursor_ahead [OF s1(3)] value_at_def .
qed

lemma parser_total:
  assumes ok: "rfc_ok ctx"
  shows "value_total ctx n \<and> array_total ctx n \<and> object_total ctx n"
proof (induction n rule: less_induct)
  case (less n)
  show ?case
  proof (cases n)
    case 0
    then show ?thesis by (simp add: value_total_def array_total_def object_total_def)
  next
    case (Suc m)
    have "total_below ctx m" using less Suc by (simp add: total_below_def)
    then show ?thesis
      using value_total_Suc [OF ok] array_total_Suc [OF ok] object_total_Suc [OF ok] less [of m] Suc by blast
  qed
qed

end
