(* ===== verification/Kernel.thy ===== *)
theory Kernel
  imports ParserTotal
begin

text \<open>
  Correctness of \<^verbatim>\<open>Parser::parse\<close> and of the entry points of \<^verbatim>\<open>src/parser/parse.cpp\<close>
  in RFC 8259 mode, against the grammar of theory \<^verbatim>\<open>JsonText\<close>.
\<close>

section \<open>The kernel\<close>

definition text_ok :: "pctx \<Rightarrow> bytes \<Rightarrow> jvalue \<Rightarrow> bool" where
  "text_ok ctx t v \<longleftrightarrow> (\<exists>d. depth_ok ctx 0 d \<and> json_text (rules_of ctx) d t v)"

definition bom_skip :: "pctx \<Rightarrow> pstate \<Rightarrow> nat" where
  "bom_skip ctx st =
     (if c_strip_bom ctx \<and> st_curr st = c_begin ctx \<and> starts_with_utf8_bom (unread ctx st) then 3 else 0)"

lemma bom_skip_state:
  "(if c_strip_bom ctx then skip_leading_bom ctx st else st) = advance (bom_skip ctx st) st"
  by (simp add: bom_skip_def skip_leading_bom_def)

lemma bom_skip_ahead:
  assumes "ahead ctx st u"
  shows "ahead ctx (advance (bom_skip ctx st) st) (drop (bom_skip ctx st) u)"
proof -
  have "unread ctx st = u" using assms by (simp add: ahead_def)
  then have "bom_skip ctx st \<le> length u" by (auto simp: bom_skip_def starts_with_utf8_bom_def)
  then show ?thesis by (rule ahead_advance [OF assms])
qed

definition first_value :: "pctx \<Rightarrow> nat \<Rightarrow> byte \<Rightarrow> pstate \<Rightarrow> view json pres" where
  "first_value ctx n c s =
     (if c = 0 \<and> c_end ctx \<le> st_curr s then pfail ctx UnexpectedEndOfInput (st_curr s) s
      else value_at ctx n c s (pfail ctx UnexpectedValueCharacter (st_curr s) s))"

lemma parse_value_skipped:
  assumes "rfc_ok ctx" "ahead ctx st (w @ u)" "ws w" "u = [] \<or> \<not> is_whitespace (hd u)"
  shows "parse_value ctx n st =
    first_value ctx n (if u = [] then 0 else hd u) (advance (length w) st)"
  unfolding parse_value_def skip_ws [OF assms] bindp_simps(1) at_cursor_ahead [OF ahead_skip [OF assms(2)]]
  by (auto simp: first_value_def value_at_def)

lemma first_value_cases:
  "first_value ctx n c s = POk v st \<Longrightarrow> value_at ctx n c s (pfail ctx UnexpectedValueCharacter (st_curr s) s) = POk v st"
  "safe (value_at ctx n c s (pfail ctx UnexpectedValueCharacter (st_curr s) s)) \<Longrightarrow> safe (first_value ctx n c s)"
  by (simp_all add: first_value_def no_result_POk split: if_splits)

lemma parse_value_sound:
  assumes ok: "rfc_ok ctx" and a: "ahead ctx st u" and d0: "st_depth st = 0"
    and r: "parse_value ctx n st = POk v' st'"
  obtains w t r v d where "u = w @ t @ r" "ws w" "value_text (rules_of ctx) d t v" "depth_ok ctx 0 d"
    "moves st (length (w @ t)) st'" "resolve (st_buf st') v' = v" "views_in 0 (st_curr st') v'"
proof -
  let ?w = "take (ws_run u) u" and ?u = "drop (ws_run u) u"
  let ?s = "advance (length ?w) st" and ?c = "if ?u = [] then 0 else hd ?u"
  have a1: "ahead ctx st (?w @ ?u)" and w: "ws ?w" and h: "?u = [] \<or> \<not> is_whitespace (hd ?u)"
    using a ws_run_take [of u] ws_run_stop [of u] by (simp_all add: ws_def)
  have va: "value_at ctx n ?c ?s (pfail ctx UnexpectedValueCharacter (st_curr ?s) ?s) = POk v' st'"
    by (rule first_value_cases(1)) (use r parse_value_skipped [OF ok a1 w h] in metis)
  have sb: "sound_below ctx n" using parser_sound [OF ok] by (simp add: sound_below_def)
  have dk: "depth_ok ctx (st_depth ?s) 0" using d0 by (simp add: depth_ok_def)
  obtain t r v d where t: "?u = t @ r" "value_text (rules_of ctx) d t v" "depth_ok ctx (st_depth ?s) d"
      "parsed (st_curr ?s) ?s (length t) v' v st'"
    using value_at_sound [OF ok sb ahead_skip [OF a1] refl dk pfail_no_result(1) va]
    unfolding container_sound_def by blast
  have p: "parsed (st_curr ?s) st (length ?w + length t) v' v st'" by (rule parsed_prefix [OF t(4)])
  have "u = ?w @ t @ r" using t(1) append_take_drop_id [of "ws_run u" u] by simp
  then show thesis
    using that [of ?w t r d v] w t(2,3) p d0 parsed_weaken [OF p, of 0] by (auto simp: parsed_def)
qed

lemma parse_value_complete:
  assumes ok: "rfc_ok ctx" and a: "ahead ctx st (w @ t @ r)" and w: "ws w" and f: "follow r"
    and t: "value_text (rules_of ctx) d t v" and d: "depth_ok ctx (st_depth st) d" and n: "4 * length t \<le> n"
  shows "\<exists>v' st'. parse_value ctx n st = POk v' st' \<and> moves st (length (w @ t)) st' \<and>
    resolve (st_buf st') v' = v"
proof -
  obtain c u where c: "t = c # u" "\<not> is_whitespace c" using value_text_hd [OF t] by blast
  let ?s = "advance (length w) st"
  have a1: "ahead ctx ?s (t @ r)" using ahead_skip [OF a] by simp
  have lt: "\<not> c_end ctx \<le> st_curr ?s" using ahead_length [OF a1] c(1) by simp
  have "value_spec ctx d n t v" using parser_complete(1) [OF ok t refl] n by blast
  then obtain v' st' where v': "value_at ctx n (hd t) ?s (pfail ctx UnexpectedValueCharacter (st_curr ?s) ?s) = POk v' st'"
      "parsed (st_curr ?s) ?s (length t) v' v st'"
    using a1 f d unfolding value_spec_def by fastforce
  have "parse_value ctx n st = POk v' st'"
    using v'(1) lt parse_value_skipped [OF ok a w, of n] c by (simp add: first_value_def)
  moreover have "moves st (length w + length t) st'" "resolve (st_buf st') v' = v"
    using advance_then_moves v'(2) by (auto simp: parsed_def)
  ultimately show ?thesis by auto
qed

lemma parse_value_total:
  assumes ok: "rfc_ok ctx" and a: "ahead ctx st u" and n: "4 * length u \<le> n"
  shows "safe (parse_value ctx n st)"
proof -
  let ?w = "take (ws_run u) u" and ?u = "drop (ws_run u) u"
  let ?s = "advance (length ?w) st"
  have a1: "ahead ctx st (?w @ ?u)" and w: "ws ?w" and h: "?u = [] \<or> \<not> is_whitespace (hd ?u)"
    using a ws_run_take [of u] ws_run_stop [of u] by (simp_all add: ws_def)
  have tb: "total_below ctx n" using parser_total [OF ok] by (simp add: total_below_def)
  have "safe (first_value ctx n (if ?u = [] then 0 else hd ?u) ?s)"
    by (rule first_value_cases(2), rule value_at_total [OF ok tb ahead_skip [OF a1] refl]) (use n in simp_all)
  then show ?thesis using parse_value_skipped [OF ok a1 w h] by metis
qed

text \<open>What surrounds the value: trailing white space and the end of the input.\<close>

definition finish :: "pctx \<Rightarrow> view json \<Rightarrow> pstate \<Rightarrow> view json pres" where
  "finish ctx v st =
     unless_error st (bindp (skip_whitespace ctx st) (\<lambda>_ st.
       unless_error st
         (if st_curr st < c_end ctx then pfail ctx ExtraCharactersAfterValue (st_curr st) st else POk v st)))"

lemma parse_kernel_padded:
  assumes "c_padded ctx"
  shows "parse_kernel ctx st =
    bindp (parse_value ctx (4 * (c_end ctx - st_curr (advance (bom_skip ctx st) st)) + 4) (advance (bom_skip ctx st) st))
      (finish ctx)"
  using assms by (simp add: parse_kernel_def Let_def bom_skip_state finish_def [abs_def])

lemma finish_rfc:
  assumes "rfc_ok ctx" "ahead ctx st u" "st_err st = None"
  obtains w r where "u = w @ r" "ws w"
    "finish ctx v st = (if r = [] then POk v (advance (length w) st)
       else pfail ctx ExtraCharactersAfterValue (st_curr st + length w) (advance (length w) st))"
proof -
  obtain w r where s: "u = w @ r" "ws w" "skip_whitespace ctx st = POk () (advance (length w) st)"
      "ahead ctx (advance (length w) st) r"
    using skip_any [OF assms(1,2)] by blast
  have e: "st_curr (advance (length w) st) < c_end ctx \<longleftrightarrow> r \<noteq> []"
    using ahead_length [OF s(4)] by (cases r) auto
  have "finish ctx v st = (if r = [] then POk v (advance (length w) st)
       else pfail ctx ExtraCharactersAfterValue (st_curr st + length w) (advance (length w) st))"
    unfolding finish_def s(3) bindp_simps(1) e using assms(3) by (simp add: unless_error_def)
  then show thesis using that s(1,2) by blast
qed

lemma finish_value: "finish ctx v st = POk v' st' \<Longrightarrow> v' = v"
  unfolding finish_def unless_error_def
  by (cases "skip_whitespace ctx st") (auto simp: no_result_POk split: option.splits if_splits)

lemma finish_ws:
  assumes "rfc_ok ctx" "ahead ctx st w" "ws w" "st_err st = None"
  shows "finish ctx v st = POk v (advance (length w) st)"
proof -
  have a: "ahead ctx st (w @ [])" using assms(2) by simp
  have "st_curr (advance (length w) st) = c_end ctx" using ahead_length [OF ahead_skip [OF a]] by simp
  then show ?thesis
    unfolding finish_def skip_ws [OF assms(1) a assms(3) disjI1 [OF refl]] bindp_simps(1)
    using assms(4) by (simp add: unless_error_def)
qed

lemma kernel_sound:
  assumes ok: "rfc_ok ctx" and p: "c_padded ctx" and a: "ahead ctx st u" and d: "st_depth st = 0"
    and e: "st_err st = None" and r: "parse_kernel ctx st = POk v' st'"
  shows "text_ok ctx (drop (bom_skip ctx st) u) (resolve (st_buf st') v')"
proof -
  let ?s = "advance (bom_skip ctx st) st"
  obtain v1 st1 where r1: "parse_value ctx (4 * (c_end ctx - st_curr ?s) + 4) ?s = POk v1 st1"
      "finish ctx v1 st1 = POk v' st'"
    using r unfolding parse_kernel_padded [OF p] bindp_eq_POk by blast
  have "v1 = v'" using finish_value [OF r1(2)] by simp
  note st1 = r1 [unfolded this]
  have d': "st_depth ?s = 0" using d by simp
  obtain w t q v d where t: "drop (bom_skip ctx st) u = w @ t @ q" "ws w" "value_text (rules_of ctx) d t v"
      "depth_ok ctx 0 d" "moves ?s (length (w @ t)) st1" "resolve (st_buf st1) v' = v"
    by (rule parse_value_sound [OF ok bom_skip_ahead [OF a] d' st1(1)])
  have a1: "ahead ctx st1 q"
    using moves_ahead [of ctx ?s "w @ t" q st1] bom_skip_ahead [OF a] t(1,5) by simp
  have e1: "st_err st1 = None" using e moves_sel(3) [OF t(5)] by simp
  obtain w2 q2 where f: "q = w2 @ q2" "ws w2" "finish ctx v' st1 = (if q2 = [] then POk v' (advance (length w2) st1)
       else pfail ctx ExtraCharactersAfterValue (st_curr st1 + length w2) (advance (length w2) st1))"
    by (rule finish_rfc [OF ok a1 e1])
  have "q2 = []" "st' = advance (length w2) st1"
    using st1(2) f(3) by (auto simp: no_result_POk split: if_splits)
  then show ?thesis using t f(1,2) by (auto simp: text_ok_def json_text_def)
qed

lemma kernel_complete:
  assumes ok: "rfc_ok ctx" and p: "c_padded ctx" and a: "ahead ctx st u" and d: "st_depth st = 0"
    and e: "st_err st = None" and t: "text_ok ctx (drop (bom_skip ctx st) u) v"
  shows "\<exists>v' st'. parse_kernel ctx st = POk v' st' \<and> resolve (st_buf st') v' = v"
proof -
  let ?s = "advance (bom_skip ctx st) st"
  obtain w t w2 d where t: "drop (bom_skip ctx st) u = w @ t @ w2" "ws w" "ws w2"
      "value_text (rules_of ctx) d t v" "depth_ok ctx 0 d"
    using t by (auto simp: text_ok_def json_text_def)
  have a1: "ahead ctx ?s (w @ t @ w2)" using bom_skip_ahead [OF a] t(1) by simp
  have f: "follow w2" using t(3) by (cases w2) (auto simp: follow_def ws_def)
  have dk: "depth_ok ctx (st_depth ?s) d" using t(5) d by simp
  have n: "4 * length t \<le> 4 * (c_end ctx - st_curr ?s) + 4" using ahead_length [OF a1] by simp
  obtain v' st' where v': "parse_value ctx (4 * (c_end ctx - st_curr ?s) + 4) ?s = POk v' st'"
      "moves ?s (length (w @ t)) st'" "resolve (st_buf st') v' = v"
    using parse_value_complete [OF ok a1 t(2) f t(4) dk n] by blast
  have a2: "ahead ctx st' w2" using moves_ahead [of ctx ?s "w @ t" w2 st'] a1 v'(2) by simp
  have e2: "st_err st' = None" using e moves_sel(3) [OF v'(2)] by simp
  show ?thesis
    unfolding parse_kernel_padded [OF p] v'(1) bindp_simps(1) finish_ws [OF ok a2 t(3) e2]
    using v'(3) by simp
qed

lemma kernel_total:
  assumes ok: "rfc_ok ctx" and a: "ahead ctx st u" and d: "st_depth st = 0" and e: "st_err st = None"
  shows "safe (parse_kernel ctx st)"
proof (cases "c_padded ctx")
  case True
  let ?s = "advance (bom_skip ctx st) st"
  have a1: "ahead ctx ?s (drop (bom_skip ctx st) u)" by (rule bom_skip_ahead [OF a])
  have n: "4 * length (drop (bom_skip ctx st) u) \<le> 4 * (c_end ctx - st_curr ?s) + 4"
    using ahead_length [OF a1] by simp
  have d': "st_depth ?s = 0" using d by simp
  show ?thesis
    unfolding parse_kernel_padded [OF True]
  proof (rule safe_bindp)
    show "safe (parse_value ctx (4 * (c_end ctx - st_curr ?s) + 4) ?s)"
      by (rule parse_value_total [OF ok a1 n])
    fix v' st1 assume r: "parse_value ctx (4 * (c_end ctx - st_curr ?s) + 4) ?s = POk v' st1"
    obtain w t q where t: "drop (bom_skip ctx st) u = w @ t @ q" "moves ?s (length (w @ t)) st1"
      by (rule parse_value_sound [OF ok a1 d' r])
    have a2: "ahead ctx st1 q" using moves_ahead [of ctx ?s "w @ t" q st1] a1 t by simp
    have "st_err st1 = None" using e moves_sel(3) [OF t(2)] by simp
    then show "safe (finish ctx v' st1)"
      using finish_rfc [OF ok a2, of v'] by (metis safe_simps(1,5))
  qed
qed (simp add: parse_kernel_def)

end
