(* ===== verification/EntryProofs.thy ===== *)
theory EntryProofs
  imports Kernel
begin

text \<open>
  The entry points of \<^verbatim>\<open>src/parser/parse.cpp\<close> in RFC 8259 mode: which inputs they
  accept, with what value, and that no input makes them read outside their buffer.
\<close>

section \<open>What the entry points promise\<close>

definition rules_for :: "config \<Rightarrow> rules" where
  "rules_for cfg = \<lparr>r_strict_utf8 = cfg_strict_utf8 cfg, r_strict_dup = cfg_strict_dup cfg\<rparr>"

definition without_bom :: "config \<Rightarrow> bytes \<Rightarrow> bytes" where
  "without_bom cfg t = (if cfg_strip_bom cfg \<and> starts_with_utf8_bom t then drop 3 t else t)"

definition within_depth :: "config \<Rightarrow> nat \<Rightarrow> bool" where
  "within_depth cfg d \<longleftrightarrow> cfg_max_depth cfg = 0 \<or> d \<le> cfg_max_depth cfg"

text \<open>The abstract specification: the input is a JSON text for \<open>v\<close> under the settings.\<close>

definition denotes :: "config \<Rightarrow> bytes \<Rightarrow> jvalue \<Rightarrow> bool" where
  "denotes cfg t v \<longleftrightarrow> (\<exists>d. within_depth cfg d \<and> json_text (rules_for cfg) d (without_bom cfg t) v)"

text \<open>The SIMD batch is one the padding covers, at most 64 lanes.\<close>

definition platform_ok :: "platform \<Rightarrow> bool" where
  "platform_ok pl \<longleftrightarrow> width_ok (pl_lanes pl) \<and> 2 * pl_lanes pl \<le> kPaddingWidth"

section \<open>From the kernel to the entry points\<close>

lemma parser_ctx_facts:
  assumes "\<not> cfg_json5 cfg" "platform_ok pl" "e < 2 ^ 32"
  shows "rfc_ok (parser_ctx cfg pl b e strip)" "rules_of (parser_ctx cfg pl b e strip) = rules_for cfg"
    "depth_ok (parser_ctx cfg pl b e strip) 0 d \<longleftrightarrow> within_depth cfg d"
    "c_padded (parser_ctx cfg pl b e strip)"
  using assms by (simp_all add: rfc_ok_def lanes_ok_def platform_ok_def parser_ctx_def rules_of_def rules_for_def
      depth_ok_def within_depth_def)

lemma ahead_start:
  "ahead (parser_ctx cfg pl 0 (length t) strip) (start_state (t @ replicate kPaddingWidth 0 @ rest) 0) t"
  by (auto simp: ahead_def pad_ok_def parser_ctx_def start_state_def unread_def slice_def)

lemma bom_skip_start:
  "drop (bom_skip (parser_ctx cfg pl 0 (length t) (cfg_strip_bom cfg))
      (start_state (t @ replicate kPaddingWidth 0 @ rest) 0)) t = without_bom cfg t"
  using ahead_start [of cfg pl t "cfg_strip_bom cfg" rest]
  by (auto simp: bom_skip_def without_bom_def ahead_def) (auto simp: parser_ctx_def start_state_def)

lemma start_state_sel [simp]:
  "st_depth (start_state b i) = 0" "st_err (start_state b i) = None" "st_curr (start_state b i) = i"
  "st_buf (start_state b i) = b"
  by (simp_all add: start_state_def)

definition yields :: "document entry \<Rightarrow> jvalue \<Rightarrow> bool" where
  "yields r v \<longleftrightarrow> (\<exists>doc. r = Ok doc \<and> doc_json doc = v)"

lemma make_document_simps:
  "yields (make_document iv b r) v \<longleftrightarrow> (\<exists>v' st'. r = POk v' st' \<and> resolve (st_buf st') v' = v)"
  "make_document iv b r = Undefined \<longleftrightarrow> \<not> safe r"
  by (cases r; simp add: make_document_def yields_def doc_json_def resolve_def)+

lemma text_ok_denotes:
  assumes rfc: "\<not> cfg_json5 cfg" "platform_ok pl" "length t < 2 ^ 32"
  shows "text_ok (parser_ctx cfg pl 0 (length t) strip) (without_bom cfg t) v \<longleftrightarrow> denotes cfg t v"
  unfolding text_ok_def denotes_def parser_ctx_facts(2,3) [OF rfc] by (rule refl)

lemma run_parser_iff:
  assumes rfc: "\<not> cfg_json5 cfg" "platform_ok pl" "length t < 2 ^ 32"
  shows "yields (run_parser cfg pl iv (t @ replicate kPaddingWidth 0 @ rest) (length t)) v \<longleftrightarrow> denotes cfg t v"
proof -
  let ?ctx = "parser_ctx cfg pl 0 (length t) (cfg_strip_bom cfg)"
  let ?st = "start_state (t @ replicate kPaddingWidth 0 @ rest) 0"
  note f = parser_ctx_facts [OF rfc, of 0 "cfg_strip_bom cfg"] ahead_start bom_skip_start start_state_sel(1,2)
  have "denotes cfg t v" if y: "yields (run_parser cfg pl iv (t @ replicate kPaddingWidth 0 @ rest) (length t)) v"
  proof -
    obtain v' st' where k: "parse_kernel ?ctx ?st = POk v' st'" "resolve (st_buf st') v' = v"
      using y unfolding run_parser_def make_document_simps by blast
    show ?thesis
      using kernel_sound [OF f(1,4,5) start_state_sel(1,2) k(1)] k(2) by (simp add: f(6) text_ok_denotes [OF rfc])
  qed
  moreover have "yields (run_parser cfg pl iv (t @ replicate kPaddingWidth 0 @ rest) (length t)) v"
    if "denotes cfg t v"
  proof -
    have "text_ok ?ctx (drop (bom_skip ?ctx ?st) t) v" using that by (simp add: f(6) text_ok_denotes [OF rfc])
    from kernel_complete [OF f(1,4,5) start_state_sel(1,2) this]
    show ?thesis unfolding run_parser_def make_document_simps .
  qed
  ultimately show ?thesis by blast
qed

lemma run_parser_defined:
  assumes rfc: "\<not> cfg_json5 cfg" "platform_ok pl" "length t < 2 ^ 32"
  shows "run_parser cfg pl iv (t @ replicate kPaddingWidth 0 @ rest) (length t) \<noteq> Undefined"
  unfolding run_parser_def make_document_simps
  using kernel_total [OF parser_ctx_facts(1) [OF rfc] ahead_start start_state_sel(1,2)] by simp

lemma short_fits: "n < 2 ^ 32 \<Longrightarrow> padded_fits n"
  by (simp add: padded_fits_def SIZE_MAX_def kPaddingWidth_def)

lemma parse_in_situ_pad: "parse_in_situ_impl cfg pl (pad t) = run_parser cfg pl False (pad t) (length t)"
  by (simp add: parse_in_situ_impl_def pad_def Let_def kPaddingWidth_def)

lemma parse_copy_fits:
  "padded_fits (length t) \<Longrightarrow> parse_copy_impl cfg pl t = run_parser cfg pl False (t @ replicate kPaddingWidth 0 @ []) (length t)"
  by (simp add: parse_copy_impl_def pad_def)

lemma parse_copy_iff:
  "\<not> cfg_json5 cfg \<Longrightarrow> platform_ok pl \<Longrightarrow> length t < 2 ^ 32 \<Longrightarrow>
   yields (parse_copy_impl cfg pl t) v \<longleftrightarrow> denotes cfg t v"
  unfolding parse_copy_fits [OF short_fits] by (rule run_parser_iff)

lemma parse_copy_defined:
  "\<not> cfg_json5 cfg \<Longrightarrow> platform_ok pl \<Longrightarrow> length t < 2 ^ 32 \<Longrightarrow> parse_copy_impl cfg pl t \<noteq> Undefined"
  unfolding parse_copy_fits [OF short_fits] by (rule run_parser_defined)

section \<open>Shape of the values\<close>

lemma fold_max_le: "fold max (xs :: nat list) a \<le> b \<longleftrightarrow> a \<le> b \<and> (\<forall>x \<in> set xs. x \<le> b)"
  by (induction xs arbitrary: a) auto

lemma json_depth_le:
  "json_depth (JArr xs) \<le> Suc d \<longleftrightarrow> (\<forall>v \<in> set xs. json_depth v \<le> d)"
  "json_depth (JObj es) \<le> Suc d \<longleftrightarrow> (\<forall>e \<in> set es. json_depth (snd e) \<le> d)"
  by (auto simp: fold_max_le)

lemma set_obj_put: "x \<in> set (obj_put es k v) \<Longrightarrow> x \<in> set es \<or> snd x = v"
proof (induction es)
  case (Cons e es)
  then show ?case by (cases e) (auto split: if_splits)
qed simp

definition entries_ok :: "nat \<Rightarrow> jentries \<Rightarrow> bool" where
  "entries_ok d es \<longleftrightarrow> distinct (map fst es) \<and>
     (\<forall>e \<in> set es. unique_keys (snd e) \<and> json_depth (snd e) \<le> d)"

lemma entries_ok_put:
  "entries_ok d es \<Longrightarrow> unique_keys v \<Longrightarrow> json_depth v \<le> d \<Longrightarrow> entries_ok d (obj_put es k v)"
  using distinct_obj_put [of es k v] by (auto simp: entries_ok_def dest: set_obj_put)

lemma value_text_shape:
  "value_text R d t v \<Longrightarrow> unique_keys v \<and> json_depth v \<le> d"
  "elements_text R d t vs \<Longrightarrow> \<forall>v \<in> set vs. unique_keys v \<and> json_depth v \<le> d"
  "members_text R d acc t es \<Longrightarrow> entries_ok d acc \<longrightarrow> entries_ok d es"
proof (induction rule: value_text_elements_text_members_text.inducts)
  case (number neg ip fr ex t v d)
  then have "\<exists>b. v = JInt b \<or> v = JFloat b" by (auto simp: token_value_def token_double_def split: if_splits option.splits)
  then show ?case by auto
next
  case (array d t vs)
  then show ?case by (simp add: json_depth_le list_all_iff del: json_depth.simps)
next
  case (object d t es)
  then have "entries_ok d es" by (simp add: entries_ok_def)
  then show ?case by (simp add: entries_ok_def json_depth_le list_all_iff del: json_depth.simps)
qed (auto simp: entries_ok_put)

section \<open>Correctness of the entry points\<close>

text \<open>A configuration as \<^verbatim>\<open>Config\<close> starts out, on a 16-lane machine.\<close>

definition default_config :: config where
  "default_config = \<lparr>cfg_strip_bom = False, cfg_strict_utf8 = False, cfg_json5 = False,
     cfg_max_depth = 512, cfg_strict_dup = False, cfg_arena_block_size = 0\<rparr>"

definition sse2 :: platform where
  "sse2 = \<lparr>pl_lanes = 16, pl_hash = length\<rparr>"

lemma sse2_ok: "platform_ok sse2" "\<not> cfg_json5 default_config"
  by (simp_all add: platform_ok_def sse2_def default_config_def width_ok_def kPaddingWidth_def)

lemma ws_Nil [simp]: "ws []"
  by (simp add: ws_def)

lemma denotes_array_of_true: "denotes default_config (lit ''[true]'') (JArr [JBool True])"
proof -
  have "elements_text (rules_for default_config) 0 ([] @ lit ''true'' @ []) [JBool True]"
    by (rule last_element) (auto intro: value_text_elements_text_members_text.true)
  then have "value_text (rules_for default_config) 1 (0x5B # lit ''true'' @ [0x5D]) (JArr [JBool True])"
    using array by fastforce
  moreover have "0x5B # lit ''true'' @ [0x5D] = lit ''[true]''" by (simp add: lit_def)
  ultimately have "json_text (rules_for default_config) 1 (lit ''[true]'') (JArr [JBool True])"
    unfolding json_text_def by (metis append_Nil append_Nil2 ws_Nil)
  then show ?thesis
    unfolding denotes_def by (intro exI [of _ 1]) (simp add: within_depth_def without_bom_def default_config_def)
qed

text \<open>
  C1: in RFC 8259 mode \<^verbatim>\<open>parse_copy\<close> returns a document exactly when its input (without
  the byte order mark, where that is stripped) is a JSON text within the depth limit under
  the strict UTF-8 and duplicate-key settings, and the document is then the value of the
  text: last value wins for a repeated key, integers in \<open>int64\<close> range exact, other numbers
  correctly rounded, escapes decoded.
\<close>
theorem parse_copy_correct:
  assumes "\<not> cfg_json5 cfg" "platform_ok pl" "length input < 2 ^ 32"
  shows "(\<exists>doc. parse_copy_impl cfg pl input = Ok doc \<and> doc_json doc = v) \<longleftrightarrow> denotes cfg input v"
  using parse_copy_iff [OF assms] by (simp add: yields_def)

theorem parse_copy_correct_witness:
  "\<exists>doc. parse_copy_impl default_config sse2 (lit ''[true]'') = Ok doc \<and> doc_json doc = JArr [JBool True]"
  using parse_copy_correct [of default_config sse2 "lit ''[true]''" "JArr [JBool True]"]
    sse2_ok denotes_array_of_true by (simp add: lit_def)



text \<open>
  C4: the result does not depend on the machine: with another SIMD width and another
  \<^verbatim>\<open>std::hash\<close> behind the key index the same inputs are accepted, with the same value.
\<close>
theorem parse_platform_independent:
  assumes "\<not> cfg_json5 cfg" "platform_ok pl" "platform_ok pl'" "length input < 2 ^ 32"
    and "parse_copy_impl cfg pl input = Ok doc"
  shows "\<exists>doc'. parse_copy_impl cfg pl' input = Ok doc' \<and> doc_json doc' = doc_json doc"
  using parse_copy_iff [OF assms(1,2,4), of "doc_json doc"] parse_copy_iff [OF assms(1,3,4), of "doc_json doc"] assms(5)
  by (simp add: yields_def)

definition avx512 :: platform where
  "avx512 = \<lparr>pl_lanes = 64, pl_hash = (\<lambda>k. sum_list (map unat k))\<rparr>"

theorem parse_platform_independent_witness:
  "\<exists>doc doc'. parse_copy_impl default_config sse2 (lit ''[true]'') = Ok doc \<and>
     parse_copy_impl default_config avx512 (lit ''[true]'') = Ok doc' \<and> doc_json doc' = doc_json doc"
proof -
  have s: "length (lit ''[true]'') < 2 ^ 32" by (simp add: lit_def)
  have a: "platform_ok avx512" by (simp add: platform_ok_def avx512_def width_ok_def kPaddingWidth_def)
  obtain doc where "parse_copy_impl default_config sse2 (lit ''[true]'') = Ok doc"
    using parse_copy_iff [OF sse2_ok(2,1) s] denotes_array_of_true by (auto simp: yields_def)
  then show ?thesis using parse_platform_independent [OF sse2_ok(2,1) a s] by blast
qed

text \<open>
  C3: a parsed document never has two members with one key in an object, and its nesting
  depth respects a non-zero depth limit.
\<close>
theorem parsed_value_shape:
  assumes "\<not> cfg_json5 cfg" "platform_ok pl" "length input < 2 ^ 32"
    and "parse_copy_impl cfg pl input = Ok doc"
  shows "unique_keys (doc_json doc) \<and> (cfg_max_depth cfg = 0 \<or> json_depth (doc_json doc) \<le> cfg_max_depth cfg)"
proof -
  have "denotes cfg input (doc_json doc)"
    using parse_copy_iff [OF assms(1-3), of "doc_json doc"] assms(4) by (simp add: yields_def)
  then show ?thesis
    using value_text_shape(1) by (fastforce simp: denotes_def json_text_def within_depth_def)
qed

theorem parsed_value_shape_witness:
  "\<exists>doc. parse_copy_impl default_config sse2 (lit ''[true]'') = Ok doc \<and> unique_keys (doc_json doc) \<and>
     json_depth (doc_json doc) \<le> 512"
proof -
  have s: "length (lit ''[true]'') < 2 ^ 32" by (simp add: lit_def)
  obtain doc where d: "parse_copy_impl default_config sse2 (lit ''[true]'') = Ok doc"
    using parse_copy_iff [OF sse2_ok(2,1) s] denotes_array_of_true by (auto simp: yields_def)
  then show ?thesis using parsed_value_shape [OF sse2_ok(2,1) s d] by (simp add: default_config_def)
qed

text \<open>
  the in-situ entry point checks its precondition: a buffer without room for the padding
  and a buffer whose last 128 bytes are not NUL are refused; otherwise it behaves as
  \<^verbatim>\<open>parse_copy\<close> on the content before the padding.
\<close>
theorem parse_in_situ_contract:
  "parse_in_situ_impl cfg pl buf =
     (if length buf < kPaddingWidth then entry_error BufferTooSmall []
      else if drop (length buf - kPaddingWidth) buf \<noteq> replicate kPaddingWidth 0
        then entry_error InSituPaddingNotNul []
      else if padded_fits (length buf - kPaddingWidth)
        then parse_copy_impl cfg pl (take (length buf - kPaddingWidth) buf)
      else run_parser cfg pl False buf (length buf - kPaddingWidth))"
proof -
  let ?n = "length buf - kPaddingWidth"
  have eq: "(\<exists>c \<in> set (drop ?n buf). c \<noteq> 0) \<longleftrightarrow> drop ?n buf \<noteq> replicate kPaddingWidth 0"
    if "\<not> length buf < kPaddingWidth"
    using that by (auto simp: list_eq_iff_nth_eq set_conv_nth)
  have "pad (take ?n buf) = buf" if "drop ?n buf = replicate kPaddingWidth 0"
    unfolding pad_def that [symmetric] by simp
  then show ?thesis
    unfolding parse_in_situ_impl_def Let_def using eq by (auto simp: parse_copy_impl_def)
qed

text \<open>
  reading from a stream is parsing the concatenation of what the reads delivered: the
  chunk boundaries leave no trace, and only a failing read makes a difference.
\<close>
theorem stream_chunking:
  assumes "\<forall>c \<in> set chunks. c \<noteq> []"
  shows "parse_from_istream_impl cfg pl False
      (map (\<lambda>c. \<lparr>re_bytes = c, re_bad = False, re_fail = False\<rparr>) chunks @
        [\<lparr>re_bytes = [], re_bad = bad, re_fail = True\<rparr>]) =
    parse_copy_impl cfg pl (concat chunks)"
proof -
  have "stream_loop buf (map (\<lambda>c. \<lparr>re_bytes = c, re_bad = False, re_fail = False\<rparr>) chunks @
        [\<lparr>re_bytes = [], re_bad = bad, re_fail = True\<rparr>]) = Some (buf @ concat chunks)" for buf
    using assms by (induction chunks arbitrary: buf) (auto simp: Let_def)
  then show ?thesis
    by (simp add: parse_from_istream_impl_def parse_in_situ_pad parse_copy_impl_def)
qed

theorem stream_chunking_witness:
  "parse_from_istream_impl default_config sse2 False
      (map (\<lambda>c. \<lparr>re_bytes = c, re_bad = False, re_fail = False\<rparr>) [lit ''[tr'', lit ''ue]''] @
        [\<lparr>re_bytes = [], re_bad = True, re_fail = True\<rparr>]) =
    parse_copy_impl default_config sse2 (lit ''[true]'')"
  using stream_chunking [of "[lit ''[tr'', lit ''ue]'']" default_config sse2 True] by (simp add: lit_def)

end
