(* ===== verification/WriterProofs.thy ===== *)
theory WriterProofs
  imports EscapeProofs RoundProofs EntryProofs
begin

text \<open>
  The writer produces JSON texts: everything \<^verbatim>\<open>dump\<close> writes denotes the dumped value
  in the grammar of theory \<^verbatim>\<open>JsonText\<close>, so that parsing gives the value back.
\<close>

section \<open>Numbers\<close>

lemma length_dec_le: "n < 10 ^ k \<Longrightarrow> 0 < k \<Longrightarrow> length (dec n) \<le> k"
proof (induction n arbitrary: k rule: dec.induct)
  case (1 n)
  show ?case
  proof (cases "n < 10")
    case True
    then show ?thesis using 1 by (subst dec.simps) simp
  next
    case False
    obtain j where k: "k = Suc j" "0 < j" using 1 False by (cases k; cases "k - 1") auto
    have "n div 10 < 10 ^ j" using 1(2) k by (simp add: less_mult_imp_div_less mult.commute)
    then have "length (dec (n div 10)) \<le> j" using 1(1) False k by simp
    then show ?thesis using False k by (subst dec.simps) simp
  qed
qed

lemma sint_bounds: "- (2 ^ 63) \<le> sint (i :: u64)" "sint (i :: u64) < 2 ^ 63"
  using sint_ge [of i] sint_lt [of i] by simp_all

lemma word_of_nat_sint:
  "0 \<le> sint i \<Longrightarrow> word_of_nat (nat (sint i)) = (i :: u64)"
  "sint i < 0 \<Longrightarrow> - word_of_nat (nat (- sint i)) = (i :: u64)"
proof -
  have w: "word_of_nat (nat k) = (word_of_int k :: u64)" if "0 \<le> k" for k
    using that by (metis int_nat_eq of_int_of_nat_eq)
  show "0 \<le> sint i \<Longrightarrow> word_of_nat (nat (sint i)) = (i :: u64)"
    using w [of "sint i"] of_int_sint [of i] by simp
  show "sint i < 0 \<Longrightarrow> - word_of_nat (nat (- sint i)) = (i :: u64)"
    using w [of "- sint i"] of_int_sint [of i] by simp
qed

lemma write_int_text:
  "\<exists>t neg ip. write_int sink i = WOk (sink @ t) \<and> number_parts neg ip [] [] t \<and>
     token_value neg ip [] [] = Some (JInt i)"
proof -
  let ?neg = "sint i < 0"
  let ?n = "nat \<bar>sint i\<bar>"
  let ?t = "(if ?neg then [0x2D] else []) @ dec ?n"
  have b: "?n < 10 ^ 19" "int64_range ?neg ?n"
    using sint_bounds [of i] by (auto simp: int64_range_def)
  have "length ?t \<le> 24" using length_dec_le [OF b(1)] by (cases ?neg) simp_all
  moreover have "(if ?neg then 0x2D # dec (nat (- sint i)) else dec (nat (sint i))) = ?t" by simp
  ultimately have "write_int sink i = WOk (sink @ ?t)"
    unfolding write_int_def to_chars_int_def Let_def by (simp only: if_True option.case)
  moreover have "number_parts ?neg (dec ?n) [] [] ?t"
    using int_part_dec by (simp add: number_parts_def frac_part_def exp_part_def)
  moreover have "token_value ?neg (dec ?n) [] [] = Some (JInt i)"
    using b(2) word_of_nat_sint [of i] by (simp add: token_value_def digits_val_dec)
  ultimately show ?thesis by blast
qed

lemma has_point_append: "has_point (a @ b) \<longleftrightarrow> has_point a \<or> has_point b"
  by (auto simp: has_point_def)

lemma has_point_digits: "\<forall>c \<in> set ds. is_dec_digit c \<Longrightarrow> \<not> has_point ds"
  by (auto simp: has_point_def is_dec_digit_def)

lemma has_point_parts:
  assumes "number_parts neg ip fr ex t"
  shows "has_point t \<longleftrightarrow> fr \<noteq> [] \<or> ex \<noteq> []"
proof -
  have p: "t = (if neg then [0x2D] else []) @ ip @ fr @ ex" "int_part ip" "frac_part fr" "exp_part ex"
    using assms by (simp_all add: number_parts_def)
  have "\<not> has_point ip" using p(2) has_point_digits by (simp add: int_part_def digits1_def)
  moreover have "has_point fr \<longleftrightarrow> fr \<noteq> []" using p(3) by (auto simp: frac_part_def has_point_def)
  moreover have "has_point ex \<longleftrightarrow> ex \<noteq> []"
    using p(4) unfolding exp_part_def has_point_def by fastforce
  moreover have "\<not> has_point (if neg then [0x2D] else [])" by (simp add: has_point_def)
  ultimately show ?thesis unfolding p(1) has_point_append by blast
qed

lemma write_double_text:
  assumes "write_double sink b = WOk sink'"
  shows "\<exists>t neg ip fr ex. sink' = sink @ t \<and> number_parts neg ip fr ex t \<and>
    token_value neg ip fr ex = Some (JFloat b)"
proof -
  have fin: "f_isfinite b" using assms by (rule_tac ccontr) (simp add: write_double_def)
  obtain s where tc: "to_chars_double 32 b = Some s"
    using assms fin by (cases "to_chars_double 32 b") (simp_all add: write_double_def)
  have s: "shortest_text b = Some s" "sink' = sink @ s @ (if has_point s then [] else [0x2E, 0x30])"
  proof -
    show "shortest_text b = Some s"
      using tc unfolding to_chars_double_def by (cases "shortest_text b") (simp_all split: if_splits)
    show "sink' = sink @ s @ (if has_point s then [] else [0x2E, 0x30])"
      using assms fin by (simp add: write_double_def tc)
  qed
  obtain ip fr ex where p: "number_parts (f_sign b) ip fr ex s" "token_double (f_sign b) ip fr ex = Some b"
    using shortest_text_parts [OF s(1)] by blast
  show ?thesis
  proof (cases "has_point s")
    case True
    then have "token_value (f_sign b) ip fr ex = Some (JFloat b)"
      using has_point_parts [OF p(1)] p(2) by (auto simp: token_value_def)
    then show ?thesis using True s(2) p(1) by auto
  next
    case False
    then have e: "fr = []" "ex = []" using has_point_parts [OF p(1)] by auto
    have "number_parts (f_sign b) ip [0x2E, 0x30] [] (s @ [0x2E, 0x30])"
      using p(1) by (auto simp: number_parts_def e frac_part_def digits1_def)
    moreover have "token_value (f_sign b) ip [0x2E, 0x30] [] = Some (JFloat b)"
      using p(2) token_double_point_zero [of "f_sign b" ip] by (simp add: token_value_def e)
    ultimately show ?thesis using False s(2) by auto
  qed
qed

lemma number_parts_ascii:
  assumes "number_parts neg ip fr ex t"
  shows "all_ascii t"
proof -
  have d: "\<forall>c \<in> set ds. is_dec_digit c \<Longrightarrow> all_ascii ds" for ds
    by (auto simp: all_ascii_def is_dec_digit_def word_le_nat_alt word_less_nat_alt)
  show ?thesis
    using assms d
    by (auto simp: number_parts_def int_part_def frac_part_def exp_part_def digits1_def)
qed

section \<open>The dumped value\<close>

text \<open>The value in emission order.\<close>

fun ordered :: "dump_options \<Rightarrow> jvalue \<Rightarrow> jvalue" where
  "ordered opts (JArr xs) = JArr (map (ordered opts) xs)"
| "ordered opts (JObj es) = JObj (emission_order opts (map (\<lambda>e. (fst e, ordered opts (snd e))) es))"
| "ordered opts v = v"

fun utf8_strings :: "jvalue \<Rightarrow> bool" where
  "utf8_strings (JStr s) = utf8_valid s"
| "utf8_strings (JArr xs) = list_all utf8_strings xs"
| "utf8_strings (JObj es) = list_all (\<lambda>e. utf8_valid (fst e) \<and> utf8_strings (snd e)) es"
| "utf8_strings _ = True"

lemma insort_key_map:
  "(\<And>y. f (g y) = f y) \<Longrightarrow> insort_key f (g x) (map g xs) = map g (insort_key f x xs)"
  by (induction xs) auto

lemma sort_key_map: "(\<And>y. f (g y) = f y) \<Longrightarrow> sort_key f (map g xs) = map g (sort_key f xs)"
  by (induction xs) (simp_all add: insort_key_map)

lemma emission_order_map:
  "emission_order opts (map (\<lambda>e. (fst e, h (snd e))) es) = map (\<lambda>e. (fst e, h (snd e))) (emission_order opts es)"
  by (simp add: emission_order_def sort_key_map)

lemma set_emission_order [simp]: "set (emission_order opts es) = set es"
  by (simp add: emission_order_def)

lemma distinct_emission_order: "distinct (map fst (emission_order opts es)) \<longleftrightarrow> distinct (map fst es)"
  by (metis mset_emission_order mset_eq_imp_distinct_iff mset_map)

lemma ordered_plain: "\<not> o_sort_keys opts \<Longrightarrow> ordered opts v = v"
proof (induction v)
  case (JObj es)
  then have "map (\<lambda>e. (fst e, ordered opts (snd e))) es = es"
    by (intro map_idI) (auto simp: snds.simps fsts.simps)
  then show ?case using JObj by (simp add: emission_order_def)
qed (simp_all add: map_idI)

section \<open>What the writer writes\<close>

definition options_ok :: "dump_options \<Rightarrow> bool" where
  "options_ok opts \<longleftrightarrow> (o_pretty opts \<longrightarrow> o_indent_char opts = 0x20 \<or> o_indent_char opts = 0x09)"

lemma indented_ws: "options_ok opts \<Longrightarrow> ws (indented opts d) \<and> all_ascii (indented opts d)"
  by (auto simp: options_ok_def indented_def write_indent_def ws_def is_whitespace_def all_ascii_def)

text \<open>Strings are acceptable to the reader: checked by the ASCII mode, or not checked at all.\<close>

definition readable :: "rules \<Rightarrow> dump_options \<Rightarrow> jvalue \<Rightarrow> bool" where
  "readable R opts v \<longleftrightarrow> unique_keys v \<and> (r_strict_utf8 R \<longrightarrow> o_ascii opts \<or> utf8_strings v)"

definition value_written :: "rules \<Rightarrow> dump_options \<Rightarrow> bytes \<Rightarrow> jvalue \<Rightarrow> bytes \<Rightarrow> bool" where
  "value_written R opts sink v sink' \<longleftrightarrow>
     (\<exists>t. sink' = sink @ t \<and> value_text R (json_depth v) t (ordered opts v) \<and> (o_ascii opts \<longrightarrow> all_ascii t))"

definition elements_written :: "rules \<Rightarrow> dump_options \<Rightarrow> bytes \<Rightarrow> jvalue list \<Rightarrow> bytes \<Rightarrow> bool" where
  "elements_written R opts sink vs sink' \<longleftrightarrow>
     (\<exists>t. sink' = sink @ t \<and> (o_ascii opts \<longrightarrow> all_ascii t) \<and>
       (\<forall>d w. (\<forall>v \<in> set vs. json_depth v \<le> d) \<longrightarrow> ws w \<longrightarrow> elements_text R d (t @ w) (map (ordered opts) vs)))"

definition members_written :: "rules \<Rightarrow> dump_options \<Rightarrow> bytes \<Rightarrow> jentries \<Rightarrow> bytes \<Rightarrow> bool" where
  "members_written R opts sink es sink' \<longleftrightarrow>
     (\<exists>t. sink' = sink @ t \<and> (o_ascii opts \<longrightarrow> all_ascii t) \<and>
       (\<forall>d w acc. (\<forall>e \<in> set es. json_depth (snd e) \<le> d) \<longrightarrow> ws w \<longrightarrow> distinct (map fst (acc @ es)) \<longrightarrow>
          members_text R d acc (t @ w) (acc @ map (\<lambda>e. (fst e, ordered opts (snd e))) es)))"

definition separator :: "bool \<Rightarrow> bytes" where
  "separator first = (if first then [] else [0x2C])"

lemma bindw_WOk: "bindw m f = WOk s \<longleftrightarrow> (\<exists>s'. m = WOk s' \<and> f s' = WOk s)"
  by (cases m) simp_all

lemma value_written_leaf:
  "value_text R (json_depth v) t (ordered opts v) \<Longrightarrow> all_ascii t \<Longrightarrow> value_written R opts sink v (sink @ t)"
  by (auto simp: value_written_def)

lemma readable_arr: "readable R opts (JArr xs) \<longleftrightarrow> (\<forall>v \<in> set xs. readable R opts v)"
  by (auto simp: readable_def list_all_iff)

lemma readable_obj:
  "readable R opts (JObj es) \<longleftrightarrow> distinct (map fst es) \<and>
     (\<forall>e \<in> set es. readable R opts (snd e) \<and> (r_strict_utf8 R \<longrightarrow> o_ascii opts \<or> utf8_valid (fst e)))"
  by (auto simp: readable_def list_all_iff)

lemma key_written:
  assumes "w \<le> 64" "write_escaped_impl w sink k (o_ascii opts) = WOk s1"
    "r_strict_utf8 R \<longrightarrow> o_ascii opts \<or> utf8_valid k"
  shows "\<exists>kt. s1 = sink @ kt \<and> quoted R kt k \<and> (o_ascii opts \<longrightarrow> all_ascii kt)"
proof -
  obtain t where t: "s1 = sink @ 0x22 # t @ [0x22]" "string_text t k" "utf8_valid k \<longrightarrow> utf8_valid t"
      "o_ascii opts \<longrightarrow> utf8_valid k \<and> all_ascii t"
    using write_escaped_text [OF assms(1,2)] by blast
  then show ?thesis
    using assms(3) by (intro exI [of _ "0x22 # t @ [0x22]"]) (auto simp: quoted_def)
qed

lemma elements_written_Cons:
  assumes "value_written R opts (sink @ separator first @ i) v s1" "ws i" "all_ascii i"
    "vs \<noteq> [] \<Longrightarrow> \<exists>s2. s1 @ separator False = s2 \<and> elements_written R opts s2 vs sink'" "vs = [] \<Longrightarrow> sink' = s1"
  shows "elements_written R opts (sink @ separator first) (v # vs) sink'"
proof -
  obtain t where t: "s1 = sink @ separator first @ i @ t" "value_text R (json_depth v) t (ordered opts v)"
      "o_ascii opts \<longrightarrow> all_ascii t"
    using assms(1) by (auto simp: value_written_def)
  show ?thesis
  proof (cases "vs = []")
    case True
    have "elements_text R d ((i @ t) @ w) [ordered opts v]" if "json_depth v \<le> d" "ws w" for d w
      using last_element [OF assms(2) value_mono [OF t(2) that(1)] that(2)] by simp
    then show ?thesis
      using True t assms(3,5) unfolding elements_written_def by (intro exI [of _ "i @ t"]) auto
  next
    case False
    then obtain r where r: "sink' = s1 @ [0x2C] @ r" "o_ascii opts \<longrightarrow> all_ascii r"
        "\<And>d w. \<forall>v \<in> set vs. json_depth v \<le> d \<Longrightarrow> ws w \<Longrightarrow> elements_text R d (r @ w) (map (ordered opts) vs)"
      using assms(4) by (auto simp: elements_written_def separator_def)
    have "elements_text R d ((i @ t @ 0x2C # r) @ w) (map (ordered opts) (v # vs))"
      if "\<forall>v \<in> set (v # vs). json_depth v \<le> d" "ws w" for d w
      using more_elements [OF assms(2) value_mono [OF t(2)], of d "[]" "r @ w"] r(3) [of d w] that by simp
    then show ?thesis
      using t r(1,2) assms(3) unfolding elements_written_def by (intro exI [of _ "i @ t @ 0x2C # r"]) auto
  qed
qed

lemma members_written_Cons:
  assumes "s1 = sink @ separator first @ i @ kt" "quoted R kt k" "o_ascii opts \<longrightarrow> all_ascii kt" "ws i" "all_ascii i"
    "value_written R opts (s1 @ 0x3A # c) v s2" "ws c" "all_ascii c"
    "es \<noteq> [] \<Longrightarrow> members_written R opts (s2 @ separator False) es sink'" "es = [] \<Longrightarrow> sink' = s2"
  shows "members_written R opts (sink @ separator first) ((k, v) # es) sink'"
proof -
  obtain t where t: "s2 = s1 @ 0x3A # c @ t" "value_text R (json_depth v) t (ordered opts v)"
      "o_ascii opts \<longrightarrow> all_ascii t"
    using assms(6) by (auto simp: value_written_def)
  have new: "member_ok R acc k" "obj_put acc k (ordered opts v) = acc @ [(k, ordered opts v)]"
    if "distinct (map fst (acc @ (k, v) # es))" for acc
    using that by (auto simp: member_ok_def intro: obj_put_new)
  show ?thesis
  proof (cases "es = []")
    case True
    have "members_text R d acc ((i @ kt @ 0x3A # c @ t) @ w) (acc @ [(k, ordered opts v)])"
      if "json_depth v \<le> d" "ws w" "distinct (map fst (acc @ [(k, v)]))" for d w acc
      using last_member [OF assms(4,2) new(1) _ assms(7) value_mono [OF t(2) that(1)] that(2), of acc "[]"] new(2) [of acc]
        that(3) True by simp
    then show ?thesis
      using True t assms(1,3,5,8,10) unfolding members_written_def by (intro exI [of _ "i @ kt @ 0x3A # c @ t"]) auto
  next
    case False
    then obtain r where r: "sink' = s2 @ [0x2C] @ r" "o_ascii opts \<longrightarrow> all_ascii r"
        "\<And>d w acc. \<forall>e \<in> set es. json_depth (snd e) \<le> d \<Longrightarrow> ws w \<Longrightarrow> distinct (map fst (acc @ es)) \<Longrightarrow>
          members_text R d acc (r @ w) (acc @ map (\<lambda>e. (fst e, ordered opts (snd e))) es)"
      using assms(9) by (auto simp: members_written_def separator_def)
    have "members_text R d acc ((i @ kt @ 0x3A # c @ t @ 0x2C # r) @ w)
        (acc @ map (\<lambda>e. (fst e, ordered opts (snd e))) ((k, v) # es))"
      if "\<forall>e \<in> set ((k, v) # es). json_depth (snd e) \<le> d" "ws w" "distinct (map fst (acc @ (k, v) # es))" for d w acc
    proof -
      have "distinct (map fst ((acc @ [(k, ordered opts v)]) @ es))" using that(3) by simp
      then have "members_text R d (obj_put acc k (ordered opts v)) (r @ w)
          (acc @ (k, ordered opts v) # map (\<lambda>e. (fst e, ordered opts (snd e))) es)"
        using r(3) [of d w "acc @ [(k, ordered opts v)]"] that(1,2) new(2) [OF that(3)] by simp
      from more_members [OF assms(4,2) new(1) [OF that(3)] _ assms(7) value_mono [OF t(2)] ws_Nil this, of "[]"] that(1)
      show ?thesis by simp
    qed
    then show ?thesis
      using t r(1,2) assms(1,3,5,8) unfolding members_written_def by (intro exI [of _ "i @ kt @ 0x3A # c @ t @ 0x2C # r"]) auto
  qed
qed

lemma separator_simps [simp]: "separator True = []" "separator False = [0x2C]"
  by (simp_all add: separator_def)

lemma lit_ascii: "all_ascii (lit ''null'')" "all_ascii (lit ''true'')" "all_ascii (lit ''false'')"
  by (simp_all add: lit_def)

text \<open>Every successful write appends a text of the value.\<close>

lemma writer_correct:
  shows "write_value opts w md sink v depth = WOk sink' \<Longrightarrow> w \<le> 64 \<Longrightarrow> options_ok opts \<Longrightarrow> readable R opts v \<Longrightarrow>
      value_written R opts sink v sink'"
    and "write_elements opts w md first sink vs depth = WOk sink' \<Longrightarrow> w \<le> 64 \<Longrightarrow> options_ok opts \<Longrightarrow>
      \<forall>v \<in> set vs. readable R opts v \<Longrightarrow> vs \<noteq> [] \<Longrightarrow> elements_written R opts (sink @ separator first) vs sink'"
    and "write_members opts w md first sink es depth = WOk sink' \<Longrightarrow> w \<le> 64 \<Longrightarrow> options_ok opts \<Longrightarrow>
      \<forall>e \<in> set es. readable R opts (snd e) \<and> (r_strict_utf8 R \<longrightarrow> o_ascii opts \<or> utf8_valid (fst e)) \<Longrightarrow> es \<noteq> [] \<Longrightarrow>
      members_written R opts (sink @ separator first) es sink'"
proof (induction opts w md sink v depth and opts w md first sink vs depth and opts w md first sink es depth
    arbitrary: sink' and sink' and sink' rule: write_value_write_elements_write_members.induct)
  case (1 opts w md sink depth)
  have "value_text R (json_depth (JNull :: jvalue)) (lit ''null'') (ordered opts JNull)" by (simp add: null)
  from value_written_leaf [OF this lit_ascii(1), of sink] show ?case using 1(1) by simp
next
  case (2 opts w md sink b depth)
  have "value_text R (json_depth (JBool b :: jvalue)) (if b then lit ''true'' else lit ''false'') (ordered opts (JBool b))"
    by (simp add: true false)
  from value_written_leaf [OF this _, of sink] show ?case using 2(1) lit_ascii(2,3) by (auto split: if_splits)
next
  case (3 opts w md sink i depth)
  obtain t neg ip where t: "write_int sink i = WOk (sink @ t)" "number_parts neg ip [] [] t"
      "token_value neg ip [] [] = Some (JInt i :: jvalue)"
    using write_int_text by blast
  have "value_text R (json_depth (JInt i :: jvalue)) t (ordered opts (JInt i))" using number [OF t(2,3)] by simp
  from value_written_leaf [OF this number_parts_ascii [OF t(2)], of sink] show ?case using 3(1) t(1) by simp
next
  case (4 opts w md sink f depth)
  obtain t neg ip fr ex where t: "sink' = sink @ t" "number_parts neg ip fr ex t" "token_value neg ip fr ex = Some (JFloat f :: jvalue)"
    using write_double_text 4(1) by (metis write_value.simps(4))
  have "value_text R (json_depth (JFloat f :: jvalue)) t (ordered opts (JFloat f))" using number [OF t(2,3)] by simp
  from value_written_leaf [OF this number_parts_ascii [OF t(2)], of sink] show ?case using t(1) by simp
next
  case (5 opts w md sink s depth)
  obtain kt where kt: "sink' = sink @ kt" "quoted R kt s" "o_ascii opts \<longrightarrow> all_ascii kt"
    using key_written [OF 5(2), of sink s opts sink' R] 5(1,4) by (auto simp: readable_def)
  have "value_text R (json_depth (JStr s)) kt (ordered opts (JStr s))" using string [OF kt(2)] by simp
  then show ?case unfolding value_written_def kt(1) using kt(3) by (intro exI [of _ kt]) simp
next
  case (6 opts w md sink xs depth)
  show ?case
  proof (cases "xs = []")
    case True
    have "value_text R 1 [0x5B, 0x5D] (JArr [])" using empty_array [of "[]" R 0] by simp
    then show ?thesis using 6(2) True by (auto simp: value_written_def split: if_splits)
  next
    case False
    then obtain s1 where s1: "\<not> too_deep md depth" "write_elements opts w md True (sink @ [0x5B]) xs depth = WOk s1"
        "sink' = s1 @ indented opts depth @ [0x5D]"
      using 6(2) by (auto simp: bindw_WOk split: if_splits)
    have "elements_written R opts (sink @ [0x5B]) xs s1"
      using 6(1) [OF s1(1) False s1(2) 6(3,4)] 6(5) False by (simp add: readable_arr)
    then obtain t where t: "s1 = sink @ 0x5B # t" "o_ascii opts \<longrightarrow> all_ascii t"
        "\<And>d w. \<forall>v \<in> set xs. json_depth v \<le> d \<Longrightarrow> ws w \<Longrightarrow> elements_text R d (t @ w) (map (ordered opts) xs)"
      by (auto simp: elements_written_def)
    obtain d where d: "json_depth (JArr xs) = Suc d" by simp
    have "\<forall>v \<in> set xs. json_depth v \<le> d" using json_depth_le(1) [of xs d] d by simp
    from array [OF t(3) [OF this], of "indented opts depth"] indented_ws [OF 6(4)]
    show ?thesis unfolding value_written_def d s1(3) t(1)
      by (intro exI [of _ "0x5B # (t @ indented opts depth) @ [0x5D]"]) (use t(2) indented_ws [OF 6(4)] in simp)
  qed
next
  case (7 opts w md sink es depth)
  show ?case
  proof (cases "es = []")
    case True
    have "value_text R 1 [0x7B, 0x7D] (JObj [])" using empty_object [of "[]" R 0] by simp
    then show ?thesis using 7(2) True by (auto simp: value_written_def emission_order_def split: if_splits)
  next
    case False
    let ?es = "emission_order opts es"
    obtain s1 where s1: "\<not> too_deep md depth" "write_members opts w md True (sink @ [0x7B]) ?es depth = WOk s1"
        "sink' = s1 @ indented opts depth @ [0x7D]"
      using 7(2) False by (auto simp: bindw_WOk split: if_splits)
    have ne: "?es \<noteq> []" using False by (metis set_emission_order set_empty)
    have "members_written R opts (sink @ [0x7B]) ?es s1"
      using 7(1) [OF s1(1) False s1(2) 7(3,4)] 7(5) ne by (simp add: readable_obj)
    then obtain t where t: "s1 = sink @ 0x7B # t" "o_ascii opts \<longrightarrow> all_ascii t"
        "\<And>d w acc. \<forall>e \<in> set ?es. json_depth (snd e) \<le> d \<Longrightarrow> ws w \<Longrightarrow> distinct (map fst (acc @ ?es)) \<Longrightarrow>
          members_text R d acc (t @ w) (acc @ map (\<lambda>e. (fst e, ordered opts (snd e))) ?es)"
      by (auto simp: members_written_def)
    obtain d where d: "json_depth (JObj es) = Suc d" by simp
    have de: "\<forall>e \<in> set ?es. json_depth (snd e) \<le> d" using json_depth_le(2) [of es d] d by simp
    have "distinct (map fst ([] @ ?es))" using 7(5) by (simp add: readable_obj distinct_emission_order)
    from object [OF t(3) [OF de _ this, unfolded append_Nil], of "indented opts depth"] indented_ws [OF 7(4)]
    show ?thesis unfolding value_written_def d s1(3) t(1)
      by (intro exI [of _ "0x7B # (t @ indented opts depth) @ [0x7D]"])
        (use t(2) indented_ws [OF 7(4)] in \<open>simp add: emission_order_map\<close>)
  qed
next
  case (8 opts w md first sink depth)
  then show ?case by simp
next
  case (9 opts w md first sink v vs depth)
  let ?i = "indented opts (depth + 1)"
  obtain s1 where s1: "write_value opts w md (sink @ separator first @ ?i) v (depth + 1) = WOk s1"
      "write_elements opts w md False s1 vs depth = WOk sink'"
    using 9(3) by (auto simp: bindw_WOk separator_def)
  have "value_written R opts (sink @ separator first @ ?i) v s1"
    using 9(1) [unfolded separator_def [symmetric], OF s1(1) 9(4,5)] 9(6) by simp
  moreover have "elements_written R opts (s1 @ separator False) vs sink'" if "vs \<noteq> []"
    using 9(2) [OF s1(2) 9(4,5) _ that] 9(6) by simp
  moreover have "sink' = s1" if "vs = []" using s1(2) that by simp
  ultimately show ?case using indented_ws [OF 9(5)] by (intro elements_written_Cons) auto
next
  case (10 opts w md first sink depth)
  then show ?case by simp
next
  case (11 opts w md first sink k v es depth)
  let ?i = "indented opts (depth + 1)" and ?c = "if o_pretty opts then [0x20] else []"
  obtain s1 s2 where s: "write_escaped_impl w (sink @ separator first @ ?i) k (o_ascii opts) = WOk s1"
      "write_value opts w md (s1 @ 0x3A # ?c) v (depth + 1) = WOk s2"
      "write_members opts w md False s2 es depth = WOk sink'"
    using 11(3) by (auto simp: bindw_WOk separator_def split: if_splits)
  have col: "(if o_pretty opts then [0x3A, 0x20] else [0x3A]) = 0x3A # ?c" by simp
  obtain kt where kt: "s1 = (sink @ separator first @ ?i) @ kt" "quoted R kt k" "o_ascii opts \<longrightarrow> all_ascii kt"
    using key_written [OF 11(4) s(1)] 11(6) by auto
  have v: "value_written R opts (s1 @ 0x3A # ?c) v s2"
    using 11(1) [unfolded col, OF s(2) 11(4,5)] 11(6) by simp
  have r: "members_written R opts (s2 @ separator False) es sink'" if "es \<noteq> []"
    using 11(2) [OF s(3) 11(4,5) _ that] 11(6) by simp
  have e: "sink' = s2" if "es = []" using s(3) that by simp
  have c: "ws ?c" "all_ascii ?c" by (simp_all add: ws_def is_whitespace_def)
  show ?case
    by (rule members_written_Cons [OF _ kt(2,3) _ _ v c r e]) (use kt(1) indented_ws [OF 11(5)] in auto)
qed

end
