(* ===== verification/WriterEntry.thy ===== *)
theory WriterEntry
  imports WriterProofs
begin

text \<open>
  What the dump entry points promise: which values are written and which are refused, that
  the text parses back to the value, and the character set of the ASCII mode.
\<close>

section \<open>When the writer succeeds\<close>

definition printable_double :: "u64 \<Rightarrow> bool" where
  "printable_double b \<longleftrightarrow> f_isfinite b \<and> to_chars_double 32 b \<noteq> None"

fun writable :: "bool \<Rightarrow> jvalue \<Rightarrow> bool" where
  "writable ascii (JFloat b) = printable_double b"
| "writable ascii (JStr s) = (ascii \<longrightarrow> utf8_valid s)"
| "writable ascii (JArr xs) = list_all (writable ascii) xs"
| "writable ascii (JObj es) = list_all (\<lambda>e. (ascii \<longrightarrow> utf8_valid (fst e)) \<and> writable ascii (snd e)) es"
| "writable ascii v = True"

definition succeeds :: "written \<Rightarrow> bool" where
  "succeeds r \<longleftrightarrow> (\<exists>s. r = WOk s)"

lemma succeeds_simps [simp]: "succeeds (WOk s)" "\<not> succeeds (WFail s e)"
  by (simp_all add: succeeds_def)

lemma succeeds_bindw: "(\<And>s. succeeds (f s) \<longleftrightarrow> P) \<Longrightarrow> succeeds (bindw m f) \<longleftrightarrow> succeeds m \<and> P"
  by (cases m) simp_all

lemma succeeds_double: "succeeds (write_double sink b) \<longleftrightarrow> printable_double b"
  by (auto simp: write_double_def printable_double_def split: option.splits)

lemma succeeds_int: "succeeds (write_int sink i)"
  using write_int_text [of sink i] by auto

lemma succeeds_escaped: "w \<le> 64 \<Longrightarrow> succeeds (write_escaped_impl w sink s ascii) \<longleftrightarrow> (ascii \<longrightarrow> utf8_valid s)"
  unfolding succeeds_def by (rule write_escaped_total)

definition fits_depth :: "nat \<Rightarrow> nat \<Rightarrow> bool" where
  "fits_depth max_depth d \<longleftrightarrow> max_depth = 0 \<or> d \<le> max_depth"

lemma fits_depth_arr:
  "fits_depth m (depth + json_depth (JArr xs)) \<longleftrightarrow>
     \<not> too_deep m depth \<and> (\<forall>v \<in> set xs. fits_depth m (depth + 1 + json_depth v))"
  using fold_max_le [of "map json_depth xs" 0 "m - Suc depth"] by (auto simp: fits_depth_def too_deep_def)

lemma fits_depth_obj:
  "fits_depth m (depth + json_depth (JObj es)) \<longleftrightarrow>
     \<not> too_deep m depth \<and> (\<forall>e \<in> set es. fits_depth m (depth + 1 + json_depth (snd e)))"
  using fold_max_le [of "map (\<lambda>(k, v). json_depth v) es" 0 "m - Suc depth"]
  by (auto simp: fits_depth_def too_deep_def)

lemma too_deep_fits: "\<not> too_deep m depth \<longleftrightarrow> fits_depth m (depth + 1)"
  by (auto simp: fits_depth_def too_deep_def)

lemma emission_order_ne [simp]: "emission_order opts es = [] \<longleftrightarrow> es = []"
  by (metis set_emission_order set_empty)

lemma writer_succeeds:
  shows "w \<le> 64 \<Longrightarrow> fits_depth m depth \<Longrightarrow> succeeds (write_value opts w m sink v depth) \<longleftrightarrow>
      fits_depth m (depth + json_depth v) \<and> writable (o_ascii opts) v"
    and "w \<le> 64 \<Longrightarrow> fits_depth m (depth + 1) \<Longrightarrow> succeeds (write_elements opts w m first sink vs depth) \<longleftrightarrow>
      (\<forall>v \<in> set vs. fits_depth m (depth + 1 + json_depth v) \<and> writable (o_ascii opts) v)"
    and "w \<le> 64 \<Longrightarrow> fits_depth m (depth + 1) \<Longrightarrow> succeeds (write_members opts w m first sink es depth) \<longleftrightarrow>
      (\<forall>e \<in> set es. fits_depth m (depth + 1 + json_depth (snd e)) \<and> (o_ascii opts \<longrightarrow> utf8_valid (fst e)) \<and>
         writable (o_ascii opts) (snd e))"
proof (induction opts w m sink v depth and opts w m first sink vs depth and opts w m first sink es depth
    rule: write_value_write_elements_write_members.induct)
  case (6 opts w m sink xs depth)
  show ?case
  proof (cases "too_deep m depth \<or> xs = []")
    case True
    then show ?thesis using fits_depth_arr [of m depth xs] by auto
  next
    case False
    then have "succeeds (write_elements opts w m True (sink @ [0x5B]) xs depth) \<longleftrightarrow>
        (\<forall>v \<in> set xs. fits_depth m (depth + 1 + json_depth v) \<and> writable (o_ascii opts) v)"
      using 6 too_deep_fits by blast
    moreover have "succeeds (write_value opts w m sink (JArr xs) depth) \<longleftrightarrow>
        succeeds (write_elements opts w m True (sink @ [0x5B]) xs depth) \<and> True"
      using False by (simp add: succeeds_bindw)
    ultimately show ?thesis using False unfolding fits_depth_arr by (auto simp: list_all_iff)
  qed
next
  case (7 opts w m sink es depth)
  show ?case
  proof (cases "too_deep m depth \<or> es = []")
    case True
    then show ?thesis using fits_depth_obj [of m depth es] by auto
  next
    case False
    then have "succeeds (write_members opts w m True (sink @ [0x7B]) (emission_order opts es) depth) \<longleftrightarrow>
        (\<forall>e \<in> set es. fits_depth m (depth + 1 + json_depth (snd e)) \<and> (o_ascii opts \<longrightarrow> utf8_valid (fst e)) \<and>
         writable (o_ascii opts) (snd e))"
      using 7 too_deep_fits by (metis set_emission_order)
    moreover have "succeeds (write_value opts w m sink (JObj es) depth) \<longleftrightarrow>
        succeeds (write_members opts w m True (sink @ [0x7B]) (emission_order opts es) depth) \<and> True"
      using False by (simp add: succeeds_bindw)
    ultimately show ?thesis using False unfolding fits_depth_obj by (auto simp: list_all_iff)
  qed
next
  case (9 opts w m first sink v vs depth)
  show ?case
    using 9 by (simp add: succeeds_bindw)
next
  case (11 opts w m first sink k v es depth)
  then show ?case by (simp add: succeeds_bindw succeeds_escaped conj_ac)
qed (simp_all add: succeeds_double succeeds_int succeeds_escaped)

section \<open>The entry points\<close>

lemma dump_impl_Inr:
  "dump_impl opts w m v = Inr s \<longleftrightarrow> options_ok opts \<and> write_value opts w m [] v 0 = WOk s"
  by (auto simp: dump_impl_def dump_value_to_def options_ok_def split: written.splits)

lemma dump_succeeds:
  assumes "w \<le> 64"
  shows "(\<exists>s. dump_impl opts w m v = Inr s) \<longleftrightarrow>
    options_ok opts \<and> fits_depth m (json_depth v) \<and> writable (o_ascii opts) v"
  using writer_succeeds(1) [OF assms, of m 0 opts "[]" v]
  by (auto simp: dump_impl_Inr succeeds_def fits_depth_def)

lemma value_text_no_bom:
  "value_text R d t v \<Longrightarrow> \<not> starts_with_utf8_bom t"
proof (induction rule: value_text_elements_text_members_text.inducts(1)
    [where ?P2.0 = "\<lambda>_ _ _. True" and ?P3.0 = "\<lambda>_ _ _ _. True"])
  case (number neg ip fr ex t v d)
  then obtain c r where "t = c # r" "number_start c" using number_parts_hd by blast
  then show ?case
    by (auto simp: starts_with_utf8_bom_def number_start_def is_dec_digit_def)
qed (auto simp: starts_with_utf8_bom_def lit_def quoted_def)

lemma dump_denotes:
  assumes "dump_impl opts w (cfg_max_depth cfg) v = Inr s" "w \<le> 64" "unique_keys v"
    "cfg_strict_utf8 cfg \<longrightarrow> o_ascii opts \<or> utf8_strings v"
  shows "denotes cfg s (ordered opts v)"
proof -
  have o: "options_ok opts" "write_value opts w (cfg_max_depth cfg) [] v 0 = WOk s"
    using assms(1) by (simp_all add: dump_impl_Inr)
  have "readable (rules_for cfg) opts v" using assms(3,4) by (simp add: readable_def rules_for_def)
  then have t: "value_text (rules_for cfg) (json_depth v) s (ordered opts v)"
    using writer_correct(1) [OF o(2) assms(2) o(1)] by (auto simp: value_written_def)
  then have "json_text (rules_for cfg) (json_depth v) s (ordered opts v)"
    unfolding json_text_def by (intro exI [of _ "[]"] exI [of _ s]) simp
  moreover have "within_depth cfg (json_depth v)"
    using dump_succeeds [OF assms(2), of opts "cfg_max_depth cfg" v] assms(1) by (auto simp: within_depth_def fits_depth_def)
  moreover have "without_bom cfg s = s" using value_text_no_bom [OF t] by (simp add: without_bom_def)
  ultimately show ?thesis unfolding denotes_def by auto
qed

definition sample :: jvalue where
  "sample = JObj [(lit ''b'', JArr [JInt 1, JNull]), (lit ''a'', JStr [0xC3, 0xA9, 0x0A])]"

definition pretty_sorted :: dump_options where
  "pretty_sorted = \<lparr>o_pretty = True, o_indent = 2, o_indent_char = 0x20, o_ascii = True, o_sort_keys = True\<rparr>"

lemma sample_dump:
  "dump_impl pretty_sorted 16 512 sample =
     Inr (0x7B # 0x0A # lit ''  \"a\": \"'' @ 0x5C # lit ''u00e9'' @ 0x5C # lit ''n\",'' @
       0x0A # lit ''  \"b\": ['' @ 0x0A # lit ''    1,'' @ 0x0A # lit ''    null'' @ 0x0A # lit ''  ]'' @ [0x0A, 0x7D])"
  by code_simp

lemma sample_facts: "unique_keys sample" "ordered pretty_sorted sample =
    JObj [(lit ''a'', JStr [0xC3, 0xA9, 0x0A]), (lit ''b'', JArr [JInt 1, JNull])]"
  by code_simp+

text \<open>
  C8: what \<^verbatim>\<open>dump\<close> writes, \<^verbatim>\<open>parse\<close> reads back: whatever the dump options (pretty
  printing, indentation, ASCII mode, sorted keys) and the SIMD width, a successfully dumped
  value with distinct keys parses in RFC mode under the same depth limit, to the same value
  with members in emission order; only the strict UTF-8 setting asks for well-formed strings,
  which the ASCII mode guarantees by itself.
\<close>
theorem dump_parse_roundtrip:
  assumes "dump_impl opts w (cfg_max_depth cfg) v = Inr s" "w \<le> 64" "unique_keys v"
    and "cfg_strict_utf8 cfg \<longrightarrow> o_ascii opts \<or> utf8_strings v"
    and "\<not> cfg_json5 cfg" "platform_ok pl" "length s < 2 ^ 32"
  shows "\<exists>doc. parse_copy_impl cfg pl s = Ok doc \<and> doc_json doc = ordered opts v"
  using parse_copy_iff [OF assms(5-7), of "ordered opts v"] dump_denotes [OF assms(1-4)] by (simp add: yields_def)

theorem dump_parse_roundtrip_witness:
  "\<exists>s doc. dump_impl pretty_sorted 16 512 sample = Inr s \<and> parse_copy_impl default_config sse2 s = Ok doc \<and>
     doc_json doc = JObj [(lit ''a'', JStr [0xC3, 0xA9, 0x0A]), (lit ''b'', JArr [JInt 1, JNull])]"
proof -
  obtain s where s: "dump_impl pretty_sorted 16 512 sample = Inr s" "length s < 2 ^ 32"
    using sample_dump by (simp add: lit_def)
  have "dump_impl pretty_sorted 16 (cfg_max_depth default_config) sample = Inr s" using s(1) by (simp add: default_config_def)
  from dump_parse_roundtrip [OF this _ sample_facts(1) _ sse2_ok(2,1) s(2)] s(1) sample_facts(2)
  show ?thesis by (simp add: default_config_def)
qed

text \<open>
  C12: \<^verbatim>\<open>dump\<close> refuses a value exactly when the options name an indent character other
  than blank and tab, the depth limit is exceeded, a double is not finite (or longer than the
  32-byte buffer), or the ASCII mode meets ill-formed UTF-8.
\<close>
theorem dump_refusals:
  assumes "w \<le> 64"
  shows "(\<exists>s. dump_impl opts w m v = Inr s) \<longleftrightarrow>
    (o_pretty opts \<longrightarrow> o_indent_char opts = 0x20 \<or> o_indent_char opts = 0x09) \<and>
    (m = 0 \<or> json_depth v \<le> m) \<and> writable (o_ascii opts) v"
  using dump_succeeds [OF assms] by (simp add: options_ok_def fits_depth_def)

theorem dump_refusals_witness:
  "\<not> (\<exists>s. dump_impl compact_options 16 1 sample = Inr s) \<and> (\<exists>s. dump_impl compact_options 16 2 sample = Inr s)"
  using dump_refusals [of 16 compact_options 1 sample] dump_refusals [of 16 compact_options 2 sample]
  by (simp add: sample_def compact_options_def)

text \<open>
  in ASCII mode every byte of the output is below 0x80, also in keys; a \<open>dump\<close> option
  that sorts keys or indents does not break this.
\<close>
theorem dump_ascii_output:
  assumes "dump_impl opts w m v = Inr s" "w \<le> 64" "o_ascii opts" "unique_keys v"
  shows "\<forall>c \<in> set s. c < 0x80"
  using writer_correct(1) [of opts w m "[]" v 0 s "\<lparr>r_strict_utf8 = True, r_strict_dup = True\<rparr>"] assms
  by (auto simp: dump_impl_Inr readable_def value_written_def all_ascii_def)

theorem dump_ascii_output_witness:
  "\<exists>s. dump_impl pretty_sorted 16 512 sample = Inr s \<and> (\<forall>c \<in> set s. c < 0x80)"
  using sample_dump dump_ascii_output [OF sample_dump _ _ sample_facts(1)] by (simp add: pretty_sorted_def)

text \<open>
  C13: the escaping with a SIMD mask over \<open>w\<close> lanes writes byte for byte what escaping one
  character after the other gives, and unescaping it gives the string back.
\<close>
theorem escape_wide_scalar:
  assumes "w \<le> 64"
  shows "write_escaped_impl w sink s False = WOk (sink @ 0x22 # escaped s @ [0x22]) \<and> string_text (escaped s) s"
  using write_escaped_plain [OF assms] escaped_text by simp

theorem escape_wide_scalar_witness:
  "write_escaped_impl 16 [] [0x41, 0x0A] False = WOk (lit ''\"A'' @ 0x5C # lit ''n\"'')"
  using escape_wide_scalar [of 16 "[]" "[0x41, 0x0A]"]
  by (simp add: escape_byte_def append_escape_def needs_escape_def lit_def)

end
