(* ===== verification/ObjectIndex.thy ===== *)
theory ObjectIndex
  imports KeyIndex
begin

unbundle bit_operations_syntax

text \<open>
  The lookup cache of \<^verbatim>\<open>Object\<close>: \<^verbatim>\<open>struct Object::Index\<close> and its life cycle in
  \<^verbatim>\<open>src/object.cpp\<close>.  Slot values, capacity and size are \<^verbatim>\<open>uint32_t\<close> there; they are
  naturals here with the narrowing written out.  \<^term>\<open>None\<close> as a result stands for a
  probe that never meets a free slot.
\<close>

section \<open>The index\<close>

record obj_index =
  ix_cap :: nat
  ix_size :: nat
  ix_stale :: bool
  ix_slots :: "nat list"

definition kIndexThreshold :: nat where "kIndexThreshold = 16"

definition as_u32 :: "nat \<Rightarrow> nat" where
  "as_u32 n = n mod 2 ^ 32"

text \<open>\<^verbatim>\<open>idx.cap - 1\<close> is computed in \<^verbatim>\<open>uint32_t\<close>.\<close>

definition ix_mask :: "obj_index \<Rightarrow> nat" where
  "ix_mask idx = as_u32 (ix_cap idx + (2 ^ 32 - 1))"

definition fnv_step :: "u32 \<Rightarrow> byte \<Rightarrow> u32" where
  "fnv_step h c = (h XOR ucast c) * 16777619"

definition key_hash :: "bytes \<Rightarrow> u32" where
  "key_hash key = foldl fnv_step 2166136261 key"

definition key_home :: "bytes \<Rightarrow> nat" where
  "key_home key = unat (key_hash key)"

definition probe_for :: "bytes list \<Rightarrow> obj_index \<Rightarrow> bytes \<Rightarrow> (nat + nat) option" where
  "probe_for ks idx key = probe (ix_slots idx) (ix_mask idx) (\<lambda>p. ks ! p = key) (key_home key AND ix_mask idx)"

definition index_insert :: "bytes list \<Rightarrow> obj_index \<Rightarrow> nat \<Rightarrow> obj_index option" where
  "index_insert ks idx pos =
     (case probe_for ks idx (ks ! pos) of
        None \<Rightarrow> None
      | Some (Inl _) \<Rightarrow> Some idx
      | Some (Inr slot) \<Rightarrow>
          Some (idx\<lparr>ix_slots := (ix_slots idx)[slot := as_u32 (as_u32 pos + 1)],
                    ix_size := as_u32 (ix_size idx + 1)\<rparr>))"

fun index_fill :: "bytes list \<Rightarrow> obj_index \<Rightarrow> nat list \<Rightarrow> obj_index option" where
  "index_fill ks idx [] = Some idx"
| "index_fill ks idx (p # ps) =
     (case index_insert ks idx p of None \<Rightarrow> None | Some idx' \<Rightarrow> index_fill ks idx' ps)"

definition index_refill :: "bytes list \<Rightarrow> obj_index \<Rightarrow> obj_index option" where
  "index_refill ks idx =
     index_fill ks (idx\<lparr>ix_slots := replicate (length (ix_slots idx)) 0, ix_size := 0, ix_stale := False\<rparr>)
       [0..<length ks]"

definition index_build :: "bytes list \<Rightarrow> obj_index option" where
  "index_build ks =
     (let cap = as_u32 (grow_cap (length ks * 2) 32)
      in index_refill ks \<lparr>ix_cap = cap, ix_size = 0, ix_stale = False, ix_slots = replicate cap 0\<rparr>)"

text \<open>The operations on \<^verbatim>\<open>m_index\<close>, a pointer that may be null.\<close>

definition index_ensure :: "bytes list \<Rightarrow> obj_index option \<Rightarrow> obj_index option option" where
  "index_ensure ks ix =
     (if ix = None \<and> kIndexThreshold < length ks then map_option Some (index_build ks) else Some ix)"

definition index_note_append :: "bytes list \<Rightarrow> obj_index option \<Rightarrow> nat \<Rightarrow> obj_index option option" where
  "index_note_append ks ix pos =
     (case ix of
        None \<Rightarrow> if kIndexThreshold < length ks then map_option Some (index_build ks) else Some None
      | Some idx \<Rightarrow>
          if ix_stale idx then map_option Some (index_refill ks idx)
          else if ix_cap idx < (ix_size idx + 1) * 2 then map_option Some (index_build ks)
          else map_option Some (index_insert ks idx pos))"

definition index_after_erase :: "bytes list \<Rightarrow> obj_index option \<Rightarrow> obj_index option" where
  "index_after_erase ks ix =
     (case ix of
        None \<Rightarrow> None
      | Some idx \<Rightarrow> if length ks \<le> kIndexThreshold then None else Some (idx\<lparr>ix_stale := True\<rparr>))"

text \<open>\<^verbatim>\<open>find_slot\<close>: the position or \<^verbatim>\<open>npos\<close>, and the possibly refilled index.\<close>

definition sweep_slot :: "bytes list \<Rightarrow> bytes \<Rightarrow> nat option" where
  "sweep_slot ks key = (if first_index ks key < length ks then Some (first_index ks key) else None)"

definition find_slot ::
  "bytes list \<Rightarrow> obj_index option \<Rightarrow> bytes \<Rightarrow> bool \<Rightarrow> (nat option \<times> obj_index option) option" where
  "find_slot ks ix key rebuild =
     (case ix of
        Some idx \<Rightarrow>
          if rebuild \<or> \<not> ix_stale idx then
            (case (if ix_stale idx then index_refill ks idx else Some idx) of
               None \<Rightarrow> None
             | Some idx' \<Rightarrow>
                 (case probe_for ks idx' key of
                    None \<Rightarrow> None
                  | Some (Inl pos) \<Rightarrow> Some (Some pos, Some idx')
                  | Some (Inr _) \<Rightarrow> Some (None, Some idx')))
          else Some (sweep_slot ks key, ix)
      | None \<Rightarrow> Some (sweep_slot ks key, ix))"

section \<open>First occurrences\<close>

text \<open>The positions below \<open>i\<close> whose key has not occurred before.\<close>

definition firsts :: "bytes list \<Rightarrow> nat \<Rightarrow> nat set" where
  "firsts ks i = {p. p < i \<and> (\<forall>q < p. ks ! q \<noteq> ks ! p)}"

lemma finite_firsts [simp]: "finite (firsts ks i)"
  by (simp add: firsts_def)

lemma firsts_least: "p < i \<Longrightarrow> \<exists>q \<in> firsts ks i. ks ! q = ks ! p \<and> q \<le> p"
proof (induction p rule: less_induct)
  case (less p)
  show ?case
  proof (cases "\<exists>q < p. ks ! q = ks ! p")
    case True
    then obtain q where "q < p" "ks ! q = ks ! p" by blast
    then show ?thesis using less.IH [of q] less.prems by force
  next
    case False
    then show ?thesis using less.prems by (intro bexI [of _ p]) (auto simp: firsts_def)
  qed
qed

lemma firsts_Suc:
  "firsts ks (Suc i) = (if \<exists>q \<in> firsts ks i. ks ! q = ks ! i then firsts ks i else insert i (firsts ks i))"
proof (cases "\<exists>q \<in> firsts ks i. ks ! q = ks ! i")
  case True
  then have "i \<notin> firsts ks (Suc i)" by (auto simp: firsts_def)
  then show ?thesis using True by (auto simp: firsts_def less_Suc_eq)
next
  case False
  then have "\<forall>q<i. ks ! q \<noteq> ks ! i" using firsts_least by metis
  then show ?thesis using False by (auto simp: firsts_def less_Suc_eq)
qed

lemma not_in_firsts [simp]: "i \<notin> firsts ks i"
  by (simp add: firsts_def)

lemma card_firsts: "card (firsts ks (length ks)) = card (set ks)"
proof -
  have "inj_on (\<lambda>p. ks ! p) (firsts ks (length ks))"
    by (rule inj_onI) (metis (mono_tags, lifting) firsts_def linorder_neqE_nat mem_Collect_eq)
  moreover have "(\<lambda>p. ks ! p) ` firsts ks (length ks) = set ks"
    using firsts_least [of _ "length ks" ks] by (auto simp: firsts_def in_set_conv_nth image_iff) metis
  ultimately show ?thesis by (metis card_image)
qed

lemma card_firsts_le: "card (firsts ks i) \<le> i"
proof -
  have "firsts ks i \<subseteq> {..<i}" by (auto simp: firsts_def)
  then show ?thesis using card_mono [of "{..<i}"] by fastforce
qed

lemma firsts_append: "i \<le> length ks \<Longrightarrow> firsts (ks @ xs) i = firsts ks i"
  by (auto simp: firsts_def nth_append)

lemma first_index_eq:
  assumes "p < length ks" "ks ! p = key" "\<forall>q<p. ks ! q \<noteq> key"
  shows "first_index ks key = p"
  using assms
proof (induction ks arbitrary: p)
  case (Cons k ks)
  then show ?case
  proof (cases p)
    case (Suc q)
    then have "k \<noteq> key" using Cons.prems(3) by force
    moreover have "first_index ks key = q" using Cons Suc by force
    ultimately show ?thesis using Suc by simp
  qed simp
qed simp

section \<open>The index is exact\<close>

text \<open>\<open>fill_ok ks i\<close>: the first \<open>i\<close> positions are entered, first occurrences only.\<close>

definition shape_ok :: "obj_index \<Rightarrow> bool" where
  "shape_ok idx \<longleftrightarrow> (\<exists>m. 5 \<le> m \<and> m \<le> 31 \<and> ix_cap idx = 2 ^ m) \<and> length (ix_slots idx) = ix_cap idx"

definition fill_ok :: "bytes list \<Rightarrow> nat \<Rightarrow> obj_index \<Rightarrow> bool" where
  "fill_ok ks i idx \<longleftrightarrow> shape_ok idx \<and> \<not> ix_stale idx \<and>
     table_ok (ix_slots idx) (ix_mask idx) (\<lambda>p. key_home (ks ! p)) (firsts ks i) \<and>
     occupied (ix_slots idx) = card (firsts ks i) \<and> ix_size idx = card (firsts ks i)"

definition idx_ok :: "bytes list \<Rightarrow> obj_index \<Rightarrow> bool" where
  "idx_ok ks idx \<longleftrightarrow>
     (if ix_stale idx then shape_ok idx else fill_ok ks (length ks) idx) \<and> 2 * card (set ks) \<le> ix_cap idx"

text \<open>The invariant of the pointer; positions fit \<^verbatim>\<open>uint32_t\<close> up to 2^30 entries.\<close>

definition cache_ok :: "bytes list \<Rightarrow> obj_index option \<Rightarrow> bool" where
  "cache_ok ks ix \<longleftrightarrow> length ks \<le> 2 ^ 30 \<and> (case ix of None \<Rightarrow> True | Some idx \<Rightarrow> idx_ok ks idx)"

lemma shape_mask: "shape_ok idx \<Longrightarrow> ix_mask idx = ix_cap idx - 1"
proof -
  assume "shape_ok idx"
  then obtain m where m: "m \<le> 31" "ix_cap idx = 2 ^ m" by (auto simp: shape_ok_def)
  have "(2 :: nat) ^ m \<le> 2 ^ 31" using m(1) by (rule power_increasing) simp
  moreover have "ix_cap idx + (2 ^ 32 - 1) = (ix_cap idx - 1) + 2 ^ 32" using m(2) by simp
  ultimately show "ix_mask idx = ix_cap idx - 1"
    unfolding ix_mask_def as_u32_def using m(2) by (simp only: mod_add_self2) simp
qed

lemma probe_for_cases:
  assumes "table_ok (ix_slots idx) (ix_mask idx) (\<lambda>p. key_home (ks ! p)) P" "occupied (ix_slots idx) < length (ix_slots idx)"
  obtains (hit) p where "probe_for ks idx key = Some (Inl p)" "p \<in> P" "ks ! p = key"
    | (miss) s k where "probe_for ks idx key = Some (Inr s)" "\<forall>p \<in> P. ks ! p \<noteq> key"
      "s < length (ix_slots idx)" "ix_slots idx ! s = 0" "s = (key_home key + k) mod length (ix_slots idx)"
      "\<forall>j<k. at_off (ix_slots idx) (key_home key) j \<noteq> 0"
  by (rule probe_key [OF assms, of "\<lambda>p. ks ! p = key" "key_home key"])
    (use hit miss in \<open>auto simp: probe_for_def\<close>)

lemma index_insert_ok:
  assumes ok: "fill_ok ks i idx" and i: "i < length ks" "length ks \<le> 2 ^ 30" and room: "card (firsts ks i) < ix_cap idx"
  shows "\<exists>idx'. index_insert ks idx i = Some idx' \<and> fill_ok ks (Suc i) idx' \<and> ix_cap idx' = ix_cap idx"
proof -
  have t: "table_ok (ix_slots idx) (ix_mask idx) (\<lambda>p. key_home (ks ! p)) (firsts ks i)"
    and sh: "shape_ok idx" "length (ix_slots idx) = ix_cap idx" and occ: "occupied (ix_slots idx) = card (firsts ks i)"
      "ix_size idx = card (firsts ks i)" "\<not> ix_stale idx"
    using ok by (simp_all add: fill_ok_def shape_ok_def)
  have z: "occupied (ix_slots idx) < length (ix_slots idx)" using room sh(2) occ(1) by simp
  show ?thesis
  proof (rule probe_for_cases [OF t z])
    fix p assume p: "probe_for ks idx (ks ! i) = Some (Inl p)" "p \<in> firsts ks i" "ks ! p = ks ! i"
    then have "firsts ks (Suc i) = firsts ks i" by (auto simp: firsts_Suc)
    then have "fill_ok ks (Suc i) idx" using ok by (simp add: fill_ok_def)
    then show ?thesis using p(1) by (simp add: index_insert_def)
  next
    fix s k
    assume p: "probe_for ks idx (ks ! i) = Some (Inr s)" and no: "\<forall>p \<in> firsts ks i. ks ! p \<noteq> ks ! i"
      and s: "s < length (ix_slots idx)" "ix_slots idx ! s = 0" "s = (key_home (ks ! i) + k) mod length (ix_slots idx)"
        "\<forall>j<k. at_off (ix_slots idx) (key_home (ks ! i)) j \<noteq> 0"
    have f: "firsts ks (Suc i) = insert i (firsts ks i)" using no by (auto simp: firsts_Suc)
    have u: "as_u32 (as_u32 i + 1) = Suc i" using i by (simp add: as_u32_def)
    have sz: "as_u32 (ix_size idx + 1) = card (firsts ks (Suc i))"
      using card_firsts_le [of ks i] i occ(2) by (simp add: f as_u32_def)
    have "fill_ok ks (Suc i) (idx\<lparr>ix_slots := (ix_slots idx)[s := Suc i], ix_size := card (firsts ks (Suc i))\<rparr>)"
      using table_ok_insert [OF t s(1,2), of i k] s(3,4) occupied_update [OF s(1,2), of i] occ sh
      by (simp add: fill_ok_def shape_ok_def ix_mask_def f)
    then show ?thesis using p sh(2) unfolding index_insert_def u sz by simp
  qed
qed

lemma card_firsts_mono: "i \<le> j \<Longrightarrow> card (firsts ks i) \<le> card (firsts ks j)"
  by (rule card_mono) (auto simp: firsts_def)

lemma index_fill_ok:
  assumes "fill_ok ks i idx" "i \<le> length ks" "length ks \<le> 2 ^ 30" "card (set ks) < ix_cap idx"
  shows "\<exists>idx'. index_fill ks idx [i..<length ks] = Some idx' \<and> fill_ok ks (length ks) idx' \<and> ix_cap idx' = ix_cap idx"
  using assms
proof (induction "length ks - i" arbitrary: i idx)
  case (Suc n)
  then have i: "i < length ks" by simp
  then have "card (firsts ks i) < ix_cap idx"
    using Suc.prems(4) card_firsts_mono [of i "length ks" ks] card_firsts [of ks] by simp
  then obtain idx' where "index_insert ks idx i = Some idx'" "fill_ok ks (Suc i) idx'" "ix_cap idx' = ix_cap idx"
    using index_insert_ok Suc.prems(1,3) i by blast
  then show ?case using Suc.hyps(1) [of "Suc i" idx'] Suc.hyps(2) Suc.prems i by (simp add: upt_conv_Cons)
qed simp

lemma index_refill_ok:
  assumes "shape_ok idx" "length ks \<le> 2 ^ 30" "card (set ks) < ix_cap idx"
  shows "\<exists>idx'. index_refill ks idx = Some idx' \<and> fill_ok ks (length ks) idx' \<and> ix_cap idx' = ix_cap idx"
proof -
  let ?e = "idx\<lparr>ix_slots := replicate (length (ix_slots idx)) 0, ix_size := 0, ix_stale := False\<rparr>"
  obtain m where m: "ix_cap idx = 2 ^ m" "length (ix_slots idx) = ix_cap idx" using assms(1) by (auto simp: shape_ok_def)
  have sh: "shape_ok ?e" using assms(1) by (simp add: shape_ok_def)
  have "firsts ks 0 = {}" by (simp add: firsts_def)
  then have "fill_ok ks 0 ?e"
    using sh shape_mask [OF sh] table_ok_empty [OF m(1), of "\<lambda>p. key_home (ks ! p)"] m(2) by (simp add: fill_ok_def)
  from index_fill_ok [OF this _ assms(2)] assms(3) show ?thesis by (simp add: index_refill_def)
qed

lemma grow_cap_bound:
  "lim \<le> 2 ^ k \<Longrightarrow> cap = 2 ^ j \<Longrightarrow> j \<le> k \<Longrightarrow> \<exists>m. j \<le> m \<and> m \<le> k \<and> grow_cap lim cap = 2 ^ m"
proof (induction lim cap arbitrary: j rule: grow_cap.induct)
  case (1 lim cap)
  show ?case
  proof (cases "cap < lim")
    case True
    then have "(2 :: nat) ^ j < 2 ^ k" using 1(2,3) by linarith
    then have "Suc j \<le> k" by (simp add: Suc_le_eq)
    moreover have "0 < cap" "2 * cap = 2 ^ Suc j" using 1(3) by simp_all
    ultimately obtain m where "Suc j \<le> m" "m \<le> k" "grow_cap lim (2 * cap) = 2 ^ m"
      using 1(1) [of "Suc j"] 1(2) True by blast
    then show ?thesis using True \<open>0 < cap\<close> by (subst grow_cap.simps) (auto intro: exI [of _ m])
  next
    case False
    then show ?thesis using 1(3,4) by (subst grow_cap.simps) (auto intro: exI [of _ j])
  qed
qed

lemma index_build_ok:
  assumes "length ks \<le> 2 ^ 30"
  shows "\<exists>idx. index_build ks = Some idx \<and> fill_ok ks (length ks) idx \<and> 2 * length ks \<le> ix_cap idx"
proof -
  let ?cap = "grow_cap (length ks * 2) 32"
  have "length ks * 2 \<le> 2 ^ 31" using assms by simp
  from grow_cap_bound [OF this, of 32 5] obtain m where m: "5 \<le> m" "m \<le> 31" "?cap = 2 ^ m" by auto
  have "(2 :: nat) ^ m \<le> 2 ^ 31" using m(2) by (rule power_increasing) simp
  then have u: "as_u32 ?cap = ?cap" using m(3) by (simp add: as_u32_def)
  have ge: "2 * length ks \<le> ?cap" "32 \<le> ?cap" using grow_cap_ge [of 32 "length ks * 2"] by simp_all
  have "card (set ks) < ?cap" using card_length [of ks] ge by linarith
  then show ?thesis unfolding index_build_def Let_def u
    using index_refill_ok [of "\<lparr>ix_cap = ?cap, ix_size = 0, ix_stale = False, ix_slots = replicate ?cap 0\<rparr>" ks] m assms ge(1)
    by (auto simp: shape_ok_def)
qed

lemma fill_idx_ok: "fill_ok ks (length ks) idx \<Longrightarrow> 2 * card (set ks) \<le> ix_cap idx \<Longrightarrow> idx_ok ks idx"
  by (simp add: idx_ok_def fill_ok_def)

lemma card_set_room: "shape_ok idx \<Longrightarrow> 2 * card (set ks) \<le> ix_cap idx \<Longrightarrow> card (set ks) < ix_cap idx"
proof -
  assume "shape_ok idx" "2 * card (set ks) \<le> ix_cap idx"
  moreover have "0 < ix_cap idx" using \<open>shape_ok idx\<close> by (auto simp: shape_ok_def)
  ultimately show "card (set ks) < ix_cap idx" by linarith
qed

lemma probe_for_ok:
  assumes ok: "fill_ok ks (length ks) idx" and room: "card (set ks) < ix_cap idx"
  shows "(case sweep_slot ks key of
      Some p \<Rightarrow> probe_for ks idx key = Some (Inl p)
    | None \<Rightarrow> \<exists>s. probe_for ks idx key = Some (Inr s))"
proof -
  have t: "table_ok (ix_slots idx) (ix_mask idx) (\<lambda>p. key_home (ks ! p)) (firsts ks (length ks))"
    and z: "occupied (ix_slots idx) < length (ix_slots idx)"
    using ok room by (simp_all add: fill_ok_def shape_ok_def card_firsts)
  show ?thesis
  proof (rule probe_for_cases [OF t z])
    fix p assume p: "probe_for ks idx key = Some (Inl p)" "p \<in> firsts ks (length ks)" "ks ! p = key"
    then have "first_index ks key = p" "p < length ks" by (auto simp: firsts_def intro!: first_index_eq)
    then show ?thesis using p(1) by (simp add: sweep_slot_def)
  next
    fix s k
    assume p: "probe_for ks idx key = Some (Inr s)" and no: "\<forall>p \<in> firsts ks (length ks). ks ! p \<noteq> key"
    have "key \<notin> set ks" using no firsts_least [of _ "length ks" ks] by (metis in_set_conv_nth)
    then show ?thesis using p by (simp add: sweep_slot_def first_index_miss)
  qed
qed

section \<open>The life cycle keeps the cache exact\<close>

lemma cache_ok_build:
  assumes "length ks \<le> 2 ^ 30"
  shows "\<exists>idx. index_build ks = Some idx \<and> \<not> ix_stale idx \<and> cache_ok ks (Some idx)"
proof -
  obtain idx where i: "index_build ks = Some idx" "fill_ok ks (length ks) idx" "2 * length ks \<le> ix_cap idx"
    using index_build_ok [OF assms] by blast
  have "2 * card (set ks) \<le> ix_cap idx" using card_length [of ks] i(3) by linarith
  then show ?thesis using i assms fill_idx_ok by (auto simp: cache_ok_def fill_ok_def)
qed

text \<open>\<open>fresh\<close>: a cache that a lookup has just used is not stale.\<close>

definition fresh :: "obj_index option \<Rightarrow> bool" where
  "fresh ix \<longleftrightarrow> (case ix of None \<Rightarrow> True | Some idx \<Rightarrow> \<not> ix_stale idx)"

lemma find_slot_ok:
  assumes "cache_ok ks ix"
  shows "\<exists>ix'. find_slot ks ix key rebuild = Some (sweep_slot ks key, ix') \<and> cache_ok ks ix' \<and>
    (rebuild \<longrightarrow> fresh ix') \<and> (\<not> rebuild \<longrightarrow> ix' = ix)"
proof (cases ix)
  case None
  then show ?thesis using assms by (simp add: find_slot_def fresh_def)
next
  case (Some idx)
  have ok: "idx_ok ks idx" and n: "length ks \<le> 2 ^ 30" using assms Some by (simp_all add: cache_ok_def)
  show ?thesis
  proof (cases "rebuild \<or> \<not> ix_stale idx")
    case False
    then show ?thesis using assms Some by (simp add: find_slot_def)
  next
    case True
    have sh: "shape_ok idx" using ok by (auto simp: idx_ok_def fill_ok_def split: if_splits)
    have room: "card (set ks) < ix_cap idx" using card_set_room [OF sh conjunct2 [OF ok [unfolded idx_ok_def]]] .
    obtain idx' where r: "(if ix_stale idx then index_refill ks idx else Some idx) = Some idx'"
        "fill_ok ks (length ks) idx'" "ix_cap idx' = ix_cap idx" "\<not> ix_stale idx \<longrightarrow> idx' = idx"
      using index_refill_ok [OF sh n room] ok by (cases "ix_stale idx") (auto simp: idx_ok_def)
    have "cache_ok ks (Some idx')"
      using fill_idx_ok [OF r(2)] ok n r(3) by (simp add: cache_ok_def idx_ok_def)
    moreover have "\<not> ix_stale idx'" using r(2) by (simp add: fill_ok_def)
    moreover have "find_slot ks ix key rebuild = Some (sweep_slot ks key, Some idx')"
      using probe_for_ok [OF r(2), of key] room r(1,3) True Some
      by (auto simp: find_slot_def split: option.splits)
    ultimately show ?thesis using r(4) Some True by (auto simp: fresh_def)
  qed
qed

lemma fill_ok_append:
  assumes "fill_ok ks (length ks) idx"
  shows "fill_ok (ks @ xs) (length ks) idx"
proof -
  have "table_ok (ix_slots idx) (ix_mask idx) (\<lambda>p. key_home ((ks @ xs) ! p)) (firsts ks (length ks))"
    by (rule table_ok_cong [of _ _ "\<lambda>p. key_home (ks ! p)"]) (use assms in \<open>auto simp: fill_ok_def firsts_def nth_append\<close>)
  then show ?thesis using assms by (simp add: fill_ok_def firsts_append)
qed

lemma note_append_ok:
  assumes ok: "cache_ok ks ix" "fresh ix" and n: "length ks < 2 ^ 30" and new: "key \<notin> set ks"
  shows "\<exists>ix'. index_note_append (ks @ [key]) ix (length ks) = Some ix' \<and> cache_ok (ks @ [key]) ix' \<and> fresh ix'"
proof -
  have n1: "length (ks @ [key]) \<le> 2 ^ 30" using n by simp
  obtain fr where fr: "index_build (ks @ [key]) = Some fr" "\<not> ix_stale fr" "cache_ok (ks @ [key]) (Some fr)"
    using cache_ok_build [OF n1] by blast
  show ?thesis
  proof (cases ix)
    case None
    then show ?thesis using fr n1 by (auto simp: index_note_append_def fresh_def cache_ok_def)
  next
    case (Some idx)
    have st: "\<not> ix_stale idx" using ok(2) Some by (simp add: fresh_def)
    show ?thesis
    proof (cases "ix_cap idx < (ix_size idx + 1) * 2")
      case True
      then show ?thesis using Some st fr by (simp add: index_note_append_def fresh_def)
    next
      case False
      have f: "fill_ok ks (length ks) idx" using ok(1) Some st by (simp add: cache_ok_def idx_ok_def)
      have sz: "ix_size idx = card (set ks)" using f by (simp add: fill_ok_def card_firsts)
      have "card (firsts (ks @ [key]) (length ks)) < ix_cap idx"
        using False sz by (simp add: firsts_append card_firsts)
      then obtain idx' where i: "index_insert (ks @ [key]) idx (length ks) = Some idx'"
          "fill_ok (ks @ [key]) (Suc (length ks)) idx'" "ix_cap idx' = ix_cap idx"
        using index_insert_ok [OF fill_ok_append [OF f], of "[key]"] n1 by auto
      have "2 * card (set (ks @ [key])) \<le> ix_cap idx'" using False new sz i(3) by simp
      then have "idx_ok (ks @ [key]) idx'" using fill_idx_ok [of "ks @ [key]" idx'] i(2) by simp
      moreover have "\<not> ix_stale idx'" using i(2) by (simp add: fill_ok_def)
      ultimately show ?thesis
        using False Some st i(1) n1 by (simp add: index_note_append_def fresh_def cache_ok_def)
    qed
  qed
qed

lemma after_erase_ok:
  assumes "cache_ok ks ix" "set ks' \<subseteq> set ks" "length ks' \<le> length ks"
  shows "cache_ok ks' (index_after_erase ks' ix)"
proof -
  have "card (set ks') \<le> card (set ks)" using assms(2) by (simp add: card_mono)
  then show ?thesis using assms
    by (auto simp: cache_ok_def index_after_erase_def idx_ok_def fill_ok_def shape_ok_def split: option.splits if_splits)
qed

lemma ensure_ok:
  "cache_ok ks ix \<Longrightarrow> \<exists>ix'. index_ensure ks ix = Some ix' \<and> cache_ok ks ix'"
  using cache_ok_build [of ks] by (auto simp: index_ensure_def cache_ok_def)

end
