(* ===== verification/ObjectOps.thy ===== *)
theory ObjectOps
  imports ObjectIndex JsonData
begin

text \<open>
  \<^verbatim>\<open>class Object\<close> (\<^verbatim>\<open>src/object.cpp\<close>): the entry vector with its lookup cache.  The type
  of the values is a parameter; what an operation does to a value (deep copy, nested merge,
  comparison) is an argument.  Every operation returns the changed object, cache included;
  the outer \<^verbatim>\<open>option\<close> is \<^term>\<open>None\<close> when a probe does not return.  Keys are their bytes:
  whether a key is borrowed or owned is storage, not content.
\<close>

section \<open>State and operations\<close>

datatype 'v obj = Obj (o_data: "(bytes \<times> 'v) list") (o_index: "obj_index option")

definition o_keys :: "'v obj \<Rightarrow> bytes list" where
  "o_keys ob = map fst (o_data ob)"

definition obj_find :: "bool \<Rightarrow> bytes \<Rightarrow> 'v obj \<Rightarrow> (nat option \<times> 'v obj) option" where
  "obj_find rebuild key ob =
     map_option (\<lambda>(p, ix). (p, Obj (o_data ob) ix)) (find_slot (o_keys ob) (o_index ob) key rebuild)"

text \<open>\<^verbatim>\<open>emplace_back\<close> followed by \<^verbatim>\<open>index_note_append\<close>.\<close>

definition obj_append :: "bytes \<Rightarrow> 'v \<Rightarrow> 'v obj \<Rightarrow> 'v obj option" where
  "obj_append key v ob =
     (let es = o_data ob @ [(key, v)]
      in map_option (Obj es) (index_note_append (map fst es) (o_index ob) (length es - 1)))"

definition obj_set :: "nat \<Rightarrow> 'v \<Rightarrow> 'v obj \<Rightarrow> 'v obj" where
  "obj_set pos v ob = Obj ((o_data ob)[pos := (fst (o_data ob ! pos), v)]) (o_index ob)"

definition obj_contains :: "bytes \<Rightarrow> 'v obj \<Rightarrow> (bool \<times> 'v obj) option" where
  "obj_contains key ob = map_option (\<lambda>(p, ob'). (p \<noteq> None, ob')) (obj_find True key ob)"

text \<open>The mutable subscript: the position of the value it refers to.\<close>

definition obj_subscript :: "'v \<Rightarrow> bytes \<Rightarrow> 'v obj \<Rightarrow> (nat \<times> 'v obj) option" where
  "obj_subscript dflt key ob =
     (case obj_find True key ob of
        None \<Rightarrow> None
      | Some (Some pos, ob') \<Rightarrow> Some (pos, ob')
      | Some (None, ob') \<Rightarrow>
          map_option (\<lambda>ob''. (length (o_data ob'') - 1, ob'')) (obj_append key dflt ob'))"

text \<open>\<^verbatim>\<open>at\<close> and the const subscript; no value is \<^verbatim>\<open>std::out_of_range\<close>.\<close>

definition obj_at :: "bytes \<Rightarrow> 'v obj \<Rightarrow> ('v option \<times> 'v obj) option" where
  "obj_at key ob =
     map_option (\<lambda>(p, ob'). (map_option (\<lambda>pos. snd (o_data ob' ! pos)) p, ob')) (obj_find True key ob)"

definition obj_insert :: "bytes \<Rightarrow> 'v \<Rightarrow> 'v obj \<Rightarrow> 'v obj option" where
  "obj_insert key v ob =
     (case obj_find True key ob of
        None \<Rightarrow> None
      | Some (Some pos, ob') \<Rightarrow> Some (obj_set pos v ob')
      | Some (None, ob') \<Rightarrow> obj_append key v ob')"

definition obj_remove :: "bytes \<Rightarrow> 'v obj \<Rightarrow> (bool \<times> 'v obj) option" where
  "obj_remove key ob =
     (case obj_find False key ob of
        None \<Rightarrow> None
      | Some (None, ob') \<Rightarrow> Some (False, ob')
      | Some (Some pos, ob') \<Rightarrow>
          (let es = take pos (o_data ob') @ drop (Suc pos) (o_data ob')
           in Some (True, Obj es (index_after_erase (map fst es) (o_index ob')))))"

definition obj_clear :: "'v obj \<Rightarrow> 'v obj" where
  "obj_clear ob = Obj [] None"

text \<open>The mutable \<^verbatim>\<open>data()\<close> drops the cache.\<close>

definition obj_data_mut :: "'v obj \<Rightarrow> 'v obj" where
  "obj_data_mut ob = Obj (o_data ob) None"

definition obj_clone :: "('v \<Rightarrow> 'v) \<Rightarrow> 'v obj \<Rightarrow> 'v obj option" where
  "obj_clone clone_value ob =
     (let es = map (\<lambda>(k, v). (k, clone_value v)) (o_data ob)
      in if kIndexThreshold < length es
         then map_option (\<lambda>ix. Obj es (Some ix)) (index_build (map fst es))
         else Some (Obj es None))"

text \<open>The target and the moved-from source; storage moves only within one resource.\<close>

definition obj_move_construct :: "'v obj \<Rightarrow> 'v obj \<times> 'v obj" where
  "obj_move_construct other = (Obj (o_data other) (o_index other), Obj [] None)"

definition obj_move_assign :: "bool \<Rightarrow> 'v obj \<Rightarrow> 'v obj \<Rightarrow> 'v obj \<times> 'v obj" where
  "obj_move_assign same_resource ob other =
     (if same_resource then (Obj (o_data other) (o_index other), Obj [] None)
      else (Obj (o_data other) None, Obj [] None))"

text \<open>\<open>combine old new\<close>: the nested merge of two objects, otherwise a copy of \<open>new\<close>.\<close>

fun obj_merge_loop :: "('v \<Rightarrow> 'v \<Rightarrow> 'v) \<Rightarrow> ('v \<Rightarrow> 'v) \<Rightarrow> (bytes \<times> 'v) list \<Rightarrow> 'v obj \<Rightarrow> 'v obj option" where
  "obj_merge_loop combine clone_value [] ob = Some ob"
| "obj_merge_loop combine clone_value ((k, v) # es) ob =
     (case (case obj_find True k ob of
              None \<Rightarrow> None
            | Some (Some pos, ob') \<Rightarrow> Some (obj_set pos (combine (snd (o_data ob' ! pos)) v) ob')
            | Some (None, ob') \<Rightarrow> obj_append k (clone_value v) ob') of
        None \<Rightarrow> None
      | Some ob'' \<Rightarrow> obj_merge_loop combine clone_value es ob'')"

definition obj_merge :: "('v \<Rightarrow> 'v \<Rightarrow> 'v) \<Rightarrow> ('v \<Rightarrow> 'v) \<Rightarrow> bool \<Rightarrow> 'v obj \<Rightarrow> 'v obj \<Rightarrow> 'v obj option" where
  "obj_merge combine clone_value same ob other =
     (if same then Some ob else obj_merge_loop combine clone_value (o_data other) ob)"

text \<open>Equality: every entry of one side looked up in the other, whose cache may be filled.\<close>

fun obj_eq_loop :: "('v \<Rightarrow> 'v \<Rightarrow> bool) \<Rightarrow> (bytes \<times> 'v) list \<Rightarrow> 'v obj \<Rightarrow> (bool \<times> 'v obj) option" where
  "obj_eq_loop eqv [] other = Some (True, other)"
| "obj_eq_loop eqv ((k, v) # es) other =
     (case obj_find True k other of
        None \<Rightarrow> None
      | Some (None, other') \<Rightarrow> Some (False, other')
      | Some (Some pos, other') \<Rightarrow>
          if eqv (snd (o_data other' ! pos)) v then obj_eq_loop eqv es other' else Some (False, other'))"

definition obj_equal ::
  "('v \<Rightarrow> 'v \<Rightarrow> bool) \<Rightarrow> 'v obj \<Rightarrow> 'v obj \<Rightarrow> (bool \<times> 'v obj \<times> 'v obj) option" where
  "obj_equal eqv ob other =
     (if length (o_data ob) \<noteq> length (o_data other) then Some (False, ob, other)
      else
        (case (if o_index ob = None \<and> o_index other = None
               then map_option (Obj (o_data other)) (index_ensure (o_keys other) (o_index other))
               else Some other) of
           None \<Rightarrow> None
         | Some other' \<Rightarrow>
             if o_index other' \<noteq> None \<or> o_index ob = None
             then map_option (\<lambda>(r, other''). (r, ob, other'')) (obj_eq_loop eqv (o_data ob) other')
             else map_option (\<lambda>(r, ob'). (r, ob', other')) (obj_eq_loop eqv (o_data other') ob)))"

section \<open>The specification: an association list\<close>

fun del_first :: "('k \<times> 'v) list \<Rightarrow> 'k \<Rightarrow> ('k \<times> 'v) list" where
  "del_first [] k = []"
| "del_first ((k', v') # es) k = (if k' = k then es else (k', v') # del_first es k)"

definition obj_ok :: "'v obj \<Rightarrow> bool" where
  "obj_ok ob \<longleftrightarrow> cache_ok (o_keys ob) (o_index ob)"

lemma o_keys_Obj [simp]: "o_keys (Obj es ix) = map fst es"
  by (simp add: o_keys_def)

text \<open>Positions and the association-list view.\<close>

lemma sweep_slot_None: "sweep_slot (map fst es) k = None \<longleftrightarrow> map_of es k = None"
  by (induction es) (auto simp: sweep_slot_def split: if_splits)

lemma sweep_slot_Cons:
  "sweep_slot (k' # ks) k = (if k' = k then Some 0 else map_option Suc (sweep_slot ks k))"
  by (simp add: sweep_slot_def)

lemma sweep_slot_Some:
  "sweep_slot (map fst es) k = Some p \<Longrightarrow>
     p < length es \<and> map_of es k = Some (snd (es ! p)) \<and> es[p := (fst (es ! p), v)] = obj_put es k v \<and>
     take p es @ drop (Suc p) es = del_first es k"
proof (induction es arbitrary: p)
  case (Cons e es)
  then show ?case by (cases e) (auto simp: sweep_slot_Cons split: if_splits)
qed (simp add: sweep_slot_def)

lemma obj_put_absent: "map_of es k = None \<Longrightarrow> obj_put es k v = es @ [(k, v)]"
  by (simp add: obj_put_new map_of_eq_None_iff)

lemma del_first_absent: "map_of es k = None \<Longrightarrow> del_first es k = es"
  by (induction es) (auto split: if_splits)

lemma set_del_first: "set (del_first es k) \<subseteq> set es" "length (del_first es k) \<le> length es"
  by (induction es k rule: del_first.induct) auto

lemma keys_set_at: "map fst (es[p := (fst (es ! p), v)]) = map fst es"
proof (cases "p < length es")
  case True
  then have "map fst es ! p = fst (es ! p)" by simp
  then show ?thesis by (metis fst_conv list_update_id map_update)
qed (simp add: list_update_beyond)

lemma obj_find_ok:
  assumes "obj_ok ob"
  shows "\<exists>ix. obj_find rebuild key ob = Some (sweep_slot (o_keys ob) key, Obj (o_data ob) ix) \<and>
    obj_ok (Obj (o_data ob) ix) \<and> (rebuild \<longrightarrow> fresh ix)"
  using find_slot_ok [OF assms [unfolded obj_ok_def], of key rebuild] by (auto simp: obj_find_def obj_ok_def o_keys_def)

lemma obj_append_ok:
  assumes "obj_ok (Obj es ix)" "fresh ix" "length es < 2 ^ 30" "map_of es key = None"
  shows "\<exists>ob'. obj_append key v (Obj es ix) = Some ob' \<and> obj_ok ob' \<and> o_data ob' = obj_put es key v"
  using note_append_ok [of "map fst es" ix key] assms
  by (auto simp: obj_append_def obj_ok_def obj_put_absent map_of_eq_None_iff)

lemma obj_set_ok:
  "obj_ok (Obj es ix) \<Longrightarrow> sweep_slot (map fst es) key = Some p \<Longrightarrow>
     obj_ok (obj_set p v (Obj es ix)) \<and> o_data (obj_set p v (Obj es ix)) = obj_put es key v"
  using sweep_slot_Some [of es key p v] keys_set_at [of es p v] by (simp add: obj_set_def obj_ok_def)

lemma obj_insert_ok:
  assumes "obj_ok ob" "length (o_data ob) < 2 ^ 30"
  shows "\<exists>ob'. obj_insert key v ob = Some ob' \<and> obj_ok ob' \<and> o_data ob' = obj_put (o_data ob) key v"
proof -
  obtain ix where f: "obj_find True key ob = Some (sweep_slot (o_keys ob) key, Obj (o_data ob) ix)"
      "obj_ok (Obj (o_data ob) ix)" "fresh ix"
    using obj_find_ok [OF assms(1), of True key] by auto
  show ?thesis
  proof (cases "sweep_slot (o_keys ob) key")
    case None
    then have n: "map_of (o_data ob) key = None" by (simp add: o_keys_def sweep_slot_None)
    show ?thesis using None f(1) obj_append_ok [OF f(2,3) assms(2) n, of v] by (simp add: obj_insert_def)
  next
    case (Some p)
    then show ?thesis using f(1) obj_set_ok [OF f(2), of key p v] by (auto simp: obj_insert_def o_keys_def)
  qed
qed

lemma obj_subscript_ok:
  assumes "obj_ok ob" "length (o_data ob) < 2 ^ 30"
  shows "\<exists>p ob'. obj_subscript dflt key ob = Some (p, ob') \<and> obj_ok ob' \<and>
    o_data ob' = (if map_of (o_data ob) key = None then obj_put (o_data ob) key dflt else o_data ob) \<and>
    p < length (o_data ob') \<and> map_of (o_data ob') key = Some (snd (o_data ob' ! p))"
proof -
  obtain ix where f: "obj_find True key ob = Some (sweep_slot (o_keys ob) key, Obj (o_data ob) ix)"
      "obj_ok (Obj (o_data ob) ix)" "fresh ix"
    using obj_find_ok [OF assms(1), of True key] by auto
  show ?thesis
  proof (cases "sweep_slot (o_keys ob) key")
    case None
    then have n: "map_of (o_data ob) key = None" by (simp add: o_keys_def sweep_slot_None)
    then show ?thesis
      using None f obj_append_ok [OF f(2,3) assms(2) n, of dflt]
      by (auto simp: obj_subscript_def obj_put_absent map_of_append nth_append map_add_def)
  next
    case (Some p)
    then show ?thesis
      using f sweep_slot_Some [of "o_data ob" key p] by (auto simp: obj_subscript_def o_keys_def)
  qed
qed

lemma obj_at_ok:
  assumes "obj_ok ob"
  shows "\<exists>ob'. obj_at key ob = Some (map_of (o_data ob) key, ob') \<and> obj_ok ob' \<and> o_data ob' = o_data ob"
proof -
  obtain ix where f: "obj_find True key ob = Some (sweep_slot (o_keys ob) key, Obj (o_data ob) ix)"
      "obj_ok (Obj (o_data ob) ix)"
    using obj_find_ok [OF assms, of True key] by auto
  then show ?thesis
    using sweep_slot_Some [of "o_data ob" key] sweep_slot_None [of "o_data ob" key]
    by (cases "sweep_slot (o_keys ob) key") (auto simp: obj_at_def o_keys_def)
qed

lemma obj_contains_ok:
  assumes "obj_ok ob"
  shows "\<exists>ob'. obj_contains key ob = Some (map_of (o_data ob) key \<noteq> None, ob') \<and> obj_ok ob' \<and> o_data ob' = o_data ob"
proof -
  obtain ix where f: "obj_find True key ob = Some (sweep_slot (o_keys ob) key, Obj (o_data ob) ix)"
      "obj_ok (Obj (o_data ob) ix)"
    using obj_find_ok [OF assms, of True key] by auto
  then show ?thesis
    using sweep_slot_None [of "o_data ob" key] by (auto simp: obj_contains_def o_keys_def)
qed

lemma obj_remove_ok:
  assumes "obj_ok ob"
  shows "\<exists>ob'. obj_remove key ob = Some (map_of (o_data ob) key \<noteq> None, ob') \<and> obj_ok ob' \<and>
    o_data ob' = del_first (o_data ob) key"
proof -
  obtain ix where f: "obj_find False key ob = Some (sweep_slot (o_keys ob) key, Obj (o_data ob) ix)"
      "obj_ok (Obj (o_data ob) ix)"
    using obj_find_ok [OF assms, of False key] by auto
  show ?thesis
  proof (cases "sweep_slot (o_keys ob) key")
    case None
    then have "map_of (o_data ob) key = None" by (simp add: o_keys_def sweep_slot_None)
    then show ?thesis using f None by (auto simp: obj_remove_def del_first_absent)
  next
    case (Some p)
    then have "map_of (o_data ob) key \<noteq> None" "take p (o_data ob) @ drop (Suc p) (o_data ob) = del_first (o_data ob) key"
      using sweep_slot_Some [of "o_data ob" key p] by (auto simp: o_keys_def)
    then show ?thesis
      using f Some after_erase_ok [of "map fst (o_data ob)" ix "map fst (del_first (o_data ob) key)"]
        set_del_first [of "o_data ob" key]
      by (simp add: obj_remove_def obj_ok_def o_keys_def Let_def image_mono flip: map_append)
  qed
qed

section \<open>Merge and equality\<close>

text \<open>What \<^verbatim>\<open>merge\<close> does to the entries.\<close>

definition merge_entry :: "('v \<Rightarrow> 'v \<Rightarrow> 'v) \<Rightarrow> ('v \<Rightarrow> 'v) \<Rightarrow> bytes \<times> 'v \<Rightarrow> (bytes \<times> 'v) list \<Rightarrow> (bytes \<times> 'v) list" where
  "merge_entry combine clone_value kv es =
     obj_put es (fst kv)
       (case map_of es (fst kv) of None \<Rightarrow> clone_value (snd kv) | Some old \<Rightarrow> combine old (snd kv))"

definition merge_entries :: "('v \<Rightarrow> 'v \<Rightarrow> 'v) \<Rightarrow> ('v \<Rightarrow> 'v) \<Rightarrow> (bytes \<times> 'v) list \<Rightarrow> (bytes \<times> 'v) list \<Rightarrow> (bytes \<times> 'v) list" where
  "merge_entries combine clone_value new es = fold (merge_entry combine clone_value) new es"

lemma length_obj_put: "length (obj_put es k v) \<le> Suc (length es)"
  by (induction es k v rule: obj_put.induct) auto

lemma obj_merge_loop_ok:
  assumes "obj_ok ob" "length (o_data ob) + length new \<le> 2 ^ 30"
  shows "\<exists>ob'. obj_merge_loop combine clone_value new ob = Some ob' \<and> obj_ok ob' \<and>
    o_data ob' = merge_entries combine clone_value new (o_data ob)"
  using assms
proof (induction new arbitrary: ob)
  case (Cons kv new)
  obtain k v where kv: "kv = (k, v)" by (cases kv)
  obtain ix where f: "obj_find True k ob = Some (sweep_slot (o_keys ob) k, Obj (o_data ob) ix)"
      "obj_ok (Obj (o_data ob) ix)" "fresh ix"
    using obj_find_ok [OF Cons.prems(1), of True k] by auto
  have len: "length (o_data ob) < 2 ^ 30" using Cons.prems(2) by simp
  let ?step = "case obj_find True k ob of
              None \<Rightarrow> None
            | Some (Some pos, ob') \<Rightarrow> Some (obj_set pos (combine (snd (o_data ob' ! pos)) v) ob')
            | Some (None, ob') \<Rightarrow> obj_append k (clone_value v) ob'"
  have "\<exists>ob'. ?step = Some ob' \<and> obj_ok ob' \<and> o_data ob' = merge_entry combine clone_value kv (o_data ob)"
  proof (cases "sweep_slot (o_keys ob) k")
    case None
    then have n: "map_of (o_data ob) k = None" by (simp add: o_keys_def sweep_slot_None)
    then show ?thesis
      using None f(1) obj_append_ok [OF f(2,3) len n, of "clone_value v"] by (simp add: kv merge_entry_def)
  next
    case (Some p)
    then have "map_of (o_data ob) k = Some (snd (o_data ob ! p))"
      using sweep_slot_Some [of "o_data ob" k p] by (simp add: o_keys_def)
    then show ?thesis
      using f(1) Some obj_set_ok [OF f(2), of k p] by (simp add: kv merge_entry_def o_keys_def)
  qed
  then obtain ob' where s: "?step = Some ob'" "obj_ok ob'" "o_data ob' = merge_entry combine clone_value kv (o_data ob)"
    by blast
  have "length (o_data ob') \<le> Suc (length (o_data ob))" using length_obj_put by (simp add: s(3) merge_entry_def)
  then have "length (o_data ob') + length new \<le> 2 ^ 30" using Cons.prems(2) by simp
  from Cons.IH [OF s(2) this] show ?case using s(1,3) by (simp add: kv merge_entries_def)
qed (simp add: merge_entries_def)

lemma obj_merge_ok:
  assumes "obj_ok ob" "length (o_data ob) + length (o_data other) \<le> 2 ^ 30"
  shows "\<exists>ob'. obj_merge combine clone_value same ob other = Some ob' \<and> obj_ok ob' \<and>
    o_data ob' = (if same then o_data ob else merge_entries combine clone_value (o_data other) (o_data ob))"
  using obj_merge_loop_ok [OF assms] assms(1) by (auto simp: obj_merge_def)

text \<open>One direction of the comparison, on the entries.\<close>

definition entries_in :: "('v \<Rightarrow> 'v \<Rightarrow> bool) \<Rightarrow> (bytes \<times> 'v) list \<Rightarrow> (bytes \<times> 'v) list \<Rightarrow> bool" where
  "entries_in eqv es fs \<longleftrightarrow>
     list_all (\<lambda>(k, v). case map_of fs k of None \<Rightarrow> False | Some v' \<Rightarrow> eqv v' v) es"

lemma obj_eq_loop_ok:
  assumes "obj_ok ob"
  shows "\<exists>ob'. obj_eq_loop eqv es ob = Some (entries_in eqv es (o_data ob), ob') \<and> obj_ok ob' \<and> o_data ob' = o_data ob"
  using assms
proof (induction es arbitrary: ob)
  case (Cons e es)
  obtain k v where e: "e = (k, v)" by (cases e)
  obtain ix where f: "obj_find True k ob = Some (sweep_slot (o_keys ob) k, Obj (o_data ob) ix)"
      "obj_ok (Obj (o_data ob) ix)"
    using obj_find_ok [OF Cons.prems, of True k] by auto
  show ?case
  proof (cases "sweep_slot (o_keys ob) k")
    case None
    then have "map_of (o_data ob) k = None" by (simp add: o_keys_def sweep_slot_None)
    then show ?thesis using f None by (simp add: e entries_in_def)
  next
    case (Some p)
    then have m: "map_of (o_data ob) k = Some (snd (o_data ob ! p))"
      using sweep_slot_Some [of "o_data ob" k p] by (simp add: o_keys_def)
    then show ?thesis using f Some Cons.IH [OF f(2)] by (simp add: e entries_in_def)
  qed
qed (simp add: entries_in_def)

lemma obj_equal_ok:
  assumes "obj_ok a" "obj_ok b"
  shows "\<exists>r a' b'. obj_equal eqv a b = Some (r, a', b') \<and> obj_ok a' \<and> obj_ok b' \<and> o_data a' = o_data a \<and>
    o_data b' = o_data b \<and>
    (r \<longleftrightarrow> length (o_data a) = length (o_data b) \<and>
       (if o_index a \<noteq> None \<and> o_index b = None then entries_in eqv (o_data b) (o_data a)
        else entries_in eqv (o_data a) (o_data b)))"
proof (cases "length (o_data a) = length (o_data b)")
  case True
  obtain ix where e: "index_ensure (o_keys b) (o_index b) = Some ix" "cache_ok (o_keys b) ix"
    using ensure_ok assms(2) by (auto simp: obj_ok_def)
  then have b1: "obj_ok (Obj (o_data b) ix)" by (simp add: obj_ok_def o_keys_def)
  consider (filled) "o_index a = None" "o_index b = None" | (into) "o_index b \<noteq> None"
    | (out) "o_index a \<noteq> None" "o_index b = None" by blast
  then show ?thesis
  proof cases
    case filled
    then show ?thesis
      using True e(1) obj_eq_loop_ok [OF b1, of eqv "o_data a"] assms(1) by (auto simp: obj_equal_def)
  next
    case into
    then show ?thesis
      using True obj_eq_loop_ok [OF assms(2), of eqv "o_data a"] assms(1) by (auto simp: obj_equal_def)
  next
    case out
    then show ?thesis
      using True obj_eq_loop_ok [OF assms(1), of eqv "o_data b"] assms(2) by (auto simp: obj_equal_def)
  qed
qed (use assms in \<open>auto simp: obj_equal_def\<close>)

lemma entries_in_lookup:
  assumes "distinct (map fst es)"
  shows "entries_in eqv es fs \<longleftrightarrow> (\<forall>k v. map_of es k = Some v \<longrightarrow> (\<exists>v'. map_of fs k = Some v' \<and> eqv v' v))"
  using assms by (fastforce simp: entries_in_def list_all_iff map_of_eq_Some_iff split: option.splits)

lemma same_length_dom:
  assumes "distinct (map fst es)" "distinct (map fst fs)" "length es = length fs" "dom (map_of es) \<subseteq> dom (map_of fs)"
  shows "dom (map_of fs) = dom (map_of es)"
proof -
  have "card (dom (map_of es)) = length es" "card (dom (map_of fs)) = length fs"
    using assms(1,2) by (simp_all add: dom_map_of_conv_image_fst card_image distinct_map distinct_card)
  then show ?thesis using assms(3,4) card_subset_eq [of "dom (map_of fs)" "dom (map_of es)"] finite_dom_map_of by metis
qed

lemma entries_in_maps:
  assumes "distinct (map fst es)" "distinct (map fst fs)" "length es = length fs"
  shows "entries_in eqv es fs \<longleftrightarrow> (\<forall>k. rel_option eqv (map_of fs k) (map_of es k))"
proof
  assume e: "entries_in eqv es fs"
  note lookup = e [unfolded entries_in_lookup [OF assms(1)], rule_format]
  have "dom (map_of fs) = dom (map_of es)"
    by (rule same_length_dom [OF assms]) (use lookup in \<open>auto simp: dom_def\<close>)
  show "\<forall>k. rel_option eqv (map_of fs k) (map_of es k)"
  proof
    fix k
    show "rel_option eqv (map_of fs k) (map_of es k)"
    proof (cases "map_of es k")
      case None
      then have "map_of fs k = None" using \<open>dom (map_of fs) = dom (map_of es)\<close> by blast
      then show ?thesis using None by simp
    next
      case (Some v)
      then obtain v' where "map_of fs k = Some v'" "eqv v' v" using lookup by blast
      then show ?thesis using Some by simp
    qed
  qed
next
  assume "\<forall>k. rel_option eqv (map_of fs k) (map_of es k)"
  then show "entries_in eqv es fs"
    unfolding entries_in_lookup [OF assms(1)] by (metis option_rel_Some2)
qed

section \<open>Operation sequences\<close>

text \<open>What a client does with an object, one call after the other, and what it is told.\<close>

datatype 'v obj_op =
    OpInsert bytes 'v
  | OpSubscript bytes 'v
  | OpAt bytes
  | OpContains bytes
  | OpRemove bytes
  | OpClear
  | OpDataMut

datatype 'v answer = Nothing | Found bool | Stored "'v option"

definition obj_step :: "'v obj_op \<Rightarrow> 'v obj \<Rightarrow> ('v answer \<times> 'v obj) option" where
  "obj_step call ob =
     (case call of
        OpInsert k v \<Rightarrow> map_option (\<lambda>ob'. (Nothing, ob')) (obj_insert k v ob)
      | OpSubscript k d \<Rightarrow> map_option (\<lambda>(p, ob'). (Stored (Some (snd (o_data ob' ! p))), ob')) (obj_subscript d k ob)
      | OpAt k \<Rightarrow> map_option (\<lambda>(v, ob'). (Stored v, ob')) (obj_at k ob)
      | OpContains k \<Rightarrow> map_option (\<lambda>(b, ob'). (Found b, ob')) (obj_contains k ob)
      | OpRemove k \<Rightarrow> map_option (\<lambda>(b, ob'). (Found b, ob')) (obj_remove k ob)
      | OpClear \<Rightarrow> Some (Nothing, obj_clear ob)
      | OpDataMut \<Rightarrow> Some (Nothing, obj_data_mut ob))"

definition list_step :: "'v obj_op \<Rightarrow> (bytes \<times> 'v) list \<Rightarrow> 'v answer \<times> (bytes \<times> 'v) list" where
  "list_step call es =
     (case call of
        OpInsert k v \<Rightarrow> (Nothing, obj_put es k v)
      | OpSubscript k d \<Rightarrow>
          (case map_of es k of None \<Rightarrow> (Stored (Some d), es @ [(k, d)]) | Some v \<Rightarrow> (Stored (Some v), es))
      | OpAt k \<Rightarrow> (Stored (map_of es k), es)
      | OpContains k \<Rightarrow> (Found (k \<in> fst ` set es), es)
      | OpRemove k \<Rightarrow> (Found (k \<in> fst ` set es), del_first es k)
      | OpClear \<Rightarrow> (Nothing, [])
      | OpDataMut \<Rightarrow> (Nothing, es))"

fun obj_run :: "'v obj_op list \<Rightarrow> 'v obj \<Rightarrow> ('v answer list \<times> 'v obj) option" where
  "obj_run [] ob = Some ([], ob)"
| "obj_run (c # cs) ob =
     (case obj_step c ob of
        None \<Rightarrow> None
      | Some (a, ob') \<Rightarrow> map_option (\<lambda>(as, ob''). (a # as, ob'')) (obj_run cs ob'))"

fun list_run :: "'v obj_op list \<Rightarrow> (bytes \<times> 'v) list \<Rightarrow> 'v answer list \<times> (bytes \<times> 'v) list" where
  "list_run [] es = ([], es)"
| "list_run (c # cs) es =
     (let (a, es') = list_step c es; (as, es'') = list_run cs es' in (a # as, es''))"

lemma map_of_keys: "map_of es k \<noteq> None \<longleftrightarrow> k \<in> fst ` set es"
  by (simp add: map_of_eq_None_iff)

lemma obj_step_ok:
  assumes ok: "obj_ok ob" and len: "length (o_data ob) < 2 ^ 30"
  shows "\<exists>ob'. obj_step c ob = Some (fst (list_step c (o_data ob)), ob') \<and> obj_ok ob' \<and>
    o_data ob' = snd (list_step c (o_data ob)) \<and> length (o_data ob') \<le> Suc (length (o_data ob))"
proof (cases c)
  case (OpInsert k v)
  then show ?thesis using obj_insert_ok [OF ok len, of k v] length_obj_put [of "o_data ob" k v]
    by (auto simp: obj_step_def list_step_def)
next
  case (OpSubscript k d)
  then show ?thesis using obj_subscript_ok [OF ok len, of d k]
    by (cases "map_of (o_data ob) k") (auto simp: obj_step_def list_step_def obj_put_absent)
next
  case (OpAt k)
  then show ?thesis using obj_at_ok [OF ok, of k] by (auto simp: obj_step_def list_step_def)
next
  case (OpContains k)
  then show ?thesis using obj_contains_ok [OF ok, of k] map_of_keys [of "o_data ob" k]
    by (auto simp: obj_step_def list_step_def)
next
  case (OpRemove k)
  then show ?thesis
    using obj_remove_ok [OF ok, of k] map_of_keys [of "o_data ob" k] set_del_first(2) [of "o_data ob" k]
    by (auto simp: obj_step_def list_step_def)
next
  case OpClear
  then show ?thesis by (simp add: obj_step_def list_step_def obj_clear_def obj_ok_def cache_ok_def)
next
  case OpDataMut
  then show ?thesis using ok
    by (simp add: obj_step_def list_step_def obj_data_mut_def obj_ok_def cache_ok_def o_keys_def)
qed

lemma obj_run_ok:
  assumes "obj_ok ob" "length (o_data ob) + length cs \<le> 2 ^ 30"
  shows "\<exists>ob'. obj_run cs ob = Some (fst (list_run cs (o_data ob)), ob') \<and> obj_ok ob' \<and>
    o_data ob' = snd (list_run cs (o_data ob))"
  using assms
proof (induction cs arbitrary: ob)
  case (Cons c cs)
  then have "length (o_data ob) < 2 ^ 30" by simp
  from obj_step_ok [OF Cons.prems(1) this, of c]
  obtain ob' where s: "obj_step c ob = Some (fst (list_step c (o_data ob)), ob')" "obj_ok ob'"
      "o_data ob' = snd (list_step c (o_data ob))" "length (o_data ob') \<le> Suc (length (o_data ob))" by blast
  have "length (o_data ob') + length cs \<le> 2 ^ 30" using s(4) Cons.prems(2) by simp
  from Cons.IH [OF s(2) this] show ?case using s(1,3) by (auto simp: case_prod_beta Let_def)
qed simp

section \<open>Properties\<close>

text \<open>
  C10: the lookup cache is invisible: from any object whose cache is valid, whatever sequence
  of insertions, subscripts, lookups, removals, \<^verbatim>\<open>clear\<close> and mutable \<^verbatim>\<open>data()\<close> calls a client
  makes, it gets the answers and the entries of an association list searched from the front
  (first occurrence wins, overwriting keeps the position, removal keeps the order), no probe
  loops, and the cache stays valid through every build, refill, growth and erase.
\<close>
theorem object_cache_invisible:
  assumes "obj_ok ob" "length (o_data ob) + length cs \<le> 2 ^ 30"
  shows "\<exists>ob'. obj_run cs ob = Some (fst (list_run cs (o_data ob)), ob') \<and>
    o_data ob' = snd (list_run cs (o_data ob)) \<and> obj_ok ob'"
  using obj_run_ok [OF assms] by blast

definition many_inserts :: "nat obj_op list" where
  "many_inserts = map (\<lambda>i. OpInsert [of_nat i] i) [0..<20] @ [OpRemove [3], OpAt [19], OpAt [3]]"

theorem object_cache_invisible_witness:
  "\<exists>ob'. obj_run many_inserts (Obj [] None) =
     Some (replicate 20 Nothing @ [Found True, Stored (Some 19), Stored None], ob') \<and> length (o_data ob') = 19"
proof -
  have "obj_ok (Obj [] None)" by (simp add: obj_ok_def cache_ok_def)
  moreover have "list_run many_inserts [] = (replicate 20 Nothing @ [Found True, Stored (Some 19), Stored None],
      map (\<lambda>i. ([of_nat i], i)) ([0,1,2] @ [4..<20]))"
    by code_simp
  moreover have "length (o_data (Obj [] None :: nat obj)) + length many_inserts \<le> 2 ^ 30" by (simp add: many_inserts_def)
  ultimately obtain ob' where "obj_run many_inserts (Obj [] None) =
      Some (replicate 20 Nothing @ [Found True, Stored (Some 19), Stored None], ob')"
      "o_data ob' = map (\<lambda>i. ([of_nat i], i)) ([0,1,2] @ [4..<20])"
    using object_cache_invisible [of "Obj [] None" many_inserts] by auto
  then show ?thesis by simp
qed

text \<open>
  C11: \<^verbatim>\<open>Object::operator==\<close> is equality of the key-value maps, whatever caches the two
  sides happen to have (which decides the side that is iterated and the one that is probed),
  and the comparison leaves both contents as they were.
\<close>
theorem object_equality:
  assumes "obj_ok a" "obj_ok b" "distinct (o_keys a)" "distinct (o_keys b)" "\<And>x y. eqv x y \<longleftrightarrow> eqv y x"
  shows "\<exists>a' b'. obj_equal eqv a b = Some (\<forall>k. rel_option eqv (map_of (o_data a) k) (map_of (o_data b) k), a', b') \<and>
    o_data a' = o_data a \<and> o_data b' = o_data b \<and> obj_ok a' \<and> obj_ok b'"
proof -
  have d: "distinct (map fst (o_data a))" "distinct (map fst (o_data b))" using assms(3,4) by (simp_all add: o_keys_def)
  have sym: "rel_option eqv x y \<longleftrightarrow> rel_option eqv y x" for x y by (cases x; cases y) (simp_all add: assms(5))
  have len: "length (o_data a) = length (o_data b)" if "\<forall>k. rel_option eqv (map_of (o_data a) k) (map_of (o_data b) k)"
  proof -
    have "map_of (o_data a) k = None \<longleftrightarrow> map_of (o_data b) k = None" for k
      using that [rule_format, of k] by (cases "map_of (o_data a) k"; cases "map_of (o_data b) k") simp_all
    then have "dom (map_of (o_data a)) = dom (map_of (o_data b))" by (auto simp: dom_def)
    then show ?thesis using d by (metis dom_map_of_conv_image_fst distinct_card length_map set_map)
  qed
  obtain r a' b' where r: "obj_equal eqv a b = Some (r, a', b')" "obj_ok a'" "obj_ok b'" "o_data a' = o_data a" "o_data b' = o_data b"
    "r \<longleftrightarrow> length (o_data a) = length (o_data b) \<and>
       (if o_index a \<noteq> None \<and> o_index b = None then entries_in eqv (o_data b) (o_data a)
        else entries_in eqv (o_data a) (o_data b))"
    using obj_equal_ok [OF assms(1,2), of eqv] by blast
  have "r \<longleftrightarrow> (\<forall>k. rel_option eqv (map_of (o_data a) k) (map_of (o_data b) k))"
    using r(6) len entries_in_maps [OF d, of eqv] entries_in_maps [OF d(2,1), of eqv] sym by (auto split: if_splits)
  then show ?thesis using r by auto
qed

theorem object_equality_witness:
  "\<exists>a' b'. obj_equal (=) (Obj [([1], True), ([2], False)] None) (Obj [([2], False), ([1], True)] None) = Some (True, a', b')"
proof -
  let ?a = "Obj [([1], True), ([2], False)] None" and ?b = "Obj [([2], False), ([1], True)] None"
  have "\<forall>k. rel_option (=) (map_of (o_data ?a) k) (map_of (o_data ?b) k)" by (simp add: option.rel_eq)
  moreover have "obj_ok ?a" "obj_ok ?b" "distinct (o_keys ?a)" "distinct (o_keys ?b)"
    by (simp_all add: obj_ok_def cache_ok_def o_keys_def)
  ultimately show ?thesis using object_equality [of ?a ?b "(=)"] by auto
qed

end
