(* ===== verification/JsonOps.thy ===== *)
theory JsonOps
  imports ObjectOps "HOL-Library.List_Lexorder" "HOL-Library.Multiset"
begin

unbundle bit_operations_syntax

text \<open>
  \<^verbatim>\<open>class Json\<close> (\<^verbatim>\<open>src/json.cpp\<close>, \<^verbatim>\<open>src/array.cpp\<close>): the safe accessors, equality, the strict
  weak order and the hash.  Objects are entry lists here; that a lookup in the C++ object
  finds the first entry with the key, whatever its cache holds, is theory \<^verbatim>\<open>ObjectOps\<close>.
\<close>

section \<open>Accessors\<close>

datatype exn = TypeError bytes | OutOfRange bytes | InvalidArgument bytes

text \<open>The active tag; the two string tags are one constructor.\<close>

fun try_as_boolean :: "'s json \<Rightarrow> bool option" where
  "try_as_boolean (JBool b) = Some b"
| "try_as_boolean _ = None"

fun try_as_int :: "'s json \<Rightarrow> u64 option" where
  "try_as_int (JInt i) = Some i"
| "try_as_int _ = None"

fun try_as_float :: "'s json \<Rightarrow> u64 option" where
  "try_as_float (JFloat f) = Some f"
| "try_as_float _ = None"

fun try_as_string :: "'s json \<Rightarrow> 's option" where
  "try_as_string (JStr s) = Some s"
| "try_as_string _ = None"

fun try_as_array :: "'s json \<Rightarrow> 's json list option" where
  "try_as_array (JArr xs) = Some xs"
| "try_as_array _ = None"

fun try_as_object :: "'s json \<Rightarrow> ('s \<times> 's json) list option" where
  "try_as_object (JObj es) = Some es"
| "try_as_object _ = None"

definition is_array :: "'s json \<Rightarrow> bool" where "is_array v \<longleftrightarrow> try_as_array v \<noteq> None"
definition is_object :: "'s json \<Rightarrow> bool" where "is_object v \<longleftrightarrow> try_as_object v \<noteq> None"

text \<open>\<^verbatim>\<open>get<double>\<close> widens an integer by rounding to the nearest double.\<close>

definition int_to_double :: "u64 \<Rightarrow> u64" where
  "int_to_double i = the (round_double (sint i < 0) (nat \<bar>sint i\<bar>) 1)"

fun try_get_double :: "'s json \<Rightarrow> u64 option" where
  "try_get_double (JInt i) = Some (int_to_double i)"
| "try_get_double (JFloat f) = Some f"
| "try_get_double _ = None"

definition get_double :: "'s json \<Rightarrow> exn + u64" where
  "get_double v =
     (case try_get_double v of Some d \<Rightarrow> Inr d | None \<Rightarrow> Inl (TypeError (lit ''type mismatch in get()'')))"

fun json_size :: "'s json \<Rightarrow> nat" where
  "json_size (JArr xs) = length xs"
| "json_size (JObj es) = length es"
| "json_size _ = 1"

fun json_empty :: "'s json \<Rightarrow> bool" where
  "json_empty (JArr xs) = (xs = [])"
| "json_empty (JObj es) = (es = [])"
| "json_empty _ = False"

text \<open>\<^verbatim>\<open>at\<close> with an index or a key; the container's bounds check throws \<^verbatim>\<open>out_of_range\<close>.\<close>

definition array_at :: "'s json list \<Rightarrow> nat \<Rightarrow> exn + 's json" where
  "array_at xs idx = (if idx < length xs then Inr (xs ! idx) else Inl (OutOfRange (lit ''vector'')))"

definition object_at :: "(bytes \<times> 'v) list \<Rightarrow> bytes \<Rightarrow> exn + 'v" where
  "object_at es key =
     (case map_of es key of Some v \<Rightarrow> Inr v | None \<Rightarrow> Inl (OutOfRange (lit ''json key not found'')))"

definition json_at_index :: "'s json \<Rightarrow> nat \<Rightarrow> exn + 's json" where
  "json_at_index v idx =
     (case v of JArr xs \<Rightarrow> array_at xs idx | _ \<Rightarrow> Inl (TypeError (lit ''expected array'')))"

definition json_at_key :: "jvalue \<Rightarrow> bytes \<Rightarrow> exn + jvalue" where
  "json_at_key v key =
     (case v of JObj es \<Rightarrow> object_at es key | _ \<Rightarrow> Inl (TypeError (lit ''expected object'')))"

text \<open>\<^verbatim>\<open>Array::erase\<close>: the range check is on \<^verbatim>\<open>size_t\<close> without overflow.\<close>

definition array_erase :: "'v list \<Rightarrow> nat \<Rightarrow> nat \<Rightarrow> exn + 'v list" where
  "array_erase xs idx len =
     (if length xs < idx \<or> length xs - idx < len then Inl (OutOfRange (lit ''array erase out of range''))
      else Inr (take idx xs @ drop (idx + len) xs))"

definition array_resize :: "'s json list \<Rightarrow> nat \<Rightarrow> 's json list" where
  "array_resize xs n = take n xs @ replicate (n - length xs) JNull"

section \<open>Equality\<close>

lemma weight_children:
  "x \<in> set xs \<Longrightarrow> y \<in> set ys \<Longrightarrow> json_weight x + json_weight y < json_weight (JArr xs) + json_weight (JArr ys)"
  "x \<in> set xs \<Longrightarrow> y \<in> set ys \<Longrightarrow> json_weight y + json_weight x < json_weight (JArr xs) + json_weight (JArr ys)"
  "(k, u) \<in> set es \<Longrightarrow> (l, v) \<in> set fs \<Longrightarrow> json_weight u + json_weight v < json_weight (JObj es) + json_weight (JObj fs)"
  "(k, u) \<in> set es \<Longrightarrow> (l, v) \<in> set fs \<Longrightarrow> json_weight v + json_weight u < json_weight (JObj es) + json_weight (JObj fs)"
  using json_weight_mem(1) [of x xs] json_weight_mem(1) [of y ys] json_weight_mem(2) [of "(k, u)" es]
    json_weight_mem(2) [of "(l, v)" fs]
  by (simp_all del: json_weight.simps)

function json_eq :: "jvalue \<Rightarrow> jvalue \<Rightarrow> bool" where
  "json_eq a b =
     (case (a, b) of
        (JStr s, JStr t) \<Rightarrow> s = t
      | (JNull, JNull) \<Rightarrow> True
      | (JBool x, JBool y) \<Rightarrow> x = y
      | (JInt x, JInt y) \<Rightarrow> x = y
      | (JFloat x, JFloat y) \<Rightarrow> f_eq x y
      | (JArr xs, JArr ys) \<Rightarrow>
          length xs = length ys \<and> list_all (\<lambda>(x, y). json_eq x y) (zip xs ys)
      | (JObj es, JObj fs) \<Rightarrow>
          length es = length fs \<and>
          list_all (\<lambda>(k, v). case map_of fs k of None \<Rightarrow> False | Some v' \<Rightarrow> json_eq v' v) es
      | _ \<Rightarrow> False)"
  by pat_completeness auto
termination
  by (relation "measure (\<lambda>(a, b). json_weight a + json_weight b)")
    (auto dest: set_zip_leftD set_zip_rightD dest!: map_of_SomeD intro: weight_children simp del: json_weight.simps)

declare json_eq.simps [simp del]

definition array_contains :: "jvalue list \<Rightarrow> jvalue \<Rightarrow> bool" where
  "array_contains xs v = list_ex (\<lambda>x. json_eq x v) xs"

section \<open>The strict weak order\<close>

definition float_less :: "u64 \<Rightarrow> u64 \<Rightarrow> bool" where
  "float_less a b = (if f_isnan a then False else if f_isnan b then True else f_lt a b)"

fun rank :: "'s json \<Rightarrow> nat" where
  "rank JNull = 0"
| "rank (JBool _) = 1"
| "rank (JInt _) = 2"
| "rank (JFloat _) = 3"
| "rank (JStr _) = 4"
| "rank (JArr _) = 5"
| "rank (JObj _) = 6"

text \<open>
  The loop shared by \<^verbatim>\<open>array_less\<close> and \<^verbatim>\<open>object_less\<close>: the first pair that is ordered one way
  or the other decides, then the lengths.
\<close>

fun lex_less :: "('a \<Rightarrow> 'a \<Rightarrow> bool) \<Rightarrow> 'a list \<Rightarrow> 'a list \<Rightarrow> bool" where
  "lex_less lt (x # xs) (y # ys) = (if lt x y then True else if lt y x then False else lex_less lt xs ys)"
| "lex_less lt xs ys = (length xs < length ys)"

lemma lex_less_cong [fundef_cong]:
  assumes "xs = xs'" "ys = ys'"
    and "\<And>x y. x \<in> set xs' \<Longrightarrow> y \<in> set ys' \<Longrightarrow> lt x y = lt' x y"
    and "\<And>x y. x \<in> set xs' \<Longrightarrow> y \<in> set ys' \<Longrightarrow> lt y x = lt' y x"
  shows "lex_less lt xs ys = lex_less lt' xs' ys'"
  using assms(3,4) unfolding assms(1,2) by (induction lt' xs' ys' rule: lex_less.induct) auto

text \<open>One step of \<^verbatim>\<open>object_less\<close>: the key decides, then the value.\<close>

definition entry_less :: "('v \<Rightarrow> 'v \<Rightarrow> bool) \<Rightarrow> bytes \<times> 'v \<Rightarrow> bytes \<times> 'v \<Rightarrow> bool" where
  "entry_less lt e f = (if fst e \<noteq> fst f then fst e < fst f else lt (snd e) (snd f))"

lemma entry_less_cong [fundef_cong]:
  "e = e' \<Longrightarrow> f = f' \<Longrightarrow> lt (snd e') (snd f') = lt' (snd e') (snd f') \<Longrightarrow> entry_less lt e f = entry_less lt' e' f'"
  by (simp add: entry_less_def)

function json_less :: "jvalue \<Rightarrow> jvalue \<Rightarrow> bool" where
  "json_less a b =
     (if rank a \<noteq> rank b then rank a < rank b
      else
        (case (a, b) of
           (JStr s, JStr t) \<Rightarrow> s < t
         | (JBool x, JBool y) \<Rightarrow> \<not> x \<and> y
         | (JInt x, JInt y) \<Rightarrow> sint x < sint y
         | (JFloat x, JFloat y) \<Rightarrow> float_less x y
         | (JArr xs, JArr ys) \<Rightarrow> lex_less json_less xs ys
         | (JObj es, JObj fs) \<Rightarrow> lex_less (entry_less json_less) (sort_key fst es) (sort_key fst fs)
         | _ \<Rightarrow> False))"
  by pat_completeness auto
termination
  by (relation "measure (\<lambda>(a, b). json_weight a + json_weight b)")
    (auto intro: weight_children simp del: json_weight.simps)

declare json_less.simps [simp del]

section \<open>The hash\<close>

definition splitmix64 :: "u64 \<Rightarrow> u64" where
  "splitmix64 x =
     (let x = x + 0x9E3779B97F4A7C15;
          x = (x XOR drop_bit 30 x) * 0xBF58476D1CE4E5B9;
          x = (x XOR drop_bit 27 x) * 0x94D049BB133111EB
      in x XOR drop_bit 31 x)"

definition fnv1a64 :: "bytes \<Rightarrow> u64" where
  "fnv1a64 s = foldl (\<lambda>h c. (h XOR ucast c) * 0x100000001B3) 0xCBF29CE484222325 s"

fun hash64 :: "jvalue \<Rightarrow> u64" where
  "hash64 JNull = splitmix64 0"
| "hash64 (JBool b) = splitmix64 1 XOR (if b then 1 else 0)"
| "hash64 (JInt i) = splitmix64 2 XOR i"
| "hash64 (JFloat f) = splitmix64 3 XOR (if f = 0x8000000000000000 then 0 else f)"
| "hash64 (JStr s) = splitmix64 4 XOR fnv1a64 s"
| "hash64 (JArr xs) = foldl (\<lambda>h x. splitmix64 (h XOR x)) (splitmix64 5) (map hash64 xs)"
| "hash64 (JObj es) =
     foldl (\<lambda>h x. h + x) (splitmix64 6)
       (map (\<lambda>(k, v). splitmix64 (fnv1a64 k XOR (hash64 v + 0x9E3779B97F4A7C15))) es)"

section \<open>Equality, order and hash agree\<close>

lemma json_eq_simps [simp]:
  "json_eq JNull b \<longleftrightarrow> b = JNull"
  "json_eq (JBool x) b \<longleftrightarrow> b = JBool x"
  "json_eq (JInt i) b \<longleftrightarrow> b = JInt i"
  "json_eq (JStr s) b \<longleftrightarrow> b = JStr s"
  "json_eq (JFloat f) b \<longleftrightarrow> (\<exists>g. b = JFloat g \<and> f_eq f g)"
  by (cases b; auto simp: json_eq.simps)+

lemma json_eq_arr:
  "json_eq (JArr xs) b \<longleftrightarrow> (\<exists>ys. b = JArr ys \<and> list_all2 json_eq xs ys)"
  by (cases b) (auto simp: json_eq.simps [of "JArr xs"] list_all2_iff list_all_iff)

lemma json_eq_obj:
  "json_eq (JObj es) b \<longleftrightarrow> (\<exists>fs. b = JObj fs \<and> length es = length fs \<and> entries_in json_eq es fs)"
  by (cases b) (auto simp: json_eq.simps [of "JObj es"] entries_in_def)

text \<open>The lexicographic loop keeps asymmetry and the weak-order law.\<close>

lemma lex_less_asym:
  "(\<And>x y. x \<in> set xs \<Longrightarrow> y \<in> set ys \<Longrightarrow> lt x y \<Longrightarrow> \<not> lt y x) \<Longrightarrow> lex_less lt xs ys \<Longrightarrow> \<not> lex_less lt ys xs"
proof (induction lt xs ys rule: lex_less.induct)
  case (1 lt x xs y ys)
  then show ?case by (auto split: if_splits)
qed simp_all

lemma lex_less_Nil [simp]: "lex_less lt [] ys \<longleftrightarrow> ys \<noteq> []" "\<not> lex_less lt xs []"
  by (cases ys; simp)(cases xs; simp)

text \<open>The weak-order law for three elements, in the three rotations the loop needs.\<close>

definition weak3 :: "('a \<Rightarrow> 'a \<Rightarrow> bool) \<Rightarrow> 'a \<Rightarrow> 'a \<Rightarrow> 'a \<Rightarrow> bool" where
  "weak3 lt x y z \<longleftrightarrow>
     (lt x z \<longrightarrow> lt x y \<or> lt y z) \<and> (lt y x \<longrightarrow> lt y z \<or> lt z x) \<and> (lt z y \<longrightarrow> lt z x \<or> lt x y)"

lemma lex_less_cotrans:
  assumes "\<And>x y z. x \<in> set xs \<Longrightarrow> y \<in> set ys \<Longrightarrow> z \<in> set zs \<Longrightarrow> weak3 lt x y z"
    and "lex_less lt xs zs"
  shows "lex_less lt xs ys \<or> lex_less lt ys zs"
  using assms
proof (induction lt xs zs arbitrary: ys rule: lex_less.induct)
  case (1 lt x xs z zs)
  show ?case
  proof (cases ys)
    case (Cons y ys')
    have c: "lt x z \<Longrightarrow> lt x y \<or> lt y z" "lt y x \<Longrightarrow> lt y z \<or> lt z x" "lt z y \<Longrightarrow> lt z x \<or> lt x y"
      using "1.prems"(1) [of x y z] Cons by (auto simp: weak3_def)
    show ?thesis
    proof (cases "lt x z \<or> lt z x")
      case True
      then have "lt x z" using "1.prems"(2) by (auto split: if_splits)
      then show ?thesis using c(1) Cons by auto
    next
      case False
      then have r: "lex_less lt xs zs" using "1.prems"(2) by simp
      have "lex_less lt xs ys' \<or> lex_less lt ys' zs"
        by (rule "1.IH" [OF _ _ _ r]) (use False "1.prems"(1) Cons in auto)
      then show ?thesis using c False Cons by auto
    qed
  qed simp
qed (metis lex_less_Nil)+

lemma lex_incomparable:
  "\<not> lex_less lt xs ys \<and> \<not> lex_less lt ys xs \<longleftrightarrow> list_all2 (\<lambda>x y. \<not> lt x y \<and> \<not> lt y x) xs ys"
  by (induction lt xs ys rule: lex_less.induct) (auto simp: list_all2_Cons1)

lemma entry_less_asym: "(lt (snd e) (snd f) \<Longrightarrow> \<not> lt (snd f) (snd e)) \<Longrightarrow> entry_less lt e f \<Longrightarrow> \<not> entry_less lt f e"
  by (auto simp: entry_less_def split: if_splits)

lemma entry_less_weak3: "weak3 lt (snd e) (snd f) (snd g) \<Longrightarrow> weak3 (entry_less lt) e f g"
  unfolding weak3_def entry_less_def by (smt (verit) linorder_less_linear order_less_trans)

lemma json_less_rank: "rank a \<noteq> rank b \<Longrightarrow> json_less a b \<longleftrightarrow> rank a < rank b"
  by (simp add: json_less.simps)

lemma json_less_simps:
  "json_less JNull JNull \<longleftrightarrow> False"
  "json_less (JBool p) (JBool q) \<longleftrightarrow> \<not> p \<and> q"
  "json_less (JInt i) (JInt j) \<longleftrightarrow> sint i < sint j"
  "json_less (JFloat f) (JFloat g) \<longleftrightarrow> float_less f g"
  "json_less (JStr s) (JStr t) \<longleftrightarrow> s < t"
  "json_less (JArr xs) (JArr ys) \<longleftrightarrow> lex_less json_less xs ys"
  "json_less (JObj es) (JObj fs) \<longleftrightarrow> lex_less (entry_less json_less) (sort_key fst es) (sort_key fst fs)"
  by (simp_all add: json_less.simps [of JNull] json_less.simps [of "JBool p"] json_less.simps [of "JInt i"]
      json_less.simps [of "JFloat f"] json_less.simps [of "JStr s"] json_less.simps [of "JArr xs"]
      json_less.simps [of "JObj es"])

lemma float_less_key: "float_less f g \<longleftrightarrow> \<not> f_isnan f \<and> (f_isnan g \<or> f_key f < f_key g)"
  by (simp add: float_less_def f_lt_def)

text \<open>Values of one rank share their constructor.\<close>

lemma same_rank:
  assumes "rank a = rank b"
  obtains "a = JNull" "b = JNull" | p q where "a = JBool p" "b = JBool q" | i j where "a = JInt i" "b = JInt j"
    | f g where "a = JFloat f" "b = JFloat g" | s t where "a = JStr s" "b = JStr t"
    | xs ys where "a = JArr xs" "b = JArr ys" | es fs where "a = JObj es" "b = JObj fs"
  using assms that by (cases a; cases b) simp_all

lemma json_less_asym: "json_less a b \<Longrightarrow> \<not> json_less b a"
proof (induction "json_weight a + json_weight b" arbitrary: a b rule: less_induct)
  case less
  show ?case
  proof (cases "rank a = rank b")
    case False
    then show ?thesis using less.prems by (auto simp: json_less_rank)
  next
    case True
    then show ?thesis
    proof (cases a b rule: same_rank)
      case (6 xs ys)
      have "\<not> json_less y x" if "x \<in> set xs" "y \<in> set ys" "json_less x y" for x y
        using less.hyps [of x y] weight_children(1) [OF that(1,2)] that(3) 6 by simp
      then show ?thesis using lex_less_asym [of xs ys json_less] less.prems 6 by (auto simp: json_less_simps)
    next
      case (7 es fs)
      have "\<not> entry_less json_less f e"
        if "e \<in> set (sort_key fst es)" "f \<in> set (sort_key fst fs)" "entry_less json_less e f" for e f
        using entry_less_asym [of json_less e f] less.hyps [of "snd e" "snd f"] that
          weight_children(3) [of "fst e" "snd e" es "fst f" "snd f" fs] 7 by simp
      then show ?thesis
        using lex_less_asym [of "sort_key fst es" "sort_key fst fs" "entry_less json_less"] less.prems 7
        by (auto simp: json_less_simps)
    qed (use less.prems in \<open>auto simp: json_less_simps float_less_key\<close>)
  qed
qed

lemma json_less_cotrans: "json_less a c \<Longrightarrow> json_less a b \<or> json_less b c"
proof (induction "json_weight a + json_weight b + json_weight c" arbitrary: a b c rule: less_induct)
  case less
  have w3: "weak3 json_less x y z"
    if "json_weight x < json_weight a" "json_weight y < json_weight b" "json_weight z < json_weight c" for x y z
    using less.hyps [of x y z] less.hyps [of y z x] less.hyps [of z x y] that unfolding weak3_def by simp
  show ?case
  proof (cases "rank a = rank c \<and> rank b = rank c")
    case False
    then show ?thesis using less.prems json_less_rank [of a b] json_less_rank [of b c] json_less_rank [of a c]
      by (cases "rank a = rank b"; cases "rank b = rank c") auto
  next
    case True
    then have r: "rank a = rank c" "rank b = rank c" by simp_all
    show ?thesis using r(1)
    proof (cases a c rule: same_rank)
      case (6 xs zs)
      obtain ys where b: "b = JArr ys" using r(2) 6 by (cases b) simp_all
      have "weak3 json_less x y z" if "x \<in> set xs" "y \<in> set ys" "z \<in> set zs" for x y z
        using w3 json_weight_mem(1) that 6 b by blast
      then have "lex_less json_less xs ys \<or> lex_less json_less ys zs"
        by (intro lex_less_cotrans) (use less.prems 6 in \<open>auto simp: json_less_simps\<close>)
      then show ?thesis using 6 b by (simp add: json_less_simps)
    next
      case (7 es gs)
      obtain fs where b: "b = JObj fs" using r(2) 7 by (cases b) simp_all
      have "weak3 (entry_less json_less) x y z" if "x \<in> set es" "y \<in> set fs" "z \<in> set gs" for x y z
        using entry_less_weak3 w3 json_weight_mem(2) that 7 b by blast
      then have "lex_less (entry_less json_less) (sort_key fst es) (sort_key fst fs) \<or>
          lex_less (entry_less json_less) (sort_key fst fs) (sort_key fst gs)"
        by (intro lex_less_cotrans) (use less.prems 7 in \<open>auto simp: json_less_simps\<close>)
      then show ?thesis using 7 b by (simp add: json_less_simps)
    qed (use less.prems r in \<open>cases b; auto simp: json_less_simps float_less_key\<close>)+
  qed
qed

text \<open>Entry lists with the same map, in key order.\<close>

definition same_entries :: "('v \<Rightarrow> 'v \<Rightarrow> bool) \<Rightarrow> (bytes \<times> 'v) list \<Rightarrow> (bytes \<times> 'v) list \<Rightarrow> bool" where
  "same_entries R es fs \<longleftrightarrow> list_all2 (\<lambda>e f. fst e = fst f \<and> R (snd e) (snd f)) (sort_key fst es) (sort_key fst fs)"

lemma sorted_entry:
  assumes "distinct (map fst es)" "i < length es"
  shows "map_of es (fst (sort_key fst es ! i)) = Some (snd (sort_key fst es ! i))"
proof -
  have "sort_key fst es ! i \<in> set es" using assms(2) by (metis length_sort nth_mem set_sort)
  then show ?thesis using assms(1) by simp
qed

lemma keys_sorted: "distinct (map fst es) \<Longrightarrow> distinct (map fst (sort_key fst es)) \<and> sorted (map fst (sort_key fst es))"
  by (metis mset_eq_imp_distinct_iff mset_map mset_sort sorted_sort_key)

lemma same_entries_maps:
  assumes "distinct (map fst es)" "distinct (map fst fs)"
  shows "same_entries R es fs \<longleftrightarrow> length es = length fs \<and> (\<forall>k. rel_option R (map_of es k) (map_of fs k))"
proof
  assume s: "same_entries R es fs"
  then have len: "length es = length fs" by (auto simp: same_entries_def dest: list_all2_lengthD)
  have "map fst (sort_key fst es) = map fst (sort_key fst fs)"
    using s unfolding same_entries_def by (auto simp: list_all2_conv_all_nth intro!: nth_equalityI)
  then have keys: "fst ` set es = fst ` set fs" by (metis list.set_map set_sort)
  have "rel_option R (map_of es k) (map_of fs k)" for k
  proof (cases "k \<in> fst ` set es")
    case True
    then obtain i where i: "i < length es" "fst (sort_key fst es ! i) = k"
      by (metis (no_types, lifting) imageE in_set_conv_nth length_sort set_sort)
    then have "fst (sort_key fst fs ! i) = k" "R (snd (sort_key fst es ! i)) (snd (sort_key fst fs ! i))"
      using s unfolding same_entries_def by (auto simp: list_all2_conv_all_nth)
    then show ?thesis using sorted_entry [OF assms(1) i(1)] sorted_entry [OF assms(2), of i] i len by simp
  next
    case False
    then show ?thesis using keys by (metis map_of_eq_None_iff option.rel_inject(1))
  qed
  then show "length es = length fs \<and> (\<forall>k. rel_option R (map_of es k) (map_of fs k))" using len by blast
next
  assume r: "length es = length fs \<and> (\<forall>k. rel_option R (map_of es k) (map_of fs k))"
  have "map_of es k = None \<longleftrightarrow> map_of fs k = None" for k
    using r by (cases "map_of es k"; cases "map_of fs k") (auto dest!: spec [of _ k])
  then have "fst ` set es = fst ` set fs" by (metis map_of_eq_None_iff set_eqI)
  then have keys: "map fst (sort_key fst es) = map fst (sort_key fst fs)"
    using keys_sorted [OF assms(1)] keys_sorted [OF assms(2)] by (intro sorted_distinct_set_unique) simp_all
  have "fst (sort_key fst es ! i) = fst (sort_key fst fs ! i) \<and> R (snd (sort_key fst es ! i)) (snd (sort_key fst fs ! i))"
    if i: "i < length es" for i
  proof -
    have "fst (sort_key fst es ! i) = fst (sort_key fst fs ! i)"
      using arg_cong [OF keys, of "\<lambda>ks. ks ! i"] i r by simp
    then show ?thesis
      using r sorted_entry [OF assms(1) i] sorted_entry [OF assms(2), of i] i by (metis option.rel_inject(2))
  qed
  then show "same_entries R es fs" using r by (simp add: same_entries_def list_all2_conv_all_nth)
qed

lemma rel_option_flip: "rel_option R x y \<longleftrightarrow> rel_option (\<lambda>a b. R b a) y x"
  by (cases x; cases y) simp_all

lemma json_eq_obj_entries:
  assumes "distinct (map fst es)" "distinct (map fst fs)"
  shows "json_eq (JObj es) (JObj fs) \<longleftrightarrow> same_entries (\<lambda>u v. json_eq v u) es fs"
  using entries_in_maps [OF assms, of json_eq] same_entries_maps [OF assms, of "\<lambda>u v. json_eq v u"]
    rel_option_flip [of json_eq] by (auto simp: json_eq_obj)

text \<open>Values without a NaN.\<close>

fun nan_free :: "jvalue \<Rightarrow> bool" where
  "nan_free (JFloat f) = (\<not> f_isnan f)"
| "nan_free (JArr xs) = list_all nan_free xs"
| "nan_free (JObj es) = list_all (\<lambda>e. nan_free (snd e)) es"
| "nan_free _ = True"

lemma entry_incomparable:
  "\<not> entry_less lt e f \<and> \<not> entry_less lt f e \<longleftrightarrow> fst e = fst f \<and> \<not> lt (snd e) (snd f) \<and> \<not> lt (snd f) (snd e)"
  by (auto simp: entry_less_def)

definition incomparable :: "jvalue \<Rightarrow> jvalue \<Rightarrow> bool" where
  "incomparable a b \<longleftrightarrow> \<not> json_less a b \<and> \<not> json_less b a"

lemma incomparable_obj: "incomparable (JObj es) (JObj fs) \<longleftrightarrow> same_entries incomparable es fs"
  unfolding incomparable_def json_less_simps lex_incomparable entry_incomparable same_entries_def by (rule refl)

lemma incomparable_arr: "incomparable (JArr xs) (JArr ys) \<longleftrightarrow> list_all2 incomparable xs ys"
  unfolding incomparable_def json_less_simps lex_incomparable by (rule refl)

lemma list_all2_cong_mem:
  "(\<And>x y. x \<in> set xs \<Longrightarrow> y \<in> set ys \<Longrightarrow> P x y = Q x y) \<Longrightarrow> list_all2 P xs ys = list_all2 Q xs ys"
  by (rule list.rel_cong) simp_all

lemma json_eq_incomparable:
  "unique_keys a \<Longrightarrow> unique_keys b \<Longrightarrow> nan_free a \<Longrightarrow> nan_free b \<Longrightarrow> json_eq a b \<longleftrightarrow> incomparable a b"
proof (induction "json_weight a + json_weight b" arbitrary: a b rule: less_induct)
  case less
  show ?case
  proof (cases "rank a = rank b")
    case False
    then have "incomparable a b \<longleftrightarrow> False" by (auto simp: incomparable_def json_less_rank)
    moreover have "\<not> json_eq a b" using False by (cases a) (auto simp: json_eq_arr json_eq_obj)
    ultimately show ?thesis by simp
  next
    case True
    then show ?thesis
    proof (cases a b rule: same_rank)
      case (4 f g)
      then show ?thesis using less.prems by (auto simp: incomparable_def json_less_simps float_less_key f_eq_def)
    next
      case (6 xs ys)
      have "json_eq x y = incomparable x y" if "x \<in> set xs" "y \<in> set ys" for x y
        using less.hyps [of x y] weight_children(1) [OF that] less.prems 6 that by (simp add: list_all_iff del: json_weight.simps)
      then show ?thesis using 6 list_all2_cong_mem [of xs ys json_eq incomparable] by (simp add: incomparable_arr json_eq_arr)
    next
      case (7 es fs)
      have d: "distinct (map fst es)" "distinct (map fst fs)" using less.prems 7 by simp_all
      have "json_eq (snd f) (snd e) = incomparable (snd e) (snd f)" if "e \<in> set es" "f \<in> set fs" for e f
      proof -
        have "json_eq (snd f) (snd e) = incomparable (snd f) (snd e)"
          using less.hyps [of "snd f" "snd e"] weight_children(4) [of "fst e" "snd e" es "fst f" "snd f" fs]
            less.prems 7 that by (simp add: list_all_iff del: json_weight.simps)
        then show ?thesis by (auto simp: incomparable_def)
      qed
      then have "same_entries (\<lambda>u v. json_eq v u) es fs = same_entries incomparable es fs"
        unfolding same_entries_def by (intro list_all2_cong_mem) simp
      then show ?thesis using 7 json_eq_obj_entries [OF d] incomparable_obj by simp
    qed (auto simp: incomparable_def json_less_simps dest: signed_word_eqI)
  qed
qed

lemma low_bits_sign:
  fixes x :: u64
  shows "x = (x AND 0x7FFFFFFFFFFFFFFF) OR (if bit x 63 then 0x8000000000000000 else 0)"
proof -
  have m: "(0x7FFFFFFFFFFFFFFF :: u64) = mask 63" by (simp add: mask_eq_exp_minus_1)
  have p: "(0x8000000000000000 :: u64) = push_bit 63 1" by (simp add: push_bit_eq_mult)
  show ?thesis unfolding m p
  proof (rule bit_word_eqI)
    fix n assume "n < LENGTH(64)"
    then show "bit x n = bit (x AND mask 63 OR (if bit x 63 then push_bit 63 1 else 0)) n"
      by (cases "n = 63") (auto simp: bit_or_iff bit_and_iff bit_mask_iff bit_push_bit_iff bit_1_iff simp del: push_bit_of_1)
  qed
qed

lemma signed_magnitude:
  "(if p then - int a else int a) = (if q then - int b else int b) \<Longrightarrow> a = b \<and> (p = q \<or> a = 0)"
  by (auto split: if_splits)

lemma f_key_zero_fold:
  assumes "f_key x = f_key y"
  shows "(if x = 0x8000000000000000 then 0 else x) = (if y = 0x8000000000000000 then 0 else y)"
proof -
  let ?m = "\<lambda>x :: u64. x AND 0x7FFFFFFFFFFFFFFF"
  have "unat (?m x) = unat (?m y) \<and> (bit x 63 = bit y 63 \<or> ?m x = 0)"
  proof -
    have k: "f_key x = (if bit x 63 then - int (unat (?m x)) else int (unat (?m x)))" for x
      by (simp only: f_key_def Let_def f_sign_def)
    have z: "unat (?m x) = 0 \<Longrightarrow> ?m x = 0" by (simp only: unat_eq_0)
    have "unat (?m x) = unat (?m y) \<and> (bit x 63 = bit y 63 \<or> unat (?m x) = 0)"
      using assms [unfolded k] by (rule signed_magnitude)
    then show ?thesis using z by blast
  qed
  then have "?m x = ?m y" "bit x 63 = bit y 63 \<or> ?m x = 0" by (auto intro: word_eq_unat)
  then show ?thesis using low_bits_sign [of x] low_bits_sign [of y] by (cases "bit x 63"; cases "bit y 63") auto
qed

lemma foldl_plus: "foldl (\<lambda>h x. h + x) a xs = a + sum_list (xs :: u64 list)"
  by (induction xs arbitrary: a) (simp_all add: add.assoc)

lemma hash_equal: "json_eq a b \<Longrightarrow> unique_keys a \<Longrightarrow> unique_keys b \<Longrightarrow> hash64 a = hash64 b"
proof (induction "json_weight a + json_weight b" arbitrary: a b rule: less_induct)
  case less
  have "rank a = rank b" using less.prems(1) by (cases a) (auto simp: json_eq_arr json_eq_obj)
  then show ?case
  proof (cases a b rule: same_rank)
    case (4 f g)
    then show ?thesis using less.prems(1) f_key_zero_fold [of f g] by (simp add: f_eq_def)
  next
    case (6 xs ys)
    have "hash64 x = hash64 y" if "x \<in> set xs" "y \<in> set ys" "json_eq x y" for x y
      using less.hyps [of x y] weight_children(1) [OF that(1,2)] less.prems 6 that by (simp add: list_all_iff del: json_weight.simps)
    then have "list_all2 (\<lambda>x y. hash64 x = hash64 y) xs ys"
      using less.prems(1) 6 list.rel_mono_strong [of json_eq xs ys "\<lambda>x y. hash64 x = hash64 y"] by (simp add: json_eq_arr)
    then have "map hash64 xs = map hash64 ys" by (auto simp: list_all2_conv_all_nth intro: nth_equalityI)
    then show ?thesis using 6 by simp
  next
    case (7 es fs)
    let ?g = "\<lambda>(k, v). splitmix64 (fnv1a64 k XOR (hash64 v + 0x9E3779B97F4A7C15))"
    have d: "distinct (map fst es)" "distinct (map fst fs)" using less.prems 7 by simp_all
    have v: "hash64 (snd e) = hash64 (snd f)" if "e \<in> set es" "f \<in> set fs" "json_eq (snd f) (snd e)" for e f
      using less.hyps [of "snd f" "snd e"] weight_children(4) [of "fst e" "snd e" es "fst f" "snd f" fs]
        less.prems 7 that by (simp add: list_all_iff del: json_weight.simps)
    have "same_entries (\<lambda>u v. json_eq v u) es fs" using less.prems(1) 7 json_eq_obj_entries [OF d] by simp
    then have "list_all2 (\<lambda>e f. ?g e = ?g f) (sort_key fst es) (sort_key fst fs)"
      unfolding same_entries_def by (rule list.rel_mono_strong) (auto simp: case_prod_beta v)
    then have "map ?g (sort_key fst es) = map ?g (sort_key fst fs)"
      by (auto simp: list_all2_conv_all_nth intro: nth_equalityI)
    then have "sum_list (map ?g es) = sum_list (map ?g fs)"
      by (metis (no_types, lifting) mset_map mset_sort sum_mset_sum_list)
    then show ?thesis using 7 by (simp add: foldl_plus)
  qed (use less.prems(1) in simp_all)
qed

section \<open>Properties\<close>

text \<open>
  C14: \<^verbatim>\<open>operator<\<close> is a strict weak ordering on all values, NaNs and objects in any member
  order included: it is asymmetric, and whenever \<open>a < c\<close>, every \<open>b\<close> lies above \<open>a\<close> or below
  \<open>c\<close> (so incomparability is transitive, as \<^verbatim>\<open>std::sort\<close> and ordered containers need).
\<close>
theorem json_less_weak_order:
  "\<not> (json_less a b \<and> json_less b a) \<and> (json_less a b \<or> json_less b c \<or> \<not> json_less a c)"
  using json_less_asym [of a b] json_less_cotrans [of a c b] by blast

theorem json_less_weak_order_witness:
  "\<not> json_less (JStr []) (JInt 1) \<and>
   (json_less (JInt 1) (JFloat f_quiet_nan) \<or> json_less (JFloat f_quiet_nan) (JStr []))"
  using json_less_weak_order [of "JInt 1" "JStr []" "JStr []"]
    json_less_weak_order [of "JInt 1" "JFloat f_quiet_nan" "JStr []"]
  by (simp add: json_less_rank)



text \<open>
  C16: equal values have equal hashes, as hash containers need: member order does not show,
  and the two zeros hash alike.
\<close>
theorem json_hash_respects_equality:
  assumes "json_eq a b" "unique_keys a" "unique_keys b"
  shows "hash64 a = hash64 b"
  using assms by (rule hash_equal)

theorem json_hash_respects_equality_witness:
  "hash64 (JObj [([1], JNull), ([2], JFloat 0)]) = hash64 (JObj [([2], JFloat 0x8000000000000000), ([1], JNull)])"
proof -
  have z: "f_eq 0x8000000000000000 0" by (simp add: f_eq_def f_key_def f_isnan_def f_mant_def f_exp_def)
  then have "json_eq (JObj [([1], JNull), ([2], JFloat 0)]) (JObj [([2], JFloat 0x8000000000000000), ([1], JNull)])"
    by (simp add: json_eq_obj entries_in_def)
  then show ?thesis by (rule json_hash_respects_equality) simp_all
qed

end
