(* ===== verification/Path.thy ===== *)
theory Path
  imports JsonOps Errors
begin

text \<open>
  Path access: the dotted path grammar and the walker of \<^verbatim>\<open>src/path.cpp\<close>, and its twin with
  structured errors in \<^verbatim>\<open>src/access.cpp\<close>.  A \<^verbatim>\<open>Json *\<close> into a document is the list of child
  positions that leads to it, so the walkers return an address together with the node.
\<close>

section \<open>Nodes inside a document\<close>

fun children :: "jvalue \<Rightarrow> jvalue list" where
  "children (JArr xs) = xs"
| "children (JObj es) = map snd es"
| "children _ = []"

fun node_at :: "jvalue \<Rightarrow> nat list \<Rightarrow> jvalue option" where
  "node_at v [] = Some v"
| "node_at v (p # ps) = (if p < length (children v) then node_at (children v ! p) ps else None)"

section \<open>parse_path\<close>

datatype path_step = Key bytes | Index nat

type_synonym path = "path_step list"

definition path_error :: "string \<Rightarrow> exn" where
  "path_error m = InvalidArgument (lit m)"

definition boundary_error :: exn where
  "boundary_error = InvalidArgument (lit ''path: boundary '' @ [0x27, 0x2E, 0x27])"

text \<open>The digits of a bracket: accumulated value and the rest.\<close>

fun read_digits :: "nat \<Rightarrow> bytes \<Rightarrow> exn + (nat \<times> bytes)" where
  "read_digits idx [] = Inr (idx, [])"
| "read_digits idx (c # r) =
     (if is_dec_digit c then
        if (SIZE_MAX - 9) div 10 < idx then Inl (path_error ''path: index overflow'')
        else read_digits (idx * 10 + digit_val c) r
      else Inr (idx, c # r))"

lemma read_digits_length: "read_digits idx p = Inr (i, r) \<Longrightarrow> length r \<le> length p"
  by (induction idx p rule: read_digits.induct) (auto split: if_splits)

function read_brackets :: "bytes \<Rightarrow> path \<Rightarrow> exn + (path \<times> bytes)" where
  "read_brackets p steps =
     (if p = [] \<or> hd p \<noteq> 0x5B then Inr (steps, p)
      else
        (case read_digits 0 (tl p) of
           Inl e \<Rightarrow> Inl e
         | Inr (idx, r) \<Rightarrow>
             if length r = length (tl p) then Inl (path_error ''path: empty index'')
             else if r = [] \<or> hd r \<noteq> 0x5D then Inl (path_error ''path: invalid index'')
             else read_brackets (tl r) (steps @ [Index idx])))"
  by pat_completeness auto
termination
  by (relation "measure (\<lambda>(p, steps). length p)") (auto dest!: read_digits_length simp: neq_Nil_conv)

declare read_brackets.simps [simp del]

definition key_run :: "bytes \<Rightarrow> bytes" where
  "key_run p = takeWhile (\<lambda>c. c \<noteq> 0x2E \<and> c \<noteq> 0x5B) p"

lemma read_brackets_length: "read_brackets p steps = Inr (s, r) \<Longrightarrow> length r \<le> length p"
proof (induction p steps rule: read_brackets.induct)
  case (1 p steps)
  show ?case
  proof (cases "p = [] \<or> hd p \<noteq> 0x5B")
    case True
    then show ?thesis using 1(2) by (subst (asm) read_brackets.simps) auto
  next
    case False
    then obtain idx q where d: "read_digits 0 (tl p) = Inr (idx, q)" "length q \<noteq> length (tl p)" "\<not> (q = [] \<or> hd q \<noteq> 0x5D)"
        "read_brackets (tl q) (steps @ [Index idx]) = Inr (s, r)"
      using 1(2) by (subst (asm) read_brackets.simps) (auto split: sum.splits if_splits)
    then have "length r \<le> length (tl q)" using 1(1) [OF False d(1) refl d(2,3)] by simp
    then show ?thesis using read_digits_length [OF d(1)] by simp
  qed
qed

function read_segments :: "bool \<Rightarrow> bytes \<Rightarrow> path \<Rightarrow> exn + path" where
  "read_segments via_dot p steps =
     (if p = [] then Inr steps
      else
        (let key = key_run p;
             steps = (if key \<noteq> [] \<or> via_dot then steps @ [Key key] else steps)
         in case read_brackets (drop (length key) p) steps of
              Inl e \<Rightarrow> Inl e
            | Inr (steps, r) \<Rightarrow>
                if r = [] then read_segments False [] steps
                else if hd r \<noteq> 0x2E then Inl (path_error ''path: junk after bracket'')
                else read_segments True (tl r) steps))"
  by pat_completeness auto
termination
  by (relation "measure (\<lambda>(via_dot, p, steps). length p)") (auto dest!: read_brackets_length simp: neq_Nil_conv)

declare read_segments.simps [simp del]

definition parse_path :: "bytes \<Rightarrow> exn + path" where
  "parse_path p =
     (if p = [] then Inr []
      else if hd p = 0x2E \<or> last p = 0x2E then Inl boundary_error
      else read_segments False p [])"

section \<open>The walkers\<close>

text \<open>A key step read as an array index.\<close>

fun to_index_loop :: "nat \<Rightarrow> bytes \<Rightarrow> nat option" where
  "to_index_loop v [] = Some v"
| "to_index_loop v (c # s) =
     (if \<not> is_dec_digit c then None
      else if (SIZE_MAX - 9) div 10 < v then None
      else to_index_loop (v * 10 + digit_val c) s)"

definition to_index :: "bytes \<Rightarrow> nat option" where
  "to_index s = (if s = [] then None else to_index_loop 0 s)"

text \<open>The position of the child a step denotes; \<^verbatim>\<open>at\<close> of the container checks.\<close>

definition object_pos :: "jentries \<Rightarrow> bytes \<Rightarrow> exn + nat" where
  "object_pos es key =
     (case sweep_slot (map fst es) key of
        Some p \<Rightarrow> Inr p | None \<Rightarrow> Inl (OutOfRange (lit ''json key not found'')))"

definition array_pos :: "jvalue list \<Rightarrow> nat \<Rightarrow> exn + nat" where
  "array_pos xs idx = (if idx < length xs then Inr idx else Inl (OutOfRange (lit ''vector'')))"

definition hop :: "jvalue \<Rightarrow> path_step \<Rightarrow> exn + nat" where
  "hop node step =
     (case step of
        Key key \<Rightarrow>
          (case node of
             JObj es \<Rightarrow> object_pos es key
           | JArr xs \<Rightarrow>
               (case to_index key of
                  None \<Rightarrow> Inl (OutOfRange (lit ''not a valid array index''))
                | Some idx \<Rightarrow> array_pos xs idx)
           | _ \<Rightarrow> Inl (TypeError (lit ''expected object'')))
      | Index idx \<Rightarrow>
          (case node of
             JArr xs \<Rightarrow> array_pos xs idx
           | JObj es \<Rightarrow> object_pos es (dec idx)
           | _ \<Rightarrow> Inl (TypeError (lit ''expected array''))))"

fun walk :: "jvalue \<Rightarrow> path \<Rightarrow> exn + (nat list \<times> jvalue)" where
  "walk node [] = Inr ([], node)"
| "walk node (s # ss) =
     (case hop node s of
        Inl e \<Rightarrow> Inl e
      | Inr p \<Rightarrow> map_sum id (\<lambda>(ps, v). (p # ps, v)) (walk (children node ! p) ss))"

definition at_path :: "jvalue \<Rightarrow> bytes \<Rightarrow> exn + (nat list \<times> jvalue)" where
  "at_path root p = (case parse_path p of Inl e \<Rightarrow> Inl e | Inr steps \<Rightarrow> walk root steps)"

text \<open>\<^verbatim>\<open>find_path\<close> catches the two walker exceptions; a malformed path still throws.\<close>

definition caught :: "exn + 'a \<Rightarrow> exn + 'a option" where
  "caught r =
     (case r of
        Inr x \<Rightarrow> Inr (Some x)
      | Inl (TypeError _) \<Rightarrow> Inr None
      | Inl (OutOfRange _) \<Rightarrow> Inr None
      | Inl (InvalidArgument m) \<Rightarrow> Inl (InvalidArgument m))"

definition find_path_steps :: "jvalue \<Rightarrow> path \<Rightarrow> exn + (nat list \<times> jvalue) option" where
  "find_path_steps root steps = caught (walk root steps)"

definition find_path :: "jvalue \<Rightarrow> bytes \<Rightarrow> exn + (nat list \<times> jvalue) option" where
  "find_path root p = (case parse_path p of Inl e \<Rightarrow> Inl e | Inr steps \<Rightarrow> find_path_steps root steps)"

definition contains_steps :: "jvalue \<Rightarrow> path \<Rightarrow> exn + bool" where
  "contains_steps root steps = map_sum id (\<lambda>r. r \<noteq> None) (caught (walk root steps))"

definition contains_path :: "jvalue \<Rightarrow> bytes \<Rightarrow> exn + bool" where
  "contains_path root p = (case parse_path p of Inl e \<Rightarrow> Inl e | Inr steps \<Rightarrow> contains_steps root steps)"

section \<open>Structured access errors\<close>

datatype access_kind = Missing | IndexOut | KindMismatch | InvalidIndex | MalformedPath

record access_error =
  ae_kind :: access_kind
  ae_path :: bytes
  ae_expected :: bytes
  ae_actual :: bytes
  ae_hop :: nat
  ae_text :: bytes

text \<open>The constructor renders the message.\<close>

definition access_text :: "access_kind \<Rightarrow> bytes \<Rightarrow> bytes \<Rightarrow> bytes \<Rightarrow> bytes" where
  "access_text k path expected actual =
     (case k of
        Missing \<Rightarrow> lit ''missing key: '' @ path
      | IndexOut \<Rightarrow> lit ''index out of range: '' @ path
      | KindMismatch \<Rightarrow>
          lit ''type mismatch at '' @ path @ lit '': expected '' @ expected @ lit '', got '' @ actual
      | InvalidIndex \<Rightarrow> lit ''invalid array index: '' @ path
      | MalformedPath \<Rightarrow> lit ''malformed path: '' @ path)"

definition access_failure :: "access_kind \<Rightarrow> bytes \<Rightarrow> bytes \<Rightarrow> bytes \<Rightarrow> nat \<Rightarrow> access_error" where
  "access_failure k path expected actual i =
     \<lparr>ae_kind = k, ae_path = path, ae_expected = expected, ae_actual = actual, ae_hop = i,
      ae_text = access_text k path expected actual\<rparr>"

fun type_name :: "'s json \<Rightarrow> bytes" where
  "type_name JNull = lit ''null''"
| "type_name (JBool _) = lit ''boolean''"
| "type_name (JInt _) = lit ''integer''"
| "type_name (JFloat _) = lit ''number''"
| "type_name (JStr _) = lit ''string''"
| "type_name (JArr _) = lit ''array''"
| "type_name (JObj _) = lit ''object''"

definition render_step :: "bytes \<Rightarrow> path_step \<Rightarrow> bytes" where
  "render_step out step =
     (case step of
        Key key \<Rightarrow> (if out \<noteq> [] then out @ [0x2E] else out) @ key
      | Index idx \<Rightarrow> out @ [0x5B] @ dec idx @ [0x5D])"

definition render_path :: "path \<Rightarrow> bytes" where
  "render_path p = foldl render_step [] p"

text \<open>\<open>prefix\<close> holds the steps done so far, the failing hop included.\<close>

definition hop_result :: "jvalue \<Rightarrow> path_step \<Rightarrow> path \<Rightarrow> nat \<Rightarrow> access_error + nat" where
  "hop_result node step prefix i =
     (case step of
        Key key \<Rightarrow>
          (case node of
             JObj es \<Rightarrow>
               (case sweep_slot (map fst es) key of
                  None \<Rightarrow> Inl (access_failure Missing (render_path prefix) (lit ''object'') [] i)
                | Some p \<Rightarrow> Inr p)
           | JArr xs \<Rightarrow>
               (case to_index key of
                  None \<Rightarrow> Inl (access_failure InvalidIndex (render_path prefix) (lit ''array'') [] i)
                | Some idx \<Rightarrow>
                    if length xs \<le> idx
                    then Inl (access_failure IndexOut (render_path prefix) (lit ''array'') [] i)
                    else Inr idx)
           | _ \<Rightarrow> Inl (access_failure KindMismatch (render_path prefix) (lit ''object'') (type_name node) i))
      | Index idx \<Rightarrow>
          (case node of
             JArr xs \<Rightarrow>
               (if length xs \<le> idx
                then Inl (access_failure IndexOut (render_path prefix) (lit ''array'') [] i)
                else Inr idx)
           | JObj es \<Rightarrow>
               (case sweep_slot (map fst es) (dec idx) of
                  None \<Rightarrow> Inl (access_failure Missing (render_path prefix) (lit ''object'') [] i)
                | Some p \<Rightarrow> Inr p)
           | _ \<Rightarrow> Inl (access_failure KindMismatch (render_path prefix) (lit ''array'') (type_name node) i)))"

fun walk_result :: "jvalue \<Rightarrow> path \<Rightarrow> path \<Rightarrow> nat \<Rightarrow> access_error + (nat list \<times> jvalue)" where
  "walk_result node prefix [] i = Inr ([], node)"
| "walk_result node prefix (s # ss) i =
     (case hop_result node s (prefix @ [s]) i of
        Inl e \<Rightarrow> Inl e
      | Inr p \<Rightarrow>
          map_sum id (\<lambda>(ps, v). (p # ps, v)) (walk_result (children node ! p) (prefix @ [s]) ss (i + 1)))"

definition find_steps_result :: "jvalue \<Rightarrow> path \<Rightarrow> access_error + (nat list \<times> jvalue)" where
  "find_steps_result root steps = walk_result root [] steps 0"

definition find_path_result :: "jvalue \<Rightarrow> bytes \<Rightarrow> access_error + (nat list \<times> jvalue)" where
  "find_path_result root p =
     (case parse_path p of
        Inl _ \<Rightarrow> Inl (access_failure MalformedPath p [] [] SIZE_MAX)
      | Inr steps \<Rightarrow> walk_result root [] steps 0)"

text \<open>Typed reads at a path; \<open>read\<close> is the matching \<^verbatim>\<open>try_as\<close> or \<^verbatim>\<open>try_get\<close>.\<close>

definition extract_as :: "(jvalue \<Rightarrow> 'a option) \<Rightarrow> string \<Rightarrow> jvalue \<Rightarrow> bytes \<Rightarrow> access_error + 'a" where
  "extract_as read expected node display =
     (case read node of
        None \<Rightarrow> Inl (access_failure KindMismatch display (lit expected) (type_name node) SIZE_MAX)
      | Some v \<Rightarrow> Inr v)"

definition get_path :: "(jvalue \<Rightarrow> 'a option) \<Rightarrow> string \<Rightarrow> jvalue \<Rightarrow> bytes \<Rightarrow> access_error + 'a" where
  "get_path read expected root p =
     (case find_path_result root p of
        Inl e \<Rightarrow> Inl e
      | Inr (_, node) \<Rightarrow> extract_as read expected node p)"

definition get_path_bool where "get_path_bool = get_path try_as_boolean ''boolean''"
definition get_path_int where "get_path_int = get_path try_as_int ''integer''"
definition get_path_double where "get_path_double = get_path try_get_double ''number''"
definition get_path_string where "get_path_string = get_path try_as_string ''string''"

section \<open>Bounded decimal numbers\<close>

text \<open>The largest value the overflow test lets through.\<close>

definition index_limit :: nat where
  "index_limit = (SIZE_MAX - 9) div 10 * 10 + 9"

definition digits_from :: "nat \<Rightarrow> bytes \<Rightarrow> nat" where
  "digits_from v ds = foldl (\<lambda>v d. v * 10 + digit_val d) v ds"

lemma digits_from_simps [simp]:
  "digits_from v [] = v" "digits_from v (d # ds) = digits_from (v * 10 + digit_val d) ds"
  by (simp_all add: digits_from_def)

lemma digits_from_0: "digits_from 0 ds = digits_val ds"
  by (simp add: digits_from_def digits_val_def)

lemma digits_from_ge: "v \<le> digits_from v ds"
proof (induction ds arbitrary: v)
  case (Cons d ds)
  then have "v * 10 + digit_val d \<le> digits_from v (d # ds)" by simp
  then show ?case by linarith
qed simp

lemma limit_step: "is_dec_digit d \<Longrightarrow> v * 10 + digit_val d \<le> index_limit \<longleftrightarrow> v \<le> (SIZE_MAX - 9) div 10"
  using digit_val_le [of d] by (auto simp: index_limit_def SIZE_MAX_def)

lemma limit_run:
  "is_dec_digit d \<Longrightarrow> digits_from (v * 10 + digit_val d) ds \<le> index_limit \<Longrightarrow> v \<le> (SIZE_MAX - 9) div 10"
  using limit_step digits_from_ge [of "v * 10 + digit_val d" ds] by (metis le_trans)

lemma to_index_loop_exact:
  "to_index_loop v ds =
     (if (\<forall>d \<in> set ds. is_dec_digit d) \<and> (ds = [] \<or> digits_from v ds \<le> index_limit)
      then Some (digits_from v ds) else None)"
proof (induction v ds rule: to_index_loop.induct)
  case (2 v c s)
  show ?case
  proof (cases "is_dec_digit c \<and> v \<le> (SIZE_MAX - 9) div 10")
    case True
    then show ?thesis using 2 limit_step [of c v] by auto
  next
    case False
    then show ?thesis using limit_run [of c v s] by auto
  qed
qed simp

lemma read_digits_exact:
  assumes "\<forall>d \<in> set ds. is_dec_digit d" "r = [] \<or> \<not> is_dec_digit (hd r)"
  shows "read_digits v (ds @ r) =
     (if ds = [] \<or> digits_from v ds \<le> index_limit then Inr (digits_from v ds, r)
      else Inl (path_error ''path: index overflow''))"
  using assms
proof (induction ds arbitrary: v)
  case Nil
  then show ?case by (cases r) auto
next
  case (Cons d ds)
  show ?case
  proof (cases "v \<le> (SIZE_MAX - 9) div 10")
    case True
    then show ?thesis using Cons limit_step [of d v] by auto
  next
    case False
    then show ?thesis using Cons.prems limit_run [of d v ds] by auto
  qed
qed

lemma to_index_exact:
  "to_index s = Some n \<longleftrightarrow> s \<noteq> [] \<and> (\<forall>d \<in> set s. is_dec_digit d) \<and> n = digits_val s \<and> n \<le> index_limit"
  by (auto simp: to_index_def to_index_loop_exact digits_from_0)

section \<open>Writing a path down\<close>

definition step_text :: "path_step \<Rightarrow> bytes" where
  "step_text s = (case s of Key k \<Rightarrow> 0x2E # k | Index i \<Rightarrow> 0x5B # dec i @ [0x5D])"

definition steps_text :: "path \<Rightarrow> bytes" where
  "steps_text ss = concat (map step_text ss)"

lemma steps_text_simps [simp]:
  "steps_text [] = []" "steps_text (Key k # ss) = 0x2E # k @ steps_text ss"
  "steps_text (Index i # ss) = 0x5B # dec i @ 0x5D # steps_text ss"
  by (simp_all add: steps_text_def step_text_def)

text \<open>Steps the grammar can express.\<close>

definition step_ok :: "path_step \<Rightarrow> bool" where
  "step_ok s = (case s of Key k \<Rightarrow> 0x2E \<notin> set k \<and> 0x5B \<notin> set k | Index i \<Rightarrow> i \<le> index_limit)"

definition path_ok :: "path \<Rightarrow> bool" where
  "path_ok ss \<longleftrightarrow> (\<forall>s \<in> set ss. step_ok s) \<and> (ss \<noteq> [] \<longrightarrow> hd ss \<noteq> Key [] \<and> last ss \<noteq> Key [])"

lemma read_brackets_end: "p = [] \<or> hd p \<noteq> 0x5B \<Longrightarrow> read_brackets p acc = Inr (acc, p)"
  by (subst read_brackets.simps) simp

lemma read_brackets_step:
  assumes "i \<le> index_limit"
  shows "read_brackets (0x5B # dec i @ 0x5D # r) acc = read_brackets r (acc @ [Index i])"
proof -
  have d: "read_digits 0 (dec i @ 0x5D # r) = Inr (i, 0x5D # r)"
    using read_digits_exact [of "dec i" "0x5D # r" 0] dec_digits [of i] assms
    by (simp add: digits_from_0 digits_val_dec is_dec_digit_def)
  have "length (dec i) \<noteq> 0" using dec_not_Nil by simp
  then show ?thesis by (subst read_brackets.simps) (simp add: d)
qed

text \<open>A run of index steps up to the next key.\<close>

lemma read_brackets_text:
  assumes "\<forall>s \<in> set ss. step_ok s"
  shows "\<exists>ix ts. ss = ix @ ts \<and> (ts = [] \<or> (\<exists>k ts'. ts = Key k # ts')) \<and>
    read_brackets (steps_text ss) acc = Inr (acc @ ix, steps_text ts)"
  using assms
proof (induction ss arbitrary: acc)
  case Nil
  show ?case by (intro exI [of _ "[]"]) (simp add: read_brackets_end)
next
  case (Cons s ss)
  show ?case
  proof (cases s)
    case (Key k)
    then show ?thesis by (intro exI [of _ "[]"] exI [of _ "s # ss"]) (simp add: read_brackets_end)
  next
    case (Index i)
    obtain ix ts where i: "ss = ix @ ts" "ts = [] \<or> (\<exists>k ts'. ts = Key k # ts')"
      "read_brackets (steps_text ss) (acc @ [Index i]) = Inr ((acc @ [Index i]) @ ix, steps_text ts)"
      using Cons.IH [of "acc @ [Index i]"] Cons.prems by auto
    then show ?thesis
      using Index Cons.prems read_brackets_step [of i "steps_text ss" acc]
      by (intro exI [of _ "s # ix"] exI [of _ ts]) (simp add: step_ok_def)
  qed
qed

lemma steps_text_hd: "steps_text ss = [] \<or> hd (steps_text ss) = 0x2E \<or> hd (steps_text ss) = 0x5B"
proof (cases ss)
  case (Cons s r)
  then show ?thesis by (cases s) simp_all
qed simp

lemma key_run_text:
  assumes "0x2E \<notin> set k" "0x5B \<notin> set k"
  shows "key_run (k @ steps_text ss) = k"
proof -
  have "takeWhile (\<lambda>c. c \<noteq> 0x2E \<and> c \<noteq> 0x5B) (k @ steps_text ss) = k @ takeWhile (\<lambda>c. c \<noteq> 0x2E \<and> c \<noteq> 0x5B) (steps_text ss)"
    by (rule takeWhile_append2) (use assms in auto)
  moreover have "takeWhile (\<lambda>c. c \<noteq> 0x2E \<and> c \<noteq> 0x5B) (steps_text ss) = []"
    using steps_text_hd [of ss] by (cases "steps_text ss") auto
  ultimately show ?thesis by (simp add: key_run_def)
qed

lemma read_segments_end: "read_segments b [] acc = Inr acc"
  by (subst read_segments.simps) simp

text \<open>One segment: the key, its brackets, then the next segment behind a dot.\<close>

lemma read_segments_text:
  assumes "\<forall>s \<in> set ss. step_ok s" "step_ok (Key k)" "ss \<noteq> [] \<longrightarrow> last ss \<noteq> Key []" "k \<noteq> [] \<or> ss \<noteq> []"
    and "via_dot \<or> k \<noteq> []"
  shows "read_segments via_dot (k @ steps_text ss) acc = Inr (acc @ Key k # ss)"
  using assms
proof (induction "length ss" arbitrary: ss k acc via_dot rule: less_induct)
  case less
  have run: "key_run (k @ steps_text ss) = k" using less.prems(2) by (intro key_run_text) (auto simp: step_ok_def)
  obtain ix ts where b: "ss = ix @ ts" "ts = [] \<or> (\<exists>k ts'. ts = Key k # ts')"
      "read_brackets (steps_text ss) (acc @ [Key k]) = Inr ((acc @ [Key k]) @ ix, steps_text ts)"
    using read_brackets_text [OF less.prems(1)] by blast
  have ne: "k @ steps_text ss \<noteq> []"
    using less.prems(4) by (cases ss) (auto simp: steps_text_def step_text_def split: path_step.splits)
  have go: "read_segments via_dot (k @ steps_text ss) acc =
      (if steps_text ts = [] then read_segments False [] (acc @ Key k # ix)
       else if hd (steps_text ts) \<noteq> 0x2E then Inl (path_error ''path: junk after bracket'')
       else read_segments True (tl (steps_text ts)) (acc @ Key k # ix))"
    using ne less.prems(5) b(3) by (subst read_segments.simps) (auto simp: run Let_def)
  show ?case
  proof (cases ts)
    case Nil
    then show ?thesis using go b(1) by (simp add: read_segments_end)
  next
    case (Cons s ts')
    then obtain k' where ts: "ts = Key k' # ts'" using b(2) by auto
    have "read_segments True (k' @ steps_text ts') (acc @ Key k # ix) = Inr ((acc @ Key k # ix) @ Key k' # ts')"
      by (rule less.hyps) (use less.prems b(1) ts in \<open>auto split: if_splits\<close>)
    then show ?thesis using go ts b(1) by simp
  qed
qed

text \<open>The rendered form, which differs from the step texts only in front.\<close>

lemma render_path_steps:
  "path_ok ss \<Longrightarrow> ss \<noteq> [] \<Longrightarrow>
     render_path ss = (case ss of Key k # r \<Rightarrow> k @ steps_text r | _ \<Rightarrow> steps_text ss)"
proof -
  have f: "foldl render_step out ss = out @ steps_text ss" if "out \<noteq> []" for out ss
    using that
  proof (induction ss arbitrary: out)
    case (Cons s ss)
    then show ?case by (cases s) (simp_all add: render_step_def)
  qed simp
  assume "path_ok ss" "ss \<noteq> []"
  then show ?thesis
    by (cases ss; cases "hd ss") (auto simp: path_ok_def render_path_def render_step_def f)
qed

lemma last_steps_text:
  "ss \<noteq> [] \<Longrightarrow> last ss \<noteq> Key [] \<Longrightarrow> \<forall>s \<in> set ss. step_ok s \<Longrightarrow> last (steps_text ss) \<noteq> 0x2E"
proof (induction ss rule: rev_induct)
  case (snoc s ss)
  then have "last (steps_text (ss @ [s])) = last (step_text s)"
    by (cases s) (simp_all add: steps_text_def step_text_def)
  then show ?case using snoc.prems last_in_set by (cases s) (force simp: step_text_def step_ok_def)+
qed simp

lemma parse_render:
  assumes "path_ok ss"
  shows "parse_path (render_path ss) = Inr ss"
proof (cases ss)
  case Nil
  then show ?thesis by (simp add: parse_path_def render_path_def)
next
  case (Cons s r)
  have ok: "\<forall>s \<in> set ss. step_ok s" "hd ss \<noteq> Key []" "last ss \<noteq> Key []" using assms Cons by (auto simp: path_ok_def)
  show ?thesis
  proof (cases s)
    case (Key k)
    then have k: "k \<noteq> []" "0x2E \<notin> set k" "step_ok (Key k)" using ok Cons by (auto simp: step_ok_def)
    have t: "render_path ss = k @ steps_text r" using render_path_steps [OF assms] Cons Key by simp
    have l: "last (k @ steps_text r) \<noteq> 0x2E"
    proof (cases "steps_text r = []")
      case True
      then show ?thesis using k(1,2) last_in_set [of k] by (metis append_Nil2)
    next
      case False
      then have "r \<noteq> []" by auto
      then show ?thesis using last_steps_text [of r] ok Cons False by (auto split: if_splits)
    qed
    have h: "hd (k @ steps_text r) \<noteq> 0x2E" using k(1,2) by (cases k) auto
    have "read_segments False (k @ steps_text r) [] = Inr ([] @ Key k # r)"
      by (rule read_segments_text) (use ok Cons k in \<open>auto split: if_splits\<close>)
    then show ?thesis unfolding parse_path_def t using Cons Key k(1) l h by simp
  next
    case (Index i)
    have t: "render_path ss = steps_text ss" using render_path_steps [OF assms] Cons Index by simp
    obtain ix ts where b: "ss = ix @ ts" "ts = [] \<or> (\<exists>k ts'. ts = Key k # ts')"
        "read_brackets (steps_text ss) [] = Inr (ix, steps_text ts)"
      using read_brackets_text [OF ok(1), of "[]"] by auto
    have p: "steps_text ss \<noteq> []" "hd (steps_text ss) = 0x5B" using Cons Index by simp_all
    then have kr: "key_run (steps_text ss) = []" by (cases "steps_text ss") (simp_all add: key_run_def)
    have go: "read_segments False (steps_text ss) [] =
      (if steps_text ts = [] then read_segments False [] ix
       else if hd (steps_text ts) \<noteq> 0x2E then Inl (path_error ''path: junk after bracket'')
       else read_segments True (tl (steps_text ts)) ix)"
      using p b(3) by (subst read_segments.simps) (auto simp: kr Let_def)
    have "read_segments False (steps_text ss) [] = Inr ss"
    proof (cases ts)
      case Nil
      then show ?thesis using go b(1) by (simp add: read_segments_end)
    next
      case (Cons s' ts')
      then obtain k where ts: "ts = Key k # ts'" using b(2) by auto
      have "read_segments True (k @ steps_text ts') ix = Inr (ix @ Key k # ts')"
        by (rule read_segments_text) (use ok b(1) ts in \<open>auto split: if_splits\<close>)
      then show ?thesis using go ts b(1) by simp
    qed
    then show ?thesis unfolding parse_path_def t using p last_steps_text [of ss] ok Cons by simp
  qed
qed

section \<open>The walkers agree\<close>

lemma hop_child: "hop node s = Inr p \<Longrightarrow> p < length (children node)"
  by (auto simp: hop_def object_pos_def array_pos_def sweep_slot_def split: path_step.splits json.splits option.splits if_splits)

lemma walk_node_at: "walk node ss = Inr (ps, v) \<Longrightarrow> node_at node ps = Some v"
proof (induction node ss arbitrary: ps v rule: walk.induct)
  case (2 node s ss)
  then show ?case by (auto split: sum.splits simp: map_sum_def hop_child)
qed simp

lemma walk_append:
  "walk node (ss @ ts) =
     (case walk node ss of Inl e \<Rightarrow> Inl e
      | Inr (ps, v) \<Rightarrow> map_sum id (\<lambda>(qs, w). (ps @ qs, w)) (walk v ts))"
proof (induction node ss rule: walk.induct)
  case (1 node)
  show ?case by (cases "walk node ts") auto
next
  case (2 node s ss)
  show ?case
  proof (cases "hop node s")
    case (Inr p)
    note IH = 2 [OF Inr]
    show ?thesis
    proof (cases "walk (children node ! p) ss")
      case (Inl e)
      then show ?thesis using IH Inr by simp
    next
      case w: (Inr pv)
      obtain ps v where "pv = (ps, v)" by (cases pv)
      then show ?thesis using IH Inr w by (cases "walk v ts") auto
    qed
  qed simp
qed

text \<open>The exception a structured error stands for.\<close>

definition exn_matches :: "access_kind \<Rightarrow> exn \<Rightarrow> bool" where
  "exn_matches k e = (if k = KindMismatch then \<exists>m. e = TypeError m else k \<noteq> MalformedPath \<and> (\<exists>m. e = OutOfRange m))"

lemma hop_result_agrees:
  "hop_result node s prefix i = Inr p \<longleftrightarrow> hop node s = Inr p"
  "hop_result node s prefix i = Inl e \<Longrightarrow>
     (\<exists>x. hop node s = Inl x \<and> exn_matches (ae_kind e) x) \<and> ae_hop e = i \<and> ae_path e = render_path prefix"
  by (cases s; cases node;
      auto simp: hop_result_def hop_def object_pos_def array_pos_def access_failure_def exn_matches_def
        split: option.splits if_splits)+

lemma map_sum_Inr: "map_sum id g x = Inr r \<longleftrightarrow> (\<exists>y. x = Inr y \<and> g y = r)"
  by (cases x) auto

lemma walk_result_Inr: "walk_result node prefix ss i = Inr r \<longleftrightarrow> walk node ss = Inr r"
proof (induction node prefix ss i arbitrary: r rule: walk_result.induct)
  case (2 node prefix s ss i)
  show ?case
  proof (cases "hop node s")
    case (Inl e)
    then obtain e' where "hop_result node s (prefix @ [s]) i = Inl e'"
      using hop_result_agrees(1) [of node s "prefix @ [s]" i] by (cases "hop_result node s (prefix @ [s]) i") auto
    then show ?thesis using Inl by simp
  next
    case (Inr p)
    then have h: "hop_result node s (prefix @ [s]) i = Inr p" using hop_result_agrees(1) by simp
    show ?thesis by (simp add: Inr h map_sum_Inr 2 [OF h, simplified])
  qed
qed simp

lemma walk_result_Inl:
  "walk_result node prefix ss i = Inl e \<Longrightarrow>
     \<exists>j ps v x. j < length ss \<and> walk node (take j ss) = Inr (ps, v) \<and> hop v (ss ! j) = Inl x \<and>
       walk node ss = Inl x \<and> exn_matches (ae_kind e) x \<and> ae_hop e = i + j \<and>
       ae_path e = render_path (prefix @ take (Suc j) ss)"
proof (induction node prefix ss i rule: walk_result.induct)
  case (2 node prefix s ss i)
  show ?case
  proof (cases "hop_result node s (prefix @ [s]) i")
    case (Inl e')
    then have "e' = e" using 2(2) by simp
    then obtain x where "hop node s = Inl x" "exn_matches (ae_kind e) x" "ae_hop e = i" "ae_path e = render_path (prefix @ [s])"
      using hop_result_agrees(2) [OF Inl] by blast
    then show ?thesis by (intro exI [of _ 0]) simp
  next
    case (Inr p)
    then have h: "hop node s = Inr p" using hop_result_agrees(1) by simp
    have "walk_result (children node ! p) (prefix @ [s]) ss (i + 1) = Inl e"
      using 2(2) Inr by (cases "walk_result (children node ! p) (prefix @ [s]) ss (i + 1)") auto
    from 2(1) [OF Inr this] obtain j ps v x where
      j: "j < length ss" "walk (children node ! p) (take j ss) = Inr (ps, v)" "hop v (ss ! j) = Inl x"
        "walk (children node ! p) ss = Inl x" "exn_matches (ae_kind e) x" "ae_hop e = i + 1 + j"
        "ae_path e = render_path ((prefix @ [s]) @ take (Suc j) ss)"
      by blast
    then show ?thesis using h by (intro exI [of _ "Suc j"]) simp
  qed
qed simp

section \<open>Properties\<close>



text \<open>
  C19: the overflow test is stricter than documented: indices from 18446744073709551610 to
  \<^verbatim>\<open>SIZE_MAX\<close> are rejected, as a bracket and as an all-digit key, although they fit
  \<^verbatim>\<open>size_t\<close>; every smaller index is accepted.
\<close>
theorem index_overflow_bound:
  "(\<forall>i \<le> 18446744073709551609. parse_path (0x5B # dec i @ [0x5D]) = Inr [Index i] \<and> to_index (dec i) = Some i) \<and>
   (\<forall>i. 18446744073709551610 \<le> i \<and> i \<le> SIZE_MAX \<longrightarrow>
      parse_path (0x5B # dec i @ [0x5D]) = Inl (path_error ''path: index overflow'') \<and> to_index (dec i) = None)"
proof (intro conjI allI impI)
  fix i :: nat assume i: "i \<le> 18446744073709551609"
  have "path_ok [Index i]" using i by (simp add: path_ok_def step_ok_def index_limit_def SIZE_MAX_def)
  from parse_render [OF this] show "parse_path (0x5B # dec i @ [0x5D]) = Inr [Index i]"
    by (simp add: render_path_def render_step_def)
  show "to_index (dec i) = Some i"
    using i by (simp add: to_index_exact dec_not_Nil dec_digits digits_val_dec index_limit_def SIZE_MAX_def)
next
  fix i :: nat assume i: "18446744073709551610 \<le> i \<and> i \<le> SIZE_MAX"
  then have b: "\<not> i \<le> index_limit" by (simp add: index_limit_def SIZE_MAX_def)
  have d: "read_digits 0 (dec i @ [0x5D]) = Inl (path_error ''path: index overflow'')"
    using read_digits_exact [of "dec i" "[0x5D]" 0] dec_digits [of i] dec_not_Nil [of i] b
    by (simp add: digits_from_0 digits_val_dec is_dec_digit_def)
  show "parse_path (0x5B # dec i @ [0x5D]) = Inl (path_error ''path: index overflow'')"
    by (simp add: parse_path_def, subst read_segments.simps, simp add: key_run_def, subst read_brackets.simps, simp add: d)
  show "to_index (dec i) = None"
    using b by (metis digits_val_dec not_None_eq to_index_exact)
qed

theorem index_overflow_bound_witness:
  "to_index (dec 18446744073709551609) = Some 18446744073709551609 \<and> to_index (dec SIZE_MAX) = None"
  using index_overflow_bound by (simp add: SIZE_MAX_def)

text \<open>
  C18: \<^verbatim>\<open>at_path\<close>, \<^verbatim>\<open>find_path\<close>, \<^verbatim>\<open>contains\<close> and \<^verbatim>\<open>find_path_result\<close> walk alike: they
  succeed on the same steps with the same node, which is the node at the returned address;
  otherwise the structured error names the first failing hop by its index and by the rendered
  prefix up to it, and its kind says whether the throwing walker raises \<^verbatim>\<open>TypeError\<close> or
  \<^verbatim>\<open>out_of_range\<close> there.
\<close>
theorem walkers_agree:
  "case find_steps_result root steps of
     Inr (addr, v) \<Rightarrow> walk root steps = Inr (addr, v) \<and> node_at root addr = Some v \<and>
       find_path_steps root steps = Inr (Some (addr, v)) \<and> contains_steps root steps = Inr True
   | Inl e \<Rightarrow> \<exists>ps v x. ae_hop e < length steps \<and> walk root (take (ae_hop e) steps) = Inr (ps, v) \<and>
       hop v (steps ! ae_hop e) = Inl x \<and> walk root steps = Inl x \<and> exn_matches (ae_kind e) x \<and>
       ae_path e = render_path (take (Suc (ae_hop e)) steps) \<and>
       find_path_steps root steps = Inr None \<and> contains_steps root steps = Inr False"
proof (cases "find_steps_result root steps")
  case (Inr r)
  obtain ps v where r: "r = (ps, v)" by (cases r)
  then have w: "walk root steps = Inr (ps, v)" using Inr by (simp add: find_steps_result_def walk_result_Inr)
  then show ?thesis
    using Inr r walk_node_at [OF w] by (simp add: find_path_steps_def contains_steps_def caught_def)
next
  case (Inl e)
  then obtain ps v x where w: "ae_hop e < length steps" "walk root (take (ae_hop e) steps) = Inr (ps, v)"
      "hop v (steps ! ae_hop e) = Inl x" "walk root steps = Inl x" "exn_matches (ae_kind e) x"
      "ae_path e = render_path (take (Suc (ae_hop e)) steps)"
    using walk_result_Inl [of root "[]" steps 0 e] by (auto simp: find_steps_result_def)
  then show ?thesis
    using Inl by (cases x) (auto simp: find_path_steps_def contains_steps_def caught_def exn_matches_def split: if_splits)
qed

end
