(* ===== verification/Patch.thy ===== *)
theory Patch
  imports Path
begin

text \<open>
  JSON Pointer, JSON Patch and merge patch (\<^verbatim>\<open>src/patch.cpp\<close>).  The engine works on a
  shadow copy; a \<^verbatim>\<open>Json *\<close> into it is an address as in theory \<^verbatim>\<open>Path\<close>.
\<close>

section \<open>JSON Pointer\<close>

fun unescape_token :: "bytes \<Rightarrow> bytes \<Rightarrow> exn + bytes" where
  "unescape_token out [] = Inr out"
| "unescape_token out (c # r) =
     (if c \<noteq> 0x7E then unescape_token (out @ [c]) r
      else (case r of
              [] \<Rightarrow> Inl (InvalidArgument (lit ''json pointer: trailing '' @ [0x27, 0x7E, 0x27]))
            | e # r' \<Rightarrow>
                if e = 0x30 then unescape_token (out @ [0x7E]) r'
                else if e = 0x31 then unescape_token (out @ [0x2F]) r'
                else Inl (InvalidArgument (lit ''json pointer: bad escape''))))"

text \<open>The token loop behind the leading slash: \<open>find('/')\<close> splits, the last piece ends it.\<close>

function pointer_tokens :: "bytes \<Rightarrow> bytes list \<Rightarrow> exn + bytes list" where
  "pointer_tokens p tokens =
     (let raw = takeWhile (\<lambda>c. c \<noteq> 0x2F) p; rest = dropWhile (\<lambda>c. c \<noteq> 0x2F) p
      in case unescape_token [] raw of
           Inl e \<Rightarrow> Inl e
         | Inr token \<Rightarrow>
             if rest = [] then Inr (tokens @ [token]) else pointer_tokens (tl rest) (tokens @ [token]))"
  by pat_completeness auto
termination
proof (relation "measure (\<lambda>(p, tokens). length p)", goal_cases)
  case (2 p tokens x xa y)
  then have "length xa \<le> length p" "xa \<noteq> []" by (simp_all add: length_dropWhile_le)
  then show ?case by (cases xa) auto
qed simp

declare pointer_tokens.simps [simp del]

definition parse_json_pointer :: "bytes \<Rightarrow> exn + bytes list" where
  "parse_json_pointer p =
     (if p = [] then Inr []
      else if hd p \<noteq> 0x2F
        then Inl (InvalidArgument (lit ''json pointer: must start with '' @ [0x27, 0x2F, 0x27]))
      else pointer_tokens (tl p) [])"

section \<open>Errors and indices\<close>

datatype patch_kind =
    InvalidPatchDocument | UnknownOp | InvalidPointer | PathNotFound | ParentMismatch
  | IndexOutOfRange | InvalidArrayIndex | TestFailed | MoveIntoDescendant | RootOperation

record patch_error =
  pe_kind :: patch_kind
  pe_op_index :: nat
  pe_op :: bytes
  pe_pointer :: bytes
  pe_detail :: bytes

definition make_error :: "patch_kind \<Rightarrow> nat \<Rightarrow> bytes \<Rightarrow> bytes \<Rightarrow> bytes \<Rightarrow> patch_error" where
  "make_error k i op pointer d =
     \<lparr>pe_kind = k, pe_op_index = i, pe_op = op, pe_pointer = pointer, pe_detail = d\<rparr>"

text \<open>The stable name of a kind, and the text of the exception.\<close>

fun patch_error_kind_name :: "patch_kind \<Rightarrow> bytes" where
  "patch_error_kind_name InvalidPatchDocument = lit ''InvalidPatchDocument''"
| "patch_error_kind_name UnknownOp = lit ''UnknownOp''"
| "patch_error_kind_name InvalidPointer = lit ''InvalidPointer''"
| "patch_error_kind_name PathNotFound = lit ''PathNotFound''"
| "patch_error_kind_name ParentMismatch = lit ''TypeMismatch''"
| "patch_error_kind_name IndexOutOfRange = lit ''IndexOutOfRange''"
| "patch_error_kind_name InvalidArrayIndex = lit ''InvalidArrayIndex''"
| "patch_error_kind_name TestFailed = lit ''TestFailed''"
| "patch_error_kind_name MoveIntoDescendant = lit ''MoveIntoDescendant''"
| "patch_error_kind_name RootOperation = lit ''RootOperation''"

definition patch_error_message :: "patch_kind \<Rightarrow> bytes \<Rightarrow> bytes \<Rightarrow> bytes \<Rightarrow> bytes" where
  "patch_error_message k op pointer extra =
     (case k of
        InvalidPatchDocument \<Rightarrow> lit ''invalid patch document''
      | UnknownOp \<Rightarrow> lit ''unknown patch op: '' @ op
      | InvalidPointer \<Rightarrow> lit ''invalid JSON pointer: '' @ pointer
      | PathNotFound \<Rightarrow> lit ''path not found: '' @ pointer
      | ParentMismatch \<Rightarrow> lit ''type mismatch at '' @ pointer
      | IndexOutOfRange \<Rightarrow> lit ''index out of range: '' @ pointer
      | InvalidArrayIndex \<Rightarrow> lit ''invalid array index: '' @ pointer
      | TestFailed \<Rightarrow> lit ''test failed at '' @ pointer
      | MoveIntoDescendant \<Rightarrow> lit ''cannot move into a descendant: '' @ pointer
      | RootOperation \<Rightarrow> lit ''cannot remove or move the document root'') @
     (if extra = [] then [] else lit '': '' @ extra)"

text \<open>A reported error, or an exception that would leave the engine.\<close>

datatype patch_failure = Reported patch_error | Thrown exn

definition strict_index :: "bytes \<Rightarrow> nat option" where
  "strict_index token =
     (if token = [] then None
      else if 1 < length token \<and> hd token = 0x30 then None
      else to_index_loop 0 token)"

definition is_known_op :: "bytes \<Rightarrow> bool" where
  "is_known_op op \<longleftrightarrow> op = lit ''add'' \<or> op = lit ''remove'' \<or> op = lit ''replace'' \<or> op = lit ''move'' \<or>
     op = lit ''copy'' \<or> op = lit ''test''"

definition is_proper_prefix :: "bytes list \<Rightarrow> bytes list \<Rightarrow> bool" where
  "is_proper_prefix from path \<longleftrightarrow> length from < length path \<and> take (length from) path = from"

section \<open>Resolving a pointer\<close>

text \<open>One hop to an existing child, by the kind of the parent.\<close>

definition token_hop :: "jvalue \<Rightarrow> bytes \<Rightarrow> patch_kind + nat" where
  "token_hop node token =
     (case node of
        JObj es \<Rightarrow> (case sweep_slot (map fst es) token of None \<Rightarrow> Inl PathNotFound | Some p \<Rightarrow> Inr p)
      | JArr xs \<Rightarrow>
          (case strict_index token of
             None \<Rightarrow> Inl InvalidArrayIndex
           | Some index \<Rightarrow> if length xs \<le> index then Inl IndexOutOfRange else Inr index)
      | _ \<Rightarrow> Inl ParentMismatch)"

fun resolve_node :: "jvalue \<Rightarrow> bytes list \<Rightarrow> patch_kind + (nat list \<times> jvalue)" where
  "resolve_node cur [] = Inr ([], cur)"
| "resolve_node cur (token # ptr) =
     (case token_hop cur token of
        Inl k \<Rightarrow> Inl k
      | Inr p \<Rightarrow> map_sum id (\<lambda>(ps, v). (p # ps, v)) (resolve_node (children cur ! p) ptr))"

datatype slot_mode = Existing | Insert

record slot =
  sl_parent :: "nat list"
  sl_token :: bytes
  sl_object :: bool
  sl_index :: nat

definition resolve_slot :: "jvalue \<Rightarrow> bytes list \<Rightarrow> slot_mode \<Rightarrow> patch_kind + slot" where
  "resolve_slot root ptr mode =
     (case resolve_node root (butlast ptr) of
        Inl k \<Rightarrow> Inl k
      | Inr (parent, cur) \<Rightarrow>
          (let token = last ptr;
               at = (\<lambda>obj i. \<lparr>sl_parent = parent, sl_token = token, sl_object = obj, sl_index = i\<rparr>)
           in case cur of
                JObj es \<Rightarrow>
                  if mode = Existing \<and> sweep_slot (map fst es) token = None then Inl PathNotFound
                  else Inr (at True 0)
              | JArr xs \<Rightarrow>
                  if token = [0x2D] then
                    (if mode \<noteq> Insert then Inl InvalidArrayIndex else Inr (at False (length xs)))
                  else
                    (case strict_index token of
                       None \<Rightarrow> Inl InvalidArrayIndex
                     | Some index \<Rightarrow>
                         if (if mode = Insert then length xs < index else xs = [] \<or> length xs \<le> index)
                         then Inl IndexOutOfRange
                         else Inr (at False index))
              | _ \<Rightarrow> Inl ParentMismatch))"

section \<open>Applying an operation\<close>

text \<open>Replace the node at an address.\<close>

fun set_child :: "jvalue \<Rightarrow> nat \<Rightarrow> jvalue \<Rightarrow> jvalue" where
  "set_child (JArr xs) p v = JArr (xs[p := v])"
| "set_child (JObj es) p v = JObj (es[p := (fst (es ! p), v)])"
| "set_child node p v = node"

fun update_node :: "jvalue \<Rightarrow> nat list \<Rightarrow> (jvalue \<Rightarrow> jvalue) \<Rightarrow> jvalue" where
  "update_node node [] f = f node"
| "update_node node (p # ps) f = set_child node p (update_node (children node ! p) ps f)"

definition slot_insert :: "slot \<Rightarrow> jvalue \<Rightarrow> jvalue \<Rightarrow> jvalue" where
  "slot_insert s v parent =
     (case parent of
        JObj es \<Rightarrow> JObj (obj_put es (sl_token s) v)
      | JArr xs \<Rightarrow> JArr (take (sl_index s) xs @ v # drop (sl_index s) xs)
      | _ \<Rightarrow> parent)"

definition slot_remove :: "slot \<Rightarrow> jvalue \<Rightarrow> jvalue" where
  "slot_remove s parent =
     (case parent of
        JObj es \<Rightarrow> JObj (del_first es (sl_token s))
      | JArr xs \<Rightarrow> JArr (take (sl_index s) xs @ drop (sl_index s + 1) xs)
      | _ \<Rightarrow> parent)"

definition slot_assign :: "slot \<Rightarrow> jvalue \<Rightarrow> jvalue \<Rightarrow> jvalue" where
  "slot_assign s v parent =
     (case parent of
        JObj es \<Rightarrow> JObj (obj_put es (sl_token s) v)
      | JArr xs \<Rightarrow> JArr (xs[sl_index s := v])
      | _ \<Rightarrow> parent)"

definition slot_value :: "slot \<Rightarrow> jvalue \<Rightarrow> jvalue" where
  "slot_value s parent =
     (case parent of
        JObj es \<Rightarrow> the (map_of es (sl_token s))
      | JArr xs \<Rightarrow> xs ! sl_index s
      | _ \<Rightarrow> JNull)"

definition reported :: "patch_kind \<Rightarrow> nat \<Rightarrow> bytes \<Rightarrow> bytes \<Rightarrow> patch_failure" where
  "reported k i op pointer = Reported (make_error k i op pointer [])"

definition invalid_document :: "nat \<Rightarrow> bytes \<Rightarrow> bytes \<Rightarrow> string \<Rightarrow> patch_failure" where
  "invalid_document i op pointer m = Reported (make_error InvalidPatchDocument i op pointer (lit m))"

definition insert_at :: "jvalue \<Rightarrow> bytes list \<Rightarrow> bytes \<Rightarrow> jvalue \<Rightarrow> nat \<Rightarrow> bytes \<Rightarrow> patch_failure + jvalue" where
  "insert_at shadow ptr pointer v i op =
     (if ptr = [] then Inr v
      else (case resolve_slot shadow ptr Insert of
              Inl k \<Rightarrow> Inl (reported k i op pointer)
            | Inr s \<Rightarrow> Inr (update_node shadow (sl_parent s) (slot_insert s v))))"

definition member_string :: "jentries \<Rightarrow> string \<Rightarrow> bytes option" where
  "member_string obj name = Option.bind (map_of obj (lit name)) try_as_string"

text \<open>The six operations, after \<^verbatim>\<open>op\<close> and the pointers are read.\<close>

definition do_remove :: "jvalue \<Rightarrow> bytes list \<Rightarrow> bytes \<Rightarrow> nat \<Rightarrow> bytes \<Rightarrow> patch_failure + jvalue" where
  "do_remove shadow path path_text i op =
     (if path = [] then Inl (reported RootOperation i op path_text)
      else (case resolve_slot shadow path Existing of
              Inl k \<Rightarrow> Inl (reported k i op path_text)
            | Inr s \<Rightarrow> Inr (update_node shadow (sl_parent s) (slot_remove s))))"

definition do_replace :: "jvalue \<Rightarrow> bytes list \<Rightarrow> bytes \<Rightarrow> jvalue \<Rightarrow> nat \<Rightarrow> bytes \<Rightarrow> patch_failure + jvalue" where
  "do_replace shadow path path_text v i op =
     (if path = [] then Inr v
      else (case resolve_slot shadow path Existing of
              Inl k \<Rightarrow> Inl (reported k i op path_text)
            | Inr s \<Rightarrow> Inr (update_node shadow (sl_parent s) (slot_assign s v))))"

definition do_test :: "jvalue \<Rightarrow> bytes list \<Rightarrow> bytes \<Rightarrow> jvalue \<Rightarrow> nat \<Rightarrow> bytes \<Rightarrow> patch_failure + jvalue" where
  "do_test shadow path path_text v i op =
     (case resolve_node shadow path of
        Inl k \<Rightarrow> Inl (reported k i op path_text)
      | Inr (_, node) \<Rightarrow> if json_eq node v then Inr shadow else Inl (reported TestFailed i op path_text))"

definition do_copy ::
  "jvalue \<Rightarrow> bytes list \<Rightarrow> bytes \<Rightarrow> bytes list \<Rightarrow> bytes \<Rightarrow> nat \<Rightarrow> bytes \<Rightarrow> patch_failure + jvalue" where
  "do_copy shadow path path_text from from_text i op =
     (case resolve_node shadow from of
        Inl k \<Rightarrow> Inl (reported k i op from_text)
      | Inr (_, node) \<Rightarrow> insert_at shadow path path_text node i op)"

definition do_move ::
  "jvalue \<Rightarrow> bytes list \<Rightarrow> bytes \<Rightarrow> bytes list \<Rightarrow> bytes \<Rightarrow> nat \<Rightarrow> bytes \<Rightarrow> patch_failure + jvalue" where
  "do_move shadow path path_text from from_text i op =
     (if from = [] then Inl (reported RootOperation i op from_text)
      else (case resolve_slot shadow from Existing of
              Inl k \<Rightarrow> Inl (reported k i op from_text)
            | Inr s \<Rightarrow>
                if from = path then Inr shadow
                else if is_proper_prefix from path then Inl (reported MoveIntoDescendant i op path_text)
                else
                  let moved = slot_value s (the (node_at shadow (sl_parent s)))
                  in insert_at (update_node shadow (sl_parent s) (slot_remove s)) path path_text moved i op))"

definition apply_one :: "jvalue \<Rightarrow> jvalue \<Rightarrow> nat \<Rightarrow> patch_failure + jvalue" where
  "apply_one shadow op i =
     (case op of
        JObj obj \<Rightarrow>
          (case (member_string obj ''op'', member_string obj ''path'') of
             (Some name, Some path_text) \<Rightarrow>
               if \<not> is_known_op name then Inl (reported UnknownOp i name path_text)
               else
                 (case parse_json_pointer path_text of
                    Inl e \<Rightarrow> Inl (Thrown e)
                  | Inr path \<Rightarrow>
                      if name = lit ''remove'' then do_remove shadow path path_text i name
                      else if name = lit ''add'' \<or> name = lit ''replace'' \<or> name = lit ''test'' then
                        (case map_of obj (lit ''value'') of
                           None \<Rightarrow> Inl (invalid_document i name path_text ''missing \"value\"'')
                         | Some v \<Rightarrow>
                             if name = lit ''add'' then insert_at shadow path path_text v i name
                             else if name = lit ''replace'' then do_replace shadow path path_text v i name
                             else do_test shadow path path_text v i name)
                      else
                        (case member_string obj ''from'' of
                           None \<Rightarrow> Inl (invalid_document i name path_text ''missing string \"from\"'')
                         | Some from_text \<Rightarrow>
                             (case parse_json_pointer from_text of
                                Inl e \<Rightarrow> Inl (Thrown e)
                              | Inr from \<Rightarrow>
                                  if name = lit ''copy'' then do_copy shadow path path_text from from_text i name
                                  else do_move shadow path path_text from from_text i name)))
           | _ \<Rightarrow> Inl (invalid_document i [] [] ''operation missing string \"op\"/\"path\"''))
      | _ \<Rightarrow> Inl (invalid_document i [] [] ''operation must be an object''))"

section \<open>The patch document\<close>

text \<open>The structural scan before any copying; \<^term>\<open>None\<close> is a well-shaped operation.\<close>

definition shape_error :: "jvalue \<Rightarrow> nat \<Rightarrow> patch_error option" where
  "shape_error op i =
     (case op of
        JObj obj \<Rightarrow>
          (case member_string obj ''op'' of
             None \<Rightarrow> Some (make_error InvalidPatchDocument i [] [] (lit ''operation missing string \"op\"''))
           | Some name \<Rightarrow>
               let path_opt = member_string obj ''path'';
                   path_text = (case path_opt of Some t \<Rightarrow> t | None \<Rightarrow> [])
               in if \<not> is_known_op name then Some (make_error UnknownOp i name path_text [])
                  else if path_opt = None
                    then Some (make_error InvalidPatchDocument i name [] (lit ''operation missing string \"path\"''))
                  else
                    (case parse_json_pointer path_text of
                       Inl _ \<Rightarrow> Some (make_error InvalidPointer i name path_text (lit ''bad \"path\" pointer''))
                     | Inr _ \<Rightarrow>
                         if name = lit ''add'' \<or> name = lit ''replace'' \<or> name = lit ''test'' then
                           (if map_of obj (lit ''value'') = None
                            then Some (make_error InvalidPatchDocument i name path_text (lit ''operation missing \"value\"''))
                            else None)
                         else if name = lit ''remove'' then None
                         else
                           (case member_string obj ''from'' of
                              None \<Rightarrow> Some (make_error InvalidPatchDocument i name path_text (lit ''operation missing string \"from\"''))
                            | Some from_text \<Rightarrow>
                                (case parse_json_pointer from_text of
                                   Inl _ \<Rightarrow> Some (make_error InvalidPointer i name from_text (lit ''bad \"from\" pointer''))
                                 | Inr _ \<Rightarrow> None))))
      | _ \<Rightarrow> Some (make_error InvalidPatchDocument i [] [] (lit ''operation must be an object'')))"

fun validate_patch_shape :: "jvalue list \<Rightarrow> nat \<Rightarrow> patch_error option" where
  "validate_patch_shape [] i = None"
| "validate_patch_shape (op # ops) i =
     (case shape_error op i of Some e \<Rightarrow> Some e | None \<Rightarrow> validate_patch_shape ops (i + 1))"

fun apply_all :: "jvalue \<Rightarrow> jvalue list \<Rightarrow> nat \<Rightarrow> patch_failure + jvalue" where
  "apply_all shadow [] i = Inr shadow"
| "apply_all shadow (op # ops) i =
     (case apply_one shadow op i of Inl e \<Rightarrow> Inl e | Inr shadow' \<Rightarrow> apply_all shadow' ops (i + 1))"

text \<open>The outcome and the target afterwards.\<close>

definition patch_result :: "jvalue \<Rightarrow> jvalue \<Rightarrow> patch_failure option \<times> jvalue" where
  "patch_result target patch =
     (case patch of
        JArr ops \<Rightarrow>
          if ops = [] then (None, target)
          else (case validate_patch_shape ops 0 of
                  Some e \<Rightarrow> (Some (Reported e), target)
                | None \<Rightarrow> (case apply_all target ops 0 of
                      Inl e \<Rightarrow> (Some e, target)
                    | Inr shadow \<Rightarrow> (None, shadow)))
      | _ \<Rightarrow> (Some (invalid_document 0 [] [] ''top-level patch must be an array''), target))"

section \<open>Merge patch\<close>

text \<open>
  \<open>merge_members\<close> is the loop over the members of the patch, on the entries of the target.
\<close>

function merge_patch :: "jvalue \<Rightarrow> jvalue \<Rightarrow> jvalue"
and merge_members :: "jentries \<Rightarrow> jentries \<Rightarrow> jentries" where
  "merge_patch target patch =
     (case patch of
        JObj ps \<Rightarrow> JObj (merge_members (case target of JObj es \<Rightarrow> es | _ \<Rightarrow> []) ps)
      | _ \<Rightarrow> patch)"
| "merge_members es [] = es"
| "merge_members es ((k, v) # ps) =
     (if v = JNull then merge_members (del_first es k) ps
      else
        let es = (if map_of es k = None then obj_put es k JNull else es)
        in merge_members (obj_put es k (merge_patch (the (map_of es k)) v)) ps)"
  by pat_completeness auto
termination
  by (relation "measure (\<lambda>x. case x of Inl (t, p) \<Rightarrow> json_weight p
      | Inr (es, ps) \<Rightarrow> sum_list (map (\<lambda>e. Suc (json_weight (snd e))) ps))") auto

declare merge_patch.simps [simp del] merge_members.simps(2) [simp del]

text \<open>\<^verbatim>\<open>Object::merge\<close> on the value level: nested objects merge, everything else is replaced.\<close>

function json_merge :: "jvalue \<Rightarrow> jvalue \<Rightarrow> jvalue" where
  "json_merge old new =
     (case (old, new) of
        (JObj es, JObj fs) \<Rightarrow>
          JObj (fold (\<lambda>e acc. obj_put acc (fst e)
                  (case map_of acc (fst e) of None \<Rightarrow> snd e | Some v \<Rightarrow> json_merge v (snd e))) fs es)
      | _ \<Rightarrow> new)"
  by pat_completeness auto
termination
  by (relation "measure (\<lambda>(old, new). json_weight new)") (auto simp del: json_weight.simps dest: json_weight_mem)

declare json_merge.simps [simp del]

end
