(* ===== verification/PatchProofs.thy ===== *)
theory PatchProofs
  imports Patch Grammar
begin

text \<open>
  JSON Pointer texts are exactly the encoded token lists; a patch either has the effect that
  RFC 6902 describes operation by operation, or leaves the target alone and reports; merge
  patch follows RFC 7386.
\<close>

section \<open>Pointers\<close>

definition escape_char :: "byte \<Rightarrow> bytes" where
  "escape_char c = (if c = 0x7E then [0x7E, 0x30] else if c = 0x2F then [0x7E, 0x31] else [c])"

definition escape_token :: "bytes \<Rightarrow> bytes" where
  "escape_token t = concat (map escape_char t)"

definition pointer_text :: "bytes list \<Rightarrow> bytes" where
  "pointer_text ts = concat (map (\<lambda>t. 0x2F # escape_token t) ts)"

lemma escape_token_simps [simp]:
  "escape_token [] = []" "escape_token (c # t) = escape_char c @ escape_token t"
  by (simp_all add: escape_token_def)

lemma pointer_text_simps [simp]:
  "pointer_text [] = []" "pointer_text (t # ts) = 0x2F # escape_token t @ pointer_text ts"
  by (simp_all add: pointer_text_def)

lemma escape_token_slash: "0x2F \<notin> set (escape_token t)"
  by (induction t) (auto simp: escape_char_def)

lemma unescape_escape: "unescape_token out (escape_token t) = Inr (out @ t)"
  by (induction t arbitrary: out) (auto simp: escape_char_def)

lemma unescape_sound:
  "unescape_token out raw = Inr t \<Longrightarrow> 0x2F \<notin> set raw \<Longrightarrow> \<exists>u. t = out @ u \<and> raw = escape_token u"
proof (induction out raw rule: unescape_token.induct)
  case (2 out c r)
  show ?case
  proof (cases "c = 0x7E")
    case False
    then obtain u where "t = (out @ [c]) @ u" "r = escape_token u" using 2(1,4,5) by auto
    then show ?thesis using False 2(5) by (intro exI [of _ "c # u"]) (auto simp: escape_char_def)
  next
    case True
    then obtain e r' where r: "r = e # r'" using 2(4) by (cases r) auto
    consider "e = 0x30" | "e = 0x31" using 2(4) True r by (auto split: if_splits)
    then show ?thesis
    proof cases
      case 1
      then obtain u where "t = (out @ [0x7E]) @ u" "r' = escape_token u" using 2(2) [OF _ r] 2(4,5) True r by auto
      then show ?thesis using True r 1 by (intro exI [of _ "0x7E # u"]) (simp add: escape_char_def)
    next
      case e: 2
      then obtain u where "t = (out @ [0x2F]) @ u" "r' = escape_token u" using 2(3) [OF _ r] 2(4,5) True r by auto
      then show ?thesis using True r e by (intro exI [of _ "0x2F # u"]) (simp add: escape_char_def)
    qed
  qed
qed simp

lemma pointer_text_hd: "ts \<noteq> [] \<Longrightarrow> \<exists>r. pointer_text ts = 0x2F # r"
  by (cases ts) simp_all

lemma split_token:
  "takeWhile (\<lambda>c. c \<noteq> 0x2F) (escape_token t @ pointer_text ts) = escape_token t"
  "dropWhile (\<lambda>c. c \<noteq> 0x2F) (escape_token t @ pointer_text ts) = pointer_text ts"
proof -
  have e: "\<forall>c \<in> set (escape_token t). c \<noteq> 0x2F" using escape_token_slash by metis
  have n: "takeWhile (\<lambda>c. c \<noteq> 0x2F) (pointer_text ts) = []" "dropWhile (\<lambda>c. c \<noteq> 0x2F) (pointer_text ts) = pointer_text ts"
    by (cases ts; simp)+
  show "takeWhile (\<lambda>c. c \<noteq> 0x2F) (escape_token t @ pointer_text ts) = escape_token t"
    using e n(1) by (simp add: takeWhile_append2)
  show "dropWhile (\<lambda>c. c \<noteq> 0x2F) (escape_token t @ pointer_text ts) = pointer_text ts"
    using e n(2) by (simp add: dropWhile_append2)
qed

lemma pointer_tokens_complete:
  "pointer_tokens (escape_token t @ pointer_text ts) acc = Inr (acc @ t # ts)"
proof (induction ts arbitrary: t acc)
  case Nil
  show ?case
    by (subst pointer_tokens.simps, simp only: Let_def split_token unescape_escape sum.case append_Nil) simp
next
  case (Cons u us)
  show ?case
    using split_token [of t "u # us"] Cons [of u "acc @ [t]"] by (subst pointer_tokens.simps) (simp add: unescape_escape Let_def)
qed

lemma pointer_tokens_sound:
  "pointer_tokens p acc = Inr ts \<Longrightarrow> \<exists>u us. ts = acc @ u # us \<and> p = escape_token u @ pointer_text us"
proof (induction p acc rule: pointer_tokens.induct)
  case (1 p tokens)
  let ?raw = "takeWhile (\<lambda>c. c \<noteq> 0x2F) p" and ?rest = "dropWhile (\<lambda>c. c \<noteq> 0x2F) p"
  obtain token where u: "unescape_token [] ?raw = Inr token"
    using 1(2) by (subst (asm) pointer_tokens.simps) (auto simp: Let_def split: sum.splits)
  have "0x2F \<notin> set ?raw" by (auto dest: set_takeWhileD)
  then have raw: "?raw = escape_token token" using unescape_sound [OF u] by auto
  show ?case
  proof (cases "?rest = []")
    case True
    then have "p = ?raw" by (metis append_Nil2 takeWhile_dropWhile_id)
    then show ?thesis
      using 1(2) True u raw by (subst (asm) pointer_tokens.simps) (intro exI [of _ token] exI [of _ "[]"], simp add: Let_def)
  next
    case False
    then have r: "pointer_tokens (tl ?rest) (tokens @ [token]) = Inr ts"
      using 1(2) u by (subst (asm) pointer_tokens.simps, simp only: Let_def sum.case if_False)
    obtain v vs where v: "ts = (tokens @ [token]) @ v # vs" "tl ?rest = escape_token v @ pointer_text vs"
      using 1(1) [OF refl refl u False r] by blast
    have "?rest = 0x2F # tl ?rest" using False hd_dropWhile [OF False] by (cases ?rest) simp_all
    then have "p = escape_token token @ 0x2F # escape_token v @ pointer_text vs"
      using raw v(2) by (metis takeWhile_dropWhile_id)
    then show ?thesis using v(1) by (intro exI [of _ token] exI [of _ "v # vs"]) simp
  qed
qed

lemma parse_pointer_iff: "parse_json_pointer p = Inr ts \<longleftrightarrow> p = pointer_text ts"
proof
  assume p: "parse_json_pointer p = Inr ts"
  show "p = pointer_text ts"
  proof (cases p)
    case Nil
    then show ?thesis using p by (simp add: parse_json_pointer_def)
  next
    case (Cons c r)
    then have "c = 0x2F" "pointer_tokens r [] = Inr ts" using p by (auto simp: parse_json_pointer_def split: if_splits)
    then show ?thesis using pointer_tokens_sound [of r "[]" ts] Cons by auto
  qed
next
  assume "p = pointer_text ts"
  then show "parse_json_pointer p = Inr ts"
    using pointer_tokens_complete [of _ _ "[]"] by (cases ts) (simp_all add: parse_json_pointer_def)
qed

text \<open>Array indices are the canonical decimals within the overflow bound.\<close>

lemma digit_char: "is_dec_digit d \<Longrightarrow> of_nat (48 + digit_val d) = d"
  by (rule word_eq_unat) (auto simp: is_dec_digit_def digit_val_def word_le_nat_alt)

lemma dec_unique: "digits1 ds \<Longrightarrow> length ds = 1 \<or> hd ds \<noteq> 0x30 \<Longrightarrow> dec (digits_val ds) = ds"
proof (induction ds rule: rev_induct)
  case (snoc d xs)
  have d: "is_dec_digit d" "digit_val d \<le> 9" using snoc.prems(1) digit_val_le by (auto simp: digits1_def)
  show ?case
  proof (cases "xs = []")
    case True
    then show ?thesis using d digit_char [OF d(1)] by (subst dec.simps) (simp add: digits_val_def)
  next
    case False
    then have xs: "digits1 xs" "hd xs \<noteq> 0x30" using snoc.prems by (auto simp: digits1_def)
    have v: "dec (digits_val xs) = xs" using snoc.IH xs by simp
    have "digits_val xs \<noteq> 0"
    proof
      assume "digits_val xs = 0"
      moreover have "dec 0 = [0x30]" by (subst dec.simps) simp
      ultimately have "hd xs = 0x30" using v by (metis list.sel(1))
      then show False using xs(2) by simp
    qed
    then have "10 \<le> digits_val xs * 10 + digit_val d" by simp
    then show ?thesis
      using v d digit_char [OF d(1)] by (subst dec.simps) (simp add: digits_val_snoc)
  qed
qed (simp add: digits1_def)

lemma strict_index_iff: "strict_index t = Some n \<longleftrightarrow> t = dec n \<and> n \<le> index_limit"
proof
  assume s: "strict_index t = Some n"
  then have t: "t \<noteq> []" "\<not> (1 < length t \<and> hd t = 0x30)" "to_index t = Some n"
    by (auto simp: strict_index_def to_index_def split: if_splits)
  then have "digits1 t" "n = digits_val t" "n \<le> index_limit" by (auto simp: to_index_exact digits1_def)
  moreover have "length t = 1 \<or> hd t \<noteq> 0x30" using t(1,2) by (cases t) auto
  ultimately show "t = dec n \<and> n \<le> index_limit" using dec_unique by auto
next
  assume "t = dec n \<and> n \<le> index_limit"
  then have "to_index t = Some n" "t \<noteq> []" "\<not> (1 < length t \<and> hd t = 0x30)"
    using dec_hd [of n] length_dec_1 [of n] by (auto simp: to_index_exact dec_not_Nil dec_digits digits_val_dec not_less)
  then show "strict_index t = Some n" by (simp add: strict_index_def to_index_def)
qed

section \<open>RFC 6902 as edits of the document\<close>

text \<open>The value at a pointer, and an edit at the parent of its last token.\<close>

definition array_child :: "jvalue list \<Rightarrow> bytes \<Rightarrow> nat option" where
  "array_child xs t = (case strict_index t of Some i \<Rightarrow> if i < length xs then Some i else None | None \<Rightarrow> None)"

fun ptr_get :: "jvalue \<Rightarrow> bytes list \<Rightarrow> jvalue option" where
  "ptr_get v [] = Some v"
| "ptr_get (JObj es) (t # ts) = (case map_of es t of Some v \<Rightarrow> ptr_get v ts | None \<Rightarrow> None)"
| "ptr_get (JArr xs) (t # ts) = (case array_child xs t of Some i \<Rightarrow> ptr_get (xs ! i) ts | None \<Rightarrow> None)"
| "ptr_get _ (t # ts) = None"

fun ptr_edit :: "(jvalue \<Rightarrow> bytes \<Rightarrow> jvalue option) \<Rightarrow> jvalue \<Rightarrow> bytes list \<Rightarrow> jvalue option" where
  "ptr_edit f v [] = None"
| "ptr_edit f v [t] = f v t"
| "ptr_edit f (JObj es) (t # ts) =
     (case map_of es t of Some v \<Rightarrow> map_option (\<lambda>v'. JObj (obj_put es t v')) (ptr_edit f v ts) | None \<Rightarrow> None)"
| "ptr_edit f (JArr xs) (t # ts) =
     (case array_child xs t of Some i \<Rightarrow> map_option (\<lambda>v'. JArr (xs[i := v'])) (ptr_edit f (xs ! i) ts) | None \<Rightarrow> None)"
| "ptr_edit f _ (t # ts) = None"

fun add_member :: "jvalue \<Rightarrow> jvalue \<Rightarrow> bytes \<Rightarrow> jvalue option" where
  "add_member v (JObj es) t = Some (JObj (obj_put es t v))"
| "add_member v (JArr xs) t =
     (if t = [0x2D] then Some (JArr (xs @ [v]))
      else case strict_index t of
             Some i \<Rightarrow> if i \<le> length xs then Some (JArr (take i xs @ v # drop i xs)) else None
           | None \<Rightarrow> None)"
| "add_member v _ t = None"

fun remove_member :: "jvalue \<Rightarrow> bytes \<Rightarrow> jvalue option" where
  "remove_member (JObj es) t = (if map_of es t = None then None else Some (JObj (del_first es t)))"
| "remove_member (JArr xs) t = map_option (\<lambda>i. JArr (take i xs @ drop (Suc i) xs)) (array_child xs t)"
| "remove_member _ t = None"

fun replace_member :: "jvalue \<Rightarrow> jvalue \<Rightarrow> bytes \<Rightarrow> jvalue option" where
  "replace_member v (JObj es) t = (if map_of es t = None then None else Some (JObj (obj_put es t v)))"
| "replace_member v (JArr xs) t = map_option (\<lambda>i. JArr (xs[i := v])) (array_child xs t)"
| "replace_member v _ t = None"

datatype rfc_op =
    RfcAdd "bytes list" jvalue
  | RfcRemove "bytes list"
  | RfcReplace "bytes list" jvalue
  | RfcMove "bytes list" "bytes list"
  | RfcCopy "bytes list" "bytes list"
  | RfcTest "bytes list" jvalue

definition rfc_add :: "bytes list \<Rightarrow> jvalue \<Rightarrow> jvalue \<Rightarrow> jvalue option" where
  "rfc_add path v d = (if path = [] then Some v else ptr_edit (add_member v) d path)"

fun rfc_apply :: "rfc_op \<Rightarrow> jvalue \<Rightarrow> jvalue option" where
  "rfc_apply (RfcAdd path v) d = rfc_add path v d"
| "rfc_apply (RfcRemove path) d = ptr_edit remove_member d path"
| "rfc_apply (RfcReplace path v) d = (if path = [] then Some v else ptr_edit (replace_member v) d path)"
| "rfc_apply (RfcMove from path) d =
     (if from = [] then None
      else case ptr_get d from of
             None \<Rightarrow> None
           | Some v \<Rightarrow>
               if from = path then Some d
               else if is_proper_prefix from path then None
               else Option.bind (ptr_edit remove_member d from) (rfc_add path v))"
| "rfc_apply (RfcCopy from path) d = (case ptr_get d from of None \<Rightarrow> None | Some v \<Rightarrow> rfc_add path v d)"
| "rfc_apply (RfcTest path v) d = (case ptr_get d path of None \<Rightarrow> None | Some u \<Rightarrow> if json_eq u v then Some d else None)"

lemma token_hop_obj:
  "token_hop (JObj es) t = (case map_of es t of None \<Rightarrow> Inl PathNotFound | Some v \<Rightarrow> Inr (the (sweep_slot (map fst es) t)))"
  using sweep_slot_None [of es t] by (auto simp: token_hop_def split: option.splits)

text \<open>The resolver finds the node the pointer denotes.\<close>

lemma resolve_node_get: "(case resolve_node root ptr of Inr (ps, v) \<Rightarrow> ptr_get root ptr = Some v \<and> node_at root ps = Some v
    | Inl k \<Rightarrow> ptr_get root ptr = None)"
proof (induction root ptr rule: resolve_node.induct)
  case (2 cur token ptr)
  show ?case
  proof (cases cur)
    case (JArr xs)
    show ?thesis
    proof (cases "array_child xs token")
      case None
      then show ?thesis using JArr by (auto simp: token_hop_def array_child_def split: option.splits if_splits)
    next
      case (Some i)
      then have h: "token_hop cur token = Inr i" "i < length xs" using JArr by (auto simp: token_hop_def array_child_def split: option.splits if_splits)
      show ?thesis using 2 [OF h(1)] h JArr Some by (auto split: sum.splits)
    qed
  next
    case (JObj es)
    show ?thesis
    proof (cases "sweep_slot (map fst es) token")
      case None
      then show ?thesis using JObj sweep_slot_None [of es token] by (simp add: token_hop_def)
    next
      case (Some p)
      then have h: "token_hop cur token = Inr p" "p < length es" "map_of es token = Some (snd (es ! p))"
        using JObj sweep_slot_Some [OF Some] by (simp_all add: token_hop_def)
      show ?thesis using 2 [OF h(1)] h JObj by (auto split: sum.splits)
    qed
  qed (simp_all add: token_hop_def)
qed simp

lemma resolve_parent_edit:
  "ptr \<noteq> [] \<Longrightarrow>
   (case resolve_node root (butlast ptr) of
      Inr (ps, cur) \<Rightarrow> ptr_edit f root ptr = map_option (\<lambda>new. update_node root ps (\<lambda>_. new)) (f cur (last ptr)) \<and>
        node_at root ps = Some cur
    | Inl k \<Rightarrow> ptr_edit f root ptr = None)"
proof (induction ptr arbitrary: root)
  case (Cons t ts)
  show ?case
  proof (cases "ts = []")
    case True
    then show ?thesis by (simp add: option.map_ident)
  next
    case False
    then obtain u us where ts: "ts = u # us" by (cases ts) auto
    show ?thesis
    proof (cases root)
      case (JArr xs)
      show ?thesis
      proof (cases "array_child xs t")
        case None
        then show ?thesis using JArr ts by (auto simp: token_hop_def array_child_def split: option.splits if_splits)
      next
        case (Some i)
        then have h: "token_hop root t = Inr i" "i < length xs"
          using JArr by (auto simp: token_hop_def array_child_def split: option.splits if_splits)
        show ?thesis using Cons.IH [OF False, of "xs ! i"] h JArr Some ts
          by (auto simp: option.map_comp o_def split: sum.splits)
      qed
    next
      case (JObj es)
      show ?thesis
      proof (cases "sweep_slot (map fst es) t")
        case None
        then show ?thesis using JObj ts sweep_slot_None [of es t] by (simp add: token_hop_def)
      next
        case (Some p)
        then have h: "token_hop root t = Inr p" "p < length es" "map_of es t = Some (snd (es ! p))"
            "\<And>v. es[p := (fst (es ! p), v)] = obj_put es t v"
          using JObj sweep_slot_Some [OF Some] by (simp_all add: token_hop_def)
        show ?thesis using Cons.IH [OF False, of "snd (es ! p)"] h JObj ts
          by (auto simp: option.map_comp o_def split: sum.splits)
      qed
    qed (simp_all add: token_hop_def ts)
  qed
qed simp

lemma update_node_const: "node_at root ps = Some cur \<Longrightarrow> update_node root ps f = update_node root ps (\<lambda>_. f cur)"
  by (induction root ps arbitrary: cur rule: node_at.induct) (auto split: if_splits)

lemma ptr_get_append: "ptr_get v (xs @ ys) = Option.bind (ptr_get v xs) (\<lambda>u. ptr_get u ys)"
  by (induction v xs rule: ptr_get.induct) (auto split: option.splits)

lemma strict_index_dash [simp]: "strict_index [0x2D] = None"
  by (simp add: strict_index_def is_dec_digit_def)

text \<open>What a resolved slot stands for, in each of the two modes.\<close>

lemma existing_slot:
  assumes "ptr \<noteq> []"
  shows "case resolve_slot root ptr Existing of
     Inr s \<Rightarrow> \<exists>cur. node_at root (sl_parent s) = Some cur \<and> ptr_get root ptr = Some (slot_value s cur) \<and>
       ptr_edit remove_member root ptr = Some (update_node root (sl_parent s) (slot_remove s)) \<and>
       (\<forall>v. ptr_edit (replace_member v) root ptr = Some (update_node root (sl_parent s) (slot_assign s v)))
   | Inl k \<Rightarrow> ptr_get root ptr = None \<and> ptr_edit remove_member root ptr = None \<and>
       (\<forall>v. ptr_edit (replace_member v) root ptr = None)"
proof -
  have g: "ptr_get root ptr = Option.bind (ptr_get root (butlast ptr)) (\<lambda>u. ptr_get u [last ptr])"
    using ptr_get_append [of root "butlast ptr" "[last ptr]"] assms by simp
  note edit = resolve_parent_edit [OF assms, where root = root]
  show ?thesis
  proof (cases "resolve_node root (butlast ptr)")
    case (Inl k)
    then show ?thesis using g edit resolve_node_get [of root "butlast ptr"] by (simp add: resolve_slot_def)
  next
    case (Inr x)
    obtain ps cur where x: "x = (ps, cur)" by (cases x)
    have gc: "ptr_get root ptr = ptr_get cur [last ptr]" using g Inr x resolve_node_get [of root "butlast ptr"] by simp
    have e: "ptr_edit f root ptr = map_option (\<lambda>new. update_node root ps (\<lambda>_. new)) (f cur (last ptr))"
        and n: "node_at root ps = Some cur" for f
      using edit [of f] Inr x by simp_all
    have u: "update_node root ps (slot_remove s) = update_node root ps (\<lambda>_. slot_remove s cur)"
        "update_node root ps (slot_assign s v) = update_node root ps (\<lambda>_. slot_assign s v cur)" for s v
      using update_node_const [OF n] by blast+
    show ?thesis
    proof (cases cur)
      case (JObj es)
      show ?thesis
      proof (cases "map_of es (last ptr)")
        case None
        then show ?thesis using Inr x JObj gc e sweep_slot_None [of es "last ptr"] by (simp add: resolve_slot_def)
      next
        case (Some v)
        then have "sweep_slot (map fst es) (last ptr) \<noteq> None" using sweep_slot_None [of es "last ptr"] by simp
        then show ?thesis using Inr x JObj Some gc e n u
          by (simp add: resolve_slot_def Let_def slot_value_def slot_remove_def slot_assign_def)
      qed
    next
      case (JArr xs)
      show ?thesis
      proof (cases "array_child xs (last ptr)")
        case None
        then show ?thesis using Inr x JArr gc e
          by (auto simp: resolve_slot_def Let_def array_child_def split: option.splits if_splits)
      next
        case (Some i)
        then have "strict_index (last ptr) = Some i" "i < length xs" "last ptr \<noteq> [0x2D]"
          by (auto simp: array_child_def split: option.splits if_splits)
        then show ?thesis using Inr x JArr Some gc e n u
          by (auto simp: resolve_slot_def Let_def slot_value_def slot_remove_def slot_assign_def)
      qed
    qed (use Inr x gc e in \<open>simp_all add: resolve_slot_def\<close>)
  qed
qed

lemma insert_slot:
  assumes "ptr \<noteq> []"
  shows "case resolve_slot root ptr Insert of
     Inr s \<Rightarrow> ptr_edit (add_member v) root ptr = Some (update_node root (sl_parent s) (slot_insert s v))
   | Inl k \<Rightarrow> ptr_edit (add_member v) root ptr = None"
proof -
  note edit = resolve_parent_edit [OF assms, where root = root and f = "add_member v"]
  show ?thesis
  proof (cases "resolve_node root (butlast ptr)")
    case (Inl k)
    then show ?thesis using edit by (simp add: resolve_slot_def)
  next
    case (Inr x)
    obtain ps cur where x: "x = (ps, cur)" by (cases x)
    have e: "ptr_edit (add_member v) root ptr = map_option (\<lambda>new. update_node root ps (\<lambda>_. new)) (add_member v cur (last ptr))"
        and n: "node_at root ps = Some cur"
      using edit Inr x by simp_all
    have u: "update_node root ps (slot_insert s v) = update_node root ps (\<lambda>_. slot_insert s v cur)" for s
      using update_node_const [OF n] by blast
    show ?thesis
    proof (cases cur)
      case (JObj es)
      then show ?thesis using Inr x e u by (simp add: resolve_slot_def Let_def slot_insert_def)
    next
      case (JArr xs)
      show ?thesis
      proof (cases "strict_index (last ptr)")
        case None
        then show ?thesis using Inr x JArr e u by (auto simp: resolve_slot_def Let_def slot_insert_def)
      next
        case (Some i)
        then have "last ptr \<noteq> [0x2D]" by auto
        then show ?thesis using Inr x JArr e u Some by (auto simp: resolve_slot_def Let_def slot_insert_def)
      qed
    qed (use Inr x e in \<open>simp_all add: resolve_slot_def\<close>)
  qed
qed

section \<open>The engine implements RFC 6902\<close>

definition agrees :: "patch_failure + jvalue \<Rightarrow> jvalue option \<Rightarrow> bool" where
  "agrees x y \<longleftrightarrow> (case x of Inr d \<Rightarrow> y = Some d | Inl e \<Rightarrow> y = None \<and> (\<exists>r. e = Reported r))"

lemma agrees_simps [simp]:
  "agrees (Inr d) y \<longleftrightarrow> y = Some d" "agrees (Inl (reported k i op p)) y \<longleftrightarrow> y = None"
  by (auto simp: agrees_def reported_def)

lemma insert_at_agrees: "agrees (insert_at d path pt v i op) (rfc_add path v d)"
  using insert_slot [of path v d] by (auto simp: insert_at_def rfc_add_def split: sum.splits)

lemma do_remove_agrees: "agrees (do_remove d path pt i op) (rfc_apply (RfcRemove path) d)"
  using existing_slot [of path d] by (auto simp: do_remove_def split: sum.splits)

lemma do_replace_agrees: "agrees (do_replace d path pt v i op) (rfc_apply (RfcReplace path v) d)"
  using existing_slot [of path d] by (auto simp: do_replace_def split: sum.splits)

lemma do_test_agrees: "agrees (do_test d path pt v i op) (rfc_apply (RfcTest path v) d)"
  using resolve_node_get [of d path] by (auto simp: do_test_def split: sum.splits)

lemma do_copy_agrees: "agrees (do_copy d path pt src ft i op) (rfc_apply (RfcCopy src path) d)"
  using resolve_node_get [of d src] insert_at_agrees by (auto simp: do_copy_def split: sum.splits)

lemma do_move_agrees: "agrees (do_move d path pt src ft i op) (rfc_apply (RfcMove src path) d)"
proof (cases "src = []")
  case False
  show ?thesis
  proof (cases "resolve_slot d src Existing")
    case (Inl k)
    then show ?thesis using existing_slot [OF False, of d] False by (simp add: do_move_def)
  next
    case (Inr s)
    then obtain cur where "node_at d (sl_parent s) = Some cur" "ptr_get d src = Some (slot_value s cur)"
        "ptr_edit remove_member d src = Some (update_node d (sl_parent s) (slot_remove s))"
      using existing_slot [OF False, of d] by auto
    then show ?thesis using False Inr insert_at_agrees by (simp add: do_move_def Let_def)
  qed
qed (simp add: do_move_def)

text \<open>Reading an operation object.\<close>

definition pointer_of :: "bytes \<Rightarrow> bytes list option" where
  "pointer_of t = (case parse_json_pointer t of Inr ts \<Rightarrow> Some ts | Inl _ \<Rightarrow> None)"

definition decode_op :: "jvalue \<Rightarrow> rfc_op option" where
  "decode_op op =
     (case op of
        JObj obj \<Rightarrow>
          (case (member_string obj ''op'', Option.bind (member_string obj ''path'') pointer_of) of
             (Some name, Some path) \<Rightarrow>
               let v = map_of obj (lit ''value''); src = Option.bind (member_string obj ''from'') pointer_of
               in if name = lit ''add'' then map_option (RfcAdd path) v
                  else if name = lit ''remove'' then Some (RfcRemove path)
                  else if name = lit ''replace'' then map_option (RfcReplace path) v
                  else if name = lit ''test'' then map_option (RfcTest path) v
                  else if name = lit ''copy'' then map_option (\<lambda>s. RfcCopy s path) src
                  else if name = lit ''move'' then map_option (\<lambda>s. RfcMove s path) src
                  else None
           | _ \<Rightarrow> None)
      | _ \<Rightarrow> None)"

lemma op_names:
  "lit ''add'' \<noteq> lit ''remove''" "lit ''add'' \<noteq> lit ''replace''" "lit ''add'' \<noteq> lit ''move''" "lit ''add'' \<noteq> lit ''copy''"
  "lit ''add'' \<noteq> lit ''test''" "lit ''remove'' \<noteq> lit ''replace''" "lit ''remove'' \<noteq> lit ''move''"
  "lit ''remove'' \<noteq> lit ''copy''" "lit ''remove'' \<noteq> lit ''test''" "lit ''replace'' \<noteq> lit ''move''"
  "lit ''replace'' \<noteq> lit ''copy''" "lit ''replace'' \<noteq> lit ''test''" "lit ''move'' \<noteq> lit ''copy''"
  "lit ''move'' \<noteq> lit ''test''" "lit ''copy'' \<noteq> lit ''test''"
  by (simp_all add: lit_def)

lemmas op_name_simps = op_names op_names [symmetric]

lemma bind_simps: "Option.bind (Some x) f = f x" "Option.bind None f = None"
  by simp_all

lemma pointer_of_Some: "pointer_of t = Some ts \<longleftrightarrow> parse_json_pointer t = Inr ts"
  by (simp add: pointer_of_def split: sum.splits)

lemma shape_error_decode: "shape_error op i = None \<longleftrightarrow> decode_op op \<noteq> None"
proof (cases op)
  case (JObj obj)
  show ?thesis
  proof (cases "member_string obj ''op''")
    case (Some name)
    show ?thesis
    proof (cases "member_string obj ''path''")
      case p: (Some path_text)
      show ?thesis
      proof (cases "parse_json_pointer path_text")
        case (Inl e)
        then show ?thesis using JObj Some p by (simp add: shape_error_def decode_op_def pointer_of_def Let_def)
      next
        case path: (Inr path)
        consider "name = lit ''add'' \<or> name = lit ''replace'' \<or> name = lit ''test''" | "name = lit ''remove''"
          | "name = lit ''copy'' \<or> name = lit ''move''" | "\<not> is_known_op name" by (auto simp: is_known_op_def)
        then show ?thesis
        proof cases
          case 3
          then show ?thesis using JObj Some p path
            by (cases "member_string obj ''from''"; cases "parse_json_pointer (the (member_string obj ''from''))")
              (auto simp: shape_error_def decode_op_def pointer_of_def Let_def is_known_op_def op_name_simps)
        qed (use JObj Some p path in \<open>auto simp: shape_error_def decode_op_def pointer_of_def Let_def is_known_op_def op_name_simps\<close>)
      qed
    qed (use JObj Some in \<open>simp add: shape_error_def decode_op_def Let_def\<close>)
  qed (use JObj in \<open>simp add: shape_error_def decode_op_def\<close>)
qed (simp_all add: shape_error_def decode_op_def)

lemma apply_one_agrees:
  assumes "decode_op op = Some r"
  shows "agrees (apply_one d op i) (rfc_apply r d)"
proof -
  obtain obj where op: "op = JObj obj" using assms by (cases op) (simp_all add: decode_op_def)
  obtain name where n: "member_string obj ''op'' = Some name"
    using assms op by (cases "member_string obj ''op''") (simp_all add: decode_op_def)
  obtain pt where p: "member_string obj ''path'' = Some pt"
    using assms op n by (cases "member_string obj ''path''") (simp_all add: decode_op_def)
  obtain path where path: "parse_json_pointer pt = Inr path"
    using assms op n p by (cases "parse_json_pointer pt") (simp_all add: decode_op_def pointer_of_def)
  have pp: "pointer_of pt = Some path" using path by (simp add: pointer_of_Some)
  note read = assms [unfolded decode_op_def op json.case n p Let_def bind_simps pp prod.case option.case]
  consider "name = lit ''add''" | "name = lit ''remove''" | "name = lit ''replace''" | "name = lit ''test''"
    | "name = lit ''copy''" | "name = lit ''move''"
    using read by (auto simp: op_name_simps split: if_splits)
  then show ?thesis
  proof cases
    case 1
    then obtain v where "map_of obj (lit ''value'') = Some v" "r = RfcAdd path v" using read by (auto simp: op_name_simps)
    then show ?thesis using 1 op n p path insert_at_agrees by (simp add: apply_one_def is_known_op_def op_name_simps)
  next
    case 2
    then have "r = RfcRemove path" using read by (simp add: op_name_simps)
    then show ?thesis using 2 op n p path do_remove_agrees by (simp add: apply_one_def is_known_op_def op_name_simps)
  next
    case 3
    then obtain v where "map_of obj (lit ''value'') = Some v" "r = RfcReplace path v"
      using read by (auto simp: op_name_simps)
    then show ?thesis using 3 op n p path do_replace_agrees by (simp add: apply_one_def is_known_op_def op_name_simps)
  next
    case 4
    then obtain v where "map_of obj (lit ''value'') = Some v" "r = RfcTest path v"
      using read by (auto simp: op_name_simps)
    then show ?thesis using 4 op n p path do_test_agrees by (simp add: apply_one_def is_known_op_def op_name_simps)
  next
    case 5
    then obtain st src where "member_string obj ''from'' = Some st" "parse_json_pointer st = Inr src" "r = RfcCopy src path"
      using read by (auto simp: op_name_simps bind_eq_Some_conv pointer_of_Some)
    then show ?thesis using 5 op n p path do_copy_agrees by (simp add: apply_one_def is_known_op_def op_name_simps)
  next
    case 6
    then obtain st src where "member_string obj ''from'' = Some st" "parse_json_pointer st = Inr src" "r = RfcMove src path"
      using read by (auto simp: op_name_simps bind_eq_Some_conv pointer_of_Some)
    then show ?thesis using 6 op n p path do_move_agrees by (simp add: apply_one_def is_known_op_def op_name_simps)
  qed
qed

text \<open>A whole patch: every operation readable, then one after the other.\<close>

definition rfc_patch :: "jvalue \<Rightarrow> jvalue list \<Rightarrow> jvalue option" where
  "rfc_patch d ops =
     (if list_all (\<lambda>op. decode_op op \<noteq> None) ops
      then foldl (\<lambda>d op. Option.bind d (rfc_apply (the (decode_op op)))) (Some d) ops
      else None)"

lemma validate_decode: "validate_patch_shape ops i = None \<longleftrightarrow> list_all (\<lambda>op. decode_op op \<noteq> None) ops"
proof (induction ops i rule: validate_patch_shape.induct)
  case (2 op ops i)
  then show ?case using shape_error_decode [of op i] by (cases "shape_error op i") auto
qed simp

lemma foldl_bind_None: "foldl (\<lambda>d op. Option.bind d (f op)) None ops = None"
  by (induction ops) simp_all

lemma apply_all_agrees:
  assumes "list_all (\<lambda>op. decode_op op \<noteq> None) ops"
  shows "agrees (apply_all d ops i) (foldl (\<lambda>d op. Option.bind d (rfc_apply (the (decode_op op)))) (Some d) ops)"
  using assms
proof (induction ops arbitrary: d i)
  case (Cons op ops)
  then obtain r where r: "decode_op op = Some r" by auto
  note one = apply_one_agrees [OF r, of d i]
  show ?case
  proof (cases "apply_one d op i")
    case (Inl e)
    then show ?thesis using one r by (auto simp: agrees_def foldl_bind_None)
  next
    case (Inr d')
    then show ?thesis using one r Cons by simp
  qed
qed simp

section \<open>Merge patch\<close>

text \<open>The entries of a value that is coerced to an object.\<close>

definition entries_of :: "jvalue \<Rightarrow> jentries" where
  "entries_of v = (case v of JObj es \<Rightarrow> es | _ \<Rightarrow> [])"

lemma merge_patch_simps:
  "merge_patch t (JObj ps) = JObj (merge_members (entries_of t) ps)"
  "\<not> is_object p \<Longrightarrow> merge_patch t p = p"
  by (cases p; simp add: merge_patch.simps entries_of_def is_object_def)+

lemma merge_members_Cons:
  "merge_members es ((k, v) # ps) =
     (if v = JNull then merge_members (del_first es k) ps
      else merge_members (obj_put es k (merge_patch (case map_of es k of None \<Rightarrow> JNull | Some u \<Rightarrow> u) v)) ps)"
proof -
  have "obj_put (obj_put es k a) k b = obj_put es k b" for a b :: jvalue
    by (induction es) auto
  then show ?thesis by (auto simp: merge_members.simps(2) Let_def map_of_obj_put split: option.splits)
qed

lemma map_of_del_first: "distinct (map fst es) \<Longrightarrow> map_of (del_first es k) = (map_of es)(k := None)"
  by (induction es k rule: del_first.induct) (auto simp: fun_eq_iff map_of_eq_None_iff rev_image_eqI)

lemma distinct_del_first: "distinct (map fst es) \<Longrightarrow> distinct (map fst (del_first es k))"
proof (induction es k rule: del_first.induct)
  case (2 k' v' es k)
  then show ?case using set_del_first(1) [of es k] by auto
qed simp

text \<open>The member-wise rule of RFC 7386.\<close>

definition merged_member :: "jvalue option \<Rightarrow> jvalue option \<Rightarrow> jvalue option" where
  "merged_member old new =
     (case new of
        None \<Rightarrow> old
      | Some v \<Rightarrow> if v = JNull then None else Some (merge_patch (case old of None \<Rightarrow> JNull | Some u \<Rightarrow> u) v))"

lemma merge_members_lookup:
  "distinct (map fst es) \<Longrightarrow> distinct (map fst ps) \<Longrightarrow>
     distinct (map fst (merge_members es ps)) \<and>
     map_of (merge_members es ps) k = merged_member (map_of es k) (map_of ps k)"
proof (induction ps arbitrary: es)
  case (Cons e ps)
  obtain l v where e: "e = (l, v)" by (cases e)
  then have l: "map_of ps l = None" "distinct (map fst ps)" using Cons.prems(2) by (simp_all add: map_of_eq_None_iff)
  show ?case
  proof (cases "v = JNull")
    case True
    show ?thesis
      using Cons.IH [OF distinct_del_first [OF Cons.prems(1)] l(2), of l] True l(1)
      by (auto simp: e merge_members_Cons map_of_del_first [OF Cons.prems(1)] merged_member_def)
  next
    case False
    show ?thesis
      using Cons.IH [OF distinct_obj_put [OF Cons.prems(1)] l(2), of l "merge_patch (case map_of es l of None \<Rightarrow> JNull | Some u \<Rightarrow> u) v"] False l(1)
      by (auto simp: e merge_members_Cons map_of_obj_put merged_member_def)
  qed
qed (simp add: merged_member_def)

text \<open>Applying a merge patch that has already been applied changes nothing.\<close>

lemma obj_put_same: "map_of es k = Some v \<Longrightarrow> obj_put es k v = es"
  by (induction es) (auto split: if_splits)

lemma merge_members_settled:
  "\<forall>(k, v) \<in> set ps. map_of es k = merged_member (map_of es k) (Some v) \<Longrightarrow> merge_members es ps = es"
proof (induction ps)
  case (Cons e ps)
  obtain k v where e: "e = (k, v)" by (cases e)
  show ?case
  proof (cases "v = JNull")
    case True
    then show ?thesis using Cons e by (simp add: merge_members_Cons merged_member_def del_first_absent)
  next
    case False
    then obtain u where u: "map_of es k = Some u" "merge_patch u v = u"
      using Cons.prems e by (cases "map_of es k") (auto simp: merged_member_def)
    then show ?thesis using Cons e False by (simp add: merge_members_Cons obj_put_same)
  qed
qed simp

lemma merge_patch_idem: "unique_keys p \<Longrightarrow> unique_keys t \<Longrightarrow> merge_patch (merge_patch t p) p = merge_patch t p"
proof (induction "json_weight p" arbitrary: p t rule: less_induct)
  case less
  show ?case
  proof (cases "is_object p")
    case True
    then obtain ps where p: "p = JObj ps" by (cases p) (auto simp: is_object_def)
    have d: "distinct (map fst (entries_of t))" "distinct (map fst ps)"
      using less.prems p by (auto simp: entries_of_def split: json.splits)
    let ?es = "merge_members (entries_of t) ps"
    have look: "map_of ?es k = merged_member (map_of (entries_of t) k) (map_of ps k)" for k
      using merge_members_lookup [OF d] by blast
    have "map_of ?es k = merged_member (map_of ?es k) (Some v)" if kv: "(k, v) \<in> set ps" for k v
    proof (cases "v = JNull")
      case True
      then show ?thesis using kv d(2) look [of k] by (simp add: merged_member_def)
    next
      case False
      let ?old = "case map_of (entries_of t) k of None \<Rightarrow> JNull | Some u \<Rightarrow> u"
      have m: "map_of ?es k = Some (merge_patch ?old v)" using kv d(2) look [of k] False by (simp add: merged_member_def)
      have "unique_keys v" using less.prems(1) p kv by (auto simp: list_all_iff)
      moreover have "unique_keys ?old"
        using less.prems(2)
        by (cases t) (force simp: entries_of_def list_all_iff dest!: map_of_SomeD split: option.splits)+
      moreover have "json_weight v < json_weight p" using json_weight_mem(2) [OF kv] p by simp
      ultimately show ?thesis using less.hyps m False by (simp add: merged_member_def)
    qed
    then have "merge_members ?es ps = ?es" by (intro merge_members_settled) auto
    then show ?thesis using p by (simp add: merge_patch_simps(1) entries_of_def)
  qed (simp add: merge_patch_simps(2))
qed

section \<open>Properties\<close>

text \<open>
  C20: JSON Pointers: a text parses to the tokens \<open>ts\<close> exactly when it is the RFC 6901
  encoding of \<open>ts\<close> (each token behind a slash, tilde and slash escaped), so every token list
  has one text, and every text that is not an encoding is rejected.
\<close>
theorem pointer_text_exact:
  "parse_json_pointer p = Inr ts \<longleftrightarrow> p = pointer_text ts"
  by (rule parse_pointer_iff)

text \<open>
  C9: applying a JSON Patch either gives what RFC 6902 prescribes, operation after operation
  on the document (add, remove, replace, move as remove then add, copy, test), or reports an
  error and leaves the target as it was; it fails only where the RFC has no result, and no
  exception leaves the engine once the shape scan has passed.
\<close>
theorem patch_rfc6902:
  "case patch_result target (JArr ops) of
     (None, d) \<Rightarrow> rfc_patch target ops = Some d
   | (Some e, d) \<Rightarrow> d = target \<and> rfc_patch target ops = None \<and> (\<exists>r. e = Reported r)"
proof (cases "validate_patch_shape ops 0")
  case None
  then have ok: "list_all (\<lambda>op. decode_op op \<noteq> None) ops" by (simp only: validate_decode)
  show ?thesis
    using apply_all_agrees [OF ok, of target 0] None ok
    by (cases "ops = []") (auto simp: patch_result_def rfc_patch_def agrees_def split: sum.splits)
next
  case (Some e)
  then have no: "\<not> list_all (\<lambda>op. decode_op op \<noteq> None) ops" using validate_decode [of ops 0] by simp
  then have "ops \<noteq> []" by auto
  then show ?thesis using Some no by (auto simp: patch_result_def rfc_patch_def)
qed



text \<open>
  applying the same merge patch twice gives the result of applying it once.\<close>
theorem merge_patch_idempotent:
  assumes "unique_keys patch" "unique_keys target"
  shows "merge_patch (merge_patch target patch) patch = merge_patch target patch"
  using assms by (rule merge_patch_idem)

theorem merge_patch_idempotent_witness:
  "merge_patch (merge_patch JNull (JObj [([1], JNull), ([2], JObj [])])) (JObj [([1], JNull), ([2], JObj [])]) =
   merge_patch JNull (JObj [([1], JNull), ([2], JObj [])])"
  using merge_patch_idempotent [of "JObj [([1], JNull), ([2], JObj [])]" JNull] by simp

text \<open>
  \<^verbatim>\<open>Object::merge\<close> with its nested merges and its cache computes the deep merge of the
  two values: present keys keep their place, two objects merge recursively, any other pair is
  replaced, absent keys are appended; the cache learns every appended position.
\<close>
theorem object_merge_deep:
  assumes "obj_ok ob" "length (o_data ob) + length (o_data other) \<le> 2 ^ 30"
  shows "\<exists>ob'. obj_merge json_merge (\<lambda>v. v) False ob other = Some ob' \<and> obj_ok ob' \<and>
    json_merge (JObj (o_data ob)) (JObj (o_data other)) = JObj (o_data ob')"
proof -
  have "merge_entry json_merge (\<lambda>v. v) = (\<lambda>e acc. obj_put acc (fst e)
      (case map_of acc (fst e) of None \<Rightarrow> snd e | Some v \<Rightarrow> json_merge v (snd e)))"
    by (simp add: merge_entry_def fun_eq_iff)
  then show ?thesis
    using obj_merge_ok [OF assms, of json_merge "\<lambda>v. v" False]
    by (auto simp: merge_entries_def json_merge.simps [of "JObj (o_data ob)"])
qed

theorem object_merge_deep_witness:
  "\<exists>ob'. obj_merge json_merge (\<lambda>v. v) False (Obj [([1], JNull)] None) (Obj [([2], JNull), ([1], JBool True)] None) = Some ob' \<and>
     o_data ob' = [([1], JBool True), ([2], JNull)]"
  using object_merge_deep [of "Obj [([1], JNull)] None" "Obj [([2], JNull), ([1], JBool True)] None"]
  by (auto simp: obj_ok_def cache_ok_def o_keys_def json_merge.simps)

end
