(* ===== verification/ValidateProofs.thy ===== *)
theory ValidateProofs
  imports Validate EntryProofs
begin

unbundle bit_operations_syntax

text \<open>
  The compile-time validator decides the JSON grammar: \<open>value_syntax\<close> is the grammar of
  theory \<^verbatim>\<open>JsonText\<close> with the meanings left out and the admissible number tokens as
  a parameter.  With every token admitted it is what the validator accepts, with the tokens
  in the range of a double it is what the run-time parser accepts.
\<close>

section \<open>Syntax without values\<close>

inductive value_syntax :: "(bool \<Rightarrow> bytes \<Rightarrow> bytes \<Rightarrow> bytes \<Rightarrow> bool) \<Rightarrow> bytes \<Rightarrow> bool"
  and elements_syntax :: "(bool \<Rightarrow> bytes \<Rightarrow> bytes \<Rightarrow> bytes \<Rightarrow> bool) \<Rightarrow> bytes \<Rightarrow> bool"
  and members_syntax :: "(bool \<Rightarrow> bytes \<Rightarrow> bytes \<Rightarrow> bytes \<Rightarrow> bool) \<Rightarrow> bytes \<Rightarrow> bool"
  for N :: "bool \<Rightarrow> bytes \<Rightarrow> bytes \<Rightarrow> bytes \<Rightarrow> bool"
where
  literal: "t = lit ''null'' \<or> t = lit ''true'' \<or> t = lit ''false'' \<Longrightarrow> value_syntax N t"
| number: "number_parts neg ip fr ex t \<Longrightarrow> N neg ip fr ex \<Longrightarrow> value_syntax N t"
| string: "string_text raw s \<Longrightarrow> value_syntax N (0x22 # raw @ [0x22])"
| empty_array: "ws w \<Longrightarrow> value_syntax N (0x5B # w @ [0x5D])"
| array: "elements_syntax N t \<Longrightarrow> value_syntax N (0x5B # t @ [0x5D])"
| empty_object: "ws w \<Longrightarrow> value_syntax N (0x7B # w @ [0x7D])"
| object: "members_syntax N t \<Longrightarrow> value_syntax N (0x7B # t @ [0x7D])"
| last_element: "ws w1 \<Longrightarrow> value_syntax N t \<Longrightarrow> ws w2 \<Longrightarrow> elements_syntax N (w1 @ t @ w2)"
| more_elements: "ws w1 \<Longrightarrow> value_syntax N t \<Longrightarrow> ws w2 \<Longrightarrow> elements_syntax N r \<Longrightarrow>
    elements_syntax N (w1 @ t @ w2 @ 0x2C # r)"
| last_member: "ws w1 \<Longrightarrow> string_text raw s \<Longrightarrow> ws w2 \<Longrightarrow> ws w3 \<Longrightarrow> value_syntax N t \<Longrightarrow> ws w4 \<Longrightarrow>
    members_syntax N (w1 @ 0x22 # raw @ 0x22 # w2 @ 0x3A # w3 @ t @ w4)"
| more_members: "ws w1 \<Longrightarrow> string_text raw s \<Longrightarrow> ws w2 \<Longrightarrow> ws w3 \<Longrightarrow> value_syntax N t \<Longrightarrow> ws w4 \<Longrightarrow>
    members_syntax N r \<Longrightarrow> members_syntax N (w1 @ 0x22 # raw @ 0x22 # w2 @ 0x3A # w3 @ t @ w4 @ 0x2C # r)"

definition json_syntax :: "(bool \<Rightarrow> bytes \<Rightarrow> bytes \<Rightarrow> bytes \<Rightarrow> bool) \<Rightarrow> bytes \<Rightarrow> bool" where
  "json_syntax N t \<longleftrightarrow> (\<exists>w1 u w2. t = w1 @ u @ w2 \<and> ws w1 \<and> ws w2 \<and> value_syntax N u)"

section \<open>Strings\<close>

lemma hex_value_lt: "hex_value c = Some v \<Longrightarrow> v < 16"
  by (auto simp: hex_value_def word_le_nat_alt split: if_splits)

text \<open>Bits of a hexadecimal quad: four per digit.\<close>

definition bits_below :: "nat \<Rightarrow> u32 \<Rightarrow> bool" where
  "bits_below k x \<longleftrightarrow> take_bit k x = x"

lemma bits_below_nat: "v < 16 \<Longrightarrow> bits_below 4 (word_of_nat v)"
  unfolding bits_below_def
  by (rule word_eq_unat) (simp add: unsigned_take_bit_eq unat_of_nat take_bit_nat_eq_self)

lemma bits_below_mono: "bits_below j x \<Longrightarrow> j \<le> k \<Longrightarrow> bits_below k x"
  unfolding bits_below_def by (metis min.absorb2 take_bit_take_bit)

lemma bits_below_shift:
  assumes "bits_below k x" "bits_below 4 w"
  shows "bits_below (k + 4) (push_bit 4 x OR w)"
proof -
  have "take_bit (k + 4) w = w" using bits_below_mono [OF assms(2)] by (simp add: bits_below_def)
  moreover have "take_bit (k + 4) (push_bit 4 x) = push_bit 4 x"
    using assms(1) by (simp add: bits_below_def take_bit_push_bit)
  ultimately show ?thesis by (simp add: bits_below_def take_bit_or)
qed

lemma bits_below_unat: "bits_below k x \<Longrightarrow> unat x < 2 ^ k"
  unfolding bits_below_def by (metis take_bit_nat_less_exp unsigned_take_bit_eq)

lemma hex4_val_bound:
  assumes "hex4_val h cp"
  shows "unat cp < 65536"
proof -
  obtain a b c d where h: "h = [a, b, c, d]"
    using assms by (auto simp: hex4_val_def length_Suc_conv numeral_eq_Suc)
  obtain w x y z where v: "hex_value a = Some w" "hex_value b = Some x" "hex_value c = Some y" "hex_value d = Some z"
    and cp: "cp = push_bit 4 (push_bit 4 (push_bit 4 (word_of_nat w) OR word_of_nat x) OR word_of_nat y) OR word_of_nat z"
    using assms by (auto simp: hex4_val_def h split: option.splits)
  note b = v [THEN hex_value_lt, THEN bits_below_nat]
  have "bits_below (((4 + 4) + 4) + 4) cp"
    unfolding cp by (intro bits_below_shift b)
  then show ?thesis using bits_below_unat by fastforce
qed

lemma encode_total: "unat cp \<le> 0x10FFFF \<Longrightarrow> \<exists>bs. encode_utf8 cp = Some bs"
  by (auto simp: encode_utf8_def word_le_nat_alt)

lemma pair_bound:
  assumes "is_high_surrogate hi" "is_low_surrogate lo"
  shows "unat (combine_surrogates hi lo) \<le> 0x10FFFF"
proof -
  have h: "unat (hi - 0xD800) < 2 ^ 10" and l: "unat (lo - 0xDC00) < 2 ^ 10"
    using assms by (auto simp: is_high_surrogate_def is_low_surrogate_def word_le_nat_alt unat_sub_if_size)
  have t: "take_bit 10 (hi - 0xD800) = hi - 0xD800" "take_bit 10 (lo - 0xDC00) = lo - 0xDC00"
    using h l by (auto intro!: word_eq_unat simp: unsigned_take_bit_eq take_bit_nat_eq_self)
  have "take_bit 20 (push_bit 10 (hi - 0xD800)) = push_bit 10 (hi - 0xD800)"
    using t(1) by (simp add: take_bit_push_bit)
  moreover have "take_bit 20 (lo - 0xDC00) = lo - 0xDC00"
    using t(2) bits_below_mono [of 10 "lo - 0xDC00" 20] by (simp add: bits_below_def)
  ultimately have "bits_below 20 (push_bit 10 (hi - 0xD800) OR (lo - 0xDC00))"
    by (simp add: bits_below_def take_bit_or)
  then have "unat (push_bit 10 (hi - 0xD800) OR (lo - 0xDC00)) < 2 ^ 20" by (rule bits_below_unat)
  then show ?thesis
    unfolding combine_surrogates_def by (subst unat_add_lem [THEN iffD1]) simp_all
qed

lemma scan_hex4_iff: "scan_hex4 p = Some (cp, q) \<longleftrightarrow> (\<exists>h. p = h @ q \<and> hex4_val h cp)"
proof
  assume s: "scan_hex4 p = Some (cp, q)"
  then have l: "4 \<le> length p" "hex_quad p = Some cp" "q = drop 4 p"
    by (auto simp: scan_hex4_def split: if_splits)
  obtain a b c d r where p: "p = a # b # c # d # r" using list4 [OF l(1)] by blast
  show "\<exists>h. p = h @ q \<and> hex4_val h cp"
    using l p by (intro exI [of _ "[a, b, c, d]"]) (simp add: hex4_val_def)
next
  assume "\<exists>h. p = h @ q \<and> hex4_val h cp"
  then obtain h where h: "p = h @ q" "hex4_val h cp" by blast
  obtain a b c d where "h = [a, b, c, d]"
    using h(2) by (auto simp: hex4_val_def length_Suc_conv numeral_eq_Suc)
  then show "scan_hex4 p = Some (cp, q)" using h by (simp add: scan_hex4_def hex4_val_def)
qed

lemma scan_string_complete:
  "string_text raw s \<Longrightarrow> scan_string (raw @ 0x22 # r) = Accept r"
proof (induction rule: string_text.induct)
  case (raw c raw s)
  then show ?case by (simp add: scan_string.simps(2) not_less)
next
  case (esc e bs raw s)
  from esc.hyps(1) show ?case
  proof (cases rule: escape_text.cases)
    case (short c)
    then have "c \<noteq> 0x75" by (auto simp: short_escape_u)
    then show ?thesis using short esc.IH by (simp add: scan_string.simps(2) is_short_escape_def)
  next
    case (bmp h cp)
    have "scan_hex4 (h @ raw @ 0x22 # r) = Some (cp, raw @ 0x22 # r)"
      using bmp(2) by (auto simp: scan_hex4_iff)
    moreover have "\<not> is_high_surrogate cp" "\<not> is_low_surrogate cp" using bmp(3) by (auto simp: surrogate_cases)
    ultimately show ?thesis using bmp(1) esc.IH by (simp add: scan_string.simps(2))
  next
    case (pair h hi h' lo)
    let ?r = "raw @ 0x22 # r"
    have "scan_hex4 (h @ 0x5C # 0x75 # h' @ ?r) = Some (hi, 0x5C # 0x75 # h' @ ?r)"
      "scan_hex4 (h' @ ?r) = Some (lo, ?r)"
      using pair(2,3) by (auto simp: scan_hex4_iff)
    moreover have "length h' = 4" using pair(3) by (simp add: hex4_val_def)
    ultimately show ?thesis using pair esc.IH by (simp add: scan_string.simps(2))
  qed
qed (simp add: scan_string.simps(2))

lemma string_text_bmp:
  assumes "hex4_val h cp" "\<not> is_high_surrogate cp" "\<not> is_low_surrogate cp" "string_text raw s"
  shows "\<exists>s. string_text (0x5C # 0x75 # h @ raw) s"
proof -
  obtain bs where "encode_utf8 cp = Some bs"
    using encode_total [of cp] hex4_val_bound [OF assms(1)] by auto
  then have "escape_text ([0x5C, 0x75] @ h) bs"
    using assms(1-3) by (intro escape_text.bmp) (auto simp: surrogate_cases)
  then show ?thesis using string_text.esc [OF _ assms(4)] by fastforce
qed

lemma string_text_pair:
  assumes "hex4_val h hi" "hex4_val h' lo" "is_high_surrogate hi" "is_low_surrogate lo" "string_text raw s"
  shows "\<exists>s. string_text (0x5C # 0x75 # h @ 0x5C # 0x75 # h' @ raw) s"
proof -
  obtain bs where "encode_utf8 (combine_surrogates hi lo) = Some bs"
    using encode_total pair_bound [OF assms(3,4)] by blast
  then have "escape_text ([0x5C, 0x75] @ h @ [0x5C, 0x75] @ h') bs"
    using assms by (intro escape_text.pair)
  then show ?thesis using string_text.esc [OF _ assms(5)] by fastforce
qed

lemma scan_string_sound:
  "scan_string p = Accept r \<Longrightarrow> \<exists>raw s. p = raw @ 0x22 # r \<and> string_text raw s"
proof (induction p rule: scan_string.induct)
  case (2 c p)
  show ?case
  proof (cases "c = 0x22 \<or> c \<noteq> 0x5C")
    case True
    show ?thesis
    proof (cases "c = 0x22")
      case True
      then have "c # p = [] @ 0x22 # r" using "2.prems" by (simp add: scan_string.simps(2))
      then show ?thesis using string_text.nil by blast
    next
      case False
      then have c: "c \<noteq> 0x5C" "\<not> c < 0x20" "scan_string p = Accept r"
        using "2.prems" True by (auto simp: scan_string.simps(2) split: if_splits)
      then obtain raw s where "p = raw @ 0x22 # r" "string_text raw s" using "2.IH"(4) False by blast
      then show ?thesis
        using c False by (intro exI [of _ "c # raw"] exI [of _ "c # s"]) (auto intro: string_text.raw simp: not_less)
    qed
  next
    case False
    then have c: "c = 0x5C" by simp
    obtain e q where p: "p = e # q" using "2.prems" c by (cases p) (auto simp: scan_string.simps(2))
    show ?thesis
    proof (cases "e = 0x75")
      case u: True
      obtain cp q1 where h1: "scan_hex4 q = Some (cp, q1)"
        using "2.prems" c p u by (auto simp: scan_string.simps(2) split: option.splits)
      then obtain h where h: "q = h @ q1" "hex4_val h cp" by (auto simp: scan_hex4_iff)
      show ?thesis
      proof (cases "is_high_surrogate cp")
        case True
        then have g: "6 \<le> length q1" "q1 ! 0 = 0x5C" "q1 ! 1 = 0x75"
          using "2.prems" c p u h1 by (auto simp: scan_string.simps(2) split: if_splits)
        obtain cp2 q2 where h2: "scan_hex4 (drop 2 q1) = Some (cp2, q2)"
          using "2.prems" c p u h1 True g by (auto simp: scan_string.simps(2) split: option.splits)
        then obtain h' where h': "drop 2 q1 = h' @ q2" "hex4_val h' cp2" by (auto simp: scan_hex4_iff)
        have q1: "q1 = 0x5C # 0x75 # h' @ q2"
          using g h'(1) by (cases q1; cases "tl q1") auto
        have low: "is_low_surrogate cp2" "scan_string q2 = Accept r"
          using "2.prems" c p u h1 True g h2 by (auto simp: scan_string.simps(2) split: if_splits)
        obtain raw s where raw: "q2 = raw @ 0x22 # r" "string_text raw s"
          using "2.IH"(1) [OF _ c p u h1 refl True _ h2 refl] low g c by auto
        have "c # p = (0x5C # 0x75 # h @ 0x5C # 0x75 # h' @ raw) @ 0x22 # r"
          using c p u h(1) q1 raw(1) by simp
        then show ?thesis using string_text_pair [OF h(2) h'(2) True low(1) raw(2)] by blast
      next
        case False
        then have low: "\<not> is_low_surrogate cp" "scan_string q1 = Accept r"
          using "2.prems" c p u h1 by (auto simp: scan_string.simps(2) split: if_splits)
        obtain raw s where raw: "q1 = raw @ 0x22 # r" "string_text raw s"
          using "2.IH"(2) [OF _ c p u h1 refl False low(1) low(2)] c by auto
        have "c # p = (0x5C # 0x75 # h @ raw) @ 0x22 # r" using c p u h(1) raw(1) by simp
        then show ?thesis using string_text_bmp [OF h(2) False low(1) raw(2)] by blast
      qed
    next
      case False
      then have e: "is_short_escape e" "scan_string q = Accept r"
        using "2.prems" c p by (auto simp: scan_string.simps(2) split: if_splits)
      obtain raw s where raw: "q = raw @ 0x22 # r" "string_text raw s"
        using "2.IH"(3) [OF _ c p False _ e(2)] e(1) c by auto
      have "string_text ([0x5C, e] @ raw) ([short_escape_value e] @ s)"
        using e(1) raw(2) by (intro string_text.esc escape_text.short) (simp_all add: is_short_escape_def)
      then show ?thesis
        using c p raw(1) by (intro exI [of _ "[0x5C, e] @ raw"] exI [of _ "[short_escape_value e] @ s"]) simp
    qed
  qed
qed simp

lemma scan_string_total: "scan_string p \<noteq> Exhausted"
  by (induction p rule: scan_string.induct) (auto simp: scan_string.simps(2) split: list.splits option.splits)

section \<open>The recursion\<close>

abbreviation any_number :: "bool \<Rightarrow> bytes \<Rightarrow> bytes \<Rightarrow> bytes \<Rightarrow> bool" where
  "any_number \<equiv> \<lambda>_ _ _ _. True"

lemma skip_ws_append:
  "ws w \<Longrightarrow> r = [] \<or> \<not> is_whitespace (hd r) \<Longrightarrow> v_skip_whitespace (w @ r) = r"
  by (induction w) (cases r, auto simp: ws_def)

lemma skip_ws_split: "\<exists>w. p = w @ v_skip_whitespace p \<and> ws w"
proof (induction p)
  case (Cons c p)
  then obtain w where w: "p = w @ v_skip_whitespace p" "ws w" by blast
  show ?case
  proof (cases "is_whitespace c")
    case True
    then show ?thesis using w by (intro exI [of _ "c # w"]) (simp add: ws_def)
  qed (simp add: ws_def)
qed (simp add: ws_def)

lemma skip_ws_to: "ws w \<Longrightarrow> \<not> is_whitespace c \<Longrightarrow> v_skip_whitespace (w @ c # r) = c # r"
  by (simp add: skip_ws_append)

lemma match_literal_iff: "match_literal p s \<longleftrightarrow> (\<exists>r. p = s @ r)"
  by (induction p s rule: match_literal.induct) auto

lemma v_match_literal_Accept: "v_match_literal p s = Accept r \<longleftrightarrow> p = s @ r"
  by (auto simp: v_match_literal_def match_literal_iff split: if_splits)

lemma v_skip_idem: "v_skip_whitespace (v_skip_whitespace p) = v_skip_whitespace p"
  by (induction p) auto

lemma v_skip_absorbed [simp]:
  "v_value n (v_skip_whitespace p) = v_value n p" "v_elements n (v_skip_whitespace p) = v_elements n p"
  "v_members n (v_skip_whitespace p) = v_members n p"
proof -
  show v: "v_value n (v_skip_whitespace p) = v_value n p" for n
    by (cases n) (simp_all add: v_value.simps(2) v_skip_idem)
  show "v_elements n (v_skip_whitespace p) = v_elements n p"
    by (cases n) (simp_all add: v_elements.simps(2) v)
  show "v_members n (v_skip_whitespace p) = v_members n p"
    by (cases n) (simp_all add: v_members.simps(2) v_skip_idem)
qed

lemma value_syntax_start:
  "value_syntax N t \<Longrightarrow> \<exists>c r. t = c # r \<and> \<not> is_whitespace c \<and> c \<noteq> 0x5D"
  by (erule value_syntax.cases) (auto simp: lit_def is_whitespace_def dest!: number_parts_start)

lemma number_dispatch:
  assumes "number_parts neg ip fr ex t"
  obtains c q where "t = c # q" "\<not> is_whitespace c" "c \<noteq> 0x74" "c \<noteq> 0x66" "c \<noteq> 0x6E" "c \<noteq> 0x22" "c \<noteq> 0x5B"
    "c \<noteq> 0x7B"
proof -
  obtain c q where c: "t = c # q" "number_start c" using number_parts_hd [OF assms] by blast
  then show thesis
    by (intro that [OF c(1)] start_not_ws(1)) (auto simp: number_start_def is_dec_digit_def)
qed

lemma ws_num_stop [intro]: "ws w \<Longrightarrow> c = 0x5D \<or> c = 0x2C \<or> c = 0x7D \<Longrightarrow> num_stop (w @ c # r)"
  by (cases w) (auto simp: ws_def num_stop_def is_whitespace_def is_dec_digit_def)

lemma ws_appendI: "ws a \<Longrightarrow> ws b \<Longrightarrow> ws (a @ b)"
  by (auto simp: ws_def)

lemma elements_syntax_prefix:
  assumes "ws w" "elements_syntax N t"
  shows "elements_syntax N (w @ t)"
  using assms(2)
proof (cases rule: elements_syntax.cases)
  case (last_element w1 u w2)
  then show ?thesis
    using value_syntax_elements_syntax_members_syntax.last_element [of "w @ w1" N u w2] ws_appendI [OF assms(1)] by simp
next
  case (more_elements w1 u w2 q)
  then show ?thesis
    using value_syntax_elements_syntax_members_syntax.more_elements [of "w @ w1" N u w2 q] ws_appendI [OF assms(1)]
    by simp
qed

lemma members_syntax_prefix:
  assumes "ws w" "members_syntax N t"
  shows "members_syntax N (w @ t)"
  using assms(2)
proof (cases rule: members_syntax.cases)
  case (last_member w1 raw s w2 w3 u w4)
  then show ?thesis
    using value_syntax_elements_syntax_members_syntax.last_member [of "w @ w1" raw s w2 w3 N u w4]
      ws_appendI [OF assms(1)] by simp
next
  case (more_members w1 raw s w2 w3 u w4 q)
  then show ?thesis
    using value_syntax_elements_syntax_members_syntax.more_members [of "w @ w1" raw s w2 w3 N u w4 q]
      ws_appendI [OF assms(1)] by simp
qed

lemma lit_bytes:
  "lit ''true'' = [0x74, 0x72, 0x75, 0x65]" "lit ''false'' = [0x66, 0x61, 0x6C, 0x73, 0x65]"
  "lit ''null'' = [0x6E, 0x75, 0x6C, 0x6C]"
  by (simp_all add: lit_def)

lemma v_complete:
  "value_syntax any_number t \<Longrightarrow>
     \<forall>w r n. ws w \<longrightarrow> num_stop r \<longrightarrow> 4 * length t \<le> n \<longrightarrow> v_value n (w @ t @ r) = Accept r"
  "elements_syntax any_number t \<Longrightarrow> \<forall>r n. 4 * length t + 1 \<le> n \<longrightarrow> v_elements n (t @ 0x5D # r) = Accept r"
  "members_syntax any_number t \<Longrightarrow> \<forall>r n. 4 * length t + 1 \<le> n \<longrightarrow> v_members n (t @ 0x7D # r) = Accept r"
proof (induction rule: value_syntax_elements_syntax_members_syntax.inducts)
  case (literal t)
  show ?case
  proof (intro allI impI)
    fix w r n assume w: "ws w" and n: "4 * length t \<le> n"
    obtain m where m: "n = Suc m" using n literal by (cases n) (auto simp: lit_bytes)
    show "v_value n (w @ t @ r) = Accept r"
      using literal by (auto simp: m v_value.simps(2) lit_bytes skip_ws_to [OF w] is_whitespace_def
          v_match_literal_def)
  qed
next
  case (number neg ip fr ex t)
  show ?case
  proof (intro allI impI)
    fix w r n assume w: "ws w" and r: "num_stop r" and n: "4 * length t \<le> n"
    obtain c q where c: "t = c # q" "\<not> is_whitespace c" "c \<noteq> 0x74" "c \<noteq> 0x66" "c \<noteq> 0x6E" "c \<noteq> 0x22" "c \<noteq> 0x5B"
      "c \<noteq> 0x7B" using number_dispatch [OF number(1)] .
    obtain m where m: "n = Suc m" using n c(1) by (cases n) auto
    have "validate_number (t @ r) = Accept r"
      by (simp add: validate_number_def scan_number_complete [OF number(1) r])
    then show "v_value n (w @ t @ r) = Accept r"
      using c by (simp add: m v_value.simps(2) skip_ws_to [OF w])
  qed
next
  case (string raw s)
  show ?case
  proof (intro allI impI)
    fix w r n assume w: "ws w" and n: "4 * length (0x22 # raw @ [0x22]) \<le> n"
    obtain m where m: "n = Suc m" using n by (cases n) auto
    show "v_value n (w @ (0x22 # raw @ [0x22]) @ r) = Accept r"
      using scan_string_complete [OF string] by (simp add: m v_value.simps(2) skip_ws_to [OF w] is_whitespace_def)
  qed
next
  case (empty_array w)
  show ?case
  proof (intro allI impI)
    fix w' r n assume w': "ws w'" and n: "4 * length (0x5B # w @ [0x5D]) \<le> n"
    obtain m where m: "n = Suc (Suc m)" using n by (cases n; cases "n - 1") auto
    show "v_value n (w' @ (0x5B # w @ [0x5D]) @ r) = Accept r"
      by (simp add: m v_value.simps(2) v_array.simps(2) skip_ws_to [OF w'] skip_ws_to [OF empty_array] is_whitespace_def)
  qed
next
  case (empty_object w)
  show ?case
  proof (intro allI impI)
    fix w' r n assume w': "ws w'" and n: "4 * length (0x7B # w @ [0x7D]) \<le> n"
    obtain m where m: "n = Suc (Suc m)" using n by (cases n; cases "n - 1") auto
    show "v_value n (w' @ (0x7B # w @ [0x7D]) @ r) = Accept r"
      by (simp add: m v_value.simps(2) v_object.simps(2) skip_ws_to [OF w'] skip_ws_to [OF empty_object] is_whitespace_def)
  qed
next
  case (array t)
  show ?case
  proof (intro allI impI)
    fix w r n assume w: "ws w" and n: "4 * length (0x5B # t @ [0x5D]) \<le> n"
    obtain m where m: "n = Suc (Suc m)" using n by (cases n; cases "n - 1") auto
    have s: "v_skip_whitespace (t @ 0x5D # r) \<noteq> [] \<and> hd (v_skip_whitespace (t @ 0x5D # r)) \<noteq> 0x5D"
      using array(1)
    proof (cases rule: elements_syntax.cases)
      case (last_element w1 u w2)
      then show ?thesis
        using value_syntax_start [OF last_element(3)] by (auto simp: skip_ws_to)
    next
      case (more_elements w1 u w2 q)
      then show ?thesis
        using value_syntax_start [OF more_elements(3)] by (auto simp: skip_ws_to)
    qed
    have "v_elements m (t @ 0x5D # r) = Accept r" using array(2) n m by auto
    then show "v_value n (w @ (0x5B # t @ [0x5D]) @ r) = Accept r"
      using s by (simp add: m v_value.simps(2) v_array.simps(2) skip_ws_to [OF w] is_whitespace_def)
  qed
next
  case (object t)
  show ?case
  proof (intro allI impI)
    fix w r n assume w: "ws w" and n: "4 * length (0x7B # t @ [0x7D]) \<le> n"
    obtain m where m: "n = Suc (Suc m)" using n by (cases n; cases "n - 1") auto
    obtain w1 u where t: "t = w1 @ 0x22 # u" "ws w1"
      using object(1) by (cases rule: members_syntax.cases) auto
    have s: "v_skip_whitespace (t @ 0x7D # r) = 0x22 # u @ 0x7D # r"
      using t skip_ws_to [OF t(2), of "0x22" "u @ 0x7D # r"] by (simp add: is_whitespace_def)
    have "v_members m (t @ 0x7D # r) = Accept r" using object(2) n m by auto
    then show "v_value n (w @ (0x7B # t @ [0x7D]) @ r) = Accept r"
      using s v_skip_absorbed(3) [of m "t @ 0x7D # r"]
      by (simp add: m v_value.simps(2) v_object.simps(2) skip_ws_to [OF w] is_whitespace_def)
  qed
next
  case (last_element w1 t w2)
  show ?case
  proof (intro allI impI)
    fix r n assume n: "4 * length (w1 @ t @ w2) + 1 \<le> n"
    obtain m where m: "n = Suc m" using n by (cases n) auto
    have w: "ws w1" "ws w2" using last_element by simp_all
    have "num_stop (w2 @ 0x5D # r)" using w(2) by (intro ws_num_stop) simp_all
    then have "v_value m (w1 @ t @ w2 @ 0x5D # r) = Accept (w2 @ 0x5D # r)"
      using last_element w n by (simp add: m)
    then show "v_elements n ((w1 @ t @ w2) @ 0x5D # r) = Accept r"
      using skip_ws_to [OF w(2)] by (simp add: m v_elements.simps(2) is_whitespace_def)
  qed
next
  case (more_elements w1 t w2 q)
  show ?case
  proof (intro allI impI)
    fix r n assume n: "4 * length (w1 @ t @ w2 @ 0x2C # q) + 1 \<le> n"
    obtain m where m: "n = Suc m" using n by (cases n) auto
    have w: "ws w1" "ws w2" using more_elements by simp_all
    have "num_stop (w2 @ 0x2C # q @ 0x5D # r)" using w(2) by (intro ws_num_stop) simp_all
    then have "v_value m (w1 @ t @ w2 @ 0x2C # q @ 0x5D # r) = Accept (w2 @ 0x2C # q @ 0x5D # r)"
      using more_elements w n by (simp add: m)
    moreover have "v_elements m (q @ 0x5D # r) = Accept r" using more_elements n by (simp add: m)
    ultimately show "v_elements n ((w1 @ t @ w2 @ 0x2C # q) @ 0x5D # r) = Accept r"
      using skip_ws_to [OF w(2)] by (simp add: m v_elements.simps(2) is_whitespace_def)
  qed
next
  case (last_member w1 raw s w2 w3 t w4)
  show ?case
  proof (intro allI impI)
    fix r n assume n: "4 * length (w1 @ 0x22 # raw @ 0x22 # w2 @ 0x3A # w3 @ t @ w4) + 1 \<le> n"
    obtain m where m: "n = Suc m" using n by (cases n) auto
    have w: "ws w1" "ws w2" "ws w3" "ws w4" "string_text raw s" using last_member by simp_all
    have "num_stop (w4 @ 0x7D # r)" using w(4) by (intro ws_num_stop) simp_all
    then have "v_value m (w3 @ t @ w4 @ 0x7D # r) = Accept (w4 @ 0x7D # r)"
      using last_member w n by (simp add: m)
    then show "v_members n ((w1 @ 0x22 # raw @ 0x22 # w2 @ 0x3A # w3 @ t @ w4) @ 0x7D # r) = Accept r"
      using skip_ws_to [OF w(1)] skip_ws_to [OF w(2)] skip_ws_to [OF w(4)] scan_string_complete [OF w(5)]
      by (simp add: m v_members.simps(2) is_whitespace_def)
  qed
next
  case (more_members w1 raw s w2 w3 t w4 q)
  show ?case
  proof (intro allI impI)
    fix r n assume n: "4 * length (w1 @ 0x22 # raw @ 0x22 # w2 @ 0x3A # w3 @ t @ w4 @ 0x2C # q) + 1 \<le> n"
    obtain m where m: "n = Suc m" using n by (cases n) auto
    have w: "ws w1" "ws w2" "ws w3" "ws w4" "string_text raw s" using more_members by simp_all
    have "num_stop (w4 @ 0x2C # q @ 0x7D # r)" using w(4) by (intro ws_num_stop) simp_all
    then have "v_value m (w3 @ t @ w4 @ 0x2C # q @ 0x7D # r) = Accept (w4 @ 0x2C # q @ 0x7D # r)"
      using more_members w n by (simp add: m)
    moreover have "v_members m (q @ 0x7D # r) = Accept r" using more_members n by (simp add: m)
    ultimately show "v_members n ((w1 @ 0x22 # raw @ 0x22 # w2 @ 0x3A # w3 @ t @ w4 @ 0x2C # q) @ 0x7D # r) = Accept r"
      using skip_ws_to [OF w(1)] skip_ws_to [OF w(2)] skip_ws_to [OF w(4)] scan_string_complete [OF w(5)]
      by (simp add: m v_members.simps(2) is_whitespace_def)
  qed
qed

lemma v_sound:
  "v_value n p = Accept r \<Longrightarrow> \<exists>w t. p = w @ t @ r \<and> ws w \<and> value_syntax any_number t"
  "v_array n p = Accept r \<Longrightarrow> value_syntax any_number (0x5B # take (length p - length r) p) \<and> (\<exists>t. p = t @ r)"
  "v_elements n p = Accept r \<Longrightarrow> \<exists>t. p = t @ 0x5D # r \<and> elements_syntax any_number t"
  "v_object n p = Accept r \<Longrightarrow> value_syntax any_number (0x7B # take (length p - length r) p) \<and> (\<exists>t. p = t @ r)"
  "v_members n p = Accept r \<Longrightarrow> \<exists>t. p = t @ 0x7D # r \<and> members_syntax any_number t"
proof (induction n p and n p and n p and n p and n p arbitrary: r and r and r and r and r
    rule: v_value_v_array_v_elements_v_object_v_members.induct)
  case (2 n p)
  obtain w where w: "p = w @ v_skip_whitespace p" "ws w" using skip_ws_split by blast
  obtain c q where c: "v_skip_whitespace p = c # q" using "2.prems" by (cases "v_skip_whitespace p") (auto simp: v_value.simps(2))
  note d = "2.prems" [unfolded v_value.simps(2) c list.case]
  have "\<exists>t. c # q = t @ r \<and> value_syntax any_number t"
  proof (cases "c = 0x74 \<or> c = 0x66 \<or> c = 0x6E")
    case True
    then show ?thesis using d by (auto simp: v_match_literal_Accept intro: literal split: if_splits)
  next
    case nl: False
    consider "c = 0x22" | "c = 0x5B" | "c = 0x7B" | "c \<noteq> 0x22 \<and> c \<noteq> 0x5B \<and> c \<noteq> 0x7B" by blast
    then show ?thesis
    proof cases
      case 1
      then obtain raw s where "q = raw @ 0x22 # r" "string_text raw s"
        using d scan_string_sound [of q r] by auto
      then show ?thesis using 1 by (intro exI [of _ "0x22 # raw @ [0x22]"]) (auto intro: string)
    next
      case ar: 2
      then have "v_array n q = Accept r" using d by simp
      then have "value_syntax any_number (0x5B # take (length q - length r) q)" "\<exists>t. q = t @ r"
        using "2.IH"(1) [OF c] ar by auto
      then show ?thesis using ar by auto
    next
      case ob: 3
      then have "v_object n q = Accept r" using d by simp
      then have "value_syntax any_number (0x7B # take (length q - length r) q)" "\<exists>t. q = t @ r"
        using "2.IH"(2) [OF c] ob by auto
      then show ?thesis using ob by auto
    next
      case 4
      then have v: "validate_number (c # q) = Accept r" using d nl by simp
      obtain e k sc where s: "scan_number (c # q) = (e, k, sc)" by (cases "scan_number (c # q)")
      have e: "e = NumOk" "r = drop k (c # q)"
        using v by (auto simp: validate_number_def s split: if_splits)
      obtain neg ip fr ex where "number_parts neg ip fr ex (take k (c # q))"
        using scan_number_sound [OF s [unfolded e(1)]] by blast
      then have "value_syntax any_number (take k (c # q))" by (auto intro: number)
      then show ?thesis using e(2) append_take_drop_id by metis
    qed
  qed
  then show ?case using w c by metis
next
  case (4 n p)
  obtain w where w: "p = w @ v_skip_whitespace p" "ws w" using skip_ws_split by blast
  let ?q = "v_skip_whitespace p"
  show ?case
  proof (cases "?q \<noteq> [] \<and> hd ?q = 0x5D")
    case True
    then have "?q = 0x5D # r" using "4.prems" by (cases ?q) (auto simp: v_array.simps(2))
    then have "p = w @ [0x5D] @ r" using w(1) by simp
    then show ?thesis using empty_array [OF w(2)] by simp
  next
    case False
    then have m: "v_elements n ?q = Accept r"
      using "4.prems" by (simp add: v_array.simps(2) Let_def if_not_P del: v_skip_absorbed)
    obtain t where "?q = t @ 0x5D # r" "elements_syntax any_number t" using "4.IH" [OF refl False m] by blast
    then have "p = (w @ t) @ [0x5D] @ r" "elements_syntax any_number (w @ t)"
      using w elements_syntax_prefix by auto
    then show ?thesis using array [of any_number "w @ t"] by simp
  qed
next
  case (6 n p)
  obtain r1 where r1: "v_value n p = Accept r1" using "6.prems" by (auto simp: v_elements.simps(2) v_bind_Accept)
  obtain w t where t: "p = w @ t @ r1" "ws w" "value_syntax any_number t" using "6.IH"(1) [OF r1] by blast
  obtain w2 where w2: "r1 = w2 @ v_skip_whitespace r1" "ws w2" using skip_ws_split by blast
  obtain c q where c: "v_skip_whitespace r1 = c # q"
    using "6.prems" r1 by (cases "v_skip_whitespace r1") (auto simp: v_elements.simps(2))
  have "c = 0x5D \<and> q = r \<or> c = 0x2C \<and> c \<noteq> 0x5D \<and> v_elements n (v_skip_whitespace q) = Accept r"
    using "6.prems" r1 c by (auto simp: v_elements.simps(2) split: if_splits)
  then show ?case
  proof
    assume "c = 0x5D \<and> q = r"
    then show ?thesis
      using t w2 c last_element [OF t(2,3) w2(2)] by (intro exI [of _ "w @ t @ w2"]) auto
  next
    assume k: "c = 0x2C \<and> c \<noteq> 0x5D \<and> v_elements n (v_skip_whitespace q) = Accept r"
    obtain w3 where w3: "q = w3 @ v_skip_whitespace q" "ws w3" using skip_ws_split by blast
    obtain u where u: "v_skip_whitespace q = u @ 0x5D # r" "elements_syntax any_number u"
      using "6.IH"(2) [of r1 c q r] r1 c k by blast
    have "elements_syntax any_number (w @ t @ w2 @ 0x2C # (w3 @ u))"
      by (rule more_elements [OF t(2,3) w2(2)]) (rule elements_syntax_prefix [OF w3(2) u(2)])
    moreover have "p = (w @ t @ w2 @ 0x2C # (w3 @ u)) @ 0x5D # r"
      using t(1) w2(1) c k w3(1) u(1) by (metis append.assoc append_Cons)
    ultimately show ?thesis by blast
  qed
next
  case (8 n p)
  obtain w where w: "p = w @ v_skip_whitespace p" "ws w" using skip_ws_split by blast
  let ?q = "v_skip_whitespace p"
  show ?case
  proof (cases "?q \<noteq> [] \<and> hd ?q = 0x7D")
    case True
    then have "?q = 0x7D # r" using "8.prems" by (cases ?q) (auto simp: v_object.simps(2))
    then have "p = w @ [0x7D] @ r" using w(1) by simp
    then show ?thesis using empty_object [OF w(2)] by simp
  next
    case False
    then have m: "v_members n ?q = Accept r"
      using "8.prems" by (simp add: v_object.simps(2) Let_def if_not_P del: v_skip_absorbed)
    obtain t where "?q = t @ 0x7D # r" "members_syntax any_number t" using "8.IH" [OF refl False m] by blast
    then have "p = (w @ t) @ [0x7D] @ r" "members_syntax any_number (w @ t)"
      using w members_syntax_prefix by auto
    then show ?thesis using object [of any_number "w @ t"] by simp
  qed
next
  case (10 n p)
  obtain w1 where w1: "p = w1 @ v_skip_whitespace p" "ws w1" using skip_ws_split by blast
  have q: "v_skip_whitespace p \<noteq> []" "hd (v_skip_whitespace p) = 0x22"
    using "10.prems" by (auto simp: v_members.simps(2) Let_def split: if_splits)
  obtain r1 where r1: "scan_string (tl (v_skip_whitespace p)) = Accept r1"
    using "10.prems" q by (auto simp: v_members.simps(2) Let_def v_bind_Accept)
  obtain raw s where raw: "tl (v_skip_whitespace p) = raw @ 0x22 # r1" "string_text raw s"
    using scan_string_sound [OF r1] by blast
  obtain w2 where w2: "r1 = w2 @ v_skip_whitespace r1" "ws w2" using skip_ws_split by blast
  have k: "v_skip_whitespace r1 \<noteq> []" "hd (v_skip_whitespace r1) = 0x3A"
    using "10.prems" q r1 by (auto simp: v_members.simps(2) Let_def split: if_splits)
  obtain r2 where r2: "v_value n (tl (v_skip_whitespace r1)) = Accept r2"
    using "10.prems" q r1 k by (auto simp: v_members.simps(2) Let_def v_bind_Accept)
  obtain w3 t where t: "tl (v_skip_whitespace r1) = w3 @ t @ r2" "ws w3" "value_syntax any_number t"
    using "10.IH"(1) [OF refl _ refl _ r2] q k by auto
  obtain w4 where w4: "r2 = w4 @ v_skip_whitespace r2" "ws w4" using skip_ws_split by blast
  obtain c u where c: "v_skip_whitespace r2 = c # u"
    using "10.prems" q r1 k r2 by (cases "v_skip_whitespace r2") (auto simp: v_members.simps(2))
  have p: "p = w1 @ 0x22 # raw @ 0x22 # w2 @ 0x3A # w3 @ t @ w4 @ c # u"
  proof -
    have "v_skip_whitespace r1 = 0x3A # w3 @ t @ w4 @ c # u" using k t(1) w4(1) c list.collapse by metis
    then have "r1 = w2 @ 0x3A # w3 @ t @ w4 @ c # u" using w2(1) by simp
    then have "v_skip_whitespace p = 0x22 # raw @ 0x22 # w2 @ 0x3A # w3 @ t @ w4 @ c # u"
      using q raw(1) list.collapse by metis
    then show ?thesis using w1(1) by simp
  qed
  have "c = 0x7D \<and> u = r \<or> c = 0x2C \<and> v_members n u = Accept r"
    using "10.prems" q r1 k r2 c by (auto simp: v_members.simps(2) Let_def split: if_splits)
  then show ?case
  proof
    assume "c = 0x7D \<and> u = r"
    then show ?thesis
      using p last_member [OF w1(2) raw(2) w2(2) t(2,3) w4(2)]
      by (intro exI [of _ "w1 @ 0x22 # raw @ 0x22 # w2 @ 0x3A # w3 @ t @ w4"]) auto
  next
    assume m: "c = 0x2C \<and> v_members n u = Accept r"
    obtain t' where t': "u = t' @ 0x7D # r" "members_syntax any_number t'"
      using "10.IH"(2) [OF refl _ refl _ c, of r1 r] q k m by auto
    then show ?thesis
      using p m more_members [OF w1(2) raw(2) w2(2) t(2,3) w4(2) t'(2)]
      by (intro exI [of _ "w1 @ 0x22 # raw @ 0x22 # w2 @ 0x3A # w3 @ t @ w4 @ 0x2C # t'"]) auto
  qed
qed simp_all

lemma v_skip_length: "length (v_skip_whitespace p) \<le> length p"
  by (induction p) auto

lemma v_skip_Cons_length: "v_skip_whitespace p = c # q \<Longrightarrow> length q < length p"
  using v_skip_length [of p] by simp

lemma scan_string_length: "scan_string p = Accept r \<Longrightarrow> length r < length p"
  using scan_string_sound by fastforce

lemma v_value_length: "v_value n p = Accept r \<Longrightarrow> length r \<le> length p"
  using v_sound(1) by fastforce

lemma v_bind_total: "m \<noteq> Exhausted \<Longrightarrow> (\<And>r. m = Accept r \<Longrightarrow> f r \<noteq> Exhausted) \<Longrightarrow> v_bind m f \<noteq> Exhausted"
  by (cases m) auto

lemma v_total:
  "4 * length p < n \<Longrightarrow> v_value n p \<noteq> Exhausted"
  "4 * length p + 2 < n \<Longrightarrow> v_array n p \<noteq> Exhausted"
  "4 * length p + 1 < n \<Longrightarrow> v_elements n p \<noteq> Exhausted"
  "4 * length p + 2 < n \<Longrightarrow> v_object n p \<noteq> Exhausted"
  "4 * length p + 1 < n \<Longrightarrow> v_members n p \<noteq> Exhausted"
proof (induction n p and n p and n p and n p and n p rule: v_value_v_array_v_elements_v_object_v_members.induct)
  case (2 n p)
  show ?case
  proof (cases "v_skip_whitespace p")
    case (Cons c q)
    have l: "4 * length q + 2 < n" using v_skip_Cons_length [OF Cons] "2.prems" by simp
    have "validate_number (c # q) \<noteq> Exhausted" and m: "v_match_literal u s \<noteq> Exhausted" for u s
      by (simp_all add: validate_number_def v_match_literal_def split: prod.splits)
    then show ?thesis
      using "2.IH"(1) [OF Cons] "2.IH"(2) [OF Cons] l scan_string_total [of q] Cons
      by (simp add: v_value.simps(2) m)
  qed (simp add: v_value.simps(2))
next
  case (4 n p)
  have "4 * length (v_skip_whitespace p) + 1 < n" using v_skip_length [of p] "4.prems" by linarith
  then show ?case using "4.IH" [OF refl] by (simp add: v_array.simps(2) Let_def del: v_skip_absorbed)
next
  case (6 n p)
  show ?case
    unfolding v_elements.simps(2)
  proof (rule v_bind_total)
    show "v_value n p \<noteq> Exhausted" using "6.IH"(1) "6.prems" by simp
    fix r assume r: "v_value n p = Accept r"
    show "(case v_skip_whitespace r of [] \<Rightarrow> Reject
       | c # q \<Rightarrow> if c = 0x5D then Accept q else if c \<noteq> 0x2C then Reject else v_elements n (v_skip_whitespace q))
       \<noteq> Exhausted"
    proof (cases "v_skip_whitespace r")
      case (Cons c q)
      have "4 * length (v_skip_whitespace q) + 1 < n"
        using v_skip_Cons_length [OF Cons] v_value_length [OF r] v_skip_length [of q] "6.prems" by linarith
      then show ?thesis using "6.IH"(2) [OF Cons] Cons by (simp del: v_skip_absorbed)
    qed simp
  qed
next
  case (8 n p)
  have "4 * length (v_skip_whitespace p) + 1 < n" using v_skip_length [of p] "8.prems" by linarith
  then show ?case using "8.IH" [OF refl] by (simp add: v_object.simps(2) Let_def del: v_skip_absorbed)
next
  case (10 n p)
  show ?case
  proof (cases "v_skip_whitespace p = [] \<or> hd (v_skip_whitespace p) \<noteq> 0x22")
    case False
    show ?thesis
      unfolding v_members.simps(2) Let_def if_not_P [OF False]
    proof (rule v_bind_total [OF scan_string_total])
      fix r assume r: "scan_string (tl (v_skip_whitespace p)) = Accept r"
      have lr: "length r < length p" using scan_string_length [OF r] v_skip_length [of p] by simp
      show "(if v_skip_whitespace r = [] \<or> hd (v_skip_whitespace r) \<noteq> 0x3A then Reject
         else v_bind (v_value n (tl (v_skip_whitespace r))) (\<lambda>r. case v_skip_whitespace r of [] \<Rightarrow> Reject
           | c # q \<Rightarrow> if c = 0x7D then Accept q else if c \<noteq> 0x2C then Reject else v_members n q)) \<noteq> Exhausted"
      proof (cases "v_skip_whitespace r = [] \<or> hd (v_skip_whitespace r) \<noteq> 0x3A")
        case k: False
        have l: "4 * length (tl (v_skip_whitespace r)) < n" using v_skip_length [of r] lr "10.prems" by simp
        show ?thesis
          unfolding if_not_P [OF k]
        proof (rule v_bind_total)
          show "v_value n (tl (v_skip_whitespace r)) \<noteq> Exhausted" using "10.IH"(1) [OF refl False refl k l] .
          fix r2 assume r2: "v_value n (tl (v_skip_whitespace r)) = Accept r2"
          show "(case v_skip_whitespace r2 of [] \<Rightarrow> Reject
             | c # q \<Rightarrow> if c = 0x7D then Accept q else if c \<noteq> 0x2C then Reject else v_members n q) \<noteq> Exhausted"
          proof (cases "v_skip_whitespace r2")
            case (Cons c q)
            have "4 * length q + 1 < n"
              using v_skip_Cons_length [OF Cons] v_value_length [OF r2] v_skip_length [of r] lr "10.prems" by simp
            then show ?thesis using "10.IH"(2) [OF refl False refl k Cons] Cons by simp
          qed simp
        qed
      qed simp
    qed
  qed (simp add: v_members.simps(2) Let_def)
qed simp_all

text \<open>The whole source, white space around it.\<close>

lemma ws_follows: "ws w \<Longrightarrow> num_stop w"
  by (cases w) (auto simp: ws_def num_stop_def is_whitespace_def is_dec_digit_def)

lemma const_parse_accepts: "const_parse t = Some (json_syntax any_number t)"
proof (cases "v_value (4 * length t + 4) t")
  case (Accept r)
  obtain w u where u: "t = w @ u @ r" "ws w" "value_syntax any_number u" using v_sound(1) [OF Accept] by blast
  obtain w2 where w2: "r = w2 @ v_skip_whitespace r" "ws w2" using skip_ws_split by blast
  have "v_skip_whitespace r = [] \<longleftrightarrow> json_syntax any_number t"
  proof
    assume "v_skip_whitespace r = []"
    then show "json_syntax any_number t" using u w2 by (auto simp: json_syntax_def)
  next
    assume "json_syntax any_number t"
    then obtain w1 u' w3 where t: "t = w1 @ u' @ w3" "ws w1" "ws w3" "value_syntax any_number u'"
      by (auto simp: json_syntax_def)
    have "v_value (4 * length t + 4) t = Accept w3"
      using v_complete(1) [OF t(4)] t(2) ws_follows [OF t(3)] by (simp add: t(1))
    then have "r = w3" using Accept by simp
    then show "v_skip_whitespace r = []" using skip_ws_append [OF t(3), of "[]"] by simp
  qed
  then show ?thesis by (simp add: const_parse_def Accept)
next
  case Reject
  have "\<not> json_syntax any_number t"
  proof
    assume "json_syntax any_number t"
    then obtain w1 u' w3 where t: "t = w1 @ u' @ w3" "ws w1" "ws w3" "value_syntax any_number u'"
      by (auto simp: json_syntax_def)
    then show False using v_complete(1) [OF t(4)] ws_follows [OF t(3)] Reject by simp
  qed
  then show ?thesis by (simp add: const_parse_def Reject)
next
  case Exhausted
  then show ?thesis using v_total(1) [of t "4 * length t + 4"] by simp
qed

section \<open>The two parsers agree\<close>

text \<open>Number tokens that the run-time parser accepts: inside the range of a double.\<close>

definition in_range :: "bool \<Rightarrow> bytes \<Rightarrow> bytes \<Rightarrow> bytes \<Rightarrow> bool" where
  "in_range neg ip fr ex \<longleftrightarrow> token_value neg ip fr ex \<noteq> (None :: jvalue option)"

lemma value_text_syntax:
  "value_text R d t v \<Longrightarrow> value_syntax in_range t"
  "elements_text R d t vs \<Longrightarrow> elements_syntax in_range t"
  "members_text R d acc t es \<Longrightarrow> members_syntax in_range t"
proof (induction rule: value_text_elements_text_members_text.inducts)
  case (number neg ip fr ex t v d)
  then show ?case by (auto simp: in_range_def intro: value_syntax_elements_syntax_members_syntax.number)
next
  case (string t s d)
  then show ?case by (auto simp: quoted_def intro: value_syntax_elements_syntax_members_syntax.string)
next
  case (last_member w1 kt k acc w2 w3 d t v w4)
  then show ?case by (auto simp: quoted_def intro: value_syntax_elements_syntax_members_syntax.last_member)
next
  case (more_members w1 kt k acc w2 w3 d t v w4 r es)
  then show ?case by (auto simp: quoted_def intro: value_syntax_elements_syntax_members_syntax.more_members)
qed (auto intro: value_syntax_elements_syntax_members_syntax.intros)

abbreviation lenient :: rules where
  "lenient \<equiv> \<lparr>r_strict_utf8 = False, r_strict_dup = False\<rparr>"

lemma value_syntax_text:
  "value_syntax in_range t \<Longrightarrow> \<exists>d v. value_text lenient d t v"
  "elements_syntax in_range t \<Longrightarrow> \<exists>d vs. elements_text lenient d t vs"
  "members_syntax in_range t \<Longrightarrow> \<forall>acc. \<exists>d es. members_text lenient d acc t es"
proof (induction rule: value_syntax_elements_syntax_members_syntax.inducts)
  case (literal t)
  then show ?case by (auto intro: value_text_elements_text_members_text.intros)
next
  case (number neg ip fr ex t)
  then show ?case by (auto simp: in_range_def intro: value_text_elements_text_members_text.number)
next
  case (string raw s)
  then have "quoted lenient (0x22 # raw @ [0x22]) s" by (auto simp: quoted_def)
  then show ?case by (auto intro: value_text_elements_text_members_text.string)
next
  case (more_elements w1 t w2 r)
  then obtain d v d' vs where "value_text lenient d t v" "elements_text lenient d' r vs" by blast
  then have "value_text lenient (max d d') t v" "elements_text lenient (max d d') r vs"
    by (auto intro: value_mono elements_mono)
  then show ?case using more_elements by (blast intro: value_text_elements_text_members_text.more_elements)
next
  case (last_member w1 raw s w2 w3 t w4)
  then obtain d v where v: "value_text lenient d t v" by blast
  have q: "quoted lenient (0x22 # raw @ [0x22]) s" using last_member by (auto simp: quoted_def)
  show ?case
  proof
    fix acc
    have "members_text lenient d acc (w1 @ (0x22 # raw @ [0x22]) @ w2 @ 0x3A # w3 @ t @ w4) (obj_put acc s v)"
      using last_member v q by (intro value_text_elements_text_members_text.last_member) (simp_all add: member_ok_def)
    then show "\<exists>d es. members_text lenient d acc (w1 @ 0x22 # raw @ 0x22 # w2 @ 0x3A # w3 @ t @ w4) es" by auto
  qed
next
  case (more_members w1 raw s w2 w3 t w4 r)
  then obtain d v where v: "value_text lenient d t v" by blast
  have q: "quoted lenient (0x22 # raw @ [0x22]) s" using more_members by (auto simp: quoted_def)
  show ?case
  proof
    fix acc
    obtain d' es where es: "members_text lenient d' (obj_put acc s v) r es" using more_members by blast
    have "members_text lenient (max d d') acc (w1 @ (0x22 # raw @ [0x22]) @ w2 @ 0x3A # w3 @ t @ w4 @ 0x2C # r) es"
      using more_members q value_mono [OF v] members_mono [OF es]
      by (intro value_text_elements_text_members_text.more_members [where v = v and k = s]) (simp_all add: member_ok_def)
    then show "\<exists>d es. members_text lenient d acc (w1 @ 0x22 # raw @ 0x22 # w2 @ 0x3A # w3 @ t @ w4 @ 0x2C # r) es"
      by auto
  qed
qed (blast intro: value_text_elements_text_members_text.intros)+

lemma syntax_widen:
  "value_syntax N t \<Longrightarrow> value_syntax any_number t"
  "elements_syntax N t \<Longrightarrow> elements_syntax any_number t"
  "members_syntax N t \<Longrightarrow> members_syntax any_number t"
  by (induction rule: value_syntax_elements_syntax_members_syntax.inducts)
    (auto intro: value_syntax_elements_syntax_members_syntax.intros)

lemma json_text_syntax: "(\<exists>d v. json_text lenient d t v) \<longleftrightarrow> json_syntax in_range t"
  unfolding json_text_def json_syntax_def using value_text_syntax(1) value_syntax_text(1) by metis

section \<open>The properties\<close>

lemma accepted_text:
  assumes "\<not> cfg_json5 cfg" "platform_ok pl" "length t < 2 ^ 32"
  shows "(\<exists>doc. parse_copy_impl cfg pl t = Ok doc) \<longleftrightarrow> (\<exists>v. denotes cfg t v)"
  using parse_copy_iff [OF assms] by (auto simp: yields_def)

text \<open>
  C22: the compile-time validator always answers, and it answers \<open>true\<close> exactly on the texts
  of the RFC 8259 grammar, with no bound on the nesting or on the size of numbers.
\<close>
theorem const_parse_exact:
  "const_parse source = Some (json_syntax any_number source)"
  by (rule const_parse_accepts)

text \<open>
  C23: compile-time and run-time parser agree.  Without a byte order mark, whatever
  \<^verbatim>\<open>parse_copy\<close> accepts passes the validator; and with the depth limit and the strict modes
  off, \<^verbatim>\<open>parse_copy\<close> accepts exactly the texts of the grammar whose number tokens are in
  the range of a double, which is the one difference between the two.
\<close>
theorem runtime_and_validator:
  assumes "\<not> cfg_json5 cfg" "platform_ok pl" "length t < 2 ^ 32" "without_bom cfg t = t"
  shows "((\<exists>doc. parse_copy_impl cfg pl t = Ok doc) \<longrightarrow> const_parse t = Some True) \<and>
    (rules_for cfg = lenient \<and> cfg_max_depth cfg = 0 \<longrightarrow>
      ((\<exists>doc. parse_copy_impl cfg pl t = Ok doc) \<longleftrightarrow> json_syntax in_range t))"
proof (intro conjI impI)
  note acc = accepted_text [OF assms(1-3)]
  show "const_parse t = Some True" if ok: "\<exists>doc. parse_copy_impl cfg pl t = Ok doc"
  proof -
    obtain d v where "json_text (rules_for cfg) d t v" using ok assms(4) unfolding acc by (auto simp: denotes_def)
    then have "json_syntax any_number t"
      unfolding json_text_def json_syntax_def using value_text_syntax(1) syntax_widen(1) by blast
    then show ?thesis by (simp add: const_parse_accepts)
  qed
  assume l: "rules_for cfg = lenient \<and> cfg_max_depth cfg = 0"
  then have "(\<exists>v. denotes cfg t v) \<longleftrightarrow> (\<exists>d v. json_text lenient d t v)"
    using assms(4) by (auto simp: denotes_def within_depth_def)
  then show "(\<exists>doc. parse_copy_impl cfg pl t = Ok doc) \<longleftrightarrow> json_syntax in_range t"
    unfolding acc json_text_syntax .
qed

theorem runtime_and_validator_witness:
  "const_parse (lit ''[true]'') = Some True"
proof -
  have "\<exists>doc. parse_copy_impl default_config sse2 (lit ''[true]'') = Ok doc"
    using accepted_text [of default_config sse2 "lit ''[true]''"] denotes_array_of_true sse2_ok
    by (auto simp: lit_def)
  then show ?thesis
    using runtime_and_validator [of default_config sse2 "lit ''[true]''"] sse2_ok
    by (simp add: lit_def without_bom_def starts_with_utf8_bom_def)
qed

end
