(* ===== verification/ConstJson.thy ===== *)
theory ConstJson
  imports ObjectOps WriterEntry
begin

unbundle bit_operations_syntax

text \<open>
  The compile-time values of \<^verbatim>\<open>include/pjh_json/json_constexpr.hpp\<close>: one C++ type per
  value, so that the shape of a value is its type.  \<^verbatim>\<open>to_runtime\<close> makes a \<^verbatim>\<open>Json\<close>;
  \<^verbatim>\<open>const_dump\<close> writes JSON text into a caller's buffer, with one traversal for the
  counting and for the writing sink.  The text is proved to be the one the run-time writer
  produces for the materialised value.
\<close>

section \<open>Values and their types\<close>

datatype const_kind = KindNull | KindBool | KindInt | KindDouble | KindString | KindArray | KindObject

datatype cjson =
    CNull
  | CBool bool
  | CInt u64
  | CDouble u64
  | CStr bytes
  | CArr "cjson list"
  | CObj "(bytes \<times> cjson) list"

fun kind_v :: "cjson \<Rightarrow> const_kind" where
  "kind_v CNull = KindNull"
| "kind_v (CBool b) = KindBool"
| "kind_v (CInt i) = KindInt"
| "kind_v (CDouble d) = KindDouble"
| "kind_v (CStr s) = KindString"
| "kind_v (CArr vs) = KindArray"
| "kind_v (CObj es) = KindObject"

text \<open>The C++ type of a value: the container templates list the types of their parts.\<close>

datatype ctype = TNull | TBool | TInt | TDouble | TStr | TArr "ctype list" | TObj "ctype list"

fun type_of :: "cjson \<Rightarrow> ctype" where
  "type_of CNull = TNull"
| "type_of (CBool b) = TBool"
| "type_of (CInt i) = TInt"
| "type_of (CDouble d) = TDouble"
| "type_of (CStr s) = TStr"
| "type_of (CArr vs) = TArr (map type_of vs)"
| "type_of (CObj es) = TObj (map (\<lambda>e. type_of (snd e)) es)"

text \<open>\<^verbatim>\<open>ConstJson::of\<close>: entries make an object, other arguments an array; a mix does not compile.\<close>

definition const_of :: "((bytes \<times> cjson) + cjson) list \<Rightarrow> cjson option" where
  "const_of args =
     (if args \<noteq> [] \<and> list_all isl args then Some (CObj (map projl args))
      else if list_all (\<lambda>a. \<not> isl a) args then Some (CArr (map projr args))
      else None)"

text \<open>Array and object access; an index outside the tuple does not compile.\<close>

definition const_get :: "cjson list \<Rightarrow> nat \<Rightarrow> cjson option" where
  "const_get elems i = (if i < length elems then Some (elems ! i) else None)"

definition const_front :: "cjson list \<Rightarrow> cjson option" where
  "const_front elems = (if 0 < length elems then Some (elems ! 0) else None)"

definition const_get_entry :: "(bytes \<times> cjson) list \<Rightarrow> nat \<Rightarrow> (bytes \<times> cjson) option" where
  "const_get_entry entries i = (if i < length entries then Some (entries ! i) else None)"

fun has_key :: "(bytes \<times> cjson) list \<Rightarrow> bytes \<Rightarrow> bool" where
  "has_key [] k = False"
| "has_key (e # es) k = (fst e = k \<or> has_key es k)"

definition const_find_one :: "ctype \<Rightarrow> bytes \<times> cjson \<Rightarrow> bytes \<Rightarrow> cjson option" where
  "const_find_one T e k =
     (if type_of (snd e) = T then (if fst e = k then Some (snd e) else None) else None)"

definition const_find :: "ctype \<Rightarrow> (bytes \<times> cjson) list \<Rightarrow> bytes \<Rightarrow> cjson option" where
  "const_find T entries k =
     foldl (\<lambda>r e. if r \<noteq> None then r else const_find_one T e k) None entries"

section \<open>Materialisation\<close>

text \<open>Members are inserted in order, so a repeated key keeps its place and its last value.\<close>

definition object_to_runtime :: "(bytes \<times> jvalue) list \<Rightarrow> jvalue" where
  "object_to_runtime es = JObj (foldl (\<lambda>acc e. obj_put acc (fst e) (snd e)) [] es)"

fun to_runtime :: "cjson \<Rightarrow> jvalue" where
  "to_runtime CNull = JNull"
| "to_runtime (CBool b) = JBool b"
| "to_runtime (CInt i) = JInt i"
| "to_runtime (CDouble d) = JFloat d"
| "to_runtime (CStr s) = JStr s"
| "to_runtime (CArr vs) = JArr (map to_runtime vs)"
| "to_runtime (CObj es) = object_to_runtime (map (\<lambda>e. (fst e, to_runtime (snd e))) es)"

section \<open>Dumping\<close>

fun const_json_has_double :: "cjson \<Rightarrow> bool" where
  "const_json_has_double (CDouble d) = True"
| "const_json_has_double (CArr vs) = list_ex const_json_has_double vs"
| "const_json_has_double (CObj es) = list_ex (\<lambda>e. const_json_has_double (snd e)) es"
| "const_json_has_double v = False"

text \<open>The two sinks.  The caller's buffer is what has been written into it and its capacity.\<close>

definition count_put :: "nat \<Rightarrow> byte \<Rightarrow> nat" where
  "count_put n c = n + 1"

record buf_sink =
  bs_data :: bytes
  bs_cap :: nat
  bs_written :: nat
  bs_overflow :: bool

definition buf_put :: "buf_sink \<Rightarrow> byte \<Rightarrow> buf_sink" where
  "buf_put s c =
     (if length (bs_data s) \<noteq> bs_cap s then s\<lparr>bs_data := bs_data s @ [c], bs_written := bs_written s + 1\<rparr>
      else s\<lparr>bs_overflow := True\<rparr>)"

definition put_str :: "('s \<Rightarrow> byte \<Rightarrow> 's) \<Rightarrow> 's \<Rightarrow> bytes \<Rightarrow> 's" where
  "put_str emit s t = foldl emit s t"

text \<open>
  \<^verbatim>\<open>const_dump_int\<close>: the magnitude is computed without overflow at the smallest integer,
  the digits are collected from the least significant one and written backwards.
\<close>

definition const_magnitude :: "u64 \<Rightarrow> u64" where
  "const_magnitude v = (if sint v < 0 then - (v + 1) + 1 else v)"

function const_digits :: "u64 \<Rightarrow> bytes" where
  "const_digits m =
     of_nat (48 + unat (m mod 10)) # (if m div 10 = 0 then [] else const_digits (m div 10))"
  by pat_completeness auto
termination
proof (relation "measure unat", goal_cases)
  case (2 m)
  have "unat m \<noteq> 0"
  proof
    assume "unat m = 0"
    then have "m = 0" by (intro word_eq_unat) simp
    then show False using 2 by simp
  qed
  then show ?case by (simp add: unat_div)
qed simp

declare const_digits.simps [simp del]

definition const_dump_int :: "('s \<Rightarrow> byte \<Rightarrow> 's) \<Rightarrow> 's \<Rightarrow> u64 \<Rightarrow> 's" where
  "const_dump_int emit s v =
     (let s = (if sint v < 0 then emit s 0x2D else s)
      in foldl emit s (rev (const_digits (const_magnitude v))))"

definition const_json_hex_lower :: bytes where
  "const_json_hex_lower = lit ''0123456789abcdef''"

definition const_dump_char :: "('s \<Rightarrow> byte \<Rightarrow> 's) \<Rightarrow> 's \<Rightarrow> byte \<Rightarrow> 's" where
  "const_dump_char emit s c =
     (if c = 0x22 then put_str emit s [0x5C, 0x22]
      else if c = 0x5C then put_str emit s [0x5C, 0x5C]
      else if c = 0x08 then put_str emit s [0x5C, 0x62]
      else if c = 0x0C then put_str emit s [0x5C, 0x66]
      else if c = 0x0A then put_str emit s [0x5C, 0x6E]
      else if c = 0x0D then put_str emit s [0x5C, 0x72]
      else if c = 0x09 then put_str emit s [0x5C, 0x74]
      else if c < 0x20 then
        put_str emit s [0x5C, 0x75, 0x30, 0x30, const_json_hex_lower ! unat (drop_bit 4 c AND 0xF),
                       const_json_hex_lower ! unat (c AND 0xF)]
      else emit s c)"

definition const_dump_string :: "('s \<Rightarrow> byte \<Rightarrow> 's) \<Rightarrow> 's \<Rightarrow> bytes \<Rightarrow> 's" where
  "const_dump_string emit s str = emit (foldl (const_dump_char emit) (emit s 0x22) str) 0x22"

text \<open>The folds over the tuple elements; \<open>first\<close> says that the index is 0.\<close>

fun cjson_weight :: "cjson \<Rightarrow> nat" where
  "cjson_weight (CArr vs) = Suc (sum_list (map (\<lambda>v. Suc (cjson_weight v)) vs))"
| "cjson_weight (CObj es) = Suc (sum_list (map (\<lambda>e. Suc (cjson_weight (snd e))) es))"
| "cjson_weight v = 0"

function const_dump_to :: "('s \<Rightarrow> byte \<Rightarrow> 's) \<Rightarrow> 's \<Rightarrow> cjson \<Rightarrow> 's"
and const_dump_array_elems :: "('s \<Rightarrow> byte \<Rightarrow> 's) \<Rightarrow> bool \<Rightarrow> 's \<Rightarrow> cjson list \<Rightarrow> 's"
and const_dump_object_entries :: "('s \<Rightarrow> byte \<Rightarrow> 's) \<Rightarrow> bool \<Rightarrow> 's \<Rightarrow> (bytes \<times> cjson) list \<Rightarrow> 's"
where
  "const_dump_to emit s CNull = put_str emit s (lit ''null'')"
| "const_dump_to emit s (CBool b) = put_str emit s (if b then lit ''true'' else lit ''false'')"
| "const_dump_to emit s (CInt i) = const_dump_int emit s i"
| "const_dump_to emit s (CDouble d) = s"
| "const_dump_to emit s (CStr t) = const_dump_string emit s t"
| "const_dump_to emit s (CArr vs) = emit (const_dump_array_elems emit True (emit s 0x5B) vs) 0x5D"
| "const_dump_to emit s (CObj es) = emit (const_dump_object_entries emit True (emit s 0x7B) es) 0x7D"
| "const_dump_array_elems emit first s [] = s"
| "const_dump_array_elems emit first s (v # vs) =
     const_dump_array_elems emit False (const_dump_to emit (if first then s else emit s 0x2C) v) vs"
| "const_dump_object_entries emit first s [] = s"
| "const_dump_object_entries emit first s ((k, v) # es) =
     const_dump_object_entries emit False
       (const_dump_to emit (emit (const_dump_string emit (if first then s else emit s 0x2C) k) 0x3A) v) es"
  by pat_completeness auto
termination
  by (relation "measure (\<lambda>x. case x of
        Inl (emit, s, v) \<Rightarrow> cjson_weight v
      | Inr (Inl (emit, first, s, vs)) \<Rightarrow> sum_list (map (\<lambda>v. Suc (cjson_weight v)) vs)
      | Inr (Inr (emit, first, s, es)) \<Rightarrow> sum_list (map (\<lambda>e. Suc (cjson_weight (snd e))) es))")
    auto

text \<open>
  The entry points; \<^term>\<open>None\<close> is the \<^verbatim>\<open>static_assert\<close> that refuses doubles.
  \<^verbatim>\<open>const_dump\<close> gives what it wrote into the buffer and the size it returns.
\<close>

definition const_dump_size :: "cjson \<Rightarrow> nat option" where
  "const_dump_size v = (if const_json_has_double v then None else Some (const_dump_to count_put 0 v))"

definition const_dump :: "cjson \<Rightarrow> nat \<Rightarrow> (bytes \<times> nat) option" where
  "const_dump v cap =
     (if const_json_has_double v then None
      else
        let s = const_dump_to buf_put \<lparr>bs_data = [], bs_cap = cap, bs_written = 0, bs_overflow = False\<rparr> v
        in Some (bs_data s, if bs_overflow s then 0 else bs_written s))"

record const_json_text =
  ct_data :: bytes
  ct_size :: nat
  ct_overflow :: bool

definition const_dump_text :: "nat \<Rightarrow> cjson \<Rightarrow> const_json_text option" where
  "const_dump_text cap v =
     (case const_dump v cap of
        None \<Rightarrow> None
      | Some (d, n) \<Rightarrow>
          Some (if n = 0 then \<lparr>ct_data = d, ct_size = 0, ct_overflow = True\<rparr>
                else \<lparr>ct_data = d, ct_size = n, ct_overflow = False\<rparr>))"

section \<open>The text of a value\<close>

definition int_text :: "u64 \<Rightarrow> bytes" where
  "int_text i = (if sint i < 0 then 0x2D # dec (nat (- sint i)) else dec (nat (sint i)))"

function ctext :: "cjson \<Rightarrow> bytes"
and celements :: "bool \<Rightarrow> cjson list \<Rightarrow> bytes"
and centries :: "bool \<Rightarrow> (bytes \<times> cjson) list \<Rightarrow> bytes"
where
  "ctext CNull = lit ''null''"
| "ctext (CBool b) = (if b then lit ''true'' else lit ''false'')"
| "ctext (CInt i) = int_text i"
| "ctext (CDouble d) = []"
| "ctext (CStr t) = 0x22 # escaped t @ [0x22]"
| "ctext (CArr vs) = 0x5B # celements True vs @ [0x5D]"
| "ctext (CObj es) = 0x7B # centries True es @ [0x7D]"
| "celements first [] = []"
| "celements first (v # vs) = (if first then [] else [0x2C]) @ ctext v @ celements False vs"
| "centries first [] = []"
| "centries first ((k, v) # es) =
     (if first then [] else [0x2C]) @ 0x22 # escaped k @ 0x22 # 0x3A # ctext v @ centries False es"
  by pat_completeness auto
termination
  by (relation "measure (\<lambda>x. case x of
        Inl v \<Rightarrow> cjson_weight v
      | Inr (Inl (first, vs)) \<Rightarrow> sum_list (map (\<lambda>v. Suc (cjson_weight v)) vs)
      | Inr (Inr (first, es)) \<Rightarrow> sum_list (map (\<lambda>e. Suc (cjson_weight (snd e))) es))")
    auto

lemma const_digits_dec: "rev (const_digits m) = dec (unat m)"
proof (induction m rule: const_digits.induct)
  case (1 m)
  have d: "unat (m div 10) = unat m div 10" and r: "unat (m mod 10) = unat m mod 10"
    by (simp_all add: unat_div unat_mod)
  have z: "m div 10 = 0 \<longleftrightarrow> unat m < 10"
    using d by (metis div_eq_0_iff unat_eq_zero zero_neq_numeral)
  show ?case
  proof (cases "m div 10 = 0")
    case True
    then show ?thesis using z r by (subst const_digits.simps, subst dec.simps) simp
  next
    case False
    then have "dec (unat m) = dec (unat m div 10) @ [of_nat (48 + unat m mod 10)]"
      using z by (subst dec.simps) simp
    then show ?thesis
      using False 1 d r by (subst const_digits.simps) (simp del: of_nat_add)
  qed
qed

lemma const_magnitude_unat:
  "unat (const_magnitude v) = (if sint v < 0 then nat (- sint v) else nat (sint v))"
proof (cases "sint v < 0")
  case True
  have "- v = word_of_nat (nat (- sint v))" using word_of_nat_sint(2) [OF True] by (metis minus_minus)
  moreover have "nat (- sint v) < 2 ^ 64" using sint_bounds(1) [of v] by simp
  ultimately have "unat (- v) = nat (- sint v)" by (simp add: unat_of_nat)
  then show ?thesis using True by (simp add: const_magnitude_def)
next
  case False
  have "v = word_of_nat (nat (sint v))" using word_of_nat_sint(1) [of v] False by simp
  moreover have "nat (sint v) < 2 ^ 64" using sint_bounds(2) [of v] by simp
  ultimately have "unat v = nat (sint v)" using unat_of_nat [of "nat (sint v)", where 'a = 64] by simp
  then show ?thesis using False by (simp add: const_magnitude_def)
qed

lemma const_dump_int_text: "const_dump_int emit s v = foldl emit s (int_text v)"
  by (simp add: const_dump_int_def int_text_def const_digits_dec const_magnitude_unat Let_def)

lemma const_dump_char_text: "const_dump_char emit s c = foldl emit s (escape_byte c)"
proof -
  have h: "const_json_hex_lower = HEX" by (simp add: const_json_hex_lower_def HEX_def)
  show ?thesis
    by (simp add: const_dump_char_def put_str_def escape_byte_def needs_escape_def append_escape_def h)
qed

lemma const_dump_string_text: "const_dump_string emit s t = foldl emit s (0x22 # escaped t @ [0x22])"
proof -
  have "foldl (const_dump_char emit) s t = foldl emit s (escaped t)" for s
    by (induction t arbitrary: s) (simp_all add: const_dump_char_text)
  then show ?thesis by (simp add: const_dump_string_def)
qed

text \<open>Both sinks receive the bytes of the text, one after the other.\<close>

lemma const_dump_emits:
  "\<not> const_json_has_double v \<Longrightarrow> const_dump_to emit s v = foldl emit s (ctext v)"
  "list_all (\<lambda>v. \<not> const_json_has_double v) vs \<Longrightarrow>
     const_dump_array_elems emit first s vs = foldl emit s (celements first vs)"
  "list_all (\<lambda>e. \<not> const_json_has_double (snd e)) es \<Longrightarrow>
     const_dump_object_entries emit first s es = foldl emit s (centries first es)"
  by (induction emit s v and emit first s vs and emit first s es
      rule: const_dump_to_const_dump_array_elems_const_dump_object_entries.induct)
    (auto simp: put_str_def const_dump_int_text const_dump_string_text list_all_iff list_ex_iff)

lemma count_put_length: "foldl count_put n t = n + length t"
  by (induction t arbitrary: n) (simp_all add: count_put_def)

lemma buf_put_all:
  assumes "length (bs_data s) \<le> bs_cap s" "bs_written s = length (bs_data s)"
  shows "foldl buf_put s t =
    s\<lparr>bs_data := bs_data s @ take (bs_cap s - length (bs_data s)) t,
      bs_written := length (bs_data s) + length (take (bs_cap s - length (bs_data s)) t),
      bs_overflow := bs_overflow s \<or> bs_cap s < length (bs_data s) + length t\<rparr>"
  using assms
proof (induction t arbitrary: s)
  case (Cons c t)
  show ?case
  proof (cases "length (bs_data s) = bs_cap s")
    case True
    then have "buf_put s c = s\<lparr>bs_overflow := True\<rparr>" by (simp add: buf_put_def)
    then show ?thesis using True Cons.prems Cons.IH [of "s\<lparr>bs_overflow := True\<rparr>"] by simp
  next
    case False
    let ?s = "s\<lparr>bs_data := bs_data s @ [c], bs_written := bs_written s + 1\<rparr>"
    have b: "buf_put s c = ?s" using False by (simp add: buf_put_def)
    obtain k where k: "bs_cap s - length (bs_data s) = Suc k" "bs_cap s - Suc (length (bs_data s)) = k"
      using False Cons.prems by (cases "bs_cap s - length (bs_data s)") auto
    then show ?thesis using Cons.prems False Cons.IH [of ?s] by (simp add: b)
  qed
qed simp

lemma const_dump_size_text: "\<not> const_json_has_double v \<Longrightarrow> const_dump_size v = Some (length (ctext v))"
  by (simp add: const_dump_size_def const_dump_emits(1) count_put_length)

lemma const_dump_writes:
  assumes "\<not> const_json_has_double v"
  shows "const_dump v cap =
    Some (take cap (ctext v), if length (ctext v) \<le> cap then length (ctext v) else 0)"
  using assms by (simp add: const_dump_def const_dump_emits(1) buf_put_all not_less min_def)

section \<open>The same text as at run time\<close>

fun const_unique :: "cjson \<Rightarrow> bool" where
  "const_unique (CArr vs) = list_all const_unique vs"
| "const_unique (CObj es) = (distinct (map fst es) \<and> list_all (\<lambda>e. const_unique (snd e)) es)"
| "const_unique v = True"

lemma foldl_obj_put:
  assumes "distinct (map fst acc @ map fst es)"
  shows "foldl (\<lambda>acc e. obj_put acc (fst e) (snd e)) acc es = acc @ es"
  using assms
proof (induction es arbitrary: acc)
  case (Cons e es)
  have "obj_put acc (fst e) (snd e) = acc @ [e]"
    using Cons.prems by (simp add: obj_put_new)
  then show ?case using Cons by simp
qed simp

lemma to_runtime_obj:
  "distinct (map fst es) \<Longrightarrow> to_runtime (CObj es) = JObj (map (\<lambda>e. (fst e, to_runtime (snd e))) es)"
  using foldl_obj_put [of "[]" "map (\<lambda>e. (fst e, to_runtime (snd e))) es"] by (simp add: comp_def object_to_runtime_def)

lemma const_bindw_WOk: "bindw r f = WOk s \<longleftrightarrow> (\<exists>s1. r = WOk s1 \<and> f s1 = WOk s)"
  by (cases r) auto

lemma write_int_is_text: "write_int sink i = WOk sink' \<Longrightarrow> sink' = sink @ int_text i"
  by (auto simp: write_int_def to_chars_int_def int_text_def Let_def split: if_splits)

lemma compact_sel [simp]:
  "o_ascii compact_options = False" "indented compact_options d = []" "emission_order compact_options es = es"
  "o_pretty compact_options = False"
  by (simp_all add: compact_options_def indented_def emission_order_def)

lemma writer_writes_ctext:
  assumes "w \<le> 64"
  shows "const_unique v \<Longrightarrow> \<not> const_json_has_double v \<Longrightarrow>
      write_value compact_options w m sink (to_runtime v) d = WOk sink' \<Longrightarrow> sink' = sink @ ctext v"
    and "list_all const_unique vs \<Longrightarrow> list_all (\<lambda>v. \<not> const_json_has_double v) vs \<Longrightarrow>
      write_elements compact_options w m first sink (map to_runtime vs) d = WOk sink' \<Longrightarrow>
      sink' = sink @ celements first vs"
    and "list_all (\<lambda>e. const_unique (snd e)) es \<Longrightarrow> list_all (\<lambda>e. \<not> const_json_has_double (snd e)) es \<Longrightarrow>
      write_members compact_options w m first sink (map (\<lambda>e. (fst e, to_runtime (snd e))) es) d = WOk sink' \<Longrightarrow>
      sink' = sink @ centries first es"
proof (induction v and first vs and first es arbitrary: sink sink' d and sink sink' d and sink sink' d
    rule: ctext_celements_centries.induct)
  case (6 vs)
  have h: "list_all const_unique vs" "list_all (\<lambda>v. \<not> const_json_has_double v) vs"
    using 6 by (simp_all add: list_ex_iff list_all_iff)
  show ?case
  proof (cases "vs = []")
    case False
    then obtain s1 where s1: "write_elements compact_options w m True (sink @ [0x5B]) (map to_runtime vs) d = WOk s1"
        "sink' = s1 @ [0x5D]"
      using 6(4) by (auto simp: const_bindw_WOk split: if_splits)
    then show ?thesis using 6(1) [OF h s1(1)] by simp
  qed (use 6(4) in \<open>simp split: if_splits\<close>)
next
  case (7 es)
  have d: "to_runtime (CObj es) = JObj (map (\<lambda>e. (fst e, to_runtime (snd e))) es)"
    using 7 by (intro to_runtime_obj) simp
  have h: "list_all (\<lambda>e. const_unique (snd e)) es" "list_all (\<lambda>e. \<not> const_json_has_double (snd e)) es"
    using 7 by (simp_all add: list_ex_iff list_all_iff)
  show ?case
  proof (cases "es = []")
    case False
    then obtain s1 where s1: "write_members compact_options w m True (sink @ [0x7B])
          (map (\<lambda>e. (fst e, to_runtime (snd e))) es) d = WOk s1" "sink' = s1 @ [0x7D]"
      using 7(4) unfolding d by (auto simp: const_bindw_WOk split: if_splits)
    then show ?thesis using 7(1) [OF h s1(1)] by simp
  qed (use 7(4) in \<open>simp add: object_to_runtime_def split: if_splits\<close>)
next
  case (9 first v vs)
  then show ?case by (fastforce simp: const_bindw_WOk)
next
  case (11 first k v es)
  then show ?case by (fastforce simp: const_bindw_WOk write_escaped_plain [OF assms])
qed (auto simp: write_int_is_text write_escaped_plain [OF assms])

text \<open>
  C24: the text \<^verbatim>\<open>const_dump\<close> produces at compile time is, byte for byte, the compact
  text of the run-time writer for the materialised value, whatever the SIMD width.  The
  counted size is its length; with enough capacity the buffer receives it, otherwise the
  buffer receives a prefix that fills it exactly and the returned size is 0.
\<close>
theorem const_dump_equals_runtime_dump:
  assumes "\<not> const_json_has_double v" "const_unique v" "w \<le> 64"
    and "dump_impl compact_options w max_depth (to_runtime v) = Inr s"
  shows "const_dump_size v = Some (length s) \<and>
    const_dump v cap = Some (take cap s, if length s \<le> cap then length s else 0)"
proof -
  have "write_value compact_options w max_depth [] (to_runtime v) 0 = WOk s"
    using assms(4) by (simp add: dump_impl_Inr)
  then have "s = ctext v" using writer_writes_ctext(1) [OF assms(3,2,1)] by fastforce
  then show ?thesis using const_dump_size_text [OF assms(1)] const_dump_writes [OF assms(1)] by simp
qed

theorem const_dump_equals_runtime_dump_witness:
  "const_dump (CObj [(lit ''a'', CArr [CInt (- 12), CStr [0x0A, 0x22], CNull])]) 64 =
     Some (lit ''{'' @ [0x22] @ lit ''a'' @ [0x22] @ lit '':[-12,'' @
           [0x22, 0x5C, 0x6E, 0x5C, 0x22, 0x22] @ lit '',null]}'', 23)"
proof -
  let ?v = "CObj [(lit ''a'', CArr [CInt (- 12), CStr [0x0A, 0x22], CNull])]"
  let ?s = "lit ''{'' @ [0x22] @ lit ''a'' @ [0x22] @ lit '':[-12,'' @
      [0x22, 0x5C, 0x6E, 0x5C, 0x22, 0x22] @ lit '',null]}''"
  have "dump_impl compact_options 16 0 (to_runtime ?v) = Inr ?s" by code_simp
  moreover have "\<not> const_json_has_double ?v" "const_unique ?v" by simp_all
  moreover have "length ?s = 23" by (simp add: lit_def)
  ultimately show ?thesis using const_dump_equals_runtime_dump [of ?v 16 0 ?s 64] by simp
qed

end
