(* ===== verification/Schema.thy ===== *)
theory Schema
  imports ConstJson JsonOps Path
begin

unbundle bit_operations_syntax

text \<open>
  The validator of \<^verbatim>\<open>include/pjh_json/schema.hpp\<close>: a compile-time value (theory
  \<^verbatim>\<open>ConstJson\<close>) is the schema of a run-time value.  The path buffer is threaded through
  the calls and cut back to its mark, as the code does it.
\<close>

section \<open>Errors\<close>

datatype schema_kind =
    TypeMismatch | MissingRequired | UnexpectedProperty | TooShort | TooLong | BelowMinimum
  | AboveMaximum | EnumMismatch | ConstMismatch | InvalidSchema

record schema_error =
  se_kind :: schema_kind
  se_path :: bytes
  se_expected :: bytes
  se_actual :: bytes
  se_keyword :: bytes
  se_text :: bytes

definition schema_error_kind_name :: "schema_kind \<Rightarrow> bytes" where
  "schema_error_kind_name k =
     (case k of
        TypeMismatch \<Rightarrow> lit ''TypeMismatch''
      | MissingRequired \<Rightarrow> lit ''MissingRequired''
      | UnexpectedProperty \<Rightarrow> lit ''UnexpectedProperty''
      | TooShort \<Rightarrow> lit ''TooShort''
      | TooLong \<Rightarrow> lit ''TooLong''
      | BelowMinimum \<Rightarrow> lit ''BelowMinimum''
      | AboveMaximum \<Rightarrow> lit ''AboveMaximum''
      | EnumMismatch \<Rightarrow> lit ''EnumMismatch''
      | ConstMismatch \<Rightarrow> lit ''ConstMismatch''
      | InvalidSchema \<Rightarrow> lit ''InvalidSchema'')"

definition schema_error_message :: "schema_kind \<Rightarrow> bytes \<Rightarrow> bytes \<Rightarrow> bytes \<Rightarrow> bytes \<Rightarrow> bytes" where
  "schema_error_message k p expected actual keyword =
     (let display = (if p = [] then lit ''<root>'' else p);
          bounds = lit '': expected '' @ expected @ lit '', got '' @ actual
      in case k of
           TypeMismatch \<Rightarrow> lit ''schema type mismatch at '' @ display @ bounds
         | MissingRequired \<Rightarrow> lit ''missing required property: '' @ display
         | UnexpectedProperty \<Rightarrow> lit ''unexpected property: '' @ display
         | TooShort \<Rightarrow> lit ''too short at '' @ display @ bounds
         | TooLong \<Rightarrow> lit ''too long at '' @ display @ bounds
         | BelowMinimum \<Rightarrow> lit ''below minimum at '' @ display @ bounds
         | AboveMaximum \<Rightarrow> lit ''above maximum at '' @ display @ bounds
         | EnumMismatch \<Rightarrow> lit ''value not in enum at '' @ display @ lit '': got '' @ actual
         | ConstMismatch \<Rightarrow> lit ''value does not match const at '' @ display @ lit '': got '' @ actual
         | InvalidSchema \<Rightarrow> lit ''invalid schema: '' @ keyword)"

definition make_schema_error :: "schema_kind \<Rightarrow> bytes \<Rightarrow> bytes \<Rightarrow> bytes \<Rightarrow> bytes \<Rightarrow> schema_error" where
  "make_schema_error k p expected actual keyword =
     \<lparr>se_kind = k, se_path = p, se_expected = expected, se_actual = actual, se_keyword = keyword,
      se_text = schema_error_message k p expected actual keyword\<rparr>"

text \<open>\<^verbatim>\<open>Result<void, SchemaError>\<close> with the path buffer after the call.\<close>

type_synonym checked = "schema_error option \<times> bytes"

definition invalid_schema :: "bytes \<Rightarrow> bytes \<Rightarrow> bytes \<Rightarrow> bytes \<Rightarrow> schema_error option" where
  "invalid_schema p keyword expected actual = Some (make_schema_error InvalidSchema p expected actual keyword)"

section \<open>The path buffer\<close>

definition push_key :: "bytes \<Rightarrow> bytes \<Rightarrow> bytes" where
  "push_key s k = (if s \<noteq> [] then s @ [0x2E] else s) @ k"

definition push_index :: "bytes \<Rightarrow> nat \<Rightarrow> bytes" where
  "push_index s i = s @ [0x5B] @ dec i @ [0x5D]"

definition rewind :: "bytes \<Rightarrow> nat \<Rightarrow> bytes" where
  "rewind s mark = take mark s"

section \<open>Leaf keywords\<close>

definition known_type :: "bytes \<Rightarrow> bool" where
  "known_type t \<longleftrightarrow> t \<in> set [lit ''null'', lit ''boolean'', lit ''integer'', lit ''number'',
     lit ''string'', lit ''array'', lit ''object'']"

definition type_matches :: "bytes \<Rightarrow> jvalue \<Rightarrow> bool" where
  "type_matches t v =
     (if t = lit ''null'' then v = JNull
      else if t = lit ''boolean'' then (case v of JBool _ \<Rightarrow> True | _ \<Rightarrow> False)
      else if t = lit ''integer'' then (case v of JInt _ \<Rightarrow> True | _ \<Rightarrow> False)
      else if t = lit ''number'' then (case v of JInt _ \<Rightarrow> True | JFloat _ \<Rightarrow> True | _ \<Rightarrow> False)
      else if t = lit ''string'' then (case v of JStr _ \<Rightarrow> True | _ \<Rightarrow> False)
      else if t = lit ''array'' then (case v of JArr _ \<Rightarrow> True | _ \<Rightarrow> False)
      else if t = lit ''object'' then (case v of JObj _ \<Rightarrow> True | _ \<Rightarrow> False)
      else False)"

definition check_type :: "bytes \<Rightarrow> jvalue \<Rightarrow> bytes \<Rightarrow> schema_error option" where
  "check_type expected_type v pb =
     (if \<not> known_type expected_type
      then invalid_schema pb (lit ''type'') (lit ''known JSON type name'') expected_type
      else if type_matches expected_type v then None
      else Some (make_schema_error TypeMismatch pb expected_type (type_name v) (lit ''type'')))"

fun required_element_shape :: "cjson \<Rightarrow> bytes \<Rightarrow> schema_error option" where
  "required_element_shape (CStr k) pb = None"
| "required_element_shape _ pb = invalid_schema pb (lit ''required'') (lit ''array of strings'') []"

fun required_shapes :: "cjson list \<Rightarrow> bytes \<Rightarrow> schema_error option" where
  "required_shapes [] pb = None"
| "required_shapes (e # es) pb =
     (case required_element_shape e pb of None \<Rightarrow> required_shapes es pb | Some err \<Rightarrow> Some err)"

fun required_one :: "cjson \<Rightarrow> jentries \<Rightarrow> bytes \<Rightarrow> checked" where
  "required_one (CStr k) ob pb =
     (if map_of ob k \<noteq> None then (None, pb)
      else
        let pb' = push_key pb k;
            r = Some (make_schema_error MissingRequired pb' (lit ''present'') (lit ''missing'') (lit ''required''))
        in (r, rewind pb' (length pb)))"
| "required_one _ ob pb = (None, pb)"

fun required_loop :: "cjson list \<Rightarrow> jentries \<Rightarrow> bytes \<Rightarrow> checked" where
  "required_loop [] ob pb = (None, pb)"
| "required_loop (e # es) ob pb =
     (case required_one e ob pb of (None, pb') \<Rightarrow> required_loop es ob pb' | r \<Rightarrow> r)"

definition check_required :: "cjson \<Rightarrow> jvalue \<Rightarrow> bytes \<Rightarrow> checked" where
  "check_required sch v pb =
     (case sch of
        CArr elems \<Rightarrow>
          (case required_shapes elems pb of
             Some err \<Rightarrow> (Some err, pb)
           | None \<Rightarrow> (case v of JObj ob \<Rightarrow> required_loop elems ob pb | _ \<Rightarrow> (None, pb)))
      | _ \<Rightarrow> (invalid_schema pb (lit ''required'') (lit ''array of strings'') [], pb))"

text \<open>Value texts; the non-finite doubles are what \<^verbatim>\<open>std::to_chars\<close> prints for them.\<close>

definition int_repr :: "int \<Rightarrow> bytes" where
  "int_repr i = (if i < 0 then 0x2D # dec (nat (- i)) else dec (nat i))"

definition double_repr :: "u64 \<Rightarrow> bytes" where
  "double_repr b =
     (if f_isnan b then (if f_sign b then lit ''-nan'' else lit ''nan'')
      else if \<not> f_isfinite b then (if f_sign b then lit ''-inf'' else lit ''inf'')
      else case to_chars_double 32 b of Some s \<Rightarrow> s | None \<Rightarrow> [])"

definition value_repr :: "jvalue \<Rightarrow> bytes" where
  "value_repr v =
     (case v of
        JNull \<Rightarrow> lit ''null''
      | JBool b \<Rightarrow> (if b then lit ''true'' else lit ''false'')
      | JInt i \<Rightarrow> int_repr (sint i)
      | JFloat f \<Rightarrow> double_repr f
      | JStr s \<Rightarrow> [0x22] @ s @ [0x22]
      | _ \<Rightarrow> type_name v)"

definition check_enum :: "cjson \<Rightarrow> jvalue \<Rightarrow> bytes \<Rightarrow> schema_error option" where
  "check_enum sch v pb =
     (case sch of
        CArr _ \<Rightarrow>
          (case to_runtime sch of
             JArr vals \<Rightarrow>
               (if list_ex (\<lambda>a. json_eq v a) vals then None
                else Some (make_schema_error EnumMismatch pb (lit ''one of enum'') (value_repr v) (lit ''enum'')))
           | _ \<Rightarrow> None)
      | _ \<Rightarrow> invalid_schema pb (lit ''enum'') (lit ''array of values'') [])"

definition check_const :: "cjson \<Rightarrow> jvalue \<Rightarrow> bytes \<Rightarrow> schema_error option" where
  "check_const sch v pb =
     (if json_eq v (to_runtime sch) then None
      else Some (make_schema_error ConstMismatch pb (lit ''const value'') (value_repr v) (lit ''const'')))"

definition utf8_code_point_length :: "bytes \<Rightarrow> nat" where
  "utf8_code_point_length s = length (filter (\<lambda>c. c AND 0xC0 \<noteq> 0x80) s)"

text \<open>The bound, when it is an integer and not negative.\<close>

definition non_negative_int_bound :: "cjson \<Rightarrow> nat option" where
  "non_negative_int_bound sch =
     (case sch of CInt i \<Rightarrow> if 0 \<le> sint i then Some (nat (sint i)) else None | _ \<Rightarrow> None)"

definition check_min_length :: "cjson \<Rightarrow> jvalue \<Rightarrow> bytes \<Rightarrow> schema_error option" where
  "check_min_length sch v pb =
     (case non_negative_int_bound sch of
        None \<Rightarrow> invalid_schema pb (lit ''minLength'') (lit ''non-negative integer'') []
      | Some bound \<Rightarrow>
          (case v of
             JStr s \<Rightarrow>
               (let len = utf8_code_point_length s
                in if bound \<le> len then None
                   else Some (make_schema_error TooShort pb (lit ''length>='' @ dec bound) (dec len) (lit ''minLength'')))
           | _ \<Rightarrow> None))"

definition check_max_length :: "cjson \<Rightarrow> jvalue \<Rightarrow> bytes \<Rightarrow> schema_error option" where
  "check_max_length sch v pb =
     (case non_negative_int_bound sch of
        None \<Rightarrow> invalid_schema pb (lit ''maxLength'') (lit ''non-negative integer'') []
      | Some bound \<Rightarrow>
          (case v of
             JStr s \<Rightarrow>
               (let len = utf8_code_point_length s
                in if len \<le> bound then None
                   else Some (make_schema_error TooLong pb (lit ''length<='' @ dec bound) (dec len) (lit ''maxLength'')))
           | _ \<Rightarrow> None))"

definition check_min_items :: "cjson \<Rightarrow> jvalue \<Rightarrow> bytes \<Rightarrow> schema_error option" where
  "check_min_items sch v pb =
     (case non_negative_int_bound sch of
        None \<Rightarrow> invalid_schema pb (lit ''minItems'') (lit ''non-negative integer'') []
      | Some bound \<Rightarrow>
          (case v of
             JArr xs \<Rightarrow>
               (if bound \<le> length xs then None
                else Some (make_schema_error TooShort pb (lit ''items>='' @ dec bound) (dec (length xs)) (lit ''minItems'')))
           | _ \<Rightarrow> None))"

definition check_max_items :: "cjson \<Rightarrow> jvalue \<Rightarrow> bytes \<Rightarrow> schema_error option" where
  "check_max_items sch v pb =
     (case non_negative_int_bound sch of
        None \<Rightarrow> invalid_schema pb (lit ''maxItems'') (lit ''non-negative integer'') []
      | Some bound \<Rightarrow>
          (case v of
             JArr xs \<Rightarrow>
               (if length xs \<le> bound then None
                else Some (make_schema_error TooLong pb (lit ''items<='' @ dec bound) (dec (length xs)) (lit ''maxItems'')))
           | _ \<Rightarrow> None))"

section \<open>Numeric bounds\<close>

datatype numeric_bound = IntBound u64 | DoubleBound u64

definition numeric_bound_of :: "cjson \<Rightarrow> numeric_bound option" where
  "numeric_bound_of sch =
     (case sch of CInt i \<Rightarrow> Some (IntBound i) | CDouble d \<Rightarrow> Some (DoubleBound d) | _ \<Rightarrow> None)"

definition numeric_bound_text :: "numeric_bound \<Rightarrow> bytes" where
  "numeric_bound_text b = (case b of IntBound i \<Rightarrow> int_repr (sint i) | DoubleBound d \<Rightarrow> double_repr d)"

text \<open>IEEE comparisons: false when an operand is NaN.\<close>

definition f_le :: "u64 \<Rightarrow> u64 \<Rightarrow> bool" where
  "f_le a b \<longleftrightarrow> f_lt a b \<or> f_eq a b"

definition above_or_equal :: "jvalue \<Rightarrow> numeric_bound \<Rightarrow> bool" where
  "above_or_equal v b =
     (case v of
        JInt i \<Rightarrow> (case b of IntBound j \<Rightarrow> sint j \<le> sint i | DoubleBound d \<Rightarrow> f_le d (int_to_double i))
      | JFloat f \<Rightarrow> (case b of IntBound j \<Rightarrow> f_le (int_to_double j) f | DoubleBound d \<Rightarrow> f_le d f)
      | _ \<Rightarrow> False)"

definition below_or_equal :: "jvalue \<Rightarrow> numeric_bound \<Rightarrow> bool" where
  "below_or_equal v b =
     (case v of
        JInt i \<Rightarrow> (case b of IntBound j \<Rightarrow> sint i \<le> sint j | DoubleBound d \<Rightarrow> f_le (int_to_double i) d)
      | JFloat f \<Rightarrow> (case b of IntBound j \<Rightarrow> f_le f (int_to_double j) | DoubleBound d \<Rightarrow> f_le f d)
      | _ \<Rightarrow> False)"

definition is_number :: "jvalue \<Rightarrow> bool" where
  "is_number v = (case v of JInt _ \<Rightarrow> True | JFloat _ \<Rightarrow> True | _ \<Rightarrow> False)"

definition check_minimum :: "cjson \<Rightarrow> jvalue \<Rightarrow> bytes \<Rightarrow> schema_error option" where
  "check_minimum sch v pb =
     (case numeric_bound_of sch of
        None \<Rightarrow> invalid_schema pb (lit ''minimum'') (lit ''number'') []
      | Some bound \<Rightarrow>
          if \<not> is_number v then None
          else if above_or_equal v bound then None
          else Some (make_schema_error BelowMinimum pb (lit ''>='' @ numeric_bound_text bound) (value_repr v) (lit ''minimum'')))"

definition check_maximum :: "cjson \<Rightarrow> jvalue \<Rightarrow> bytes \<Rightarrow> schema_error option" where
  "check_maximum sch v pb =
     (case numeric_bound_of sch of
        None \<Rightarrow> invalid_schema pb (lit ''maximum'') (lit ''number'') []
      | Some bound \<Rightarrow>
          if \<not> is_number v then None
          else if below_or_equal v bound then None
          else Some (make_schema_error AboveMaximum pb (lit ''<='' @ numeric_bound_text bound) (value_repr v) (lit ''maximum'')))"

section \<open>Undeclared members\<close>

definition properties_has_key :: "cjson \<Rightarrow> bytes \<Rightarrow> bool" where
  "properties_has_key props key = (case props of CObj entries \<Rightarrow> list_ex (\<lambda>e. fst e = key) entries | _ \<Rightarrow> False)"

definition is_declared_property :: "(bytes \<times> cjson) list \<Rightarrow> bytes \<Rightarrow> bool" where
  "is_declared_property parent key =
     list_ex (\<lambda>e. fst e = lit ''properties'' \<and> properties_has_key (snd e) key) parent"

fun undeclared_loop :: "(bytes \<times> cjson) list \<Rightarrow> jentries \<Rightarrow> bytes \<Rightarrow> checked" where
  "undeclared_loop parent [] pb = (None, pb)"
| "undeclared_loop parent ((key, v) # ob) pb =
     (if is_declared_property parent key then undeclared_loop parent ob pb
      else
        let pb' = push_key pb key;
            r = Some (make_schema_error UnexpectedProperty pb' (lit ''declared property'') (lit ''unexpected'')
                  (lit ''additionalProperties''))
        in (r, rewind pb' (length pb)))"

definition check_additional_properties ::
  "(bytes \<times> cjson) list \<Rightarrow> cjson \<Rightarrow> jvalue \<Rightarrow> bytes \<Rightarrow> checked" where
  "check_additional_properties parent ap v pb =
     (case ap of
        CBool b \<Rightarrow>
          if b then (None, pb)
          else (case v of JObj ob \<Rightarrow> undeclared_loop parent ob pb | _ \<Rightarrow> (None, pb))
      | _ \<Rightarrow> (invalid_schema pb (lit ''additionalProperties'') (lit ''boolean'') [], pb))"

section \<open>Nodes\<close>

fun type_pass :: "(bytes \<times> cjson) list \<Rightarrow> jvalue \<Rightarrow> bytes \<Rightarrow> schema_error option" where
  "type_pass [] v pb = None"
| "type_pass ((k, s) # es) v pb =
     (case (if k \<noteq> lit ''type'' then None
            else (case s of CStr t \<Rightarrow> check_type t v pb
                  | _ \<Rightarrow> invalid_schema pb (lit ''type'') (lit ''string'') [])) of
        None \<Rightarrow> type_pass es v pb
      | Some err \<Rightarrow> Some err)"

function validate_node :: "cjson \<Rightarrow> jvalue \<Rightarrow> bytes \<Rightarrow> checked"
and keyword_pass :: "(bytes \<times> cjson) list \<Rightarrow> (bytes \<times> cjson) list \<Rightarrow> jvalue \<Rightarrow> bytes \<Rightarrow> checked"
and apply_keyword :: "bytes \<Rightarrow> cjson \<Rightarrow> jvalue \<Rightarrow> bytes \<Rightarrow> checked"
and check_properties :: "cjson \<Rightarrow> jvalue \<Rightarrow> bytes \<Rightarrow> checked"
and properties_loop :: "(bytes \<times> cjson) list \<Rightarrow> jentries \<Rightarrow> bytes \<Rightarrow> checked"
and property_one :: "bytes \<Rightarrow> cjson \<Rightarrow> jentries \<Rightarrow> bytes \<Rightarrow> checked"
and check_items :: "cjson \<Rightarrow> jvalue \<Rightarrow> bytes \<Rightarrow> checked"
and items_loop :: "cjson \<Rightarrow> jvalue list \<Rightarrow> nat \<Rightarrow> bytes \<Rightarrow> checked"
where
  "validate_node sch v pb =
     (case sch of
        CObj entries \<Rightarrow>
          (case type_pass entries v pb of
             Some err \<Rightarrow> (Some err, pb)
           | None \<Rightarrow> keyword_pass entries entries v pb)
      | _ \<Rightarrow> (invalid_schema pb (lit ''schema'') (lit ''object schema'') [], pb))"
| "keyword_pass parent [] v pb = (None, pb)"
| "keyword_pass parent ((k, s) # es) v pb =
     (case (if k = lit ''type'' then (None, pb)
            else if k = lit ''additionalProperties'' then check_additional_properties parent s v pb
            else apply_keyword k s v pb) of
        (None, pb') \<Rightarrow> keyword_pass parent es v pb'
      | r \<Rightarrow> r)"
| "apply_keyword k s v pb =
     (if k = lit ''required'' then check_required s v pb
      else if k = lit ''properties'' then check_properties s v pb
      else if k = lit ''items'' then check_items s v pb
      else if k = lit ''enum'' then (check_enum s v pb, pb)
      else if k = lit ''const'' then (check_const s v pb, pb)
      else if k = lit ''minLength'' then (check_min_length s v pb, pb)
      else if k = lit ''maxLength'' then (check_max_length s v pb, pb)
      else if k = lit ''minItems'' then (check_min_items s v pb, pb)
      else if k = lit ''maxItems'' then (check_max_items s v pb, pb)
      else if k = lit ''minimum'' then (check_minimum s v pb, pb)
      else if k = lit ''maximum'' then (check_maximum s v pb, pb)
      else (None, pb))"
| "check_properties sch v pb =
     (case sch of
        CObj props \<Rightarrow> (case v of JObj ob \<Rightarrow> properties_loop props ob pb | _ \<Rightarrow> (None, pb))
      | _ \<Rightarrow> (invalid_schema pb (lit ''properties'') (lit ''object schema'') [], pb))"
| "properties_loop [] ob pb = (None, pb)"
| "properties_loop ((k, s) # ps) ob pb =
     (case property_one k s ob pb of
        (None, pb') \<Rightarrow> properties_loop ps ob pb'
      | r \<Rightarrow> r)"
| "property_one k s ob pb =
     (case map_of ob k of
        None \<Rightarrow> (None, pb)
      | Some v \<Rightarrow>
          (case validate_node s v (push_key pb k) of (r, pb') \<Rightarrow> (r, rewind pb' (length pb))))"
| "check_items item v pb =
     (case item of
        CObj _ \<Rightarrow> (case v of JArr xs \<Rightarrow> items_loop item xs 0 pb | _ \<Rightarrow> (None, pb))
      | _ \<Rightarrow> (invalid_schema pb (lit ''items'') (lit ''object schema'') [], pb))"
| "items_loop item [] i pb = (None, pb)"
| "items_loop item (x # xs) i pb =
     (case validate_node item x (push_index pb i) of
        (r, pb') \<Rightarrow>
          let pb'' = rewind pb' (length pb)
          in if r \<noteq> None then (r, pb'') else items_loop item xs (i + 1) pb'')"
  by pat_completeness auto
termination
  by (relation "inv_image (less_than <*lex*> less_than <*lex*> less_than) (\<lambda>x. case x of
        Inl (Inl (Inl (s, v, pb))) \<Rightarrow> (cjson_weight s, 0, 0)
      | Inl (Inl (Inr (parent, es, v, pb))) \<Rightarrow> (sum_list (map (\<lambda>e. Suc (cjson_weight (snd e))) es), 1, 0)
      | Inl (Inr (Inl (k, s, v, pb))) \<Rightarrow> (cjson_weight s, 5, 0)
      | Inl (Inr (Inr (s, v, pb))) \<Rightarrow> (cjson_weight s, 4, 0)
      | Inr (Inl (Inl (ps, ob, pb))) \<Rightarrow> (sum_list (map (\<lambda>e. Suc (cjson_weight (snd e))) ps), 3, 0)
      | Inr (Inl (Inr (k, s, ob, pb))) \<Rightarrow> (cjson_weight s, 2, 0)
      | Inr (Inr (Inl (s, v, pb))) \<Rightarrow> (cjson_weight s, 4, 0)
      | Inr (Inr (Inr (s, xs, i, pb))) \<Rightarrow> (cjson_weight s, 3, length xs))")
    auto

declare validate_node.simps [simp del] keyword_pass.simps(2) [simp del] apply_keyword.simps [simp del]
  check_properties.simps [simp del] properties_loop.simps(2) [simp del] property_one.simps [simp del]
  check_items.simps [simp del] items_loop.simps(2) [simp del]

text \<open>\<^verbatim>\<open>validate_result\<close>, and \<^verbatim>\<open>validate\<close>, which throws the error of the former.\<close>

definition validate_result :: "cjson \<Rightarrow> jvalue \<Rightarrow> schema_error option" where
  "validate_result sch v = fst (validate_node sch v [])"

end
