(* ===== verification/SchemaProofs.thy ===== *)
theory SchemaProofs
  imports Schema
begin

text \<open>
  What the schema validator decides, independent of the order in which it looks: the
  declarative reading of a schema; and where its errors point.
\<close>

section \<open>The meaning of a schema\<close>

lemma cjson_weight_mem:
  "e \<in> set es \<Longrightarrow> cjson_weight (snd e) < cjson_weight (CObj es)"
  using member_le_sum_list [of "Suc (cjson_weight (snd e))" "map (\<lambda>e. Suc (cjson_weight (snd e))) es"]
  by fastforce

function conforms :: "cjson \<Rightarrow> jvalue \<Rightarrow> bool"
and keyword_holds :: "(bytes \<times> cjson) list \<Rightarrow> bytes \<Rightarrow> cjson \<Rightarrow> jvalue \<Rightarrow> bool"
where
  "conforms sch v = (case sch of
      CObj es \<Rightarrow> \<forall>e \<in> set es. keyword_holds es (fst e) (snd e) v
    | _ \<Rightarrow> False)"
| "keyword_holds parent k s v =
    (if k = lit ''type'' then (\<exists>t. s = CStr t \<and> known_type t \<and> type_matches t v)
     else if k = lit ''additionalProperties'' then
       (\<exists>b. s = CBool b \<and> (\<not> b \<longrightarrow> (\<forall>ob. v = JObj ob \<longrightarrow> (\<forall>m \<in> set ob. is_declared_property parent (fst m)))))
     else if k = lit ''required'' then
       (\<exists>names. s = CArr (map CStr names) \<and> (\<forall>ob. v = JObj ob \<longrightarrow> (\<forall>n \<in> set names. map_of ob n \<noteq> None)))
     else if k = lit ''properties'' then
       (case s of
          CObj ps \<Rightarrow> \<forall>p \<in> set ps. \<forall>ob x. v = JObj ob \<longrightarrow> map_of ob (fst p) = Some x \<longrightarrow> conforms (snd p) x
        | _ \<Rightarrow> False)
     else if k = lit ''items'' then
       (case s of
          CObj _ \<Rightarrow> \<forall>xs x. v = JArr xs \<longrightarrow> x \<in> set xs \<longrightarrow> conforms s x
        | _ \<Rightarrow> False)
     else if k = lit ''enum'' then (\<exists>vs. s = CArr vs \<and> (\<exists>a \<in> set vs. json_eq v (to_runtime a)))
     else if k = lit ''const'' then json_eq v (to_runtime s)
     else if k = lit ''minLength'' then
       (\<exists>n. non_negative_int_bound s = Some n \<and> (\<forall>t. v = JStr t \<longrightarrow> n \<le> utf8_code_point_length t))
     else if k = lit ''maxLength'' then
       (\<exists>n. non_negative_int_bound s = Some n \<and> (\<forall>t. v = JStr t \<longrightarrow> utf8_code_point_length t \<le> n))
     else if k = lit ''minItems'' then
       (\<exists>n. non_negative_int_bound s = Some n \<and> (\<forall>xs. v = JArr xs \<longrightarrow> n \<le> length xs))
     else if k = lit ''maxItems'' then
       (\<exists>n. non_negative_int_bound s = Some n \<and> (\<forall>xs. v = JArr xs \<longrightarrow> length xs \<le> n))
     else if k = lit ''minimum'' then
       (\<exists>b. numeric_bound_of s = Some b \<and> (is_number v \<longrightarrow> above_or_equal v b))
     else if k = lit ''maximum'' then
       (\<exists>b. numeric_bound_of s = Some b \<and> (is_number v \<longrightarrow> below_or_equal v b))
     else True)"
  by pat_completeness auto
termination
  by (relation "inv_image (less_than <*lex*> less_than) (\<lambda>x. case x of
      Inl (s, v) \<Rightarrow> (cjson_weight s, 0::nat) | Inr (parent, k, s, v) \<Rightarrow> (cjson_weight s, 1))")
    (auto simp del: cjson_weight.simps dest: cjson_weight_mem)

declare conforms.simps [simp del] keyword_holds.simps [simp del]

section \<open>The path buffer is restored\<close>

lemma rewind_push [simp]: "rewind (push_key pb k) (length pb) = pb" "rewind (push_index pb i) (length pb) = pb"
  by (simp_all add: rewind_def push_key_def push_index_def)

lemma invalid_schema_ne [simp]: "invalid_schema p k e a \<noteq> None"
  by (simp add: invalid_schema_def)

lemma lit_eq_iff [simp]: "lit a = lit b \<longleftrightarrow> map of_char a = (map of_char b :: bytes)"
  by (simp add: lit_def)

lemma required_loop_ok:
  "snd (required_loop es ob pb) = pb"
  "required_shapes es pb' = None \<Longrightarrow>
     fst (required_loop es ob pb) = None \<longleftrightarrow> (\<forall>n. CStr n \<in> set es \<longrightarrow> map_of ob n \<noteq> None)"
proof (induction es ob pb rule: required_loop.induct)
  case (2 e es ob pb)
  {
    case 1
    show ?case using 2 by (cases e) (auto simp: Let_def invalid_schema_def)
  next
    case 2
    show ?case using 2 "2.IH" by (cases e) (auto simp: Let_def invalid_schema_def)
  }
qed simp_all

lemma required_shapes_ok: "required_shapes es pb = None \<longleftrightarrow> (\<exists>names. es = map CStr names)"
proof (induction es)
  case (Cons e es)
  then show ?case by (cases e) (auto simp: Cons_eq_map_conv invalid_schema_def)
qed simp

lemma required_shapes_CStr [simp]: "required_shapes (map CStr names) pb = None"
  using required_shapes_ok by blast

lemma check_required_ok:
  "snd (check_required s v pb) = pb"
  "fst (check_required s v pb) = None \<longleftrightarrow> keyword_holds parent (lit ''required'') s v"
proof -
  show "snd (check_required s v pb) = pb"
    by (auto simp: check_required_def required_loop_ok split: cjson.splits option.splits json.splits)
  show "fst (check_required s v pb) = None \<longleftrightarrow> keyword_holds parent (lit ''required'') s v"
    using required_shapes_ok [of _ pb] required_loop_ok(2) [of _ pb]
    by (auto simp: check_required_def keyword_holds.simps image_iff split: cjson.splits option.splits json.splits)
qed

lemma undeclared_loop_ok:
  "snd (undeclared_loop parent ob pb) = pb"
  "fst (undeclared_loop parent ob pb) = None \<longleftrightarrow> (\<forall>m \<in> set ob. is_declared_property parent (fst m))"
  by (induction parent ob pb rule: undeclared_loop.induct) (auto simp: Let_def)

lemma check_additional_ok:
  "snd (check_additional_properties parent s v pb) = pb"
  "fst (check_additional_properties parent s v pb) = None \<longleftrightarrow>
     keyword_holds parent (lit ''additionalProperties'') s v"
  by (auto simp: check_additional_properties_def keyword_holds.simps undeclared_loop_ok split: cjson.splits json.splits)

lemma type_pass_ok:
  "type_pass es v pb = None \<longleftrightarrow> (\<forall>e \<in> set es. fst e = lit ''type'' \<longrightarrow> keyword_holds parent (fst e) (snd e) v)"
  by (induction es v pb rule: type_pass.induct)
    (auto simp: keyword_holds.simps check_type_def split: cjson.splits if_splits option.splits)

text \<open>The recursion: every call leaves the buffer as it was and answers the declarative question.\<close>

lemma keyword_type: "keyword_holds parent (lit ''type'') s v \<longleftrightarrow> (\<exists>t. s = CStr t \<and> known_type t \<and> type_matches t v)"
  by (simp add: keyword_holds.simps)

lemma leaf_keywords:
  "check_enum s v pb = None \<longleftrightarrow> keyword_holds parent (lit ''enum'') s v"
  "check_const s v pb = None \<longleftrightarrow> keyword_holds parent (lit ''const'') s v"
  "check_min_length s v pb = None \<longleftrightarrow> keyword_holds parent (lit ''minLength'') s v"
  "check_max_length s v pb = None \<longleftrightarrow> keyword_holds parent (lit ''maxLength'') s v"
  "check_min_items s v pb = None \<longleftrightarrow> keyword_holds parent (lit ''minItems'') s v"
  "check_max_items s v pb = None \<longleftrightarrow> keyword_holds parent (lit ''maxItems'') s v"
  "check_minimum s v pb = None \<longleftrightarrow> keyword_holds parent (lit ''minimum'') s v"
  "check_maximum s v pb = None \<longleftrightarrow> keyword_holds parent (lit ''maximum'') s v"
  by (auto simp: keyword_holds.simps check_enum_def check_const_def check_min_length_def check_max_length_def
      check_min_items_def check_max_items_def check_minimum_def check_maximum_def list_ex_iff Let_def
      split: cjson.splits option.splits json.splits if_splits)

lemma validator_decides:
  "snd (validate_node s v pb) = pb \<and> (fst (validate_node s v pb) = None \<longleftrightarrow> conforms s v)"
  "snd (keyword_pass parent es v pb) = pb \<and> (fst (keyword_pass parent es v pb) = None \<longleftrightarrow>
     (\<forall>e \<in> set es. fst e \<noteq> lit ''type'' \<longrightarrow> keyword_holds parent (fst e) (snd e) v))"
  "k \<noteq> lit ''type'' \<and> k \<noteq> lit ''additionalProperties'' \<Longrightarrow>
     snd (apply_keyword k s v pb) = pb \<and> (fst (apply_keyword k s v pb) = None \<longleftrightarrow> keyword_holds parent k s v)"
  "snd (check_properties s v pb) = pb \<and>
     (fst (check_properties s v pb) = None \<longleftrightarrow> keyword_holds parent (lit ''properties'') s v)"
  "snd (properties_loop ps ob pb) = pb \<and> (fst (properties_loop ps ob pb) = None \<longleftrightarrow>
     (\<forall>p \<in> set ps. \<forall>x. map_of ob (fst p) = Some x \<longrightarrow> conforms (snd p) x))"
  "snd (property_one k s ob pb) = pb \<and>
     (fst (property_one k s ob pb) = None \<longleftrightarrow> (\<forall>x. map_of ob k = Some x \<longrightarrow> conforms s x))"
  "snd (check_items s v pb) = pb \<and>
     (fst (check_items s v pb) = None \<longleftrightarrow> keyword_holds parent (lit ''items'') s v)"
  "snd (items_loop s xs i pb) = pb \<and> (fst (items_loop s xs i pb) = None \<longleftrightarrow> (\<forall>x \<in> set xs. conforms s x))"
proof (induction s v pb and parent es v pb and k s v pb and s v pb and ps ob pb and k s ob pb and s v pb and s xs i pb
    arbitrary: and and parent and parent and and and parent and
    rule: validate_node_keyword_pass_apply_keyword_check_properties_properties_loop_property_one_check_items_items_loop.induct)
  case (1 sch v pb)
  show ?case
  proof (cases sch)
    case (CObj es)
    show ?thesis
    proof (cases "type_pass es v pb")
      case None
      have t: "\<forall>e \<in> set es. fst e = lit ''type'' \<longrightarrow> keyword_holds es (fst e) (snd e) v"
        using None type_pass_ok [of es v pb es] by simp
      have "snd (keyword_pass es es v pb) = pb \<and> (fst (keyword_pass es es v pb) = None \<longleftrightarrow>
          (\<forall>e \<in> set es. fst e \<noteq> lit ''type'' \<longrightarrow> keyword_holds es (fst e) (snd e) v))"
        using 1 CObj None by blast
      moreover have "(\<forall>e \<in> set es. fst e \<noteq> lit ''type'' \<longrightarrow> keyword_holds es (fst e) (snd e) v) \<longleftrightarrow>
          (\<forall>e \<in> set es. keyword_holds es (fst e) (snd e) v)" using t by blast
      ultimately show ?thesis using CObj None by (simp only: validate_node.simps conforms.simps cjson.case option.case)
    next
      case (Some err)
      then have "\<not> (\<forall>e \<in> set es. fst e = lit ''type'' \<longrightarrow> keyword_holds es (fst e) (snd e) v)"
        using type_pass_ok [of es v pb es] by simp
      then have "\<not> (\<forall>e \<in> set es. keyword_holds es (fst e) (snd e) v)" by blast
      then show ?thesis using CObj Some by (simp add: validate_node.simps conforms.simps del: lit_eq_iff)
    qed
  qed (simp_all add: validate_node.simps conforms.simps)
next
  case (2 parent v pb)
  then show ?case by simp
next
  case (3 parent k s es v pb)
  consider "k = lit ''type''" | "k = lit ''additionalProperties''" | "k \<noteq> lit ''type''" "k \<noteq> lit ''additionalProperties''"
    by blast
  then show ?case
  proof cases
    case 1
    then show ?thesis using 3 by (simp add: keyword_pass.simps(2))
  next
    case ap: 2
    obtain r where r: "check_additional_properties parent s v pb = (r, pb)"
      using check_additional_ok(1) [of parent s v pb] by (metis prod.collapse)
    then show ?thesis
      using 3(2) ap check_additional_ok(2) [of parent s v pb] by (cases r) (auto simp: keyword_pass.simps(2))
  next
    case other: 3
    have a: "snd (apply_keyword k s v pb) = pb \<and> (fst (apply_keyword k s v pb) = None \<longleftrightarrow> keyword_holds parent k s v)"
      using 3(1) other by blast
    obtain r where r: "apply_keyword k s v pb = (r, pb)" using a by (metis prod.collapse)
    show ?thesis using 3(2) other a r by (cases r) (auto simp: keyword_pass.simps(2))
  qed
next
  case (4 k s v pb)
  show ?case
  proof (cases "k \<in> {lit ''required'', lit ''properties'', lit ''items'', lit ''enum'', lit ''const'', lit ''minLength'',
      lit ''maxLength'', lit ''minItems'', lit ''maxItems'', lit ''minimum'', lit ''maximum''}")
    case True
    then show ?thesis
      using 4(1,2) check_required_ok(1) [of s v pb] check_required_ok(2) [of s v pb parent] leaf_keywords [where parent = parent and s = s and v = v]
      by (elim insertE emptyE) (simp_all add: apply_keyword.simps)
  next
    case False
    then show ?thesis using 4(3) by (simp add: apply_keyword.simps keyword_holds.simps)
  qed
next
  case (5 sch v pb)
  then show ?case
    by (auto simp: check_properties.simps keyword_holds.simps split: cjson.splits json.splits)
next
  case (6 ob pb)
  then show ?case by simp
next
  case (7 k s ps ob pb)
  obtain r where r: "property_one k s ob pb = (r, pb)" using 7(1) by (metis prod.collapse)
  then show ?case using 7 by (cases r) (auto simp: properties_loop.simps(2))
next
  case (8 k s ob pb)
  show ?case
  proof (cases "map_of ob k")
    case (Some v)
    obtain r where r: "validate_node s v (push_key pb k) = (r, push_key pb k)" using 8 Some by (metis prod.collapse)
    then show ?thesis using 8 Some by (auto simp: property_one.simps)
  qed (simp add: property_one.simps)
next
  case (9 item v pb)
  then show ?case
    by (auto simp: check_items.simps keyword_holds.simps split: cjson.splits json.splits)
next
  case (10 item i pb)
  then show ?case by simp
next
  case (11 item x xs i pb)
  obtain r where r: "validate_node item x (push_index pb i) = (r, push_index pb i)" using 11(1) by (metis prod.collapse)
  then show ?case using 11 by (cases r) (auto simp: items_loop.simps(2))
qed

section \<open>Where errors point\<close>

text \<open>What the error says of the value at its path.\<close>

definition located :: "schema_error \<Rightarrow> jvalue \<Rightarrow> bool" where
  "located e v \<longleftrightarrow> (case se_kind e of
     TypeMismatch \<Rightarrow> known_type (se_expected e) \<and> \<not> type_matches (se_expected e) v \<and> se_actual e = type_name v
   | TooShort \<Rightarrow> (\<exists>s. v = JStr s \<and> se_actual e = dec (utf8_code_point_length s)) \<or>
                (\<exists>xs. v = JArr xs \<and> se_actual e = dec (length xs))
   | TooLong \<Rightarrow> (\<exists>s. v = JStr s \<and> se_actual e = dec (utf8_code_point_length s)) \<or>
               (\<exists>xs. v = JArr xs \<and> se_actual e = dec (length xs))
   | BelowMinimum \<Rightarrow> is_number v \<and> se_actual e = value_repr v
   | AboveMaximum \<Rightarrow> is_number v \<and> se_actual e = value_repr v
   | EnumMismatch \<Rightarrow> se_actual e = value_repr v
   | ConstMismatch \<Rightarrow> se_actual e = value_repr v
   | _ \<Rightarrow> True)"

text \<open>
  The error is about the value the path leads to; for a missing property the last step leads
  nowhere and the steps before it to the object that lacks the key.
\<close>

definition blames :: "schema_error \<Rightarrow> jvalue \<Rightarrow> path \<Rightarrow> bool" where
  "blames e v steps \<longleftrightarrow>
     (if se_kind e = MissingRequired
      then \<exists>front k ps ob. steps = front @ [Key k] \<and> walk v front = Inr (ps, JObj ob) \<and> map_of ob k = None
      else \<exists>ps x. walk v steps = Inr (ps, x) \<and> located e x)"

definition points :: "path \<Rightarrow> jvalue \<Rightarrow> schema_error option \<Rightarrow> bool" where
  "points pre v r \<longleftrightarrow> (\<forall>e. r = Some e \<longrightarrow> (\<exists>steps. se_path e = render_path (pre @ steps) \<and> blames e v steps))"

lemma points_None [simp]: "points pre v None"
  by (simp add: points_def)

lemma points_here:
  "(\<And>e. r = Some e \<Longrightarrow> se_path e = render_path pre \<and> se_kind e \<noteq> MissingRequired \<and> located e v) \<Longrightarrow> points pre v r"
  unfolding points_def blames_def by (intro allI impI exI [of _ "[]"]) auto

lemma se_make [simp]:
  "se_kind (make_schema_error k p a b c) = k" "se_path (make_schema_error k p a b c) = p"
  "se_expected (make_schema_error k p a b c) = a" "se_actual (make_schema_error k p a b c) = b"
  by (simp_all add: make_schema_error_def)

lemma points_invalid [simp]: "points pre v (invalid_schema (render_path pre) k a b)"
  by (rule points_here) (auto simp: invalid_schema_def located_def)

lemma render_push:
  "push_key (render_path pre) k = render_path (pre @ [Key k])"
  "push_index (render_path pre) i = render_path (pre @ [Index i])"
  by (simp_all add: push_key_def push_index_def render_path_def render_step_def)


lemma hop_member:
  assumes "map_of ob k = Some x"
  obtains p where "hop (JObj ob) (Key k) = Inr p" "children (JObj ob) ! p = x"
proof -
  have "sweep_slot (map fst ob) k \<noteq> None" using assms sweep_slot_None [of ob k] by simp
  then obtain p where p: "sweep_slot (map fst ob) k = Some p" by blast
  then have "p < length ob" "snd (ob ! p) = x" using sweep_slot_Some [OF p] assms by auto
  then show thesis using that [of p] p by (simp add: hop_def object_pos_def)
qed

lemma hop_element:
  assumes "i < length xs"
  shows "hop (JArr xs) (Index i) = Inr i" "children (JArr xs) ! i = xs ! i"
  using assms by (simp_all add: hop_def array_pos_def)

lemma blames_hop:
  assumes "hop v s = Inr p" "children v ! p = x" "blames e x steps"
  shows "blames e v (s # steps)"
proof (cases "se_kind e = MissingRequired")
  case True
  then obtain front k ps ob where b: "steps = front @ [Key k]" "walk x front = Inr (ps, JObj ob)" "map_of ob k = None"
    using assms(3) by (auto simp: blames_def)
  have "s # steps = (s # front) @ [Key k]" "walk v (s # front) = Inr (p # ps, JObj ob)"
    using b assms(1,2) by simp_all
  then show ?thesis using True b(3) unfolding blames_def by auto
next
  case False
  then obtain ps y where "walk x steps = Inr (ps, y)" "located e y" using assms(3) by (auto simp: blames_def)
  then have "walk v (s # steps) = Inr (p # ps, y) \<and> located e y" using assms(1,2) by simp
  then show ?thesis using False unfolding blames_def by auto
qed

lemma points_hop:
  assumes "hop v s = Inr p" "children v ! p = x" "points (pre @ [s]) x r"
  shows "points pre v r"
  unfolding points_def
proof (intro allI impI)
  fix e assume "r = Some e"
  then obtain steps where "se_path e = render_path ((pre @ [s]) @ steps)" "blames e x steps"
    using assms(3) unfolding points_def by blast
  then show "\<exists>steps. se_path e = render_path (pre @ steps) \<and> blames e v steps"
    using blames_hop [OF assms(1,2)] by (intro exI [of _ "s # steps"]) simp
qed

lemma required_points: "points pre (JObj ob) (fst (required_loop es ob (render_path pre)))"
proof (induction es)
  case (Cons c es)
  have missing: "points pre (JObj ob) (Some (make_schema_error MissingRequired (push_key (render_path pre) k) a b w))"
    if "map_of ob k = None" for k a b w
    unfolding points_def
  proof (intro allI impI)
    fix e assume e: "Some (make_schema_error MissingRequired (push_key (render_path pre) k) a b w) = Some e"
    have "blames e (JObj ob) [Key k]"
      using e that unfolding blames_def by (auto intro!: exI [of _ "[]"])
    then show "\<exists>steps. se_path e = render_path (pre @ steps) \<and> blames e (JObj ob) steps"
      using e by (intro exI [of _ "[Key k]"]) (auto simp: render_push)
  qed
  show ?case using Cons missing by (cases c) (auto simp: Let_def)
qed simp

lemma check_required_points: "points pre v (fst (check_required s v (render_path pre)))"
proof -
  have shapes: "points pre v (required_shapes es (render_path pre))" for es
  proof (induction es)
    case (Cons c es)
    then show ?case
      by (cases c) (auto simp: invalid_schema_def intro: points_invalid [unfolded invalid_schema_def])
  qed simp
  show ?thesis
  proof (cases "\<exists>es. s = CArr es")
    case True
    then obtain es where s: "s = CArr es" by blast
    show ?thesis
      using shapes [of es] required_points [of pre]
      by (cases "required_shapes es (render_path pre)") (auto simp: s check_required_def split: json.splits)
  qed (auto simp: check_required_def split: cjson.splits)
qed

lemma undeclared_points:
  "set ob \<subseteq> set full \<Longrightarrow> points pre (JObj full) (fst (undeclared_loop parent ob (render_path pre)))"
proof (induction ob)
  case (Cons m ob)
  obtain k x where m: "m = (k, x)" by (cases m)
  have "map_of full k \<noteq> None" using Cons.prems m by (metis map_of_eq_None_iff image_eqI fst_conv insert_subset list.simps(15))
  then obtain y where y: "map_of full k = Some y" by blast
  obtain p where p: "hop (JObj full) (Key k) = Inr p" "children (JObj full) ! p = y" by (rule hop_member [OF y])
  have "points (pre @ [Key k]) y
      (Some (make_schema_error UnexpectedProperty (render_path (pre @ [Key k])) a b c))" for a b c
    by (rule points_here) (auto simp: located_def)
  from points_hop [OF p this] show ?case
    using Cons m by (simp add: Let_def render_push)
qed simp

lemma check_additional_points: "points pre v (fst (check_additional_properties parent s v (render_path pre)))"
  using undeclared_points [OF subset_refl]
  by (auto simp: check_additional_properties_def split: cjson.splits json.splits)

lemma leaf_points:
  "points pre v (check_enum s v (render_path pre))" "points pre v (check_const s v (render_path pre))"
  "points pre v (check_min_length s v (render_path pre))" "points pre v (check_max_length s v (render_path pre))"
  "points pre v (check_min_items s v (render_path pre))" "points pre v (check_max_items s v (render_path pre))"
  "points pre v (check_minimum s v (render_path pre))" "points pre v (check_maximum s v (render_path pre))"
  by (auto intro!: points_here simp: check_enum_def check_const_def check_min_length_def check_max_length_def
      check_min_items_def check_max_items_def check_minimum_def check_maximum_def invalid_schema_def located_def Let_def
      split: cjson.splits option.splits json.splits if_splits)

lemma type_pass_points: "points pre v (type_pass es v (render_path pre))"
proof (induction es)
  case (Cons c es)
  obtain k s where c: "c = (k, s)" by (cases c)
  have "points pre v (check_type t v (render_path pre))" for t
    by (rule points_here) (auto simp: check_type_def located_def invalid_schema_def split: if_splits)
  then show ?case using Cons c by (auto split: cjson.splits option.splits if_splits) (metis points_invalid)+
qed simp

lemma type_keyword_points:
  "points pre v (type_pass es v (render_path pre))"
  "points pre v (fst (if k = lit ''type'' then (None, render_path pre)
      else if k = lit ''additionalProperties'' then check_additional_properties parent s v (render_path pre) else r))"
  if "k \<noteq> lit ''type'' \<Longrightarrow> k \<noteq> lit ''additionalProperties'' \<Longrightarrow> points pre v (fst r)"
  using type_pass_points check_additional_points that by auto

lemma keyword_step_buffer:
  "snd (if k = lit ''type'' then (None, pb)
        else if k = lit ''additionalProperties'' then check_additional_properties parent s v pb
        else apply_keyword k s v pb) = pb"
  using check_additional_ok(1) [of parent s v pb] validator_decides(3) [of k s v pb] by simp

lemma error_located:
  "pb = render_path pre \<Longrightarrow> points pre v (fst (validate_node s v pb))"
  "pb = render_path pre \<Longrightarrow> points pre v (fst (keyword_pass parent es v pb))"
  "pb = render_path pre \<Longrightarrow> points pre v (fst (apply_keyword k s v pb))"
  "pb = render_path pre \<Longrightarrow> points pre v (fst (check_properties s v pb))"
  "pb = render_path pre \<Longrightarrow> points pre (JObj ob) (fst (properties_loop ps ob pb))"
  "pb = render_path pre \<Longrightarrow> points pre (JObj ob) (fst (property_one k s ob pb))"
  "pb = render_path pre \<Longrightarrow> points pre v (fst (check_items s v pb))"
  "pb = render_path pre \<Longrightarrow> drop i full = xs \<Longrightarrow> points pre (JArr full) (fst (items_loop s xs i pb))"
proof (induction s v pb and parent es v pb and k s v pb and s v pb and ps ob pb and k s ob pb and s v pb and s xs i pb
    arbitrary: pre and pre and pre and pre and pre and pre and pre and pre full
    rule: validate_node_keyword_pass_apply_keyword_check_properties_properties_loop_property_one_check_items_items_loop.induct)
  case (1 sch v pb)
  then show ?case
    using type_pass_points [of pre v]
    by (auto simp: validate_node.simps split: cjson.splits option.splits) metis
next
  case (2 parent v pb)
  then show ?case by simp
next
  case (3 parent k s es v pb)
  define step where "step = (if k = lit ''type'' then (None, pb)
      else if k = lit ''additionalProperties'' then check_additional_properties parent s v pb else apply_keyword k s v pb)"
  have buf: "snd step = pb" unfolding step_def by (rule keyword_step_buffer)
  have pts: "points pre v (fst step)"
    using 3(1) [OF _ _ 3(3)] type_keyword_points(2) [of k pre v "apply_keyword k s v pb" parent s]
    unfolding step_def 3(3) by blast
  obtain r where r: "step = (r, pb)" using buf by (metis prod.collapse)
  have eq: "keyword_pass parent ((k, s) # es) v pb = (case step of (None, pb') \<Rightarrow> keyword_pass parent es v pb' | r \<Rightarrow> r)"
    by (simp only: keyword_pass.simps(2) step_def)
  have "points pre v (fst (keyword_pass parent es v pb))" if "r = None"
    using 3(2) [of None pb pre, folded step_def] 3(3) r that by simp
  then show ?case using eq pts r by (cases r) simp_all
next
  case (4 k s v pb)
  then show ?case
    using check_required_points leaf_points by (simp add: apply_keyword.simps)
next
  case (5 sch v pb)
  then show ?case by (auto simp: check_properties.simps split: cjson.splits json.splits)
next
  case (6 ob pb)
  then show ?case by simp
next
  case (7 k s ps ob pb)
  obtain r where r: "property_one k s ob pb = (r, pb)" using validator_decides(6) [of k s ob pb] by (metis prod.collapse)
  then show ?case using 7(1) [OF 7(3)] 7(2) [OF _ _ 7(3)] by (cases r) (auto simp: properties_loop.simps(2))
next
  case (8 k s ob pb)
  show ?case
  proof (cases "map_of ob k")
    case (Some x)
    obtain p where p: "hop (JObj ob) (Key k) = Inr p" "children (JObj ob) ! p = x" by (rule hop_member [OF Some])
    have "points (pre @ [Key k]) x (fst (validate_node s x (push_key pb k)))"
      using 8 Some by (simp add: render_push)
    from points_hop [OF p this] show ?thesis
      using Some by (simp add: property_one.simps case_prod_unfold)
  qed (simp add: property_one.simps)
next
  case (9 item v pb)
  then show ?case by (auto simp: check_items.simps split: cjson.splits json.splits)
next
  case (10 item i pb)
  then show ?case by simp
next
  case (11 item x xs i pb)
  have i: "i < length full" "full ! i = x" "drop (i + 1) full = xs"
    using 11(4) by (auto simp: nth_via_drop drop_Suc drop_tl intro: ccontr)
  have "points (pre @ [Index i]) x (fst (validate_node item x (push_index pb i)))"
    using 11(1) 11(3) by (simp add: render_push)
  from points_hop [OF hop_element(1) [OF i(1)] _ this]
  have here: "points pre (JArr full) (fst (validate_node item x (push_index pb i)))"
    using hop_element(2) [OF i(1)] i(2) by simp
  obtain r where r: "validate_node item x (push_index pb i) = (r, push_index pb i)"
    using validator_decides(1) [of item x "push_index pb i"] by (metis prod.collapse)
  show ?case
    using 11(2) 11(3) r here i(3) by (cases r) (auto simp: items_loop.simps(2))
qed

section \<open>Properties\<close>

text \<open>
  C25: \<^verbatim>\<open>schema::validate_result\<close> accepts an instance exactly when it conforms to the schema in
  the declarative reading, which mentions neither the order of the keywords nor the two passes:
  every keyword of every schema node is well formed and holds of the value it governs, and
  unknown keywords are ignored.
\<close>

theorem schema_decides: "validate_result sch v = None \<longleftrightarrow> conforms sch v"
  using validator_decides(1) [of sch v "[]"] by (simp add: validate_result_def)



end
