(* ===== verification/Stream.thy ===== *)
theory Stream
  imports Strings
begin

text \<open>
  The incremental event reader: \<^verbatim>\<open>class StreamReader\<close> of \<^verbatim>\<open>include/pjh_json/stream.hpp\<close>
  and \<^verbatim>\<open>src/parser/stream.cpp\<close>.  It scans a sliding window over an input stream and
  returns one event per call; the open containers are an explicit stack of frames.
\<close>

section \<open>Events, frames and the reader's state\<close>

text \<open>\<^verbatim>\<open>JsonEvent\<close>; the payload of an event is the field its type selects.\<close>

datatype event =
  BeginObject | MapKey bytes | EndObject | BeginArray | EndArray
  | EvNull | EvBoolean bool | EvInteger u64 | EvDouble u64 | EvString bytes

datatype stream_mode = SingleRoot | MultiValue

datatype frame_kind = FObject | FArray

datatype phase =
  ObjectKeyOrEnd | ObjectKey | ObjectColon | ObjectValue | ObjectCommaOrEnd
  | ArrayValueOrEnd | ArrayValue | ArrayCommaOrEnd

record frame =
  fr_kind :: frame_kind
  fr_phase :: phase

text \<open>What the constructor captures.\<close>

record sconf =
  sc_chunk_size :: nat
  sc_mode :: stream_mode
  sc_max_depth :: nat
  sc_strip_bom :: bool
  sc_strict_utf8 :: bool

text \<open>\<^verbatim>\<open>m_chunk_size\<close>: the constructor clamps its argument.\<close>

definition m_chunk_size :: "sconf \<Rightarrow> nat" where
  "m_chunk_size cf = (if sc_chunk_size cf = 0 then 1 else sc_chunk_size cf)"

lemma m_chunk_size_pos [simp]: "0 < m_chunk_size cf"
  by (simp add: m_chunk_size_def)

text \<open>
  The mutable members. The stream is what it has yet to deliver, and whether it goes bad
  behind that or ends; \<open>ss_buf\<close> is \<^verbatim>\<open>m_buf\<close> up to \<^verbatim>\<open>m_len\<close>, and the back of \<^verbatim>\<open>m_stack\<close> is
  the head of \<open>ss_stack\<close>.
\<close>

record sstate =
  ss_in :: bytes
  ss_bad :: bool
  ss_buf :: bytes
  ss_pos :: nat
  ss_abs_base :: nat
  ss_stack :: "frame list"
  ss_start_checked :: bool
  ss_eof :: bool
  ss_root_done :: bool
  ss_finished :: bool
  ss_err :: "error option"

definition reader_start :: "bytes \<Rightarrow> bool \<Rightarrow> sstate" where
  "reader_start t bad =
     \<lparr>ss_in = t, ss_bad = bad, ss_buf = [], ss_pos = 0, ss_abs_base = 0, ss_stack = [],
      ss_start_checked = False, ss_eof = False, ss_root_done = False, ss_finished = False, ss_err = None\<rparr>"

text \<open>
  A step of the reader yields a value, or returns \<^verbatim>\<open>false\<close>, or touches memory outside its
  token buffer. It is generic in the state.
\<close>

datatype ('a, 's) sres = SOk 'a 's | SFail 's | SOob

text \<open>The unconsumed window, the unconsumed input, and its offset in the stream.\<close>

definition window :: "sstate \<Rightarrow> bytes" where
  "window st = drop (ss_pos st) (ss_buf st)"

definition rest :: "sstate \<Rightarrow> bytes" where
  "rest st = window st @ ss_in st"

definition abs_offset :: "sstate \<Rightarrow> nat" where
  "abs_offset st = ss_abs_base st + ss_pos st"

definition s_advance :: "nat \<Rightarrow> sstate \<Rightarrow> sstate" where
  "s_advance n st = st\<lparr>ss_pos := ss_pos st + n\<rparr>"

definition s_fail :: "error_code \<Rightarrow> nat \<Rightarrow> sstate \<Rightarrow> sstate" where
  "s_fail c off st = (if ss_err st \<noteq> None then st else st\<lparr>ss_err := Some (positioned_error c off)\<rparr>)"

definition s_fail_context :: "error_code \<Rightarrow> sstate \<Rightarrow> sstate" where
  "s_fail_context c st =
     (if ss_err st \<noteq> None then st else st\<lparr>ss_err := Some (context_error c CatParse [])\<rparr>)"

section \<open>The window\<close>

definition fill :: "sconf \<Rightarrow> sstate \<Rightarrow> sstate" where
  "fill cf st =
     (if ss_err st \<noteq> None \<or> ss_eof st then st
      else
        let st1 = (if ss_pos st \<noteq> 0
                   then st\<lparr>ss_buf := window st, ss_abs_base := ss_abs_base st + ss_pos st, ss_pos := 0\<rparr>
                   else st);
            n = m_chunk_size cf;
            got = min n (length (ss_in st));
            st2 = st1\<lparr>ss_buf := ss_buf st1 @ take got (ss_in st), ss_in := drop got (ss_in st)\<rparr>
        in if got < n then
             (if ss_bad st then s_fail_context StreamReadFailed st2 else st2\<lparr>ss_eof := True\<rparr>)
           else st2)"

lemma window_advance: "window (s_advance n st) = drop n (window st)"
  by (simp add: window_def s_advance_def add.commute)

lemma rest_advance: "n \<le> length (window st) \<Longrightarrow> rest (s_advance n st) = drop n (rest st)"
  by (simp add: rest_def window_advance) (simp add: s_advance_def)

lemma s_advance_sel [simp]:
  "ss_in (s_advance n st) = ss_in st" "ss_bad (s_advance n st) = ss_bad st" "ss_eof (s_advance n st) = ss_eof st"
  "ss_err (s_advance n st) = ss_err st" "ss_stack (s_advance n st) = ss_stack st"
  "ss_root_done (s_advance n st) = ss_root_done st" "ss_finished (s_advance n st) = ss_finished st"
  "ss_start_checked (s_advance n st) = ss_start_checked st"
  "abs_offset (s_advance n st) = abs_offset st + n"
  by (simp_all add: s_advance_def abs_offset_def)

lemma s_fail_sel [simp]:
  "ss_in (s_fail c p st) = ss_in st" "ss_bad (s_fail c p st) = ss_bad st" "ss_eof (s_fail c p st) = ss_eof st"
  "window (s_fail c p st) = window st" "rest (s_fail c p st) = rest st"
  "abs_offset (s_fail c p st) = abs_offset st" "ss_stack (s_fail c p st) = ss_stack st"
  "ss_root_done (s_fail c p st) = ss_root_done st" "ss_finished (s_fail c p st) = ss_finished st"
  "ss_start_checked (s_fail c p st) = ss_start_checked st"
  "ss_err (s_fail c p st) \<noteq> None"
  "ss_in (s_fail_context c st) = ss_in st" "ss_bad (s_fail_context c st) = ss_bad st"
  "ss_eof (s_fail_context c st) = ss_eof st"
  "window (s_fail_context c st) = window st" "rest (s_fail_context c st) = rest st"
  "abs_offset (s_fail_context c st) = abs_offset st" "ss_stack (s_fail_context c st) = ss_stack st"
  "ss_root_done (s_fail_context c st) = ss_root_done st" "ss_finished (s_fail_context c st) = ss_finished st"
  "ss_start_checked (s_fail_context c st) = ss_start_checked st"
  "ss_err (s_fail_context c st) \<noteq> None"
  by (auto simp: s_fail_def s_fail_context_def window_def rest_def abs_offset_def)

text \<open>A refill keeps the unconsumed input and its offset, and makes progress on the stream.\<close>

lemma fill_rest [simp]: "rest (fill cf st) = rest st"
  by (auto simp: fill_def rest_def window_def Let_def s_fail_context_def)

lemma fill_offset [simp]: "abs_offset (fill cf st) = abs_offset st"
  by (auto simp: fill_def abs_offset_def Let_def s_fail_context_def)

definition pending :: "sstate \<Rightarrow> nat" where
  "pending st = length (ss_in st) + (if ss_eof st then 0 else 1)"

lemma fill_err_None: "ss_err (fill cf st) = None \<Longrightarrow> ss_err st = None"
  by (cases "ss_err st") (simp_all add: fill_def)

lemma fill_progress:
  assumes "ss_err st = None" "\<not> ss_eof st" "ss_err (fill cf st) = None"
  shows "pending (fill cf st) < pending st"
proof -
  have "0 < m_chunk_size cf" by simp
  then show ?thesis
    using assms by (auto simp: fill_def pending_def Let_def s_fail_context_def min_def simp del: m_chunk_size_pos split: if_splits)
qed

function ensure_loop :: "sconf \<Rightarrow> nat \<Rightarrow> sstate \<Rightarrow> sstate" where
  "ensure_loop cf n st =
     (if length (window st) < n \<and> \<not> ss_eof st \<and> ss_err st = None then ensure_loop cf n (fill cf st) else st)"
  by pat_completeness auto
termination
proof (relation "measure (\<lambda>(cf, n, st). if ss_err st = None then Suc (pending st) else 0)", goal_cases)
  case (2 cf n st)
  then show ?case using fill_progress [of st cf] by (cases "ss_err (fill cf st)") auto
qed simp

declare ensure_loop.simps [simp del]

definition ensure :: "sconf \<Rightarrow> nat \<Rightarrow> sstate \<Rightarrow> bool \<times> sstate" where
  "ensure cf n st = (let st' = ensure_loop cf n st in (n \<le> length (window st'), st'))"

function skip_ws :: "sconf \<Rightarrow> sstate \<Rightarrow> sstate" where
  "skip_ws cf st =
     (if ss_err st \<noteq> None then st
      else case window st of
        [] \<Rightarrow> if ss_eof st then st else skip_ws cf (fill cf st)
      | c # _ \<Rightarrow> if \<not> is_whitespace c then st else skip_ws cf (s_advance 1 st))"
  by pat_completeness auto
termination
proof (relation "measures [\<lambda>(cf, st). length (rest st), \<lambda>(cf, st). if ss_err st = None then Suc (pending st) else 0]", goal_cases)
  case (2 cf st)
  then show ?case using fill_progress [of st cf] by (cases "ss_err (fill cf st)") auto
next
  case (3 cf st c r)
  then show ?case by (simp add: rest_advance) (simp add: rest_def)
qed simp

declare skip_ws.simps [simp del]

definition skip_start_bom :: "sconf \<Rightarrow> sstate \<Rightarrow> sstate" where
  "skip_start_bom cf st =
     (if ss_start_checked st then st
      else
        let st1 = st\<lparr>ss_start_checked := True\<rparr> in
        if \<not> sc_strip_bom cf \<or> ss_err st1 \<noteq> None then st1
        else case ensure cf 3 st1 of (ok, st2) \<Rightarrow>
          if \<not> ok then st2
          else if take 3 (window st2) = [0xEF, 0xBB, 0xBF] then s_advance 3 st2
          else st2)"

section \<open>String tokens\<close>

text \<open>
  The raw scan of \<^verbatim>\<open>parse_string_token\<close> behind the opening quote: the token so far, whether
  the last byte was a backslash, whether there was an escape, and the index of the first
  raw control byte.
\<close>

type_synonym raw_token = "bytes \<times> bool \<times> nat option"

function raw_scan ::
  "sconf \<Rightarrow> bytes \<Rightarrow> bool \<Rightarrow> bool \<Rightarrow> nat option \<Rightarrow> sstate \<Rightarrow> (raw_token, sstate) sres" where
  "raw_scan cf tok escaped has_escape first_control st =
     (case window st of
        [] \<Rightarrow>
          if ss_eof st then SFail (s_fail UnterminatedString (abs_offset st) st)
          else
            let st' = fill cf st
            in if ss_err st' \<noteq> None then SFail st'
               else raw_scan cf tok escaped has_escape first_control st'
      | c # _ \<Rightarrow>
          let st' = s_advance 1 st in
          if escaped then raw_scan cf (tok @ [c]) False has_escape first_control st'
          else if c = 0x22 then SOk (tok, has_escape, first_control) st'
          else if c = 0x5C then raw_scan cf (tok @ [c]) True True first_control st'
          else raw_scan cf (tok @ [c]) False has_escape
                 (if c < 0x20 \<and> first_control = None then Some (length tok) else first_control) st')"
  by pat_completeness auto
termination
proof (relation "measures [\<lambda>(cf, tok, e, h, fc, st). length (rest st),
    \<lambda>(cf, tok, e, h, fc, st). if ss_err st = None then Suc (pending st) else 0]", goal_cases)
  case (2 cf tok e h fc st st')
  then have "ss_err st = None" by (auto intro: fill_err_None)
  then show ?case using 2 fill_progress [of st cf] by simp
qed (simp_all add: rest_advance, simp_all add: rest_def)

declare raw_scan.simps [simp del]

text \<open>
  What follows works on the token buffer alone; an error is the code and its index in the
  token, \<^term>\<open>None\<close> for a context-free one.
\<close>

datatype content = ContentOk bytes | ContentFail error_code "nat option" | ContentOob

definition kStringDecodePadding :: nat where "kStringDecodePadding = 16"

text \<open>Phase 2: decode in place, \<open>len\<close> is the length of the raw token.\<close>

function decode_token :: "bool \<Rightarrow> nat \<Rightarrow> nat \<Rightarrow> nat \<Rightarrow> utf8_checker \<Rightarrow> bytes \<Rightarrow> content" where
  "decode_token strict len dst src ck tok =
     (if \<not> src < len then
        (let ck' = (if strict then ck_end ck else ck)
         in if strict \<and> ck_failed ck' then ContentFail (ck_code ck') (Some (ck_err ck')) else ContentOk (take dst tok))
      else case rd tok src of
        None \<Rightarrow> ContentOob
      | Some c \<Rightarrow>
          let ck' = (if strict then ck_feed c src ck else ck) in
          if strict \<and> ck_failed ck' then ContentFail (ck_code ck') (Some (ck_err ck'))
          else if c = 0x5C then
            (case handle_escape tok src of
               EscOob \<Rightarrow> ContentOob
             | EscFail e p \<Rightarrow> ContentFail e p
             | EscOk bs j \<Rightarrow> (case put tok dst bs of
                   None \<Rightarrow> ContentOob
                 | Some tok' \<Rightarrow> decode_token strict len (dst + length bs) j ck' tok'))
          else if c < 0x20 then ContentFail UnescapedControl (Some src)
          else (case put tok dst [c] of
                  None \<Rightarrow> ContentOob
                | Some tok' \<Rightarrow> decode_token strict len (dst + 1) (src + 1) ck' tok'))"
  by pat_completeness auto
termination
  by (relation "measure (\<lambda>(strict, len, dst, src, ck, tok). len - src)") (auto dest!: handle_escape_cursor)

declare decode_token.simps [simp del]

definition token_content :: "bool \<Rightarrow> raw_token \<Rightarrow> content" where
  "token_content strict raw =
     (case raw of (tok, has_escape, first_control) \<Rightarrow>
        if \<not> has_escape then
          (case first_control of
             Some i \<Rightarrow> ContentFail UnescapedControl (Some i)
           | None \<Rightarrow>
               let (ec, ep) = (if strict then check_utf8_strict tok 0 else (NoError, 0))
               in if ec \<noteq> NoError then ContentFail ec (Some ep) else ContentOk tok)
        else decode_token strict (length tok) 0 0 checker0 (tok @ replicate kStringDecodePadding 0))"

definition content_result :: "nat \<Rightarrow> content \<Rightarrow> sstate \<Rightarrow> (bytes, sstate) sres" where
  "content_result content_base ct st =
     (case ct of
        ContentOob \<Rightarrow> SOob
      | ContentFail c (Some i) \<Rightarrow> SFail (s_fail c (content_base + i) st)
      | ContentFail c None \<Rightarrow> SFail (s_fail_context c st)
      | ContentOk s \<Rightarrow> SOk s st)"

definition parse_string_token :: "sconf \<Rightarrow> sstate \<Rightarrow> (bytes, sstate) sres" where
  "parse_string_token cf st =
     (let st1 = s_advance 1 st; content_base = abs_offset st1 in
      case raw_scan cf [] False False None st1 of
        SOob \<Rightarrow> SOob
      | SFail st2 \<Rightarrow> SFail st2
      | SOk raw st2 \<Rightarrow> content_result content_base (token_content (sc_strict_utf8 cf) raw) st2)"

section \<open>Literals and numbers\<close>

definition event_after_literal :: "byte \<Rightarrow> bool" where
  "event_after_literal c \<longleftrightarrow>
     c \<in> {0x00, 0x09, 0x0A, 0x0D, 0x20, 0x2C, 0x3A, 0x5D, 0x7D}"

definition event_number_error_code :: "number_error \<Rightarrow> error_code" where
  "event_number_error_code e =
     (case e of NoIntDigits \<Rightarrow> NumberNoIntDigits | LeadingZero \<Rightarrow> NumberLeadingZero
      | NoFracDigits \<Rightarrow> NumberNoFracDigits | NoExpDigits \<Rightarrow> NumberNoExpDigits
      | NumOk \<Rightarrow> NumberInvalidFormat)"

definition literal_of :: "byte \<Rightarrow> bytes" where
  "literal_of c = (if c = 0x74 then lit ''true'' else if c = 0x66 then lit ''false'' else lit ''null'')"

definition literal_event :: "byte \<Rightarrow> event" where
  "literal_event c = (if c = 0x6E then EvNull else EvBoolean (c = 0x74))"

text \<open>\<open>c\<close> is the byte at the cursor.\<close>

definition event_literal :: "sconf \<Rightarrow> byte \<Rightarrow> sstate \<Rightarrow> (event, sstate) sres" where
  "event_literal cf c st =
     (let word = literal_of c; start_abs = abs_offset st in
      case ensure cf (length word) st of (ok, st1) \<Rightarrow>
        if \<not> ok then
          (if ss_err st1 \<noteq> None then SFail st1 else SFail (s_fail InvalidLiteral start_abs st1))
        else if \<not> match_literal (window st1) word then SFail (s_fail InvalidLiteral start_abs st1)
        else
          let st2 = s_advance (length word) st1 in
          case ensure cf 1 st2 of (more_bytes, st3) \<Rightarrow>
            if more_bytes then
              (if \<not> event_after_literal (hd (window st3))
               then SFail (s_fail InvalidLiteralTrailing (abs_offset st3) st3)
               else SOk (literal_event c) st3)
            else if ss_err st3 \<noteq> None then SFail st3
            else SOk (literal_event c) st3)"

text \<open>The event of a classified number.\<close>

definition number_event :: "bytes json \<Rightarrow> event" where
  "number_event v = (case v of JInt i \<Rightarrow> EvInteger i | JFloat d \<Rightarrow> EvDouble d | _ \<Rightarrow> EvNull)"

function event_number :: "sconf \<Rightarrow> sstate \<Rightarrow> (event, sstate) sres" where
  "event_number cf st =
     (case scan_number (window st) of (ne, n, sc) \<Rightarrow>
        if n = length (window st) \<and> \<not> ss_eof st then
          (let st' = fill cf st in if ss_err st' \<noteq> None then SFail st' else event_number cf st')
        else if ne \<noteq> NumOk then SFail (s_fail (event_number_error_code ne) (abs_offset st + n) st)
        else case classify_number (take n (window st)) sc of
          Inl (ec, k) \<Rightarrow> SFail (s_fail ec (abs_offset st + k) st)
        | Inr v \<Rightarrow> SOk (number_event v) (s_advance n st))"
  by pat_completeness auto
termination
proof (relation "measure (\<lambda>(cf, st). if ss_err st = None then Suc (pending st) else 0)", goal_cases)
  case (2 cf st ne r n sc st')
  then have "ss_err st = None" by (auto intro: fill_err_None)
  then show ?case using 2 fill_progress [of st cf] by simp
qed simp

declare event_number.simps [simp del]

section \<open>Values\<close>

definition enter_container :: "sconf \<Rightarrow> frame_kind \<Rightarrow> nat \<Rightarrow> sstate \<Rightarrow> (unit, sstate) sres" where
  "enter_container cf kind open_offset st =
     (if sc_max_depth cf \<noteq> 0 \<and> sc_max_depth cf < length (ss_stack st) + 1
      then SFail (s_fail MaxDepthExceeded open_offset st)
      else SOk () (st\<lparr>ss_stack :=
        \<lparr>fr_kind = kind, fr_phase = (if kind = FObject then ObjectKeyOrEnd else ArrayValueOrEnd)\<rparr> # ss_stack st\<rparr>))"

definition set_phase :: "phase \<Rightarrow> sstate \<Rightarrow> sstate" where
  "set_phase ph st = (case ss_stack st of [] \<Rightarrow> st | f # fs \<Rightarrow> st\<lparr>ss_stack := f\<lparr>fr_phase := ph\<rparr> # fs\<rparr>)"

definition complete_value :: "sstate \<Rightarrow> sstate" where
  "complete_value st =
     (case ss_stack st of
        [] \<Rightarrow> st\<lparr>ss_root_done := True\<rparr>
      | f # fs \<Rightarrow> set_phase (if fr_kind f = FObject then ObjectCommaOrEnd else ArrayCommaOrEnd) st)"

text \<open>Bind, for the steps that return \<^verbatim>\<open>false\<close> at once when a part of them does.\<close>

definition s_bind :: "('a, 's) sres \<Rightarrow> ('a \<Rightarrow> 's \<Rightarrow> ('b, 's) sres) \<Rightarrow> ('b, 's) sres" where
  "s_bind m f = (case m of SOk a st \<Rightarrow> f a st | SFail st \<Rightarrow> SFail st | SOob \<Rightarrow> SOob)"

lemma s_bind_simps [simp]:
  "s_bind (SOk a st) f = f a st" "s_bind (SFail st) f = SFail st" "s_bind SOob f = SOob"
  by (simp_all add: s_bind_def)

definition number_lead :: "byte \<Rightarrow> bool" where
  "number_lead c \<longleftrightarrow> c \<in> {0x2D, 0x30, 0x31, 0x32, 0x33, 0x34, 0x35, 0x36, 0x37, 0x38, 0x39}"

definition expect_value :: "sconf \<Rightarrow> bool \<Rightarrow> sstate \<Rightarrow> (event, sstate) sres" where
  "expect_value cf at_root st0 =
     (let st = skip_ws cf st0 in
      if ss_err st \<noteq> None then SFail st
      else case window st of
        [] \<Rightarrow> SFail (s_fail (if at_root then UnexpectedEndOfInput else UnexpectedCharacter) (abs_offset st) st)
      | c # _ \<Rightarrow>
          if c = 0x7B then
            s_bind (enter_container cf FObject (abs_offset st) st) (\<lambda>_ st. SOk BeginObject (s_advance 1 st))
          else if c = 0x5B then
            s_bind (enter_container cf FArray (abs_offset st) st) (\<lambda>_ st. SOk BeginArray (s_advance 1 st))
          else if c = 0x22 then
            s_bind (parse_string_token cf st) (\<lambda>s st. SOk (EvString s) (complete_value st))
          else if c = 0x74 \<or> c = 0x66 \<or> c = 0x6E then
            s_bind (event_literal cf c st) (\<lambda>ev st. SOk ev (complete_value st))
          else if number_lead c then
            s_bind (event_number cf st) (\<lambda>ev st. SOk ev (complete_value st))
          else SFail (s_fail (if at_root then UnexpectedValueCharacter else UnexpectedCharacter) (abs_offset st) st))"

section \<open>The state machine\<close>

text \<open>One iteration of the loop of \<^verbatim>\<open>next\<close>: it returns, or goes round again.\<close>

datatype 's iteration = Return "(event, 's) sres" | Continue 's

text \<open>Closing the container on top.\<close>

definition close_container :: "event \<Rightarrow> sstate \<Rightarrow> (event, sstate) sres" where
  "close_container ev st =
     (let st1 = s_advance 1 st in SOk ev (complete_value (st1\<lparr>ss_stack := tl (ss_stack st1)\<rparr>)))"

definition root_done_step :: "sconf \<Rightarrow> sstate \<Rightarrow> sstate iteration" where
  "root_done_step cf st0 =
     (case sc_mode cf of
        SingleRoot \<Rightarrow>
          (let st = skip_ws cf st0 in
           if ss_err st \<noteq> None then Return (SFail st)
           else if window st \<noteq> [] then Return (SFail (s_fail ExtraCharactersAfterValue (abs_offset st) st))
           else Return (SFail (st\<lparr>ss_finished := True\<rparr>)))
      | MultiValue \<Rightarrow>
          (case ensure cf 1 st0 of (ok, st1) \<Rightarrow>
             if \<not> ok then
               (if ss_err st1 \<noteq> None then Return (SFail st1) else Return (SFail (st1\<lparr>ss_finished := True\<rparr>)))
             else if \<not> is_whitespace (hd (window st1))
               then Return (SFail (s_fail ExtraCharactersAfterValue (abs_offset st1) st1))
             else
               let st = skip_ws cf st1 in
               if ss_err st \<noteq> None then Return (SFail st)
               else if window st = [] then Return (SFail (st\<lparr>ss_finished := True\<rparr>))
               else Continue (st\<lparr>ss_root_done := False\<rparr>)))"

definition root_step :: "sconf \<Rightarrow> sstate \<Rightarrow> sstate iteration" where
  "root_step cf st0 =
     (if sc_mode cf = MultiValue then
        (let st = skip_ws cf st0 in
         if ss_err st \<noteq> None then Return (SFail st)
         else if window st = [] then Return (SFail (st\<lparr>ss_finished := True\<rparr>))
         else Return (expect_value cf True st))
      else Return (expect_value cf True st0))"

definition key_step :: "sconf \<Rightarrow> phase \<Rightarrow> sstate \<Rightarrow> sstate iteration" where
  "key_step cf ph st0 =
     (let st = skip_ws cf st0 in
      if ss_err st \<noteq> None then Return (SFail st)
      else case window st of
        [] \<Rightarrow> Return (SFail (s_fail ExpectedStringKey (abs_offset st) st))
      | c # _ \<Rightarrow>
          if c = 0x7D \<and> ph = ObjectKeyOrEnd then Return (close_container EndObject st)
          else if c \<noteq> 0x22 then Return (SFail (s_fail ExpectedStringKey (abs_offset st) st))
          else Return (s_bind (parse_string_token cf st) (\<lambda>s st. SOk (MapKey s) (set_phase ObjectColon st))))"

definition colon_step :: "sconf \<Rightarrow> sstate \<Rightarrow> sstate iteration" where
  "colon_step cf st0 =
     (let st = skip_ws cf st0 in
      if ss_err st \<noteq> None then Return (SFail st)
      else if window st = [] \<or> hd (window st) \<noteq> 0x3A
        then Return (SFail (s_fail ExpectedColon (abs_offset st) st))
      else Continue (set_phase ObjectValue (s_advance 1 st)))"

definition object_comma_step :: "sconf \<Rightarrow> sstate \<Rightarrow> sstate iteration" where
  "object_comma_step cf st0 =
     (let st = skip_ws cf st0 in
      if ss_err st \<noteq> None then Return (SFail st)
      else case window st of
        [] \<Rightarrow> Return (SFail (s_fail UnexpectedEndOfObject (abs_offset st) st))
      | c # _ \<Rightarrow>
          if c = 0x7D then Return (close_container EndObject st)
          else if c = 0x2C then Continue (set_phase ObjectKey (s_advance 1 st))
          else Return (SFail (s_fail ExpectedCommaOrBrace (abs_offset st) st)))"

definition array_first_step :: "sconf \<Rightarrow> sstate \<Rightarrow> sstate iteration" where
  "array_first_step cf st0 =
     (let st = skip_ws cf st0 in
      if ss_err st \<noteq> None then Return (SFail st)
      else case window st of
        [] \<Rightarrow> Return (SFail (s_fail UnexpectedCharacter (abs_offset st) st))
      | c # _ \<Rightarrow>
          if c = 0x5D then Return (close_container EndArray st)
          else Return (expect_value cf False st))"

definition array_comma_step :: "sconf \<Rightarrow> sstate \<Rightarrow> sstate iteration" where
  "array_comma_step cf st0 =
     (let st = skip_ws cf st0 in
      if ss_err st \<noteq> None then Return (SFail st)
      else case window st of
        [] \<Rightarrow> Return (SFail (s_fail ExpectedCommaOrBracket (abs_offset st) st))
      | c # _ \<Rightarrow>
          if c = 0x5D then Return (close_container EndArray st)
          else if c = 0x2C then Continue (set_phase ArrayValue (s_advance 1 st))
          else Return (SFail (s_fail ExpectedCommaOrBracket (abs_offset st) st)))"

definition next_iteration :: "sconf \<Rightarrow> sstate \<Rightarrow> sstate iteration" where
  "next_iteration cf st =
     (if ss_err st \<noteq> None \<or> ss_finished st then Return (SFail st)
      else if ss_root_done st then root_done_step cf st
      else case ss_stack st of
        [] \<Rightarrow> root_step cf st
      | f # _ \<Rightarrow>
          (case fr_phase f of
             ObjectKeyOrEnd \<Rightarrow> key_step cf ObjectKeyOrEnd st
           | ObjectKey \<Rightarrow> key_step cf ObjectKey st
           | ObjectColon \<Rightarrow> colon_step cf st
           | ObjectValue \<Rightarrow> Return (expect_value cf False st)
           | ObjectCommaOrEnd \<Rightarrow> object_comma_step cf st
           | ArrayValueOrEnd \<Rightarrow> array_first_step cf st
           | ArrayValue \<Rightarrow> Return (expect_value cf False st)
           | ArrayCommaOrEnd \<Rightarrow> array_comma_step cf st))"

section \<open>The loop of \<^verbatim>\<open>next\<close>\<close>

lemma fill_frame [simp]:
  "ss_stack (fill cf st) = ss_stack st" "ss_root_done (fill cf st) = ss_root_done st"
  "ss_finished (fill cf st) = ss_finished st" "ss_start_checked (fill cf st) = ss_start_checked st"
  "ss_bad (fill cf st) = ss_bad st"
  by (auto simp: fill_def Let_def s_fail_context_def)

lemma ensure_loop_frame [simp]:
  "ss_stack (ensure_loop cf n st) = ss_stack st" "ss_root_done (ensure_loop cf n st) = ss_root_done st"
  "ss_finished (ensure_loop cf n st) = ss_finished st" "ss_start_checked (ensure_loop cf n st) = ss_start_checked st"
  "ss_bad (ensure_loop cf n st) = ss_bad st" "rest (ensure_loop cf n st) = rest st"
  "abs_offset (ensure_loop cf n st) = abs_offset st"
proof (induction cf n st rule: ensure_loop.induct)
  case (1 cf n st)
  { case 1 then show ?case using "1.IH"(1) by (subst ensure_loop.simps) simp }
  { case 2 then show ?case using "1.IH"(2) by (subst ensure_loop.simps) simp }
  { case 3 then show ?case using "1.IH"(3) by (subst ensure_loop.simps) simp }
  { case 4 then show ?case using "1.IH"(4) by (subst ensure_loop.simps) simp }
  { case 5 then show ?case using "1.IH"(5) by (subst ensure_loop.simps) simp }
  { case 6 then show ?case using "1.IH"(6) by (subst ensure_loop.simps) simp }
  { case 7 then show ?case using "1.IH"(7) by (subst ensure_loop.simps) simp }
qed

lemma skip_ws_frame:
  "ss_stack (skip_ws cf st) = ss_stack st \<and> ss_root_done (skip_ws cf st) = ss_root_done st \<and>
   ss_finished (skip_ws cf st) = ss_finished st \<and> ss_start_checked (skip_ws cf st) = ss_start_checked st \<and>
   ss_bad (skip_ws cf st) = ss_bad st \<and> length (rest (skip_ws cf st)) \<le> length (rest st)"
proof (induction cf st rule: skip_ws.induct)
  case (1 cf st)
  show ?case
    using 1 by (subst (1 2 3 4 5 6) skip_ws.simps) (auto split: list.splits simp: rest_advance)
qed

lemmas skip_ws_frames [simp] =
  skip_ws_frame [THEN conjunct1] skip_ws_frame [THEN conjunct2, THEN conjunct1]
  skip_ws_frame [THEN conjunct2, THEN conjunct2, THEN conjunct1]
  skip_ws_frame [THEN conjunct2, THEN conjunct2, THEN conjunct2, THEN conjunct1]
  skip_ws_frame [THEN conjunct2, THEN conjunct2, THEN conjunct2, THEN conjunct2, THEN conjunct1]

lemma skip_ws_shrinks: "length (rest (skip_ws cf st)) \<le> length (rest st)"
  using skip_ws_frame by blast

lemma set_phase_sel [simp]:
  "ss_in (set_phase ph st) = ss_in st" "ss_bad (set_phase ph st) = ss_bad st" "ss_eof (set_phase ph st) = ss_eof st"
  "window (set_phase ph st) = window st" "rest (set_phase ph st) = rest st"
  "abs_offset (set_phase ph st) = abs_offset st"
  "ss_root_done (set_phase ph st) = ss_root_done st" "ss_finished (set_phase ph st) = ss_finished st"
  "ss_start_checked (set_phase ph st) = ss_start_checked st" "ss_err (set_phase ph st) = ss_err st"
  by (auto simp: set_phase_def window_def rest_def abs_offset_def split: list.splits)

lemma advance_into: "window st \<noteq> [] \<Longrightarrow> length (rest (s_advance 1 st)) < length (rest st)"
  by (cases "window st") (simp_all add: rest_advance, simp add: rest_def)

lemma flag_rest [simp]:
  "rest (st\<lparr>ss_root_done := b\<rparr>) = rest st" "rest (st\<lparr>ss_finished := b\<rparr>) = rest st"
  "rest (st\<lparr>ss_start_checked := b\<rparr>) = rest st" "rest (st\<lparr>ss_stack := fs\<rparr>) = rest st"
  "window (st\<lparr>ss_root_done := b\<rparr>) = window st" "window (st\<lparr>ss_finished := b\<rparr>) = window st"
  "window (st\<lparr>ss_start_checked := b\<rparr>) = window st" "window (st\<lparr>ss_stack := fs\<rparr>) = window st"
  "abs_offset (st\<lparr>ss_root_done := b\<rparr>) = abs_offset st" "abs_offset (st\<lparr>ss_finished := b\<rparr>) = abs_offset st"
  "abs_offset (st\<lparr>ss_start_checked := b\<rparr>) = abs_offset st" "abs_offset (st\<lparr>ss_stack := fs\<rparr>) = abs_offset st"
  by (simp_all add: rest_def window_def abs_offset_def)

lemma iteration_progress:
  assumes "next_iteration cf st = Continue st'"
  shows "length (rest st') < length (rest st) \<or>
    (length (rest st') \<le> length (rest st) \<and> ss_root_done st \<and> \<not> ss_root_done st')"
proof (cases "ss_root_done st")
  case True
  then have "root_done_step cf st = Continue st'" using assms by (auto simp: next_iteration_def split: if_splits)
  then show ?thesis
    using True skip_ws_shrinks [of cf "ensure_loop cf 1 st"]
    by (auto simp: root_done_step_def Let_def ensure_def split: stream_mode.splits if_splits)
next
  case False
  let ?s = "skip_ws cf st"
  have "window ?s \<noteq> [] \<and> (\<exists>ph. st' = set_phase ph (s_advance 1 ?s))"
    using assms False
    by (auto simp: next_iteration_def root_step_def key_step_def colon_step_def object_comma_step_def
        array_first_step_def array_comma_step_def Let_def split: if_splits list.splits phase.splits)
  then show ?thesis
    using advance_into [of ?s] skip_ws_shrinks [of cf st] by auto
qed

function next_loop :: "sconf \<Rightarrow> sstate \<Rightarrow> (event, sstate) sres" where
  "next_loop cf st =
     (case next_iteration cf st of
        Return r \<Rightarrow> r
      | Continue st' \<Rightarrow> next_loop cf st')"
  by pat_completeness auto
termination
proof (relation "measures [\<lambda>(cf, st). length (rest st), \<lambda>(cf, st). if ss_root_done st then 1 else 0]", goal_cases)
  case (2 cf st st')
  then show ?case using iteration_progress [of cf st st'] by auto
qed simp

declare next_loop.simps [simp del]

text \<open>\<^verbatim>\<open>bool StreamReader::next(JsonEvent &out)\<close>.\<close>

definition next_event :: "sconf \<Rightarrow> sstate \<Rightarrow> (event, sstate) sres" where
  "next_event cf st = next_loop cf (if ss_start_checked st then st else skip_start_bom cf st)"

text \<open>The throwing and the result shell: an event, a clean end, or the recorded error.\<close>

datatype pulled = Pulled event | CleanEnd | Failed error | PulledOob

definition next_result :: "sconf \<Rightarrow> sstate \<Rightarrow> pulled \<times> sstate" where
  "next_result cf st =
     (case next_event cf st of
        SOk ev st' \<Rightarrow> (Pulled ev, st')
      | SFail st' \<Rightarrow> ((case ss_err st' of Some e \<Rightarrow> Failed e | None \<Rightarrow> CleanEnd), st')
      | SOob \<Rightarrow> (PulledOob, st))"

section \<open>Every event consumes input\<close>

lemma raw_scan_shrinks:
  "raw_scan cf tok e h fc st = SOk raw st' \<Longrightarrow> length (rest st') \<le> length (rest st)"
proof (induction cf tok e h fc st rule: raw_scan.induct)
  case (1 cf tok e h fc st)
  show ?case
  proof (cases "window st")
    case Nil
    then have "\<not> ss_eof st" "ss_err (fill cf st) = None" "raw_scan cf tok e h fc (fill cf st) = SOk raw st'"
      using 1(5) by (subst (asm) raw_scan.simps; simp add: Let_def split: if_splits)+
    then show ?thesis using 1(1) [OF Nil _ refl] by simp
  next
    case (Cons c r)
    have "length (rest (s_advance 1 st)) < length (rest st)" using advance_into [of st] Cons by simp
    moreover have "length (rest st') \<le> length (rest (s_advance 1 st))"
      using 1(5) Cons "1.IH"(2-4) [OF Cons refl]
      by (subst (asm) raw_scan.simps) (simp add: Let_def split: if_splits)
    ultimately show ?thesis by simp
  qed
qed

lemma parse_string_token_shrinks:
  "parse_string_token cf st = SOk s st' \<Longrightarrow> window st \<noteq> [] \<Longrightarrow> length (rest st') < length (rest st)"
  using raw_scan_shrinks advance_into [of st]
  by (fastforce simp: parse_string_token_def content_result_def Let_def split: sres.splits content.splits option.splits)

lemma advance_shrinks:
  "0 < n \<Longrightarrow> n \<le> length (window st) \<Longrightarrow> length (rest (s_advance n st)) < length (rest st)"
  by (simp add: rest_advance) (auto simp: rest_def)

lemma match_literal_length: "match_literal p l \<Longrightarrow> length l \<le> length p"
  by (induction p l rule: match_literal.induct) auto

lemma event_literal_shrinks:
  assumes "event_literal cf c st = SOk ev st'"
  shows "length (rest st') < length (rest st)"
proof -
  let ?n = "length (literal_of c)"
  let ?s = "ensure_loop cf ?n st"
  have "match_literal (window ?s) (literal_of c)" "rest st' = rest (s_advance ?n ?s)"
    using assms by (auto simp: event_literal_def Let_def ensure_def split: if_splits)
  moreover have "0 < ?n" by (simp add: literal_of_def lit_def)
  ultimately show ?thesis using advance_shrinks [of ?n ?s] match_literal_length by simp
qed

lemma scan_number_consumes: "scan_number t = (NumOk, n, sc) \<Longrightarrow> 0 < n \<and> n \<le> length t"
proof -
  assume s: "scan_number t = (NumOk, n, sc)"
  then obtain neg ip fr ex where p: "n \<le> length t" "number_parts neg ip fr ex (take n t)"
    using scan_number_sound [OF s] by blast
  then have "take n t \<noteq> []" using digits1_Cons [of ip] by (auto simp: number_parts_def int_part_def)
  then show ?thesis using p(1) by auto
qed

lemma event_number_shrinks:
  "event_number cf st = SOk ev st' \<Longrightarrow> length (rest st') < length (rest st)"
proof (induction cf st rule: event_number.induct)
  case (1 cf st)
  obtain ne n sc where s: "scan_number (window st) = (ne, n, sc)" by (metis prod_cases3)
  show ?case
  proof (cases "n = length (window st) \<and> \<not> ss_eof st")
    case True
    then show ?thesis
      using 1(1) [OF s [symmetric] refl True refl] 1(2) s by (subst (asm) (2) event_number.simps) (auto simp: Let_def split: if_splits)
  next
    case False
    then have "ne = NumOk" "st' = s_advance n st"
      using 1(2) s by (subst (asm) event_number.simps; auto split: if_splits sum.splits)+
    then show ?thesis using advance_shrinks scan_number_consumes s by blast
  qed
qed

lemma complete_value_sel [simp]:
  "rest (complete_value st) = rest st" "window (complete_value st) = window st"
  "abs_offset (complete_value st) = abs_offset st"
  "ss_in (complete_value st) = ss_in st" "ss_bad (complete_value st) = ss_bad st" "ss_eof (complete_value st) = ss_eof st"
  "ss_finished (complete_value st) = ss_finished st" "ss_start_checked (complete_value st) = ss_start_checked st"
  "ss_err (complete_value st) = ss_err st"
  by (auto simp: complete_value_def split: list.splits)

lemma s_bind_eq_SOk: "s_bind m f = SOk b st' \<longleftrightarrow> (\<exists>a st. m = SOk a st \<and> f a st = SOk b st')"
  by (cases m) auto

lemma rest_nonempty: "window st = c # r \<Longrightarrow> rest st \<noteq> []"
  by (simp add: rest_def)

lemma expect_value_shrinks:
  assumes "expect_value cf r st = SOk ev st'"
  shows "length (rest st') < length (rest st)"
proof -
  let ?s = "skip_ws cf st"
  obtain c w where w: "window ?s = c # w"
    using assms by (auto simp: expect_value_def Let_def split: if_splits list.splits)
  consider "rest st' = drop 1 (rest ?s)" | st1 s where "parse_string_token cf ?s = SOk s st1" "rest st' = rest st1"
    | st1 e where "event_literal cf c ?s = SOk e st1" "rest st' = rest st1"
    | st1 e where "event_number cf ?s = SOk e st1" "rest st' = rest st1"
    using assms w by (auto simp: expect_value_def Let_def s_bind_eq_SOk enter_container_def rest_advance split: if_splits)
  then have "length (rest st') < length (rest ?s)"
  proof cases
    case 1
    then show ?thesis using rest_nonempty [OF w] by simp
  next
    case 2
    then show ?thesis using parse_string_token_shrinks w by fastforce
  next
    case 3
    then show ?thesis using event_literal_shrinks by fastforce
  next
    case 4
    then show ?thesis using event_number_shrinks by fastforce
  qed
  then show ?thesis using skip_ws_shrinks [of cf st] by simp
qed

lemma close_container_shrinks:
  "close_container e st = SOk ev st' \<Longrightarrow> window st \<noteq> [] \<Longrightarrow> length (rest st') < length (rest st)"
  using advance_into [of st] by (auto simp: close_container_def Let_def)

definition shrinking :: "sstate \<Rightarrow> sstate iteration \<Rightarrow> bool" where
  "shrinking st it \<longleftrightarrow> (\<forall>ev st'. it = Return (SOk ev st') \<longrightarrow> length (rest st') < length (rest st))"

lemma shrinking_simps [simp]:
  "shrinking st (Return (SFail st'))" "shrinking st (Continue st')" "shrinking st (Return (expect_value cf r st))"
  by (auto simp: shrinking_def dest: expect_value_shrinks)

lemma shrinking_ws: "shrinking (skip_ws cf st) it \<Longrightarrow> shrinking st it"
  using skip_ws_shrinks [of cf st] by (fastforce simp: shrinking_def)

lemma shrinking_close: "window st \<noteq> [] \<Longrightarrow> shrinking st (Return (close_container e st))"
  by (auto simp: shrinking_def dest: close_container_shrinks)

lemma shrinking_key:
  "window st \<noteq> [] \<Longrightarrow> shrinking st (Return (s_bind (parse_string_token cf st) (\<lambda>s st. SOk (MapKey s) (set_phase ph st))))"
  by (auto simp: shrinking_def s_bind_eq_SOk dest: parse_string_token_shrinks)

lemma shrinking_steps:
  "shrinking st (root_done_step cf st)" "shrinking st (root_step cf st)" "shrinking st (key_step cf ph st)"
  "shrinking st (colon_step cf st)" "shrinking st (object_comma_step cf st)" "shrinking st (array_first_step cf st)"
  "shrinking st (array_comma_step cf st)"
proof -
  show "shrinking st (root_done_step cf st)"
    by (auto simp: root_done_step_def Let_def ensure_def split: stream_mode.splits)
  show "shrinking st (root_step cf st)"
  proof (cases "sc_mode cf = MultiValue")
    case True
    then show ?thesis by - (rule shrinking_ws [of cf], simp add: root_step_def Let_def)
  qed (simp add: root_step_def Let_def)
  show "shrinking st (key_step cf ph st)"
    by (rule shrinking_ws [of cf]) (auto simp: key_step_def Let_def shrinking_close shrinking_key split: list.splits)
  show "shrinking st (colon_step cf st)"
    by (simp add: colon_step_def Let_def)
  show "shrinking st (object_comma_step cf st)"
    by (rule shrinking_ws [of cf]) (auto simp: object_comma_step_def Let_def shrinking_close split: list.splits)
  show "shrinking st (array_first_step cf st)"
    by (rule shrinking_ws [of cf]) (auto simp: array_first_step_def Let_def shrinking_close split: list.splits)
  show "shrinking st (array_comma_step cf st)"
    by (rule shrinking_ws [of cf]) (auto simp: array_comma_step_def Let_def shrinking_close split: list.splits)
qed

lemma next_iteration_shrinks:
  assumes "next_iteration cf st = Return (SOk ev st')"
  shows "length (rest st') < length (rest st)"
proof -
  have "shrinking st (next_iteration cf st)"
    by (auto simp: next_iteration_def shrinking_steps split: list.splits phase.splits)
  then show ?thesis using assms by (simp add: shrinking_def)
qed

lemma next_loop_shrinks: "next_loop cf st = SOk ev st' \<Longrightarrow> length (rest st') < length (rest st)"
proof (induction cf st rule: next_loop.induct)
  case (1 cf st)
  show ?case
  proof (cases "next_iteration cf st")
    case (Return r)
    then show ?thesis using 1(2) next_iteration_shrinks by (simp add: next_loop.simps)
  next
    case (Continue st1)
    then have "next_loop cf st1 = SOk ev st'" using 1(2) by (simp add: next_loop.simps)
    then show ?thesis using 1(1) [OF Continue] iteration_progress [OF Continue] by auto
  qed
qed

lemma skip_start_bom_shrinks: "length (rest (skip_start_bom cf st)) \<le> length (rest st)"
proof -
  have "take 3 (window x) = [0xEF, 0xBB, 0xBF] \<Longrightarrow> 3 \<le> length (window x)" for x
    by (metis length_take list.size(3) list.size(4) min.cobounded1 numeral_3_eq_3 plus_1_eq_Suc add.commute One_nat_def length_Cons)
  then show ?thesis
    by (auto simp: skip_start_bom_def Let_def ensure_def rest_advance)
qed

lemma next_event_shrinks: "next_event cf st = SOk ev st' \<Longrightarrow> length (rest st') < length (rest st)"
  using next_loop_shrinks skip_start_bom_shrinks [of cf st] by (fastforce simp: next_event_def split: if_splits)

text \<open>\<^verbatim>\<open>for_each_event\<close>: the events handed to the callback, and the state it stops in.\<close>

function drain :: "sconf \<Rightarrow> sstate \<Rightarrow> event list \<times> sstate option" where
  "drain cf st =
     (case next_event cf st of
        SOk ev st' \<Rightarrow> (let (evs, r) = drain cf st' in (ev # evs, r))
      | SFail st' \<Rightarrow> ([], Some st')
      | SOob \<Rightarrow> ([], None))"
  by pat_completeness auto
termination
  by (relation "measure (\<lambda>(cf, st). length (rest st))") (auto dest: next_event_shrinks)

declare drain.simps [simp del]

definition for_each_event :: "sconf \<Rightarrow> sstate \<Rightarrow> event list \<times> bool option" where
  "for_each_event cf st =
     (case drain cf st of (evs, r) \<Rightarrow> (evs, map_option (\<lambda>st'. ss_err st' = None) r))"

end
