(* ===== verification/StreamProofs.thy ===== *)
theory StreamProofs
  imports Stream
begin

text \<open>
  The window is invisible: on a stream that does not go bad every operation of the reader is
  a function of the unconsumed input, so the refills and the chunk size leave no trace.
\<close>

section \<open>States that differ in the window only\<close>

definition good :: "sstate \<Rightarrow> bool" where
  "good st \<longleftrightarrow> \<not> ss_bad st \<and> (ss_eof st \<longrightarrow> ss_in st = [])"

text \<open>\<open>s\<close> is \<open>st\<close> with \<open>n\<close> more bytes consumed, and otherwise differs in the window only.\<close>

definition moved :: "nat \<Rightarrow> sstate \<Rightarrow> sstate \<Rightarrow> bool" where
  "moved n st s \<longleftrightarrow> good s \<and> n \<le> length (rest st) \<and> rest s = drop n (rest st) \<and>
     abs_offset s = abs_offset st + n \<and> ss_stack s = ss_stack st \<and> ss_root_done s = ss_root_done st \<and>
     ss_finished s = ss_finished st \<and> ss_start_checked s = ss_start_checked st \<and> ss_err s = ss_err st"

text \<open>The window is non-empty whenever there is input left.\<close>

definition settled :: "sstate \<Rightarrow> bool" where
  "settled st \<longleftrightarrow> (window st = [] \<longrightarrow> rest st = [])"

lemma moved_refl: "good st \<Longrightarrow> moved 0 st st"
  by (simp add: moved_def)

lemma moved_trans: "moved m st s \<Longrightarrow> moved n s s' \<Longrightarrow> moved (m + n) st s'"
  by (auto simp: moved_def add.commute)

lemma moved_good [dest]: "moved n st s \<Longrightarrow> good s"
  by (simp add: moved_def)

lemma good_simps [simp]:
  "good (s_advance n st) \<longleftrightarrow> good st" "good (s_fail c p st) \<longleftrightarrow> good st" "good (s_fail_context c st) \<longleftrightarrow> good st"
  "good (set_phase ph st) \<longleftrightarrow> good st" "good (complete_value st) \<longleftrightarrow> good st"
  "good (st\<lparr>ss_root_done := b\<rparr>) \<longleftrightarrow> good st" "good (st\<lparr>ss_finished := b\<rparr>) \<longleftrightarrow> good st"
  "good (st\<lparr>ss_start_checked := b\<rparr>) \<longleftrightarrow> good st" "good (st\<lparr>ss_stack := fs\<rparr>) \<longleftrightarrow> good st"
  by (simp_all add: good_def)

lemma moved_advance: "good st \<Longrightarrow> n \<le> length (window st) \<Longrightarrow> moved n st (s_advance n st)"
  by (simp add: moved_def rest_advance) (simp add: rest_def)

lemma window_prefix: "good st \<Longrightarrow> \<exists>x. rest st = window st @ x"
  by (simp add: rest_def)

lemma eof_rest: "good st \<Longrightarrow> ss_eof st \<Longrightarrow> rest st = window st"
  by (simp add: good_def rest_def)

lemma settled_cases:
  assumes "settled st"
  obtains "window st = []" "rest st = []" | c w r where "window st = c # w" "rest st = c # r"
  using assms by (cases "window st") (auto simp: settled_def rest_def)

section \<open>Refills\<close>

lemma fill_good:
  assumes "good st"
  shows "moved 0 st (fill cf st)" "ss_err (fill cf st) = ss_err st"
proof -
  show e: "ss_err (fill cf st) = ss_err st"
    using assms by (auto simp: fill_def good_def Let_def)
  have "good (fill cf st)"
    using assms by (auto simp: fill_def good_def Let_def)
  then show "moved 0 st (fill cf st)" using e by (simp add: moved_def)
qed

lemma ensure_good:
  assumes "good st" "ss_err st = None"
  shows "moved 0 st (ensure_loop cf n st) \<and> (n \<le> length (window (ensure_loop cf n st)) \<longleftrightarrow> n \<le> length (rest st))"
  using assms
proof (induction cf n st rule: ensure_loop.induct)
  case (1 cf n st)
  show ?case
  proof (cases "length (window st) < n \<and> \<not> ss_eof st \<and> ss_err st = None")
    case True
    have "moved 0 st (ensure_loop cf n (fill cf st))"
      using 1(1) [OF True] fill_good [OF 1(2), of cf] 1(3) moved_trans [of 0 st "fill cf st" 0] by auto
    then show ?thesis
      using 1(1) [OF True] fill_good [OF 1(2), of cf] 1(3) True by (subst (1 2) ensure_loop.simps) auto
  next
    case False
    then have "ensure_loop cf n st = st" by (subst ensure_loop.simps) auto
    moreover have "n \<le> length (window st) \<longleftrightarrow> n \<le> length (rest st)"
      using False 1(2,3) eof_rest [of st] by (auto simp: rest_def)
    ultimately show ?thesis using moved_refl [OF 1(2)] by simp
  qed
qed

lemma ensure_settled:
  assumes "good st" "ss_err st = None" "ensure cf n st = (ok, s)"
  shows "moved 0 st s" "ok \<longleftrightarrow> n \<le> length (rest st)" "ok \<Longrightarrow> take n (window s) = take n (rest st)"
proof -
  have e: "s = ensure_loop cf n st" "ok \<longleftrightarrow> n \<le> length (window s)"
    using assms(3) by (auto simp: ensure_def Let_def)
  then show m: "moved 0 st s" and "ok \<longleftrightarrow> n \<le> length (rest st)"
    using ensure_good [OF assms(1,2), of cf n] by auto
  show "take n (window s) = take n (rest st)" if ok
  proof -
    have "rest st = window s @ ss_in s" using m by (simp add: moved_def rest_def [symmetric])
    then show ?thesis using that e(2) by simp
  qed
qed

lemma ws_run_Cons [simp]:
  "ws_run [] = 0" "ws_run (c # r) = (if is_whitespace c then Suc (ws_run r) else 0)"
  by (simp_all add: ws_run_def)

lemma skip_ws_good:
  assumes "good st" "ss_err st = None"
  shows "moved (ws_run (rest st)) st (skip_ws cf st) \<and> settled (skip_ws cf st)"
  using assms
proof (induction cf st rule: skip_ws.induct)
  case (1 cf st)
  show ?case
  proof (cases "window st")
    case Nil
    show ?thesis
    proof (cases "ss_eof st")
      case True
      then have "rest st = []" using eof_rest [OF 1(3)] Nil by simp
      then show ?thesis
        using Nil True 1(3,4) moved_refl by (subst (1 2) skip_ws.simps) (simp add: settled_def)
    next
      case False
      have "skip_ws cf st = skip_ws cf (fill cf st)" using Nil False 1(4) by (subst skip_ws.simps) simp
      then show ?thesis
        using 1(1) [OF _ Nil False] 1(4) fill_good [OF 1(3), of cf] moved_trans [of 0 st "fill cf st"] by auto
    qed
  next
    case (Cons c w)
    then obtain r where r: "rest st = c # r" by (auto simp: rest_def)
    show ?thesis
    proof (cases "is_whitespace c")
      case True
      have eq: "skip_ws cf st = skip_ws cf (s_advance 1 st)" using Cons True 1(4) by (subst skip_ws.simps) simp
      have m: "moved 1 st (s_advance 1 st)" using 1(3) Cons by (intro moved_advance) simp_all
      then have "rest (s_advance 1 st) = r" using r by (simp add: moved_def)
      then show ?thesis
        using 1(2) [OF _ Cons] True 1(3,4) r moved_trans [OF m] by (auto simp: eq)
    next
      case False
      then have "skip_ws cf st = st" using Cons 1(4) by (subst skip_ws.simps) simp
      then show ?thesis using False r 1(3) Cons by (simp add: moved_refl settled_def)
    qed
  qed
qed

section \<open>Tokens as functions of the unconsumed input\<close>

text \<open>The raw scan on the whole input: the token and how far it reaches.\<close>

fun raw_text :: "bytes \<Rightarrow> bool \<Rightarrow> bool \<Rightarrow> nat option \<Rightarrow> bytes \<Rightarrow> (raw_token \<times> nat) option" where
  "raw_text tok escaped has_escape fc [] = None"
| "raw_text tok escaped has_escape fc (c # r) =
     map_option (\<lambda>(v, n). (v, Suc n))
       (if escaped then raw_text (tok @ [c]) False has_escape fc r
        else if c = 0x22 then Some ((tok, has_escape, fc), 0)
        else if c = 0x5C then raw_text (tok @ [c]) True True fc r
        else raw_text (tok @ [c]) False has_escape (if c < 0x20 \<and> fc = None then Some (length tok) else fc) r)"

definition failed_at :: "nat \<Rightarrow> error_code \<Rightarrow> sstate \<Rightarrow> ('a, sstate) sres \<Rightarrow> bool" where
  "failed_at k c st r \<longleftrightarrow> (\<exists>n s. moved n st s \<and> n \<le> length (rest st) \<and> r = SFail (s_fail c (abs_offset st + k) s))"

definition scans :: "sconf \<Rightarrow> bytes \<Rightarrow> bool \<Rightarrow> bool \<Rightarrow> nat option \<Rightarrow> sstate \<Rightarrow> bool" where
  "scans cf tok e h fc st \<longleftrightarrow> (case raw_text tok e h fc (rest st) of
      None \<Rightarrow> (\<exists>s. moved (length (rest st)) st s \<and>
        raw_scan cf tok e h fc st = SFail (s_fail UnterminatedString (abs_offset st + length (rest st)) s))
    | Some (v, n) \<Rightarrow> (\<exists>s. moved n st s \<and> raw_scan cf tok e h fc st = SOk v s))"

lemma raw_scan_good:
  assumes "good st" "ss_err st = None"
  shows "scans cf tok e h fc st"
  using assms
proof (induction cf tok e h fc st rule: raw_scan.induct)
  case (1 cf tok e h fc st)
  show ?case
  proof (cases "window st")
    case Nil
    show ?thesis
    proof (cases "ss_eof st")
      case True
      then have "rest st = []" using eof_rest [OF 1(5)] Nil by simp
      then show ?thesis
        using Nil True 1(5) moved_refl unfolding scans_def by (subst raw_scan.simps) auto
    next
      case False
      have m: "moved 0 st (fill cf st)" "ss_err (fill cf st) = None" using fill_good [OF 1(5), of cf] 1(6) by simp_all
      have eq: "raw_scan cf tok e h fc st = raw_scan cf tok e h fc (fill cf st)"
        using Nil False m(2) by (subst raw_scan.simps) (simp add: Let_def)
      show ?thesis
        using 1(1) [OF Nil False refl] m moved_trans [OF m(1)] unfolding scans_def eq
        by (fastforce split: option.splits prod.splits)
    qed
  next
    case (Cons c w)
    then obtain r where r: "rest st = c # r" by (auto simp: rest_def)
    let ?s = "s_advance 1 st"
    have m: "moved 1 st ?s" using 1(5) Cons by (intro moved_advance) simp_all
    then have s: "rest ?s = r" "abs_offset ?s = Suc (abs_offset st)" "good ?s" "ss_err ?s = None"
      using r 1(6) by (auto simp: moved_def)
    note t = moved_trans [OF m, simplified]
    have lift: "case map_option (\<lambda>(v, n). (v, Suc n)) (raw_text tok' e' h' fc' r) of
          None \<Rightarrow> (\<exists>s. moved (length (rest st)) st s \<and>
            raw_scan cf tok' e' h' fc' ?s = SFail (s_fail UnterminatedString (abs_offset st + length (rest st)) s))
        | Some (v, n) \<Rightarrow> (\<exists>s. moved n st s \<and> raw_scan cf tok' e' h' fc' ?s = SOk v s)"
      if "scans cf tok' e' h' fc' ?s" for tok' e' h' fc'
      using that t unfolding scans_def s r by (auto split: option.splits)
    show ?thesis
    proof (cases "\<not> e \<and> c = 0x22")
      case True
      then have "raw_scan cf tok e h fc st = SOk (tok, h, fc) ?s" using Cons by (subst raw_scan.simps) simp
      then show ?thesis using m True r by (auto simp: scans_def)
    next
      case False
      define e1 h1 fc1 where "e1 = (\<not> e \<and> c = 0x5C)" and "h1 = (h \<or> e1)"
        and "fc1 = (if \<not> e \<and> c \<noteq> 0x5C \<and> c < 0x20 \<and> fc = None then Some (length tok) else fc)"
      have eq: "raw_scan cf tok e h fc st = raw_scan cf (tok @ [c]) e1 h1 fc1 ?s"
        using False Cons by (subst raw_scan.simps) (auto simp: Let_def e1_def h1_def fc1_def)
      have eqt: "raw_text tok e h fc (rest st) = map_option (\<lambda>(v, n). (v, Suc n)) (raw_text (tok @ [c]) e1 h1 fc1 r)"
        using False r by (auto simp: e1_def h1_def fc1_def)
      show ?thesis
        unfolding scans_def eq eqt
        by (rule lift, insert "1.IH"(2-4) [OF Cons refl] s(3,4) False, cases e; cases "c = 0x5C")
          (simp_all add: e1_def h1_def fc1_def)
    qed
  qed
qed

text \<open>
  What a token function makes of a state whose unconsumed input it has looked at: \<open>n\<close> bytes
  are consumed, and it fails with a code and an offset, or yields a value.
\<close>

type_synonym 'a outcome = "((error_code \<times> nat option) + 'a) \<times> nat"

definition fail_of :: "error_code \<Rightarrow> nat option \<Rightarrow> nat \<Rightarrow> sstate \<Rightarrow> sstate" where
  "fail_of c p base st = (case p of Some k \<Rightarrow> s_fail c (base + k) st | None \<Rightarrow> s_fail_context c st)"

definition acts :: "sstate \<Rightarrow> 'a outcome \<Rightarrow> ('a, sstate) sres \<Rightarrow> bool" where
  "acts st out r \<longleftrightarrow> (\<exists>s. moved (snd out) st s \<and>
     r = (case fst out of Inl (c, p) \<Rightarrow> SFail (fail_of c p (abs_offset st) s) | Inr a \<Rightarrow> SOk a s))"

lemma acts_moved:
  assumes "moved 0 st s" "acts s out r"
  shows "acts st out r"
proof -
  have eq: "abs_offset s = abs_offset st" using assms(1) by (simp add: moved_def)
  obtain s' where "moved (snd out) s s'"
    "r = (case fst out of Inl (c, p) \<Rightarrow> SFail (fail_of c p (abs_offset st) s') | Inr a \<Rightarrow> SOk a s')"
    using assms(2) unfolding acts_def eq by blast
  then show ?thesis using moved_trans [OF assms(1), of "snd out" s'] unfolding acts_def by auto
qed

text \<open>\<^verbatim>\<open>parse_string_token\<close> with the cursor on the opening quote.\<close>

definition string_outcome :: "bool \<Rightarrow> bytes \<Rightarrow> bytes outcome" where
  "string_outcome strict t =
     (case raw_text [] False False None (tl t) of
        None \<Rightarrow> (Inl (UnterminatedString, Some (length t)), length t)
      | Some (raw, n) \<Rightarrow> (case token_content strict raw of
            ContentOk s \<Rightarrow> Inr s
          | ContentFail c p \<Rightarrow> Inl (c, map_option Suc p)
          | ContentOob \<Rightarrow> Inr [], Suc n))"

lemma parse_string_token_good:
  assumes "good st" "ss_err st = None" "window st \<noteq> []" "\<And>raw. token_content (sc_strict_utf8 cf) raw \<noteq> ContentOob"
  shows "acts st (string_outcome (sc_strict_utf8 cf) (rest st)) (parse_string_token cf st)"
proof -
  let ?s = "s_advance 1 st"
  obtain c t where t: "rest st = c # t" using assms(3) by (cases "window st") (auto simp: rest_def)
  have "1 \<le> length (window st)" using assms(3) by (cases "window st") simp_all
  then have m: "moved 1 st ?s" using assms(1) by (intro moved_advance)
  then have s: "good ?s" "ss_err ?s = None" "rest ?s = t" "abs_offset ?s = abs_offset st + 1"
    using t assms(2) by (auto simp: moved_def)
  note sc = raw_scan_good [OF s(1,2), of cf "[]" False False None, unfolded scans_def s(3)]
  show ?thesis
  proof (cases "raw_text [] False False None t")
    case None
    then obtain s' where s': "moved (length t) ?s s'"
      "raw_scan cf [] False False None ?s = SFail (s_fail UnterminatedString (abs_offset ?s + length t) s')"
      using sc by auto
    have "moved (length (rest st)) st s'" using moved_trans [OF m s'(1)] t by simp
    then show ?thesis
      using None s'(2) t by (auto simp: acts_def string_outcome_def parse_string_token_def Let_def fail_of_def)
  next
    case (Some v)
    then obtain raw n where v: "raw_text [] False False None t = Some (raw, n)" by (cases v) auto
    then obtain s' where s': "moved n ?s s'" "raw_scan cf [] False False None ?s = SOk raw s'"
      using sc by auto
    have "moved (Suc n) st s'" using moved_trans [OF m s'(1)] by simp
    then show ?thesis
      using v s'(2) t assms(4) [of raw]
      by (cases "token_content (sc_strict_utf8 cf) raw")
        (auto simp: acts_def string_outcome_def parse_string_token_def Let_def fail_of_def content_result_def split: option.splits)
  qed
qed

section \<open>Numbers\<close>

lemma digit_run_local: "digit_run u < length u \<Longrightarrow> digit_run (u @ x) = digit_run u"
  by (induction u) (auto simp: digit_run_def split: if_splits)

lemma at_local: "u \<noteq> [] \<Longrightarrow> at_digit (u @ x) = at_digit u" "u \<noteq> [] \<Longrightarrow> at_byte (u @ x) c = at_byte u c"
  by (simp_all add: at_digit_def at_byte_def)

lemma at_digit_more: "at_digit u \<Longrightarrow> at_digit (u @ x)"
  by (auto simp: at_digit_def)

lemma scan_fraction_local:
  assumes "scan_fraction p = (e, n, f)" "n < length p"
  shows "scan_fraction (p @ x) = (e, n, f)"
proof -
  obtain a q where p: "p = a # q" using assms(2) by (cases p) auto
  show ?thesis
    using assms by (auto simp: p scan_fraction_def at_byte_def at_local digit_run_local at_digit_more split: if_splits)
qed

lemma scan_exponent_local:
  assumes "scan_exponent p = (e, n, f)" "n < length p"
  shows "scan_exponent (p @ x) = (e, n, f)"
proof -
  obtain a q where p: "p = a # q" using assms(2) by (cases p) auto
  show ?thesis
  proof (cases "a = 0x65 \<or> a = 0x45")
    case True
    define s where "s = (if at_byte q 0x2B \<or> at_byte q 0x2D then 1 else 0 :: nat)"
    define q2 where "q2 = drop s q"
    have sc: "scan_exponent p = (if \<not> at_digit q2 then (NoExpDigits, 1 + s, True) else (NumOk, 1 + s + digit_run q2, True))"
      using True by (auto simp: p scan_exponent_def at_byte_def [of "a # q"] Let_def s_def [symmetric] q2_def [symmetric])
    have q: "q \<noteq> []" "s < length q" "digit_run q2 < length q2 \<or> \<not> at_digit q2"
      using assms sc by (auto simp: p q2_def split: if_splits)
    then have e: "q2 \<noteq> []" "drop s (q @ x) = q2 @ x" by (auto simp: q2_def)
    have "scan_exponent (p @ x) = (if \<not> at_digit (q2 @ x) then (NoExpDigits, 1 + s, True) else (NumOk, 1 + s + digit_run (q2 @ x), True))"
      using True q e(2)
      by (auto simp: p scan_exponent_def at_byte_def [of "a # q @ x"] Let_def at_local [OF q(1)] s_def [symmetric])
    also have "\<dots> = scan_exponent p" using q(3) e(1) sc by (auto simp: at_local digit_run_local)
    finally show ?thesis using assms(1) by simp
  next
    case False
    then show ?thesis using assms by (auto simp: p scan_exponent_def at_byte_def)
  qed
qed

lemma scan_number_local:
  assumes "scan_number w = (ne, n, sc)" "n < length w"
  shows "scan_number (w @ x) = (ne, n, sc)"
proof -
  define i where "i = (if at_byte w 0x2D then 1 else 0 :: nat)"
  define t where "t = drop i w"
  define k where "k = digit_run t"
  have w: "w \<noteq> []" using assms(2) by auto
  have neg: "at_byte (w @ x) 0x2D = at_byte w 0x2D" using at_local(2) [OF w] .
  have i: "i \<le> length w" using w by (cases w) (auto simp: i_def)
  have ti: "drop i (w @ x) = t @ x" using i by (simp add: t_def)
  have body: "scan_number v = (let sc = \<lparr>int_start = i, int_digits = k, negative = at_byte w 0x2D, is_float = False\<rparr> in
      if \<not> at_digit u then (NoIntDigits, i, \<lparr>int_start = 0, int_digits = 0, negative = at_byte w 0x2D, is_float = False\<rparr>)
      else if has_leading_zero u k then (LeadingZero, i + k, sc)
      else case scan_fraction (drop (i + k) v) of (e1, n1, f1) \<Rightarrow>
        if e1 \<noteq> NumOk then (e1, i + k + n1, sc\<lparr>is_float := f1\<rparr>)
        else case scan_exponent (drop (i + k + n1) v) of (e2, n2, f2) \<Rightarrow>
          (e2, i + k + n1 + n2, sc\<lparr>is_float := f1 \<or> f2\<rparr>))"
    if "at_byte v 0x2D = at_byte w 0x2D" "drop i v = u" "at_digit u \<Longrightarrow> digit_run u = k" for u v
  proof (cases "at_digit u")
    case True
    show ?thesis unfolding scan_number_def Let_def that(1) i_def [symmetric] that(2) that(3) [OF True] ..
  next
    case False
    then show ?thesis unfolding scan_number_def Let_def that(1) i_def [symmetric] that(2) by simp
  qed
  have run: "scan_number w = (let sc = \<lparr>int_start = i, int_digits = k, negative = at_byte w 0x2D, is_float = False\<rparr> in
      if \<not> at_digit t then (NoIntDigits, i, \<lparr>int_start = 0, int_digits = 0, negative = at_byte w 0x2D, is_float = False\<rparr>)
      else if has_leading_zero t k then (LeadingZero, i + k, sc)
      else case scan_fraction (drop (i + k) w) of (e1, n1, f1) \<Rightarrow>
        if e1 \<noteq> NumOk then (e1, i + k + n1, sc\<lparr>is_float := f1\<rparr>)
        else case scan_exponent (drop (i + k + n1) w) of (e2, n2, f2) \<Rightarrow>
          (e2, i + k + n1 + n2, sc\<lparr>is_float := f1 \<or> f2\<rparr>))"
    by (rule body) (simp_all add: t_def k_def)
  have ge: "at_digit t \<Longrightarrow> i + k \<le> n"
    using assms(1) run by (auto simp: Let_def split: if_splits prod.splits)
  have len: "length t = length w - i" by (simp add: t_def)
  have tx: "t \<noteq> []" if "i < length w" using that by (simp add: t_def)
  have il: "i < length w"
    using assms run ge by (cases "at_digit t") (auto simp: Let_def split: if_splits)
  have dg: "at_digit (t @ x) = at_digit t" using at_local(1) [OF tx [OF il]] .
  have kx: "at_digit (t @ x) \<Longrightarrow> digit_run (t @ x) = k"
    unfolding k_def using dg ge assms(2) len by (intro digit_run_local) (auto simp: k_def)
  have lz: "has_leading_zero (t @ x) k = has_leading_zero t k"
    using tx [OF il] by (simp add: has_leading_zero_def)
  have run': "scan_number (w @ x) = (let sc = \<lparr>int_start = i, int_digits = k, negative = at_byte w 0x2D, is_float = False\<rparr> in
      if \<not> at_digit t then (NoIntDigits, i, \<lparr>int_start = 0, int_digits = 0, negative = at_byte w 0x2D, is_float = False\<rparr>)
      else if has_leading_zero t k then (LeadingZero, i + k, sc)
      else case scan_fraction (drop (i + k) (w @ x)) of (e1, n1, f1) \<Rightarrow>
        if e1 \<noteq> NumOk then (e1, i + k + n1, sc\<lparr>is_float := f1\<rparr>)
        else case scan_exponent (drop (i + k + n1) (w @ x)) of (e2, n2, f2) \<Rightarrow>
          (e2, i + k + n1 + n2, sc\<lparr>is_float := f1 \<or> f2\<rparr>))"
    using body [OF neg ti kx] unfolding dg lz .
  show ?thesis
  proof (cases "at_digit t \<and> \<not> has_leading_zero t k")
    case True
    obtain e1 n1 f1 where f: "scan_fraction (drop (i + k) w) = (e1, n1, f1)" by (metis prod_cases3)
    have n1: "i + k + n1 \<le> n" using assms(1) run True f by (auto simp: Let_def split: if_splits prod.splits)
    have d1: "drop (i + k) (w @ x) = drop (i + k) w @ x" using n1 assms(2) by simp
    have fx: "scan_fraction (drop (i + k) (w @ x)) = (e1, n1, f1)"
      unfolding d1 using n1 assms(2) by (intro scan_fraction_local [OF f]) simp
    show ?thesis
    proof (cases "e1 = NumOk")
      case ok: True
      obtain e2 n2 f2 where e: "scan_exponent (drop (i + k + n1) w) = (e2, n2, f2)" by (metis prod_cases3)
      have n2: "i + k + n1 + n2 = n" using assms(1) run True f ok e by (simp add: Let_def)
      have d2: "drop (i + k + n1) (w @ x) = drop (i + k + n1) w @ x" using n2 assms(2) by simp
      have ex: "scan_exponent (drop (i + k + n1) (w @ x)) = (e2, n2, f2)"
        unfolding d2 using n2 assms(2) by (intro scan_exponent_local [OF e]) simp
      show ?thesis using assms(1) run run' True f fx ok e ex by (simp add: Let_def)
    next
      case False
      then show ?thesis using assms(1) run run' True f fx by (simp add: Let_def)
    qed
  next
    case False
    then show ?thesis using assms(1) run run' by (auto simp: Let_def split: if_splits)
  qed
qed

lemma scan_tail_le:
  "scan_fraction p = (e, n, f) \<Longrightarrow> n \<le> length p" "scan_exponent p = (e, n, f) \<Longrightarrow> n \<le> length p"
proof -
  have run: "digit_run u \<le> length u" for u by (simp add: digit_run_def length_takeWhile_le)
  show "scan_fraction p = (e, n, f) \<Longrightarrow> n \<le> length p"
    using run [of "tl p"] by (cases p) (auto simp: scan_fraction_def at_byte_def split: if_splits)
  show "scan_exponent p = (e, n, f) \<Longrightarrow> n \<le> length p"
    using run [of "tl (tl p)"] run [of "tl p"]
    by (cases p; cases "tl p") (auto simp: scan_exponent_def at_byte_def Let_def split: if_splits)
qed

lemma scan_number_le: "scan_number w = (ne, n, sc) \<Longrightarrow> n \<le> length w"
proof -
  assume s: "scan_number w = (ne, n, sc)"
  define i where "i = (if at_byte w 0x2D then 1 else 0 :: nat)"
  define k where "k = digit_run (drop i w)"
  have i0: "i \<le> length w" by (cases w) (simp_all add: i_def at_byte_def)
  have "k \<le> length (drop i w)" unfolding k_def digit_run_def by (rule length_takeWhile_le)
  then have i: "i + k \<le> length w" "i \<le> length w" using i0 by auto
  obtain e1 n1 f1 where f: "scan_fraction (drop (i + k) w) = (e1, n1, f1)" by (metis prod_cases3)
  obtain e2 n2 f2 where e: "scan_exponent (drop (i + k + n1) w) = (e2, n2, f2)" by (metis prod_cases3)
  have "n \<in> {i, i + k, i + k + n1, i + k + n1 + n2}"
    using s f e unfolding scan_number_def Let_def i_def [symmetric] k_def [symmetric] by (simp split: if_splits)
  then show ?thesis using i scan_tail_le(1) [OF f] scan_tail_le(2) [OF e] by auto
qed

text \<open>A number at the cursor, on the whole unconsumed input.\<close>

definition number_outcome :: "bytes \<Rightarrow> event outcome" where
  "number_outcome t =
     (case scan_number t of (ne, n, sc) \<Rightarrow>
        if ne \<noteq> NumOk then (Inl (event_number_error_code ne, Some n), 0)
        else case classify_number (take n t) sc of
          Inl (ec, k) \<Rightarrow> (Inl (ec, Some k), 0)
        | Inr v \<Rightarrow> (Inr (number_event v), n))"

lemma event_number_good:
  "good st \<Longrightarrow> ss_err st = None \<Longrightarrow> acts st (number_outcome (rest st)) (event_number cf st)"
proof (induction cf st rule: event_number.induct)
  case (1 cf st)
  obtain ne n sc where s: "scan_number (window st) = (ne, n, sc)" by (metis prod_cases3)
  show ?case
  proof (cases "n = length (window st) \<and> \<not> ss_eof st")
    case True
    have m: "moved 0 st (fill cf st)" "ss_err (fill cf st) = None" using fill_good [OF 1(2), of cf] 1(3) by simp_all
    have eq: "event_number cf st = event_number cf (fill cf st)"
      using True s m(2) by (subst event_number.simps) (simp add: Let_def)
    have "acts (fill cf st) (number_outcome (rest st)) (event_number cf (fill cf st))"
      using 1(1) [OF s [symmetric] refl True refl] m by (auto simp: moved_def)
    then show ?thesis unfolding eq by (rule acts_moved [OF m(1)])
  next
    case False
    obtain x where x: "rest st = window st @ x" using window_prefix [OF 1(2)] by blast
    have n: "n \<le> length (window st)" by (rule scan_number_le [OF s])
    have sr: "scan_number (rest st) = (ne, n, sc)"
    proof (cases "n = length (window st)")
      case True
      then show ?thesis using False s eof_rest [OF 1(2)] by simp
    next
      case False
      then show ?thesis using scan_number_local [OF s] n x by simp
    qed
    have t: "take n (rest st) = take n (window st)" using n x by simp
    have run: "event_number cf st =
        (if ne \<noteq> NumOk then SFail (s_fail (event_number_error_code ne) (abs_offset st + n) st)
         else case classify_number (take n (window st)) sc of
          Inl (ec, k) \<Rightarrow> SFail (s_fail ec (abs_offset st + k) st)
        | Inr v \<Rightarrow> SOk (number_event v) (s_advance n st))"
      by (subst event_number.simps) (simp only: s prod.case False if_False)
    show ?thesis
      using moved_refl [OF 1(2)] moved_advance [OF 1(2) n] sr t run
      by (auto simp: acts_def number_outcome_def fail_of_def split: sum.splits prod.splits)
  qed
qed

section \<open>Literals\<close>

definition literal_outcome :: "byte \<Rightarrow> bytes \<Rightarrow> event outcome" where
  "literal_outcome c t =
     (let word = literal_of c; r = drop (length word) t in
      if \<not> match_literal t word then (Inl (InvalidLiteral, Some 0), 0)
      else if r \<noteq> [] \<and> \<not> event_after_literal (hd r) then (Inl (InvalidLiteralTrailing, Some (length word)), length word)
      else (Inr (literal_event c), length word))"

lemma match_literal_take: "match_literal p l \<longleftrightarrow> take (length l) p = l"
  by (induction p l rule: match_literal.induct) auto

lemma event_literal_good:
  assumes "good st" "ss_err st = None"
  shows "acts st (literal_outcome c (rest st)) (event_literal cf c st)"
proof -
  let ?w = "literal_of c"
  obtain ok s1 where e1: "ensure cf (length ?w) st = (ok, s1)" by (cases "ensure cf (length ?w) st")
  note s1 = ensure_settled [OF assms e1]
  have r1: "good s1" "ss_err s1 = None" "rest s1 = rest st" "abs_offset s1 = abs_offset st"
    using s1(1) assms(2) by (auto simp: moved_def)
  show ?thesis
  proof (cases "ok \<and> match_literal (window s1) ?w")
    case False
    have "\<not> match_literal (rest st) ?w"
      using False s1(2,3) match_literal_length [of "rest st" ?w] by (auto simp: match_literal_take)
    moreover have "event_literal cf c st = SFail (s_fail InvalidLiteral (abs_offset st) s1)"
      using False r1(2) e1 by (auto simp: event_literal_def Let_def)
    ultimately show ?thesis using s1(1) by (auto simp: acts_def literal_outcome_def fail_of_def)
  next
    case True
    then have m: "match_literal (rest st) ?w" using s1(3) by (simp add: match_literal_take)
    have "length ?w \<le> length (window s1)" using True match_literal_length by blast
    then have adv: "moved (length ?w) s1 (s_advance (length ?w) s1)" by (rule moved_advance [OF r1(1)])
    define s2 where "s2 = s_advance (length ?w) s1"
    have r2: "good s2" "ss_err s2 = None" "rest s2 = drop (length ?w) (rest st)" "abs_offset s2 = abs_offset st + length ?w"
      using adv r1 by (auto simp: moved_def s2_def)
    obtain more_bytes s3 where e3: "ensure cf 1 s2 = (more_bytes, s3)" by (cases "ensure cf 1 s2")
    note s3 = ensure_settled [OF r2(1,2) e3]
    have r3: "ss_err s3 = None" "abs_offset s3 = abs_offset s2" using s3(1) r2 by (auto simp: moved_def)
    have mv: "moved (length ?w) st s3"
      using moved_trans [OF moved_trans [OF s1(1) adv] s3(1) [unfolded s2_def]] by simp
    have mb: "more_bytes \<longleftrightarrow> drop (length ?w) (rest st) \<noteq> []" using s3(2) r2(3) by (cases "rest s2") auto
    have hd: "hd (window s3) = hd (drop (length ?w) (rest st))" if more_bytes
      using s3(3) [OF that] r2(3) by (metis hd_take zero_less_one)
    have "event_literal cf c st =
        (if more_bytes \<and> \<not> event_after_literal (hd (window s3))
         then SFail (s_fail InvalidLiteralTrailing (abs_offset s3) s3) else SOk (literal_event c) s3)"
      using True e1 e3 r3 by (auto simp: event_literal_def Let_def s2_def)
    then show ?thesis
      using m mv mb hd r3(2) r2(4) by (auto simp: acts_def literal_outcome_def fail_of_def Let_def)
  qed
qed

end
