(* ===== verification/StreamStrings.thy ===== *)
theory StreamStrings
  imports StreamProofs JsonText
begin

text \<open>
  The string tokens of the event reader: the raw scan finds the closing quote and the in-place
  decoder accepts the token exactly when it is a string of the grammar; the NUL bytes appended
  to the token keep every read inside the buffer.
\<close>

section \<open>The raw scan\<close>

text \<open>No quote ends the token inside, and no escape is cut off; \<open>e\<close>: behind a backslash.\<close>

fun unquoted :: "bool \<Rightarrow> bytes \<Rightarrow> bool" where
  "unquoted e [] \<longleftrightarrow> \<not> e"
| "unquoted e (c # r) \<longleftrightarrow> (if e then unquoted False r else c \<noteq> 0x22 \<and> unquoted (c = 0x5C) r)"

lemma raw_text_shape:
  "raw_text tok e h fc t = Some ((tok', h', fc'), n) \<Longrightarrow>
    \<exists>u r. tok' = tok @ u \<and> t = u @ 0x22 # r \<and> n = Suc (length u) \<and> unquoted e u \<and>
      (\<not> h' \<longrightarrow> \<not> h \<and> (\<not> e \<longrightarrow> (\<forall>c \<in> set u. c \<noteq> 0x22 \<and> c \<noteq> 0x5C) \<and>
        (fc' = None \<longrightarrow> fc = None \<and> (\<forall>c \<in> set u. 0x20 \<le> c))))"
proof (induction tok e h fc t arbitrary: n rule: raw_text.induct)
  case (2 tok e h fc c r)
  show ?case
  proof (cases "\<not> e \<and> c = 0x22")
    case True
    then show ?thesis using 2(4) by auto
  next
    case False
    define e1 h1 fc1 where "e1 = (\<not> e \<and> c = 0x5C)" and "h1 = (h \<or> e1)"
      and "fc1 = (if \<not> e \<and> c \<noteq> 0x5C \<and> c < 0x20 \<and> fc = None then Some (length tok) else fc)"
    obtain m where m: "raw_text (tok @ [c]) e1 h1 fc1 r = Some ((tok', h', fc'), m)" "n = Suc m"
      using 2(4) False by (auto simp: e1_def h1_def fc1_def split: if_splits)
    have "\<exists>u r'. tok' = (tok @ [c]) @ u \<and> r = u @ 0x22 # r' \<and> m = Suc (length u) \<and> unquoted e1 u \<and>
      (\<not> h' \<longrightarrow> \<not> h1 \<and> (\<not> e1 \<longrightarrow> (\<forall>c \<in> set u. c \<noteq> 0x22 \<and> c \<noteq> 0x5C) \<and>
        (fc' = None \<longrightarrow> fc1 = None \<and> (\<forall>c \<in> set u. 0x20 \<le> c))))"
      using False 2(1-3) [of m] m(1) by (cases e; cases "c = 0x5C") (simp_all add: e1_def h1_def fc1_def)
    then obtain u r' where u: "tok' = (tok @ [c]) @ u" "r = u @ 0x22 # r'" "m = Suc (length u)" "unquoted e1 u"
      and p: "\<not> h' \<longrightarrow> \<not> h1 \<and> (\<not> e1 \<longrightarrow> (\<forall>c \<in> set u. c \<noteq> 0x22 \<and> c \<noteq> 0x5C) \<and>
        (fc' = None \<longrightarrow> fc1 = None \<and> (\<forall>c \<in> set u. 0x20 \<le> c)))" by blast
    have z: "\<not> h' \<longrightarrow> \<not> h \<and> (\<not> e \<longrightarrow> (\<forall>c \<in> set (c # u). c \<noteq> 0x22 \<and> c \<noteq> 0x5C) \<and>
        (fc' = None \<longrightarrow> fc = None \<and> (\<forall>c \<in> set (c # u). 0x20 \<le> c)))"
      using p False
      by (cases e; cases "c = 0x5C"; cases "c < 0x20"; cases fc) (auto simp: e1_def h1_def fc1_def not_less)
    have "unquoted e (c # u)" using u(4) False by (auto simp: e1_def)
    moreover have "tok' = tok @ (c # u)" "c # r = (c # u) @ 0x22 # r'" "n = Suc (length (c # u))" using u m(2) by simp_all
    ultimately show ?thesis using z by blast
  qed
qed simp

lemma raw_text_run:
  "\<forall>c \<in> set u. 0x20 \<le> c \<and> c \<noteq> 0x22 \<and> c \<noteq> 0x5C \<Longrightarrow>
    raw_text tok False h fc (u @ t) = map_option (\<lambda>(v, n). (v, length u + n)) (raw_text (tok @ u) False h fc t)"
proof (induction u arbitrary: tok)
  case Nil
  then show ?case by (cases "raw_text tok False h fc t") auto
next
  case (Cons a u)
  then show ?case by (cases "raw_text (tok @ a # u) False h fc t") (auto simp: not_less [symmetric])
qed

lemma raw_text_esc:
  "raw_text tok False h fc (0x5C # c # t) = map_option (\<lambda>(v, n). (v, Suc (Suc n))) (raw_text (tok @ [0x5C, c]) False True fc t)"
  by (cases "raw_text (tok @ [0x5C, c]) False True fc t") auto

lemma hex4_raw: "hex4_val h cp \<Longrightarrow> \<forall>c \<in> set h. 0x20 \<le> c \<and> c \<noteq> 0x22 \<and> c \<noteq> 0x5C"
proof -
  have *: "hex_value c = Some v \<Longrightarrow> 0x20 \<le> c \<and> c \<noteq> 0x22 \<and> c \<noteq> 0x5C" for c v
    by (auto simp: hex_value_def word_le_nat_alt split: if_splits)
  then show "hex4_val h cp \<Longrightarrow> \<forall>c \<in> set h. 0x20 \<le> c \<and> c \<noteq> 0x22 \<and> c \<noteq> 0x5C"
    by (cases h rule: hex_quad.cases) (auto simp: hex4_val_def split: option.splits)
qed

lemma raw_text_complete:
  "string_text raw s \<Longrightarrow>
    raw_text tok False h fc (raw @ 0x22 # r) = Some ((tok @ raw, h \<or> 0x5C \<in> set raw, fc), Suc (length raw))"
proof (induction arbitrary: tok h rule: string_text.induct)
  case nil
  then show ?case by simp
next
  case (raw c raw s)
  then show ?case by (auto simp: not_less)
next
  case (esc e bs raw s)
  from esc(1) show ?case
  proof cases
    case (short c)
    then show ?thesis using esc.IH by (simp add: raw_text_esc del: raw_text.simps)
  next
    case (bmp h' cp)
    then show ?thesis using esc.IH raw_text_run [OF hex4_raw [OF bmp(2)]] by (simp add: raw_text_esc del: raw_text.simps)
  next
    case (pair h1 hi h2 lo)
    then show ?thesis
      using esc.IH raw_text_run [OF hex4_raw [OF pair(2)]] raw_text_run [OF hex4_raw [OF pair(3)]]
      by (simp add: raw_text_esc del: raw_text.simps)
  qed
qed

section \<open>The decoder\<close>

lemma take_put: "put tok d bs = Some tok' \<Longrightarrow> take (d + length bs) tok' = take d tok @ bs"
  by (auto simp: put_def put_bytes_def split: if_splits)

lemma decode_token_inside:
  assumes "tok ! len = 0" "len < length tok" "src \<le> len" "dst \<le> src"
  shows "decode_token strict len dst src ck tok \<noteq> ContentOob"
  using assms
proof (induction strict len dst src ck tok rule: decode_token.induct)
  case (1 strict len dst src ck tok)
  show ?case
  proof (cases "src < len")
    case True
    define c where "c = tok ! src"
    define ck' where "ck' = (if strict then ck_feed c src ck else ck)"
    have r: "rd tok src = Some c" using True 1(4) by (simp add: rd_def c_def)
    have step: "decode_token strict len (dst + length bs) j ck' tok' \<noteq> ContentOob"
      if "put tok dst bs = Some tok'" "dst + length bs \<le> j" "j \<le> len"
        "tok' ! len = 0 \<Longrightarrow> len < length tok' \<Longrightarrow> j \<le> len \<Longrightarrow> dst + length bs \<le> j \<Longrightarrow>
          decode_token strict len (dst + length bs) j ck' tok' \<noteq> ContentOob" for bs tok' j
    proof -
      have "drop len tok' = drop len tok" using drop_after_put [OF that(1)] that(2,3) by simp
      then have "tok' ! len = 0" using 1(3,4) put_length [OF that(1)] by (metis hd_drop_conv_nth)
      then show ?thesis using that put_length [OF that(1)] 1(4) by simp
    qed
    have room: "\<exists>tok'. put tok dst bs = Some tok'" if "dst + length bs \<le> len" for bs
      using that 1(4) by (intro put_room) simp
    show ?thesis
    proof (cases "c = 0x5C")
      case esc: True
      have nul: "handle_escape tok src \<noteq> EscOob \<and> (\<forall>bs j. handle_escape tok src = EscOk bs j \<longrightarrow> j \<le> len)"
        using handle_escape_nul [OF 1(3,4) True] .
      have fit: "dst + length bs \<le> j" if "handle_escape tok src = EscOk bs j" for bs j
        using handle_escape_sound [OF that] r esc escape_text_shape 1(6) by fastforce
      have run: "decode_token strict len dst src ck tok =
          (if strict \<and> ck_failed ck' then ContentFail (ck_code ck') (Some (ck_err ck'))
           else case handle_escape tok src of EscOob \<Rightarrow> ContentOob | EscFail e p \<Rightarrow> ContentFail e p
             | EscOk bs j \<Rightarrow> (case put tok dst bs of None \<Rightarrow> ContentOob
                 | Some tok' \<Rightarrow> decode_token strict len (dst + length bs) j ck' tok'))"
        using True r esc by (subst decode_token.simps) (simp only: Let_def ck'_def if_True if_False option.case not_True_eq_False simp_thms)
      show ?thesis
      proof (cases "\<not> (strict \<and> ck_failed ck') \<and> (\<exists>bs j. handle_escape tok src = EscOk bs j)")
        case ok: True
        then obtain bs j where h: "handle_escape tok src = EscOk bs j" by blast
        then have j: "j \<le> len" "dst + length bs \<le> j" using nul fit by auto
        then obtain tok' where p: "put tok dst bs = Some tok'" using room [of bs] by auto
        have n: "\<not> \<not> src < len" and nf: "\<not> (strict \<and> ck_failed ck')" using True ok by simp_all
        have "decode_token strict len (dst + length bs) j ck' tok' \<noteq> ContentOob"
          by (rule step [OF p j(2,1)], rule 1(1) [OF n r ck'_def nf esc h p])
        then show ?thesis using run ok h p by simp
      next
        case False
        then show ?thesis using run nul by (cases "handle_escape tok src") auto
      qed
    next
      case False
      obtain tok' where p: "put tok dst [c] = Some tok'" using room [of "[c]"] True 1(5,6) by auto
      have run: "decode_token strict len dst src ck tok =
          (if strict \<and> ck_failed ck' then ContentFail (ck_code ck') (Some (ck_err ck'))
           else if c < 0x20 then ContentFail UnescapedControl (Some src)
           else decode_token strict len (dst + 1) (src + 1) ck' tok')"
        using True r False p by (subst decode_token.simps) (simp add: Let_def ck'_def)
      have n: "\<not> \<not> src < len" using True by simp
      have "decode_token strict len (dst + 1) (src + 1) ck' tok' \<noteq> ContentOob" if "\<not> (strict \<and> ck_failed ck')" "\<not> c < 0x20"
        using step [OF p, of "src + 1"] 1(2) [OF n r ck'_def that(1) False that(2) p] True 1(6) by simp
      then show ?thesis using run by auto
    qed
  qed (subst decode_token.simps, simp add: Let_def)
qed

lemma unquoted_append: "\<forall>c \<in> set h. c \<noteq> 0x22 \<and> c \<noteq> 0x5C \<Longrightarrow> unquoted False (h @ r) \<longleftrightarrow> unquoted False r"
  by (induction h) auto

lemma unquoted_escape: "escape_text e bs \<Longrightarrow> unquoted False (e @ r) \<Longrightarrow> unquoted False r"
  by (erule escape_text.cases) (use unquoted_append hex4_raw in \<open>fastforce+\<close>)

lemma decode_token_complete:
  assumes "string_text raw s" "drop src tok = raw @ 0 # r" "len = src + length raw" "dst \<le> src"
    "\<not> ck_failed ck" "strict_ok ctx raw src ck" "c_strict_utf8 ctx = strict"
  shows "decode_token strict len dst src ck tok = ContentOk (take dst tok @ s)"
  using assms(1-6)
proof (induction arbitrary: src dst ck tok rule: string_text.induct)
  case nil
  then show ?case
    using strict_ok_Nil [of ck ctx src] assms(7)
    by (subst decode_token.simps) (auto simp: Let_def end_strict_def)
next
  case (raw c raw s)
  let ?ck = "feed_strict ctx c src ck"
  have c: "rd tok src = Some c" "src < length tok" "drop (Suc src) tok = raw @ 0 # r"
    using rd_rest0 [of src tok] raw.prems(1) by simp_all
  have ck: "\<not> ck_failed ?ck" "strict_ok ctx raw (Suc src) ?ck"
    using raw.prems strict_ok_Cons by blast+
  obtain tok' where put: "put tok dst [c] = Some tok'"
    using put_room [of dst "[c]" tok] raw.prems(3) c(2) by auto
  have "drop (Suc src) tok' = raw @ 0 # r"
    using drop_after_put [OF put, of "Suc src"] raw.prems(3) c(3) by simp
  then have "decode_token strict len (Suc dst) (Suc src) ?ck tok' = ContentOk (take (Suc dst) tok' @ s)"
    using raw.IH [of "Suc src" tok' "Suc dst" ?ck] raw.prems(2,3) ck by simp
  moreover have "take (Suc dst) tok' = take dst tok @ [c]" using take_put [OF put] by simp
  moreover have "\<not> c < 0x20" using raw.hyps(1) by (rule leD)
  moreover have "?ck = (if strict then ck_feed c src ck else ck)" using assms(7) by (simp add: feed_strict_def)
  ultimately show ?case
    using raw.hyps(2,3) raw.prems(2) c(1) ck(1) put
    by (subst decode_token.simps) (simp add: Let_def split: if_splits)
next
  case (esc e bs raw s)
  let ?ck = "feed_strict ctx 0x5C src ck"
  obtain e' where e: "e = 0x5C # e'" "plain e'" "length bs \<le> length e'"
    using escape_text_shape [OF esc.hyps(1)] by blast
  have d: "drop src tok = e @ raw @ 0 # r" using esc.prems(1) by simp
  have c: "rd tok src = Some 0x5C" using d e(1) rd_rest0(1) [of src tok] by simp
  have len: "src + length e < length tok" using arg_cong [OF d, of length] by simp
  have ck: "\<not> ck_failed ?ck" "strict_ok ctx raw (src + length e) ?ck"
    using esc.prems strict_ok_escape [OF _ e(1,2)] by blast+
  obtain tok' where put: "put tok dst bs = Some tok'"
    using put_room [of dst bs tok] esc.prems(3) len e by auto
  have "drop (src + length e) tok' = raw @ 0 # r"
    using drop_after_put [OF put, of "src + length e"] esc.prems(3) e drop_skip [OF d] by simp
  then have "decode_token strict len (dst + length bs) (src + length e) ?ck tok' = ContentOk (take (dst + length bs) tok' @ s)"
    using esc.IH [of "src + length e" tok' "dst + length bs" ?ck] esc.prems(2,3) ck e by simp
  moreover have "?ck = (if strict then ck_feed 0x5C src ck else ck)" using assms(7) by (simp add: feed_strict_def)
  moreover have "src < len" using esc.prems(2) e by simp
  ultimately show ?case
    using handle_escape_complete [OF esc.hyps(1) d] c ck(1) put take_put [OF put]
    by (subst decode_token.simps) (simp add: Let_def split: if_splits)
qed

lemma decode_token_sound:
  assumes "decode_token strict len dst src ck tok = ContentOk u" "drop src tok = T @ 0 # r" "len = src + length T"
    "dst \<le> src" "\<not> ck_failed ck" "unquoted False T" "c_strict_utf8 ctx = strict"
  shows "\<exists>s. string_text T s \<and> strict_ok ctx T src ck"
  using assms
proof (induction strict len dst src ck tok arbitrary: T rule: decode_token.induct)
  case (1 strict len dst src ck tok)
  show ?case
  proof (cases T)
    case Nil
    then have "\<not> ck_failed (end_strict ctx ck)"
      using "1.prems" by (subst (asm) decode_token.simps) (auto simp: Let_def end_strict_def split: if_splits)
    then show ?thesis using Nil strict_ok_Nil [OF "1.prems"(5)] string_text.nil by auto
  next
    case (Cons c T')
    define ck' where "ck' = (if strict then ck_feed c src ck else ck)"
    have lt: "\<not> \<not> src < len" using Cons "1.prems"(3) by simp
    have r: "rd tok src = Some c" using rd_rest0(1) [of src tok] "1.prems"(2) Cons by simp
    have ck'': "ck' = feed_strict ctx c src ck" using "1.prems"(7) by (simp add: ck'_def feed_strict_def)
    have nf: "\<not> (strict \<and> ck_failed ck')"
      using "1.prems"(1) lt r by (subst (asm) decode_token.simps) (auto simp: Let_def ck'_def split: if_splits)
    then have ok: "\<not> ck_failed ck'" using "1.prems"(5) by (auto simp: ck'_def)
    show ?thesis
    proof (cases "c = 0x5C")
      case True
      have "decode_token strict len dst src ck tok =
          (case handle_escape tok src of EscOob \<Rightarrow> ContentOob | EscFail e p \<Rightarrow> ContentFail e p
             | EscOk bs j \<Rightarrow> (case put tok dst bs of None \<Rightarrow> ContentOob
                 | Some tok' \<Rightarrow> decode_token strict len (dst + length bs) j ck' tok'))"
        using lt r nf True unfolding ck'_def
        by (subst decode_token.simps) (simp only: Let_def if_True if_False option.case not_True_eq_False simp_thms)
      then obtain bs j tok' where esc: "handle_escape tok src = EscOk bs j" "put tok dst bs = Some tok'"
          "decode_token strict len (dst + length bs) j ck' tok' = ContentOk u"
        using "1.prems"(1) by (auto split: esc.splits option.splits)
      obtain e r0 where e: "drop src tok = e @ r0" "escape_text e bs" "j = src + length e"
        using handle_escape_sound [OF esc(1)] r True by auto
      obtain e' where sh: "e = 0x5C # e'" "plain e'" "length bs \<le> length e'"
        using escape_text_shape [OF e(2)] by blast
      have "\<forall>b \<in> set e. b \<noteq> 0" using sh by (auto simp: plain_def)
      then obtain T1 where T: "T = e @ T1"
        using zero_free_prefix [of e r0 T 0 r] "1.prems"(2) e(1) by auto
      have d: "drop j tok' = T1 @ 0 # r"
        using drop_after_put [OF esc(2), of j] e(3) sh "1.prems"(2,4) drop_skip [of src tok e "T1 @ 0 # r"] T by simp
      have "\<exists>s. string_text T1 s \<and> strict_ok ctx T1 j ck'"
        by (rule "1.IH"(1) [OF lt r ck'_def nf True esc(1,2,3) d _ _ ok _ "1.prems"(7)])
          (use "1.prems"(3,4,6) T e(3) sh unquoted_escape [OF e(2)] in auto)
      then obtain s where s: "string_text T1 s" "strict_ok ctx T1 j ck'" by blast
      have "strict_ok ctx T src ck"
        using strict_ok_escape [OF "1.prems"(5) sh(1,2)] ok s(2) True e(3) T ck'' by simp
      then show ?thesis using string_text.esc [OF e(2) s(1)] T by blast
    next
      case False
      have "decode_token strict len dst src ck tok =
          (if c < 0x20 then ContentFail UnescapedControl (Some src)
           else case put tok dst [c] of None \<Rightarrow> ContentOob
             | Some tok' \<Rightarrow> decode_token strict len (dst + 1) (src + 1) ck' tok')"
        using lt r nf False unfolding ck'_def
        by (subst decode_token.simps) (simp only: Let_def if_True if_False option.case not_True_eq_False simp_thms)
      then obtain tok' where st: "\<not> c < 0x20" "put tok dst [c] = Some tok'"
          "decode_token strict len (dst + 1) (src + 1) ck' tok' = ContentOk u"
        using "1.prems"(1) by (auto split: option.splits if_splits)
      have d: "drop (src + 1) tok' = T' @ 0 # r"
        using drop_after_put [OF st(2), of "src + 1"] "1.prems"(2,4) Cons drop_skip [of src tok "[c]" "T' @ 0 # r"] by simp
      have "\<exists>s. string_text T' s \<and> strict_ok ctx T' (src + 1) ck'"
        by (rule "1.IH"(2) [OF lt r ck'_def nf False st(1,2,3) d _ _ ok _ "1.prems"(7)])
          (use "1.prems"(3,4,6) Cons False in auto)
      then obtain s where s: "string_text T' s" "strict_ok ctx T' (src + 1) ck'" by blast
      have "strict_ok ctx T src ck"
        using strict_ok_Cons [OF "1.prems"(5)] ok s(2) Cons ck'' by simp
      moreover have "string_text (c # T') (c # s)" using st(1) "1.prems"(6) False Cons s(1) by (intro string_text.raw) auto
      ultimately show ?thesis using Cons by blast
    qed
  qed
qed

section \<open>String tokens of the grammar\<close>

definition gate :: "bool \<Rightarrow> pctx" where
  "gate strict = \<lparr>c_begin = 0, c_end = 0, c_padded = False, c_strip_bom = False, c_strict_utf8 = strict,
     c_json5 = False, c_max_depth = 0, c_strict_dup = False, c_lanes = 0, c_hash = length\<rparr>"

lemma gate_strict [simp]: "c_strict_utf8 (gate strict) = strict"
  by (simp add: gate_def)

lemma token_content_inside: "token_content strict raw \<noteq> ContentOob"
proof -
  obtain tok h fc where raw: "raw = (tok, h, fc)" by (metis prod_cases3)
  have "decode_token strict (length tok) 0 0 checker0 (tok @ replicate kStringDecodePadding 0) \<noteq> ContentOob"
    by (rule decode_token_inside) (simp_all add: kStringDecodePadding_def nth_append)
  then show ?thesis by (auto simp: raw token_content_def Let_def split: option.splits prod.splits)
qed

lemma plain_string_text: "\<forall>c \<in> set u. 0x20 \<le> c \<and> c \<noteq> 0x22 \<and> c \<noteq> 0x5C \<Longrightarrow> string_text u u"
  by (induction u) (auto intro: string_text.intros)

lemma string_text_no_escape: "string_text raw s \<Longrightarrow> 0x5C \<notin> set raw \<Longrightarrow> s = raw"
  by (induction rule: string_text.induct) (auto dest!: escape_text_shape)

lemma check_utf8_strict_valid:
  "\<forall>b \<in> set u. 0x20 \<le> b \<Longrightarrow> fst (check_utf8_strict u 0) = NoError \<longleftrightarrow> utf8_valid u"
  using strict_ok_start [of u "gate True" 0]
  by (auto simp: check_utf8_strict_def Let_def strict_ok_def ck_accepts_def ck_failed_def)

lemma token_content_complete:
  assumes "string_text raw s" "strict \<longrightarrow> utf8_valid raw"
  shows "token_content strict (raw, 0x5C \<in> set raw, None) = ContentOk s"
proof (cases "0x5C \<in> set raw")
  case True
  have "decode_token strict (length raw) 0 0 checker0 (raw @ replicate kStringDecodePadding 0) = ContentOk (take 0 (raw @ replicate kStringDecodePadding 0) @ s)"
    by (rule decode_token_complete [OF assms(1), where ctx = "gate strict"])
      (use assms(2) strict_ok_start [of raw "gate strict" 0] string_text_bytes [OF assms(1)] in
        \<open>simp_all add: kStringDecodePadding_def numeral_eq_Suc\<close>)
  then show ?thesis using True by (simp add: token_content_def)
next
  case False
  then show ?thesis
    using assms check_utf8_strict_valid [OF string_text_bytes [OF assms(1)]] string_text_no_escape [OF assms(1)]
    by (auto simp: token_content_def Let_def split: prod.splits)
qed

lemma token_content_sound:
  assumes "raw_text [] False False None t = Some (raw, n)" "token_content strict raw = ContentOk s"
  shows "\<exists>u r. t = u @ 0x22 # r \<and> n = Suc (length u) \<and> string_text u s \<and> (strict \<longrightarrow> utf8_valid u)"
proof -
  obtain u h fc where raw: "raw = (u, h, fc)" by (metis prod_cases3)
  obtain r where u: "t = u @ 0x22 # r" "n = Suc (length u)" "unquoted False u"
    and p: "\<not> h \<longrightarrow> (\<forall>c \<in> set u. c \<noteq> 0x22 \<and> c \<noteq> 0x5C) \<and> (fc = None \<longrightarrow> (\<forall>c \<in> set u. 0x20 \<le> c))"
    using raw_text_shape [of "[]" False False None t u h fc n] assms(1) raw by auto
  have "\<exists>s. string_text u s \<and> (strict \<longrightarrow> utf8_valid u)"
  proof (cases h)
    case True
    have "decode_token strict (length u) 0 0 checker0 (u @ replicate kStringDecodePadding 0) = ContentOk s"
      using assms(2) True raw by (simp add: token_content_def)
    then obtain s' where s: "string_text u s'" "strict_ok (gate strict) u 0 checker0"
      using decode_token_sound [of strict "length u" 0 0 checker0 _ s u "replicate 15 0" "gate strict"] u(3)
      by (auto simp: kStringDecodePadding_def numeral_eq_Suc)
    then show ?thesis using strict_ok_start [OF string_text_bytes [OF s(1)], of "gate strict" 0] by auto
  next
    case False
    then have fc: "fc = None" using assms(2) raw by (auto simp: token_content_def split: option.splits)
    then have pl: "\<forall>c \<in> set u. 0x20 \<le> c \<and> c \<noteq> 0x22 \<and> c \<noteq> 0x5C" using p False by blast
    moreover have "strict \<longrightarrow> utf8_valid u"
      using assms(2) raw False fc pl check_utf8_strict_valid [of u]
      by (auto simp: token_content_def Let_def split: prod.splits if_splits)
    ultimately show ?thesis using plain_string_text by blast
  qed
  then obtain s' where s': "string_text u s'" "strict \<longrightarrow> utf8_valid u" by blast
  have "raw_text [] False False None t = Some ((u, 0x5C \<in> set u, None), n)"
    using raw_text_complete [OF s'(1), of "[]" False None r] u by simp
  then have "token_content strict raw = ContentOk s'" using assms(1) token_content_complete [OF s'] by simp
  then show ?thesis using assms(2) s' u by auto
qed

end
