(* ===== verification/StreamSim.thy ===== *)
theory StreamSim
  imports StreamStrings
begin

text \<open>
  Two readers over the same input with different chunk sizes simulate each other: states that
  differ in the window only give the same events and the same errors, and stay related.
\<close>

section \<open>The simulation relation\<close>

definition sim :: "sstate \<Rightarrow> sstate \<Rightarrow> bool" where
  "sim st st' \<longleftrightarrow> good st \<and> good st' \<and> rest st' = rest st \<and> abs_offset st' = abs_offset st \<and>
     ss_stack st' = ss_stack st \<and> ss_root_done st' = ss_root_done st \<and> ss_finished st' = ss_finished st \<and>
     ss_start_checked st' = ss_start_checked st \<and> ss_err st' = ss_err st"

text \<open>Configurations that differ in the chunk size only.\<close>

definition same_conf :: "sconf \<Rightarrow> sconf \<Rightarrow> bool" where
  "same_conf cf cf' \<longleftrightarrow> sc_mode cf' = sc_mode cf \<and> sc_max_depth cf' = sc_max_depth cf \<and>
     sc_strip_bom cf' = sc_strip_bom cf \<and> sc_strict_utf8 cf' = sc_strict_utf8 cf"

abbreviation sim_res :: "('a, sstate) sres \<Rightarrow> ('a, sstate) sres \<Rightarrow> bool" where
  "sim_res \<equiv> rel_sres (=) sim"

abbreviation sim_it :: "sstate iteration \<Rightarrow> sstate iteration \<Rightarrow> bool" where
  "sim_it \<equiv> rel_iteration sim"

lemma sim_moved: "sim st st' \<Longrightarrow> moved n st s \<Longrightarrow> moved n st' s' \<Longrightarrow> sim s s'"
  by (simp add: sim_def moved_def)

lemma sim_fail:
  "sim s s' \<Longrightarrow> sim (s_fail c p s) (s_fail c p s')" "sim s s' \<Longrightarrow> sim (s_fail_context c s) (s_fail_context c s')"
  by (auto simp: sim_def s_fail_def s_fail_context_def rest_def window_def abs_offset_def good_def)

lemma sim_fail_of: "sim s s' \<Longrightarrow> sim (fail_of c p b s) (fail_of c p b s')"
  by (simp add: fail_of_def sim_fail split: option.splits)

lemma sim_offset: "sim s s' \<Longrightarrow> abs_offset s' = abs_offset s"
  by (simp add: sim_def)

lemma sim_err: "sim s s' \<Longrightarrow> ss_err s' = ss_err s"
  by (simp add: sim_def)

lemma sim_flags:
  "sim s s' \<Longrightarrow> sim (s\<lparr>ss_root_done := b\<rparr>) (s'\<lparr>ss_root_done := b\<rparr>)"
  "sim s s' \<Longrightarrow> sim (s\<lparr>ss_finished := b\<rparr>) (s'\<lparr>ss_finished := b\<rparr>)"
  "sim s s' \<Longrightarrow> sim (s\<lparr>ss_start_checked := b\<rparr>) (s'\<lparr>ss_start_checked := b\<rparr>)"
  "sim s s' \<Longrightarrow> sim (s\<lparr>ss_stack := fs\<rparr>) (s'\<lparr>ss_stack := fs\<rparr>)"
  by (simp_all add: sim_def)

lemma sim_phase: "sim s s' \<Longrightarrow> sim (set_phase ph s) (set_phase ph s')"
  by (auto simp: sim_def set_phase_def split: list.splits)

lemma sim_complete: "sim s s' \<Longrightarrow> sim (complete_value s) (complete_value s')"
  by (auto simp: sim_def complete_value_def set_phase_def split: list.splits)

lemma sim_advance:
  assumes "sim s s'" "n \<le> length (window s)" "n \<le> length (window s')"
  shows "sim (s_advance n s) (s_advance n s')"
  using sim_moved [OF assms(1) moved_advance moved_advance] assms by (simp add: sim_def)

lemma sim_acts:
  assumes "sim st st'" "acts st out r" "acts st' out r'"
  shows "sim_res r r'"
proof -
  have off: "abs_offset st' = abs_offset st" using sim_offset [OF assms(1)] .
  obtain s where s: "moved (snd out) st s"
    "r = (case fst out of Inl (c, p) \<Rightarrow> SFail (fail_of c p (abs_offset st) s) | Inr a \<Rightarrow> SOk a s)"
    using assms(2) by (auto simp: acts_def)
  obtain s' where s': "moved (snd out) st' s'"
    "r' = (case fst out of Inl (c, p) \<Rightarrow> SFail (fail_of c p (abs_offset st) s') | Inr a \<Rightarrow> SOk a s')"
    using assms(3) unfolding acts_def off by auto
  have "sim s s'" by (rule sim_moved [OF assms(1) s(1) s'(1)])
  then show ?thesis using s(2) s'(2) by (auto simp: sim_fail_of split: sum.splits)
qed

lemma sim_bind:
  assumes "sim_res m m'" "\<And>a s s'. sim s s' \<Longrightarrow> sim_res (f a s) (f' a s')"
  shows "sim_res (s_bind m f) (s_bind m' f')"
  using assms by (cases m; cases m') auto

lemma sim_complete_bind:
  "sim_res m m' \<Longrightarrow> sim_res (s_bind m (\<lambda>a st. SOk (g a) (complete_value st))) (s_bind m' (\<lambda>a st. SOk (g a) (complete_value st)))"
  by (rule sim_bind) (simp_all add: sim_complete)

section \<open>The operations\<close>

lemma sim_skip_ws:
  assumes "sim st st'"
  shows "sim (skip_ws cf st) (skip_ws cf' st')"
proof (cases "ss_err st")
  case None
  have g: "good st" "good st'" "ss_err st' = None" "rest st' = rest st" using assms None by (auto simp: sim_def)
  show ?thesis
    using skip_ws_good [OF g(1) None, of cf] skip_ws_good [OF g(2,3), of cf'] g(4) sim_moved [OF assms] by auto
next
  case (Some e)
  then have "skip_ws cf st = st" "skip_ws cf' st' = st'"
    using assms by (subst skip_ws.simps, simp add: sim_def)+
  then show ?thesis using assms by simp
qed

lemma sim_ensure:
  assumes "sim st st'" "ss_err st = None" "ensure cf n st = (ok, s)" "ensure cf' n st' = (ok', s')"
  shows "ok' = ok" "sim s s'" "ss_err s = None" "ok \<Longrightarrow> take n (window s') = take n (window s)"
proof -
  have g: "good st" "good st'" "ss_err st' = None" "rest st' = rest st" using assms(1,2) by (auto simp: sim_def)
  note e = ensure_settled [OF g(1) assms(2,3)] and e' = ensure_settled [OF g(2,3) assms(4)]
  show "ok' = ok" using e(2) e'(2) g(4) by simp
  show "sim s s'" by (rule sim_moved [OF assms(1) e(1) e'(1)])
  show "ss_err s = None" using e(1) assms(2) by (simp add: moved_def)
  show "ok \<Longrightarrow> take n (window s') = take n (window s)" using e(3) e'(3) e'(2) e(2) g(4) by simp
qed

lemma sim_start_bom:
  assumes "sim st st'" "same_conf cf cf'"
  shows "sim (skip_start_bom cf st) (skip_start_bom cf' st')"
proof (cases "ss_start_checked st \<or> \<not> sc_strip_bom cf \<or> ss_err st \<noteq> None")
  case True
  then show ?thesis
    using assms by (auto simp: skip_start_bom_def Let_def same_conf_def sim_def)
next
  case False
  let ?s = "st\<lparr>ss_start_checked := True\<rparr>" and ?s' = "st'\<lparr>ss_start_checked := True\<rparr>"
  have s: "sim ?s ?s'" "ss_err ?s = None" using assms(1) False by (auto intro: sim_flags)
  obtain ok t where t: "ensure cf 3 ?s = (ok, t)" by (cases "ensure cf 3 ?s")
  obtain ok' t' where t': "ensure cf' 3 ?s' = (ok', t')" by (cases "ensure cf' 3 ?s'")
  note e = sim_ensure [OF s t t']
  have c: "\<not> ss_start_checked st'" "sc_strip_bom cf'" "ss_err ?s' = None"
    using False assms by (auto simp: sim_def same_conf_def)
  have three: "take 3 (window x) = [0xEF, 0xBB, 0xBF] \<Longrightarrow> 3 \<le> length (window x)" for x
    by (cases "window x"; cases "tl (window x)"; cases "tl (tl (window x))") auto
  show ?thesis
    using False c s(2) t t' e sim_advance [OF e(2), of 3] three [of t] three [of t']
    by (simp add: skip_start_bom_def Let_def)
qed

text \<open>Skipping white space and looking at the next byte.\<close>

lemma sim_dispatch:
  assumes "sim st st'"
    and "\<And>s s'. sim s s' \<Longrightarrow> R (F s) (F' s')"
    and "\<And>s s'. sim s s' \<Longrightarrow> window s = [] \<Longrightarrow> window s' = [] \<Longrightarrow> R (A s) (A' s')"
    and "\<And>s s' c w w'. sim s s' \<Longrightarrow> ss_err s = None \<Longrightarrow> window s = c # w \<Longrightarrow> window s' = c # w' \<Longrightarrow> R (B c s) (B' c s')"
  shows "R (let s = skip_ws cf st in if ss_err s \<noteq> None then F s else case window s of [] \<Rightarrow> A s | c # _ \<Rightarrow> B c s)
    (let s = skip_ws cf' st' in if ss_err s \<noteq> None then F' s else case window s of [] \<Rightarrow> A' s | c # _ \<Rightarrow> B' c s)"
proof -
  let ?s = "skip_ws cf st" and ?s' = "skip_ws cf' st'"
  have s: "sim ?s ?s'" by (rule sim_skip_ws [OF assms(1)])
  show ?thesis
  proof (cases "ss_err ?s")
    case None
    have n: "ss_err st = None"
    proof (rule ccontr)
      assume "ss_err st \<noteq> None"
      then have "?s = st" by (subst skip_ws.simps) simp
      then show False using None \<open>ss_err st \<noteq> None\<close> by simp
    qed
    have "settled ?s" "settled ?s'"
      using skip_ws_good [of st cf] skip_ws_good [of st' cf'] n assms(1) by (auto simp: sim_def)
    moreover have r: "rest ?s' = rest ?s" "ss_err ?s' = None" using s None by (auto simp: sim_def)
    ultimately show ?thesis
      using assms(3) [OF s] assms(4) [OF s None] None
      by (elim settled_cases) (auto simp: Let_def)
  next
    case (Some e)
    then show ?thesis using assms(2) [OF s] sim_err [OF s] by (simp add: Let_def)
  qed
qed


lemma sim_string:
  assumes "sim s s'" "same_conf cf cf'" "ss_err s = None" "window s = c # w" "window s' = c # w'"
  shows "sim_res (parse_string_token cf s) (parse_string_token cf' s')"
proof -
  have g: "good s" "good s'" "ss_err s' = None" "rest s' = rest s" "sc_strict_utf8 cf' = sc_strict_utf8 cf"
    using assms(1-3) by (auto simp: sim_def same_conf_def)
  have "acts s (string_outcome (sc_strict_utf8 cf) (rest s)) (parse_string_token cf s)"
    by (rule parse_string_token_good [OF g(1) assms(3)]) (simp_all add: assms(4) token_content_inside)
  moreover have "acts s' (string_outcome (sc_strict_utf8 cf') (rest s')) (parse_string_token cf' s')"
    by (rule parse_string_token_good [OF g(2,3)]) (simp_all add: assms(5) token_content_inside)
  ultimately show ?thesis using sim_acts [OF assms(1)] g(4,5) by simp
qed

lemma sim_number:
  assumes "sim s s'" "ss_err s = None"
  shows "sim_res (event_number cf s) (event_number cf' s')"
  using sim_acts [OF assms(1) event_number_good] event_number_good [of s' cf'] assms by (auto simp: sim_def)

lemma sim_literal:
  assumes "sim s s'" "ss_err s = None"
  shows "sim_res (event_literal cf c s) (event_literal cf' c s')"
  using sim_acts [OF assms(1) event_literal_good] event_literal_good [of s' c cf'] assms by (auto simp: sim_def)

lemma sim_enter:
  assumes "sim s s'" "same_conf cf cf'" "window s = c # w" "window s' = c # w'"
  shows "sim_res (s_bind (enter_container cf k (abs_offset s) s) (\<lambda>_ st. SOk ev (s_advance 1 st)))
    (s_bind (enter_container cf' k (abs_offset s') s') (\<lambda>_ st. SOk ev (s_advance 1 st)))"
proof -
  have "ss_stack s' = ss_stack s" "sc_max_depth cf' = sc_max_depth cf" "abs_offset s' = abs_offset s"
    using assms(1,2) by (auto simp: sim_def same_conf_def)
  then show ?thesis
    using sim_advance [OF sim_flags(4) [OF assms(1)], of 1] sim_fail(1) [OF assms(1)] assms(3,4)
    by (auto simp: enter_container_def)
qed

lemma sim_expect_value:
  assumes "sim st st'" "same_conf cf cf'"
  shows "sim_res (expect_value cf r st) (expect_value cf' r st')"
  unfolding expect_value_def
proof (rule sim_dispatch [OF assms(1)], goal_cases)
  case (1 s s')
  then show ?case by simp
next
  case (2 s s')
  then show ?case using sim_fail(1) sim_offset by auto
next
  case (3 s s' c w w')
  note complete = sim_complete_bind
  show ?case
    using sim_enter [OF 3(1) assms(2) 3(3,4), of FArray BeginArray] sim_enter [OF 3(1) assms(2) 3(3,4), of FObject BeginObject]
      complete [OF sim_number [OF 3(1,2), of cf cf'], of "\<lambda>ev. ev"]
      complete [OF sim_literal [OF 3(1,2), of cf c cf'], of "\<lambda>ev. ev"]
      complete [OF sim_string [OF 3(1) assms(2) 3(2-4)], of EvString] sim_fail(1) [OF 3(1)] sim_offset [OF 3(1)]
    by simp
qed

lemma sim_close:
  assumes "sim s s'" "window s = c # w" "window s' = c # w'"
  shows "sim_res (close_container ev s) (close_container ev s')"
proof -
  have "sim (s_advance 1 s) (s_advance 1 s')" using assms by (intro sim_advance) auto
  moreover have "ss_stack s' = ss_stack s" using assms(1) by (simp add: sim_def)
  ultimately show ?thesis by (simp add: close_container_def Let_def sim_complete sim_flags(4))
qed

lemma sim_continue:
  assumes "sim s s'" "window s = c # w" "window s' = c # w'"
  shows "sim (set_phase ph (s_advance 1 s)) (set_phase ph (s_advance 1 s'))"
  using assms by (intro sim_phase sim_advance) auto

lemmas sim_continue_Suc = sim_continue [unfolded One_nat_def]

lemma sim_key_step:
  assumes "sim st st'" "same_conf cf cf'"
  shows "sim_it (key_step cf ph st) (key_step cf' ph st')"
  unfolding key_step_def
proof (rule sim_dispatch [OF assms(1)], goal_cases)
  case (3 s s' c w w')
  then show ?case
    using sim_close [OF 3(1,3,4)] sim_string [OF 3(1) assms(2) 3(2-4)] sim_fail(1) [OF 3(1)] sim_offset [OF 3(1)]
    by (auto intro!: sim_bind simp: sim_phase)
qed (auto simp: sim_fail sim_offset)

lemma sim_comma_steps:
  assumes "sim st st'"
  shows "sim_it (object_comma_step cf st) (object_comma_step cf' st')"
    "sim_it (array_comma_step cf st) (array_comma_step cf' st')"
proof -
  show "sim_it (object_comma_step cf st) (object_comma_step cf' st')"
    unfolding object_comma_step_def
    by (rule sim_dispatch [OF assms]; auto simp: sim_fail sim_offset intro!: sim_close sim_continue_Suc)
  show "sim_it (array_comma_step cf st) (array_comma_step cf' st')"
    unfolding array_comma_step_def
    by (rule sim_dispatch [OF assms]; auto simp: sim_fail sim_offset intro!: sim_close sim_continue_Suc)
qed

lemma sim_first_step:
  assumes "sim st st'" "same_conf cf cf'"
  shows "sim_it (array_first_step cf st) (array_first_step cf' st')"
  unfolding array_first_step_def
proof (rule sim_dispatch [OF assms(1)], goal_cases)
  case (3 s s' c w w')
  then show ?case
    using sim_close [OF 3(1,3,4)] sim_expect_value [OF 3(1) assms(2)] by simp
qed (auto simp: sim_fail sim_offset)

lemma colon_step_alt:
  "colon_step cf st = (let s = skip_ws cf st in if ss_err s \<noteq> None then Return (SFail s)
     else case window s of [] \<Rightarrow> Return (SFail (s_fail ExpectedColon (abs_offset s) s))
     | c # _ \<Rightarrow> if c \<noteq> 0x3A then Return (SFail (s_fail ExpectedColon (abs_offset s) s))
        else Continue (set_phase ObjectValue (s_advance 1 s)))"
  by (simp add: colon_step_def Let_def split: list.splits)

lemma sim_colon_step:
  assumes "sim st st'"
  shows "sim_it (colon_step cf st) (colon_step cf' st')"
  unfolding colon_step_alt
  by (rule sim_dispatch [OF assms]; auto simp: sim_fail sim_offset intro!: sim_continue_Suc)

lemma root_step_alt:
  "root_step cf st = (if sc_mode cf = MultiValue then
     (let s = skip_ws cf st in if ss_err s \<noteq> None then Return (SFail s)
     else case window s of [] \<Rightarrow> Return (SFail (s\<lparr>ss_finished := True\<rparr>)) | c # _ \<Rightarrow> Return (expect_value cf True s))
     else Return (expect_value cf True st))"
  by (simp add: root_step_def Let_def split: list.splits)

lemma sim_root_step:
  assumes "sim st st'" "same_conf cf cf'"
  shows "sim_it (root_step cf st) (root_step cf' st')"
proof (cases "sc_mode cf = MultiValue")
  case True
  then have m: "sc_mode cf' = MultiValue" using assms(2) by (simp add: same_conf_def)
  show ?thesis
    unfolding root_step_alt if_P [OF True] if_P [OF m]
    by (rule sim_dispatch [OF assms(1)]) (use sim_expect_value [OF _ assms(2)] in \<open>auto simp: sim_flags\<close>)
next
  case False
  then have m: "sc_mode cf' \<noteq> MultiValue" using assms(2) by (simp add: same_conf_def)
  show ?thesis unfolding root_step_alt if_not_P [OF False] if_not_P [OF m] using sim_expect_value [OF assms] by simp
qed

section \<open>The state machine\<close>

lemma sim_finish:
  "sim s s' \<Longrightarrow> sim_it (Return (SFail (s\<lparr>ss_finished := True\<rparr>))) (Return (SFail (s'\<lparr>ss_finished := True\<rparr>)))"
  by (simp add: sim_flags)

lemma root_done_single:
  "sc_mode cf = SingleRoot \<Longrightarrow> root_done_step cf st =
     (let s = skip_ws cf st in if ss_err s \<noteq> None then Return (SFail s)
      else case window s of [] \<Rightarrow> Return (SFail (s\<lparr>ss_finished := True\<rparr>))
      | c # _ \<Rightarrow> Return (SFail (s_fail ExtraCharactersAfterValue (abs_offset s) s)))"
  by (simp add: root_done_step_def Let_def split: list.splits)

lemma root_done_multi:
  "sc_mode cf = MultiValue \<Longrightarrow> root_done_step cf st =
     (case ensure cf 1 st of (ok, st1) \<Rightarrow>
        if \<not> ok then (if ss_err st1 \<noteq> None then Return (SFail st1) else Return (SFail (st1\<lparr>ss_finished := True\<rparr>)))
        else if \<not> is_whitespace (hd (window st1)) then Return (SFail (s_fail ExtraCharactersAfterValue (abs_offset st1) st1))
        else
          let s = skip_ws cf st1 in if ss_err s \<noteq> None then Return (SFail s)
          else case window s of [] \<Rightarrow> Return (SFail (s\<lparr>ss_finished := True\<rparr>))
          | c # _ \<Rightarrow> Continue (s\<lparr>ss_root_done := False\<rparr>))"
  by (auto simp: root_done_step_def Let_def split: list.splits prod.splits)

lemma sim_root_done_step:
  assumes "sim st st'" "same_conf cf cf'" "ss_err st = None"
  shows "sim_it (root_done_step cf st) (root_done_step cf' st')"
proof (cases "sc_mode cf")
  case SingleRoot
  then have m: "sc_mode cf' = SingleRoot" using assms(2) by (simp add: same_conf_def)
  show ?thesis
    unfolding root_done_single [OF SingleRoot] root_done_single [OF m]
    by (rule sim_dispatch [OF assms(1)]) (auto simp: sim_fail sim_offset sim_flags)
next
  case MultiValue
  then have m: "sc_mode cf' = MultiValue" using assms(2) by (simp add: same_conf_def)
  obtain ok s where s: "ensure cf 1 st = (ok, s)" by (cases "ensure cf 1 st")
  obtain ok' s' where s': "ensure cf' 1 st' = (ok', s')" by (cases "ensure cf' 1 st'")
  note e = sim_ensure [OF assms(1,3) s s']
  have err: "ss_err s' = None" using e(2,3) by (simp add: sim_def)
  have hd: "hd (window s') = hd (window s)" if ok using e(4) [OF that] by (metis hd_take zero_less_one)
  have "sim_it
    (let s = skip_ws cf s in if ss_err s \<noteq> None then Return (SFail s)
          else case window s of [] \<Rightarrow> Return (SFail (s\<lparr>ss_finished := True\<rparr>))
          | c # _ \<Rightarrow> Continue (s\<lparr>ss_root_done := False\<rparr>))
    (let s = skip_ws cf' s' in if ss_err s \<noteq> None then Return (SFail s)
          else case window s of [] \<Rightarrow> Return (SFail (s\<lparr>ss_finished := True\<rparr>))
          | c # _ \<Rightarrow> Continue (s\<lparr>ss_root_done := False\<rparr>))"
    by (rule sim_dispatch [OF e(2)]) (auto simp: sim_flags)
  then show ?thesis
    unfolding root_done_multi [OF MultiValue] root_done_multi [OF m] s s'
    using e(1-3) err hd sim_offset [OF e(2)] sim_fail(1) [OF e(2)] sim_flags(2) [OF e(2)] by simp
qed

lemma sim_next_iteration:
  assumes "sim st st'" "same_conf cf cf'"
  shows "sim_it (next_iteration cf st) (next_iteration cf' st')"
proof -
  have f: "ss_err st' = ss_err st" "ss_finished st' = ss_finished st" "ss_root_done st' = ss_root_done st"
    "ss_stack st' = ss_stack st" using assms(1) by (auto simp: sim_def)
  show ?thesis
    unfolding next_iteration_def f
    using assms(1) sim_root_done_step [OF assms] sim_root_step [OF assms] sim_key_step [OF assms]
      sim_colon_step [OF assms(1)] sim_expect_value [OF assms] sim_comma_steps [OF assms(1)] sim_first_step [OF assms]
    by (auto split: list.split phase.split)
qed

lemma sim_next_loop:
  "sim st st' \<Longrightarrow> same_conf cf cf' \<Longrightarrow> sim_res (next_loop cf st) (next_loop cf' st')"
proof (induction cf st arbitrary: st' rule: next_loop.induct)
  case (1 cf st)
  note it = sim_next_iteration [OF 1(2,3)]
  show ?case
  proof (cases "next_iteration cf st")
    case (Return r)
    then obtain r' where "next_iteration cf' st' = Return r'" "sim_res r r'"
      using it by (cases "next_iteration cf' st'") auto
    then show ?thesis using Return by (simp add: next_loop.simps)
  next
    case (Continue s)
    then obtain s' where s': "next_iteration cf' st' = Continue s'" "sim s s'"
      using it by (cases "next_iteration cf' st'") auto
    then show ?thesis
      using 1(1) [OF Continue s'(2) 1(3)] Continue by (simp add: next_loop.simps [of cf st] next_loop.simps [of cf' st'])
  qed
qed

lemma sim_next_event:
  assumes "sim st st'" "same_conf cf cf'"
  shows "sim_res (next_event cf st) (next_event cf' st')"
  using sim_next_loop [OF assms] sim_next_loop [OF sim_start_bom [OF assms] assms(2)] assms(1)
  by (simp add: next_event_def sim_def)

lemma sim_drain:
  "sim st st' \<Longrightarrow> same_conf cf cf' \<Longrightarrow>
    fst (drain cf' st') = fst (drain cf st) \<and> rel_option sim (snd (drain cf st)) (snd (drain cf' st'))"
proof (induction cf st arbitrary: st' rule: drain.induct)
  case (1 cf st)
  note ev = sim_next_event [OF 1(2,3)]
  show ?case
  proof (cases "next_event cf st")
    case (SOk e s)
    then obtain s' where s': "next_event cf' st' = SOk e s'" "sim s s'"
      using ev by (cases "next_event cf' st'") auto
    then show ?thesis
      using 1(1) [OF SOk s'(2) 1(3)] SOk by (simp add: drain.simps [of cf st] drain.simps [of cf' st'] case_prod_unfold Let_def)
  next
    case (SFail s)
    then obtain s' where s': "next_event cf' st' = SFail s'" "sim s s'"
      using ev by (cases "next_event cf' st'") auto
    then show ?thesis using SFail by (simp add: drain.simps [of cf st] drain.simps [of cf' st'])
  next
    case SOob
    then have "next_event cf' st' = SOob" using ev by (cases "next_event cf' st'") auto
    then show ?thesis using SOob by (simp add: drain.simps [of cf st] drain.simps [of cf' st'])
  qed
qed

lemma reader_start_sim: "sim (reader_start t False) (reader_start t False)"
  by (simp add: sim_def good_def reader_start_def)

section \<open>Properties\<close>


end
