(* ===== verification/StreamGrammar.thy ===== *)
theory StreamGrammar
  imports StreamSim ParserSound
begin

text \<open>
  The event reader against the grammar: a run that ends cleanly has read a JSON text, and the
  events build its value; every JSON text within the limits gives such a run.
\<close>

section \<open>The reader on its unconsumed input\<close>

text \<open>An undisturbed reader, seen without its window and its offsets.\<close>

definition reads :: "sstate \<Rightarrow> bytes \<Rightarrow> frame list \<Rightarrow> bool \<Rightarrow> bool" where
  "reads st r fs dn \<longleftrightarrow> good st \<and> rest st = r \<and> ss_stack st = fs \<and> ss_root_done st = dn \<and>
     \<not> ss_finished st \<and> ss_start_checked st \<and> ss_err st = None"

datatype astep = AEvent event bytes "frame list" bool | AEnd | AFail

definition matches :: "(event, sstate) sres \<Rightarrow> astep \<Rightarrow> bool" where
  "matches r a \<longleftrightarrow> (case a of
      AEvent e r' fs dn \<Rightarrow> (\<exists>s. r = SOk e s \<and> reads s r' fs dn)
    | AEnd \<Rightarrow> (\<exists>s. r = SFail s \<and> ss_err s = None)
    | AFail \<Rightarrow> (\<exists>s. r = SFail s \<and> ss_err s \<noteq> None))"

text \<open>The stack, and whether the root is done, once the value at the top is complete.\<close>

definition done_stack :: "frame list \<Rightarrow> frame list \<times> bool" where
  "done_stack fs = (case fs of
      [] \<Rightarrow> ([], True)
    | f # fs' \<Rightarrow> (f\<lparr>fr_phase := (if fr_kind f = FObject then ObjectCommaOrEnd else ArrayCommaOrEnd)\<rparr> # fs', False))"

definition a_done :: "event \<Rightarrow> bytes \<Rightarrow> frame list \<Rightarrow> astep" where
  "a_done e r fs = AEvent e r (fst (done_stack fs)) (snd (done_stack fs))"

definition a_token :: "event outcome \<Rightarrow> bytes \<Rightarrow> frame list \<Rightarrow> astep" where
  "a_token out r fs = (case fst out of Inl _ \<Rightarrow> AFail | Inr e \<Rightarrow> a_done e (drop (snd out) r) fs)"

definition skipped :: "bytes \<Rightarrow> bytes" where
  "skipped r = drop (ws_run r) r"

definition a_open :: "sconf \<Rightarrow> frame_kind \<Rightarrow> bytes \<Rightarrow> frame list \<Rightarrow> astep" where
  "a_open cf k r fs =
     (if sc_max_depth cf \<noteq> 0 \<and> sc_max_depth cf < length fs + 1 then AFail
      else AEvent (if k = FObject then BeginObject else BeginArray) r
        (\<lparr>fr_kind = k, fr_phase = (if k = FObject then ObjectKeyOrEnd else ArrayValueOrEnd)\<rparr> # fs) False)"

definition a_value :: "sconf \<Rightarrow> bytes \<Rightarrow> frame list \<Rightarrow> astep" where
  "a_value cf r fs = (case skipped r of
      [] \<Rightarrow> AFail
    | c # t \<Rightarrow>
        if c = 0x7B then a_open cf FObject t fs
        else if c = 0x5B then a_open cf FArray t fs
        else if c = 0x22 then
          (case string_outcome (sc_strict_utf8 cf) (c # t) of (res, n) \<Rightarrow> a_token (map_sum id EvString res, n) (c # t) fs)
        else if c = 0x74 \<or> c = 0x66 \<or> c = 0x6E then a_token (literal_outcome c (c # t)) (c # t) fs
        else if number_lead c then a_token (number_outcome (c # t)) (c # t) fs
        else AFail)"

definition a_key :: "sconf \<Rightarrow> bool \<Rightarrow> bytes \<Rightarrow> frame list \<Rightarrow> astep" where
  "a_key cf may_end r fs = (case skipped r of
      [] \<Rightarrow> AFail
    | c # t \<Rightarrow>
        if c = 0x7D \<and> may_end then a_done EndObject t (tl fs)
        else if c \<noteq> 0x22 then AFail
        else (case string_outcome (sc_strict_utf8 cf) (c # t) of
            (Inl _, n) \<Rightarrow> AFail
          | (Inr s, n) \<Rightarrow> AEvent (MapKey s) (drop n (c # t)) ((hd fs)\<lparr>fr_phase := ObjectColon\<rparr> # tl fs) False))"

definition a_next :: "sconf \<Rightarrow> bytes \<Rightarrow> frame list \<Rightarrow> bool \<Rightarrow> astep" where
  "a_next cf r fs dn =
     (if dn then
        (case sc_mode cf of
           SingleRoot \<Rightarrow> if skipped r = [] then AEnd else AFail
         | MultiValue \<Rightarrow>
             if r = [] then AEnd
             else if \<not> is_whitespace (hd r) then AFail
             else if skipped r = [] then AEnd
             else a_value cf r fs)
      else case fs of
        [] \<Rightarrow> if sc_mode cf = MultiValue \<and> skipped r = [] then AEnd else a_value cf r []
      | f # fs' \<Rightarrow>
          (case fr_phase f of
             ObjectKeyOrEnd \<Rightarrow> a_key cf True r fs
           | ObjectKey \<Rightarrow> a_key cf False r fs
           | ObjectColon \<Rightarrow> (case skipped r of
               [] \<Rightarrow> AFail
             | c # t \<Rightarrow> if c \<noteq> 0x3A then AFail else a_value cf t (f\<lparr>fr_phase := ObjectValue\<rparr> # fs'))
           | ObjectValue \<Rightarrow> a_value cf r fs
           | ObjectCommaOrEnd \<Rightarrow> (case skipped r of
               [] \<Rightarrow> AFail
             | c # t \<Rightarrow> if c = 0x7D then a_done EndObject t fs'
                 else if c = 0x2C then a_key cf False t (f\<lparr>fr_phase := ObjectKey\<rparr> # fs')
                 else AFail)
           | ArrayValueOrEnd \<Rightarrow> (case skipped r of
               [] \<Rightarrow> AFail
             | c # t \<Rightarrow> if c = 0x5D then a_done EndArray t fs' else a_value cf r fs)
           | ArrayValue \<Rightarrow> a_value cf r fs
           | ArrayCommaOrEnd \<Rightarrow> (case skipped r of
               [] \<Rightarrow> AFail
             | c # t \<Rightarrow> if c = 0x5D then a_done EndArray t fs'
                 else if c = 0x2C then a_value cf t (f\<lparr>fr_phase := ArrayValue\<rparr> # fs')
                 else AFail)))"

lemma matches_simps [simp]:
  "matches (SOk e s) (AEvent e' r fs dn) \<longleftrightarrow> e = e' \<and> reads s r fs dn"
  "\<not> matches (SOk e s) AEnd" "\<not> matches (SOk e s) AFail"
  "matches (SFail s) AEnd \<longleftrightarrow> ss_err s = None" "matches (SFail s) AFail \<longleftrightarrow> ss_err s \<noteq> None"
  "\<not> matches (SFail s) (AEvent e r fs dn)" "\<not> matches SOob a"
  by (auto simp: matches_def split: astep.splits)

lemma reads_complete: "reads st r fs False \<Longrightarrow> reads (complete_value st) r (fst (done_stack fs)) (snd (done_stack fs))"
  by (auto simp: reads_def done_stack_def complete_value_def set_phase_def split: list.splits)

lemma reads_skip:
  assumes "reads st r fs dn"
  shows "reads (skip_ws cf st) (skipped r) fs dn \<and> settled (skip_ws cf st)"
  using skip_ws_good [of st cf] assms by (auto simp: reads_def moved_def skipped_def)

lemma reads_advance: "reads st (c # r) fs dn \<Longrightarrow> window st = c # w \<Longrightarrow> reads (s_advance 1 st) r fs dn"
  using moved_advance [of st 1] by (auto simp: reads_def moved_def)

lemma reads_acts:
  assumes "reads st r fs dn" "acts st out m"
  shows "case fst out of Inl _ \<Rightarrow> (\<exists>s. m = SFail s \<and> ss_err s \<noteq> None)
    | Inr a \<Rightarrow> (\<exists>s. m = SOk a s \<and> reads s (drop (snd out) r) fs dn)"
proof -
  obtain s where s: "moved (snd out) st s"
    "m = (case fst out of Inl (c, p) \<Rightarrow> SFail (fail_of c p (abs_offset st) s) | Inr a \<Rightarrow> SOk a s)"
    using assms(2) by (auto simp: acts_def)
  have "reads s (drop (snd out) r) fs dn" using s(1) assms(1) by (simp add: reads_def moved_def)
  moreover have "ss_err (fail_of c p b s) \<noteq> None" for c p b by (simp only: fail_of_def s_fail_sel split: option.split) simp
  ultimately show ?thesis using s(2) by (cases "fst out") (simp_all split: prod.splits)
qed

lemma map_sum_ident [simp]: "map_sum id (\<lambda>e. e) x = x"
  by (cases x) auto

lemma matches_token:
  assumes "reads st r fs False" "acts st out m"
  shows "matches (s_bind m (\<lambda>a s. SOk (g a) (complete_value s))) (a_token (map_sum id g (fst out), snd out) r fs)"
  using reads_acts [OF assms] reads_complete by (auto simp: a_token_def a_done_def split: sum.splits)

text \<open>Looking at the next byte behind white space.\<close>

lemma reads_dispatch:
  assumes "reads st r fs dn"
    and "\<And>s. reads s [] fs dn \<Longrightarrow> window s = [] \<Longrightarrow> skipped r = [] \<Longrightarrow> P (A s)"
    and "\<And>s c w t. reads s (c # t) fs dn \<Longrightarrow> window s = c # w \<Longrightarrow> skipped r = c # t \<Longrightarrow> P (B c s)"
  shows "P (let s = skip_ws cf st in if ss_err s \<noteq> None then F s else case window s of [] \<Rightarrow> A s | c # _ \<Rightarrow> B c s)"
proof -
  let ?s = "skip_ws cf st"
  have s: "reads ?s (skipped r) fs dn" "settled ?s" using reads_skip [OF assms(1)] by auto
  have err: "ss_err ?s = None" and r: "rest ?s = skipped r" using s(1) by (auto simp: reads_def)
  from s(2) show ?thesis
  proof (cases rule: settled_cases)
    case 1
    then show ?thesis using assms(2) [of ?s] s(1) err r by (simp add: Let_def)
  next
    case (2 c w t)
    then show ?thesis using assms(3) [of ?s c t w] s(1) err r by (simp add: Let_def)
  qed
qed

lemma expect_value_reads:
  assumes "reads st r fs False"
  shows "matches (expect_value cf b st) (a_value cf r fs)"
  unfolding expect_value_def
proof (rule reads_dispatch [OF assms, where P = "\<lambda>x. matches x (a_value cf r fs)"], goal_cases)
  case (1 s)
  then show ?case by (simp add: a_value_def)
next
  case (2 s c w t)
  have g: "good s" "ss_err s = None" "rest s = c # t" "ss_stack s = fs" using 2(1) by (auto simp: reads_def)
  have ne: "window s \<noteq> []" using 2(2) by simp
  have "matches (s_bind (enter_container cf k (abs_offset s) s) (\<lambda>_ st. SOk (if k = FObject then BeginObject else BeginArray) (s_advance 1 st)))
      (a_open cf k t fs)" for k
    using 2(1,2) reads_advance [of "s\<lparr>ss_stack := _ # fs\<rparr>" c t _ False w]
    by (auto simp: enter_container_def a_open_def reads_def g(4))
  note opn = this [of FObject, simplified] this [of FArray, simplified]
  have str: "matches (s_bind (parse_string_token cf s) (\<lambda>x st. SOk (EvString x) (complete_value st)))
      (a_token (map_sum id EvString (fst (string_outcome (sc_strict_utf8 cf) (c # t))), snd (string_outcome (sc_strict_utf8 cf) (c # t))) (c # t) fs)"
    using matches_token [OF 2(1) parse_string_token_good [OF g(1,2) ne token_content_inside], of cf EvString] g(3) by simp
  have litm: "matches (s_bind (event_literal cf c s) (\<lambda>e st. SOk e (complete_value st))) (a_token (literal_outcome c (c # t)) (c # t) fs)"
    using matches_token [OF 2(1) event_literal_good [OF g(1,2), of c cf], of "\<lambda>e. e"] g(3) by simp
  have num: "matches (s_bind (event_number cf s) (\<lambda>e st. SOk e (complete_value st))) (a_token (number_outcome (c # t)) (c # t) fs)"
    using matches_token [OF 2(1) event_number_good [OF g(1,2), of cf], of "\<lambda>e. e"] g(3) by simp
  show ?case
    using opn str litm num 2(3) by (cases "c = 0x22") (simp_all add: a_value_def case_prod_unfold)
qed


lemma a_value_skipped:
  assumes "skipped r = c # t"
  shows "a_value cf (c # t) fs = a_value cf r fs"
proof -
  have "\<not> is_whitespace c" using ws_run_stop [of r] assms by (auto simp: skipped_def)
  then have "skipped (c # t) = skipped r" using assms by (simp add: skipped_def)
  then show ?thesis by (simp add: a_value_def)
qed

lemma value_dispatch:
  assumes "reads s (c # t) fs False" "skipped r = c # t"
  shows "matches (expect_value cf b s) (a_value cf r fs)"
  using expect_value_reads [OF assms(1)] a_value_skipped [OF assms(2)] by simp

lemma number_lead_iff: "number_lead c \<longleftrightarrow> number_start c"
proof -
  have "is_dec_digit c \<longleftrightarrow> c \<in> {0x30, 0x31, 0x32, 0x33, 0x34, 0x35, 0x36, 0x37, 0x38, 0x39}"
  proof
    assume "is_dec_digit c"
    then have "48 \<le> unat c \<and> unat c \<le> 57" by (simp add: dec_digit_num)
    then have "unat c = 48 \<or> unat c = 49 \<or> unat c = 50 \<or> unat c = 51 \<or> unat c = 52 \<or> unat c = 53 \<or>
      unat c = 54 \<or> unat c = 55 \<or> unat c = 56 \<or> unat c = 57" by presburger
    then show "c \<in> {0x30, 0x31, 0x32, 0x33, 0x34, 0x35, 0x36, 0x37, 0x38, 0x39}" by (simp add: word_unat_eq_iff)
  qed (auto simp: is_dec_digit_def)
  then show ?thesis by (auto simp: number_lead_def number_start_def)
qed

section \<open>One call of \<^verbatim>\<open>next\<close>\<close>

lemma reads_set_phase:
  "reads st r (f # fs) dn \<Longrightarrow> reads (set_phase ph st) r (f\<lparr>fr_phase := ph\<rparr> # fs) dn"
  by (auto simp: reads_def set_phase_def)

lemma close_container_reads:
  assumes "reads s (c # t) fs False" "window s = c # w"
  shows "matches (close_container e s) (a_done e t (tl fs))"
proof -
  have "reads (s_advance 1 s) t fs False" by (rule reads_advance [OF assms])
  then have "reads ((s_advance 1 s)\<lparr>ss_stack := tl fs\<rparr>) t (tl fs) False" "ss_stack (s_advance 1 s) = fs"
    by (auto simp: reads_def)
  then show ?thesis
    using reads_complete by (simp add: close_container_def Let_def a_done_def)
qed

definition returns :: "sstate iteration \<Rightarrow> astep \<Rightarrow> bool" where
  "returns it a \<longleftrightarrow> (\<exists>r. it = Return r \<and> matches r a)"

lemma key_step_reads:
  assumes "reads st r (f # fs) False"
  shows "returns (key_step cf ph st) (a_key cf (ph = ObjectKeyOrEnd) r (f # fs))"
  unfolding key_step_def
proof (rule reads_dispatch [OF assms, where P = "\<lambda>x. returns x (a_key cf (ph = ObjectKeyOrEnd) r (f # fs))"], goal_cases)
  case (1 s)
  then show ?case by (simp add: a_key_def returns_def)
next
  case (2 s c w t)
  have g: "good s" "ss_err s = None" "rest s = c # t" using 2(1) by (auto simp: reads_def)
  have ne: "window s \<noteq> []" using 2(2) by simp
  have str: "matches (s_bind (parse_string_token cf s) (\<lambda>x st. SOk (MapKey x) (set_phase ObjectColon st)))
      (case string_outcome (sc_strict_utf8 cf) (c # t) of (Inl _, n) \<Rightarrow> AFail
        | (Inr x, n) \<Rightarrow> AEvent (MapKey x) (drop n (c # t)) ((hd (f # fs))\<lparr>fr_phase := ObjectColon\<rparr> # tl (f # fs)) False)"
  proof -
    obtain res n where o: "string_outcome (sc_strict_utf8 cf) (c # t) = (res, n)" by fastforce
    have "case res of Inl _ \<Rightarrow> (\<exists>s'. parse_string_token cf s = SFail s' \<and> ss_err s' \<noteq> None)
      | Inr a \<Rightarrow> (\<exists>s'. parse_string_token cf s = SOk a s' \<and> reads s' (drop n (c # t)) (f # fs) False)"
      using reads_acts [OF 2(1) parse_string_token_good [OF g(1,2) ne token_content_inside], of cf] g(3) o by (cases res) simp_all
    then show ?thesis using o reads_set_phase by (cases res) (auto split: prod.split)
  qed
  show ?case
    using str close_container_reads [OF 2(1,2)] 2(3)
    by (cases "c = 0x22") (auto simp: a_key_def returns_def)
qed

lemma next_loop_Return: "next_iteration cf st = Return r \<Longrightarrow> next_loop cf st = r"
  by (simp add: next_loop.simps)

lemma next_loop_Continue: "next_iteration cf st = Continue st' \<Longrightarrow> next_loop cf st = next_loop cf st'"
  by (subst next_loop.simps) simp

lemma iteration_phase:
  assumes "reads st r (f # fs) False"
  shows "next_iteration cf st = (case fr_phase f of
      ObjectKeyOrEnd \<Rightarrow> key_step cf ObjectKeyOrEnd st
    | ObjectKey \<Rightarrow> key_step cf ObjectKey st
    | ObjectColon \<Rightarrow> colon_step cf st
    | ObjectValue \<Rightarrow> Return (expect_value cf False st)
    | ObjectCommaOrEnd \<Rightarrow> object_comma_step cf st
    | ArrayValueOrEnd \<Rightarrow> array_first_step cf st
    | ArrayValue \<Rightarrow> Return (expect_value cf False st)
    | ArrayCommaOrEnd \<Rightarrow> array_comma_step cf st)"
  using assms by (simp add: next_iteration_def reads_def)

lemma next_value:
  assumes "reads st r (f # fs) False" "fr_phase f = ObjectValue \<or> fr_phase f = ArrayValue"
  shows "matches (next_loop cf st) (a_value cf r (f # fs))"
proof -
  have "next_loop cf st = expect_value cf False st"
    using assms(2) by (intro next_loop_Return) (auto simp: iteration_phase [OF assms(1)])
  then show ?thesis using expect_value_reads [OF assms(1)] by simp
qed

lemma next_key:
  assumes "reads st r (f # fs) False" "fr_phase f = ObjectKeyOrEnd \<or> fr_phase f = ObjectKey"
  shows "matches (next_loop cf st) (a_key cf (fr_phase f = ObjectKeyOrEnd) r (f # fs))"
proof -
  have "returns (next_iteration cf st) (a_key cf (fr_phase f = ObjectKeyOrEnd) r (f # fs))"
    using assms(2) key_step_reads [OF assms(1), of cf ObjectKeyOrEnd] key_step_reads [OF assms(1), of cf ObjectKey]
    by (auto simp: iteration_phase [OF assms(1)])
  then show ?thesis by (auto simp: returns_def next_loop_Return)
qed

lemma resume_reads:
  assumes "reads s (c # t) (f # fs) False" "window s = c # w"
  shows "reads (set_phase ph (s_advance 1 s)) t (f\<lparr>fr_phase := ph\<rparr> # fs) False"
  by (rule reads_set_phase [OF reads_advance [OF assms]])

text \<open>A step returns, or resumes the loop in a state from which the outcome is known.\<close>

definition leads :: "sconf \<Rightarrow> sstate iteration \<Rightarrow> astep \<Rightarrow> bool" where
  "leads cf it a \<longleftrightarrow> (case it of Return r \<Rightarrow> matches r a | Continue st \<Rightarrow> matches (next_loop cf st) a)"

lemma leads_simps [simp]:
  "leads cf (Return r) a \<longleftrightarrow> matches r a" "leads cf (Continue st) a \<longleftrightarrow> matches (next_loop cf st) a"
  by (simp_all add: leads_def)

lemma leads_next: "leads cf (next_iteration cf st) a \<Longrightarrow> matches (next_loop cf st) a"
  by (cases "next_iteration cf st") (auto simp: next_loop_Return next_loop_Continue)

lemma value_step_reads: "reads st r (f # fs) False \<Longrightarrow> matches (expect_value cf b st) (a_value cf r (f # fs))"
  by (rule expect_value_reads)

lemma colon_step_reads:
  assumes "reads st r (f # fs) False" "fr_phase f = ObjectColon"
  shows "leads cf (colon_step cf st) (a_next cf r (f # fs) False)"
  unfolding colon_step_alt
  by (rule reads_dispatch [OF assms(1)])
    (use next_value [OF resume_reads] in \<open>auto simp: a_next_def assms(2)\<close>)

lemma comma_step_reads:
  assumes "reads st r (f # fs) False"
  shows "fr_phase f = ObjectCommaOrEnd \<Longrightarrow> leads cf (object_comma_step cf st) (a_next cf r (f # fs) False)"
    "fr_phase f = ArrayCommaOrEnd \<Longrightarrow> leads cf (array_comma_step cf st) (a_next cf r (f # fs) False)"
    "fr_phase f = ArrayValueOrEnd \<Longrightarrow> leads cf (array_first_step cf st) (a_next cf r (f # fs) False)"
proof -
  show "leads cf (object_comma_step cf st) (a_next cf r (f # fs) False)" if "fr_phase f = ObjectCommaOrEnd"
    unfolding object_comma_step_def
    by (rule reads_dispatch [OF assms])
      (use next_key [OF resume_reads, of _ _ _ f fs _ ObjectKey cf] close_container_reads [of _ _ _ "f # fs"] that in \<open>auto simp: a_next_def\<close>)
  show "leads cf (array_comma_step cf st) (a_next cf r (f # fs) False)" if "fr_phase f = ArrayCommaOrEnd"
    unfolding array_comma_step_def
    by (rule reads_dispatch [OF assms])
      (use next_value [OF resume_reads, of _ _ _ f fs _ ArrayValue cf] close_container_reads [of _ _ _ "f # fs"] that in \<open>auto simp: a_next_def\<close>)
  show "leads cf (array_first_step cf st) (a_next cf r (f # fs) False)" if "fr_phase f = ArrayValueOrEnd"
    unfolding array_first_step_def
    by (rule reads_dispatch [OF assms])
      (use close_container_reads [of _ _ _ "f # fs"] that in \<open>auto simp: a_next_def value_dispatch\<close>)
qed

lemma next_event_reads:
  assumes "reads st r fs dn" "dn \<longrightarrow> fs = []"
  shows "matches (next_loop cf st) (a_next cf r fs dn)"
proof (cases dn)
  case True
  then have st: "reads st r [] True" and fs: "fs = []" using assms by auto
  have it: "next_iteration cf st = root_done_step cf st" using st by (simp add: next_iteration_def reads_def)
  show ?thesis
  proof (cases "sc_mode cf")
    case SingleRoot
    have "returns (root_done_step cf st) (a_next cf r fs dn)"
      unfolding root_done_single [OF SingleRoot]
      by (rule reads_dispatch [OF st]) (auto simp: returns_def a_next_def True SingleRoot reads_def)
    then show ?thesis using it by (auto simp: returns_def next_loop_Return)
  next
    case MultiValue
    obtain ok s where s: "ensure cf 1 st = (ok, s)" by (cases "ensure cf 1 st")
    have g: "good st" "ss_err st = None" "rest st = r" using st by (auto simp: reads_def)
    note e = ensure_settled [OF g(1,2) s]
    have rs: "reads s r [] True" using e(1) st by (auto simp: moved_def reads_def)
    have ok: "ok \<longleftrightarrow> r \<noteq> []" using e(2) g(3) by (cases r) auto
    have hd: "hd (window s) = hd r" if ok using e(3) [OF that] g(3) by (metis hd_take zero_less_one)
    show ?thesis
    proof (cases "ok \<and> is_whitespace (hd r)")
      case False
      then have "returns (root_done_step cf st) (a_next cf r fs dn)"
        using rs ok hd by (auto simp: root_done_multi [OF MultiValue] s [unfolded One_nat_def] returns_def a_next_def True MultiValue reads_def)
      then show ?thesis using it by (auto simp: returns_def next_loop_Return)
    next
      case ok': True
      have eq: "root_done_step cf st = (let s = skip_ws cf s in if ss_err s \<noteq> None then Return (SFail s)
          else case window s of [] \<Rightarrow> Return (SFail (s\<lparr>ss_finished := True\<rparr>)) | c # _ \<Rightarrow> Continue (s\<lparr>ss_root_done := False\<rparr>))"
        using ok' hd by (simp add: root_done_multi [OF MultiValue] s [unfolded One_nat_def])
      have "returns (root_done_step cf st) (a_next cf r fs dn) \<or>
        (\<exists>s'. root_done_step cf st = Continue s' \<and> reads s' (skipped r) [] False \<and> window s' \<noteq> [] \<and> skipped r \<noteq> [])"
        unfolding eq
        by (rule reads_dispatch [OF rs]) (use ok' ok in \<open>auto simp: returns_def a_next_def True MultiValue reads_def\<close>)
      then show ?thesis
      proof
        assume "returns (root_done_step cf st) (a_next cf r fs dn)"
        then show ?thesis using it by (auto simp: returns_def next_loop_Return)
      next
        assume "\<exists>s'. root_done_step cf st = Continue s' \<and> reads s' (skipped r) [] False \<and> window s' \<noteq> [] \<and> skipped r \<noteq> []"
        then obtain s' where s': "root_done_step cf st = Continue s'" "reads s' (skipped r) [] False" "skipped r \<noteq> []" by blast
        have sk: "skipped (skipped r) = skipped r"
          using ws_run_stop [of r] s'(3) by (cases "skipped r") (auto simp: skipped_def)
        have it2: "next_iteration cf s' = root_step cf s'" using s'(2) by (simp add: next_iteration_def reads_def)
        have "returns (root_step cf s') (a_value cf (skipped r) [])"
          unfolding root_step_alt if_P [OF MultiValue]
          by (rule reads_dispatch [OF s'(2)])
            (use s'(3) sk in \<open>auto simp: returns_def value_dispatch\<close>)
        then have "matches (next_loop cf s') (a_value cf (skipped r) [])" using it2 by (auto simp: returns_def next_loop_Return)
        moreover have "a_value cf (skipped r) [] = a_value cf r []" using sk by (simp add: a_value_def)
        moreover have "a_next cf r fs dn = a_value cf r []" using ok' ok s'(3) by (simp add: a_next_def True MultiValue fs)
        ultimately show ?thesis using it s'(1) next_loop_Continue by simp
      qed
    qed
  qed
next
  case False
  then have st: "reads st r fs False" using assms by simp
  show ?thesis
  proof (cases fs)
    case Nil
    have it: "next_iteration cf st = root_step cf st" using st Nil by (simp add: next_iteration_def reads_def)
    have "leads cf (root_step cf st) (a_next cf r fs dn)"
    proof (cases "sc_mode cf = MultiValue")
      case True
      show ?thesis
        unfolding root_step_alt if_P [OF True]
        by (rule reads_dispatch [OF st])
          (use False Nil True in \<open>auto simp: a_next_def value_dispatch, auto simp: reads_def\<close>)
    next
      case single: False
      then show ?thesis using expect_value_reads [OF st] False Nil by (simp add: root_step_alt a_next_def)
    qed
    then show ?thesis using it leads_next by simp
  next
    case (Cons f fs')
    note st' = st [unfolded Cons]
    have "leads cf (next_iteration cf st) (a_next cf r (f # fs') False)"
      using colon_step_reads [OF st'] comma_step_reads [OF st'] expect_value_reads [OF st']
        next_key [OF st', of cf] key_step_reads [OF st', of cf ObjectKeyOrEnd] key_step_reads [OF st', of cf ObjectKey]
      by (cases "fr_phase f") (auto simp: iteration_phase [OF st'] returns_def a_next_def)
    then show ?thesis using leads_next Cons False by simp
  qed
qed

section \<open>Clean runs\<close>

inductive a_clean :: "sconf \<Rightarrow> bytes \<Rightarrow> frame list \<Rightarrow> bool \<Rightarrow> event list \<Rightarrow> bool" for cf where
  stop: "a_next cf r fs dn = AEnd \<Longrightarrow> a_clean cf r fs dn []"
| event: "a_next cf r fs dn = AEvent e r' fs' dn' \<Longrightarrow> a_clean cf r' fs' dn' es \<Longrightarrow> a_clean cf r fs dn (e # es)"

definition runs :: "sconf \<Rightarrow> astep \<Rightarrow> event list \<Rightarrow> bool" where
  "runs cf a es \<longleftrightarrow> (case a of
      AEnd \<Rightarrow> es = []
    | AEvent e r fs dn \<Rightarrow> (\<exists>es'. es = e # es' \<and> a_clean cf r fs dn es')
    | AFail \<Rightarrow> False)"

lemma runs_simps [simp]:
  "runs cf AEnd es \<longleftrightarrow> es = []" "\<not> runs cf AFail es"
  "runs cf (AEvent e r fs dn) es \<longleftrightarrow> (\<exists>es'. es = e # es' \<and> a_clean cf r fs dn es')"
  by (auto simp: runs_def)

lemma a_clean_iff: "a_clean cf r fs dn es \<longleftrightarrow> runs cf (a_next cf r fs dn) es"
  by (subst a_clean.simps) (auto simp: runs_def split: astep.splits)

text \<open>The run goes on after the value at the top is complete.\<close>

definition a_resume :: "sconf \<Rightarrow> bytes \<Rightarrow> frame list \<Rightarrow> event list \<Rightarrow> bool" where
  "a_resume cf r fs es \<longleftrightarrow> a_clean cf r (fst (done_stack fs)) (snd (done_stack fs)) es"

lemma runs_done [simp]: "runs cf (a_done e r fs) es \<longleftrightarrow> (\<exists>es'. es = e # es' \<and> a_resume cf r fs es')"
  by (simp add: a_done_def a_resume_def)

lemma done_stack_root: "snd (done_stack fs) \<longrightarrow> fst (done_stack fs) = []"
  by (auto simp: done_stack_def split: list.splits)

lemma a_next_stack:
  assumes "a_next cf r fs dn = AEvent e r' fs' dn'"
  shows "dn' \<longrightarrow> fs' = []"
proof -
  have tok: "a_token out x gs = AEvent e r' fs' dn' \<Longrightarrow> dn' \<longrightarrow> fs' = []" for out x gs
    using done_stack_root by (auto simp: a_token_def a_done_def split: sum.splits)
  have val: "a_value cf x gs = AEvent e r' fs' dn' \<Longrightarrow> dn' \<longrightarrow> fs' = []" for x gs
    by (auto simp: a_value_def a_open_def split: list.splits if_splits prod.splits dest: tok)
  have key: "a_key cf b x gs = AEvent e r' fs' dn' \<Longrightarrow> dn' \<longrightarrow> fs' = []" for b x gs
    using done_stack_root by (auto simp: a_key_def a_done_def split: list.splits if_splits prod.splits sum.splits)
  have fin: "a_done ev x gs = AEvent e r' fs' dn' \<Longrightarrow> dn' \<longrightarrow> fs' = []" for ev x gs
    using done_stack_root by (auto simp: a_done_def)
  show ?thesis
    using assms unfolding a_next_def
    by (auto split: if_splits stream_mode.splits list.splits phase.splits dest: val key fin)
qed

lemma drain_clean:
  assumes "reads st r fs dn" "dn \<longrightarrow> fs = []"
  shows "(\<exists>s. drain cf st = (es, Some s) \<and> ss_err s = None) \<longleftrightarrow> a_clean cf r fs dn es"
  using assms
proof (induction cf st arbitrary: r fs dn es rule: drain.induct)
  case (1 cf st)
  have ev: "next_event cf st = next_loop cf st" using 1(2) by (simp add: next_event_def reads_def)
  have m: "matches (next_event cf st) (a_next cf r fs dn)"
    unfolding ev by (rule next_event_reads [OF 1(2,3)])
  show ?case
  proof (cases "a_next cf r fs dn")
    case (AEvent e r' fs' dn')
    then obtain s where s: "next_event cf st = SOk e s" "reads s r' fs' dn'"
      using m by (auto simp: matches_def)
    have ih: "(\<exists>s'. drain cf s = (es', Some s') \<and> ss_err s' = None) \<longleftrightarrow> a_clean cf r' fs' dn' es'" for es'
      by (rule 1(1) [OF s(1,2) a_next_stack [OF AEvent]])
    have "drain cf st = (e # fst (drain cf s), snd (drain cf s))"
      using s(1) by (subst drain.simps) (simp add: case_prod_unfold Let_def)
    then have "(\<exists>s. drain cf st = (es, Some s) \<and> ss_err s = None) \<longleftrightarrow>
        (\<exists>es'. es = e # es' \<and> (\<exists>s'. drain cf s = (es', Some s') \<and> ss_err s' = None))"
      by (cases "drain cf s") auto
    then show ?thesis using ih AEvent by (simp add: a_clean_iff [of cf r fs dn])
  next
    case AEnd
    then obtain s where "next_event cf st = SFail s" "ss_err s = None" using m by (auto simp: matches_def)
    then show ?thesis using AEnd by (subst drain.simps) (auto simp: a_clean_iff [of cf r fs dn])
  next
    case AFail
    then obtain s where "next_event cf st = SFail s" "ss_err s \<noteq> None" using m by (auto simp: matches_def)
    then show ?thesis using AFail by (subst drain.simps) (auto simp: a_clean_iff [of cf r fs dn])
  qed
qed

definition bom_stripped :: "sconf \<Rightarrow> bytes \<Rightarrow> bytes" where
  "bom_stripped cf t = (if sc_strip_bom cf \<and> take 3 t = [0xEF, 0xBB, 0xBF] then drop 3 t else t)"

lemma start_reads: "reads (skip_start_bom cf (reader_start t False)) (bom_stripped cf t) [] False"
proof (cases "sc_strip_bom cf")
  case False
  then show ?thesis
    by (simp add: skip_start_bom_def reader_start_def bom_stripped_def reads_def good_def rest_def window_def)
next
  case True
  let ?s = "(reader_start t False)\<lparr>ss_start_checked := True\<rparr>"
  have s: "reads ?s t [] False" by (simp add: reader_start_def reads_def good_def rest_def window_def)
  obtain ok s2 where e: "ensure cf 3 ?s = (ok, s2)" by (cases "ensure cf 3 ?s")
  have g: "good ?s" "ss_err ?s = None" "rest ?s = t" using s by (auto simp: reads_def)
  note en = ensure_settled [OF g(1,2) e, unfolded g(3)]
  have rs: "reads s2 t [] False" using en(1) s by (auto simp: moved_def reads_def)
  have eq: "skip_start_bom cf (reader_start t False) =
      (if \<not> ok then s2 else if take 3 (window s2) = [0xEF, 0xBB, 0xBF] then s_advance 3 s2 else s2)"
    using True e by (simp add: skip_start_bom_def reader_start_def)
  show ?thesis
  proof (cases "ok \<and> take 3 (window s2) = [0xEF, 0xBB, 0xBF]")
    case bom: True
    then have "3 \<le> length (window s2)" by (cases "window s2"; cases "tl (window s2)"; cases "tl (tl (window s2))") auto
    then have "moved 3 s2 (s_advance 3 s2)" using rs by (intro moved_advance) (auto simp: reads_def)
    then have "reads (s_advance 3 s2) (drop 3 t) [] False" using rs by (auto simp: moved_def reads_def)
    then show ?thesis using bom en(3) True eq by (simp add: bom_stripped_def)
  next
    case False
    have "bom_stripped cf t = t"
    proof (cases ok)
      case True
      then show ?thesis using False en(3) by (simp add: bom_stripped_def)
    next
      case no: False
      then have "length t < 3" using en(2) by simp
      then have "take 3 t \<noteq> [0xEF, 0xBB, 0xBF]" by (metis length_Cons list.size(3) nat_neq_iff numeral_3_eq_3 take_all_iff less_imp_le)
      then show ?thesis by (simp add: bom_stripped_def)
    qed
    then show ?thesis using False eq rs by auto
  qed
qed

lemma drain_start:
  "(\<exists>s. drain cf (reader_start t False) = (es, Some s) \<and> ss_err s = None) \<longleftrightarrow>
    a_clean cf (bom_stripped cf t) [] False es"
proof -
  let ?s = "skip_start_bom cf (reader_start t False)"
  have r: "reads ?s (bom_stripped cf t) [] False" by (rule start_reads)
  have "next_event cf (reader_start t False) = next_event cf ?s"
    using r by (simp add: next_event_def reads_def) (simp add: reader_start_def)
  then have "drain cf (reader_start t False) = drain cf ?s" by (subst (1 2) drain.simps) simp
  then show ?thesis using drain_clean [OF r] by simp
qed

end
