(* ===== verification/StreamEvents.thy ===== *)
theory StreamEvents
  imports StreamGrammar
begin

text \<open>
  What a sequence of events means: a consumer that builds values from events, and the two
  directions of the equivalence between clean runs and the grammar.
\<close>

section \<open>Building values from events\<close>

datatype partial = PArr "jvalue list" | PObj jentries "bytes option"

text \<open>A complete value goes into the innermost open container, or is a result.\<close>

fun place :: "jvalue \<Rightarrow> partial list \<Rightarrow> (partial list \<times> jvalue option) option" where
  "place v [] = Some ([], Some v)"
| "place v (PArr xs # s) = Some (PArr (xs @ [v]) # s, None)"
| "place v (PObj ob (Some k) # s) = Some (PObj (obj_put ob k v) None # s, None)"
| "place v (PObj ob None # s) = None"

definition take_event :: "event \<Rightarrow> partial list \<Rightarrow> (partial list \<times> jvalue option) option" where
  "take_event e s = (case e of
      BeginObject \<Rightarrow> Some (PObj [] None # s, None)
    | BeginArray \<Rightarrow> Some (PArr [] # s, None)
    | MapKey k \<Rightarrow> (case s of PObj ob None # s' \<Rightarrow> Some (PObj ob (Some k) # s', None) | _ \<Rightarrow> None)
    | EndObject \<Rightarrow> (case s of PObj ob None # s' \<Rightarrow> place (JObj ob) s' | _ \<Rightarrow> None)
    | EndArray \<Rightarrow> (case s of PArr xs # s' \<Rightarrow> place (JArr xs) s' | _ \<Rightarrow> None)
    | EvNull \<Rightarrow> place JNull s
    | EvBoolean b \<Rightarrow> place (JBool b) s
    | EvInteger i \<Rightarrow> place (JInt i) s
    | EvDouble d \<Rightarrow> place (JFloat d) s
    | EvString t \<Rightarrow> place (JStr t) s)"

text \<open>The values that a sequence of events spells.\<close>

fun assemble :: "partial list \<Rightarrow> event list \<Rightarrow> jvalue list option" where
  "assemble s [] = (if s = [] then Some [] else None)"
| "assemble s (e # es) = (case take_event e s of
      None \<Rightarrow> None
    | Some (s', None) \<Rightarrow> assemble s' es
    | Some (s', Some v) \<Rightarrow> map_option (Cons v) (assemble s' es))"

definition resume :: "(partial list \<times> jvalue option) option \<Rightarrow> event list \<Rightarrow> jvalue list option" where
  "resume r es = (case r of
      None \<Rightarrow> None
    | Some (s', None) \<Rightarrow> assemble s' es
    | Some (s', Some v) \<Rightarrow> map_option (Cons v) (assemble s' es))"

lemma assemble_Cons: "assemble s (e # es) = resume (take_event e s) es"
  by (simp add: resume_def)

lemma resume_step [simp]: "resume (Some (s, None)) es = assemble s es"
  by (simp add: resume_def)

declare assemble.simps(2) [simp del]

text \<open>Events that spell one value, wherever they stand.\<close>

definition spells :: "event list \<Rightarrow> jvalue \<Rightarrow> bool" where
  "spells es v \<longleftrightarrow> (\<forall>s es'. assemble s (es @ es') = resume (place v s) es')"

lemma spells_scalar:
  "spells [EvNull] JNull" "spells [EvBoolean b] (JBool b)" "spells [EvInteger i] (JInt i)"
  "spells [EvDouble d] (JFloat d)" "spells [EvString t] (JStr t)"
  by (simp_all add: spells_def assemble_Cons take_event_def)

lemma spells_number: "token_value neg ip fr ex = Some v \<Longrightarrow> spells [number_event v] v"
  by (auto simp: token_value_def number_event_def spells_scalar split: if_splits option.splits)

definition spells_elements :: "event list \<Rightarrow> jvalue list \<Rightarrow> bool" where
  "spells_elements es vs \<longleftrightarrow>
     (\<forall>xs s es'. assemble (PArr xs # s) (es @ es') = resume (place (JArr (xs @ vs)) s) es')"

definition spells_members :: "event list \<Rightarrow> jentries \<Rightarrow> jentries \<Rightarrow> bool" where
  "spells_members es acc ob \<longleftrightarrow>
     (\<forall>s es'. assemble (PObj acc None # s) (es @ es') = resume (place (JObj ob) s) es')"

lemma spells_array:
  "spells_elements es vs \<Longrightarrow> spells (BeginArray # es) (JArr vs)"
  by (simp add: spells_def spells_elements_def assemble_Cons take_event_def)

lemma spells_object:
  "spells_members es [] ob \<Longrightarrow> spells (BeginObject # es) (JObj ob)"
  by (simp add: spells_def spells_members_def assemble_Cons take_event_def)

lemma spells_elements_end: "spells_elements [EndArray] []"
  by (simp add: spells_elements_def assemble_Cons take_event_def)

lemma spells_elements_Cons: "spells es v \<Longrightarrow> spells_elements es' vs \<Longrightarrow> spells_elements (es @ es') (v # vs)"
  by (simp add: spells_def spells_elements_def)

lemma spells_members_end: "spells_members [EndObject] ob ob"
  by (simp add: spells_members_def assemble_Cons take_event_def)

lemma spells_members_Cons:
  "spells es v \<Longrightarrow> spells_members es' (obj_put acc k v) ob \<Longrightarrow> spells_members (MapKey k # es @ es') acc ob"
  by (simp add: spells_def spells_members_def assemble_Cons [of _ "MapKey k"] take_event_def)

section \<open>Every text of the grammar gives a clean run\<close>

definition event_rules :: "sconf \<Rightarrow> rules" where
  "event_rules cf = \<lparr>r_strict_utf8 = sc_strict_utf8 cf, r_strict_dup = False\<rparr>"

lemma event_rules_sel [simp]:
  "r_strict_utf8 (event_rules cf) = sc_strict_utf8 cf" "r_strict_dup (event_rules cf) = False"
  by (simp_all add: event_rules_def)

definition fits :: "sconf \<Rightarrow> frame list \<Rightarrow> nat \<Rightarrow> bool" where
  "fits cf fs d \<longleftrightarrow> sc_max_depth cf = 0 \<or> length fs + d \<le> sc_max_depth cf"

lemma skipped_ws: "ws w \<Longrightarrow> \<not> is_whitespace c \<Longrightarrow> skipped (w @ c # r) = c # r"
  by (simp add: skipped_def ws_def ws_run_append)

lemma skipped_all: "ws w \<Longrightarrow> skipped w = []"
  using ws_run_append [of w "[]"] by (simp add: skipped_def ws_def)

lemma string_outcome_complete:
  assumes "quoted (event_rules cf) kt k"
  shows "string_outcome (sc_strict_utf8 cf) (kt @ r) = (Inr k, length kt)"
proof -
  obtain raw where raw: "kt = 0x22 # raw @ [0x22]" "string_text raw k" "sc_strict_utf8 cf \<longrightarrow> utf8_valid raw"
    using assms by (auto simp: quoted_def)
  show ?thesis
    using raw_text_complete [OF raw(2), of "[]" False None r] token_content_complete [OF raw(2,3)] raw(1)
    by (simp add: string_outcome_def)
qed

lemma quoted_hd: "quoted R kt k \<Longrightarrow> \<exists>t. kt = 0x22 # t"
  by (auto simp: quoted_def)

lemma literal_outcome_complete:
  assumes "follow r" "literal_of c = c # l"
  shows "literal_outcome c ((c # l) @ r) = (Inr (literal_event c), length (c # l))"
proof -
  have "event_after_literal (hd r)" if "r \<noteq> []"
    using assms(1) that by (auto simp: follow_def event_after_literal_def is_whitespace_def)
  then show ?thesis unfolding literal_outcome_def assms(2) by (cases "r = []") (simp_all add: Let_def match_literal_take)
qed

lemma number_outcome_complete:
  assumes "number_parts neg ip fr ex t" "token_value neg ip fr ex = Some v" "follow r" "length t < 2 ^ 32"
  shows "number_outcome (t @ r) = (Inr (number_event v), length t)"
  using scan_number_complete [OF assms(1) follow_stop [OF assms(3)]] classify_number_parts [OF assms(1,4), where 'a = bytes] assms(2)
  by (simp add: number_outcome_def)

text \<open>The value at the cursor, behind white space.\<close>

lemma a_value_at:
  assumes "ws w" "\<not> is_whitespace c"
  shows "a_value cf (w @ c # t) fs = a_value cf (c # t) fs"
  using a_value_skipped [OF skipped_ws [OF assms]] by simp

lemma a_value_start:
  "a_value cf (0x7B # t) fs = a_open cf FObject t fs" "a_value cf (0x5B # t) fs = a_open cf FArray t fs"
  by (simp_all add: a_value_def skipped_def is_whitespace_def)


lemma a_value_scalar:
  assumes "value_text R d t v" "R = event_rules cf" "follow r" "length t < 2 ^ 32"
    "\<not> (\<exists>xs. v = JArr xs)" "\<not> (\<exists>ob. v = JObj ob)"
  shows "\<exists>e. spells [e] v \<and> a_value cf (t @ r) fs = a_done e r fs"
  using assms(1)
proof (cases rule: value_text.cases)
  case null
  have "literal_outcome 0x6E (lit ''null'' @ r) = (Inr EvNull, 4)"
    using literal_outcome_complete [OF assms(3), of "0x6E"] by (simp add: literal_of_def lit_def literal_event_def)
  then show ?thesis
    using null spells_scalar(1) by (intro exI [of _ EvNull]) (simp add: a_value_def skipped_def is_whitespace_def lit_def a_token_def)
next
  case true
  have "literal_outcome 0x74 (lit ''true'' @ r) = (Inr (EvBoolean True), 4)"
    using literal_outcome_complete [OF assms(3), of "0x74"] by (simp add: literal_of_def lit_def literal_event_def)
  then show ?thesis
    using true spells_scalar(2) by (intro exI [of _ "EvBoolean True"]) (simp add: a_value_def skipped_def is_whitespace_def lit_def a_token_def)
next
  case false
  have "literal_outcome 0x66 (lit ''false'' @ r) = (Inr (EvBoolean False), 5)"
    using literal_outcome_complete [OF assms(3), of "0x66"] by (simp add: literal_of_def lit_def literal_event_def)
  then show ?thesis
    using false spells_scalar(2) by (intro exI [of _ "EvBoolean False"]) (simp add: a_value_def skipped_def is_whitespace_def lit_def a_token_def)
next
  case (number neg ip fr ex)
  obtain c u where c: "t = c # u" "number_start c" using number_parts_hd [OF number(1)] by blast
  have ne: "c \<noteq> 0x7B \<and> c \<noteq> 0x5B \<and> c \<noteq> 0x22 \<and> c \<noteq> 0x74 \<and> c \<noteq> 0x66 \<and> c \<noteq> 0x6E"
    using c(2) by (auto simp: number_start_def is_dec_digit_def)
  have "number_outcome (t @ r) = (Inr (number_event v), length t)"
    by (rule number_outcome_complete [OF number(1,2) assms(3,4)])
  then have "a_value cf (t @ r) fs = a_done (number_event v) r fs"
    using c ne start_not_ws(1) [OF c(2)] number_lead_iff [of c]
    by (simp add: a_value_def skipped_def a_token_def)
  then show ?thesis using spells_number [OF number(2)] by blast
next
  case (string s)
  obtain u where u: "t = 0x22 # u" using quoted_hd [OF string(2)] by blast
  have "string_outcome (sc_strict_utf8 cf) (t @ r) = (Inr s, length t)"
    using string_outcome_complete string(2) assms(2) by simp
  then have "a_value cf (t @ r) fs = a_done (EvString s) r fs"
    by (simp add: u a_value_def skipped_def a_token_def is_whitespace_def)
  then show ?thesis using spells_scalar(5) string(1) by blast
qed (use assms(5,6) in auto)

text \<open>The three statements of the induction.\<close>

definition clean_value :: "sconf \<Rightarrow> nat \<Rightarrow> bytes \<Rightarrow> jvalue \<Rightarrow> bool" where
  "clean_value cf d t v \<longleftrightarrow> (\<forall>w r fs es'. ws w \<longrightarrow> follow r \<longrightarrow> fits cf fs d \<longrightarrow> length t < 2 ^ 32 \<longrightarrow> a_resume cf r fs es' \<longrightarrow>
     (\<exists>es. spells es v \<and> runs cf (a_value cf (w @ t @ r) fs) (es @ es')))"

definition clean_elements :: "sconf \<Rightarrow> nat \<Rightarrow> bytes \<Rightarrow> jvalue list \<Rightarrow> bool" where
  "clean_elements cf d t vs \<longleftrightarrow> (\<forall>r f fs es'. fr_kind f = FArray \<longrightarrow> fits cf (f # fs) d \<longrightarrow> length t < 2 ^ 32 \<longrightarrow>
     a_resume cf r fs es' \<longrightarrow>
     (\<exists>es. spells_elements es vs \<and> runs cf (a_value cf (t @ 0x5D # r) (f # fs)) (es @ es')))"

definition clean_members :: "sconf \<Rightarrow> nat \<Rightarrow> jentries \<Rightarrow> bytes \<Rightarrow> jentries \<Rightarrow> bool" where
  "clean_members cf d acc t ob \<longleftrightarrow> (\<forall>b r f fs es'. fr_kind f = FObject \<longrightarrow> fits cf (f # fs) d \<longrightarrow> length t < 2 ^ 32 \<longrightarrow>
     a_resume cf r fs es' \<longrightarrow>
     (\<exists>es. spells_members es acc ob \<and> runs cf (a_key cf b (t @ 0x7D # r) (f # fs)) (es @ es')))"

lemma resume_array:
  assumes "fr_kind f = FArray" "ws w"
  shows "a_resume cf r fs es' \<Longrightarrow> a_resume cf (w @ 0x5D # r) (f # fs) (EndArray # es')"
    and "runs cf (a_value cf r (f\<lparr>fr_phase := ArrayValue\<rparr> # fs)) es \<Longrightarrow> a_resume cf (w @ 0x2C # r) (f # fs) es"
  using assms skipped_ws [OF assms(2), of "0x5D" r] skipped_ws [OF assms(2), of "0x2C" r] closer_not_ws
  by (simp_all add: a_resume_def [of cf _ "f # fs"] done_stack_def a_clean_iff [of cf _ "_ # fs"] a_next_def)

lemma resume_object:
  assumes "fr_kind f = FObject" "ws w"
  shows "a_resume cf r fs es' \<Longrightarrow> a_resume cf (w @ 0x7D # r) (f # fs) (EndObject # es')"
    and "runs cf (a_key cf False r (f\<lparr>fr_phase := ObjectKey\<rparr> # fs)) es \<Longrightarrow> a_resume cf (w @ 0x2C # r) (f # fs) es"
  using assms skipped_ws [OF assms(2), of "0x7D" r] skipped_ws [OF assms(2), of "0x2C" r] closer_not_ws
  by (simp_all add: a_resume_def [of cf _ "f # fs"] done_stack_def a_clean_iff [of cf _ "_ # fs"] a_next_def)

lemma a_key_at:
  assumes "ws w1" "quoted (event_rules cf) kt k" "ws w2"
    "runs cf (a_value cf r (f\<lparr>fr_phase := ObjectValue\<rparr> # fs)) es"
  shows "runs cf (a_key cf b (w1 @ kt @ w2 @ 0x3A # r) (f # fs)) (MapKey k # es)"
proof -
  obtain u where u: "kt = 0x22 # u" using quoted_hd [OF assms(2)] by blast
  have "skipped (w1 @ kt @ w2 @ 0x3A # r) = kt @ w2 @ 0x3A # r"
    using skipped_ws [OF assms(1), of "0x22"] closer_not_ws u by simp
  moreover have "string_outcome (sc_strict_utf8 cf) (kt @ w2 @ 0x3A # r) = (Inr k, length kt)"
    by (rule string_outcome_complete [OF assms(2)])
  ultimately have "a_key cf b (w1 @ kt @ w2 @ 0x3A # r) (f # fs) =
      AEvent (MapKey k) (w2 @ 0x3A # r) (f\<lparr>fr_phase := ObjectColon\<rparr> # fs) False"
    by (simp add: a_key_def u)
  moreover have "a_next cf (w2 @ 0x3A # r) (f\<lparr>fr_phase := ObjectColon\<rparr> # fs) False = a_value cf r (f\<lparr>fr_phase := ObjectValue\<rparr> # fs)"
    using skipped_ws [OF assms(3), of "0x3A" r] closer_not_ws by (simp add: a_next_def)
  ultimately show ?thesis using assms(4) by (simp add: a_clean_iff)
qed

lemma open_fits: "fits cf fs (Suc d) \<Longrightarrow> fits cf (f # fs) d"
  by (simp add: fits_def)

lemma runs_open:
  assumes "fits cf fs (Suc d)"
  shows "runs cf (a_open cf k r fs) es \<longleftrightarrow>
    (\<exists>es'. es = (if k = FObject then BeginObject else BeginArray) # es' \<and>
      runs cf (a_next cf r (\<lparr>fr_kind = k, fr_phase = (if k = FObject then ObjectKeyOrEnd else ArrayValueOrEnd)\<rparr> # fs) False) es')"
  using assms by (auto simp: a_open_def fits_def a_clean_iff)

lemma array_first:
  "a_next cf r (\<lparr>fr_kind = FArray, fr_phase = ArrayValueOrEnd\<rparr> # fs) False = (case skipped r of
     [] \<Rightarrow> AFail | c # t \<Rightarrow> if c = 0x5D then a_done EndArray t fs else a_value cf r (\<lparr>fr_kind = FArray, fr_phase = ArrayValueOrEnd\<rparr> # fs))"
  by (simp add: a_next_def)

lemma object_first:
  "a_next cf r (\<lparr>fr_kind = FObject, fr_phase = ObjectKeyOrEnd\<rparr> # fs) False =
     a_key cf True r (\<lparr>fr_kind = FObject, fr_phase = ObjectKeyOrEnd\<rparr> # fs)"
  by (simp add: a_next_def)

lemma value_not_closer: "value_text R d t v \<Longrightarrow> \<exists>c u. t = c # u \<and> c \<noteq> 0x5D \<and> \<not> is_whitespace c"
  by (erule value_text.cases)
    (auto simp: lit_def quoted_def is_whitespace_def number_start_def is_dec_digit_def dest!: number_parts_hd)

lemma elements_first:
  assumes "elements_text R d t vs"
  shows "\<exists>w c u. t = w @ c # u \<and> ws w \<and> c \<noteq> 0x5D \<and> \<not> is_whitespace c"
  using assms by (cases rule: elements_text.cases) (metis value_not_closer append_Cons append_assoc)+

lemma clean_complete:
  "value_text R d t v \<Longrightarrow> R = event_rules cf \<longrightarrow> clean_value cf d t v"
  "elements_text R d t vs \<Longrightarrow> R = event_rules cf \<longrightarrow> clean_elements cf d t vs"
  "members_text R d acc t ob \<Longrightarrow> R = event_rules cf \<longrightarrow> clean_members cf d acc t ob"
proof (induction rule: value_text_elements_text_members_text.inducts)
  have scalar: "R = event_rules cf \<longrightarrow> clean_value cf d t v"
    if v: "value_text R d t v" and nc: "\<not> (\<exists>xs. v = JArr xs)" "\<not> (\<exists>ob. v = JObj ob)" for d t v
    unfolding clean_value_def
  proof (intro impI allI)
    fix w r fs es'
    assume a: "R = event_rules cf" "ws w" "follow r" "fits cf fs d" "length t < 2 ^ 32" "a_resume cf r fs es'"
    obtain e where e: "spells [e] v" "a_value cf (t @ r) fs = a_done e r fs"
      using a_value_scalar [OF v a(1,3,5) nc] by blast
    obtain c u where c: "t = c # u" "\<not> is_whitespace c" using value_text_hd [OF v] by blast
    have "a_value cf (w @ t @ r) fs = a_done e r fs" using a_value_at [OF a(2) c(2)] c(1) e(2) by simp
    then show "\<exists>es. spells es v \<and> runs cf (a_value cf (w @ t @ r) fs) (es @ es')"
      using e(1) a(6) by (intro exI [of _ "[e]"]) simp
  qed
  { case (null d) show ?case by (rule scalar) (auto intro: value_text_elements_text_members_text.null) }
  { case (true d) show ?case by (rule scalar) (auto intro: value_text_elements_text_members_text.true) }
  { case (false d) show ?case by (rule scalar) (auto intro: value_text_elements_text_members_text.false) }
  { case (number neg ip fr ex t v d)
    then show ?case
      by (intro scalar) (auto intro: value_text_elements_text_members_text.number simp: token_value_def split: if_splits option.splits) }
  { case (string t s d) then show ?case by (intro scalar) (auto intro: value_text_elements_text_members_text.string) }
  { case (empty_array w0 d)
    show ?case unfolding clean_value_def
    proof (intro impI allI)
      fix w r fs es'
      assume a: "R = event_rules cf" "ws w" "follow r" "fits cf fs (Suc d)" "a_resume cf r fs es'"
      have "runs cf (a_value cf (w @ (0x5B # w0 @ [0x5D]) @ r) fs) ([BeginArray, EndArray] @ es')"
        using a_value_at [OF a(2), of "0x5B"] closer_not_ws skipped_ws [OF empty_array, of "0x5D" r] a(5)
        by (simp add: a_value_start runs_open [OF a(4)] array_first)
      then show "\<exists>es. spells es (JArr []) \<and> runs cf (a_value cf (w @ (0x5B # w0 @ [0x5D]) @ r) fs) (es @ es')"
        using spells_array [OF spells_elements_end] by blast
    qed }
  { case (empty_object w0 d)
    show ?case unfolding clean_value_def
    proof (intro impI allI)
      fix w r fs es'
      assume a: "R = event_rules cf" "ws w" "follow r" "fits cf fs (Suc d)" "a_resume cf r fs es'"
      have "runs cf (a_value cf (w @ (0x7B # w0 @ [0x7D]) @ r) fs) ([BeginObject, EndObject] @ es')"
        using a_value_at [OF a(2), of "0x7B"] closer_not_ws skipped_ws [OF empty_object, of "0x7D" r] a(5)
        by (simp add: a_value_start runs_open [OF a(4)] object_first a_key_def)
      then show "\<exists>es. spells es (JObj []) \<and> runs cf (a_value cf (w @ (0x7B # w0 @ [0x7D]) @ r) fs) (es @ es')"
        using spells_object [OF spells_members_end] by blast
    qed }
  { case (array d t vs)
    show ?case unfolding clean_value_def
    proof (intro impI allI)
      fix w r fs es'
      assume a: "R = event_rules cf" "ws w" "follow r" "fits cf fs (Suc d)" "length (0x5B # t @ [0x5D]) < 2 ^ 32" "a_resume cf r fs es'"
      let ?f = "\<lparr>fr_kind = FArray, fr_phase = ArrayValueOrEnd\<rparr>"
      obtain es where es: "spells_elements es vs" "runs cf (a_value cf (t @ 0x5D # r) (?f # fs)) (es @ es')"
        using array.IH(2) [rule_format, OF a(1), unfolded clean_elements_def, rule_format, of ?f fs r es'] open_fits [OF a(4)] a(5,6) by auto
      obtain w1 c u where c: "t = w1 @ c # u" "ws w1" "c \<noteq> 0x5D" "\<not> is_whitespace c" using elements_first [OF array.IH(1)] by blast
      have "runs cf (a_value cf (w @ (0x5B # t @ [0x5D]) @ r) fs) ((BeginArray # es) @ es')"
        using a_value_at [OF a(2), of "0x5B"] closer_not_ws skipped_ws [OF c(2,4), of "u @ 0x5D # r"] es(2) c(1,3)
        by (simp add: a_value_start runs_open [OF a(4)] array_first)
      then show "\<exists>es. spells es (JArr vs) \<and> runs cf (a_value cf (w @ (0x5B # t @ [0x5D]) @ r) fs) (es @ es')"
        using spells_array [OF es(1)] by blast
    qed }
  { case (object d t ob)
    show ?case unfolding clean_value_def
    proof (intro impI allI)
      fix w r fs es'
      assume a: "R = event_rules cf" "ws w" "follow r" "fits cf fs (Suc d)" "length (0x7B # t @ [0x7D]) < 2 ^ 32" "a_resume cf r fs es'"
      let ?f = "\<lparr>fr_kind = FObject, fr_phase = ObjectKeyOrEnd\<rparr>"
      obtain es where es: "spells_members es [] ob" "runs cf (a_key cf True (t @ 0x7D # r) (?f # fs)) (es @ es')"
        using object.IH(2) [rule_format, OF a(1), unfolded clean_members_def, rule_format, of ?f fs r es' True] open_fits [OF a(4)] a(5,6) by auto
      have "runs cf (a_value cf (w @ (0x7B # t @ [0x7D]) @ r) fs) ((BeginObject # es) @ es')"
        using a_value_at [OF a(2), of "0x7B"] closer_not_ws es(2)
        by (simp add: a_value_start runs_open [OF a(4)] object_first)
      then show "\<exists>es. spells es (JObj ob) \<and> runs cf (a_value cf (w @ (0x7B # t @ [0x7D]) @ r) fs) (es @ es')"
        using spells_object [OF es(1)] by blast
    qed }
  { case (last_element w1 d t v w2)
    show ?case unfolding clean_elements_def
    proof (intro impI allI)
      fix r f fs es'
      assume a: "R = event_rules cf" "fr_kind f = FArray" "fits cf (f # fs) d" "length (w1 @ t @ w2) < 2 ^ 32" "a_resume cf r fs es'"
      note fin = resume_array(1) [OF a(2) last_element.hyps(2) a(5)]
      obtain es where es: "spells es v" "runs cf (a_value cf (w1 @ t @ w2 @ 0x5D # r) (f # fs)) (es @ EndArray # es')"
        using last_element.IH(2) [rule_format, OF a(1), unfolded clean_value_def, rule_format,
            OF last_element.hyps(1) follow_ws [OF last_element.hyps(2)] a(3) _ fin] a(4) by auto
      then show "\<exists>es. spells_elements es [v] \<and> runs cf (a_value cf ((w1 @ t @ w2) @ 0x5D # r) (f # fs)) (es @ es')"
        using spells_elements_Cons [OF es(1) spells_elements_end] by (intro exI [of _ "es @ [EndArray]"]) simp
    qed }
  { case (more_elements w1 d t v w2 r2 vs)
    show ?case unfolding clean_elements_def
    proof (intro impI allI)
      fix r f fs es'
      assume a: "R = event_rules cf" "fr_kind f = FArray" "fits cf (f # fs) d" "length (w1 @ t @ w2 @ 0x2C # r2) < 2 ^ 32" "a_resume cf r fs es'"
      let ?f = "f\<lparr>fr_phase := ArrayValue\<rparr>"
      obtain es2 where es2: "spells_elements es2 vs" "runs cf (a_value cf (r2 @ 0x5D # r) (?f # fs)) (es2 @ es')"
        using more_elements.IH(4) [rule_format, OF a(1), unfolded clean_elements_def, rule_format, of ?f fs r es'] a(2-5)
        by (auto simp: fits_def)
      note go = resume_array(2) [OF a(2) more_elements.hyps(2) es2(2)]
      obtain es where es: "spells es v" "runs cf (a_value cf (w1 @ t @ w2 @ 0x2C # r2 @ 0x5D # r) (f # fs)) (es @ es2 @ es')"
        using more_elements.IH(2) [rule_format, OF a(1), unfolded clean_value_def, rule_format,
            OF more_elements.hyps(1) follow_ws [OF more_elements.hyps(2)] a(3) _ go] a(4) by auto
      then show "\<exists>es. spells_elements es (v # vs) \<and> runs cf (a_value cf ((w1 @ t @ w2 @ 0x2C # r2) @ 0x5D # r) (f # fs)) (es @ es')"
        using spells_elements_Cons [OF es(1) es2(1)] by (intro exI [of _ "es @ es2"]) simp
    qed }
  { case (last_member w1 kt k acc w2 w3 d t v w4)
    show ?case unfolding clean_members_def
    proof (intro impI allI)
      fix b r f fs es'
      assume a: "R = event_rules cf" "fr_kind f = FObject" "fits cf (f # fs) d"
        "length (w1 @ kt @ w2 @ 0x3A # w3 @ t @ w4) < 2 ^ 32" "a_resume cf r fs es'"
      let ?f = "f\<lparr>fr_phase := ObjectValue\<rparr>"
      have fin: "a_resume cf (w4 @ 0x7D # r) (?f # fs) (EndObject # es')"
        by (rule resume_object(1)) (use a(2,5) last_member.hyps in auto)
      obtain es where es: "spells es v" "runs cf (a_value cf (w3 @ t @ w4 @ 0x7D # r) (?f # fs)) (es @ EndObject # es')"
        using last_member.IH(4) [rule_format, OF a(1), unfolded clean_value_def, rule_format,
            OF last_member.hyps(3) follow_ws [OF last_member.hyps(4)] _ _ fin] a(3,4) by (auto simp: fits_def)
      have "runs cf (a_key cf b (w1 @ kt @ w2 @ 0x3A # w3 @ t @ w4 @ 0x7D # r) (f # fs)) (MapKey k # es @ EndObject # es')"
        by (rule a_key_at [OF last_member.hyps(1) last_member.IH(1) [unfolded a(1)] last_member.hyps(2) es(2)])
      then show "\<exists>es. spells_members es acc (obj_put acc k v) \<and>
          runs cf (a_key cf b ((w1 @ kt @ w2 @ 0x3A # w3 @ t @ w4) @ 0x7D # r) (f # fs)) (es @ es')"
        using spells_members_Cons [OF es(1) spells_members_end] by (intro exI [of _ "MapKey k # es @ [EndObject]"]) simp
    qed }
  { case (more_members w1 kt k acc w2 w3 d t v w4 r2 ob)
    show ?case unfolding clean_members_def
    proof (intro impI allI)
      fix b r f fs es'
      assume a: "R = event_rules cf" "fr_kind f = FObject" "fits cf (f # fs) d"
        "length (w1 @ kt @ w2 @ 0x3A # w3 @ t @ w4 @ 0x2C # r2) < 2 ^ 32" "a_resume cf r fs es'"
      let ?f = "f\<lparr>fr_phase := ObjectValue\<rparr>" and ?g = "f\<lparr>fr_phase := ObjectKey\<rparr>"
      obtain es2 where es2: "spells_members es2 (obj_put acc k v) ob" "runs cf (a_key cf False (r2 @ 0x7D # r) (?g # fs)) (es2 @ es')"
        using more_members.IH(6) [rule_format, OF a(1), unfolded clean_members_def, rule_format, of ?g fs r es' False] a(2-5)
        by (auto simp: fits_def)
      have go: "a_resume cf (w4 @ 0x2C # r2 @ 0x7D # r) (?f # fs) (es2 @ es')"
        by (rule resume_object(2)) (use a(2) es2(2) more_members.hyps in auto)
      obtain es where es: "spells es v" "runs cf (a_value cf (w3 @ t @ w4 @ 0x2C # r2 @ 0x7D # r) (?f # fs)) (es @ es2 @ es')"
        using more_members.IH(4) [rule_format, OF a(1), unfolded clean_value_def, rule_format,
            OF more_members.hyps(3) follow_ws [OF more_members.hyps(4)] _ _ go] a(3,4) by (auto simp: fits_def)
      have "runs cf (a_key cf b (w1 @ kt @ w2 @ 0x3A # w3 @ t @ w4 @ 0x2C # r2 @ 0x7D # r) (f # fs)) (MapKey k # es @ es2 @ es')"
        by (rule a_key_at [OF more_members.hyps(1) more_members.IH(1) [unfolded a(1)] more_members.hyps(2) es(2)])
      then show "\<exists>es. spells_members es acc ob \<and>
          runs cf (a_key cf b ((w1 @ kt @ w2 @ 0x3A # w3 @ t @ w4 @ 0x2C # r2) @ 0x7D # r) (f # fs)) (es @ es')"
        using spells_members_Cons [OF es(1) es2(1)] by (intro exI [of _ "MapKey k # es @ es2"]) simp
    qed }
qed

section \<open>Every clean run has read a text of the grammar\<close>

lemma skipped_split:
  obtains w where "r = w @ skipped r" "ws w"
  using that [of "take (ws_run r) r"] ws_run_take [of r] by (simp add: skipped_def ws_def)

lemma string_outcome_sound:
  assumes "string_outcome (sc_strict_utf8 cf) (0x22 # t) = (Inr s, n)"
  shows "\<exists>kt r. 0x22 # t = kt @ r \<and> n = length kt \<and> quoted (event_rules cf) kt s"
proof -
  obtain raw m where raw: "raw_text [] False False None t = Some (raw, m)"
    using assms by (auto simp: string_outcome_def split: option.splits)
  then have tc: "token_content (sc_strict_utf8 cf) raw = ContentOk s" "n = Suc m"
    using assms token_content_inside [of "sc_strict_utf8 cf" raw]
    by (auto simp: string_outcome_def split: content.splits)
  obtain u r where u: "t = u @ 0x22 # r" "m = Suc (length u)" "string_text u s" "sc_strict_utf8 cf \<longrightarrow> utf8_valid u"
    using token_content_sound [OF raw tc(1)] by blast
  then show ?thesis using tc(2) by (intro exI [of _ "0x22 # u @ [0x22]"] exI [of _ r]) (auto simp: quoted_def)
qed

lemma literal_outcome_sound:
  assumes "literal_outcome c u = (Inr e, n)"
  shows "u = literal_of c @ drop n u \<and> e = literal_event c \<and> n = length (literal_of c)"
proof -
  have "take (length (literal_of c)) u = literal_of c" "e = literal_event c" "n = length (literal_of c)"
    using assms by (auto simp: literal_outcome_def Let_def match_literal_take split: if_splits)
  then show ?thesis by (metis append_take_drop_id)
qed

lemma number_outcome_sound:
  assumes "number_outcome u = (Inr e, n)" "length u < 2 ^ 32"
  shows "\<exists>neg ip fr ex v. number_parts neg ip fr ex (take n u) \<and> token_value neg ip fr ex = Some v \<and> e = number_event v"
proof -
  obtain sc v where sc: "scan_number u = (NumOk, n, sc)" "classify_number (take n u) sc = Inr v" "e = number_event v"
    using assms(1) by (auto simp: number_outcome_def split: prod.splits sum.splits if_splits)
  have "n \<le> length u" by (rule scan_number_le [OF sc(1)])
  then have "n < 2 ^ 32" using assms(2) by simp
  moreover have "number_rfc u = Inr (n, v)" using sc(1,2) by (simp add: number_rfc_def)
  ultimately show ?thesis using number_rfc_sound sc(3) by blast
qed

definition sound_value :: "sconf \<Rightarrow> nat \<Rightarrow> bool" where
  "sound_value cf n \<longleftrightarrow> (\<forall>r fs es. length r \<le> n \<longrightarrow> n < 2 ^ 32 \<longrightarrow> fits cf fs 0 \<longrightarrow> runs cf (a_value cf r fs) es \<longrightarrow>
     (\<exists>w t v r' es1 es2 d. r = w @ t @ r' \<and> ws w \<and> value_text (event_rules cf) d t v \<and> fits cf fs d \<and>
        es = es1 @ es2 \<and> spells es1 v \<and> a_resume cf r' fs es2))"

definition sound_elements :: "sconf \<Rightarrow> nat \<Rightarrow> bool" where
  "sound_elements cf n \<longleftrightarrow> (\<forall>r f fs es. length r \<le> n \<longrightarrow> n < 2 ^ 32 \<longrightarrow> fr_kind f = FArray \<longrightarrow> fits cf (f # fs) 0 \<longrightarrow>
     runs cf (a_value cf r (f # fs)) es \<longrightarrow>
     (\<exists>t vs r' es1 es2 d. r = t @ 0x5D # r' \<and> elements_text (event_rules cf) d t vs \<and> fits cf (f # fs) d \<and>
        es = es1 @ es2 \<and> spells_elements es1 vs \<and> a_resume cf r' fs es2))"

definition sound_members :: "sconf \<Rightarrow> nat \<Rightarrow> bool" where
  "sound_members cf n \<longleftrightarrow> (\<forall>r f fs acc es. length r \<le> n \<longrightarrow> n < 2 ^ 32 \<longrightarrow> fr_kind f = FObject \<longrightarrow> fits cf (f # fs) 0 \<longrightarrow>
     runs cf (a_key cf False r (f # fs)) es \<longrightarrow>
     (\<exists>t ob r' es1 es2 d. r = t @ 0x7D # r' \<and> members_text (event_rules cf) d acc t ob \<and> fits cf (f # fs) d \<and>
        es = es1 @ es2 \<and> spells_members es1 acc ob \<and> a_resume cf r' fs es2))"

lemma fits_max: "fits cf fs d \<Longrightarrow> fits cf fs e \<Longrightarrow> fits cf fs (max d e)"
  by (auto simp: fits_def)

lemma runs_open_inv:
  assumes "runs cf (a_open cf k r fs) es"
  shows "fits cf fs 1 \<and> (\<exists>es'. es = (if k = FObject then BeginObject else BeginArray) # es' \<and>
      runs cf (a_next cf r (\<lparr>fr_kind = k, fr_phase = (if k = FObject then ObjectKeyOrEnd else ArrayValueOrEnd)\<rparr> # fs) False) es')"
proof -
  have "fits cf fs (Suc 0)" using assms by (auto simp: a_open_def fits_def split: if_splits)
  then show ?thesis using assms runs_open [of cf fs 0] by auto
qed

lemma a_token_runs:
  assumes "runs cf (a_token out r fs) es"
  shows "\<exists>e es'. fst out = Inr e \<and> es = e # es' \<and> a_resume cf (drop (snd out) r) fs es'"
  using assms by (auto simp: a_token_def split: sum.splits)

lemma sound_scalar:
  assumes "skipped r = c # t" "c \<noteq> 0x7B" "c \<noteq> 0x5B" "runs cf (a_value cf r fs) es" "length r < 2 ^ 32"
  shows "\<exists>u v r' e es2. c # t = u @ r' \<and> value_text (event_rules cf) 0 u v \<and> es = [e] @ es2 \<and> spells [e] v \<and> a_resume cf r' fs es2"
proof -
  have len: "length (c # t) < 2 ^ 32"
    using assms(5) assms(1) [symmetric] by (simp add: skipped_def)
  consider (str) "c = 0x22" | (lit) "c = 0x74 \<or> c = 0x66 \<or> c = 0x6E" | (num) "c \<noteq> 0x22" "\<not> (c = 0x74 \<or> c = 0x66 \<or> c = 0x6E)"
    by blast
  then show ?thesis
  proof cases
    case str
    obtain res n where o: "string_outcome (sc_strict_utf8 cf) (c # t) = (res, n)" by fastforce
    have "runs cf (a_token (map_sum id EvString res, n) (c # t) fs) es"
      using assms(1-4) str o by (simp add: a_value_def)
    then obtain s es' where s: "res = Inr s" "es = EvString s # es'" "a_resume cf (drop n (c # t)) fs es'"
      using a_token_runs by (cases res) fastforce+
    obtain kt x where k: "c # t = kt @ x" "n = length kt" "quoted (event_rules cf) kt s"
      using string_outcome_sound [of cf t s n] o s(1) str by auto
    then show ?thesis
      using s spells_scalar(5) by (intro exI [of _ kt] exI [of _ "JStr s"] exI [of _ x] exI [of _ "EvString s"] exI [of _ es'])
        (auto intro: value_text_elements_text_members_text.string)
  next
    case lit
    have "runs cf (a_token (literal_outcome c (c # t)) (c # t) fs) es"
      using assms(1-4) lit by (auto simp: a_value_def)
    then obtain e es' where e: "fst (literal_outcome c (c # t)) = Inr e" "es = e # es'"
      "a_resume cf (drop (snd (literal_outcome c (c # t))) (c # t)) fs es'" using a_token_runs by blast
    obtain n where n: "literal_outcome c (c # t) = (Inr e, n)" using e(1) by (cases "literal_outcome c (c # t)") auto
    note l = literal_outcome_sound [OF n]
    have r': "c # t = literal_of c @ drop n (c # t)" "a_resume cf (drop n (c # t)) fs es'" using l e(3) n by auto
    have "\<exists>v. value_text (event_rules cf) 0 (literal_of c) v \<and> spells [e] v"
      using lit l spells_scalar(1,2)
      by (auto simp: literal_of_def literal_event_def intro: value_text_elements_text_members_text.intros)
    then show ?thesis using r' e(2) by (metis append_Cons append_Nil)
  next
    case num
    have nl: "number_lead c" using assms(1-4) num by (auto simp: a_value_def split: if_splits)
    then have "runs cf (a_token (number_outcome (c # t)) (c # t) fs) es"
      using assms(1-4) num by (auto simp: a_value_def)
    then obtain e es' where e: "fst (number_outcome (c # t)) = Inr e" "es = e # es'"
      "a_resume cf (drop (snd (number_outcome (c # t))) (c # t)) fs es'" using a_token_runs by blast
    obtain n where n: "number_outcome (c # t) = (Inr e, n)" using e(1) by (cases "number_outcome (c # t)") auto
    obtain neg ip fr ex v where p: "number_parts neg ip fr ex (take n (c # t))" "token_value neg ip fr ex = Some v" "e = number_event v"
      using number_outcome_sound [OF n len] by blast
    show ?thesis
      using p e n spells_number [OF p(2)]
      by (intro exI [of _ "take n (c # t)"] exI [of _ v] exI [of _ "drop n (c # t)"] exI [of _ e] exI [of _ es'])
        (auto intro: value_text_elements_text_members_text.number)
  qed
qed

text \<open>Behind a complete element or member.\<close>

lemma after_element:
  assumes "a_resume cf r (f # fs) es" "fr_kind f = FArray"
  shows "(\<exists>w r' es'. r = w @ 0x5D # r' \<and> ws w \<and> es = EndArray # es' \<and> a_resume cf r' fs es') \<or>
    (\<exists>w r'. r = w @ 0x2C # r' \<and> ws w \<and> runs cf (a_value cf r' (f\<lparr>fr_phase := ArrayValue\<rparr> # fs)) es)"
proof -
  obtain w where w: "r = w @ skipped r" "ws w" by (rule skipped_split)
  have "runs cf (a_next cf r (f\<lparr>fr_phase := ArrayCommaOrEnd\<rparr> # fs) False) es"
    using assms by (simp add: a_resume_def done_stack_def a_clean_iff)
  then show ?thesis
    using w by (cases "skipped r") (auto simp: a_next_def split: if_splits)
qed

lemma after_member:
  assumes "a_resume cf r (f # fs) es" "fr_kind f = FObject"
  shows "(\<exists>w r' es'. r = w @ 0x7D # r' \<and> ws w \<and> es = EndObject # es' \<and> a_resume cf r' fs es') \<or>
    (\<exists>w r'. r = w @ 0x2C # r' \<and> ws w \<and> runs cf (a_key cf False r' (f\<lparr>fr_phase := ObjectKey\<rparr> # fs)) es)"
proof -
  obtain w where w: "r = w @ skipped r" "ws w" by (rule skipped_split)
  have "runs cf (a_next cf r (f\<lparr>fr_phase := ObjectCommaOrEnd\<rparr> # fs) False) es"
    using assms by (simp add: a_resume_def done_stack_def a_clean_iff)
  then show ?thesis
    using w by (cases "skipped r") (auto simp: a_next_def split: if_splits)
qed

lemma key_sound:
  assumes "runs cf (a_key cf False r (f # fs)) es"
  shows "\<exists>w1 kt k w2 r' es'. r = w1 @ kt @ w2 @ 0x3A # r' \<and> ws w1 \<and> quoted (event_rules cf) kt k \<and> ws w2 \<and>
    es = MapKey k # es' \<and> runs cf (a_value cf r' (f\<lparr>fr_phase := ObjectValue\<rparr> # fs)) es'"
proof -
  obtain w1 where w1: "r = w1 @ skipped r" "ws w1" by (rule skipped_split)
  obtain t where t: "skipped r = 0x22 # t" using assms by (auto simp: a_key_def split: list.splits if_splits)
  obtain res n where o: "string_outcome (sc_strict_utf8 cf) (0x22 # t) = (res, n)" by fastforce
  then obtain k es' where k: "res = Inr k" "es = MapKey k # es'"
    "a_clean cf (drop n (0x22 # t)) (f\<lparr>fr_phase := ObjectColon\<rparr> # fs) False es'"
    using assms t by (cases res) (auto simp: a_key_def)
  obtain kt x where kt: "0x22 # t = kt @ x" "n = length kt" "quoted (event_rules cf) kt k"
    using string_outcome_sound [of cf t k n] o k(1) by blast
  have dx: "drop n (0x22 # t) = x" using kt(1,2) by simp
  obtain w2 where w2: "x = w2 @ skipped x" "ws w2" by (rule skipped_split)
  have "runs cf (a_next cf x (f\<lparr>fr_phase := ObjectColon\<rparr> # fs) False) es'" using k(3) unfolding dx by (simp add: a_clean_iff)
  then obtain r' where r': "skipped x = 0x3A # r'" "runs cf (a_value cf r' (f\<lparr>fr_phase := ObjectValue\<rparr> # fs)) es'"
    by (cases "skipped x") (auto simp: a_next_def split: if_splits)
  have "r = w1 @ kt @ w2 @ 0x3A # r'" using w1(1) t kt(1) w2(1) r'(1) by simp
  then show ?thesis using w1(2) kt(3) w2(2) k(2) r'(2) by blast
qed

lemma sound_step:
  assumes "\<And>m. m < n \<Longrightarrow> sound_value cf m \<and> sound_elements cf m \<and> sound_members cf m"
  shows "sound_value cf n"
  unfolding sound_value_def
proof (intro allI impI)
  fix r fs es assume r: "length r \<le> n" "n < 2 ^ 32" "fits cf fs 0" "runs cf (a_value cf r fs) es"
  obtain w where w: "r = w @ skipped r" "ws w" by (rule skipped_split)
  obtain c t where c: "skipped r = c # t" using r(4) by (cases "skipped r") (auto simp: a_value_def)
  have lt: "length t < n" using arg_cong [OF w(1), of length] c r(1) by simp
  have lt2: "length t < 2 ^ 32" using lt r(2) by simp
  note ih = assms [OF lt]
  consider (obj) "c = 0x7B" | (arr) "c = 0x5B" | (sc) "c \<noteq> 0x7B" "c \<noteq> 0x5B" by blast
  then show "\<exists>w t v r' es1 es2 d. r = w @ t @ r' \<and> ws w \<and> value_text (event_rules cf) d t v \<and> fits cf fs d \<and>
      es = es1 @ es2 \<and> spells es1 v \<and> a_resume cf r' fs es2"
  proof cases
    case sc
    have "length r < 2 ^ 32" using r(1,2) by simp
    from sound_scalar [OF c sc r(4) this] obtain u v r' e es2 where
      u: "c # t = u @ r'" "value_text (event_rules cf) 0 u v" "es = [e] @ es2" "spells [e] v" "a_resume cf r' fs es2" by blast
    then show ?thesis using w c r(3) by (intro exI [of _ w] exI [of _ u] exI [of _ v] exI [of _ r'] exI [of _ "[e]"] exI [of _ es2] exI [of _ 0]) simp
  next
    case arr
    let ?f = "\<lparr>fr_kind = FArray, fr_phase = ArrayValueOrEnd\<rparr>"
    have "runs cf (a_open cf FArray t fs) es" using r(4) c arr by (simp add: a_value_def)
    then obtain es' where es': "fits cf fs 1" "es = BeginArray # es'" "runs cf (a_next cf t (?f # fs) False) es'"
      using runs_open_inv [of cf FArray t fs es] by auto
    obtain w2 where w2: "t = w2 @ skipped t" "ws w2" by (rule skipped_split)
    show ?thesis
    proof (cases "\<exists>r'. skipped t = 0x5D # r'")
      case True
      then obtain r' where r': "skipped t = 0x5D # r'" by blast
      then obtain es2 where e2: "es' = EndArray # es2" "a_resume cf r' fs es2" using es'(3) by (auto simp: array_first)
      have "value_text (event_rules cf) (Suc 0) (0x5B # w2 @ [0x5D]) (JArr [])"
        using w2(2) by (rule value_text_elements_text_members_text.empty_array)
      moreover have "r = w @ (0x5B # w2 @ [0x5D]) @ r'" using w(1) c arr w2(1) r' by simp
      ultimately show ?thesis
        using w(2) es'(1,2) e2 spells_array [OF spells_elements_end]
        by (intro exI [of _ w] exI [of _ "0x5B # w2 @ [0x5D]"] exI [of _ "JArr []"] exI [of _ r'] exI [of _ "[BeginArray, EndArray]"] exI [of _ es2] exI [of _ "Suc 0"]) simp
    next
      case False
      then have "runs cf (a_value cf t (?f # fs)) es'" using es'(3) by (auto simp: array_first split: list.splits if_splits)
      moreover have "fits cf (?f # fs) 0" using es'(1) by (simp add: fits_def)
      ultimately obtain t1 vs r' es1 es2 d where e: "t = t1 @ 0x5D # r'" "elements_text (event_rules cf) d t1 vs" "fits cf (?f # fs) d"
          "es' = es1 @ es2" "spells_elements es1 vs" "a_resume cf r' fs es2"
        using ih lt2 unfolding sound_elements_def by (metis frame.select_convs(1) order_refl)
      have "value_text (event_rules cf) (Suc d) (0x5B # t1 @ [0x5D]) (JArr vs)"
        using e(2) by (rule value_text_elements_text_members_text.array)
      moreover have "r = w @ (0x5B # t1 @ [0x5D]) @ r'" using w(1) c arr e(1) by simp
      moreover have "fits cf fs (Suc d)" using e(3) by (simp add: fits_def)
      ultimately show ?thesis
        using w(2) es'(2) e(4,6) spells_array [OF e(5)]
        by (intro exI [of _ w] exI [of _ "0x5B # t1 @ [0x5D]"] exI [of _ "JArr vs"] exI [of _ r'] exI [of _ "BeginArray # es1"] exI [of _ es2] exI [of _ "Suc d"]) simp
    qed
  next
    case obj
    let ?f = "\<lparr>fr_kind = FObject, fr_phase = ObjectKeyOrEnd\<rparr>"
    have "runs cf (a_open cf FObject t fs) es" using r(4) c obj by (simp add: a_value_def)
    then obtain es' where es': "fits cf fs 1" "es = BeginObject # es'" "runs cf (a_key cf True t (?f # fs)) es'"
      using runs_open_inv [of cf FObject t fs es] by (auto simp: object_first)
    obtain w2 where w2: "t = w2 @ skipped t" "ws w2" by (rule skipped_split)
    show ?thesis
    proof (cases "\<exists>r'. skipped t = 0x7D # r'")
      case True
      then obtain r' where r': "skipped t = 0x7D # r'" by blast
      then obtain es2 where e2: "es' = EndObject # es2" "a_resume cf r' fs es2" using es'(3) by (auto simp: a_key_def)
      have "value_text (event_rules cf) (Suc 0) (0x7B # w2 @ [0x7D]) (JObj [])"
        using w2(2) by (rule value_text_elements_text_members_text.empty_object)
      moreover have "r = w @ (0x7B # w2 @ [0x7D]) @ r'" using w(1) c obj w2(1) r' by simp
      ultimately show ?thesis
        using w(2) es'(1,2) e2 spells_object [OF spells_members_end]
        by (intro exI [of _ w] exI [of _ "0x7B # w2 @ [0x7D]"] exI [of _ "JObj []"] exI [of _ r'] exI [of _ "[BeginObject, EndObject]"] exI [of _ es2] exI [of _ "Suc 0"]) simp
    next
      case False
      then have "runs cf (a_key cf False t (?f # fs)) es'" using es'(3) by (cases "skipped t") (auto simp: a_key_def split: if_splits)
      moreover have "fits cf (?f # fs) 0" using es'(1) by (simp add: fits_def)
      ultimately obtain t1 ob r' es1 es2 d where e: "t = t1 @ 0x7D # r'" "members_text (event_rules cf) d [] t1 ob" "fits cf (?f # fs) d"
          "es' = es1 @ es2" "spells_members es1 [] ob" "a_resume cf r' fs es2"
        using ih lt2 unfolding sound_members_def by (metis frame.select_convs(1) order_refl)
      have "value_text (event_rules cf) (Suc d) (0x7B # t1 @ [0x7D]) (JObj ob)"
        using e(2) by (rule value_text_elements_text_members_text.object)
      moreover have "r = w @ (0x7B # t1 @ [0x7D]) @ r'" using w(1) c obj e(1) by simp
      moreover have "fits cf fs (Suc d)" using e(3) by (simp add: fits_def)
      ultimately show ?thesis
        using w(2) es'(2) e(4,6) spells_object [OF e(5)]
        by (intro exI [of _ w] exI [of _ "0x7B # t1 @ [0x7D]"] exI [of _ "JObj ob"] exI [of _ r'] exI [of _ "BeginObject # es1"] exI [of _ es2] exI [of _ "Suc d"]) simp
    qed
  qed
qed

lemma sound_elements_step:
  assumes "sound_value cf n" "\<And>m. m < n \<Longrightarrow> sound_elements cf m"
  shows "sound_elements cf n"
  unfolding sound_elements_def
proof (intro allI impI)
  fix r f fs es
  assume r: "length r \<le> n" "n < 2 ^ 32" "fr_kind f = FArray" "fits cf (f # fs) 0" "runs cf (a_value cf r (f # fs)) es"
  obtain w t v r' es1 es2 d where v: "r = w @ t @ r'" "ws w" "value_text (event_rules cf) d t v" "fits cf (f # fs) d"
      "es = es1 @ es2" "spells es1 v" "a_resume cf r' (f # fs) es2"
    using assms(1) r unfolding sound_value_def by meson
  from after_element [OF v(7) r(3)]
  show "\<exists>t vs r' es1 es2 d. r = t @ 0x5D # r' \<and> elements_text (event_rules cf) d t vs \<and> fits cf (f # fs) d \<and>
      es = es1 @ es2 \<and> spells_elements es1 vs \<and> a_resume cf r' fs es2"
  proof
    assume "\<exists>w r'' es'. r' = w @ 0x5D # r'' \<and> ws w \<and> es2 = EndArray # es' \<and> a_resume cf r'' fs es'"
    then obtain w2 r2 es3 where e: "r' = w2 @ 0x5D # r2" "ws w2" "es2 = EndArray # es3" "a_resume cf r2 fs es3" by blast
    have "elements_text (event_rules cf) d (w @ t @ w2) [v]" by (rule last_element [OF v(2,3) e(2)])
    then show ?thesis
      using v(1,4,5) e(1,3,4) spells_elements_Cons [OF v(6) spells_elements_end]
      by (intro exI [of _ "w @ t @ w2"] exI [of _ "[v]"] exI [of _ r2] exI [of _ "es1 @ [EndArray]"] exI [of _ es3] exI [of _ d]) simp
  next
    assume "\<exists>w r''. r' = w @ 0x2C # r'' \<and> ws w \<and> runs cf (a_value cf r'' (f\<lparr>fr_phase := ArrayValue\<rparr> # fs)) es2"
    then obtain w2 r2 where e: "r' = w2 @ 0x2C # r2" "ws w2" "runs cf (a_value cf r2 (f\<lparr>fr_phase := ArrayValue\<rparr> # fs)) es2" by blast
    have lt: "length r2 < n" "length r2 < 2 ^ 32" using r(1,2) v(1) e(1) by auto
    have k: "fr_kind (f\<lparr>fr_phase := ArrayValue\<rparr>) = FArray" "fits cf (f\<lparr>fr_phase := ArrayValue\<rparr> # fs) 0"
      using r(3,4) by (simp_all add: fits_def)
    obtain t2 vs r3 es3 es4 d2 where i: "r2 = t2 @ 0x5D # r3" "elements_text (event_rules cf) d2 t2 vs"
        "fits cf (f\<lparr>fr_phase := ArrayValue\<rparr> # fs) d2" "es2 = es3 @ es4" "spells_elements es3 vs" "a_resume cf r3 fs es4"
      using assms(2) [OF lt(1)] lt(2) k e(3) unfolding sound_elements_def by (meson order_refl)
    let ?d = "max d d2"
    have "elements_text (event_rules cf) ?d (w @ t @ w2 @ 0x2C # t2) (v # vs)"
      by (rule more_elements [OF v(2) _ e(2)]) (auto intro: value_mono [OF v(3)] elements_mono [OF i(2)])
    moreover have "fits cf (f # fs) ?d" using v(4) i(3) by (intro fits_max) (simp_all add: fits_def)
    ultimately show ?thesis
      using v(1,5) e(1) i(1,4,6) spells_elements_Cons [OF v(6) i(5)]
      by (intro exI [of _ "w @ t @ w2 @ 0x2C # t2"] exI [of _ "v # vs"] exI [of _ r3] exI [of _ "es1 @ es3"] exI [of _ es4] exI [of _ ?d]) simp
  qed
qed

lemma sound_members_step:
  assumes "\<And>m. m < n \<Longrightarrow> sound_value cf m" "\<And>m. m < n \<Longrightarrow> sound_members cf m"
  shows "sound_members cf n"
  unfolding sound_members_def
proof (intro allI impI)
  fix r f fs acc es
  assume r: "length r \<le> n" "n < 2 ^ 32" "fr_kind f = FObject" "fits cf (f # fs) 0" "runs cf (a_key cf False r (f # fs)) es"
  let ?f = "f\<lparr>fr_phase := ObjectValue\<rparr>" and ?g = "f\<lparr>fr_phase := ObjectKey\<rparr>"
  obtain w1 kt k w2 r0 es0 where k: "r = w1 @ kt @ w2 @ 0x3A # r0" "ws w1" "quoted (event_rules cf) kt k" "ws w2"
      "es = MapKey k # es0" "runs cf (a_value cf r0 (?f # fs)) es0"
    using key_sound [OF r(5)] by blast
  have lt0: "length r0 < n" "length r0 < 2 ^ 32" using r(1,2) k(1) by auto
  have kf: "fits cf (?f # fs) 0" "fits cf (?g # fs) 0" "fr_kind ?f = FObject" "fr_kind ?g = FObject"
    using r(3,4) by (simp_all add: fits_def)
  obtain w3 t v r' es1 es2 d where v: "r0 = w3 @ t @ r'" "ws w3" "value_text (event_rules cf) d t v" "fits cf (?f # fs) d"
      "es0 = es1 @ es2" "spells es1 v" "a_resume cf r' (?f # fs) es2"
    using assms(1) [OF lt0(1)] lt0(2) kf(1) k(6) unfolding sound_value_def by (meson order_refl)
  have ok: "member_ok (event_rules cf) acc k" by (simp add: member_ok_def)
  from after_member [OF v(7) kf(3)]
  show "\<exists>t ob r' es1 es2 d. r = t @ 0x7D # r' \<and> members_text (event_rules cf) d acc t ob \<and> fits cf (f # fs) d \<and>
      es = es1 @ es2 \<and> spells_members es1 acc ob \<and> a_resume cf r' fs es2"
  proof
    assume "\<exists>w r'' es'. r' = w @ 0x7D # r'' \<and> ws w \<and> es2 = EndObject # es' \<and> a_resume cf r'' fs es'"
    then obtain w4 r2 es3 where e: "r' = w4 @ 0x7D # r2" "ws w4" "es2 = EndObject # es3" "a_resume cf r2 fs es3" by blast
    have "members_text (event_rules cf) d acc (w1 @ kt @ w2 @ 0x3A # w3 @ t @ w4) (obj_put acc k v)"
      by (rule last_member [OF k(2,3) ok k(4) v(2,3) e(2)])
    moreover have "fits cf (f # fs) d" using v(4) by (simp add: fits_def)
    ultimately show ?thesis
      using k(1,5) v(1,5) e(1,3,4) spells_members_Cons [OF v(6) spells_members_end]
      by (intro exI [of _ "w1 @ kt @ w2 @ 0x3A # w3 @ t @ w4"] exI [of _ "obj_put acc k v"] exI [of _ r2]
          exI [of _ "MapKey k # es1 @ [EndObject]"] exI [of _ es3] exI [of _ d]) simp
  next
    assume "\<exists>w r''. r' = w @ 0x2C # r'' \<and> ws w \<and> runs cf (a_key cf False r'' (?f\<lparr>fr_phase := ObjectKey\<rparr> # fs)) es2"
    then obtain w4 r2 where e: "r' = w4 @ 0x2C # r2" "ws w4" "runs cf (a_key cf False r2 (?g # fs)) es2" by auto
    have lt: "length r2 < n" "length r2 < 2 ^ 32" using lt0 v(1) e(1) by auto
    obtain t2 ob r3 es3 es4 d2 where i: "r2 = t2 @ 0x7D # r3" "members_text (event_rules cf) d2 (obj_put acc k v) t2 ob"
        "fits cf (?g # fs) d2" "es2 = es3 @ es4" "spells_members es3 (obj_put acc k v) ob" "a_resume cf r3 fs es4"
      using assms(2) [OF lt(1)] lt(2) kf(2,4) e(3) unfolding sound_members_def by (meson order_refl)
    let ?d = "max d d2"
    have "members_text (event_rules cf) ?d acc (w1 @ kt @ w2 @ 0x3A # w3 @ t @ w4 @ 0x2C # t2) ob"
      by (rule more_members [OF k(2,3) ok k(4) v(2) _ e(2)]) (auto intro: value_mono [OF v(3)] members_mono [OF i(2)])
    moreover have "fits cf (f # fs) ?d" using v(4) i(3) by (intro fits_max) (simp_all add: fits_def)
    ultimately show ?thesis
      using k(1,5) v(1,5) e(1) i(1,4,6) spells_members_Cons [OF v(6) i(5)]
      by (intro exI [of _ "w1 @ kt @ w2 @ 0x3A # w3 @ t @ w4 @ 0x2C # t2"] exI [of _ ob] exI [of _ r3]
          exI [of _ "MapKey k # es1 @ es3"] exI [of _ es4] exI [of _ ?d]) simp
  qed
qed

lemma clean_sound: "sound_value cf n \<and> sound_elements cf n \<and> sound_members cf n"
proof (induction n rule: less_induct)
  case (less n)
  then show ?case using sound_step [of n cf] sound_elements_step [of cf n] sound_members_step [of n cf] by blast
qed

section \<open>A single root\<close>

lemma spells_one: "spells es v \<Longrightarrow> assemble [] es = Some vs \<longleftrightarrow> vs = [v]"
proof -
  assume "spells es v"
  then have "assemble [] (es @ []) = resume (place v []) []" unfolding spells_def by blast
  then show ?thesis by (auto simp: resume_def)
qed

lemma single_root_sound:
  assumes "sc_mode cf = SingleRoot" "length t < 2 ^ 32" "a_clean cf t [] False es"
  shows "\<exists>d v. fits cf [] d \<and> json_text (event_rules cf) d t v \<and> assemble [] es = Some [v]"
proof -
  have "runs cf (a_value cf t []) es" using assms(1,3) by (simp add: a_clean_iff a_next_def)
  moreover have "fits cf [] 0" by (simp add: fits_def)
  ultimately obtain w u v r es1 es2 d where v: "t = w @ u @ r" "ws w" "value_text (event_rules cf) d u v" "fits cf [] d"
      "es = es1 @ es2" "spells es1 v" "a_resume cf r [] es2"
    using clean_sound [of cf "length t"] assms(2) unfolding sound_value_def by (meson order_refl)
  obtain w2 where w2: "r = w2 @ skipped r" "ws w2" by (rule skipped_split)
  have "skipped r = []" "es2 = []"
    using v(7) assms(1) by (auto simp: a_resume_def done_stack_def a_clean_iff a_next_def split: if_splits)
  then show ?thesis
    using v w2 spells_one [OF v(6)] unfolding json_text_def by (intro exI [of _ d] exI [of _ v]) auto
qed

lemma single_root_complete:
  assumes "sc_mode cf = SingleRoot" "length t < 2 ^ 32" "fits cf [] d" "json_text (event_rules cf) d t v"
  shows "\<exists>es. a_clean cf t [] False es \<and> assemble [] es = Some [v]"
proof -
  obtain w1 u w2 where u: "t = w1 @ u @ w2" "ws w1" "ws w2" "value_text (event_rules cf) d u v"
    using assms(4) by (auto simp: json_text_def)
  have f: "follow w2" using u(3) by (cases w2) (auto simp: follow_def ws_def)
  have "a_resume cf w2 [] []"
    using assms(1) skipped_all [OF u(3)] by (simp add: a_resume_def done_stack_def a_clean_iff a_next_def)
  then obtain es where "spells es v" "runs cf (a_value cf t []) (es @ [])"
    using clean_complete(1) [OF u(4), of cf] u(1,2) f assms(2,3) unfolding clean_value_def by fastforce
  then show ?thesis
    using assms(1) spells_one by (intro exI [of _ es]) (simp add: a_clean_iff a_next_def)
qed

lemma fits_root: "fits cf [] d \<longleftrightarrow> sc_max_depth cf = 0 \<or> d \<le> sc_max_depth cf"
  by (simp add: fits_def)

lemma bom_stripped_length: "length t < n \<Longrightarrow> length (bom_stripped cf t) < n"
  by (auto simp: bom_stripped_def)

text \<open>The stream ends cleanly, and these are the values its events build.\<close>

definition delivers :: "sconf \<Rightarrow> bytes \<Rightarrow> jvalue list \<Rightarrow> bool" where
  "delivers cf t vs \<longleftrightarrow>
     (\<exists>es st. drain cf (reader_start t False) = (es, Some st) \<and> ss_err st = None \<and> assemble [] es = Some vs)"

lemma delivers_clean: "delivers cf t vs \<longleftrightarrow> (\<exists>es. a_clean cf (bom_stripped cf t) [] False es \<and> assemble [] es = Some vs)"
  unfolding delivers_def drain_start [symmetric] by blast

lemma single_root:
  assumes "sc_mode cf = SingleRoot" "length t < 2 ^ 32"
  shows "delivers cf t [v] \<longleftrightarrow> (\<exists>d. fits cf [] d \<and> json_text (event_rules cf) d (bom_stripped cf t) v)"
proof -
  note len = bom_stripped_length [OF assms(2), of cf]
  show ?thesis
  proof
    assume "delivers cf t [v]"
    then obtain es where es: "a_clean cf (bom_stripped cf t) [] False es" "assemble [] es = Some [v]"
      unfolding delivers_clean by blast
    from single_root_sound [OF assms(1) len es(1)] obtain d v' where
      "fits cf [] d" "json_text (event_rules cf) d (bom_stripped cf t) v'" "assemble [] es = Some [v']" by blast
    then show "\<exists>d. fits cf [] d \<and> json_text (event_rules cf) d (bom_stripped cf t) v" using es(2) by auto
  next
    assume "\<exists>d. fits cf [] d \<and> json_text (event_rules cf) d (bom_stripped cf t) v"
    then obtain d where "fits cf [] d" "json_text (event_rules cf) d (bom_stripped cf t) v" by blast
    from single_root_complete [OF assms(1) len this] show "delivers cf t [v]" unfolding delivers_clean .
  qed
qed

end
