(* ===== verification/PullReader.thy ===== *)
theory PullReader
  imports Stream
begin

text \<open>
  The contract of a pull reader, shared by \<^verbatim>\<open>StreamReader\<close>, \<^verbatim>\<open>StreamItems\<close> and
  \<^verbatim>\<open>JsonlReader\<close>: a \<^verbatim>\<open>next\<close> that yields an item or returns \<^verbatim>\<open>false\<close>, and the loop
  \<^verbatim>\<open>while (next(x)) fn(x)\<close> over it.
\<close>

section \<open>The contract\<close>

text \<open>
  \<open>live\<close> is the invariant of the states the reader passes through, \<open>left\<close> bounds the items
  still to come. The laws: an item costs input, a live reader never fails to answer, and the
  answer \<^verbatim>\<open>false\<close> is final.
\<close>

locale pull_reader =
  fixes pull :: "'s \<Rightarrow> ('a, 's) sres" and left :: "'s \<Rightarrow> nat" and live :: "'s \<Rightarrow> bool"
    and loop :: "'s \<Rightarrow> 'a list \<times> 's option"
  assumes loop_step: "loop s = (case pull s of
      SOk a s' \<Rightarrow> (case loop s' of (as, r) \<Rightarrow> (a # as, r)) | SFail s' \<Rightarrow> ([], Some s') | SOob \<Rightarrow> ([], None))"
    and pull_costs: "pull s = SOk a s' \<Longrightarrow> left s' < left s"
    and pull_defined: "live s \<Longrightarrow> pull s \<noteq> SOob"
    and live_ok: "live s \<Longrightarrow> pull s = SOk a s' \<Longrightarrow> live s'"
    and fail_final: "live s \<Longrightarrow> pull s = SFail s' \<Longrightarrow> live s' \<and> pull s' = SFail s'"
begin

lemma loop_ends:
  "live s \<Longrightarrow> \<exists>s'. snd (loop s) = Some s' \<and> length (fst (loop s)) \<le> left s \<and> live s' \<and> pull s' = SFail s'"
proof (induction "left s" arbitrary: s rule: less_induct)
  case less
  show ?case
  proof (cases "pull s")
    case (SOk a t)
    have "live t" by (rule live_ok [OF less(2) SOk])
    with less(1) [OF pull_costs [OF SOk]] obtain s' where
      t: "snd (loop t) = Some s'" "length (fst (loop t)) \<le> left t" "live s'" "pull s' = SFail s'" by blast
    have "loop s = (a # fst (loop t), snd (loop t))" using SOk by (subst loop_step) (simp add: case_prod_unfold)
    then show ?thesis using t pull_costs [OF SOk] by simp
  next
    case (SFail t)
    have "loop s = ([], Some t)" using SFail by (subst loop_step) simp
    then show ?thesis using fail_final [OF less(2) SFail] by simp
  next
    case SOob
    then show ?thesis using pull_defined [OF less(2)] by simp
  qed
qed

text \<open>Stopped once, the loop delivers nothing any more.\<close>

lemma loop_again: "live s \<Longrightarrow> loop s = (as, Some s') \<Longrightarrow> loop s' = ([], Some s')"
proof -
  assume "live s" "loop s = (as, Some s')"
  then have "pull s' = SFail s'" using loop_ends [of s] by auto
  then show ?thesis by (subst loop_step) simp
qed

end

end
