(* ===== verification/StreamEnds.thy ===== *)
theory StreamEnds
  imports StreamEvents EntryProofs PullReader
begin

text \<open>
  The contracts of the event reader: it always stops and stays stopped, it agrees with
  \<^verbatim>\<open>parse_copy\<close>, and in multi-value mode it delivers a white-space separated sequence of values.
\<close>

section \<open>Every pull is defined, and failure is final\<close>

text \<open>What no operation undoes: flags that stay set, and a bad stream that never ends.\<close>

definition keeps :: "sstate \<Rightarrow> sstate \<Rightarrow> bool" where
  "keeps st s \<longleftrightarrow> (ss_start_checked st \<longrightarrow> ss_start_checked s) \<and> ss_bad s = ss_bad st \<and>
     (ss_bad st \<and> ss_eof s \<longrightarrow> ss_eof st) \<and> (ss_eof st \<longrightarrow> ss_eof s)"

definition settles :: "sstate \<Rightarrow> ('a, sstate) sres \<Rightarrow> bool" where
  "settles st r \<longleftrightarrow> (case r of
      SOk e s \<Rightarrow> keeps st s \<and> ss_finished s = ss_finished st
    | SFail s \<Rightarrow> keeps st s \<and> (ss_err s \<noteq> None \<or> ss_finished s \<and> ss_eof s)
    | SOob \<Rightarrow> False)"

lemma settles_simps [simp]:
  "settles st (SOk e s) \<longleftrightarrow> keeps st s \<and> ss_finished s = ss_finished st"
  "settles st (SFail s) \<longleftrightarrow> keeps st s \<and> (ss_err s \<noteq> None \<or> ss_finished s \<and> ss_eof s)"
  "\<not> settles st SOob"
  by (simp_all add: settles_def)

lemma keeps_refl [simp]: "keeps st st"
  by (simp add: keeps_def)

lemma keeps_trans [trans]: "keeps a b \<Longrightarrow> keeps b c \<Longrightarrow> keeps a c"
  unfolding keeps_def by argo

lemma keeps_set_phase [simp]: "keeps st (set_phase ph s) \<longleftrightarrow> keeps st s"
  and keeps_complete [simp]: "keeps st (complete_value s) \<longleftrightarrow> keeps st s"
  and keeps_fail [simp]: "keeps st (s_fail c p s) \<longleftrightarrow> keeps st s"
    "keeps st (s_fail_context c s) \<longleftrightarrow> keeps st s"
  and keeps_advance [simp]: "keeps st (s_advance n s) \<longleftrightarrow> keeps st s"
  and keeps_flags [simp]: "keeps st (s\<lparr>ss_root_done := b\<rparr>) \<longleftrightarrow> keeps st s"
    "keeps st (s\<lparr>ss_finished := b\<rparr>) \<longleftrightarrow> keeps st s" "keeps st (s\<lparr>ss_stack := fs\<rparr>) \<longleftrightarrow> keeps st s"
  by (simp_all add: keeps_def)

lemma fill_keeps: "keeps st (fill cf st)"
  by (auto simp: keeps_def fill_def Let_def)

lemma ensure_loop_keeps: "keeps st (ensure_loop cf n st)"
proof (induction cf n st rule: ensure_loop.induct)
  case (1 cf n st)
  show ?case
    by (subst ensure_loop.simps) (auto intro: keeps_trans [OF fill_keeps 1])
qed

lemma skip_ws_keeps: "keeps st (skip_ws cf st)"
proof (induction cf st rule: skip_ws.induct)
  case (1 cf st)
  have adv: "keeps st s" if "keeps (s_advance n st) s" for s n
    by (rule keeps_trans [OF _ that]) simp
  show ?case
    by (subst skip_ws.simps)
      (auto split: list.split intro: keeps_trans [OF fill_keeps 1(1)] adv [OF 1(2) [unfolded One_nat_def]])
qed

text \<open>White space is skipped to a byte, to an error, or to the end of the stream.\<close>

lemma skip_ws_stops: "window (skip_ws cf st) = [] \<Longrightarrow> ss_err (skip_ws cf st) = None \<Longrightarrow> ss_eof (skip_ws cf st)"
proof (induction cf st rule: skip_ws.induct)
  case (1 cf st)
  note step = skip_ws.simps [of cf st]
  show ?case
  proof (cases "ss_err st = None")
    case False
    then have "skip_ws cf st = st" by (subst step) simp
    then show ?thesis using 1(4) False by simp
  next
    case ok: True
    show ?thesis
    proof (cases "window st")
      case Nil
      then have "skip_ws cf st = (if ss_eof st then st else skip_ws cf (fill cf st))" using ok by (subst step) simp
      then show ?thesis using 1(1,3,4) ok Nil by (cases "ss_eof st") simp_all
    next
      case (Cons c r)
      then have "skip_ws cf st = (if \<not> is_whitespace c then st else skip_ws cf (s_advance 1 st))" using ok by (subst step) simp
      then show ?thesis using 1(2,3,4) ok Cons by (cases "is_whitespace c") simp_all
    qed
  qed
qed

lemma ensure_loop_stops:
  "length (window (ensure_loop cf n st)) < n \<Longrightarrow> ss_err (ensure_loop cf n st) = None \<Longrightarrow> ss_eof (ensure_loop cf n st)"
proof (induction cf n st rule: ensure_loop.induct)
  case (1 cf n st)
  have "ensure_loop cf n st = (if length (window st) < n \<and> \<not> ss_eof st \<and> ss_err st = None then ensure_loop cf n (fill cf st) else st)"
    by (rule ensure_loop.simps)
  then show ?case using 1 by (auto split: if_splits)
qed

lemma settles_trans: "keeps st s \<Longrightarrow> ss_finished s = ss_finished st \<Longrightarrow> settles s r \<Longrightarrow> settles st r"
  by (auto simp: settles_def split: sres.splits dest: keeps_trans)

lemma settles_bind:
  assumes "settles st m" "\<And>a s. m = SOk a s \<Longrightarrow> settles s (f a s)"
  shows "settles st (s_bind m f)"
  using assms settles_trans by (cases m) auto

lemmas settles_fill = settles_trans [OF fill_keeps fill_frame(3)]
lemmas settles_ws = settles_trans [OF skip_ws_keeps skip_ws_frames(3)]
lemmas settles_ensure = settles_trans [OF ensure_loop_keeps ensure_loop_frame(3)]

lemma settles_advance: "settles (s_advance n st) r \<Longrightarrow> settles st r"
  by (rule settles_trans [of _ "s_advance n st"]) simp_all

lemma raw_scan_settles: "settles st (raw_scan cf tok e h fc st)"
proof (induction cf tok e h fc st rule: raw_scan.induct)
  case (1 cf tok e h fc st)
  show ?case
  proof (cases "window st")
    case Nil
    then show ?thesis
      using 1(1) [OF Nil _ refl] settles_fill [where r = "raw_scan cf tok e h fc (fill cf st)"] fill_keeps [of st cf]
      by (subst raw_scan.simps) (auto simp: Let_def)
  next
    case (Cons c r)
    then have "settles (s_advance 1 st) (raw_scan cf tok e h fc st)"
      using 1(2-4) [OF Cons refl] by (subst raw_scan.simps) (auto simp: Let_def)
    then show ?thesis by (rule settles_advance)
  qed
qed

lemma parse_string_token_settles: "settles st (parse_string_token cf st)"
proof -
  let ?raw = "raw_scan cf [] False False None (s_advance 1 st)"
  have raw: "settles st ?raw" by (rule settles_advance [OF raw_scan_settles])
  show ?thesis
  proof (cases ?raw)
    case (SOk tok s)
    then show ?thesis
      using raw token_content_inside [of "sc_strict_utf8 cf" tok]
      by (cases "token_content (sc_strict_utf8 cf) tok")
        (auto simp: parse_string_token_def content_result_def Let_def split: option.split)
  qed (use raw in \<open>simp_all add: parse_string_token_def Let_def\<close>)
qed

lemma event_literal_settles: "settles st (event_literal cf c st)"
proof -
  let ?n = "length (literal_of c)"
  let ?s = "ensure_loop cf ?n st"
  have "keeps st ?s" "keeps ?s (ensure_loop cf 1 (s_advance ?n ?s))"
    using ensure_loop_keeps keeps_trans [of ?s "s_advance ?n ?s"] by auto
  then show ?thesis
    using keeps_trans by (auto simp: event_literal_def Let_def ensure_def)
qed

lemma event_number_settles: "settles st (event_number cf st)"
proof (induction cf st rule: event_number.induct)
  case (1 cf st)
  obtain ne n sc where s: "scan_number (window st) = (ne, n, sc)" by (metis prod_cases3)
  show ?case
  proof (cases "n = length (window st) \<and> \<not> ss_eof st")
    case True
    have "event_number cf st = (if ss_err (fill cf st) \<noteq> None then SFail (fill cf st) else event_number cf (fill cf st))"
      using True s by (subst event_number.simps) (auto simp: Let_def)
    then show ?thesis
      using 1(1) [OF s [symmetric] refl True refl] settles_fill [where r = "event_number cf (fill cf st)"] fill_keeps [of st cf] by auto
  next
    case False
    then show ?thesis using s by (subst event_number.simps) (auto split: sum.splits)
  qed
qed

lemma enter_container_settles: "settles st (enter_container cf k p st)"
  by (simp add: enter_container_def)

lemma finished_keep [simp]:
  "ss_finished (complete_value st) = ss_finished st" "ss_finished (set_phase ph st) = ss_finished st"
  by simp_all

lemma settles_ok: "keeps st s \<Longrightarrow> ss_finished s = ss_finished st \<Longrightarrow> settles st (SOk e s)"
  by simp

lemma expect_value_settles: "settles st (expect_value cf b st)"
proof (rule settles_ws [where cf = cf])
  show "settles (skip_ws cf st) (expect_value cf b st)"
    by (auto simp: expect_value_def Let_def split: list.splits
        intro!: settles_bind enter_container_settles parse_string_token_settles event_literal_settles event_number_settles)
qed

lemma close_container_settles: "settles st (close_container e st)"
  by (simp add: close_container_def Let_def)

definition it_settles :: "sstate \<Rightarrow> sstate iteration \<Rightarrow> bool" where
  "it_settles st it \<longleftrightarrow> (case it of Return r \<Rightarrow> settles st r | Continue s \<Rightarrow> keeps st s \<and> ss_finished s = ss_finished st)"

lemma it_settles_simps [simp]:
  "it_settles st (Return r) \<longleftrightarrow> settles st r"
  "it_settles st (Continue s) \<longleftrightarrow> keeps st s \<and> ss_finished s = ss_finished st"
  by (simp_all add: it_settles_def)

lemma it_settles_ws: "it_settles (skip_ws cf st) it \<Longrightarrow> it_settles st it"
  using settles_ws keeps_trans [OF skip_ws_keeps] by (cases it) auto

lemmas step_settles = expect_value_settles close_container_settles parse_string_token_settles

lemma steps_settle:
  "it_settles st (root_done_step cf st)" "it_settles st (root_step cf st)" "it_settles st (key_step cf ph st)"
  "it_settles st (colon_step cf st)" "it_settles st (object_comma_step cf st)" "it_settles st (array_first_step cf st)"
  "it_settles st (array_comma_step cf st)"
proof -
  note fin = skip_ws_stops [of cf st]
  show "it_settles st (root_done_step cf st)"
  proof (cases "sc_mode cf")
    case SingleRoot
    show ?thesis
      by (rule it_settles_ws [of cf]) (use fin SingleRoot in \<open>auto simp: root_done_step_def Let_def\<close>)
  next
    case MultiValue
    let ?e = "ensure_loop cf 1 st" and ?s = "skip_ws cf (ensure_loop cf 1 st)"
    have k: "keeps st ?e" "keeps st ?s" by (rule ensure_loop_keeps, rule keeps_trans [OF ensure_loop_keeps skip_ws_keeps])
    show ?thesis
      using k MultiValue ensure_loop_stops [of cf 1 st] skip_ws_stops [of cf ?e]
      by (auto simp: root_done_step_def Let_def ensure_def not_le)
  qed
  show "it_settles st (root_step cf st)"
  proof (cases "sc_mode cf = MultiValue")
    case True
    show ?thesis
      by (rule it_settles_ws [of cf]) (use True fin in \<open>auto simp: root_step_def Let_def step_settles\<close>)
  qed (simp add: root_step_def step_settles)
  show "it_settles st (key_step cf ph st)"
    by (rule it_settles_ws [of cf])
      (auto simp: key_step_def Let_def step_settles intro!: settles_bind split: list.splits)
  show "it_settles st (colon_step cf st)"
    by (rule it_settles_ws [of cf]) (auto simp: colon_step_def Let_def)
  show "it_settles st (object_comma_step cf st)"
    by (rule it_settles_ws [of cf]) (auto simp: object_comma_step_def Let_def step_settles split: list.splits)
  show "it_settles st (array_first_step cf st)"
    by (rule it_settles_ws [of cf]) (auto simp: array_first_step_def Let_def step_settles split: list.splits)
  show "it_settles st (array_comma_step cf st)"
    by (rule it_settles_ws [of cf]) (auto simp: array_comma_step_def Let_def step_settles split: list.splits)
qed

lemma next_iteration_settles: "ss_finished st \<longrightarrow> ss_eof st \<Longrightarrow> it_settles st (next_iteration cf st)"
  by (auto simp: next_iteration_def steps_settle step_settles split: list.splits phase.splits)

lemma next_loop_settles: "ss_finished st \<longrightarrow> ss_eof st \<Longrightarrow> settles st (next_loop cf st)"
proof (induction cf st rule: next_loop.induct)
  case (1 cf st)
  note it = next_iteration_settles [OF 1(2), of cf]
  show ?case
  proof (cases "next_iteration cf st")
    case (Return r)
    then show ?thesis using it by (simp add: next_loop.simps)
  next
    case (Continue s)
    then have k: "keeps st s" "ss_finished s = ss_finished st" using it by auto
    then have "settles s (next_loop cf s)" using 1(1) [OF Continue] 1(2) by (simp add: keeps_def)
    then show ?thesis using settles_trans [OF k] Continue by (simp add: next_loop_Continue)
  qed
qed

lemma skip_start_bom_keeps:
  "keeps st (skip_start_bom cf st)" "ss_start_checked (skip_start_bom cf st)"
  "ss_finished (skip_start_bom cf st) = ss_finished st"
proof -
  have k: "keeps st (ensure_loop cf 3 (st\<lparr>ss_start_checked := True\<rparr>))"
    using ensure_loop_keeps [of "st\<lparr>ss_start_checked := True\<rparr>" cf 3] by (auto simp: keeps_def)
  show "keeps st (skip_start_bom cf st)"
    using k by (auto simp: skip_start_bom_def Let_def ensure_def) (simp_all add: keeps_def)
  show "ss_start_checked (skip_start_bom cf st)" "ss_finished (skip_start_bom cf st) = ss_finished st"
    by (auto simp: skip_start_bom_def Let_def ensure_def)
qed

lemma next_event_settles:
  assumes "ss_finished st \<longrightarrow> ss_eof st"
  shows "settles st (next_event cf st)"
    "next_event cf st = SOk e s \<Longrightarrow> ss_start_checked s" "next_event cf st = SFail s \<Longrightarrow> ss_start_checked s"
proof -
  let ?b = "if ss_start_checked st then st else skip_start_bom cf st"
  have b: "keeps st ?b" "ss_start_checked ?b" "ss_finished ?b = ss_finished st" using skip_start_bom_keeps by auto
  then have s: "settles ?b (next_loop cf ?b)" using assms by (intro next_loop_settles) (auto simp: keeps_def)
  show "settles st (next_event cf st)" using settles_trans [OF b(1,3) s] by (simp add: next_event_def)
  show "next_event cf st = SOk e s \<Longrightarrow> ss_start_checked s" "next_event cf st = SFail s \<Longrightarrow> ss_start_checked s"
    using s b(2) unfolding next_event_def by (auto simp: keeps_def simp del: if_split split: if_splits)
qed

lemma next_event_again:
  assumes "ss_err s \<noteq> None \<or> ss_finished s" "ss_start_checked s"
  shows "next_event cf s = SFail s"
  using assms by (simp add: next_event_def next_iteration_def next_loop_Return)

text \<open>
  The states between two pulls, on a stream that goes bad or does not: the end of a bad stream
  is never reached, and a reader that has finished has reached the end.
\<close>

definition stream_live :: "bool \<Rightarrow> sstate \<Rightarrow> bool" where
  "stream_live bad st \<longleftrightarrow> ss_bad st = bad \<and> \<not> (bad \<and> ss_eof st) \<and>
     ((ss_finished st \<longrightarrow> ss_eof st) \<or> (ss_err st \<noteq> None \<and> ss_start_checked st))"

definition stream_left :: "sstate \<Rightarrow> nat" where
  "stream_left st = length (rest st)"

lemma live_settles:
  assumes "stream_live bad st"
  shows "settles st (next_event cf st)" "next_event cf st = SFail s \<Longrightarrow> next_event cf s = SFail s"
proof -
  show s: "settles st (next_event cf st)"
    using assms next_event_settles(1) [of st cf] next_event_again [of st cf] by (auto simp: stream_live_def)
  show "next_event cf s = SFail s" if f: "next_event cf st = SFail s"
  proof (cases "ss_finished st \<longrightarrow> ss_eof st")
    case True
    then show ?thesis using next_event_settles(3) [OF True f] s f by (intro next_event_again) auto
  next
    case False
    then have "next_event cf st = SFail st" using assms by (intro next_event_again) (auto simp: stream_live_def)
    then show ?thesis using f by simp
  qed
qed

lemma live_keeps:
  assumes "stream_live bad st" "keeps st s" "ss_finished s = ss_finished st"
    "(ss_finished st \<longrightarrow> ss_eof st) \<or> ss_err s \<noteq> None \<and> ss_start_checked s"
  shows "stream_live bad s"
  using assms by (auto simp: stream_live_def keeps_def)

interpretation events: pull_reader "next_event cf" stream_left "stream_live bad" "drain cf" for cf bad
proof (unfold_locales, goal_cases)
  case (1 s)
  then show ?case by (subst drain.simps) (simp add: Let_def split: sres.split)
next
  case (2 s a s')
  then show ?case by (simp add: stream_left_def next_event_shrinks)
next
  case (3 s)
  then show ?case using live_settles(1) [of bad s cf] by auto
next
  case (4 s a s')
  have k: "keeps s s'" "ss_finished s' = ss_finished s" using live_settles(1) [OF 4(1), of cf] 4(2) by auto
  have "ss_finished s \<longrightarrow> ss_eof s"
    using 4 next_event_again [of s cf] by (auto simp: stream_live_def)
  then show ?case using live_keeps [OF 4(1) k] by simp
next
  case (5 s s')
  have k: "keeps s s'" "ss_err s' \<noteq> None \<or> ss_finished s' \<and> ss_eof s'" using live_settles(1) [OF 5(1), of cf] 5(2) by auto
  have "ss_start_checked s'"
  proof (cases "ss_finished s \<longrightarrow> ss_eof s")
    case False
    then show ?thesis using 5(1) k(1) by (auto simp: stream_live_def keeps_def)
  qed (rule next_event_settles(3) [OF _ 5(2)])
  then have "stream_live bad s'" using k 5(1) by (auto simp: stream_live_def keeps_def)
  then show ?case using live_settles(2) [OF 5] by simp
qed

text \<open>
  C28: pulling events from any stream, good or bad, with any settings, comes to an end: at
  most one event per input byte is delivered, no pull touches memory outside the token
  buffer, and the state it ends in is final, every further pull returns \<^verbatim>\<open>false\<close> and
  changes nothing. Without an error the reader has reached the end of a stream that did not go
  bad; a stream that goes bad always ends in an error.
\<close>
theorem stream_terminates:
  "\<exists>s. snd (drain cf (reader_start t bad)) = Some s \<and>
     length (fst (drain cf (reader_start t bad))) \<le> length t \<and>
     next_event cf s = SFail s \<and> (if ss_err s = None then ss_finished s \<and> ss_eof s \<and> \<not> bad else True)"
proof -
  let ?st = "reader_start t bad"
  have st: "stream_live bad ?st" "stream_left ?st = length t"
    by (simp_all add: reader_start_def stream_live_def stream_left_def rest_def window_def)
  obtain s where s: "snd (drain cf ?st) = Some s" "length (fst (drain cf ?st)) \<le> length t"
      "stream_live bad s" "next_event cf s = SFail s"
    using events.loop_ends [OF st(1)] st(2) by force
  have "ss_err s \<noteq> None \<or> ss_finished s \<and> ss_eof s" using live_settles(1) [OF s(3), of cf] s(4) by simp
  then show ?thesis using s by (auto simp: stream_live_def)
qed

theorem stream_terminates_witness:
  "\<exists>s. snd (drain \<lparr>sc_chunk_size = 2, sc_mode = SingleRoot, sc_max_depth = 0, sc_strip_bom = False, sc_strict_utf8 = False\<rparr>
     (reader_start (lit ''[1'') True)) = Some s \<and> ss_err s \<noteq> None"
  using stream_terminates [where t = "lit ''[1''" and bad = True] by (meson not_None_eq)

section \<open>One root: the reader against the parser\<close>

text \<open>The constructor captures three settings; it knows neither JSON5 nor strict duplicates.\<close>

definition capture :: "config \<Rightarrow> stream_mode \<Rightarrow> nat \<Rightarrow> sconf" where
  "capture cfg mode chunk =
     \<lparr>sc_chunk_size = chunk, sc_mode = mode, sc_max_depth = cfg_max_depth cfg,
      sc_strip_bom = cfg_strip_bom cfg, sc_strict_utf8 = cfg_strict_utf8 cfg\<rparr>"

definition event_config :: "config \<Rightarrow> config" where
  "event_config cfg = cfg\<lparr>cfg_json5 := False, cfg_strict_dup := False\<rparr>"

lemma capture_rules: "event_rules (capture cfg m n) = rules_for (event_config cfg)"
  by (simp add: event_rules_def rules_for_def capture_def event_config_def)

lemma capture_fits: "fits (capture cfg m n) [] d \<longleftrightarrow> within_depth (event_config cfg) d"
  by (simp add: fits_def within_depth_def capture_def event_config_def)

lemma bom_prefix: "take 3 t = [0xEF, 0xBB, 0xBF] \<longleftrightarrow> starts_with_utf8_bom t"
  by (cases t; cases "tl t"; cases "tl (tl t)") (auto simp: starts_with_utf8_bom_def numeral_3_eq_3 numeral_2_eq_2)

lemma capture_bom: "bom_stripped (capture cfg m n) t = without_bom (event_config cfg) t"
  by (simp add: bom_stripped_def without_bom_def bom_prefix capture_def event_config_def)

lemma capture_mode [simp]: "sc_mode (capture cfg m n) = m"
  by (simp add: capture_def)

lemma single_root_denotes:
  assumes "length t < 2 ^ 32"
  shows "delivers (capture cfg SingleRoot n) t [v] \<longleftrightarrow> denotes (event_config cfg) t v"
  using assms by (simp add: single_root denotes_def capture_rules capture_fits capture_bom)

text \<open>
  C27: the event reader and \<^verbatim>\<open>parse_copy\<close> are two readings of one language. In single-root
  mode, whatever the chunk size, the events of a stream end cleanly and build the value \<open>v\<close>
  exactly when \<^verbatim>\<open>parse_copy\<close> accepts the same bytes with the value \<open>v\<close>, under the same
  byte-order-mark, depth and UTF-8 settings, with JSON5 and the duplicate check off.
\<close>
theorem stream_equals_dom:
  assumes "platform_ok pl" "length t < 2 ^ 32"
  shows "delivers (capture cfg SingleRoot chunk) t [v] \<longleftrightarrow>
    (\<exists>doc. parse_copy_impl (event_config cfg) pl t = Ok doc \<and> doc_json doc = v)"
proof -
  have "yields (parse_copy_impl (event_config cfg) pl t) v \<longleftrightarrow> denotes (event_config cfg) t v"
    using assms by (intro parse_copy_iff) (simp_all add: event_config_def)
  then show ?thesis using single_root_denotes [OF assms(2)] by (simp add: yields_def)
qed

theorem stream_equals_dom_witness:
  "delivers (capture default_config SingleRoot 1) (lit ''[true]'') [JArr [JBool True]]"
proof -
  have "length (lit ''[true]'') < 2 ^ 32" by (simp add: lit_def)
  moreover have "event_config default_config = default_config" by (simp add: event_config_def default_config_def)
  ultimately show ?thesis
    using stream_equals_dom [OF sse2_ok(1), of "lit ''[true]''"] denotes_array_of_true
      parse_copy_iff [OF sse2_ok(2,1), of "lit ''[true]''"] by (simp add: yields_def)
qed

section \<open>Many roots\<close>

text \<open>Values with white space between them: the texts of multi-value mode.\<close>

inductive value_sequence :: "sconf \<Rightarrow> bytes \<Rightarrow> jvalue list \<Rightarrow> bool" for cf where
  no_value: "ws w \<Longrightarrow> value_sequence cf w []"
| next_value: "ws w \<Longrightarrow> value_text (event_rules cf) d u v \<Longrightarrow> fits cf [] d \<Longrightarrow>
    r = [] \<or> is_whitespace (hd r) \<Longrightarrow> value_sequence cf r vs \<Longrightarrow> value_sequence cf (w @ u @ r) (v # vs)"

lemma assemble_values:
  assumes "spells es v"
  shows "assemble [] (es @ es') = map_option (Cons v) (assemble [] es')"
proof -
  have "assemble [] (es @ es') = resume (place v []) es'" using assms unfolding spells_def by blast
  then show ?thesis by (simp add: resume_def)
qed

lemma between_roots:
  assumes "sc_mode cf = MultiValue" "r = [] \<or> is_whitespace (hd r)"
  shows "a_resume cf r [] es \<longleftrightarrow> a_clean cf r [] False es"
  using assms by (auto simp: a_resume_def done_stack_def a_clean_iff a_next_def skipped_def)

lemma value_sequence_complete:
  assumes "sc_mode cf = MultiValue" "value_sequence cf t vs" "length t < 2 ^ 32"
  shows "\<exists>es. a_clean cf t [] False es \<and> assemble [] es = Some vs"
  using assms(2,3)
proof (induction rule: value_sequence.induct)
  case (no_value w)
  then show ?case using assms(1) by (intro exI [of _ "[]"]) (simp add: a_clean_iff a_next_def skipped_all)
next
  case (next_value w d u v r vs)
  then obtain es' where es': "a_clean cf r [] False es'" "assemble [] es' = Some vs" by auto
  have "follow r" using next_value(4) by (auto simp: follow_def neq_Nil_conv)
  moreover have "a_resume cf r [] es'" using es'(1) between_roots [OF assms(1) next_value(4)] by simp
  moreover have "length u < 2 ^ 32" using next_value.prems by simp
  ultimately obtain es where es: "spells es v" "runs cf (a_value cf (w @ u @ r) []) (es @ es')"
    using clean_complete(1) [OF next_value(2), of cf] next_value(1,3) unfolding clean_value_def by blast
  have "skipped (w @ u @ r) \<noteq> []" using es(2) by (auto simp: a_value_def split: list.splits)
  then have "a_clean cf (w @ u @ r) [] False (es @ es')" using es(2) by (simp add: a_clean_iff a_next_def)
  then show ?case using es'(2) assemble_values [OF es(1)] by (intro exI [of _ "es @ es'"]) simp
qed

lemma value_sequence_sound:
  assumes "sc_mode cf = MultiValue"
  shows "a_clean cf t [] False es \<Longrightarrow> length t < 2 ^ 32 \<Longrightarrow> \<exists>vs. value_sequence cf t vs \<and> assemble [] es = Some vs"
proof (induction "length t" arbitrary: t es rule: less_induct)
  case less
  show ?case
  proof (cases "skipped t = []")
    case True
    obtain w where "t = w @ skipped t" "ws w" by (rule skipped_split)
    then have "value_sequence cf t []" using True no_value [of w cf] by simp
    moreover have "es = []" using less.prems(1) True assms by (simp add: a_clean_iff a_next_def)
    ultimately show ?thesis by (intro exI [of _ "[]"]) simp
  next
    case False
    then have "runs cf (a_value cf t []) es" using less.prems(1) by (simp add: a_clean_iff a_next_def)
    moreover have "fits cf [] 0" by (simp add: fits_def)
    ultimately obtain w u v r es1 es2 d where v: "t = w @ u @ r" "ws w" "value_text (event_rules cf) d u v" "fits cf [] d"
        "es = es1 @ es2" "spells es1 v" "a_resume cf r [] es2"
      using clean_sound [of cf "length t"] less.prems(2) unfolding sound_value_def by (meson order_refl)
    have sep: "r = [] \<or> is_whitespace (hd r)"
      using v(7) assms by (auto simp: a_resume_def done_stack_def a_clean_iff a_next_def split: if_splits)
    have "length r < length t" using value_text_hd [OF v(3)] v(1) by auto
    moreover have "a_clean cf r [] False es2" using v(7) between_roots [OF assms sep] by simp
    moreover have "length r < 2 ^ 32" using less.prems(2) v(1) by simp
    ultimately obtain vs where "value_sequence cf r vs" "assemble [] es2 = Some vs" using less.hyps by blast
    then show ?thesis
      using v sep value_sequence.next_value [OF v(2,3,4) sep] assemble_values [OF v(6)] by (intro exI [of _ "v # vs"]) simp
  qed
qed

text \<open>
  C30: in multi-value mode a stream ends cleanly with the values \<open>vs\<close> exactly when its bytes,
  behind an optional byte-order mark, are JSON texts for those values one after the other with
  white space between any two of them, each within the depth limit. Two values that
  touch are an error, and the empty stream has no value.
\<close>
theorem stream_multi_value:
  assumes "sc_mode cf = MultiValue" "length t < 2 ^ 32"
  shows "delivers cf t vs \<longleftrightarrow> value_sequence cf (bom_stripped cf t) vs"
proof -
  note len = bom_stripped_length [OF assms(2), of cf]
  show ?thesis
    using value_sequence_complete [OF assms(1) _ len] value_sequence_sound [OF assms(1) _ len]
    unfolding delivers_clean by (metis option.inject)
qed

theorem stream_multi_value_witness:
  "delivers (capture default_config MultiValue 1) (lit ''true null'') [JBool True, JNull]"
proof -
  let ?cf = "capture default_config MultiValue 1"
  have f: "fits ?cf [] 0" by (simp add: fits_def)
  have "value_sequence ?cf ([] @ lit ''null'' @ []) [JNull]"
    by (rule next_value [OF _ null f]) (auto intro: no_value)
  then have "value_sequence ?cf ([0x20] @ lit ''null'' @ []) [JNull]"
    using next_value [of "[0x20]" ?cf 0 "lit ''null''" JNull "[]" "[]"] f null no_value by (simp add: ws_def is_whitespace_def)
  then have "value_sequence ?cf ([] @ lit ''true'' @ [0x20] @ lit ''null'' @ []) [JBool True, JNull]"
    by (intro next_value [OF _ true f]) (simp_all add: is_whitespace_def)
  moreover have "lit ''true null'' = [] @ lit ''true'' @ [0x20] @ lit ''null'' @ []" by (simp add: lit_def)
  moreover have "bom_stripped ?cf (lit ''true null'') = lit ''true null''" by (simp add: bom_stripped_def capture_def default_config_def)
  ultimately show ?thesis
    using stream_multi_value [of ?cf "lit ''true null''"] by (simp add: lit_def)
qed

end
