(* ===== verification/StreamItems.thy ===== *)
theory StreamItems
  imports StreamEnds PatchProofs
begin

text \<open>
  The filtered cursor \<^verbatim>\<open>StreamItems\<close> of \<^verbatim>\<open>include/pjh_json/stream.hpp\<close> and
  \<^verbatim>\<open>src/parser/stream.cpp\<close>: it pulls the reader's events and hands out those that
  belong to a value whose path matches a JSON Pointer prefix.
\<close>

section \<open>The prefix\<close>

text \<open>A key token refers to its bytes in the buffer \<^verbatim>\<open>m_prefix_raw\<close> by offset and length.\<close>

datatype prefix_token = KeyToken nat nat | IndexToken nat | AnyToken

definition kMax :: nat where "kMax = 2 ^ 64 - 1"

fun decimal_index_loop :: "nat \<Rightarrow> bytes \<Rightarrow> nat option" where
  "decimal_index_loop v [] = Some v"
| "decimal_index_loop v (c # s) =
     (if c < 0x30 \<or> 0x39 < c then None
      else
        let digit = unat (c - 0x30)
        in if (kMax - digit) div 10 < v then None else decimal_index_loop (v * 10 + digit) s)"

definition parse_decimal_index :: "bytes \<Rightarrow> nat option" where
  "parse_decimal_index s = (if s = [] then None else decimal_index_loop 0 s)"

definition bad_prefix_escape :: exn where
  "bad_prefix_escape = InvalidArgument (lit ''StreamReader::items: invalid JSON Pointer escape'')"

text \<open>One token, unescaped onto the end of \<^verbatim>\<open>m_prefix_raw\<close>.\<close>

fun decode_prefix :: "bytes \<Rightarrow> bytes \<Rightarrow> exn + bytes" where
  "decode_prefix raw [] = Inr raw"
| "decode_prefix raw (c # s) =
     (if c = 0x7E then
        (case s of
           [] \<Rightarrow> Inl bad_prefix_escape
         | e # s' \<Rightarrow>
             if e = 0x30 then decode_prefix (raw @ [0x7E]) s'
             else if e = 0x31 then decode_prefix (raw @ [0x2F]) s'
             else Inl bad_prefix_escape)
      else decode_prefix (raw @ [c]) s)"

definition classify_token :: "nat \<Rightarrow> bytes \<Rightarrow> prefix_token" where
  "classify_token key_offset bs =
     (if bs = lit ''*'' then AnyToken
      else case parse_decimal_index bs of
        Some i \<Rightarrow> IndexToken i
      | None \<Rightarrow> KeyToken key_offset (length bs))"

function prefix_loop :: "bytes \<Rightarrow> bytes \<Rightarrow> prefix_token list \<Rightarrow> exn + bytes \<times> prefix_token list" where
  "prefix_loop p raw tokens =
     (let piece = takeWhile (\<lambda>c. c \<noteq> 0x2F) p; tail_part = dropWhile (\<lambda>c. c \<noteq> 0x2F) p
      in case decode_prefix raw piece of
           Inl e \<Rightarrow> Inl e
         | Inr raw' \<Rightarrow>
             let tokens' = tokens @ [classify_token (length raw) (drop (length raw) raw')]
             in if tail_part = [] then Inr (raw', tokens') else prefix_loop (tl tail_part) raw' tokens')"
  by pat_completeness auto
termination
proof (relation "measure (\<lambda>(p, raw, tokens). length p)", goal_cases)
  case (2 p raw tokens x xa y xb)
  then have "length xa \<le> length p" "xa \<noteq> []" by (simp_all add: length_dropWhile_le)
  then show ?case by (cases xa) auto
qed simp

declare prefix_loop.simps [simp del]

definition parse_prefix :: "bytes \<Rightarrow> exn + bytes \<times> prefix_token list" where
  "parse_prefix p =
     (if p = [] then Inr ([], [])
      else if hd p \<noteq> 0x2F then
        Inl (InvalidArgument (lit ''StreamReader::items: prefix must be empty or a JSON Pointer beginning with '' @ [0x27, 0x2F, 0x27]))
      else prefix_loop (tl p) [] [])"

section \<open>The cursor\<close>

record path_frame =
  pf_object :: bool
  pf_match :: int
  pf_next :: nat

text \<open>The back of \<^verbatim>\<open>m_frames\<close> is the head of \<open>it_frames\<close>.\<close>

record items =
  it_raw :: bytes
  it_prefix :: "prefix_token list"
  it_frames :: "path_frame list"
  it_pending :: int
  it_emitting :: bool
  it_depth :: nat

definition items_of :: "bytes \<times> prefix_token list \<Rightarrow> items" where
  "items_of p = \<lparr>it_raw = fst p, it_prefix = snd p, it_frames = [], it_pending = -1, it_emitting = False, it_depth = 0\<rparr>"

fun token_key :: "bytes \<Rightarrow> prefix_token \<Rightarrow> bytes" where
  "token_key raw (KeyToken off n) = take n (drop off raw)"
| "token_key raw _ = []"

definition child_match_len :: "items \<Rightarrow> int" where
  "child_match_len it =
     (case it_frames it of
        [] \<Rightarrow> 0
      | parent # _ \<Rightarrow>
          let base = pf_match parent in
          if base < 0 \<or> length (it_prefix it) \<le> nat base then -1
          else
            let token = it_prefix it ! nat base in
            if pf_object parent then it_pending it
            else if token = AnyToken then base + 1
            else if token = IndexToken (pf_next parent) then base + 1
            else -1)"

definition on_map_key :: "bytes \<Rightarrow> items \<Rightarrow> items" where
  "on_map_key key it0 =
     (let it = it0\<lparr>it_pending := -1\<rparr> in
      case it_frames it of
        [] \<Rightarrow> it
      | f # _ \<Rightarrow>
          if \<not> pf_object f then it
          else
            let base = pf_match f in
            if base < 0 \<or> length (it_prefix it) \<le> nat base then it
            else
              case it_prefix it ! nat base of
                KeyToken off n \<Rightarrow>
                  if key = token_key (it_raw it) (KeyToken off n) then it\<lparr>it_pending := base + 1\<rparr> else it
              | _ \<Rightarrow> it)"

text \<open>A match is complete when its length, as a \<^verbatim>\<open>size_t\<close>, is the number of tokens.\<close>

definition full_match :: "int \<Rightarrow> items \<Rightarrow> bool" where
  "full_match m it \<longleftrightarrow> m = int (length (it_prefix it))"

text \<open>\<^verbatim>\<open>++next_index\<close> of the innermost open container, when that is an array.\<close>

definition next_child :: "items \<Rightarrow> items" where
  "next_child it =
     (case it_frames it of
        [] \<Rightarrow> it
      | f # fs \<Rightarrow> if pf_object f then it else it\<lparr>it_frames := f\<lparr>pf_next := pf_next f + 1\<rparr> # fs\<rparr>)"

definition push_frame :: "bool \<Rightarrow> int \<Rightarrow> items \<Rightarrow> items" where
  "push_frame obj_kind m it = it\<lparr>it_frames := \<lparr>pf_object = obj_kind, pf_match = m, pf_next = 0\<rparr> # it_frames it\<rparr>"

definition begin_item :: "bool \<Rightarrow> items \<Rightarrow> bool \<times> items" where
  "begin_item obj_kind it =
     (if it_emitting it then (True, (push_frame obj_kind (-1) it)\<lparr>it_depth := it_depth it + 1\<rparr>)
      else
        let m = child_match_len it; it' = push_frame obj_kind m it
        in if full_match m it then (True, it'\<lparr>it_emitting := True, it_depth := 1\<rparr>) else (False, it'))"

definition end_item :: "items \<Rightarrow> bool \<times> items" where
  "end_item it =
     (let it' = next_child (it\<lparr>it_frames := tl (it_frames it)\<rparr>)
      in if it_emitting it then
           (True, it'\<lparr>it_depth := it_depth it - 1, it_emitting := it_depth it - 1 \<noteq> 0\<rparr>)
         else (False, it'))"

definition scalar_item :: "items \<Rightarrow> bool \<times> items" where
  "scalar_item it =
     (if it_emitting it then (True, it)
      else
        let m = child_match_len it; it' = (next_child it)\<lparr>it_pending := -1\<rparr>
        in (full_match m it, it'))"

text \<open>The switch of \<^verbatim>\<open>StreamItems::next\<close>: whether the event goes out, and the new state.\<close>

definition item_event :: "event \<Rightarrow> items \<Rightarrow> bool \<times> items" where
  "item_event ev it =
     (case ev of
        BeginObject \<Rightarrow> begin_item True it
      | BeginArray \<Rightarrow> begin_item False it
      | EndObject \<Rightarrow> end_item it
      | EndArray \<Rightarrow> end_item it
      | MapKey k \<Rightarrow> if it_emitting it then (True, it) else (False, on_map_key k it)
      | _ \<Rightarrow> scalar_item it)"

function items_next :: "sconf \<Rightarrow> items \<Rightarrow> sstate \<Rightarrow> (event, items \<times> sstate) sres" where
  "items_next cf it st =
     (case next_event cf st of
        SOob \<Rightarrow> SOob
      | SFail st' \<Rightarrow> SFail (it, st')
      | SOk ev st' \<Rightarrow>
          (case item_event ev it of (out, it') \<Rightarrow>
             if out then SOk ev (it', st') else items_next cf it' st'))"
  by pat_completeness auto
termination
  by (relation "measure (\<lambda>(cf, it, st). length (rest st))") (auto dest: next_event_shrinks)

declare items_next.simps [simp del]

text \<open>\<^verbatim>\<open>for_each\<close>: the events handed out, and the reader's final state.\<close>

lemma items_next_shrinks: "items_next cf it st = SOk ev (it', st') \<Longrightarrow> length (rest st') < length (rest st)"
proof (induction cf it st rule: items_next.induct)
  case (1 cf it st)
  show ?case
  proof (cases "next_event cf st")
    case (SOk e s)
    obtain go it1 where i: "item_event e it = (go, it1)" by fastforce
    have eq: "items_next cf it st = (if go then SOk e (it1, s) else items_next cf it1 s)"
      using SOk i by (subst items_next.simps) simp
    show ?thesis
      using 1(1) [OF SOk i [symmetric]] 1(2) next_event_shrinks [OF SOk] eq by (cases go) auto
  qed (use 1(2) in \<open>subst (asm) items_next.simps, simp\<close>)+
qed

function items_drain :: "sconf \<Rightarrow> items \<Rightarrow> sstate \<Rightarrow> event list \<times> (items \<times> sstate) option" where
  "items_drain cf it st =
     (case items_next cf it st of
        SOk ev (it', st') \<Rightarrow> (let (evs, r) = items_drain cf it' st' in (ev # evs, r))
      | SFail s \<Rightarrow> ([], Some s)
      | SOob \<Rightarrow> ([], None))"
  by pat_completeness auto
termination
  by (relation "measure (\<lambda>(cf, it, st). length (rest st))") (auto dest: items_next_shrinks)

declare items_drain.simps [simp del]

text \<open>\<^verbatim>\<open>reader.items(prefix)\<close> followed by \<^verbatim>\<open>for_each\<close>.\<close>

definition items_for_each :: "sconf \<Rightarrow> bytes \<Rightarrow> sstate \<Rightarrow> exn + event list \<times> bool option" where
  "items_for_each cf prefix st =
     (case parse_prefix prefix of
        Inl e \<Rightarrow> Inl e
      | Inr p \<Rightarrow>
          (case items_drain cf (items_of p) st of
             (evs, r) \<Rightarrow> Inr (evs, map_option (\<lambda>(it', st'). ss_err st' = None) r)))"


section \<open>The cursor is a pull reader\<close>

definition items_live :: "sconf \<Rightarrow> bool \<Rightarrow> (event, items \<times> sstate) sres \<Rightarrow> bool" where
  "items_live cf bad r = (case r of
      SOk ev s \<Rightarrow> stream_live bad (snd s)
    | SFail s \<Rightarrow> stream_live bad (snd s) \<and> next_event cf (snd s) = SFail (snd s)
    | SOob \<Rightarrow> False)"

lemma items_next_live: "stream_live bad st \<Longrightarrow> items_live cf bad (items_next cf it st)"
proof (induction cf it st rule: items_next.induct)
  case (1 cf it st)
  show ?case
  proof (cases "next_event cf st")
    case (SOk e s)
    obtain emit it1 where i: "item_event e it = (emit, it1)" by fastforce
    have eq: "items_next cf it st = (if emit then SOk e (it1, s) else items_next cf it1 s)"
      using SOk i by (subst items_next.simps) simp
    have "stream_live bad s" by (rule events.live_ok [OF 1(2) SOk])
    then show ?thesis using 1(1) [OF SOk i [symmetric]] eq by (cases emit) (simp_all add: items_live_def)
  next
    case (SFail s)
    then show ?thesis
      using events.fail_final [OF 1(2) SFail] by (subst items_next.simps) (simp add: items_live_def)
  next
    case SOob
    then show ?thesis using events.pull_defined [OF 1(2), of cf] by simp
  qed
qed

interpretation filtered: pull_reader "\<lambda>(it, st). items_next cf it st" "\<lambda>(it, st). stream_left st"
  "\<lambda>(it, st). stream_live bad st" "\<lambda>(it, st). items_drain cf it st" for cf bad
proof (unfold_locales, goal_cases)
  case (1 s)
  obtain it st where s: "s = (it, st)" by (cases s)
  show ?case
    unfolding s by (simp add: items_drain.simps [of cf it st] case_prod_unfold Let_def split: sres.split)
next
  case (2 s a s')
  then show ?case using items_next_shrinks by (cases s; cases s') (simp add: stream_left_def)
next
  case (3 s)
  then show ?case using items_next_live [of bad "snd s" cf "fst s"] by (auto simp: items_live_def case_prod_unfold)
next
  case (4 s a s')
  then show ?case using items_next_live [of bad "snd s" cf "fst s"] by (simp add: items_live_def case_prod_unfold)
next
  case (5 s s')
  then have f: "stream_live bad (snd s')" "next_event cf (snd s') = SFail (snd s')"
    using items_next_live [of bad "snd s" cf "fst s"] by (simp_all add: items_live_def case_prod_unfold)
  then have "items_next cf (fst s') (snd s') = SFail s'" by (subst items_next.simps) simp
  then show ?case using f by (simp add: case_prod_unfold)
qed

end
