(* ===== verification/StreamItemsProofs.thy ===== *)
theory StreamItemsProofs
  imports StreamItems
begin

text \<open>
  The filtered cursor against its specification: the events of the sub-values that a list of
  patterns selects, and the prefix grammar against JSON Pointer.
\<close>

section \<open>Trees of events\<close>

datatype leaf = LNull | LBool bool | LInt u64 | LDouble u64 | LString bytes

datatype etree = ELeaf leaf | EArr "etree list" | EObj "(bytes \<times> etree) list"

fun leaf_event :: "leaf \<Rightarrow> event" where
  "leaf_event LNull = EvNull"
| "leaf_event (LBool b) = EvBoolean b"
| "leaf_event (LInt i) = EvInteger i"
| "leaf_event (LDouble d) = EvDouble d"
| "leaf_event (LString s) = EvString s"

fun leaf_value :: "leaf \<Rightarrow> jvalue" where
  "leaf_value LNull = JNull"
| "leaf_value (LBool b) = JBool b"
| "leaf_value (LInt i) = JInt i"
| "leaf_value (LDouble d) = JFloat d"
| "leaf_value (LString s) = JStr s"

text \<open>The events of a tree, its elements and its members; a member key may repeat.\<close>

fun tree_events :: "etree \<Rightarrow> event list"
and elem_events :: "etree list \<Rightarrow> event list"
and member_events :: "(bytes \<times> etree) list \<Rightarrow> event list" where
  "tree_events (ELeaf l) = [leaf_event l]"
| "tree_events (EArr ts) = BeginArray # elem_events ts @ [EndArray]"
| "tree_events (EObj ms) = BeginObject # member_events ms @ [EndObject]"
| "elem_events [] = []"
| "elem_events (t # ts) = tree_events t @ elem_events ts"
| "member_events [] = []"
| "member_events ((k, t) # ms) = MapKey k # tree_events t @ member_events ms"

text \<open>The value of a tree; of equal keys the last one stays, at the place of the first.\<close>

fun tree_value :: "etree \<Rightarrow> jvalue"
and elem_values :: "etree list \<Rightarrow> jvalue list"
and member_values :: "jentries \<Rightarrow> (bytes \<times> etree) list \<Rightarrow> jentries" where
  "tree_value (ELeaf l) = leaf_value l"
| "tree_value (EArr ts) = JArr (elem_values ts)"
| "tree_value (EObj ms) = JObj (member_values [] ms)"
| "elem_values [] = []"
| "elem_values (t # ts) = tree_value t # elem_values ts"
| "member_values acc [] = acc"
| "member_values acc ((k, t) # ms) = member_values (obj_put acc k (tree_value t)) ms"

section \<open>Selection\<close>

datatype pattern = AKey bytes | AnIndex nat | Anything

text \<open>The events of the sub-values whose path the patterns match.\<close>

fun select :: "pattern list \<Rightarrow> etree \<Rightarrow> event list"
and select_elems :: "pattern \<Rightarrow> pattern list \<Rightarrow> nat \<Rightarrow> etree list \<Rightarrow> event list"
and select_members :: "pattern \<Rightarrow> pattern list \<Rightarrow> (bytes \<times> etree) list \<Rightarrow> event list" where
  "select [] t = tree_events t"
| "select (p # ps) (ELeaf l) = []"
| "select (p # ps) (EArr ts) = select_elems p ps 0 ts"
| "select (p # ps) (EObj ms) = select_members p ps ms"
| "select_elems p ps i [] = []"
| "select_elems p ps i (t # ts) =
     (if p = Anything \<or> p = AnIndex i then select ps t else []) @ select_elems p ps (i + 1) ts"
| "select_members p ps [] = []"
| "select_members p ps ((k, t) # ms) = (if p = AKey k then select ps t else []) @ select_members p ps ms"

definition pattern_of :: "bytes \<Rightarrow> prefix_token \<Rightarrow> pattern" where
  "pattern_of raw tok =
     (case tok of AnyToken \<Rightarrow> Anything | IndexToken i \<Rightarrow> AnIndex i | KeyToken off n \<Rightarrow> AKey (token_key raw tok))"

definition patterns :: "items \<Rightarrow> pattern list" where
  "patterns it = List.map (pattern_of (it_raw it)) (it_prefix it)"

section \<open>The cursor as a filter\<close>

text \<open>The events that go out when the reader delivers \<open>es\<close>, and the state behind them.\<close>

fun emitted :: "items \<Rightarrow> event list \<Rightarrow> event list \<times> items" where
  "emitted it [] = ([], it)"
| "emitted it (e # es) =
     (case item_event e it of (emit, it') \<Rightarrow>
        (case emitted it' es of (r, it'') \<Rightarrow> (if emit then e # r else r, it'')))"

lemma emitted_append:
  "emitted it (es @ es') = (case emitted it es of (r, it') \<Rightarrow> (case emitted it' es' of (r', it'') \<Rightarrow> (r @ r', it'')))"
  by (induction it es rule: emitted.induct) (auto split: prod.splits)

lemma items_drain_step:
  "items_drain cf it st =
     (case next_event cf st of
        SOob \<Rightarrow> ([], None)
      | SFail st' \<Rightarrow> ([], Some (it, st'))
      | SOk ev st' \<Rightarrow>
          (case item_event ev it of (emit, it') \<Rightarrow>
             (case items_drain cf it' st' of (evs, r) \<Rightarrow> (if emit then ev # evs else evs, r))))"
proof (cases "next_event cf st")
  case (SOk e s)
  obtain emit it1 where i: "item_event e it = (emit, it1)" by fastforce
  have eq: "items_next cf it st = (if emit then SOk e (it1, s) else items_next cf it1 s)"
    using SOk i by (subst items_next.simps) simp
  show ?thesis
  proof (cases emit)
    case True
    then show ?thesis using eq SOk i by (subst items_drain.simps) (simp add: Let_def)
  next
    case False
    then have "items_drain cf it st = items_drain cf it1 s"
      using eq by (subst (1 2) items_drain.simps) simp
    then show ?thesis using SOk i False by simp
  qed
qed (subst items_drain.simps, subst items_next.simps, simp)+

lemma items_drain_emitted:
  "items_drain cf it st =
    (case emitted it (fst (drain cf st)) of (evs, it') \<Rightarrow> (evs, map_option (\<lambda>s. (it', s)) (snd (drain cf st))))"
proof (induction cf st arbitrary: it rule: drain.induct)
  case (1 cf st)
  show ?case
  proof (cases "next_event cf st")
    case (SOk e s)
    have "drain cf st = (e # fst (drain cf s), snd (drain cf s))"
      using SOk by (subst drain.simps) (simp add: case_prod_unfold Let_def)
    then show ?thesis
      using SOk 1 [OF SOk] by (subst items_drain_step) (simp split: prod.split)
  qed (simp_all add: items_drain_step [of cf it st] drain.simps [of cf st])
qed

text \<open>Inside a matched container everything goes out.\<close>

definition emitting :: "nat \<Rightarrow> items \<Rightarrow> bool" where
  "emitting n it \<longleftrightarrow> it_emitting it \<and> it_depth it = n"

definition retop :: "nat \<Rightarrow> items \<Rightarrow> items" where
  "retop n it = it\<lparr>it_frames := (hd (it_frames it))\<lparr>pf_next := n\<rparr> # tl (it_frames it)\<rparr>"

definition through :: "items \<Rightarrow> event list \<Rightarrow> bool" where
  "through it es \<longleftrightarrow> (\<exists>n. emitted it es = (es, retop n it))"

lemma retop_simps [simp]:
  "it_frames it \<noteq> [] \<Longrightarrow> retop (pf_next (hd (it_frames it))) it = it"
  "retop m (retop n it) = retop m it" "it_frames (retop n it) \<noteq> []"
  "it_emitting (retop n it) = it_emitting it" "it_depth (retop n it) = it_depth it"
  "it_prefix (retop n it) = it_prefix it" "it_raw (retop n it) = it_raw it" "it_pending (retop n it) = it_pending it"
  by (auto simp: retop_def neq_Nil_conv)

lemma through_append:
  assumes "through it es" "\<And>n. through (retop n it) es'"
  shows "through it (es @ es')"
proof -
  obtain n where n: "emitted it es = (es, retop n it)" using assms(1) by (auto simp: through_def)
  obtain m where "emitted (retop n it) es' = (es', retop m (retop n it))" using assms(2) by (auto simp: through_def)
  then show ?thesis using n by (auto simp: through_def emitted_append)
qed

lemma through_nil: "it_frames it \<noteq> [] \<Longrightarrow> through it []"
  by (auto simp: through_def intro!: exI [of _ "pf_next (hd (it_frames it))"])

lemma through_item:
  "it_frames it \<noteq> [] \<Longrightarrow> it_emitting it \<Longrightarrow> item_event e it = (True, it) \<Longrightarrow> through it [e]"
  by (auto simp: through_def intro!: exI [of _ "pf_next (hd (it_frames it))"])

lemma scalar_event: "item_event (leaf_event l) it = scalar_item it"
  by (cases l) (simp_all add: item_event_def)

lemma through_container:
  assumes it: "it_frames it \<noteq> []" "it_emitting it" "0 < it_depth it"
    and inner: "through ((push_frame b (-1) it)\<lparr>it_depth := it_depth it + 1\<rparr>) es"
    and ev: "item_event e it = begin_item b it" "\<And>it. item_event e' it = end_item it"
  shows "through it (e # es @ [e'])"
proof -
  let ?in = "(push_frame b (-1) it)\<lparr>it_depth := it_depth it + 1\<rparr>"
  obtain n where n: "emitted ?in es = (es, retop n ?in)" using inner by (auto simp: through_def)
  have e: "item_event e it = (True, ?in)" using ev(1) it(2) by (simp add: begin_item_def)
  have cl: "item_event e' (retop n ?in) = (True, next_child it)"
    using it by (simp add: ev(2) end_item_def retop_def push_frame_def next_child_def split: list.split)
  have "\<exists>m. next_child it = retop m it"
    using it(1) by (cases "it_frames it") (auto simp: next_child_def retop_def intro: exI [of _ "pf_next (hd (it_frames it))"])
  then show ?thesis using e n cl by (auto simp: through_def emitted_append)
qed

lemma through_tree:
  "it_frames it \<noteq> [] \<Longrightarrow> it_emitting it \<Longrightarrow> 0 < it_depth it \<Longrightarrow> through it (tree_events t)"
  "it_frames it \<noteq> [] \<Longrightarrow> it_emitting it \<Longrightarrow> 0 < it_depth it \<Longrightarrow> through it (elem_events ts)"
  "it_frames it \<noteq> [] \<Longrightarrow> it_emitting it \<Longrightarrow> 0 < it_depth it \<Longrightarrow> through it (member_events ms)"
proof (induction t and ts and ms arbitrary: it and it and it rule: tree_events_elem_events_member_events.induct)
  case (1 l)
  then show ?case by (simp add: through_item scalar_event scalar_item_def)
next
  case (2 ts)
  show ?case
    using through_container [OF 2(2-4), of False _ BeginArray EndArray] 2(1) 2(3)
    by (simp add: item_event_def push_frame_def)
next
  case (3 ms)
  show ?case
    using through_container [OF 3(2-4), of True _ BeginObject EndObject] 3(1) 3(3)
    by (simp add: item_event_def push_frame_def)
next
  case (5 t ts)
  then show ?case by (auto intro: through_append)
next
  case (7 k t ms)
  have "through it [MapKey k]" using 7(3,4) by (simp add: through_item item_event_def)
  moreover have "through (retop n it) (tree_events t @ member_events ms)" for n
    using 7 by (intro through_append) auto
  ultimately show ?case using through_append [of it "[MapKey k]"] by simp
qed (simp_all add: through_nil)

section \<open>Outside a match\<close>

text \<open>Two states that differ in fields that no longer matter once a value is passed.\<close>

definition after :: "items \<Rightarrow> items \<Rightarrow> bool" where
  "after it it' \<longleftrightarrow> it_frames it' = it_frames it \<and> it_prefix it' = it_prefix it \<and> it_raw it' = it_raw it \<and>
     it_emitting it' = it_emitting it"

definition quiet :: "items \<Rightarrow> event list \<Rightarrow> event list \<Rightarrow> items \<Rightarrow> bool" where
  "quiet it es out it' \<longleftrightarrow> (\<exists>it''. emitted it es = (out, it'') \<and> after it' it'')"

lemma after_refl [simp]: "after it it"
  by (simp add: after_def)

lemma after_trans: "after a b \<Longrightarrow> after b c \<Longrightarrow> after a c"
  by (simp add: after_def)

lemma after_next_child: "after a b \<Longrightarrow> after (next_child a) (next_child b)"
  by (simp add: after_def next_child_def split: list.split)

lemma patterns_cong: "it_prefix a = it_prefix b \<Longrightarrow> it_raw a = it_raw b \<Longrightarrow> patterns a = patterns b"
  by (simp add: patterns_def)

lemma patterns_sel [simp]:
  "patterns (it\<lparr>it_frames := fs\<rparr>) = patterns it" "patterns (it\<lparr>it_pending := p\<rparr>) = patterns it"
  "patterns (it\<lparr>it_depth := n\<rparr>) = patterns it" "patterns (it\<lparr>it_emitting := b\<rparr>) = patterns it"
  "patterns (push_frame b m it) = patterns it" "patterns (next_child it) = patterns it"
  by (auto simp: patterns_def push_frame_def next_child_def split: list.split)

lemma length_patterns [simp]: "length (patterns it) = length (it_prefix it)"
  by (simp add: patterns_def)

definition matching :: "int \<Rightarrow> items \<Rightarrow> bool" where
  "matching m it \<longleftrightarrow> m = -1 \<or> 0 \<le> m \<and> nat m \<le> length (it_prefix it)"

text \<open>The patterns that are left for a child with the given match length select from it.\<close>

definition chosen :: "int \<Rightarrow> items \<Rightarrow> etree \<Rightarrow> event list" where
  "chosen m it t = (if m < 0 then [] else select (drop (nat m) (patterns it)) t)"

definition chosen_elems :: "int \<Rightarrow> items \<Rightarrow> nat \<Rightarrow> etree list \<Rightarrow> event list" where
  "chosen_elems base it i ts =
     (if base < 0 \<or> length (it_prefix it) \<le> nat base then []
      else select_elems (patterns it ! nat base) (drop (Suc (nat base)) (patterns it)) i ts)"

definition chosen_members :: "int \<Rightarrow> items \<Rightarrow> (bytes \<times> etree) list \<Rightarrow> event list" where
  "chosen_members base it ms =
     (if base < 0 \<or> length (it_prefix it) \<le> nat base then []
      else select_members (patterns it ! nat base) (drop (Suc (nat base)) (patterns it)) ms)"

lemma chosen_open:
  assumes "matching m it" "\<not> full_match m it"
  shows "chosen m it (EArr ts) = chosen_elems m it 0 ts" "chosen m it (EObj ms) = chosen_members m it ms"
    "chosen m it (ELeaf l) = []"
proof -
  have "drop (nat m) (patterns it) = patterns it ! nat m # drop (Suc (nat m)) (patterns it)" "nat m < length (it_prefix it)" if "\<not> m < 0"
  proof -
    show "nat m < length (it_prefix it)" using assms that by (auto simp: matching_def full_match_def)
    then show "drop (nat m) (patterns it) = patterns it ! nat m # drop (Suc (nat m)) (patterns it)"
      by (simp add: Cons_nth_drop_Suc)
  qed
  then show "chosen m it (EArr ts) = chosen_elems m it 0 ts" "chosen m it (EObj ms) = chosen_members m it ms"
    "chosen m it (ELeaf l) = []"
    by (auto simp: chosen_def chosen_elems_def chosen_members_def)
qed

lemma chosen_full: "full_match m it \<Longrightarrow> chosen m it t = tree_events t"
  by (simp add: chosen_def full_match_def)

text \<open>A container that matches is passed on whole.\<close>

lemma quiet_match:
  assumes "\<not> it_emitting it" "full_match (child_match_len it) it"
    and "through ((push_frame b (child_match_len it) it)\<lparr>it_emitting := True, it_depth := 1\<rparr>) es"
    and "item_event e it = begin_item b it" "\<And>it. item_event e' it = end_item it"
  shows "quiet it (e # es @ [e']) (e # es @ [e']) (next_child it)"
proof -
  let ?in = "(push_frame b (child_match_len it) it)\<lparr>it_emitting := True, it_depth := 1\<rparr>"
  obtain n where n: "emitted ?in es = (es, retop n ?in)" using assms(3) by (auto simp: through_def)
  have e: "item_event e it = (True, ?in)" using assms(1,2,4) by (simp add: begin_item_def Let_def)
  have cl: "item_event e' (retop n ?in) = (True, (next_child it)\<lparr>it_depth := 0\<rparr>)"
    using assms(1) by (simp add: assms(5) end_item_def retop_def push_frame_def next_child_def split: list.split)
  have "after (next_child it) ((next_child it)\<lparr>it_depth := 0\<rparr>)" by (simp add: after_def)
  then show ?thesis using e n cl by (auto simp: quiet_def emitted_append)
qed

text \<open>One that does not is entered, and its children are looked at.\<close>

lemma quiet_enter:
  assumes "\<not> it_emitting it" "\<not> full_match (child_match_len it) it"
    and "quiet (push_frame b (child_match_len it) it) es out it'" "it_frames it' \<noteq> []"
    and "it'\<lparr>it_frames := tl (it_frames it')\<rparr> = it"
    and "item_event e it = begin_item b it" "\<And>it. item_event e' it = end_item it"
  shows "quiet it (e # es @ [e']) out (next_child it)"
proof -
  let ?in = "push_frame b (child_match_len it) it"
  obtain it2 where i: "emitted ?in es = (out, it2)" "after it' it2" using assms(3) by (auto simp: quiet_def)
  have e: "item_event e it = (False, ?in)" using assms(1,2,6) by (simp add: begin_item_def Let_def)
  let ?fin = "next_child (it2\<lparr>it_frames := tl (it_frames it2)\<rparr>)"
  have it: "after (it'\<lparr>it_frames := tl (it_frames it')\<rparr>) (it2\<lparr>it_frames := tl (it_frames it2)\<rparr>)"
    using i(2) by (simp add: after_def)
  then have "\<not> it_emitting it2" using assms(1) unfolding assms(5) by (simp add: after_def)
  then have cl: "item_event e' it2 = (False, ?fin)" by (simp add: assms(7) end_item_def)
  have "after (next_child it) ?fin" using after_next_child [OF it [unfolded assms(5)]] .
  then show ?thesis using e i(1) cl by (auto simp: quiet_def emitted_append)
qed

lemma quiet_append:
  assumes "quiet it es out it1" "\<And>it1'. after it1 it1' \<Longrightarrow> quiet it1' es' out' it2"
  shows "quiet it (es @ es') (out @ out') it2"
proof -
  obtain i1 where i1: "emitted it es = (out, i1)" "after it1 i1" using assms(1) by (auto simp: quiet_def)
  obtain i2 where "emitted i1 es' = (out', i2)" "after it2 i2" using assms(2) [OF i1(2)] by (auto simp: quiet_def)
  then show ?thesis using i1(1) by (auto simp: quiet_def emitted_append)
qed

lemma quiet_weaken: "quiet it es out a \<Longrightarrow> after b a \<Longrightarrow> quiet it es out b"
  by (auto simp: quiet_def intro: after_trans)

lemma quiet_key: "\<not> it_emitting it \<Longrightarrow> emitted it [MapKey k] = ([], on_map_key k it)"
  by (simp add: item_event_def)

lemma quiet_leaf:
  assumes "\<not> it_emitting it" "matching (child_match_len it) it"
  shows "quiet it [leaf_event l] (chosen (child_match_len it) it (ELeaf l)) (next_child it)"
proof -
  let ?m = "child_match_len it"
  have "emitted it [leaf_event l] = (if full_match ?m it then [leaf_event l] else [], (next_child it)\<lparr>it_pending := -1\<rparr>)"
    using assms(1) by (simp add: scalar_event scalar_item_def Let_def)
  moreover have "chosen ?m it (ELeaf l) = (if full_match ?m it then [leaf_event l] else [])"
    using chosen_open(3) [OF assms(2)] chosen_full [of ?m it] by simp
  ultimately show ?thesis by (simp add: quiet_def after_def)
qed

text \<open>The match length of the next element of an array, and of the member behind a key.\<close>

lemma element_match:
  assumes "it_frames it = f # fs" "\<not> pf_object f" "matching (pf_match f) it"
  shows "matching (child_match_len it) it"
    "chosen (child_match_len it) it t @ chosen_elems (pf_match f) it (pf_next f + 1) ts =
      chosen_elems (pf_match f) it (pf_next f) (t # ts)"
proof -
  let ?b = "pf_match f"
  have m: "child_match_len it = (if ?b < 0 \<or> length (it_prefix it) \<le> nat ?b then -1
      else if it_prefix it ! nat ?b = AnyToken \<or> it_prefix it ! nat ?b = IndexToken (pf_next f) then ?b + 1 else -1)"
    using assms by (simp add: child_match_len_def Let_def)
  have p: "patterns it ! nat ?b = pattern_of (it_raw it) (it_prefix it ! nat ?b)" if "nat ?b < length (it_prefix it)"
    using that by (simp add: patterns_def)
  have q: "pattern_of r tok = Anything \<longleftrightarrow> tok = AnyToken" "pattern_of r tok = AnIndex i \<longleftrightarrow> tok = IndexToken i" for r tok i
    by (cases tok; simp add: pattern_of_def)+
  have s: "nat (?b + 1) = Suc (nat ?b)" if "\<not> ?b < 0" using that by simp
  show "matching (child_match_len it) it" using m s by (auto simp: matching_def)
  show "chosen (child_match_len it) it t @ chosen_elems ?b it (pf_next f + 1) ts = chosen_elems ?b it (pf_next f) (t # ts)"
    using p q s by (auto simp: m chosen_def chosen_elems_def)
qed

lemma on_map_key_after: "after it (on_map_key k it)"
  by (auto simp: on_map_key_def after_def Let_def split: list.splits prefix_token.splits)

lemma member_match:
  assumes "it_frames it = f # fs" "pf_object f" "matching (pf_match f) it"
  shows "matching (child_match_len (on_map_key k it)) (on_map_key k it)"
    "chosen (child_match_len (on_map_key k it)) (on_map_key k it) t @ chosen_members (pf_match f) it ms =
      chosen_members (pf_match f) it ((k, t) # ms)"
proof -
  let ?b = "pf_match f" and ?k = "on_map_key k it"
  have k: "it_frames ?k = it_frames it" "it_prefix ?k = it_prefix it" "it_raw ?k = it_raw it"
    using on_map_key_after [of it k] by (simp_all add: after_def)
  have pk: "patterns ?k = patterns it" using k by (intro patterns_cong) auto
  have p: "patterns it ! nat ?b = pattern_of (it_raw it) (it_prefix it ! nat ?b)" if "nat ?b < length (it_prefix it)"
    using that by (simp add: patterns_def)
  have q: "pattern_of r tok = AKey k \<longleftrightarrow> (\<exists>off n. tok = KeyToken off n \<and> k = token_key r tok)" for r tok
    by (cases tok) (auto simp: pattern_of_def)
  have pend: "it_pending ?k = (if ?b < 0 \<or> length (it_prefix it) \<le> nat ?b then -1
      else if pattern_of (it_raw it) (it_prefix it ! nat ?b) = AKey k then ?b + 1 else -1)"
    using assms by (auto simp: on_map_key_def Let_def q split: prefix_token.splits)
  have m: "child_match_len ?k = it_pending ?k"
    using assms k pend by (simp add: child_match_len_def Let_def)
  have s: "nat (?b + 1) = Suc (nat ?b)" if "\<not> ?b < 0" using that by simp
  show "matching (child_match_len ?k) ?k" using m k s pend by (auto simp: matching_def)
  show "chosen (child_match_len ?k) ?k t @ chosen_members ?b it ms = chosen_members ?b it ((k, t) # ms)"
    using p s by (auto simp: m k pk pend chosen_def chosen_members_def)
qed

lemma push_frame_sel [simp]:
  "it_frames (push_frame b m it) = \<lparr>pf_object = b, pf_match = m, pf_next = 0\<rparr> # it_frames it"
  "it_emitting (push_frame b m it) = it_emitting it" "it_prefix (push_frame b m it) = it_prefix it"
  "(push_frame b m it)\<lparr>it_frames := it_frames it\<rparr> = it"
  by (simp_all add: push_frame_def)

lemma quiet_tree:
  "\<not> it_emitting it \<Longrightarrow> matching (child_match_len it) it \<Longrightarrow>
    quiet it (tree_events t) (chosen (child_match_len it) it t) (next_child it)"
  "\<not> it_emitting it \<Longrightarrow> it_frames it = f # fs \<Longrightarrow> \<not> pf_object f \<Longrightarrow> matching (pf_match f) it \<Longrightarrow>
    quiet it (elem_events ts) (chosen_elems (pf_match f) it (pf_next f) ts)
      (it\<lparr>it_frames := f\<lparr>pf_next := pf_next f + length ts\<rparr> # fs\<rparr>)"
  "\<not> it_emitting it \<Longrightarrow> it_frames it = f # fs \<Longrightarrow> pf_object f \<Longrightarrow> matching (pf_match f) it \<Longrightarrow>
    quiet it (member_events ms) (chosen_members (pf_match f) it ms) it"
proof (induction t and ts and ms arbitrary: it and it f fs and it f fs rule: tree_events_elem_events_member_events.induct)
  case (1 l)
  then show ?case using quiet_leaf by simp
next
  case (2 ts)
  let ?m = "child_match_len it" and ?in = "push_frame False (child_match_len it) it"
  have ev: "item_event BeginArray it = begin_item False it" "item_event EndArray it' = end_item it'" for it'
    by (simp_all add: item_event_def)
  show ?case
  proof (cases "full_match ?m it")
    case True
    show ?thesis
      using quiet_match [OF 2(2) True through_tree(2) ev] by (simp add: chosen_full [OF True])
  next
    case False
    have "matching ?m ?in" "\<not> it_emitting ?in" using 2(2,3) by (simp_all add: matching_def)
    then have "quiet ?in (elem_events ts) (chosen_elems ?m ?in 0 ts)
        (?in\<lparr>it_frames := \<lparr>pf_object = False, pf_match = ?m, pf_next = length ts\<rparr> # it_frames it\<rparr>)"
      using 2(1) [of ?in "\<lparr>pf_object = False, pf_match = ?m, pf_next = 0\<rparr>" "it_frames it"] by simp
    moreover have "chosen_elems ?m ?in 0 ts = chosen ?m it (EArr ts)"
      using chosen_open(1) [OF 2(3) False] by (simp add: chosen_elems_def)
    ultimately show ?thesis
      using quiet_enter [OF 2(2) False _ _ _ ev] by simp
  qed
next
  case (3 ms)
  let ?m = "child_match_len it" and ?in = "push_frame True (child_match_len it) it"
  have ev: "item_event BeginObject it = begin_item True it" "item_event EndObject it' = end_item it'" for it'
    by (simp_all add: item_event_def)
  show ?case
  proof (cases "full_match ?m it")
    case True
    show ?thesis
      using quiet_match [OF 3(2) True through_tree(3) ev] by (simp add: chosen_full [OF True])
  next
    case False
    have "matching ?m ?in" "\<not> it_emitting ?in" using 3(2,3) by (simp_all add: matching_def)
    then have "quiet ?in (member_events ms) (chosen_members ?m ?in ms) ?in"
      using 3(1) [of ?in "\<lparr>pf_object = True, pf_match = ?m, pf_next = 0\<rparr>" "it_frames it"] by simp
    moreover have "chosen_members ?m ?in ms = chosen ?m it (EObj ms)"
      using chosen_open(2) [OF 3(3) False] by (simp add: chosen_members_def)
    ultimately show ?thesis
      using quiet_enter [OF 3(2) False _ _ _ ev] by simp
  qed
next
  case (4 it f fs)
  then show ?case by (simp add: quiet_def chosen_elems_def after_def)
next
  case (5 t ts)
  note em = element_match [OF 5(4,5,6)]
  let ?n = "next_child it" and ?f = "f\<lparr>pf_next := pf_next f + 1\<rparr>"
  have t: "quiet it (tree_events t) (chosen (child_match_len it) it t) ?n" by (rule 5(1) [OF 5(3) em(1)])
  have n: "it_frames ?n = ?f # fs" "it_prefix ?n = it_prefix it" "it_emitting ?n = it_emitting it" "it_raw ?n = it_raw it"
    using 5(4,5) by (simp_all add: next_child_def)
  have "quiet it' (elem_events ts) (chosen_elems (pf_match f) it (pf_next f + 1) ts)
      (it\<lparr>it_frames := f\<lparr>pf_next := pf_next f + length (t # ts)\<rparr> # fs\<rparr>)" if af: "after ?n it'" for it'
  proof -
    have a: "it_frames it' = ?f # fs" "it_prefix it' = it_prefix it" "it_emitting it' = it_emitting it" "it_raw it' = it_raw it"
      using af n by (simp_all add: after_def)
    have "quiet it' (elem_events ts) (chosen_elems (pf_match f) it' (pf_next f + 1) ts)
        (it'\<lparr>it_frames := ?f\<lparr>pf_next := pf_next ?f + length ts\<rparr> # fs\<rparr>)"
      using 5(2) [OF _ a(1)] 5(3,5,6) a by (simp add: matching_def)
    moreover have "patterns it' = patterns it" using a by (intro patterns_cong) auto
    then have "chosen_elems (pf_match f) it' (pf_next f + 1) ts = chosen_elems (pf_match f) it (pf_next f + 1) ts"
      using a by (simp add: chosen_elems_def)
    ultimately have "quiet it' (elem_events ts) (chosen_elems (pf_match f) it (pf_next f + 1) ts)
        (it'\<lparr>it_frames := ?f\<lparr>pf_next := pf_next ?f + length ts\<rparr> # fs\<rparr>)" by simp
    then show ?thesis by (rule quiet_weaken) (use a in \<open>simp add: after_def\<close>)
  qed
  from quiet_append [OF t this] show ?case using em(2) by simp
next
  case (6 it f fs)
  then show ?case by (simp add: quiet_def chosen_members_def)
next
  case (7 k t ms)
  note mm = member_match [OF 7(4,5,6), of k]
  let ?k = "on_map_key k it"
  have k: "after it ?k" by (rule on_map_key_after)
  have nk: "next_child ?k = ?k" using k 7(4,5) by (simp add: next_child_def after_def)
  have ms: "quiet it' (member_events ms) (chosen_members (pf_match f) it ms) it" if af: "after ?k it'" for it'
  proof -
    have a: "after it it'" using k af after_trans by blast
    then have "quiet it' (member_events ms) (chosen_members (pf_match f) it' ms) it'"
      using 7(2) [of it' f fs] 7(3-6) by (simp add: after_def matching_def)
    moreover have "patterns it' = patterns it" using a by (intro patterns_cong) (simp_all add: after_def)
    then have "chosen_members (pf_match f) it' ms = chosen_members (pf_match f) it ms"
      using a by (simp add: chosen_members_def after_def)
    ultimately have "quiet it' (member_events ms) (chosen_members (pf_match f) it ms) it'" by simp
    then show ?thesis by (rule quiet_weaken) (rule a)
  qed
  have "\<not> it_emitting ?k" using k 7(3) by (simp add: after_def)
  then have "quiet ?k (tree_events t) (chosen (child_match_len ?k) ?k t) ?k" using 7(1) mm(1) nk by metis
  from quiet_append [OF this ms]
  have "quiet ?k (tree_events t @ member_events ms) (chosen_members (pf_match f) it ((k, t) # ms)) it" using mm(2) by simp
  then show ?case using 7(3) by (simp add: quiet_def item_event_def)
qed

section \<open>The whole stream\<close>

lemma emitted_roots:
  "\<not> it_emitting it \<Longrightarrow> it_frames it = [] \<Longrightarrow> quiet it (elem_events ts) (concat (List.map (select (patterns it)) ts)) it"
proof (induction ts arbitrary: it)
  case Nil
  then show ?case by (simp add: quiet_def)
next
  case (Cons t ts)
  have m: "child_match_len it = 0" and n: "next_child it = it" using Cons.prems by (simp_all add: child_match_len_def next_child_def)
  have t: "quiet it (tree_events t) (select (patterns it) t) it"
    using quiet_tree(1) [OF Cons.prems(1), of t] by (simp add: m n matching_def chosen_def)
  have "quiet it' (elem_events ts) (concat (List.map (select (patterns it)) ts)) it" if af: "after it it'" for it'
  proof -
    have "patterns it' = patterns it" using af by (intro patterns_cong) (simp_all add: after_def)
    then have "quiet it' (elem_events ts) (concat (List.map (select (patterns it)) ts)) it'"
      using Cons.IH [of it'] Cons.prems af by (simp add: after_def)
    then show ?thesis by (rule quiet_weaken) (rule af)
  qed
  from quiet_append [OF t this] show ?case by simp
qed

text \<open>Every sequence of events that spells values is the sequence of some trees.\<close>

datatype open_tree = OArr "etree list" | OObj "(bytes \<times> etree) list" "bytes option"

fun partial_of :: "open_tree \<Rightarrow> partial" where
  "partial_of (OArr ts) = PArr (elem_values ts)"
| "partial_of (OObj ms k) = PObj (member_values [] ms) k"

fun open_events :: "open_tree list \<Rightarrow> event list" where
  "open_events [] = []"
| "open_events (OArr ts # s) = open_events s @ BeginArray # elem_events ts"
| "open_events (OObj ms k # s) =
     open_events s @ BeginObject # member_events ms @ (case k of None \<Rightarrow> [] | Some k \<Rightarrow> [MapKey k])"

lemma elem_append [simp]:
  "elem_events (ts @ us) = elem_events ts @ elem_events us" "elem_values (ts @ us) = elem_values ts @ elem_values us"
  by (induction ts) simp_all

lemma elem_values_map: "elem_values ts = List.map tree_value ts"
  by (induction ts) simp_all

lemma member_append [simp]:
  "member_events (ms @ ns) = member_events ms @ member_events ns"
  "member_values acc (ms @ ns) = member_values (member_values acc ms) ns"
  by (induction ms arbitrary: acc) auto

lemma place_tree:
  assumes "place (tree_value t) (List.map partial_of s) = Some r"
  shows "(s = [] \<and> r = ([], Some (tree_value t))) \<or>
    (\<exists>s'. r = (List.map partial_of s', None) \<and> open_events s' = open_events s @ tree_events t)"
proof (cases s)
  case (Cons x s0)
  show ?thesis
  proof (cases x)
    case (OArr ts)
    then show ?thesis using assms Cons by (intro disjI2 exI [of _ "OArr (ts @ [t]) # s0"]) simp
  next
    case (OObj ms k)
    then obtain k' where "k = Some k'" using assms Cons by (cases k) auto
    then show ?thesis using assms Cons OObj by (intro disjI2 exI [of _ "OObj (ms @ [(k', t)]) None # s0"]) simp
  qed
qed (use assms in simp)

text \<open>An event completes a root, or extends the open containers.\<close>

definition extends :: "open_tree list \<Rightarrow> event list \<Rightarrow> partial list \<times> jvalue option \<Rightarrow> bool" where
  "extends s es r \<longleftrightarrow>
     (\<exists>t. r = ([], Some (tree_value t)) \<and> open_events s @ es = tree_events t) \<or>
     (\<exists>s'. r = (List.map partial_of s', None) \<and> open_events s' = open_events s @ es)"

lemma place_extends:
  "place (tree_value t) (List.map partial_of s) = Some r \<Longrightarrow> extends s (tree_events t) r"
  using place_tree [of t s r] by (auto simp: extends_def)

lemma leaf_extends:
  "place (leaf_value l) (List.map partial_of s) = Some r \<Longrightarrow> extends s [leaf_event l] r"
  using place_extends [of "ELeaf l"] by simp

lemma close_extends:
  assumes "place (tree_value t) (List.map partial_of s) = Some r" "open_events s @ tree_events t = open_events s' @ es"
  shows "extends s' es r"
  using place_extends [OF assms(1)] assms(2) by (auto simp: extends_def)

lemma take_tree:
  assumes "take_event e (List.map partial_of s) = Some r"
  shows "extends s [e] r"
proof (cases e)
  case BeginObject
  then show ?thesis using assms by (auto simp: take_event_def extends_def intro!: exI [of _ "OObj [] None # s"])
next
  case BeginArray
  then show ?thesis using assms by (auto simp: take_event_def extends_def intro!: exI [of _ "OArr [] # s"])
next
  case (MapKey k)
  then obtain ms s0 where "s = OObj ms None # s0"
    using assms by (cases s; cases "hd s") (auto simp: take_event_def split: option.splits)
  then show ?thesis using assms MapKey by (auto simp: take_event_def extends_def intro!: exI [of _ "OObj ms (Some k) # s0"])
next
  case EndObject
  then obtain ms s0 where s: "s = OObj ms None # s0"
    using assms by (cases s; cases "hd s") (auto simp: take_event_def split: option.splits)
  then show ?thesis using assms EndObject by (intro close_extends [of "EObj ms" s0]) (simp_all add: take_event_def)
next
  case EndArray
  then obtain ts s0 where s: "s = OArr ts # s0"
    using assms by (cases s; cases "hd s") (auto simp: take_event_def split: option.splits)
  then show ?thesis using assms EndArray by (intro close_extends [of "EArr ts" s0]) (simp_all add: take_event_def)
qed (use assms leaf_extends [of LNull] leaf_extends [of "LBool _"] leaf_extends [of "LInt _"] leaf_extends [of "LDouble _"]
      leaf_extends [of "LString _"] in \<open>simp_all add: take_event_def\<close>)

lemma assemble_trees:
  "assemble (List.map partial_of s) es = Some vs \<Longrightarrow> \<exists>ts. open_events s @ es = elem_events ts \<and> elem_values ts = vs"
proof (induction es arbitrary: s vs)
  case Nil
  then have "s = []" "vs = []" by (auto split: if_splits)
  then show ?case by (intro exI [of _ "[]"]) simp
next
  case (Cons e es)
  obtain r where r: "take_event e (List.map partial_of s) = Some r" "resume (Some r) es = Some vs"
    using Cons.prems by (cases "take_event e (List.map partial_of s)") (auto simp: assemble_Cons resume_def)
  from take_tree [OF r(1)]
  show ?case
    unfolding extends_def
  proof (elim disjE exE conjE)
    fix s' assume "r = (List.map partial_of s', None)" "open_events s' = open_events s @ [e]"
    then show ?case using Cons.IH [of s' vs] r(2) by simp
  next
    fix t assume t: "r = ([], Some (tree_value t))" "open_events s @ [e] = tree_events t"
    then obtain vs' where "assemble [] es = Some vs'" "vs = tree_value t # vs'" using r(2) by (auto simp: resume_def)
    then obtain ts where "es = elem_events ts" "elem_values ts = vs'" using Cons.IH [of "[]" vs'] by auto
    then show ?case
      using \<open>vs = tree_value t # vs'\<close> by (intro exI [of _ "t # ts"]) (use arg_cong [OF t(2), of "\<lambda>x. x @ es"] in simp)
  qed
qed

section \<open>The prefix is a JSON Pointer\<close>

text \<open>How an RFC 6901 reference token is read as a pattern.\<close>

definition key_pattern :: "bytes \<Rightarrow> pattern" where
  "key_pattern k =
     (if k = lit ''*'' then Anything
      else case parse_decimal_index k of Some i \<Rightarrow> AnIndex i | None \<Rightarrow> AKey k)"

definition prefix_patterns :: "bytes \<Rightarrow> pattern list option" where
  "prefix_patterns p = (case parse_prefix p of Inl _ \<Rightarrow> None | Inr q \<Rightarrow> Some (patterns (items_of q)))"

lemma unescape_prefix: "unescape_token (a @ b) s = map_sum id (\<lambda>u. a @ u) (unescape_token b s)"
proof (induction b s rule: unescape_token.induct)
  case (2 b c r)
  show ?case
  proof (cases "c = 0x7E")
    case True
    then show ?thesis using 2 by (cases r) simp_all
  next
    case False
    then show ?thesis using 2(1) by simp
  qed
qed simp

lemma decode_prefix_unescape:
  "decode_prefix raw s = (case unescape_token [] s of Inl _ \<Rightarrow> Inl bad_prefix_escape | Inr u \<Rightarrow> Inr (raw @ u))"
proof (induction raw s rule: decode_prefix.induct)
  case (2 raw c s)
  have one: "unescape_token [d] r = map_sum id (\<lambda>u. d # u) (unescape_token [] r)" for d r
    using unescape_prefix [of "[d]" "[]" r] by simp
  show ?case
  proof (cases "c = 0x7E")
    case True
    then show ?thesis using 2(1,2) one by (cases s) (auto split: sum.splits)
  next
    case False
    then show ?thesis using 2(3) one by (auto split: sum.splits)
  qed
qed simp

lemma classify_pattern: "pattern_of (raw @ u @ z) (classify_token (length raw) u) = key_pattern u"
  by (simp add: pattern_of_def classify_token_def key_pattern_def split: option.split)

definition denotes_keys :: "bytes \<Rightarrow> prefix_token list \<Rightarrow> bytes list \<Rightarrow> bool" where
  "denotes_keys raw toks ks \<longleftrightarrow> (\<forall>z. List.map (pattern_of (raw @ z)) toks = List.map key_pattern ks)"

lemma denotes_keys_append:
  "denotes_keys raw toks ks \<Longrightarrow> denotes_keys (raw @ u) (toks @ [classify_token (length raw) u]) (ks @ [u])"
  using classify_pattern by (simp add: denotes_keys_def)

lemma prefix_loop_pointer:
  assumes "denotes_keys raw toks ks"
  shows "(\<exists>e e'. prefix_loop p raw toks = Inl e \<and> pointer_tokens p ks = Inl e') \<or>
    (\<exists>raw' toks' ks'. prefix_loop p raw toks = Inr (raw', toks') \<and> pointer_tokens p ks = Inr ks' \<and> denotes_keys raw' toks' ks')"
  using assms
proof (induction p ks arbitrary: raw toks rule: pointer_tokens.induct)
  case (1 p ks)
  let ?piece = "takeWhile (\<lambda>c. c \<noteq> 0x2F) p" and ?tail = "dropWhile (\<lambda>c. c \<noteq> 0x2F) p"
  show ?case
  proof (cases "unescape_token [] ?piece")
    case (Inl e)
    then show ?thesis by (subst prefix_loop.simps, subst pointer_tokens.simps) (simp add: decode_prefix_unescape Let_def)
  next
    case (Inr u)
    note dk = denotes_keys_append [OF 1(2), of u]
    have pl: "prefix_loop p raw toks = (let toks' = toks @ [classify_token (length raw) u] in
        if ?tail = [] then Inr (raw @ u, toks') else prefix_loop (tl ?tail) (raw @ u) toks')"
      using Inr by (subst prefix_loop.simps) (simp add: decode_prefix_unescape Let_def)
    have pt: "pointer_tokens p ks = (if ?tail = [] then Inr (ks @ [u]) else pointer_tokens (tl ?tail) (ks @ [u]))"
      using Inr by (subst pointer_tokens.simps) (simp add: Let_def)
    show ?thesis
    proof (cases "?tail = []")
      case True
      then show ?thesis using pl pt dk by auto
    next
      case False
      show ?thesis
        using 1(1) [OF refl refl Inr False dk] unfolding pl pt Let_def if_not_P [OF False] .
    qed
  qed
qed

lemma prefix_patterns_pointer:
  "prefix_patterns p = map_option (List.map key_pattern) (pointer_of p)"
proof (cases p)
  case Nil
  then show ?thesis
    by (simp add: prefix_patterns_def parse_prefix_def pointer_of_def parse_json_pointer_def patterns_def items_of_def)
next
  case (Cons c r)
  have "denotes_keys [] [] []" by (simp add: denotes_keys_def)
  from prefix_loop_pointer [OF this, of r]
  show ?thesis
    using Cons by (auto simp: prefix_patterns_def parse_prefix_def pointer_of_def parse_json_pointer_def
        patterns_def items_of_def denotes_keys_def dest!: spec [of _ "[]"])
qed

text \<open>
  C32: the prefix argument of \<^verbatim>\<open>StreamReader::items\<close> is exactly a JSON Pointer: it is
  rejected when the pointer parser of the patch engine rejects the same text, and otherwise its
  tokens are the pointer's, with \<^verbatim>\<open>*\<close> read as any element, a decimal number that fits
  \<^verbatim>\<open>size_t\<close> as an array index, and everything else as a member name.
\<close>
theorem items_prefix_pointer:
  "prefix_patterns p = map_option (List.map key_pattern) (pointer_of p)"
  by (rule prefix_patterns_pointer)

text \<open>
  C31: iterating \<^verbatim>\<open>items(prefix)\<close> over a stream that the reader reads cleanly hands out
  exactly the events of the sub-values whose path matches the prefix: for every root in turn,
  in stream order and each one whole, duplicate members included. The stream's own events
  are those of the same trees, and their values are the values the stream delivers.
\<close>
theorem items_select:
  assumes "pointer_of prefix = Some ks" "delivers cf t vs"
  shows "\<exists>ts. for_each_event cf (reader_start t False) = (concat (List.map tree_events ts), Some True) \<and>
    List.map tree_value ts = vs \<and>
    items_for_each cf prefix (reader_start t False) =
      Inr (concat (List.map (select (List.map key_pattern ks)) ts), Some True)"
proof -
  let ?st = "reader_start t False"
  obtain es s where d: "drain cf ?st = (es, Some s)" "ss_err s = None" "assemble [] es = Some vs"
    using assms(2) by (auto simp: delivers_def)
  obtain ts where ts: "es = elem_events ts" "elem_values ts = vs" using assemble_trees [of "[]" es vs] d(3) by auto
  have ev: "elem_events ts = concat (List.map tree_events ts)" by (induction ts) simp_all
  have "prefix_patterns prefix = Some (List.map key_pattern ks)" by (simp add: prefix_patterns_pointer assms(1))
  then obtain q where q: "parse_prefix prefix = Inr q" "patterns (items_of q) = List.map key_pattern ks"
    by (auto simp: prefix_patterns_def split: sum.splits)
  have "quiet (items_of q) (elem_events ts) (concat (List.map (select (patterns (items_of q))) ts)) (items_of q)"
    by (rule emitted_roots) (simp_all add: items_of_def)
  then have "fst (emitted (items_of q) es) = concat (List.map (select (List.map key_pattern ks)) ts)"
    using ts(1) q(2) by (auto simp: quiet_def)
  then show ?thesis
    using d ts ev q(1) by (intro exI [of _ ts]) (simp add: for_each_event_def items_for_each_def items_drain_emitted elem_values_map case_prod_unfold)
qed

theorem items_select_witness:
  "\<exists>ts. List.map tree_value ts = [JArr [JBool True]] \<and>
    items_for_each (capture default_config SingleRoot 1) (lit ''/0'') (reader_start (lit ''[true]'') False) =
      Inr (concat (List.map (select [AnIndex 0]) ts), Some True)"
proof -
  have t: "lit ''[true]'' = [] @ ([0x5B] @ ([] @ lit ''true'' @ []) @ [0x5D]) @ []" by (simp add: lit_def)
  have d: "delivers (capture default_config SingleRoot 1) (lit ''[true]'') [JArr [JBool True]]"
    using single_root_denotes [of "lit ''[true]''"] denotes_array_of_true
    by (simp add: lit_def event_config_def default_config_def)
  have k: "pointer_of (lit ''/0'') = Some [[0x30]]"
    by (simp add: pointer_of_Some parse_pointer_iff lit_def escape_token_def escape_char_def)
  have p: "key_pattern [0x30] = AnIndex 0"
    by (simp add: key_pattern_def lit_def parse_decimal_index_def)
  show ?thesis using items_select [OF k d] unfolding list.map p by (elim exE conjE) (intro exI conjI)
qed

end
