(* ===== verification/JsonlReader.thy ===== *)
theory JsonlReader
  imports PullReader Parser
begin

text \<open>
  The line reader \<^verbatim>\<open>JsonlReader\<close> of \<^verbatim>\<open>include/pjh_json/stream.hpp\<close> and
  \<^verbatim>\<open>src/parser/stream.cpp\<close>: one document per line that is not blank, each line parsed by
  \<^verbatim>\<open>parse_copy\<close> on its own.
\<close>

section \<open>The reader\<close>

definition is_blank :: "bytes \<Rightarrow> bool" where
  "is_blank line = list_all is_whitespace line"

text \<open>The stream is what it has yet to deliver, and whether it goes bad behind that.\<close>

record jstate =
  js_in :: bytes
  js_bad :: bool
  js_started :: bool
  js_err :: "error option"

definition jsonl_start :: "bytes \<Rightarrow> bool \<Rightarrow> jstate" where
  "jsonl_start t bad = \<lparr>js_in = t, js_bad = bad, js_started = False, js_err = None\<rparr>"

text \<open>
  \<^verbatim>\<open>std::getline\<close>: the bytes up to a line feed, or up to the end of the stream when there
  are any; \<^term>\<open>None\<close> when it leaves the stream failed.
\<close>

definition getline :: "jstate \<Rightarrow> (bytes \<times> jstate) option" where
  "getline st =
     (let line = takeWhile (\<lambda>c. c \<noteq> 0x0A) (js_in st); r = dropWhile (\<lambda>c. c \<noteq> 0x0A) (js_in st)
      in if r \<noteq> [] then Some (line, st\<lparr>js_in := tl r\<rparr>)
         else if js_bad st \<or> line = [] then None
         else Some (line, st\<lparr>js_in := []\<rparr>))"

lemma getline_shrinks: "getline st = Some (line, st') \<Longrightarrow> length (js_in st') < length (js_in st)"
proof -
  assume g: "getline st = Some (line, st')"
  let ?r = "dropWhile (\<lambda>c. c \<noteq> 0x0A) (js_in st)"
  have "length ?r \<le> length (js_in st)" by (rule length_dropWhile_le)
  then show ?thesis
    using g by (cases ?r; cases "js_in st") (auto simp: getline_def Let_def split: if_splits)
qed

definition pop_cr :: "bytes \<Rightarrow> bytes" where
  "pop_cr line = (if line \<noteq> [] \<and> last line = 0x0D then butlast line else line)"

definition jsonl_fail :: "error_code \<Rightarrow> bool \<Rightarrow> jstate \<Rightarrow> jstate" where
  "jsonl_fail c at_offset st =
     st\<lparr>js_err := Some (if at_offset then positioned_error c 0 else context_error c CatParse [])\<rparr>"

function jsonl_next :: "config \<Rightarrow> platform \<Rightarrow> jstate \<Rightarrow> (document, jstate) sres" where
  "jsonl_next cfg pl st0 =
     (if js_err st0 \<noteq> None then SFail st0
      else case getline st0 of
        None \<Rightarrow> SFail (if js_bad st0 then jsonl_fail StreamReadFailed False (st0\<lparr>js_in := []\<rparr>) else st0)
      | Some (line0, st1) \<Rightarrow>
          let line1 = pop_cr line0;
              whole_stream_start = (\<not> js_started st0);
              st = st1\<lparr>js_started := True\<rparr>;
              line = (if whole_stream_start \<and> cfg_strip_bom cfg \<and> starts_with_utf8_bom line1 then drop 3 line1 else line1)
          in if cfg_strip_bom cfg \<and> starts_with_utf8_bom line
               then SFail (jsonl_fail UnexpectedValueCharacter True st)
             else if is_blank line then jsonl_next cfg pl st
             else (case parse_copy_impl cfg pl line of
                     Ok doc \<Rightarrow> SOk doc st
                   | Err e \<Rightarrow> SFail (st\<lparr>js_err := Some e\<rparr>)
                   | Undefined \<Rightarrow> SOob))"
  by pat_completeness auto
termination
  by (relation "measure (\<lambda>(cfg, pl, st). length (js_in st))") (auto dest: getline_shrinks)

declare jsonl_next.simps [simp del]

text \<open>The throwing shell: a document, the end, or the recorded error as an exception.\<close>

datatype jsonl_pulled = JsonlDocument document | JsonlEnd | JsonlThrown error | JsonlUndefined

definition jsonl_next_shell :: "config \<Rightarrow> platform \<Rightarrow> jstate \<Rightarrow> jsonl_pulled \<times> jstate" where
  "jsonl_next_shell cfg pl st =
     (case jsonl_next cfg pl st of
        SOk doc st' \<Rightarrow> (JsonlDocument doc, st')
      | SFail st' \<Rightarrow> ((case js_err st' of Some e \<Rightarrow> JsonlThrown e | None \<Rightarrow> JsonlEnd), st')
      | SOob \<Rightarrow> (JsonlUndefined, st))"

lemma jsonl_next_shrinks: "jsonl_next cfg pl st = SOk doc st' \<Longrightarrow> length (js_in st') < length (js_in st)"
proof (induction cfg pl st rule: jsonl_next.induct)
  case (1 cfg pl st)
  obtain line st1 where g: "getline st = Some (line, st1)" "js_err st = None"
    using 1(2) by (subst (asm) jsonl_next.simps) (auto split: if_splits option.splits)
  have s: "length (js_in st1) < length (js_in st)" by (rule getline_shrinks [OF g(1)])
  let ?s = "st1\<lparr>js_started := True\<rparr>"
  let ?l = "if \<not> js_started st \<and> cfg_strip_bom cfg \<and> starts_with_utf8_bom (pop_cr line) then drop 3 (pop_cr line) else pop_cr line"
  have step: "jsonl_next cfg pl st = (if cfg_strip_bom cfg \<and> starts_with_utf8_bom ?l
               then SFail (jsonl_fail UnexpectedValueCharacter True ?s)
             else if is_blank ?l then jsonl_next cfg pl ?s
             else (case parse_copy_impl cfg pl ?l of
                     Ok doc \<Rightarrow> SOk doc ?s | Err e \<Rightarrow> SFail (?s\<lparr>js_err := Some e\<rparr>) | Undefined \<Rightarrow> SOob))"
    using g by (subst jsonl_next.simps) (simp add: Let_def)
  have ih: "length (js_in st') < length (js_in ?s)"
    if "\<not> (cfg_strip_bom cfg \<and> starts_with_utf8_bom ?l)" "is_blank ?l" "jsonl_next cfg pl ?s = SOk doc st'"
    by (rule 1(1) [OF _ g(1) refl refl refl refl refl that]) (simp add: g(2))
  show ?case
    using 1(2) ih s unfolding step by (auto split: if_splits entry.splits)
qed

function jsonl_drain :: "config \<Rightarrow> platform \<Rightarrow> jstate \<Rightarrow> document list \<times> jstate option" where
  "jsonl_drain cfg pl st =
     (case jsonl_next cfg pl st of
        SOk doc st' \<Rightarrow> (let (docs, r) = jsonl_drain cfg pl st' in (doc # docs, r))
      | SFail st' \<Rightarrow> ([], Some st')
      | SOob \<Rightarrow> ([], None))"
  by pat_completeness auto
termination
  by (relation "measure (\<lambda>(cfg, pl, st). length (js_in st))") (auto dest: jsonl_next_shrinks)

declare jsonl_drain.simps [simp del]

end
