(* ===== verification/JsonlProofs.thy ===== *)
theory JsonlProofs
  imports JsonlReader StreamItems
begin

text \<open>
  The line reader delivers the values of the lines that are not blank, and stops at the first
  line that is no JSON text.
\<close>

section \<open>The reader is a pull reader\<close>

definition lines_left :: "jstate \<Rightarrow> nat" where
  "lines_left st = length (js_in st)"

definition jsonl_live :: "config \<Rightarrow> platform \<Rightarrow> jstate \<Rightarrow> bool" where
  "jsonl_live cfg pl st \<longleftrightarrow> \<not> cfg_json5 cfg \<and> platform_ok pl \<and> length (js_in st) < 2 ^ 32"

text \<open>The line a call looks at, and the state behind it.\<close>

definition line_of :: "config \<Rightarrow> jstate \<Rightarrow> bytes \<Rightarrow> bytes" where
  "line_of cfg st line =
     (if \<not> js_started st \<and> cfg_strip_bom cfg \<and> starts_with_utf8_bom (pop_cr line) then drop 3 (pop_cr line) else pop_cr line)"

lemma jsonl_next_line:
  assumes "js_err st = None" "getline st = Some (line, st1)"
  shows "jsonl_next cfg pl st =
    (let l = line_of cfg st line; s = st1\<lparr>js_started := True\<rparr> in
     if cfg_strip_bom cfg \<and> starts_with_utf8_bom l then SFail (jsonl_fail UnexpectedValueCharacter True s)
     else if is_blank l then jsonl_next cfg pl s
     else (case parse_copy_impl cfg pl l of
             Ok doc \<Rightarrow> SOk doc s | Err e \<Rightarrow> SFail (s\<lparr>js_err := Some e\<rparr>) | Undefined \<Rightarrow> SOob))"
  using assms by (subst jsonl_next.simps) (simp add: line_of_def Let_def)

lemma jsonl_next_stop:
  "js_err st \<noteq> None \<Longrightarrow> jsonl_next cfg pl st = SFail st"
  "js_err st = None \<Longrightarrow> getline st = None \<Longrightarrow>
    jsonl_next cfg pl st = SFail (if js_bad st then jsonl_fail StreamReadFailed False (st\<lparr>js_in := []\<rparr>) else st)"
  by (subst jsonl_next.simps, simp)+

lemma line_length: "getline st = Some (line, st1) \<Longrightarrow> length (line_of cfg st line) \<le> length (js_in st)"
proof -
  assume g: "getline st = Some (line, st1)"
  have "line = takeWhile (\<lambda>c. c \<noteq> 0x0A) (js_in st)" using g by (auto simp: getline_def Let_def split: if_splits)
  then have "length line \<le> length (js_in st)" using length_takeWhile_le by metis
  moreover have "length (line_of cfg st line) \<le> length line" by (auto simp: line_of_def pop_cr_def)
  ultimately show ?thesis by simp
qed

lemma jsonl_fail_sel [simp]:
  "js_in (jsonl_fail c b s) = js_in s" "js_bad (jsonl_fail c b s) = js_bad s" "js_err (jsonl_fail c b s) \<noteq> None"
  "js_started (jsonl_fail c b s) = js_started s" "jsonl_next cfg pl (jsonl_fail c b s) = SFail (jsonl_fail c b s)"
proof -
  show "js_in (jsonl_fail c b s) = js_in s" "js_bad (jsonl_fail c b s) = js_bad s" "js_started (jsonl_fail c b s) = js_started s"
    by (simp_all add: jsonl_fail_def)
  show err: "js_err (jsonl_fail c b s) \<noteq> None" by (simp add: jsonl_fail_def)
  show "jsonl_next cfg pl (jsonl_fail c b s) = SFail (jsonl_fail c b s)" by (rule jsonl_next_stop(1) [OF err])
qed

definition jsonl_sound :: "config \<Rightarrow> platform \<Rightarrow> bool \<Rightarrow> (document, jstate) sres \<Rightarrow> bool" where
  "jsonl_sound cfg pl bad r = (case r of
      SOk doc s \<Rightarrow> jsonl_live cfg pl s \<and> js_bad s = bad
    | SFail s \<Rightarrow> jsonl_live cfg pl s \<and> js_bad s = bad \<and> jsonl_next cfg pl s = SFail s \<and> (js_err s = None \<longrightarrow> \<not> bad)
    | SOob \<Rightarrow> False)"

lemma jsonl_next_sound: "jsonl_live cfg pl st \<Longrightarrow> jsonl_sound cfg pl (js_bad st) (jsonl_next cfg pl st)"
proof (induction "length (js_in st)" arbitrary: st rule: less_induct)
  case less
  show ?case
  proof (cases "js_err st = None")
    case False
    then show ?thesis using jsonl_next_stop(1) [OF False] less(2) by (auto simp: jsonl_sound_def)
  next
    case ok: True
    show ?thesis
    proof (cases "getline st")
      case None
      then show ?thesis
        using jsonl_next_stop(2) [OF ok None, of cfg pl] less(2) ok by (auto simp: jsonl_sound_def jsonl_live_def)
    next
      case (Some p)
      then obtain line st1 where g: "getline st = Some (line, st1)" by (cases p) auto
      let ?l = "line_of cfg st line" and ?s = "st1\<lparr>js_started := True\<rparr>"
      have bad: "js_bad st1 = js_bad st" "js_err st1 = None" using g ok by (auto simp: getline_def Let_def split: if_splits)
      have lt: "length (js_in st1) < length (js_in st)" by (rule getline_shrinks [OF g])
      have live: "jsonl_live cfg pl ?s" using less(2) lt by (simp add: jsonl_live_def)
      have def: "parse_copy_impl cfg pl ?l \<noteq> Undefined"
        using less(2) line_length [OF g, of cfg] by (intro parse_copy_defined) (simp_all add: jsonl_live_def)
      have stop: "jsonl_next cfg pl s = SFail s" if "js_err s \<noteq> None" for s
        using jsonl_next_stop(1) [OF that] .
      have ih: "jsonl_sound cfg pl (js_bad st) (jsonl_next cfg pl ?s)"
        using less(1) [of ?s] lt live bad by simp
      show ?thesis
        using def live ih bad stop unfolding jsonl_next_line [OF ok g]
        by (cases "parse_copy_impl cfg pl ?l") (auto simp: Let_def jsonl_sound_def jsonl_live_def)
    qed
  qed
qed

interpretation lines: pull_reader "jsonl_next cfg pl" lines_left "jsonl_live cfg pl" "jsonl_drain cfg pl" for cfg pl
proof (unfold_locales, goal_cases)
  case (1 s)
  then show ?case by (subst jsonl_drain.simps) (simp add: Let_def split: sres.split)
next
  case (2 s a s')
  then show ?case by (simp add: lines_left_def jsonl_next_shrinks)
next
  case (3 s)
  then show ?case using jsonl_next_sound [of cfg pl s] by (auto simp: jsonl_sound_def)
next
  case (4 s a s')
  then show ?case using jsonl_next_sound [of cfg pl s] by (simp add: jsonl_sound_def)
next
  case (5 s s')
  then show ?case using jsonl_next_sound [of cfg pl s] by (simp add: jsonl_sound_def)
qed

section \<open>The lines and their values\<close>

text \<open>The lines of a stream; what follows the last line feed is a line when it is not empty.\<close>

function physical_lines :: "bytes \<Rightarrow> bytes list" where
  "physical_lines t =
     (if t = [] then []
      else takeWhile (\<lambda>c. c \<noteq> 0x0A) t # physical_lines (drop 1 (dropWhile (\<lambda>c. c \<noteq> 0x0A) t)))"
  by pat_completeness auto
termination
proof (relation "measure length", goal_cases)
  case (2 t)
  then have "length (dropWhile (\<lambda>c. c \<noteq> 0x0A) t) \<le> length t" by (intro length_dropWhile_le)
  then have "length (drop 1 (dropWhile (\<lambda>c. c \<noteq> 0x0A) t)) < length t" using 2 by (cases t) auto
  then show ?case by simp
qed simp

declare physical_lines.simps [simp del]

text \<open>
  What is parsed of them: without one trailing carriage return, the first one without the
  byte-order mark of the stream, and only those that are not blank.
\<close>

definition content_lines :: "config \<Rightarrow> bytes \<Rightarrow> bytes list" where
  "content_lines cfg t =
     (case List.map pop_cr (physical_lines t) of
        [] \<Rightarrow> []
      | l # ls \<Rightarrow> filter (\<lambda>l. \<not> is_blank l) (without_bom cfg l # ls))"

definition line_config :: "config \<Rightarrow> config" where
  "line_config cfg = cfg\<lparr>cfg_strip_bom := False\<rparr>"

lemma line_config_sel [simp]:
  "rules_for (line_config cfg) = rules_for cfg" "within_depth (line_config cfg) d = within_depth cfg d"
  "without_bom (line_config cfg) t = t" "cfg_json5 (line_config cfg) = cfg_json5 cfg"
  by (simp_all add: line_config_def rules_for_def within_depth_def without_bom_def)

lemma bom_no_text: "json_text R d t v \<Longrightarrow> \<not> starts_with_utf8_bom t"
proof
  assume j: "json_text R d t v" and "starts_with_utf8_bom t"
  then obtain r where t: "t = 0xEF # r" by (cases t) (auto simp: starts_with_utf8_bom_def)
  obtain w1 u w2 where u: "t = w1 @ u @ w2" "ws w1" "value_text R d u v" using j by (auto simp: json_text_def)
  have "w1 = []" using u(1,2) t by (cases w1) (auto simp: ws_def is_whitespace_def)
  then obtain u' where "u = 0xEF # u'" using value_text_hd [OF u(3)] u(1) t by (auto simp: append_eq_Cons_conv)
  then have "value_text R d (0xEF # u') v" using u(3) by simp
  then show False
    by (cases rule: value_text.cases) (auto simp: lit_def quoted_def number_start_def is_dec_digit_def dest!: number_parts_hd)
qed

lemma denotes_line:
  assumes "\<not> (cfg_strip_bom cfg \<and> starts_with_utf8_bom t)"
  shows "denotes (line_config cfg) t v \<longleftrightarrow> denotes cfg t v"
proof -
  have "without_bom cfg t = t" by (simp only: without_bom_def assms if_False)
  then show ?thesis by (simp add: denotes_def)
qed

lemma bom_line_denotes: "starts_with_utf8_bom t \<Longrightarrow> \<not> denotes (line_config cfg) t v"
  using bom_no_text by (auto simp: denotes_def)

lemma bom_not_blank: "starts_with_utf8_bom t \<Longrightarrow> \<not> is_blank t"
  by (cases t) (auto simp: starts_with_utf8_bom_def is_blank_def is_whitespace_def)

lemma getline_lines:
  assumes "\<not> js_bad st"
  shows "getline st = (if js_in st = [] then None
    else Some (takeWhile (\<lambda>c. c \<noteq> 0x0A) (js_in st), st\<lparr>js_in := drop 1 (dropWhile (\<lambda>c. c \<noteq> 0x0A) (js_in st))\<rparr>))"
proof -
  let ?l = "takeWhile (\<lambda>c. c \<noteq> 0x0A) (js_in st)" and ?r = "dropWhile (\<lambda>c. c \<noteq> 0x0A) (js_in st)"
  have l: "?r = [] \<Longrightarrow> ?l = js_in st" by (metis append_Nil2 takeWhile_dropWhile_id)
  show ?thesis
  proof (cases "?r = []")
    case True
    then show ?thesis using assms l unfolding getline_def by (simp only: Let_def) simp
  next
    case False
    then have "js_in st \<noteq> []" by auto
    then show ?thesis using False unfolding getline_def by (simp only: Let_def drop_Suc_Cons drop_0 One_nat_def drop_Suc) simp
  qed
qed

text \<open>The documents a reader delivers before a clean end.\<close>

definition line_values :: "config \<Rightarrow> platform \<Rightarrow> jstate \<Rightarrow> jvalue list \<Rightarrow> bool" where
  "line_values cfg pl st vs \<longleftrightarrow>
     (\<exists>docs s. jsonl_drain cfg pl st = (docs, Some s) \<and> js_err s = None \<and> List.map doc_json docs = vs)"

lemma line_values_step:
  "line_values cfg pl st vs \<longleftrightarrow>
    (case jsonl_next cfg pl st of
       SOk doc s \<Rightarrow> (\<exists>vs'. vs = doc_json doc # vs' \<and> line_values cfg pl s vs')
     | SFail s \<Rightarrow> vs = [] \<and> js_err s = None
     | SOob \<Rightarrow> False)"
proof -
  have "jsonl_drain cfg pl st = (case jsonl_next cfg pl st of
      SOk a s' \<Rightarrow> (case jsonl_drain cfg pl s' of (as, r) \<Rightarrow> (a # as, r)) | SFail s' \<Rightarrow> ([], Some s') | SOob \<Rightarrow> ([], None))"
    by (rule lines.loop_step)
  then show ?thesis
    by (cases "jsonl_next cfg pl st") (auto simp: line_values_def split: prod.splits)
qed

text \<open>The lines a reader still has before it, the first one read as it would.\<close>

definition lines_ahead :: "config \<Rightarrow> jstate \<Rightarrow> bytes list" where
  "lines_ahead cfg st =
     (case physical_lines (js_in st) of
        [] \<Rightarrow> []
      | l # ls \<Rightarrow> filter (\<lambda>l. \<not> is_blank l) (line_of cfg st l # List.map pop_cr ls))"

lemma lines_ahead_started: "js_started st \<Longrightarrow> lines_ahead cfg st = filter (\<lambda>l. \<not> is_blank l) (List.map pop_cr (physical_lines (js_in st)))"
  by (simp add: lines_ahead_def line_of_def split: list.split)

lemma line_values_lines:
  assumes "jsonl_live cfg pl st" "\<not> js_bad st" "js_err st = None"
  shows "line_values cfg pl st vs \<longleftrightarrow> list_all2 (denotes (line_config cfg)) (lines_ahead cfg st) vs"
  using assms
proof (induction "length (js_in st)" arbitrary: st vs rule: less_induct)
  case less
  show ?case
  proof (cases "js_in st = []")
    case True
    then have g: "getline st = None" using getline_lines [OF less(3)] by simp
    have "jsonl_next cfg pl st = SFail st" using jsonl_next_stop(2) [OF less(4) g] less(3) by simp
    then show ?thesis
      using less(4) True by (subst line_values_step) (simp add: lines_ahead_def physical_lines.simps)
  next
    case False
    let ?raw = "takeWhile (\<lambda>c. c \<noteq> 0x0A) (js_in st)" and ?r = "drop 1 (dropWhile (\<lambda>c. c \<noteq> 0x0A) (js_in st))"
    let ?l = "line_of cfg st ?raw" and ?s = "(st\<lparr>js_in := ?r\<rparr>)\<lparr>js_started := True\<rparr>"
    have g: "getline st = Some (?raw, st\<lparr>js_in := ?r\<rparr>)" using getline_lines [OF less(3)] False by simp
    note step = jsonl_next_line [OF less(4) g, of cfg pl]
    have lt: "length (js_in ?s) < length (js_in st)" using getline_shrinks [OF g] by simp
    have ahead: "lines_ahead cfg st = (if is_blank ?l then lines_ahead cfg ?s else ?l # lines_ahead cfg ?s)"
      using False by (simp add: lines_ahead_started) (simp add: lines_ahead_def physical_lines.simps [of "js_in st"])
    have ih: "line_values cfg pl ?s ws \<longleftrightarrow> list_all2 (denotes (line_config cfg)) (lines_ahead cfg ?s) ws" for ws
      using less(1) [OF lt] less(2-4) lt by (simp add: jsonl_live_def)
    show ?thesis
    proof (cases "cfg_strip_bom cfg \<and> starts_with_utf8_bom ?l")
      case True
      then have "jsonl_next cfg pl st = SFail (jsonl_fail UnexpectedValueCharacter True ?s)" by (simp add: step Let_def)
      then have "\<not> line_values cfg pl st vs" by (subst line_values_step) (simp add: jsonl_fail_def)
      then show ?thesis using True bom_not_blank bom_line_denotes by (simp add: ahead list_all2_Cons1)
    next
      case no_bom: False
      show ?thesis
      proof (cases "is_blank ?l")
        case True
        then have "jsonl_next cfg pl st = jsonl_next cfg pl ?s" using no_bom by (auto simp: step Let_def)
        then have "line_values cfg pl st vs \<longleftrightarrow> line_values cfg pl ?s vs"
          by (subst (1 2) line_values_step, simp)
        then show ?thesis using ih True by (simp add: ahead)
      next
        case body: False
        have ok: "\<not> cfg_json5 cfg" "platform_ok pl" "length ?l < 2 ^ 32"
          using less(2) line_length [OF g, of cfg] by (simp_all add: jsonl_live_def)
        note def = parse_copy_defined [OF ok] and iff = parse_copy_iff [OF ok]
        have nx: "jsonl_next cfg pl st = (case parse_copy_impl cfg pl ?l of
            Ok doc \<Rightarrow> SOk doc ?s | Err e \<Rightarrow> SFail (?s\<lparr>js_err := Some e\<rparr>) | Undefined \<Rightarrow> SOob)"
          unfolding step Let_def if_not_P [OF no_bom] if_not_P [OF body] by (rule refl)
        have "line_values cfg pl st vs \<longleftrightarrow> (\<exists>v vs'. vs = v # vs' \<and> yields (parse_copy_impl cfg pl ?l) v \<and> line_values cfg pl ?s vs')"
          by (subst line_values_step, cases "parse_copy_impl cfg pl ?l") (auto simp: nx yields_def)
        then show ?thesis
          using body iff denotes_line [OF no_bom] ih by (auto simp: ahead list_all2_Cons1)
      qed
    qed
  qed
qed

lemma content_lines_ahead: "lines_ahead cfg (jsonl_start t bad) = content_lines cfg t"
  by (auto simp: lines_ahead_def content_lines_def jsonl_start_def line_of_def without_bom_def split: list.split)



text \<open>
  C34: reading lines always comes to an end, on a stream that goes bad as well: there are at most
  as many documents as bytes, the final state answers every further call with \<^verbatim>\<open>false\<close>, and a
  stream that went bad is reported as an error.
\<close>
theorem jsonl_terminates:
  assumes "\<not> cfg_json5 cfg" "platform_ok pl" "length t < 2 ^ 32"
  shows "\<exists>s. snd (jsonl_drain cfg pl (jsonl_start t bad)) = Some s \<and>
    length (fst (jsonl_drain cfg pl (jsonl_start t bad))) \<le> length t \<and>
    jsonl_next cfg pl s = SFail s"
proof -
  have "jsonl_live cfg pl (jsonl_start t bad)" using assms by (simp add: jsonl_live_def jsonl_start_def)
  from lines.loop_ends [OF this] show ?thesis by (auto simp: lines_left_def jsonl_start_def)
qed

theorem jsonl_terminates_witness:
  "\<exists>s. snd (jsonl_drain default_config sse2 (jsonl_start (lit ''[1'') True)) = Some s \<and>
     jsonl_next default_config sse2 s = SFail s"
proof -
  have "length (lit ''[1'') < 2 ^ 32" by (simp add: lit_def)
  from jsonl_terminates [OF sse2_ok(2,1) this, of True] show ?thesis by blast
qed

end
