(* ===== verification/Storage.thy ===== *)
theory Storage
  imports JsonData "HOL-Library.Monad_Syntax"
begin

text \<open>
  The memory under a document: heap blocks that belong to memory resources, the owning and
  borrowing representations of \<^verbatim>\<open>Json\<close> and \<^verbatim>\<open>String\<close> (\<^verbatim>\<open>include/pjh_json/json.hpp\<close>,
  \<^verbatim>\<open>include/pjh_json/string.hpp\<close>), and their special member functions.  An operation is
  \<^term>\<open>None\<close> when it touches a block that is not there or goes through a dead resource:
  undefined behaviour in C++.
\<close>

section \<open>Blocks and resources\<close>

type_synonym ptr = nat
type_synonym res = nat

text \<open>\<^verbatim>\<open>std::pmr::new_delete_resource()\<close> outlives everything.\<close>

definition new_delete_resource :: res where "new_delete_resource = 0"

text \<open>A \<^verbatim>\<open>std::string_view\<close> into a block: the block, the offset and the length.\<close>

type_synonym text_view = "ptr \<times> nat \<times> nat"

text \<open>The two storages of \<^verbatim>\<open>class String\<close> and the eight tags of \<^verbatim>\<open>class Json\<close>.\<close>

datatype sstring = TextView text_view | TextOwned ptr

datatype jslot =
    SNull | SBool bool | SInt u64 | SFloat u64
  | SView text_view | SOwned ptr | SArray ptr | SObject ptr

text \<open>
  What a block holds: bytes, the elements of an \<^verbatim>\<open>Array\<close>, the entries of an \<^verbatim>\<open>Object\<close>.
  The header of a container and its vector come from one resource and are one block here.
\<close>

datatype block = BText bytes | BArray "jslot list" | BObject "(sstring \<times> jslot) list"

record memory =
  blocks :: "ptr \<Rightarrow> (res \<times> block) option"
  unused :: ptr
  live :: "res list"

definition alive :: "memory \<Rightarrow> res \<Rightarrow> bool" where
  "alive m r \<longleftrightarrow> r = new_delete_resource \<or> r \<in> set (live m)"

definition alloc :: "res \<Rightarrow> block \<Rightarrow> memory \<Rightarrow> (ptr \<times> memory) option" where
  "alloc r b m =
     (if alive m r
      then Some (unused m, m\<lparr>blocks := (blocks m)(unused m \<mapsto> (r, b)), unused := unused m + 1\<rparr>)
      else None)"

definition dealloc :: "ptr \<Rightarrow> memory \<Rightarrow> memory option" where
  "dealloc p m =
     (case blocks m p of
        None \<Rightarrow> None
      | Some (r, b) \<Rightarrow> if alive m r then Some (m\<lparr>blocks := (blocks m)(p := None)\<rparr>) else None)"

section \<open>Strings\<close>

text \<open>\<^verbatim>\<open>String::make_owned\<close> and \<^verbatim>\<open>String::destroy_owned\<close>.\<close>

definition make_owned :: "bytes \<Rightarrow> res \<Rightarrow> memory \<Rightarrow> (ptr \<times> memory) option" where
  "make_owned sv r m = alloc r (BText sv) m"

definition destroy_owned :: "ptr \<Rightarrow> memory \<Rightarrow> memory option" where
  "destroy_owned p m = (case blocks m p of Some (_, BText _) \<Rightarrow> dealloc p m | _ \<Rightarrow> None)"

definition destroy_string :: "sstring \<Rightarrow> memory \<Rightarrow> memory option" where
  "destroy_string s m = (case s of TextView _ \<Rightarrow> Some m | TextOwned p \<Rightarrow> destroy_owned p m)"

text \<open>
  The bytes of a string; reading through a dangling view or pointer is undefined, a view of no
  bytes reads nothing.
\<close>

definition text_at :: "ptr \<Rightarrow> memory \<Rightarrow> bytes option" where
  "text_at p m = (case blocks m p of Some (_, BText bs) \<Rightarrow> Some bs | _ \<Rightarrow> None)"

definition view_text :: "text_view \<Rightarrow> memory \<Rightarrow> bytes option" where
  "view_text v m =
     (case v of (p, off, n) \<Rightarrow>
        if n = 0 then Some []
        else do { bs \<leftarrow> text_at p m; if off + n \<le> length bs then Some (take n (drop off bs)) else None })"

definition string_view_of :: "sstring \<Rightarrow> memory \<Rightarrow> bytes option" where
  "string_view_of s m = (case s of TextView v \<Rightarrow> view_text v m | TextOwned p \<Rightarrow> text_at p m)"

text \<open>\<^verbatim>\<open>String{nullptr, 0}\<close>: a view of no bytes, which nothing reads through.\<close>

definition empty_view :: text_view where "empty_view = (0, 0, 0)"

text \<open>\<^verbatim>\<open>String::own\<close>, \<^verbatim>\<open>String::release\<close>, the move operations of \<^verbatim>\<open>String\<close>.\<close>

definition string_own :: "sstring \<Rightarrow> res \<Rightarrow> memory \<Rightarrow> (sstring \<times> memory) option" where
  "string_own s r m =
     (case s of
        TextOwned p \<Rightarrow> Some (s, m)
      | TextView v \<Rightarrow> do { bs \<leftarrow> view_text v m; (p, m') \<leftarrow> make_owned bs r m; Some (TextOwned p, m') })"

definition string_release :: "sstring \<Rightarrow> ptr option \<times> sstring" where
  "string_release s =
     (case s of TextOwned p \<Rightarrow> (Some p, TextView empty_view) | TextView v \<Rightarrow> (None, s))"

definition string_move :: "sstring \<Rightarrow> sstring \<times> sstring" where
  "string_move other = (other, TextView empty_view)"

text \<open>\<^verbatim>\<open>a = std::move(b)\<close> for two different objects: destroyed, then constructed in place.\<close>

definition string_move_assign :: "sstring \<Rightarrow> sstring \<Rightarrow> memory \<Rightarrow> ((sstring \<times> sstring) \<times> memory) option" where
  "string_move_assign this other m =
     do { m' \<leftarrow> destroy_string this m; Some (string_move other, m') }"

section \<open>Values\<close>

text \<open>Elements in order; the first undefined step makes the rest undefined.\<close>

fun each :: "('a \<Rightarrow> memory \<Rightarrow> memory option) \<Rightarrow> 'a list \<Rightarrow> memory \<Rightarrow> memory option" where
  "each f [] m = Some m"
| "each f (x # xs) m = do { m' \<leftarrow> f x m; each f xs m' }"

text \<open>
  \<^verbatim>\<open>Json::destroy\<close>: the container's destructor runs over its children, then its block goes
  back to its resource. The fuel bounds the nesting; a value that owns itself runs out of it.
\<close>

primrec destroy_slot :: "nat \<Rightarrow> jslot \<Rightarrow> memory \<Rightarrow> memory option" where
  "destroy_slot 0 s m = None"
| "destroy_slot (Suc n) s m =
     (case s of
        SOwned p \<Rightarrow> destroy_owned p m
      | SArray p \<Rightarrow>
          (case blocks m p of
             Some (_, BArray ss) \<Rightarrow> do { m' \<leftarrow> each (destroy_slot n) ss m; dealloc p m' }
           | _ \<Rightarrow> None)
      | SObject p \<Rightarrow>
          (case blocks m p of
             Some (_, BObject es) \<Rightarrow>
               do { m' \<leftarrow> each (\<lambda>(k, s) m. do { m1 \<leftarrow> destroy_slot n s m; destroy_string k m1 }) es m; dealloc p m' }
           | _ \<Rightarrow> None)
      | _ \<Rightarrow> Some m)"

definition destroy :: "jslot \<Rightarrow> memory \<Rightarrow> memory option" where
  "destroy s m = destroy_slot (Suc (unused m)) s m"

fun each_new :: "('a \<Rightarrow> memory \<Rightarrow> ('b \<times> memory) option) \<Rightarrow> 'a list \<Rightarrow> memory \<Rightarrow> ('b list \<times> memory) option" where
  "each_new f [] m = Some ([], m)"
| "each_new f (x # xs) m = do { (y, m1) \<leftarrow> f x m; (ys, m2) \<leftarrow> each_new f xs m1; Some (y # ys, m2) }"

text \<open>
  \<^verbatim>\<open>Json::clone\<close> with \<^verbatim>\<open>Array::clone\<close> and \<^verbatim>\<open>Object::clone\<close>: every string, keys included,
  becomes an owned copy in the target resource.
\<close>

primrec clone_slot :: "nat \<Rightarrow> jslot \<Rightarrow> res \<Rightarrow> memory \<Rightarrow> (jslot \<times> memory) option" where
  "clone_slot 0 s into m = None"
| "clone_slot (Suc n) s into m =
     (case s of
        SView v \<Rightarrow> do { bs \<leftarrow> view_text v m; (p, m') \<leftarrow> make_owned bs into m; Some (SOwned p, m') }
      | SOwned p \<Rightarrow> do { bs \<leftarrow> text_at p m; (q, m') \<leftarrow> make_owned bs into m; Some (SOwned q, m') }
      | SArray p \<Rightarrow>
          (case blocks m p of
             Some (_, BArray ss) \<Rightarrow>
               do { (ss', m1) \<leftarrow> each_new (\<lambda>s. clone_slot n s into) ss m;
                    (q, m2) \<leftarrow> alloc into (BArray ss') m1; Some (SArray q, m2) }
           | _ \<Rightarrow> None)
      | SObject p \<Rightarrow>
          (case blocks m p of
             Some (_, BObject es) \<Rightarrow>
               do { (es', m1) \<leftarrow> each_new (\<lambda>(k, s) m.
                      do { bs \<leftarrow> string_view_of k m; (q, m1) \<leftarrow> make_owned bs into m;
                           (s', m2) \<leftarrow> clone_slot n s into m1; Some ((TextOwned q, s'), m2) }) es m;
                    (q, m2) \<leftarrow> alloc into (BObject es') m1; Some (SObject q, m2) }
           | _ \<Rightarrow> None)
      | _ \<Rightarrow> Some (s, m))"

definition clone :: "jslot \<Rightarrow> res \<Rightarrow> memory \<Rightarrow> (jslot \<times> memory) option" where
  "clone s into m = clone_slot (Suc (unused m)) s into m"

text \<open>\<^verbatim>\<open>Json::own\<close>: an owned copy of a borrowed text.\<close>

definition json_own :: "text_view \<Rightarrow> res \<Rightarrow> memory \<Rightarrow> (jslot \<times> memory) option" where
  "json_own v r m = do { bs \<leftarrow> view_text v m; (p, m') \<leftarrow> make_owned bs r m; Some (SOwned p, m') }"

text \<open>\<^verbatim>\<open>Json(String &&)\<close>: a view stays a view, an owned string hands its block over.\<close>

definition json_of_string :: "sstring \<Rightarrow> jslot \<times> sstring" where
  "json_of_string s =
     (case string_release s of
        (Some p, s') \<Rightarrow> (SOwned p, s')
      | (None, s') \<Rightarrow> ((case s of TextView v \<Rightarrow> SView v | TextOwned p \<Rightarrow> SOwned p), s'))"

section \<open>Variables and references\<close>

text \<open>A \<^verbatim>\<open>Json &\<close>: a variable, or a child of a container block.\<close>

datatype ref = Var nat | Element ptr nat | Member ptr nat

record cells =
  mem :: memory
  vars :: "nat \<Rightarrow> jslot option"

definition load_slot :: "ref \<Rightarrow> cells \<Rightarrow> jslot option" where
  "load_slot a w =
     (case a of
        Var x \<Rightarrow> vars w x
      | Element p i \<Rightarrow>
          (case blocks (mem w) p of Some (_, BArray ss) \<Rightarrow> if i < length ss then Some (ss ! i) else None | _ \<Rightarrow> None)
      | Member p i \<Rightarrow>
          (case blocks (mem w) p of Some (_, BObject es) \<Rightarrow> if i < length es then Some (snd (es ! i)) else None | _ \<Rightarrow> None))"

definition store_slot :: "ref \<Rightarrow> jslot \<Rightarrow> cells \<Rightarrow> cells option" where
  "store_slot a s w =
     (case a of
        Var x \<Rightarrow> if vars w x = None then None else Some (w\<lparr>vars := (vars w)(x \<mapsto> s)\<rparr>)
      | Element p i \<Rightarrow>
          (case blocks (mem w) p of
             Some (r, BArray ss) \<Rightarrow>
               if i < length ss then Some (w\<lparr>mem := (mem w)\<lparr>blocks := (blocks (mem w))(p \<mapsto> (r, BArray (ss[i := s])))\<rparr>\<rparr>) else None
           | _ \<Rightarrow> None)
      | Member p i \<Rightarrow>
          (case blocks (mem w) p of
             Some (r, BObject es) \<Rightarrow>
               if i < length es then Some (w\<lparr>mem := (mem w)\<lparr>blocks := (blocks (mem w))(p \<mapsto> (r, BObject (es[i := (fst (es ! i), s)])))\<rparr>\<rparr>) else None
           | _ \<Rightarrow> None))"

text \<open>\<^verbatim>\<open>Json::destroy\<close> on an object in place: it becomes null.\<close>

definition destroy_at :: "ref \<Rightarrow> cells \<Rightarrow> cells option" where
  "destroy_at a w =
     do { s \<leftarrow> load_slot a w; m \<leftarrow> destroy s (mem w); store_slot a SNull (w\<lparr>mem := m\<rparr>) }"

text \<open>\<^verbatim>\<open>Json a(std::move(b))\<close> into a new variable, and \<^verbatim>\<open>a = std::move(b)\<close>.\<close>

definition move_construct :: "nat \<Rightarrow> ref \<Rightarrow> cells \<Rightarrow> cells option" where
  "move_construct x b w =
     (if vars w x \<noteq> None then None
      else do { s \<leftarrow> load_slot b w; store_slot b SNull (w\<lparr>vars := (vars w)(x \<mapsto> s)\<rparr>) })"

definition move_assign :: "ref \<Rightarrow> ref \<Rightarrow> cells \<Rightarrow> cells option" where
  "move_assign a b w =
     (if a = b then Some w
      else do { w1 \<leftarrow> destroy_at a w; s \<leftarrow> load_slot b w1; w2 \<leftarrow> store_slot a s w1; store_slot b SNull w2 })"

text \<open>Assignment of a value that owns nothing, or of a freshly built one.\<close>

definition assign_value :: "ref \<Rightarrow> jslot \<Rightarrow> cells \<Rightarrow> cells option" where
  "assign_value a s w = do { w1 \<leftarrow> destroy_at a w; store_slot a s w1 }"

text \<open>The end of a variable's scope.\<close>

definition leave_scope :: "nat \<Rightarrow> cells \<Rightarrow> cells option" where
  "leave_scope x w = do { w1 \<leftarrow> destroy_at (Var x) w; Some (w1\<lparr>vars := (vars w1)(x := None)\<rparr>) }"

definition clone_into :: "nat \<Rightarrow> ref \<Rightarrow> res \<Rightarrow> cells \<Rightarrow> cells option" where
  "clone_into x b into w =
     (if vars w x \<noteq> None then None
      else do { s \<leftarrow> load_slot b w; (s', m) \<leftarrow> clone s into (mem w);
                Some (w\<lparr>mem := m, vars := (vars w)(x \<mapsto> s')\<rparr>) })"

section \<open>Arrays of values\<close>

text \<open>\<^verbatim>\<open>Json x(Array(r))\<close>, and \<^verbatim>\<open>as_array()[i]\<close> of a variable as a reference.\<close>

definition new_array :: "nat \<Rightarrow> res \<Rightarrow> cells \<Rightarrow> cells option" where
  "new_array x r w =
     (if vars w x \<noteq> None then None
      else do { (p, m) \<leftarrow> alloc r (BArray []) (mem w);
                Some (w\<lparr>mem := m, vars := (vars w)(x \<mapsto> SArray p)\<rparr>) })"

definition element :: "nat \<Rightarrow> nat \<Rightarrow> cells \<Rightarrow> ref option" where
  "element x i w = (case vars w x of Some (SArray p) \<Rightarrow> Some (Element p i) | _ \<Rightarrow> None)"

text \<open>\<^verbatim>\<open>x.as_array().push_back(std::move(b))\<close>: the argument is built first, then it moves in.\<close>

definition push_back :: "nat \<Rightarrow> ref \<Rightarrow> cells \<Rightarrow> cells option" where
  "push_back x b w =
     (case vars w x of
        Some (SArray p) \<Rightarrow>
          do { s \<leftarrow> load_slot b w; w1 \<leftarrow> store_slot b SNull w;
               case blocks (mem w1) p of
                 Some (r, BArray ss) \<Rightarrow>
                   if alive (mem w1) r
                   then Some (w1\<lparr>mem := (mem w1)\<lparr>blocks := (blocks (mem w1))(p \<mapsto> (r, BArray (ss @ [s])))\<rparr>\<rparr>)
                   else None
               | _ \<Rightarrow> None }
      | _ \<Rightarrow> None)"

section \<open>Members of an object\<close>

definition new_object :: "nat \<Rightarrow> res \<Rightarrow> cells \<Rightarrow> cells option" where
  "new_object x r w =
     (if vars w x \<noteq> None then None
      else do { (p, m) \<leftarrow> alloc r (BObject []) (mem w);
                Some (w\<lparr>mem := m, vars := (vars w)(x \<mapsto> SObject p)\<rparr>) })"

text \<open>
  The first entry with a key; every key before it is read.  This is the linear sweep of
  \<^verbatim>\<open>Object::find_slot\<close>; the index finds the same entry (\<^verbatim>\<open>ObjectIndex\<close>) and lives outside these blocks.
\<close>

fun find_member :: "bytes \<Rightarrow> (sstring \<times> jslot) list \<Rightarrow> memory \<Rightarrow> nat option option" where
  "find_member key [] m = Some None"
| "find_member key ((k, s) # es) m =
     do { t \<leftarrow> string_view_of k m;
          if t = key then Some (Some 0) else map_option (map_option Suc) (find_member key es m) }"

text \<open>
  \<^verbatim>\<open>x.as_object().insert(key, std::move(b), r)\<close>: a known key keeps its text and gets the value,
  a new key is copied into \<open>r\<close> and appended.
\<close>

definition insert_member :: "nat \<Rightarrow> bytes \<Rightarrow> ref \<Rightarrow> res \<Rightarrow> cells \<Rightarrow> cells option" where
  "insert_member x key b r w =
     (case vars w x of
        Some (SObject p) \<Rightarrow>
          do { s \<leftarrow> load_slot b w; w1 \<leftarrow> store_slot b SNull w;
               case blocks (mem w1) p of
                 Some (rp, BObject es) \<Rightarrow>
                   do { pos \<leftarrow> find_member key es (mem w1);
                        case pos of
                          Some i \<Rightarrow> do { w2 \<leftarrow> destroy_at (Member p i) w1; store_slot (Member p i) s w2 }
                        | None \<Rightarrow>
                            do { (q, m) \<leftarrow> make_owned key r (mem w1);
                                 if alive m rp
                                 then Some (w1\<lparr>mem := m\<lparr>blocks := (blocks m)(p \<mapsto> (rp, BObject (es @ [(TextOwned q, s)])))\<rparr>\<rparr>)
                                 else None } }
               | _ \<Rightarrow> None }
      | _ \<Rightarrow> None)"

section \<open>Programs over values\<close>

text \<open>What a caller does with \<^verbatim>\<open>Json\<close> variables, one special member function or call at a time.\<close>

datatype op =
    Declare nat jslot
  | Own nat text_view res
  | NewArray nat res
  | Clone nat nat res
  | MoveInit nat nat
  | MoveAssign nat nat
  | Assign nat jslot
  | NewObject nat res
  | InsertMember nat bytes nat res
  | PushBack nat nat
  | TakeElement nat nat nat
  | PutElement nat nat nat
  | LeaveScope nat

definition declare_value :: "nat \<Rightarrow> jslot \<Rightarrow> cells \<Rightarrow> cells option" where
  "declare_value x s w = (if vars w x \<noteq> None then None else Some (w\<lparr>vars := (vars w)(x \<mapsto> s)\<rparr>))"

definition own_into :: "nat \<Rightarrow> text_view \<Rightarrow> res \<Rightarrow> cells \<Rightarrow> cells option" where
  "own_into x v r w =
     (if vars w x \<noteq> None then None
      else do { (s, m) \<leftarrow> json_own v r (mem w); Some (w\<lparr>mem := m, vars := (vars w)(x \<mapsto> s)\<rparr>) })"

fun storage_step :: "op \<Rightarrow> cells \<Rightarrow> cells option" where
  "storage_step (Declare x s) w = declare_value x s w"
| "storage_step (Own x v r) w = own_into x v r w"
| "storage_step (NewArray x r) w = new_array x r w"
| "storage_step (Clone x y r) w = clone_into x (Var y) r w"
| "storage_step (MoveInit x y) w = move_construct x (Var y) w"
| "storage_step (MoveAssign x y) w = move_assign (Var x) (Var y) w"
| "storage_step (Assign x s) w = assign_value (Var x) s w"
| "storage_step (NewObject x r) w = new_object x r w"
| "storage_step (InsertMember x key y r) w = insert_member x key (Var y) r w"
| "storage_step (PushBack x y) w = push_back x (Var y) w"
| "storage_step (TakeElement x y i) w = do { b \<leftarrow> element y i w; move_construct x b w }"
| "storage_step (PutElement x i y) w = do { a \<leftarrow> element x i w; move_assign a (Var y) w }"
| "storage_step (LeaveScope x) w = leave_scope x w"

fun storage_run :: "op list \<Rightarrow> cells \<Rightarrow> cells option" where
  "storage_run [] w = Some w"
| "storage_run (a # as) w = do { w' \<leftarrow> storage_step a w; storage_run as w' }"

end
