(* ===== verification/StorageProofs.thy ===== *)
theory StorageProofs
  imports Storage
begin

text \<open>
  Ownership: a value that is a tree of blocks can be destroyed, moved and cloned without
  undefined behaviour, and nothing is freed twice or lost.
\<close>

section \<open>Trees of blocks\<close>

text \<open>
  \<open>tree h s v F B\<close>: in the blocks \<open>h\<close> the slot \<open>s\<close> holds the value \<open>v\<close>; it owns the blocks
  \<open>F\<close>, each of them once, and borrows text from the blocks \<open>B\<close>.
\<close>

type_synonym heap = "ptr \<Rightarrow> (res \<times> block) option"

definition text_in :: "heap \<Rightarrow> text_view \<Rightarrow> bytes \<Rightarrow> ptr set \<Rightarrow> bool" where
  "text_in h v t B \<longleftrightarrow> (case v of (p, off, n) \<Rightarrow>
     if n = 0 then t = [] \<and> B = {}
     else B = {p} \<and> (\<exists>r bs. h p = Some (r, BText bs) \<and> off + n \<le> length bs \<and> t = take n (drop off bs)))"

inductive tree :: "heap \<Rightarrow> jslot \<Rightarrow> jvalue \<Rightarrow> ptr set \<Rightarrow> ptr set \<Rightarrow> bool"
  and elems :: "heap \<Rightarrow> jslot list \<Rightarrow> jvalue list \<Rightarrow> ptr set \<Rightarrow> ptr set \<Rightarrow> bool"
  and members :: "heap \<Rightarrow> (sstring \<times> jslot) list \<Rightarrow> jentries \<Rightarrow> ptr set \<Rightarrow> ptr set \<Rightarrow> bool"
  for h :: heap
where
  tree_null: "tree h SNull JNull {} {}"
| tree_bool: "tree h (SBool b) (JBool b) {} {}"
| tree_int: "tree h (SInt i) (JInt i) {} {}"
| tree_float: "tree h (SFloat d) (JFloat d) {} {}"
| tree_view: "text_in h v t B \<Longrightarrow> tree h (SView v) (JStr t) {} B"
| tree_owned: "h p = Some (r, BText t) \<Longrightarrow> tree h (SOwned p) (JStr t) {p} {}"
| tree_array: "h p = Some (r, BArray ss) \<Longrightarrow> elems h ss vs F B \<Longrightarrow> p \<notin> F \<Longrightarrow>
    tree h (SArray p) (JArr vs) (insert p F) B"
| tree_object: "h p = Some (r, BObject es) \<Longrightarrow> members h es ms F B \<Longrightarrow> p \<notin> F \<Longrightarrow>
    tree h (SObject p) (JObj ms) (insert p F) B"
| elems_nil: "elems h [] [] {} {}"
| elems_cons: "tree h s v F B \<Longrightarrow> elems h ss vs F' B' \<Longrightarrow> F \<inter> F' = {} \<Longrightarrow>
    elems h (s # ss) (v # vs) (F \<union> F') (B \<union> B')"
| members_nil: "members h [] [] {} {}"
| members_view: "text_in h kv k Bk \<Longrightarrow> tree h s v F B \<Longrightarrow> members h es ms F' B' \<Longrightarrow> F \<inter> F' = {} \<Longrightarrow>
    members h ((TextView kv, s) # es) ((k, v) # ms) (F \<union> F') (Bk \<union> B \<union> B')"
| members_owned: "h p = Some (r, BText k) \<Longrightarrow> tree h s v F B \<Longrightarrow> members h es ms F' B' \<Longrightarrow>
    p \<notin> F \<Longrightarrow> p \<notin> F' \<Longrightarrow> F \<inter> F' = {} \<Longrightarrow>
    members h ((TextOwned p, s) # es) ((k, v) # ms) (insert p F \<union> F') (B \<union> B')"

lemma text_in_cong: "(\<And>p. p \<in> B \<Longrightarrow> h' p = h p) \<Longrightarrow> text_in h v t B \<Longrightarrow> text_in h' v t B"
  by (auto simp: text_in_def split: prod.splits if_splits)

text \<open>A tree depends on the blocks it owns and borrows from only.\<close>

lemma tree_frame:
  "tree h s v F B \<Longrightarrow> (\<And>p. p \<in> F \<union> B \<Longrightarrow> h' p = h p) \<Longrightarrow> tree h' s v F B"
  "elems h ss vs F B \<Longrightarrow> (\<And>p. p \<in> F \<union> B \<Longrightarrow> h' p = h p) \<Longrightarrow> elems h' ss vs F B"
  "members h es ms F B \<Longrightarrow> (\<And>p. p \<in> F \<union> B \<Longrightarrow> h' p = h p) \<Longrightarrow> members h' es ms F B"
proof (induction rule: tree_elems_members.inducts)
  case (tree_view v t B)
  then show ?case by (intro tree_elems_members.tree_view text_in_cong [of B h' h]) auto
next
  case (tree_array p r ss vs F B)
  then show ?case by (intro tree_elems_members.tree_array [of h' p r]) auto
next
  case (tree_object p r es ms F B)
  then show ?case by (intro tree_elems_members.tree_object [of h' p r]) auto
next
  case (members_view kv k Bk s v F B es ms F' B')
  then show ?case by (intro tree_elems_members.members_view text_in_cong [of Bk h' h]) auto
next
  case (members_owned p r k s v F B es ms F' B')
  then show ?case by (intro tree_elems_members.members_owned [of h' p r]) auto
qed (auto intro: tree_elems_members.intros)

lemma tree_finite:
  "tree h s v F B \<Longrightarrow> finite F" "elems h ss vs F B \<Longrightarrow> finite F" "members h es ms F B \<Longrightarrow> finite F"
  by (induction rule: tree_elems_members.inducts) auto

lemma tree_blocks:
  "tree h s v F B \<Longrightarrow> p \<in> F \<Longrightarrow> h p \<noteq> None" "elems h ss vs F B \<Longrightarrow> p \<in> F \<Longrightarrow> h p \<noteq> None"
  "members h es ms F B \<Longrightarrow> p \<in> F \<Longrightarrow> h p \<noteq> None"
  by (induction rule: tree_elems_members.inducts) auto

section \<open>Destruction\<close>

definition without :: "ptr set \<Rightarrow> memory \<Rightarrow> memory" where
  "without F m = m\<lparr>blocks := (\<lambda>p. if p \<in> F then None else blocks m p)\<rparr>"

lemma without_sel [simp]:
  "blocks (without F m) p = (if p \<in> F then None else blocks m p)" "unused (without F m) = unused m"
  "live (without F m) = live m" "alive (without F m) = alive m"
  by (auto simp: without_def alive_def fun_eq_iff)

lemma without_without: "without F (without G m) = without (F \<union> G) m"
  by (simp add: without_def fun_eq_iff)

lemma without_empty [simp]: "without {} m = m"
  by (simp add: without_def)

text \<open>The blocks are those of the tree, and their resources are there to take them back.\<close>

definition usable :: "heap \<Rightarrow> ptr set \<Rightarrow> memory \<Rightarrow> bool" where
  "usable h F m \<longleftrightarrow> (\<forall>p \<in> F. blocks m p = h p \<and> (\<exists>r b. h p = Some (r, b) \<and> alive m r))"

lemma usable_mono: "usable h F m \<Longrightarrow> G \<subseteq> F \<Longrightarrow> usable h G m"
  by (auto simp: usable_def)

lemma usable_without: "usable h F m \<Longrightarrow> F \<inter> G = {} \<Longrightarrow> usable h F (without G m)"
  by (auto simp: usable_def)

lemma dealloc_without: "usable h F m \<Longrightarrow> p \<in> F \<Longrightarrow> dealloc p m = Some (without {p} m)"
  by (auto simp: usable_def dealloc_def without_def fun_eq_iff split: option.split)

lemma destroy_owned_without:
  assumes "usable h F m" "p \<in> F" "h p = Some (r, BText t)"
  shows "destroy_owned p m = Some (without {p} m)"
proof -
  have "blocks m p = Some (r, BText t)" using assms by (auto simp: usable_def)
  then show ?thesis using dealloc_without [OF assms(1,2)] by (simp add: destroy_owned_def)
qed

abbreviation destroy_entry :: "nat \<Rightarrow> sstring \<times> jslot \<Rightarrow> memory \<Rightarrow> memory option" where
  "destroy_entry n \<equiv> (\<lambda>(k, s) m. do { m1 \<leftarrow> destroy_slot n s m; destroy_string k m1 })"

lemma destroy_tree:
  "tree h s v F B \<Longrightarrow> usable h F m \<Longrightarrow> card F < n \<Longrightarrow> destroy_slot n s m = Some (without F m)"
  "elems h ss vs F B \<Longrightarrow> usable h F m \<Longrightarrow> card F < n \<Longrightarrow> each (destroy_slot n) ss m = Some (without F m)"
  "members h es ms F B \<Longrightarrow> usable h F m \<Longrightarrow> card F < n \<Longrightarrow> each (destroy_entry n) es m = Some (without F m)"
proof (induction arbitrary: m n and m n and m n rule: tree_elems_members.inducts)
  case (tree_owned p r t)
  then show ?case by (cases n) (auto intro: destroy_owned_without)
next
  case (tree_array p r ss vs F B)
  obtain k where n: "n = Suc k" "card F < k"
    using tree_array tree_finite(2) [OF tree_array.IH(2)] by (cases n) auto
  have b: "blocks m p = Some (r, BArray ss)" using tree_array by (auto simp: usable_def)
  have "each (destroy_slot k) ss m = Some (without F m)"
    using tree_array.IH(3) [of m k] tree_array.prems n usable_mono by blast
  moreover have "dealloc p (without F m) = Some (without {p} (without F m))"
    using tree_array by (intro dealloc_without [of h "{p}"] usable_without) (auto intro: usable_mono)
  ultimately show ?case using n(1) b by (simp add: without_without)
next
  case (tree_object p r es ms F B)
  obtain k where n: "n = Suc k" "card F < k"
    using tree_object tree_finite(3) [OF tree_object.IH(2)] by (cases n) auto
  have b: "blocks m p = Some (r, BObject es)" using tree_object by (auto simp: usable_def)
  have "each (destroy_entry k) es m = Some (without F m)"
    using tree_object.IH(3) [of m k] tree_object.prems n usable_mono by blast
  moreover have "dealloc p (without F m) = Some (without {p} (without F m))"
    using tree_object by (intro dealloc_without [of h "{p}"] usable_without) (auto intro: usable_mono)
  ultimately show ?case using n(1) b by (simp add: without_without)
next
  case (elems_cons s v F B ss vs F' B')
  have c: "card F < n" "card F' < n"
    using elems_cons.prems(2) card_mono [of "F \<union> F'"] tree_finite(1) [OF elems_cons.IH(1)] tree_finite(2) [OF elems_cons.IH(3)]
    by (meson finite_UnI le_less_trans sup_ge1 sup_ge2)+
  have "destroy_slot n s m = Some (without F m)" using elems_cons c usable_mono by blast
  moreover have "each (destroy_slot n) ss (without F m) = Some (without F' (without F m))"
    using elems_cons c by (intro elems_cons.IH(4) usable_without) (auto intro: usable_mono)
  ultimately show ?case by (simp add: without_without Un_commute)
next
  case (members_view kv k Bk s v F B es ms F' B')
  have c: "card F < n" "card F' < n"
    using members_view.prems(2) card_mono [of "F \<union> F'"] tree_finite(1) [OF members_view.IH(2)] tree_finite(3) [OF members_view.IH(4)]
    by (meson finite_UnI le_less_trans sup_ge1 sup_ge2)+
  have "destroy_slot n s m = Some (without F m)" using members_view c usable_mono by blast
  moreover have "each (destroy_entry n) es (without F m) = Some (without F' (without F m))"
    using members_view c by (intro members_view.IH(5) usable_without) (auto intro: usable_mono)
  ultimately show ?case by (simp add: without_without Un_commute destroy_string_def)
next
  case (members_owned p r k s v F B es ms F' B')
  have "finite (insert p F \<union> F')" using tree_finite(1) [OF members_owned.IH(2)] tree_finite(3) [OF members_owned.IH(4)] by simp
  then have c: "card F < n" "card F' < n"
    using members_owned.prems(2) card_mono [of "insert p F \<union> F'"]
    by (meson le_less_trans sup_ge1 sup_ge2 subset_trans subset_insertI)+
  have "destroy_slot n s m = Some (without F m)" using members_owned c usable_mono by blast
  moreover have "destroy_owned p (without F m) = Some (without {p} (without F m))"
    using members_owned by (intro destroy_owned_without [of h "{p}" _ _ r k] usable_without) (auto intro: usable_mono)
  moreover have "each (destroy_entry n) es (without (insert p F) m) = Some (without F' (without (insert p F) m))"
    using members_owned c by (intro members_owned.IH(5) usable_without) (auto intro: usable_mono)
  ultimately show ?case by (simp add: without_without Un_commute destroy_string_def)
qed (auto simp: gr0_conv_Suc)

section \<open>Copies\<close>

definition tidy :: "memory \<Rightarrow> bool" where
  "tidy m \<longleftrightarrow> (\<forall>p. blocks m p \<noteq> None \<longrightarrow> p < unused m)"

text \<open>New blocks of one resource, and nothing else changed.\<close>

definition grows :: "res \<Rightarrow> memory \<Rightarrow> memory \<Rightarrow> bool" where
  "grows r m m' \<longleftrightarrow> unused m \<le> unused m' \<and> live m' = live m \<and> tidy m' \<and>
     (\<forall>p < unused m. blocks m' p = blocks m p) \<and>
     (\<forall>p. unused m \<le> p \<and> p < unused m' \<longrightarrow> (\<exists>b. blocks m' p = Some (r, b)))"

definition new_blocks :: "memory \<Rightarrow> memory \<Rightarrow> ptr set" where
  "new_blocks m m' = {unused m ..< unused m'}"

lemma new_blocks_iff [simp]: "p \<in> new_blocks m m' \<longleftrightarrow> unused m \<le> p \<and> p < unused m'"
  by (simp add: new_blocks_def)

lemma grows_refl: "tidy m \<Longrightarrow> grows r m m"
  by (auto simp: grows_def)

lemma grows_trans:
  assumes "grows r a b" "grows r b c" shows "grows r a c"
proof -
  have "\<exists>x. blocks c p = Some (r, x)" if "unused a \<le> p" "p < unused c" for p
    using assms that by (cases "p < unused b") (auto simp: grows_def)
  then show ?thesis using assms by (auto simp: grows_def)
qed

lemma grows_alive: "grows r m m' \<Longrightarrow> alive m' = alive m"
  by (simp add: grows_def alive_def fun_eq_iff)

lemma grows_blocks: "grows r m m' \<Longrightarrow> tidy m \<Longrightarrow> blocks m p \<noteq> None \<Longrightarrow> blocks m' p = blocks m p"
  by (auto simp: grows_def tidy_def)

lemma new_blocks_trans: "grows r a b \<Longrightarrow> grows r b c \<Longrightarrow> new_blocks a c = new_blocks a b \<union> new_blocks b c"
  by (auto simp: grows_def)

lemma new_blocks_disjoint: "grows r a b \<Longrightarrow> new_blocks a b \<inter> new_blocks b c = {}"
  by (auto simp: grows_def)

lemma alloc_grows:
  assumes "tidy m" "alive m r"
  shows "\<exists>m'. alloc r b m = Some (unused m, m') \<and> grows r m m' \<and> new_blocks m m' = {unused m} \<and>
    blocks m' (unused m) = Some (r, b)"
  using assms by (auto simp: alloc_def grows_def tidy_def new_blocks_def less_Suc_eq)

lemma text_reads:
  assumes "text_in h v t B" "\<And>p. p \<in> B \<Longrightarrow> blocks m p = h p"
  shows "view_text v m = Some t"
  using assms by (auto simp: text_in_def view_text_def text_at_def split: prod.splits if_splits)

lemma tree_blocks_all:
  "tree h s v F B \<Longrightarrow> p \<in> F \<union> B \<Longrightarrow> h p \<noteq> None" "elems h ss vs F B \<Longrightarrow> p \<in> F \<union> B \<Longrightarrow> h p \<noteq> None"
  "members h es ms F B \<Longrightarrow> p \<in> F \<union> B \<Longrightarrow> h p \<noteq> None"
  by (induction rule: tree_elems_members.inducts) (auto simp: text_in_def split: prod.splits if_splits)

text \<open>A memory that shows a set of blocks as the heap of a tree has them.\<close>

definition shows_blocks :: "heap \<Rightarrow> ptr set \<Rightarrow> memory \<Rightarrow> bool" where
  "shows_blocks h G m \<longleftrightarrow> (\<forall>p \<in> G. blocks m p = h p \<and> h p \<noteq> None)"

lemma shows_grows: "shows_blocks h G m \<Longrightarrow> tidy m \<Longrightarrow> grows r m m' \<Longrightarrow> shows_blocks h G m'"
  unfolding shows_blocks_def by (metis grows_blocks)

lemma shows_mono: "shows_blocks h G m \<Longrightarrow> G' \<subseteq> G \<Longrightarrow> shows_blocks h G' m"
  by (auto simp: shows_blocks_def)

lemma grows_tidy: "grows r m m' \<Longrightarrow> tidy m'"
  by (simp add: grows_def)

lemma tree_grows:
  "tree (blocks m) s v F B \<Longrightarrow> tidy m \<Longrightarrow> grows r m m' \<Longrightarrow> tree (blocks m') s v F B"
  by (rule tree_frame(1)) (use tree_blocks_all(1) grows_blocks in blast)+

definition copied :: "(jslot \<times> memory) option \<Rightarrow> res \<Rightarrow> memory \<Rightarrow> jvalue \<Rightarrow> bool" where
  "copied x r m v \<longleftrightarrow> (\<exists>s' m'. x = Some (s', m') \<and> grows r m m' \<and> tree (blocks m') s' v (new_blocks m m') {})"

lemma copied_text:
  assumes "tidy m" "alive m r"
  shows "copied (map_option (\<lambda>(p, m'). (SOwned p, m')) (make_owned t r m)) r m (JStr t)"
proof -
  obtain m' where "alloc r (BText t) m = Some (unused m, m')" "grows r m m'" "new_blocks m m' = {unused m}"
      "blocks m' (unused m) = Some (r, BText t)"
    using alloc_grows [OF assms] by blast
  then show ?thesis by (auto simp: copied_def make_owned_def intro: tree_owned)
qed

definition clone_entry :: "nat \<Rightarrow> res \<Rightarrow> sstring \<times> jslot \<Rightarrow> memory \<Rightarrow> ((sstring \<times> jslot) \<times> memory) option" where
  "clone_entry n into e m =
     (case e of (k, s) \<Rightarrow>
        do { bs \<leftarrow> string_view_of k m; (q, m1) \<leftarrow> make_owned bs into m;
             (s', m2) \<leftarrow> clone_slot n s into m1; Some ((TextOwned q, s'), m2) })"

lemma clone_object:
  "clone_slot (Suc n) (SObject p) into m =
     (case blocks m p of
        Some (_, BObject es) \<Rightarrow>
          do { (es', m1) \<leftarrow> each_new (clone_entry n into) es m;
               (q, m2) \<leftarrow> alloc into (BObject es') m1; Some (SObject q, m2) }
      | _ \<Rightarrow> None)"
proof -
  have "(\<lambda>(k, s) m. do { bs \<leftarrow> string_view_of k m; (q, m1) \<leftarrow> make_owned bs into m;
           (s', m2) \<leftarrow> clone_slot n s into m1; Some ((TextOwned q, s'), m2) }) = clone_entry n into"
    by (intro ext) (simp add: clone_entry_def split: prod.split)
  note eq = this
  show ?thesis unfolding clone_slot.simps jslot.case eq by (rule refl)
qed

lemma clone_wrap:
  assumes "grows r m m1" "tidy m" "alive m r"
  shows "\<exists>m2. alloc r b m1 = Some (unused m1, m2) \<and> grows r m m2 \<and> blocks m2 (unused m1) = Some (r, b) \<and>
    new_blocks m m2 = insert (unused m1) (new_blocks m m1) \<and> unused m1 \<notin> new_blocks m m1 \<and>
    (\<forall>p \<in> new_blocks m m1. blocks m2 p = blocks m1 p)"
proof -
  have "alive m1 r" using grows_alive [OF assms(1)] assms(3) by simp
  then obtain m2 where m2: "alloc r b m1 = Some (unused m1, m2)" "grows r m1 m2" "new_blocks m1 m2 = {unused m1}"
      "blocks m2 (unused m1) = Some (r, b)"
    using alloc_grows [OF grows_tidy [OF assms(1)]] by blast
  then show ?thesis
    using new_blocks_trans [OF assms(1) m2(2)] grows_trans [OF assms(1) m2(2)] by (auto simp: grows_def)
qed

text \<open>A key is copied in front of its value.\<close>

lemma clone_key:
  assumes "string_view_of k m = Some t" "tidy m" "alive m r"
    and "\<And>m1. grows r m m1 \<Longrightarrow>
      \<exists>s' m2. clone_slot n s r m1 = Some (s', m2) \<and> grows r m1 m2 \<and> tree (blocks m2) s' v (new_blocks m1 m2) {}"
  shows "\<exists>q s' m2. clone_entry n r (k, s) m = Some ((TextOwned q, s'), m2) \<and> grows r m m2 \<and>
    blocks m2 q = Some (r, BText t) \<and>
    (\<exists>F. tree (blocks m2) s' v F {} \<and> q \<notin> F \<and> new_blocks m m2 = insert q F)"
proof -
  obtain m1 where m1: "alloc r (BText t) m = Some (unused m, m1)" "grows r m m1" "new_blocks m m1 = {unused m}"
      "blocks m1 (unused m) = Some (r, BText t)"
    using alloc_grows [OF assms(2,3)] by blast
  obtain s' m2 where m2: "clone_slot n s r m1 = Some (s', m2)" "grows r m1 m2" "tree (blocks m2) s' v (new_blocks m1 m2) {}"
    using assms(4) [OF m1(2)] by blast
  have "blocks m2 (unused m) = Some (r, BText t)"
    using grows_blocks [OF m2(2) grows_tidy [OF m1(2)], of "unused m"] m1(4) by simp
  moreover have "new_blocks m m2 = insert (unused m) (new_blocks m1 m2)"
    using new_blocks_trans [OF m1(2) m2(2)] m1(3) by simp
  moreover have "unused m \<notin> new_blocks m1 m2" using new_blocks_disjoint [OF m1(2), of m2] m1(3) by auto
  ultimately show ?thesis
    using assms(1) m1(1) m2 grows_trans [OF m1(2) m2(2)] by (auto simp: clone_entry_def make_owned_def)
qed

lemma clone_member:
  assumes "clone_entry n r (k, s) m = Some ((TextOwned q, s'), m2)" "grows r m m2"
    and "blocks m2 q = Some (r, BText t)" "tree (blocks m2) s' v F {}" "q \<notin> F" "new_blocks m m2 = insert q F"
    and "each_new (clone_entry n r) es m2 = Some (es', m3)" "grows r m2 m3"
    and "members (blocks m3) es' ms (new_blocks m2 m3) {}"
  shows "\<exists>es' m'. each_new (clone_entry n r) ((k, s) # es) m = Some (es', m') \<and> grows r m m' \<and>
    members (blocks m') es' ((t, v) # ms) (new_blocks m m') {}"
proof -
  have d: "insert q F \<inter> new_blocks m2 m3 = {}" using new_blocks_disjoint [OF assms(2), of m3] assms(6) by simp
  have "tree (blocks m3) s' v F {}" by (rule tree_grows [OF assms(4) grows_tidy [OF assms(2)] assms(8)])
  moreover have "blocks m3 q = Some (r, BText t)"
    using grows_blocks [OF assms(8) grows_tidy [OF assms(2)], of q] assms(3) by simp
  ultimately have "members (blocks m3) ((TextOwned q, s') # es') ((t, v) # ms) (insert q F \<union> new_blocks m2 m3) ({} \<union> {})"
    using assms(5,9) d by (intro members_owned) auto
  then show ?thesis
    using assms(1,7) grows_trans [OF assms(2,8)] new_blocks_trans [OF assms(2,8)] assms(6) by simp
qed

lemma clone_tree:
  "tree h s v F B \<Longrightarrow> shows_blocks h (F \<union> B) m \<Longrightarrow> tidy m \<Longrightarrow> alive m r \<Longrightarrow> card F < n \<Longrightarrow>
    \<exists>s' m'. clone_slot n s r m = Some (s', m') \<and> grows r m m' \<and> tree (blocks m') s' v (new_blocks m m') {}"
  "elems h ss vs F B \<Longrightarrow> shows_blocks h (F \<union> B) m \<Longrightarrow> tidy m \<Longrightarrow> alive m r \<Longrightarrow> card F < n \<Longrightarrow>
    \<exists>ss' m'. each_new (\<lambda>s. clone_slot n s r) ss m = Some (ss', m') \<and> grows r m m' \<and>
      elems (blocks m') ss' vs (new_blocks m m') {}"
  "members h es ms F B \<Longrightarrow> shows_blocks h (F \<union> B) m \<Longrightarrow> tidy m \<Longrightarrow> alive m r \<Longrightarrow> card F < n \<Longrightarrow>
    \<exists>es' m'. each_new (clone_entry n r) es m = Some (es', m') \<and> grows r m m' \<and>
      members (blocks m') es' ms (new_blocks m m') {}"
proof (induction arbitrary: m n and m n and m n rule: tree_elems_members.inducts)
  case (tree_view v t B)
  have "view_text v m = Some t" using tree_view.prems(1) by (intro text_reads [OF tree_view.IH]) (auto simp: shows_blocks_def)
  then show ?case
    using copied_text [OF tree_view.prems(2,3), of t] tree_view.prems(4) by (cases n) (auto simp: copied_def)
next
  case (tree_owned p r' t)
  have "text_at p m = Some t" using tree_owned by (auto simp: shows_blocks_def text_at_def)
  then show ?case
    using copied_text [OF tree_owned.prems(2,3), of t] tree_owned.prems(4) by (cases n) (auto simp: copied_def)
next
  case (tree_array p r' ss vs F B)
  obtain k where n: "n = Suc k" "card F < k"
    using tree_array.hyps tree_array.prems(4) tree_finite(2) [OF tree_array.IH(2)] by (cases n) auto
  have b: "blocks m p = Some (r', BArray ss)" using tree_array by (auto simp: shows_blocks_def)
  have "shows_blocks h (F \<union> B) m" using tree_array.prems(1) by (rule shows_mono) auto
  then obtain ss' m1 where c: "each_new (\<lambda>s. clone_slot k s r) ss m = Some (ss', m1)" "grows r m m1"
      "elems (blocks m1) ss' vs (new_blocks m m1) {}"
    using tree_array.IH(3) tree_array.prems(2,3) n(2) by blast
  obtain m2 where m2: "alloc r (BArray ss') m1 = Some (unused m1, m2)" "grows r m m2"
      "blocks m2 (unused m1) = Some (r, BArray ss')" "new_blocks m m2 = insert (unused m1) (new_blocks m m1)"
      "unused m1 \<notin> new_blocks m m1" "\<forall>p \<in> new_blocks m m1. blocks m2 p = blocks m1 p"
    using clone_wrap [OF c(2) tree_array.prems(2,3)] by blast
  have "elems (blocks m2) ss' vs (new_blocks m m1) {}" using c(3) m2(6) by (auto intro: tree_frame(2))
  then have "tree (blocks m2) (SArray (unused m1)) (JArr vs) (new_blocks m m2) {}"
    unfolding m2(4) using m2(3,5) by (rule_tac tree_elems_members.tree_array)
  then show ?case using n(1) b c(1) m2(1,2) by simp
next
  case (tree_object p r' es ms F B)
  obtain k where n: "n = Suc k" "card F < k"
    using tree_object.hyps tree_object.prems(4) tree_finite(3) [OF tree_object.IH(2)] by (cases n) auto
  have b: "blocks m p = Some (r', BObject es)" using tree_object by (auto simp: shows_blocks_def)
  have "shows_blocks h (F \<union> B) m" using tree_object.prems(1) by (rule shows_mono) auto
  then obtain es' m1 where c: "each_new (clone_entry k r) es m = Some (es', m1)" "grows r m m1"
      "members (blocks m1) es' ms (new_blocks m m1) {}"
    using tree_object.IH(3) tree_object.prems(2,3) n(2) by blast
  obtain m2 where m2: "alloc r (BObject es') m1 = Some (unused m1, m2)" "grows r m m2"
      "blocks m2 (unused m1) = Some (r, BObject es')" "new_blocks m m2 = insert (unused m1) (new_blocks m m1)"
      "unused m1 \<notin> new_blocks m m1" "\<forall>p \<in> new_blocks m m1. blocks m2 p = blocks m1 p"
    using clone_wrap [OF c(2) tree_object.prems(2,3)] by blast
  have "members (blocks m2) es' ms (new_blocks m m1) {}" using c(3) m2(6) by (auto intro: tree_frame(3))
  then have "tree (blocks m2) (SObject (unused m1)) (JObj ms) (new_blocks m m2) {}"
    unfolding m2(4) using m2(3,5) by (rule_tac tree_elems_members.tree_object)
  then show ?case unfolding n(1) clone_object using b c(1) m2(1,2) by simp
next
  case elems_nil
  then show ?case by (auto simp: new_blocks_def intro: grows_refl tree_elems_members.elems_nil)
next
  case (elems_cons s v F B ss vs F' B')
  have c: "card F < n" "card F' < n"
    using elems_cons.prems(4) card_mono [of "F \<union> F'"] tree_finite(1) [OF elems_cons.IH(1)] tree_finite(2) [OF elems_cons.IH(3)]
    by (meson finite_UnI le_less_trans sup_ge1 sup_ge2)+
  have sh: "shows_blocks h (F \<union> B) m" "shows_blocks h (F' \<union> B') m"
    using elems_cons.prems(1) by (auto intro: shows_mono)
  obtain s' m1 where x: "clone_slot n s r m = Some (s', m1)" "grows r m m1" "tree (blocks m1) s' v (new_blocks m m1) {}"
    using elems_cons.IH(2) [OF sh(1) elems_cons.prems(2,3) c(1)] by blast
  have "shows_blocks h (F' \<union> B') m1" by (rule shows_grows [OF sh(2) elems_cons.prems(2) x(2)])
  then obtain ss' m2 where y: "each_new (\<lambda>s. clone_slot n s r) ss m1 = Some (ss', m2)" "grows r m1 m2"
      "elems (blocks m2) ss' vs (new_blocks m1 m2) {}"
    using elems_cons.IH(4) [of m1 n] grows_tidy [OF x(2)] grows_alive [OF x(2)] elems_cons.prems(3) c(2) by auto
  have "tree (blocks m2) s' v (new_blocks m m1) {}" by (rule tree_grows [OF x(3) grows_tidy [OF x(2)] y(2)])
  from tree_elems_members.elems_cons [OF this y(3) new_blocks_disjoint [OF x(2)]]
  have "elems (blocks m2) (s' # ss') (v # vs) (new_blocks m m2) {}" by (simp add: new_blocks_trans [OF x(2) y(2)])
  then show ?case using x(1) y(1) grows_trans [OF x(2) y(2)] by simp
next
  case members_nil
  then show ?case by (auto simp: new_blocks_def intro: grows_refl tree_elems_members.members_nil)
next
  case (members_view kv k Bk s v F B es ms F' B')
  have c: "card F < n" "card F' < n"
    using members_view.prems(4) card_mono [of "F \<union> F'"] tree_finite(1) [OF members_view.IH(2)] tree_finite(3) [OF members_view.IH(4)]
    by (meson finite_UnI le_less_trans sup_ge1 sup_ge2)+
  have sh: "shows_blocks h (F \<union> B) m" "shows_blocks h (F' \<union> B') m" "shows_blocks h Bk m"
    using members_view.prems(1) by (auto intro: shows_mono)
  have "view_text kv m = Some k" using sh(3) by (intro text_reads [OF members_view.IH(1)]) (auto simp: shows_blocks_def)
  then have k: "string_view_of (TextView kv) m = Some k" by (simp add: string_view_of_def)
  have "\<exists>s' m2. clone_slot n s r m1 = Some (s', m2) \<and> grows r m1 m2 \<and> tree (blocks m2) s' v (new_blocks m1 m2) {}"
    if "grows r m m1" for m1
    using members_view.IH(3) [of m1 n] shows_grows [OF sh(1) members_view.prems(2) that] grows_tidy [OF that]
      grows_alive [OF that] members_view.prems(3) c(1) by simp
  from clone_key [OF k members_view.prems(2,3) this]
  obtain q s' m2 G where x: "clone_entry n r (TextView kv, s) m = Some ((TextOwned q, s'), m2)" "grows r m m2"
      "blocks m2 q = Some (r, BText k)" "tree (blocks m2) s' v G {}" "q \<notin> G" "new_blocks m m2 = insert q G"
    by blast
  obtain es' m3 where "each_new (clone_entry n r) es m2 = Some (es', m3)" "grows r m2 m3"
      "members (blocks m3) es' ms (new_blocks m2 m3) {}"
    using members_view.IH(5) [of m2 n] shows_grows [OF sh(2) members_view.prems(2) x(2)] grows_tidy [OF x(2)]
      grows_alive [OF x(2)] members_view.prems(3) c(2) by auto
  with x show ?case by (rule clone_member)
next
  case (members_owned p r' k s v F B es ms F' B')
  have "finite (insert p F \<union> F')" using tree_finite(1) [OF members_owned.IH(2)] tree_finite(3) [OF members_owned.IH(4)] by simp
  then have c: "card F < n" "card F' < n"
    using members_owned.prems(4) card_mono [of "insert p F \<union> F'"]
    by (meson le_less_trans sup_ge1 sup_ge2 subset_trans subset_insertI)+
  have sh: "shows_blocks h (F \<union> B) m" "shows_blocks h (F' \<union> B') m" "shows_blocks h {p} m"
    using members_owned.prems(1) by (auto intro: shows_mono)
  have k: "string_view_of (TextOwned p) m = Some k"
    using sh(3) members_owned.IH(1) by (simp add: string_view_of_def text_at_def shows_blocks_def)
  have "\<exists>s' m2. clone_slot n s r m1 = Some (s', m2) \<and> grows r m1 m2 \<and> tree (blocks m2) s' v (new_blocks m1 m2) {}"
    if "grows r m m1" for m1
    using members_owned.IH(3) [of m1 n] shows_grows [OF sh(1) members_owned.prems(2) that] grows_tidy [OF that]
      grows_alive [OF that] members_owned.prems(3) c(1) by simp
  from clone_key [OF k members_owned.prems(2,3) this]
  obtain q s' m2 G where x: "clone_entry n r (TextOwned p, s) m = Some ((TextOwned q, s'), m2)" "grows r m m2"
      "blocks m2 q = Some (r, BText k)" "tree (blocks m2) s' v G {}" "q \<notin> G" "new_blocks m m2 = insert q G"
    by blast
  obtain es' m3 where "each_new (clone_entry n r) es m2 = Some (es', m3)" "grows r m2 m3"
      "members (blocks m3) es' ms (new_blocks m2 m3) {}"
    using members_owned.IH(5) [of m2 n] shows_grows [OF sh(2) members_owned.prems(2) x(2)] grows_tidy [OF x(2)]
      grows_alive [OF x(2)] members_owned.prems(3) c(2) by auto
  with x show ?case by (rule clone_member)
qed (auto simp: gr0_conv_Suc new_blocks_def intro: grows_refl tree_elems_members.intros)

end
