(* ===== verification/Ownership.thy ===== *)
theory Ownership
  imports StorageProofs KeyIndex
begin

text \<open>
  Programs over \<^verbatim>\<open>Json\<close> variables: the special member functions of
  \<^verbatim>\<open>include/pjh_json/json.hpp\<close> implement values without sharing, touch no dead memory and
  lose no block.
\<close>

section \<open>Values without memory\<close>

type_synonym env = "nat \<Rightarrow> jvalue option"

text \<open>The text a view shows in the buffers \<open>E\<close> that outlive the program.\<close>

definition borrowed :: "heap \<Rightarrow> text_view \<Rightarrow> bytes option" where
  "borrowed E v =
     (case v of (p, off, n) \<Rightarrow>
        if n = 0 then Some []
        else (case E p of
                Some (_, BText bs) \<Rightarrow> if off + n \<le> length bs then Some (take n (drop off bs)) else None
              | _ \<Rightarrow> None))"

text \<open>The value of a representation that owns nothing.\<close>

fun plain_value :: "heap \<Rightarrow> jslot \<Rightarrow> jvalue option" where
  "plain_value E SNull = Some JNull"
| "plain_value E (SBool b) = Some (JBool b)"
| "plain_value E (SInt i) = Some (JInt i)"
| "plain_value E (SFloat d) = Some (JFloat d)"
| "plain_value E (SView v) = map_option JStr (borrowed E v)"
| "plain_value E _ = None"

text \<open>
  What an operation means for the values; it is \<^term>\<open>None\<close> where the caller breaks its part
  of the contract: an undeclared variable, an index out of range, a container into itself.
\<close>

definition fresh_var :: "nat \<Rightarrow> jvalue option \<Rightarrow> env \<Rightarrow> env option" where
  "fresh_var x v e = (if e x \<noteq> None \<or> v = None then None else Some (e(x := v)))"

fun value_step :: "heap \<Rightarrow> op \<Rightarrow> env \<Rightarrow> env option" where
  "value_step E (Declare x s) e = fresh_var x (plain_value E s) e"
| "value_step E (Own x v r) e = fresh_var x (map_option JStr (borrowed E v)) e"
| "value_step E (NewArray x r) e = fresh_var x (Some (JArr [])) e"
| "value_step E (Clone x y r) e = fresh_var x (e y) e"
| "value_step E (MoveInit x y) e = map_option (\<lambda>e. e(y \<mapsto> JNull)) (fresh_var x (e y) e)"
| "value_step E (MoveAssign x y) e =
     (if e x = None \<or> e y = None then None
      else if x = y then Some e else Some (e(x := e y, y \<mapsto> JNull)))"
| "value_step E (Assign x s) e =
     (if e x = None \<or> plain_value E s = None then None else Some (e(x := plain_value E s)))"
| "value_step E (PushBack x y) e =
     (case (e x, e y) of
        (Some (JArr vs), Some v) \<Rightarrow> if x = y then None else Some (e(x \<mapsto> JArr (vs @ [v]), y \<mapsto> JNull))
      | _ \<Rightarrow> None)"
| "value_step E (NewObject x r) e = fresh_var x (Some (JObj [])) e"
| "value_step E (InsertMember x key y r) e =
     (case (e x, e y) of
        (Some (JObj ms), Some v) \<Rightarrow> if x = y then None else Some (e(x \<mapsto> JObj (obj_put ms key v), y \<mapsto> JNull))
      | _ \<Rightarrow> None)"
| "value_step E (TakeElement x y i) e =
     (case e y of
        Some (JArr vs) \<Rightarrow>
          if i < length vs \<and> e x = None then Some (e(x \<mapsto> vs ! i, y \<mapsto> JArr (vs[i := JNull]))) else None
      | _ \<Rightarrow> None)"
| "value_step E (PutElement x i y) e =
     (case (e x, e y) of
        (Some (JArr vs), Some v) \<Rightarrow>
          if i < length vs \<and> x \<noteq> y then Some (e(x \<mapsto> JArr (vs[i := v]), y \<mapsto> JNull)) else None
      | _ \<Rightarrow> None)"
| "value_step E (LeaveScope x) e = (if e x = None then None else Some (e(x := None)))"

fun value_run :: "heap \<Rightarrow> op list \<Rightarrow> env \<Rightarrow> env option" where
  "value_run E [] e = Some e"
| "value_run E (a # as) e = do { e' \<leftarrow> value_step E a e; value_run E as e' }"

text \<open>The resource an operation allocates from.\<close>

fun op_resource :: "op \<Rightarrow> res" where
  "op_resource (Own x v r) = r"
| "op_resource (NewArray x r) = r"
| "op_resource (Clone x y r) = r"
| "op_resource (NewObject x r) = r"
| "op_resource (InsertMember x key y r) = r"
| "op_resource _ = new_delete_resource"

section \<open>Memory that represents values\<close>

definition shown :: "heap \<Rightarrow> heap \<Rightarrow> jslot option \<Rightarrow> jvalue option \<Rightarrow> ptr set \<Rightarrow> bool" where
  "shown E h s v F =
     (case s of
        None \<Rightarrow> v = None \<and> F = {}
      | Some s' \<Rightarrow> (\<exists>v' B. v = Some v' \<and> tree h s' v' F B \<and> B \<subseteq> dom E))"

text \<open>
  Every variable shows its value in blocks of its own; beside them there are the buffers \<open>E\<close>
  and nothing else, so nothing has leaked.
\<close>

definition holds_values :: "heap \<Rightarrow> cells \<Rightarrow> env \<Rightarrow> (nat \<Rightarrow> ptr set) \<Rightarrow> bool" where
  "holds_values E w e own \<longleftrightarrow>
     tidy (mem w) \<and> (\<forall>p r b. blocks (mem w) p = Some (r, b) \<longrightarrow> alive (mem w) r) \<and>
     (\<forall>p \<in> dom E. blocks (mem w) p = E p) \<and>
     (\<forall>x. shown E (blocks (mem w)) (vars w x) (e x) (own x)) \<and>
     (\<forall>x y. x \<noteq> y \<longrightarrow> own x \<inter> own y = {}) \<and> (\<forall>x. own x \<inter> dom E = {}) \<and>
     dom (blocks (mem w)) = dom E \<union> (\<Union>x. own x)"

definition represents :: "heap \<Rightarrow> cells \<Rightarrow> env \<Rightarrow> bool" where
  "represents E w e \<longleftrightarrow> (\<exists>own. holds_values E w e own)"

lemma shown_frame:
  "shown E h s v F \<Longrightarrow> (\<And>p. p \<in> F \<union> dom E \<Longrightarrow> h' p = h p) \<Longrightarrow> shown E h' s v F"
  by (fastforce simp: shown_def split: option.splits intro: tree_frame(1) [of h _ _ _ _ h'])

text \<open>A step changes the variables of \<open>Z\<close>, their blocks, and takes new blocks \<open>N\<close> for them.\<close>

lemma holds_change:
  assumes "holds_values E w e own"
    and "tidy (mem w')" "alive (mem w') = alive (mem w)"
    and "\<And>p r b. blocks (mem w') p = Some (r, b) \<Longrightarrow> blocks (mem w) p = None \<Longrightarrow> alive (mem w) r"
    and "\<And>p r b. blocks (mem w') p = Some (r, b) \<Longrightarrow> blocks (mem w) p \<noteq> None \<Longrightarrow> \<exists>b'. blocks (mem w) p = Some (r, b')"
    and "\<And>p. p \<notin> \<Union>(own ` Z) \<Longrightarrow> blocks (mem w) p \<noteq> None \<Longrightarrow> blocks (mem w') p = blocks (mem w) p"
    and "\<And>z. z \<notin> Z \<Longrightarrow> vars w' z = vars w z \<and> e' z = e z \<and> own' z = own z"
    and "\<And>z. z \<in> Z \<Longrightarrow> shown E (blocks (mem w')) (vars w' z) (e' z) (own' z)"
    and "\<And>x y. x \<in> Z \<Longrightarrow> y \<in> Z \<Longrightarrow> x \<noteq> y \<Longrightarrow> own' x \<inter> own' y = {}"
    and "\<Union>(own' ` Z) \<inter> dom (blocks (mem w)) \<subseteq> \<Union>(own ` Z)"
    and "dom (blocks (mem w')) = (dom (blocks (mem w)) - \<Union>(own ` Z)) \<union> \<Union>(own' ` Z)"
  shows "holds_values E w' e' own'"
proof -
  have sep: "\<And>x y. x \<noteq> y \<Longrightarrow> own x \<inter> own y = {}" and out: "\<And>x. own x \<inter> dom E = {}"
    and dom: "dom (blocks (mem w)) = dom E \<union> (\<Union>x. own x)"
    and E: "\<And>p. p \<in> dom E \<Longrightarrow> blocks (mem w) p = E p"
    and sh: "\<And>x. shown E (blocks (mem w)) (vars w x) (e x) (own x)"
    using assms(1) by (auto simp: holds_values_def)
  have same: "blocks (mem w') p = blocks (mem w) p" if "p \<in> dom E \<or> (\<exists>z. z \<notin> Z \<and> p \<in> own z)" for p
  proof (rule assms(6))
    show "p \<notin> \<Union>(own ` Z)"
    proof
      assume "p \<in> \<Union>(own ` Z)"
      then obtain y where "y \<in> Z" "p \<in> own y" by blast
      with that sep [of y] out [of y] show False by (metis disjoint_iff)
    qed
    have "p \<in> dom (blocks (mem w))" using that unfolding dom by blast
    then show "blocks (mem w) p \<noteq> None" by blast
  qed
  have "shown E (blocks (mem w')) (vars w' z) (e' z) (own' z)" for z
  proof (cases "z \<in> Z")
    case False
    have "shown E (blocks (mem w')) (vars w z) (e z) (own z)" by (rule shown_frame [OF sh]) (use same False in auto)
    then show ?thesis using assms(7) [OF False] by simp
  qed (rule assms(8))
  moreover
  have src: "\<exists>y\<in>Z. p \<in> own y" if "z \<in> Z" "p \<in> own' z" "p \<in> dom E \<or> p \<in> own x" for z p x
    using assms(10) that unfolding dom by blast
  have off: "own' z \<inter> dom E = {}" if "z \<in> Z" for z using src [OF that] out by blast
  have new: "own' z \<inter> own y = {}" if "z \<in> Z" "y \<notin> Z" for z y
  proof (rule ccontr)
    assume "own' z \<inter> own y \<noteq> {}"
    then obtain p where "p \<in> own' z" "p \<in> own y" by blast
    with src [OF that(1)] sep that(2) show False by (metis disjoint_iff)
  qed
  have "own' x \<inter> own' y = {}" if "x \<noteq> y" for x y
    using that assms(7,9) new [of x y] new [of y x] sep [of x y] by (cases "x \<in> Z"; cases "y \<in> Z") auto
  moreover have "own' z \<inter> dom E = {}" for z
    using assms(7) [of z] off [of z] out [of z] by (cases "z \<in> Z") auto
  moreover have "dom (blocks (mem w')) = dom E \<union> (\<Union>x. own' x)"
  proof -
    have "(\<Union>x. own' x) = \<Union>(own' ` Z) \<union> \<Union>(own ` (- Z))" using assms(7) by auto
    moreover have "(\<Union>x. own x) - \<Union>(own ` Z) = \<Union>(own ` (- Z))"
    proof -
      have "x = y" if "p \<in> own x" "p \<in> own y" for p x y using sep that by blast
      then show ?thesis by blast
    qed
    moreover have "dom E - \<Union>(own ` Z) = dom E" using out by blast
    ultimately show ?thesis unfolding assms(11) dom Un_Diff by (simp add: Un_ac)
  qed
  moreover have "alive (mem w') r" if "blocks (mem w') p = Some (r, b)" for p r b
    using that assms(1,3) assms(4) [OF that] assms(5) [OF that] unfolding holds_values_def by (cases "blocks (mem w) p") auto
  moreover have "blocks (mem w') p = E p" if "p \<in> dom E" for p using same E that by simp
  ultimately show ?thesis unfolding holds_values_def using assms(2) by blast
qed

section \<open>The variables of a program\<close>

lemma holds_shown: "holds_values E w e own \<Longrightarrow> shown E (blocks (mem w)) (vars w x) (e x) (own x)"
  by (simp add: holds_values_def)

lemma holds_apart: "holds_values E w e own \<Longrightarrow> own x \<inter> dom E = {}"
  by (simp add: holds_values_def)

lemma holds_alive: "holds_values E w e own \<Longrightarrow> blocks (mem w) p = Some (r, b) \<Longrightarrow> alive (mem w) r"
  unfolding holds_values_def by (elim conjE allE [of _ p] allE [of _ r] allE [of _ b]) (erule mp)

lemma holds_var:
  assumes "holds_values E w e own" "e x = Some v"
  obtains s B where "vars w x = Some s" "tree (blocks (mem w)) s v (own x) B" "B \<subseteq> dom E" "own x \<inter> B = {}"
proof -
  have "shown E (blocks (mem w)) (vars w x) (Some v) (own x)" using holds_shown [OF assms(1), of x] assms(2) by simp
  moreover have "own x \<inter> dom E = {}" by (rule holds_apart [OF assms(1)])
  ultimately obtain s B where "vars w x = Some s" "tree (blocks (mem w)) s v (own x) B" "B \<subseteq> dom E" "own x \<inter> B = {}"
    unfolding shown_def by (cases "vars w x"; simp) blast
  then show ?thesis by (rule that)
qed

lemma holds_tree:
  assumes "holds_values E w e own" "vars w x = Some s"
  obtains v B where "e x = Some v" "tree (blocks (mem w)) s v (own x) B" "B \<subseteq> dom E" "own x \<inter> B = {}"
  using holds_shown [OF assms(1), of x] holds_apart [OF assms(1), of x] assms(2) unfolding shown_def by simp blast

lemma holds_none:
  assumes "holds_values E w e own" "e x = None" shows "vars w x = None" "own x = {}"
proof -
  have "shown E (blocks (mem w)) (vars w x) None (own x)" using holds_shown [OF assms(1), of x] assms(2) by simp
  then show "vars w x = None" "own x = {}" by (cases "vars w x"; simp add: shown_def)+
qed

lemma holds_tidy: "holds_values E w e own \<Longrightarrow> tidy (mem w)"
  by (simp add: holds_values_def)

lemma holds_owned: "holds_values E w e own \<Longrightarrow> own x \<subseteq> dom (blocks (mem w))"
  by (auto simp: holds_values_def)

lemma holds_disjoint: "holds_values E w e own \<Longrightarrow> x \<noteq> y \<Longrightarrow> own x \<inter> own y = {}"
  by (simp add: holds_values_def)

lemma tidy_card: "tidy m \<Longrightarrow> F \<subseteq> dom (blocks m) \<Longrightarrow> card F < Suc (unused m)"
proof -
  assume "tidy m" "F \<subseteq> dom (blocks m)"
  then have "F \<subseteq> {..<unused m}" by (auto simp: tidy_def)
  then show ?thesis using card_mono [of "{..<unused m}" F] by simp
qed

lemma holds_destroy:
  assumes "holds_values E w e own" "tree (blocks (mem w)) s v F B"
  shows "destroy s (mem w) = Some (without F (mem w))"
proof -
  have F: "F \<subseteq> dom (blocks (mem w))" using tree_blocks(1) [OF assms(2)] by blast
  have "usable (blocks (mem w)) F (mem w)"
    unfolding usable_def
  proof
    fix p assume "p \<in> F"
    with F obtain r b where "blocks (mem w) p = Some (r, b)" by fastforce
    with holds_alive [OF assms(1) this]
    show "blocks (mem w) p = blocks (mem w) p \<and> (\<exists>r b. blocks (mem w) p = Some (r, b) \<and> alive (mem w) r)" by blast
  qed
  then show ?thesis
    unfolding destroy_def using tidy_card [OF holds_tidy [OF assms(1)] F] by (rule destroy_tree(1) [OF assms(2)])
qed

lemma tidy_without: "tidy m \<Longrightarrow> tidy (without F m)"
  by (simp add: tidy_def)

lemma clone_value:
  assumes "tree (blocks m) s v F B" "tidy m" "alive m r"
  obtains s' m' where "clone s r m = Some (s', m')" "grows r m m'" "tree (blocks m') s' v (new_blocks m m') {}"
proof -
  have all: "F \<union> B \<subseteq> dom (blocks m)" using tree_blocks_all(1) [OF assms(1)] by blast
  then have "shows_blocks (blocks m) (F \<union> B) m" by (auto simp: shows_blocks_def)
  then show ?thesis
    using clone_tree(1) [OF assms(1) _ assms(2,3), of "Suc (unused m)"] tidy_card [OF assms(2), of F] all that
    unfolding clone_def by blast
qed

text \<open>A new variable with a value in new blocks.\<close>

lemma holds_new:
  assumes h: "holds_values E w e own" and "e x = None" "grows r (mem w) m'" "alive (mem w) r"
    and t: "tree (blocks m') s v (new_blocks (mem w) m') B" "B \<subseteq> dom E"
  shows "holds_values E (w\<lparr>mem := m', vars := (vars w)(x \<mapsto> s)\<rparr>) (e(x \<mapsto> v)) (own(x := new_blocks (mem w) m'))"
proof -
  have old: "blocks m' p = blocks (mem w) p" if "blocks (mem w) p \<noteq> None" for p
    using grows_blocks [OF assms(3) holds_tidy [OF h] that] .
  have new: "p < unused m' \<and> (unused (mem w) \<le> p \<longrightarrow> (\<exists>b. blocks m' p = Some (r, b)))" if "blocks m' p \<noteq> None" for p
    using assms(3) that by (auto simp: grows_def tidy_def)
  have below: "p < unused (mem w)" if "blocks (mem w) p \<noteq> None" for p
    using holds_tidy [OF h] that by (simp add: tidy_def)
  show ?thesis
  proof (rule holds_change [OF h, of _ "{x}"])
  show "dom (blocks (mem (w\<lparr>mem := m', vars := (vars w)(x \<mapsto> s)\<rparr>))) =
      dom (blocks (mem w)) - \<Union> (own ` {x}) \<union> \<Union> ((own(x := new_blocks (mem w) m')) ` {x})"
  proof -
    have lo: "p < unused (mem w) \<Longrightarrow> blocks m' p = blocks (mem w) p" for p using assms(3) by (simp add: grows_def)
    have hi: "p \<in> new_blocks (mem w) m' \<Longrightarrow> blocks m' p \<noteq> None" for p using assms(3) by (force simp: grows_def)
    have "blocks m' p \<noteq> None \<longleftrightarrow> blocks (mem w) p \<noteq> None \<or> p \<in> new_blocks (mem w) m'" for p
      using old [of p] new [of p] lo [of p] hi [of p] by (cases "p < unused (mem w)") auto
    then have "dom (blocks m') = dom (blocks (mem w)) \<union> new_blocks (mem w) m'" unfolding dom_def by blast
    then show ?thesis using holds_none(2) [OF h assms(2)] by simp
  qed
  show "alive (mem (w\<lparr>mem := m', vars := (vars w)(x \<mapsto> s)\<rparr>)) = alive (mem w)"
    using grows_alive [OF assms(3)] by simp
  show "tidy (mem (w\<lparr>mem := m', vars := (vars w)(x \<mapsto> s)\<rparr>))" using assms(3) by (simp add: grows_def)
  show "alive (mem w) r'"
    if "blocks (mem (w\<lparr>mem := m', vars := (vars w)(x \<mapsto> s)\<rparr>)) p = Some (r', b)" "blocks (mem w) p = None" for p r' b
    using that new [of p] assms(3,4) by (cases "unused (mem w) \<le> p") (auto simp: grows_def)
  show "\<Union> ((own(x := new_blocks (mem w) m')) ` {x}) \<inter> dom (blocks (mem w)) \<subseteq> \<Union> (own ` {x})"
    using below by (auto simp: domIff dest!: leD)
qed (use t old holds_none(2) [OF h assms(2)] grows_blocks [OF assms(3) holds_tidy [OF h]] holds_tidy [OF h]
      in \<open>auto simp: shown_def\<close>)
qed

text \<open>A representation without blocks replaces another.\<close>

lemma holds_set:
  assumes "holds_values E w e own" "own x = {}" "tree (blocks (mem w)) s v {} B" "B \<subseteq> dom E"
  shows "holds_values E (w\<lparr>vars := (vars w)(x \<mapsto> s)\<rparr>) (e(x \<mapsto> v)) own"
  by (rule holds_change [OF assms(1), of _ "{x}"])
    (use assms holds_tidy [OF assms(1)] in \<open>auto simp: shown_def\<close>)

lemma holds_unset:
  assumes "holds_values E w e own" "own x = {}"
  shows "holds_values E (w\<lparr>vars := (vars w)(x := None)\<rparr>) (e(x := None)) own"
  by (rule holds_change [OF assms(1), of _ "{x}"])
    (use assms holds_tidy [OF assms(1)] in \<open>auto simp: shown_def\<close>)

lemma plain_tree:
  assumes "holds_values E w e own" "plain_value E s = Some v"
  obtains B where "tree (blocks (mem w)) s v {} B" "B \<subseteq> dom E"
proof -
  have E: "\<And>p. p \<in> dom E \<Longrightarrow> blocks (mem w) p = E p" using assms(1) by (simp add: holds_values_def)
  have "\<exists>B. tree (blocks (mem w)) s v {} B \<and> B \<subseteq> dom E"
  proof (cases s)
    case (SView x)
    obtain p off n where x: "x = (p, off, n)" by (cases x)
    obtain t where t: "v = JStr t" "borrowed E x = Some t" using assms(2) SView by auto
    show ?thesis
    proof (cases "n = 0")
      case True
      then have "text_in (blocks (mem w)) x t {}" using t(2) x by (simp add: text_in_def borrowed_def)
      then show ?thesis using SView t(1) by (blast intro: tree_view)
    next
      case False
      then have p: "p \<in> dom E" using t(2) x by (auto simp: borrowed_def split: option.splits)
      then have "text_in (blocks (mem w)) x t {p}"
        using False t(2) x E [OF p] by (auto simp: text_in_def borrowed_def split: option.splits block.splits if_splits)
      with p have "p \<in> dom E" "text_in (blocks (mem w)) x t {p}" by simp_all
      then show ?thesis using SView t(1) by (blast intro: tree_view)
    qed
  qed (use assms(2) in \<open>auto intro: tree_elems_members.intros\<close>)
  with that show ?thesis by blast
qed

text \<open>The blocks of one variable pass to another.\<close>

lemma holds_moved:
  assumes h: "holds_values E w e own" and "x \<noteq> y" "own x = {}" "vars w y = Some s" "e y = Some v"
  shows "holds_values E (w\<lparr>vars := (vars w)(x \<mapsto> s, y \<mapsto> SNull)\<rparr>) (e(x \<mapsto> v, y \<mapsto> JNull)) (own(x := own y, y := {}))"
proof -
  obtain B where "tree (blocks (mem w)) s v (own y) B" "B \<subseteq> dom E"
    using holds_tree [OF h assms(4)] assms(5) by (metis option.inject)
  then show ?thesis
    by (intro holds_change [OF h, of _ "{x, y}"])
      (use assms(2,3) holds_tidy [OF h] holds_owned [OF h, of y] in \<open>auto simp: shown_def intro: tree_null\<close>)
qed

text \<open>A destroyed value gives its blocks back.\<close>

lemma holds_destroyed:
  assumes h: "holds_values E w e own" and "vars w x = Some s"
  shows "destroy s (mem w) = Some (without (own x) (mem w))"
    and "holds_values E (w\<lparr>mem := without (own x) (mem w), vars := (vars w)(x \<mapsto> SNull)\<rparr>) (e(x \<mapsto> JNull)) (own(x := {}))"
proof -
  obtain v B where "tree (blocks (mem w)) s v (own x) B" using holds_tree [OF h assms(2)] by metis
  then show "destroy s (mem w) = Some (without (own x) (mem w))" by (rule holds_destroy [OF h])
  show "holds_values E (w\<lparr>mem := without (own x) (mem w), vars := (vars w)(x \<mapsto> SNull)\<rparr>) (e(x \<mapsto> JNull)) (own(x := {}))"
    by (rule holds_change [OF h, of _ "{x}"])
      (use holds_tidy [OF h] in \<open>auto simp: shown_def tidy_without intro: tree_null split: if_splits\<close>)
qed

section \<open>Elements of an array\<close>

lemma elems_append:
  "elems h ss vs F B \<Longrightarrow> tree h s v G C \<Longrightarrow> F \<inter> G = {} \<Longrightarrow> elems h (ss @ [s]) (vs @ [v]) (F \<union> G) (B \<union> C)"
proof (induction ss arbitrary: vs F B)
  case Nil
  then have "vs = []" "F = {}" "B = {}" by (auto elim: elems.cases)
  then show ?case using elems_cons [OF Nil(2) elems_nil] by simp
next
  case (Cons a ss)
  from Cons.prems(1) obtain u us F1 F2 B1 B2 where e: "vs = u # us" "F = F1 \<union> F2" "B = B1 \<union> B2"
      "tree h a u F1 B1" "elems h ss us F2 B2" "F1 \<inter> F2 = {}"
    by (cases rule: elems.cases) auto
  have "elems h (ss @ [s]) (us @ [v]) (F2 \<union> G) (B2 \<union> C)" using Cons.IH [OF e(5) Cons.prems(2)] Cons.prems(3) e(2) by blast
  then show ?case using elems_cons [OF e(4)] e(1-3,6) Cons.prems(3) by (simp add: Un_assoc Int_Un_distrib Int_Un_distrib2)
qed

text \<open>One element and the rest of the array, where another element may stand in its place.\<close>

lemma elems_at:
  assumes "elems h ss vs F B" "i < length vs"
  obtains Fi Bi Fr Br where "i < length ss" "tree h (ss ! i) (vs ! i) Fi Bi" "F = Fi \<union> Fr" "Fi \<inter> Fr = {}" "B = Bi \<union> Br"
    "\<And>h' s v G C. (\<And>p. p \<in> Fr \<union> Br \<Longrightarrow> h' p = h p) \<Longrightarrow> tree h' s v G C \<Longrightarrow> G \<inter> Fr = {} \<Longrightarrow>
       elems h' (ss[i := s]) (vs[i := v]) (G \<union> Fr) (C \<union> Br)"
  using assms
proof (induction ss arbitrary: vs F B i thesis)
  case Nil
  then show ?case by (auto elim: elems.cases)
next
  case (Cons a ss)
  from Cons.prems(2) obtain u us F1 F2 B1 B2 where e: "vs = u # us" "F = F1 \<union> F2" "B = B1 \<union> B2"
      "tree h a u F1 B1" "elems h ss us F2 B2" "F1 \<inter> F2 = {}"
    by (cases rule: elems.cases) auto
  show ?case
  proof (cases i)
    case 0
    show ?thesis
      by (rule Cons.prems(1) [of F1 B1 F2 B2])
        (use e 0 elems_cons tree_frame(2) [OF e(5)] in \<open>auto\<close>)
  next
    case (Suc j)
    have "j < length us" using Cons.prems(3) e(1) Suc by simp
    with Cons.IH [OF _ e(5)] obtain Fi Bi Fr Br where r: "j < length ss" "tree h (ss ! j) (us ! j) Fi Bi"
        "F2 = Fi \<union> Fr" "Fi \<inter> Fr = {}" "B2 = Bi \<union> Br"
        "\<And>h' s v G C. (\<And>p. p \<in> Fr \<union> Br \<Longrightarrow> h' p = h p) \<Longrightarrow> tree h' s v G C \<Longrightarrow> G \<inter> Fr = {} \<Longrightarrow>
          elems h' (ss[j := s]) (us[j := v]) (G \<union> Fr) (C \<union> Br)"
      by metis
    show ?thesis
    proof (rule Cons.prems(1) [of Fi Bi "F1 \<union> Fr" "B1 \<union> Br"])
      fix h' s v G C
      assume a: "\<And>p. p \<in> (F1 \<union> Fr) \<union> (B1 \<union> Br) \<Longrightarrow> h' p = h p" "tree h' s v G C" "G \<inter> (F1 \<union> Fr) = {}"
      have "tree h' a u F1 B1" using a(1) by (auto intro: tree_frame(1) [OF e(4)])
      moreover have "elems h' (ss[j := s]) (us[j := v]) (G \<union> Fr) (C \<union> Br)" using a by (intro r(6)) auto
      moreover have "F1 \<inter> (G \<union> Fr) = {}" using a(3) e(6) r(3) by blast
      ultimately have "elems h' (a # ss[j := s]) (u # us[j := v]) (F1 \<union> (G \<union> Fr)) (B1 \<union> (C \<union> Br))" by (rule elems_cons)
      then show "elems h' ((a # ss)[i := s]) (vs[i := v]) (G \<union> (F1 \<union> Fr)) (C \<union> (B1 \<union> Br))"
        using e(1) Suc by (simp add: Un_left_commute)
    qed (use e r Suc in auto)
  qed
qed

lemma holds_array:
  assumes h: "holds_values E w e own" and "e x = Some (JArr vs)"
  obtains p r ss F B where "vars w x = Some (SArray p)" "blocks (mem w) p = Some (r, BArray ss)"
    "elems (blocks (mem w)) ss vs F B" "p \<notin> F" "own x = insert p F" "B \<subseteq> dom E" "own x \<inter> B = {}" "alive (mem w) r"
proof -
  obtain s B where t: "vars w x = Some s" "tree (blocks (mem w)) s (JArr vs) (own x) B" "B \<subseteq> dom E" "own x \<inter> B = {}"
    by (rule holds_var [OF assms])
  from t(2) show ?thesis
    by (cases rule: tree.cases) (use t that holds_alive [OF h] in blast)+
qed

section \<open>Entries of an object\<close>

lemma members_append:
  "members h es ms F B \<Longrightarrow> h q = Some (r, BText k) \<Longrightarrow> tree h s v G C \<Longrightarrow> q \<notin> F \<Longrightarrow> q \<notin> G \<Longrightarrow> F \<inter> G = {} \<Longrightarrow>
    members h (es @ [(TextOwned q, s)]) (ms @ [(k, v)]) (insert q (F \<union> G)) (B \<union> C)"
proof (induction es arbitrary: ms F B)
  case Nil
  then have "ms = []" "F = {}" "B = {}" by (auto elim: members.cases)
  then show ?case using tree_elems_members.members_owned [OF Nil(2,3) members_nil] Nil(5) by simp
next
  case (Cons e es)
  from Cons.prems(1) show ?case
  proof (cases rule: members.cases)
    case (members_view kv k' Bk s' v' F1 B1 ms' F2 B2)
    have "members h (es @ [(TextOwned q, s)]) (ms' @ [(k, v)]) (insert q (F2 \<union> G)) (B2 \<union> C)"
      using Cons.IH [OF members_view(7) Cons.prems(2,3)] Cons.prems(4-6) members_view(3) by blast
    from tree_elems_members.members_view [OF members_view(5,6) this] members_view(3,8) Cons.prems(4-6)
    have "members h ((TextView kv, s') # es @ [(TextOwned q, s)]) ((k', v') # ms' @ [(k, v)])
        (F1 \<union> insert q (F2 \<union> G)) (Bk \<union> B1 \<union> (B2 \<union> C))" by blast
    then show ?thesis using members_view(1-4) by (simp add: Un_assoc insert_commute)
  next
    case (members_owned p r' k' s' v' F1 B1 ms' F2 B2)
    have "members h (es @ [(TextOwned q, s)]) (ms' @ [(k, v)]) (insert q (F2 \<union> G)) (B2 \<union> C)"
      using Cons.IH [OF members_owned(7) Cons.prems(2,3)] Cons.prems(4-6) members_owned(3) by blast
    from tree_elems_members.members_owned [OF members_owned(5,6) this] members_owned(3,8-10) Cons.prems(4-6)
    have "members h ((TextOwned p, s') # es @ [(TextOwned q, s)]) ((k', v') # ms' @ [(k, v)])
        (insert p F1 \<union> insert q (F2 \<union> G)) (B1 \<union> (B2 \<union> C))" by blast
    then show ?thesis using members_owned(1-4) by (simp add: Un_assoc insert_commute)
  qed
qed

text \<open>One value and the rest of the object, as for arrays.\<close>

lemma members_at:
  assumes "members h es ms F B" "i < length ms"
  obtains Fi Bi Fr Br where "i < length es" "tree h (snd (es ! i)) (snd (ms ! i)) Fi Bi" "F = Fi \<union> Fr" "Fi \<inter> Fr = {}" "B = Bi \<union> Br"
    "\<And>h' s v G C. (\<And>p. p \<in> Fr \<union> Br \<Longrightarrow> h' p = h p) \<Longrightarrow> tree h' s v G C \<Longrightarrow> G \<inter> Fr = {} \<Longrightarrow>
       members h' (es[i := (fst (es ! i), s)]) (ms[i := (fst (ms ! i), v)]) (G \<union> Fr) (C \<union> Br)"
  using assms
proof (induction es arbitrary: ms F B i thesis)
  case Nil
  then show ?case by (auto elim: members.cases)
next
  case (Cons e es)
  from Cons.prems(2) show ?case
  proof (cases rule: members.cases)
    case (members_view kv k Bk s v F1 B1 ms' F2 B2)
    show ?thesis
    proof (cases i)
      case 0
      show ?thesis
      proof (rule Cons.prems(1) [of F1 B1 F2 "Bk \<union> B2"])
        fix h' s' v' G C
        assume a: "\<And>p. p \<in> F2 \<union> (Bk \<union> B2) \<Longrightarrow> h' p = h p" "tree h' s' v' G C" "G \<inter> F2 = {}"
        have "text_in h' kv k Bk" using members_view(5) a(1) by (auto intro: text_in_cong)
        moreover have "members h' es ms' F2 B2" using a(1) by (auto intro: tree_frame(3) [OF members_view(7)])
        ultimately have "members h' ((TextView kv, s') # es) ((k, v') # ms') (G \<union> F2) (Bk \<union> C \<union> B2)"
          using a(2,3) tree_elems_members.members_view by blast
        then show "members h' ((e # es)[i := (fst ((e # es) ! i), s')]) (ms[i := (fst (ms ! i), v')]) (G \<union> F2) (C \<union> (Bk \<union> B2))"
          using members_view(1,2) 0 by (simp add: Un_left_commute Un_assoc)
      qed (use members_view 0 in auto)
    next
      case (Suc j)
      have "j < length ms'" using Cons.prems(3) members_view(2) Suc by simp
      with Cons.IH [OF _ members_view(7)] obtain Fi Bi Fr Br where r: "j < length es" "tree h (snd (es ! j)) (snd (ms' ! j)) Fi Bi"
          "F2 = Fi \<union> Fr" "Fi \<inter> Fr = {}" "B2 = Bi \<union> Br"
          "\<And>h' s v G C. (\<And>p. p \<in> Fr \<union> Br \<Longrightarrow> h' p = h p) \<Longrightarrow> tree h' s v G C \<Longrightarrow> G \<inter> Fr = {} \<Longrightarrow>
            members h' (es[j := (fst (es ! j), s)]) (ms'[j := (fst (ms' ! j), v)]) (G \<union> Fr) (C \<union> Br)"
        by metis
      show ?thesis
      proof (rule Cons.prems(1) [of Fi Bi "F1 \<union> Fr" "Bk \<union> B1 \<union> Br"])
        fix h' s' v' G C
        assume a: "\<And>p. p \<in> (F1 \<union> Fr) \<union> (Bk \<union> B1 \<union> Br) \<Longrightarrow> h' p = h p" "tree h' s' v' G C" "G \<inter> (F1 \<union> Fr) = {}"
        have "text_in h' kv k Bk" using members_view(5) a(1) by (auto intro: text_in_cong)
        moreover have "tree h' s v F1 B1" using a(1) by (auto intro: tree_frame(1) [OF members_view(6)])
        moreover have "members h' (es[j := (fst (es ! j), s')]) (ms'[j := (fst (ms' ! j), v')]) (G \<union> Fr) (C \<union> Br)"
          using a by (intro r(6)) auto
        moreover have "F1 \<inter> (G \<union> Fr) = {}" using a(3) members_view(8) r(3) by blast
        ultimately have "members h' ((TextView kv, s) # es[j := (fst (es ! j), s')]) ((k, v) # ms'[j := (fst (ms' ! j), v')])
            (F1 \<union> (G \<union> Fr)) (Bk \<union> B1 \<union> (C \<union> Br))" by (rule tree_elems_members.members_view)
        then show "members h' ((e # es)[i := (fst ((e # es) ! i), s')]) (ms[i := (fst (ms ! i), v')]) (G \<union> (F1 \<union> Fr)) (C \<union> (Bk \<union> B1 \<union> Br))"
          using members_view(1,2) Suc by (simp add: Un_left_commute Un_assoc)
      qed (use members_view r Suc in auto)
    qed
  next
    case (members_owned p r' k s v F1 B1 ms' F2 B2)
    show ?thesis
    proof (cases i)
      case 0
      show ?thesis
      proof (rule Cons.prems(1) [of F1 B1 "insert p F2" B2])
        fix h' s' v' G C
        assume a: "\<And>q. q \<in> insert p F2 \<union> B2 \<Longrightarrow> h' q = h q" "tree h' s' v' G C" "G \<inter> insert p F2 = {}"
        have "h' p = Some (r', BText k)" using members_owned(5) a(1) by simp
        moreover have "members h' es ms' F2 B2" using a(1) by (auto intro: tree_frame(3) [OF members_owned(7)])
        moreover have "p \<notin> G" "G \<inter> F2 = {}" using a(3) by auto
        ultimately have "members h' ((TextOwned p, s') # es) ((k, v') # ms') (insert p G \<union> F2) (C \<union> B2)"
          using a(2) members_owned(9) tree_elems_members.members_owned by blast
        then show "members h' ((e # es)[i := (fst ((e # es) ! i), s')]) (ms[i := (fst (ms ! i), v')]) (G \<union> insert p F2) (C \<union> B2)"
          using members_owned(1,2) 0 by simp
      qed (use members_owned 0 in auto)
    next
      case (Suc j)
      have "j < length ms'" using Cons.prems(3) members_owned(2) Suc by simp
      with Cons.IH [OF _ members_owned(7)] obtain Fi Bi Fr Br where r: "j < length es" "tree h (snd (es ! j)) (snd (ms' ! j)) Fi Bi"
          "F2 = Fi \<union> Fr" "Fi \<inter> Fr = {}" "B2 = Bi \<union> Br"
          "\<And>h' s v G C. (\<And>p. p \<in> Fr \<union> Br \<Longrightarrow> h' p = h p) \<Longrightarrow> tree h' s v G C \<Longrightarrow> G \<inter> Fr = {} \<Longrightarrow>
            members h' (es[j := (fst (es ! j), s)]) (ms'[j := (fst (ms' ! j), v)]) (G \<union> Fr) (C \<union> Br)"
        by metis
      show ?thesis
      proof (rule Cons.prems(1) [of Fi Bi "insert p F1 \<union> Fr" "B1 \<union> Br"])
        fix h' s' v' G C
        assume a: "\<And>q. q \<in> (insert p F1 \<union> Fr) \<union> (B1 \<union> Br) \<Longrightarrow> h' q = h q" "tree h' s' v' G C" "G \<inter> (insert p F1 \<union> Fr) = {}"
        have "h' p = Some (r', BText k)" using members_owned(5) a(1) by simp
        moreover have "tree h' s v F1 B1" using a(1) by (auto intro: tree_frame(1) [OF members_owned(6)])
        moreover have "members h' (es[j := (fst (es ! j), s')]) (ms'[j := (fst (ms' ! j), v')]) (G \<union> Fr) (C \<union> Br)"
          using a by (intro r(6)) auto
        moreover have "F1 \<inter> (G \<union> Fr) = {}" "p \<notin> F1" "p \<notin> G \<union> Fr" using a(3) members_owned(8-10) r(3) by blast+
        ultimately have "members h' ((TextOwned p, s) # es[j := (fst (es ! j), s')]) ((k, v) # ms'[j := (fst (ms' ! j), v')])
            (insert p F1 \<union> (G \<union> Fr)) (B1 \<union> (C \<union> Br))" using tree_elems_members.members_owned by blast
        then show "members h' ((e # es)[i := (fst ((e # es) ! i), s')]) (ms[i := (fst (ms ! i), v')])
            (G \<union> (insert p F1 \<union> Fr)) (C \<union> (B1 \<union> Br))"
          using members_owned(1,2) Suc by (simp add: Un_left_commute Un_assoc)
      qed (use members_owned r Suc in auto)
    qed
  qed
qed

text \<open>The search finds the first entry, and the entries it decides about.\<close>

lemma find_member_put:
  "members (blocks m) es ms F B \<Longrightarrow>
    \<exists>r. find_member key es m = Some r \<and>
      (case r of
         None \<Rightarrow> obj_put ms key v = ms @ [(key, v)]
       | Some i \<Rightarrow> i < length ms \<and> obj_put ms key v = ms[i := (fst (ms ! i), v)])"
proof (induction es arbitrary: ms F B)
  case Nil
  then have "ms = []" by (auto elim: members.cases)
  then show ?case by simp
next
  case (Cons e es)
  have "\<exists>k s u ms'. e = (k, s) \<and> string_view_of k m = Some (fst u) \<and> ms = u # ms' \<and> (\<exists>F B. members (blocks m) es ms' F B)"
    using Cons.prems
  proof (cases rule: members.cases)
    case (members_view kv k Bk s v F1 B1 ms' F2 B2)
    then show ?thesis using text_reads [OF members_view(5), of m] by (auto simp: string_view_of_def)
  next
    case (members_owned p r k s v F1 B1 ms' F2 B2)
    then show ?thesis by (auto simp: string_view_of_def text_at_def)
  qed
  then obtain k s t u ms' F' B' where e: "e = (k, s)" "string_view_of k m = Some t" "ms = (t, u) # ms'" "members (blocks m) es ms' F' B'"
    by auto
  from Cons.IH [OF e(4)] obtain r where "find_member key es m = Some r"
    "case r of None \<Rightarrow> obj_put ms' key v = ms' @ [(key, v)]
     | Some i \<Rightarrow> i < length ms' \<and> obj_put ms' key v = ms'[i := (fst (ms' ! i), v)]" by blast
  then show ?case using e(1-3) by (cases r) auto
qed

text \<open>An array's block is written, blocks \<open>G\<close> of its elements go, the rest is shared out anew.\<close>

lemma holds_block:
  assumes h: "holds_values E w e own" and "x \<noteq> y" "blocks (mem w) p = Some (r, b)" "p \<in> own x \<union> own y - G"
    and "G \<subseteq> own x \<union> own y" "own1 \<union> own2 = own x \<union> own y - G" "own1 \<inter> own2 = {}"
    and "h' = (blocks (without G (mem w)))(p \<mapsto> (r, b'))"
    and "tree h' s1 v1 own1 B1" "B1 \<subseteq> dom E" "tree h' s2 v2 own2 B2" "B2 \<subseteq> dom E"
  shows "holds_values E (w\<lparr>mem := (mem w)\<lparr>blocks := h'\<rparr>, vars := (vars w)(x \<mapsto> s1, y \<mapsto> s2)\<rparr>)
    (e(x \<mapsto> v1, y \<mapsto> v2)) (own(x := own1, y := own2))"
proof (rule holds_change [OF h, of _ "{x, y}"])
  have "p < unused (mem w)" using holds_tidy [OF h] assms(3) by (simp add: tidy_def)
  then show "tidy (mem (w\<lparr>mem := (mem w)\<lparr>blocks := h'\<rparr>, vars := (vars w)(x \<mapsto> s1, y \<mapsto> s2)\<rparr>))"
    using holds_tidy [OF h] assms(8) by (auto simp: tidy_def)
  have "dom h' = dom (blocks (mem w)) - G" using assms(3,4,8) by (auto split: if_splits)
  moreover have "own x \<union> own y \<subseteq> dom (blocks (mem w))" using holds_owned [OF h] by blast
  ultimately show "dom (blocks (mem (w\<lparr>mem := (mem w)\<lparr>blocks := h'\<rparr>, vars := (vars w)(x \<mapsto> s1, y \<mapsto> s2)\<rparr>))) =
      dom (blocks (mem w)) - \<Union> (own ` {x, y}) \<union> \<Union> ((own(x := own1, y := own2)) ` {x, y})"
    using assms(2,5,6) by auto
  show "\<Union> ((own(x := own1, y := own2)) ` {x, y}) \<inter> dom (blocks (mem w)) \<subseteq> \<Union> (own ` {x, y})"
    using assms(2,6) by auto
  show "alive (mem (w\<lparr>mem := (mem w)\<lparr>blocks := h'\<rparr>, vars := (vars w)(x \<mapsto> s1, y \<mapsto> s2)\<rparr>)) = alive (mem w)"
    by (simp add: alive_def fun_eq_iff)
qed (use assms(2-5,7-12) in \<open>auto simp: shown_def split: if_splits\<close>)

lemma holds_object:
  assumes h: "holds_values E w e own" and "e x = Some (JObj ms)"
  obtains p r es F B where "vars w x = Some (SObject p)" "blocks (mem w) p = Some (r, BObject es)"
    "members (blocks (mem w)) es ms F B" "p \<notin> F" "own x = insert p F" "B \<subseteq> dom E" "own x \<inter> B = {}" "alive (mem w) r"
proof -
  obtain s B where t: "vars w x = Some s" "tree (blocks (mem w)) s (JObj ms) (own x) B" "B \<subseteq> dom E" "own x \<inter> B = {}"
    by (rule holds_var [OF assms])
  from t(2) show ?thesis
    by (cases rule: tree.cases) (use t that holds_alive [OF h] in blast)+
qed

text \<open>A container's block is written and new blocks come in.\<close>

lemma holds_extend:
  assumes h: "holds_values E w e own" and "x \<noteq> y" "blocks (mem w) p = Some (rp, b)" "p \<in> own x"
    and g: "grows r (mem w) m'" "alive (mem w) r"
    and "own1 \<union> own2 = own x \<union> own y \<union> new_blocks (mem w) m'" "own1 \<inter> own2 = {}"
    and h': "h' = (blocks m')(p \<mapsto> (rp, b'))"
    and t: "tree h' s1 v1 own1 B1" "B1 \<subseteq> dom E" "tree h' s2 v2 own2 B2" "B2 \<subseteq> dom E"
  shows "holds_values E (w\<lparr>mem := m'\<lparr>blocks := h'\<rparr>, vars := (vars w)(x \<mapsto> s1, y \<mapsto> s2)\<rparr>)
    (e(x \<mapsto> v1, y \<mapsto> v2)) (own(x := own1, y := own2))"
proof -
  let ?w = "w\<lparr>mem := m'\<lparr>blocks := h'\<rparr>, vars := (vars w)(x \<mapsto> s1, y \<mapsto> s2)\<rparr>"
  have old: "blocks m' q = blocks (mem w) q" if "blocks (mem w) q \<noteq> None" for q
    using grows_blocks [OF g(1) holds_tidy [OF h] that] .
  have below: "q < unused (mem w)" if "blocks (mem w) q \<noteq> None" for q using holds_tidy [OF h] that by (simp add: tidy_def)
  have lo: "q < unused (mem w) \<Longrightarrow> blocks m' q = blocks (mem w) q" for q using g(1) by (simp add: grows_def)
  have hi: "q \<in> new_blocks (mem w) m' \<Longrightarrow> \<exists>b. blocks m' q = Some (r, b)" for q using g(1) by (auto simp: grows_def)
  have top: "blocks m' q \<noteq> None \<Longrightarrow> q < unused m'" for q using g(1) by (auto simp: grows_def tidy_def)
  have up: "unused (mem w) \<le> unused m'" using g(1) by (simp add: grows_def)
  have ex: "blocks m' q \<noteq> None \<longleftrightarrow> blocks (mem w) q \<noteq> None \<or> q \<in> new_blocks (mem w) m'" for q
    using old [of q] lo [of q] hi [of q] top [of q] by (cases "q < unused (mem w)") auto
  have new: "r' = r \<and> q \<in> new_blocks (mem w) m'" if "blocks m' q = Some (r', c)" "blocks (mem w) q = None" for q r' c
    using ex [of q] hi [of q] that by auto
  have sub: "own z \<subseteq> dom (blocks (mem w))" for z by (rule holds_owned [OF h])
  show ?thesis
  proof (rule holds_change [OF h, of _ "{x, y}"])
    show "tidy (mem ?w)" using top below [of p] assms(3) up h' by (auto simp: tidy_def)
    show "alive (mem ?w) = alive (mem w)" using grows_alive [OF g(1)] by (simp add: alive_def fun_eq_iff)
    have "dom (blocks m') = dom (blocks (mem w)) \<union> new_blocks (mem w) m'" using ex unfolding dom_def by blast
    moreover have "p \<in> dom (blocks (mem w))" using assms(3) by blast
    ultimately have "dom h' = dom (blocks (mem w)) \<union> new_blocks (mem w) m'" unfolding h' by auto
    then show "dom (blocks (mem ?w)) = dom (blocks (mem w)) - \<Union> (own ` {x, y}) \<union> \<Union> ((own(x := own1, y := own2)) ` {x, y})"
      using assms(2,7) sub [of x] sub [of y] by auto
    show "\<Union> ((own(x := own1, y := own2)) ` {x, y}) \<inter> dom (blocks (mem w)) \<subseteq> \<Union> (own ` {x, y})"
    proof -
      have "new_blocks (mem w) m' \<inter> dom (blocks (mem w)) = {}" using below by (auto simp: domIff dest!: leD)
      then show ?thesis using assms(2,7) by auto
    qed
    show "alive (mem w) r'" if "blocks (mem ?w) q = Some (r', c)" "blocks (mem w) q = None" for q r' c
      using that new [of q r' c] g(2) assms(3) h' by (auto split: if_splits)
    show "\<exists>b'. blocks (mem w) q = Some (r', b')" if "blocks (mem ?w) q = Some (r', c)" "blocks (mem w) q \<noteq> None" for q r' c
      using that old [of q] assms(3) h' by (auto split: if_splits)
    show "blocks (mem ?w) q = blocks (mem w) q" if "q \<notin> \<Union> (own ` {x, y})" "blocks (mem w) q \<noteq> None" for q
      using that old [of q] assms(4) h' by auto
  qed (use assms(2,8) t in \<open>auto simp: shown_def split: if_splits\<close>)
qed

text \<open>An operation that is defined and leaves the expected values.\<close>

definition performs :: "heap \<Rightarrow> cells \<Rightarrow> cells option \<Rightarrow> env \<Rightarrow> bool" where
  "performs E w x e' \<longleftrightarrow> (\<exists>w' own'. x = Some w' \<and> holds_values E w' e' own' \<and> live (mem w') = live (mem w))"

lemma performsI:
  "holds_values E w' e' own' \<Longrightarrow> x = Some w' \<Longrightarrow> live (mem w') = live (mem w) \<Longrightarrow> performs E w x e'"
  unfolding performs_def by blast

lemma push_back_step:
  assumes h: "holds_values E w e own" and "x \<noteq> y" "e x = Some (JArr vs)" "e y = Some v"
  shows "performs E w (push_back x (Var y) w) (e(x \<mapsto> JArr (vs @ [v]), y \<mapsto> JNull))"
proof -
  obtain p r ss F B where a: "vars w x = Some (SArray p)" "blocks (mem w) p = Some (r, BArray ss)"
      "elems (blocks (mem w)) ss vs F B" "p \<notin> F" "own x = insert p F" "B \<subseteq> dom E" "own x \<inter> B = {}" "alive (mem w) r"
    by (rule holds_array [OF h assms(3)])
  obtain s C where y: "vars w y = Some s" "tree (blocks (mem w)) s v (own y) C" "C \<subseteq> dom E" "own y \<inter> C = {}"
    by (rule holds_var [OF h assms(4)])
  have d: "own x \<inter> own y = {}" "own x \<inter> dom E = {}" using holds_disjoint [OF h assms(2)] holds_apart [OF h] by blast+
  let ?h = "(blocks (mem w))(p \<mapsto> (r, BArray (ss @ [s])))"
  have "elems (blocks (mem w)) (ss @ [s]) (vs @ [v]) (F \<union> own y) (B \<union> C)"
    using a(5) d(1) by (intro elems_append [OF a(3) y(2)]) auto
  then have "elems ?h (ss @ [s]) (vs @ [v]) (F \<union> own y) (B \<union> C)"
    by (rule tree_frame(2)) (use a(4-6) y(3) d in auto)
  then have "tree ?h (SArray p) (JArr (vs @ [v])) (insert p (F \<union> own y)) (B \<union> C)"
    using a(4,5) d(1) by (intro tree_array [of _ p r]) auto
  then have t: "tree ?h (SArray p) (JArr (vs @ [v])) (own x \<union> own y) (B \<union> C)" using a(5) by simp
  have "holds_values E (w\<lparr>mem := (mem w)\<lparr>blocks := ?h\<rparr>, vars := (vars w)(x \<mapsto> SArray p, y \<mapsto> SNull)\<rparr>)
      (e(x \<mapsto> JArr (vs @ [v]), y \<mapsto> JNull)) (own(x := own x \<union> own y, y := {}))"
    by (rule holds_block [OF h assms(2) a(2), of "{}", OF _ _ _ _ _ t _ tree_null]) (use a(5,6) y(3) in auto)
  moreover have "push_back x (Var y) w = Some (w\<lparr>mem := (mem w)\<lparr>blocks := ?h\<rparr>, vars := (vars w)(x \<mapsto> SArray p, y \<mapsto> SNull)\<rparr>)"
    using a(1,2,8) y(1) assms(2) by (simp add: push_back_def load_slot_def store_slot_def fun_upd_idem)
  ultimately show ?thesis by (rule performsI) simp
qed

lemma take_element_step:
  assumes h: "holds_values E w e own" and "e x = None" "e y = Some (JArr vs)" "i < length vs"
  shows "performs E w (storage_step (TakeElement x y i) w) (e(x \<mapsto> vs ! i, y \<mapsto> JArr (vs[i := JNull])))"
proof -
  obtain p r ss F B where a: "vars w y = Some (SArray p)" "blocks (mem w) p = Some (r, BArray ss)"
      "elems (blocks (mem w)) ss vs F B" "p \<notin> F" "own y = insert p F" "B \<subseteq> dom E" "own y \<inter> B = {}" "alive (mem w) r"
    by (rule holds_array [OF h assms(3)])
  obtain Fi Bi Fr Br where s: "i < length ss" "tree (blocks (mem w)) (ss ! i) (vs ! i) Fi Bi" "F = Fi \<union> Fr" "Fi \<inter> Fr = {}" "B = Bi \<union> Br"
    "\<And>h' s v G C. (\<And>p. p \<in> Fr \<union> Br \<Longrightarrow> h' p = blocks (mem w) p) \<Longrightarrow> tree h' s v G C \<Longrightarrow> G \<inter> Fr = {} \<Longrightarrow>
       elems h' (ss[i := s]) (vs[i := v]) (G \<union> Fr) (C \<union> Br)"
    using elems_at [OF a(3) assms(4)] by metis
  have xy: "x \<noteq> y" using assms(2,3) by auto
  let ?h = "(blocks (mem w))(p \<mapsto> (r, BArray (ss[i := SNull])))"
  have "elems ?h (ss[i := SNull]) (vs[i := JNull]) ({} \<union> Fr) ({} \<union> Br)"
    by (rule s(6)) (use a(4,5,7) s(3,5) tree_null in auto)
  then have "tree ?h (SArray p) (JArr (vs[i := JNull])) (insert p Fr) Br"
    using a(4) s(3) by (intro tree_array [of _ p r]) auto
  moreover have "tree ?h (ss ! i) (vs ! i) Fi Bi" by (rule tree_frame(1) [OF s(2)]) (use a(4,5,7) s(3,5) in auto)
  ultimately have "holds_values E (w\<lparr>mem := (mem w)\<lparr>blocks := ?h\<rparr>, vars := (vars w)(x \<mapsto> ss ! i, y \<mapsto> SArray p)\<rparr>)
      (e(x \<mapsto> vs ! i, y \<mapsto> JArr (vs[i := JNull]))) (own(x := Fi, y := insert p Fr))"
    by (intro holds_block [OF h xy a(2), of "{}"]) (use a(4-6) s(3-5) holds_none(2) [OF h assms(2)] in auto)
  moreover have "storage_step (TakeElement x y i) w =
      Some (w\<lparr>mem := (mem w)\<lparr>blocks := ?h\<rparr>, vars := (vars w)(x \<mapsto> ss ! i, y \<mapsto> SArray p)\<rparr>)"
    using a(1,2) s(1) holds_none(1) [OF h assms(2)] xy
    by (simp add: element_def move_construct_def load_slot_def store_slot_def fun_upd_twist fun_upd_idem)
  ultimately show ?thesis by (rule performsI) simp
qed

lemma put_element_step:
  assumes h: "holds_values E w e own" and "x \<noteq> y" "e x = Some (JArr vs)" "i < length vs" "e y = Some v"
  shows "performs E w (storage_step (PutElement x i y) w) (e(x \<mapsto> JArr (vs[i := v]), y \<mapsto> JNull))"
proof -
  obtain p r ss F B where a: "vars w x = Some (SArray p)" "blocks (mem w) p = Some (r, BArray ss)"
      "elems (blocks (mem w)) ss vs F B" "p \<notin> F" "own x = insert p F" "B \<subseteq> dom E" "own x \<inter> B = {}" "alive (mem w) r"
    by (rule holds_array [OF h assms(3)])
  obtain s C where y: "vars w y = Some s" "tree (blocks (mem w)) s v (own y) C" "C \<subseteq> dom E" "own y \<inter> C = {}"
    by (rule holds_var [OF h assms(5)])
  obtain Fi Bi Fr Br where s: "i < length ss" "tree (blocks (mem w)) (ss ! i) (vs ! i) Fi Bi" "F = Fi \<union> Fr" "Fi \<inter> Fr = {}" "B = Bi \<union> Br"
    "\<And>h' s v G C. (\<And>p. p \<in> Fr \<union> Br \<Longrightarrow> h' p = blocks (mem w) p) \<Longrightarrow> tree h' s v G C \<Longrightarrow> G \<inter> Fr = {} \<Longrightarrow>
       elems h' (ss[i := s]) (vs[i := v]) (G \<union> Fr) (C \<union> Br)"
    using elems_at [OF a(3) assms(4)] by metis
  have d: "own x \<inter> own y = {}" "own x \<inter> dom E = {}" using holds_disjoint [OF h assms(2)] holds_apart [OF h] by blast+
  let ?h = "(blocks (without Fi (mem w)))(p \<mapsto> (r, BArray (ss[i := s])))"
  have "tree ?h s v (own y) C" by (rule tree_frame(1) [OF y(2)]) (use a(5) y(3) s(3) d in auto)
  then have "elems ?h (ss[i := s]) (vs[i := v]) (own y \<union> Fr) (C \<union> Br)"
    by (rule s(6) [rotated]) (use a(4,5,7) s(3-5) d in auto)
  then have t: "tree ?h (SArray p) (JArr (vs[i := v])) (insert p (own y \<union> Fr)) (C \<union> Br)"
    using a(4,5) s(3) d(1) by (intro tree_array [of _ p r]) auto
  have "holds_values E (w\<lparr>mem := (mem w)\<lparr>blocks := ?h\<rparr>, vars := (vars w)(x \<mapsto> SArray p, y \<mapsto> SNull)\<rparr>)
      (e(x \<mapsto> JArr (vs[i := v]), y \<mapsto> JNull)) (own(x := insert p (own y \<union> Fr), y := {}))"
    by (rule holds_block [OF h assms(2) a(2), of Fi, OF _ _ _ _ _ t _ tree_null]) (use a(4-6) s(3-5) y(3) d in auto)
  moreover have "storage_step (PutElement x i y) w =
      Some (w\<lparr>mem := (mem w)\<lparr>blocks := ?h\<rparr>, vars := (vars w)(x \<mapsto> SArray p, y \<mapsto> SNull)\<rparr>)"
    using a(1,2,4) s(1,3) y(1) holds_destroy [OF h s(2)] assms(2)
    by (simp add: element_def move_assign_def destroy_at_def load_slot_def store_slot_def without_def fun_upd_idem)
  ultimately show ?thesis by (rule performsI) (simp add: without_def)
qed

section \<open>Every operation\<close>

lemma fresh_varD: "fresh_var x v e = Some e' \<Longrightarrow> e x = None \<and> (\<exists>u. v = Some u \<and> e' = e(x \<mapsto> u))"
  by (auto simp: fresh_var_def split: if_splits)

lemma declare_step:
  assumes h: "holds_values E w e own" and "e x = None" "plain_value E s = Some v"
  shows "performs E w (declare_value x s w) (e(x \<mapsto> v))"
proof -
  obtain B where "tree (blocks (mem w)) s v {} B" "B \<subseteq> dom E" by (rule plain_tree [OF h assms(3)])
  from holds_set [OF h holds_none(2) [OF h assms(2)] this] show ?thesis
    by (rule performsI) (use holds_none(1) [OF h assms(2)] in \<open>simp_all add: declare_value_def\<close>)
qed

text \<open>A variable whose value is built in new blocks.\<close>

lemma new_step:
  assumes h: "holds_values E w e own" and "e x = None" "alive (mem w) r"
    and "grows r (mem w) m'" "tree (blocks m') s v (new_blocks (mem w) m') {}"
  shows "performs E w (Some (w\<lparr>mem := m', vars := (vars w)(x \<mapsto> s)\<rparr>)) (e(x \<mapsto> v))"
  by (rule performsI [OF holds_new [OF h assms(2,4,3,5)]]) (use assms(4) in \<open>simp_all add: grows_def\<close>)

lemma own_step:
  assumes h: "holds_values E w e own" and "e x = None" "alive (mem w) r" "borrowed E v = Some t"
  shows "performs E w (own_into x v r w) (e(x \<mapsto> JStr t))"
proof -
  obtain B where "tree (blocks (mem w)) (SView v) (JStr t) {} B"
    using plain_tree [OF h, of "SView v" "JStr t"] assms(4) by (metis option.simps(9) plain_value.simps(5))
  then have "text_in (blocks (mem w)) v t B" by (auto elim: tree.cases)
  then have v: "view_text v (mem w) = Some t" by (rule text_reads) simp
  obtain m' where m': "alloc r (BText t) (mem w) = Some (unused (mem w), m')" "grows r (mem w) m'"
      "new_blocks (mem w) m' = {unused (mem w)}" "blocks m' (unused (mem w)) = Some (r, BText t)"
    using alloc_grows [OF holds_tidy [OF h] assms(3)] by blast
  have "tree (blocks m') (SOwned (unused (mem w))) (JStr t) (new_blocks (mem w) m') {}"
    unfolding m'(3) by (rule tree_owned, rule m'(4))
  from new_step [OF h assms(2,3) m'(2) this] show ?thesis
    using v m'(1) holds_none(1) [OF h assms(2)] by (simp add: own_into_def json_own_def make_owned_def)
qed

lemma new_array_step:
  assumes h: "holds_values E w e own" and "e x = None" "alive (mem w) r"
  shows "performs E w (new_array x r w) (e(x \<mapsto> JArr []))"
proof -
  obtain m' where m': "alloc r (BArray []) (mem w) = Some (unused (mem w), m')" "grows r (mem w) m'"
      "new_blocks (mem w) m' = {unused (mem w)}" "blocks m' (unused (mem w)) = Some (r, BArray [])"
    using alloc_grows [OF holds_tidy [OF h] assms(3)] by blast
  have "tree (blocks m') (SArray (unused (mem w))) (JArr []) (new_blocks (mem w) m') {}"
    unfolding m'(3) by (rule tree_array, rule m'(4), rule elems_nil) simp
  from new_step [OF h assms(2,3) m'(2) this] show ?thesis
    using m'(1) holds_none(1) [OF h assms(2)] by (simp add: new_array_def)
qed

lemma new_object_step:
  assumes h: "holds_values E w e own" and "e x = None" "alive (mem w) r"
  shows "performs E w (new_object x r w) (e(x \<mapsto> JObj []))"
proof -
  obtain m' where m': "alloc r (BObject []) (mem w) = Some (unused (mem w), m')" "grows r (mem w) m'"
      "new_blocks (mem w) m' = {unused (mem w)}" "blocks m' (unused (mem w)) = Some (r, BObject [])"
    using alloc_grows [OF holds_tidy [OF h] assms(3)] by blast
  have "tree (blocks m') (SObject (unused (mem w))) (JObj []) (new_blocks (mem w) m') {}"
    unfolding m'(3) by (rule tree_object, rule m'(4), rule members_nil) simp
  from new_step [OF h assms(2,3) m'(2) this] show ?thesis
    using m'(1) holds_none(1) [OF h assms(2)] by (simp add: new_object_def)
qed

text \<open>A known key: the old value goes, the new one moves into its place.\<close>

lemma overwrite_member:
  assumes h: "holds_values E w e own" and "x \<noteq> y" "e x = Some (JObj ms)" "e y = Some v"
    and a: "vars w x = Some (SObject p)" "blocks (mem w) p = Some (rp, BObject es)"
    and f: "find_member key es (mem w) = Some (Some i)" "i < length ms"
  shows "performs E w (insert_member x key (Var y) r w) (e(x \<mapsto> JObj (ms[i := (fst (ms ! i), v)]), y \<mapsto> JNull))"
proof -
  obtain p' rp' es' F B where o: "vars w x = Some (SObject p')" "blocks (mem w) p' = Some (rp', BObject es')"
      "members (blocks (mem w)) es' ms F B" "p' \<notin> F" "own x = insert p' F" "B \<subseteq> dom E" "own x \<inter> B = {}"
    by (rule holds_object [OF h assms(3)])
  then have m: "members (blocks (mem w)) es ms F B" "p \<notin> F" "own x = insert p F" "B \<subseteq> dom E" "own x \<inter> B = {}"
    using a by auto
  obtain s C where y: "vars w y = Some s" "tree (blocks (mem w)) s v (own y) C" "C \<subseteq> dom E" "own y \<inter> C = {}"
    by (rule holds_var [OF h assms(4)])
  obtain Fi Bi Fr Br where q: "i < length es" "tree (blocks (mem w)) (snd (es ! i)) (snd (ms ! i)) Fi Bi" "F = Fi \<union> Fr"
      "Fi \<inter> Fr = {}" "B = Bi \<union> Br"
    "\<And>h' s v G C. (\<And>p. p \<in> Fr \<union> Br \<Longrightarrow> h' p = blocks (mem w) p) \<Longrightarrow> tree h' s v G C \<Longrightarrow> G \<inter> Fr = {} \<Longrightarrow>
       members h' (es[i := (fst (es ! i), s)]) (ms[i := (fst (ms ! i), v)]) (G \<union> Fr) (C \<union> Br)"
    using members_at [OF m(1) f(2)] by metis
  have d: "own x \<inter> own y = {}" "own x \<inter> dom E = {}" using holds_disjoint [OF h assms(2)] holds_apart [OF h] by blast+
  let ?h = "(blocks (without Fi (mem w)))(p \<mapsto> (rp, BObject (es[i := (fst (es ! i), s)])))"
  have "tree ?h s v (own y) C" by (rule tree_frame(1) [OF y(2)]) (use m(3) y(3) q(3) d in auto)
  then have "members ?h (es[i := (fst (es ! i), s)]) (ms[i := (fst (ms ! i), v)]) (own y \<union> Fr) (C \<union> Br)"
    by (rule q(6) [rotated]) (use m(2-5) q(3-5) d in auto)
  then have t: "tree ?h (SObject p) (JObj (ms[i := (fst (ms ! i), v)])) (insert p (own y \<union> Fr)) (C \<union> Br)"
    using m(2,3) q(3) d(1) by (intro tree_object [of _ p rp]) auto
  have "holds_values E (w\<lparr>mem := (mem w)\<lparr>blocks := ?h\<rparr>, vars := (vars w)(x \<mapsto> SObject p, y \<mapsto> SNull)\<rparr>)
      (e(x \<mapsto> JObj (ms[i := (fst (ms ! i), v)]), y \<mapsto> JNull)) (own(x := insert p (own y \<union> Fr), y := {}))"
    by (rule holds_block [OF h assms(2) a(2), of Fi, OF _ _ _ _ _ t _ tree_null]) (use m(2-4) q(3-5) y(3) d in auto)
  moreover have "insert_member x key (Var y) r w =
      Some (w\<lparr>mem := (mem w)\<lparr>blocks := ?h\<rparr>, vars := (vars w)(x \<mapsto> SObject p, y \<mapsto> SNull)\<rparr>)"
    using a m(2) f(1) q(1,3) y(1) holds_destroy [OF h q(2)] assms(2)
    by (simp add: insert_member_def destroy_at_def load_slot_def store_slot_def without_def fun_upd_idem)
  ultimately show ?thesis by (rule performsI) (simp add: without_def)
qed

text \<open>A new key: its text is copied, the entry is appended.\<close>

lemma append_member:
  assumes h: "holds_values E w e own" and "x \<noteq> y" "e x = Some (JObj ms)" "e y = Some v" "alive (mem w) r"
    and a: "vars w x = Some (SObject p)" "blocks (mem w) p = Some (rp, BObject es)"
    and f: "find_member key es (mem w) = Some None"
  shows "performs E w (insert_member x key (Var y) r w) (e(x \<mapsto> JObj (ms @ [(key, v)]), y \<mapsto> JNull))"
proof -
  obtain p' rp' es' F B where o: "vars w x = Some (SObject p')" "blocks (mem w) p' = Some (rp', BObject es')"
      "members (blocks (mem w)) es' ms F B" "p' \<notin> F" "own x = insert p' F" "B \<subseteq> dom E" "own x \<inter> B = {}" "alive (mem w) rp'"
    by (rule holds_object [OF h assms(3)])
  then have m: "members (blocks (mem w)) es ms F B" "p \<notin> F" "own x = insert p F" "B \<subseteq> dom E" "own x \<inter> B = {}"
      "alive (mem w) rp"
    using a by auto
  obtain s C where y: "vars w y = Some s" "tree (blocks (mem w)) s v (own y) C" "C \<subseteq> dom E" "own y \<inter> C = {}"
    by (rule holds_var [OF h assms(4)])
  obtain m' where k: "alloc r (BText key) (mem w) = Some (unused (mem w), m')" "grows r (mem w) m'"
      "new_blocks (mem w) m' = {unused (mem w)}" "blocks m' (unused (mem w)) = Some (r, BText key)"
    using alloc_grows [OF holds_tidy [OF h] assms(5)] by blast
  let ?q = "unused (mem w)"
  let ?h = "(blocks m')(p \<mapsto> (rp, BObject (es @ [(TextOwned ?q, s)])))"
  have none: "blocks (mem w) ?q = None" using holds_tidy [OF h] by (cases "blocks (mem w) ?q") (auto simp: tidy_def)
  have old: "?h z = blocks (mem w) z" if "blocks (mem w) z \<noteq> None" "z \<noteq> p" for z
    using grows_blocks [OF k(2) holds_tidy [OF h] that(1)] that(2) by simp
  have d: "own x \<inter> own y = {}" "own x \<inter> dom E = {}" using holds_disjoint [OF h assms(2)] holds_apart [OF h] by blast+
  have q: "?q \<noteq> p" "?q \<notin> F" "?q \<notin> own y"
    using none a(2) holds_owned [OF h, of x] holds_owned [OF h, of y] m(3) by auto
  have "members ?h es ms F B"
    by (rule tree_frame(3) [OF m(1)]) (use old tree_blocks_all(3) [OF m(1)] m(2-5) d in blast)
  moreover have "tree ?h s v (own y) C"
    by (rule tree_frame(1) [OF y(2)]) (use old tree_blocks_all(1) [OF y(2)] m(3) y(3) d in blast)
  moreover have "?h ?q = Some (r, BText key)" using k(4) q(1) by simp
  ultimately have "members ?h (es @ [(TextOwned ?q, s)]) (ms @ [(key, v)]) (insert ?q (F \<union> own y)) (B \<union> C)"
    using q d(1) m(3) by (intro members_append) auto
  then have t: "tree ?h (SObject p) (JObj (ms @ [(key, v)])) (insert p (insert ?q (F \<union> own y))) (B \<union> C)"
    using q(1) m(2,3) d(1) by (intro tree_object [of _ p rp]) auto
  have "holds_values E (w\<lparr>mem := m'\<lparr>blocks := ?h\<rparr>, vars := (vars w)(x \<mapsto> SObject p, y \<mapsto> SNull)\<rparr>)
      (e(x \<mapsto> JObj (ms @ [(key, v)]), y \<mapsto> JNull)) (own(x := insert p (insert ?q (F \<union> own y)), y := {}))"
    by (rule holds_extend [OF h assms(2) a(2) _ k(2) assms(5) _ _ refl t _ tree_null]) (use m(3,4) y(3) k(3) in auto)
  moreover have "insert_member x key (Var y) r w =
      Some (w\<lparr>mem := m'\<lparr>blocks := ?h\<rparr>, vars := (vars w)(x \<mapsto> SObject p, y \<mapsto> SNull)\<rparr>)"
  proof -
    have "blocks m' p = Some (rp, BObject es)" using grows_blocks [OF k(2) holds_tidy [OF h], of p] a(2) by simp
    moreover have "alive m' rp" using grows_alive [OF k(2)] m(6) by simp
    ultimately show ?thesis
      using a f y(1) k(1) assms(2)
      by (simp add: insert_member_def load_slot_def store_slot_def make_owned_def fun_upd_idem)
  qed
  ultimately show ?thesis by (rule performsI) (use k(2) in \<open>simp add: grows_def\<close>)
qed

lemma insert_member_step:
  assumes h: "holds_values E w e own" and "x \<noteq> y" "e x = Some (JObj ms)" "e y = Some v" "alive (mem w) r"
  shows "performs E w (insert_member x key (Var y) r w) (e(x \<mapsto> JObj (obj_put ms key v), y \<mapsto> JNull))"
proof -
  obtain p rp es F B where a: "vars w x = Some (SObject p)" "blocks (mem w) p = Some (rp, BObject es)"
      "members (blocks (mem w)) es ms F B"
    by (rule holds_object [OF h assms(3)])
  obtain pos where f: "find_member key es (mem w) = Some pos"
    "case pos of None \<Rightarrow> obj_put ms key v = ms @ [(key, v)]
     | Some i \<Rightarrow> i < length ms \<and> obj_put ms key v = ms[i := (fst (ms ! i), v)]"
    using find_member_put [OF a(3), of key v] by blast
  show ?thesis
  proof (cases pos)
    case None
    then show ?thesis using append_member [OF h assms(2-5) a(1,2)] f by simp
  next
    case (Some i)
    then show ?thesis using overwrite_member [OF h assms(2-4) a(1,2)] f by simp
  qed
qed

lemma clone_step:
  assumes h: "holds_values E w e own" and "e x = None" "e y = Some v" "alive (mem w) r"
  shows "performs E w (clone_into x (Var y) r w) (e(x \<mapsto> v))"
proof -
  obtain s B where s: "vars w y = Some s" "tree (blocks (mem w)) s v (own y) B" by (rule holds_var [OF h assms(3)])
  obtain s' m' where c: "clone s r (mem w) = Some (s', m')" "grows r (mem w) m'" "tree (blocks m') s' v (new_blocks (mem w) m') {}"
    by (rule clone_value [OF s(2) holds_tidy [OF h] assms(4)])
  from new_step [OF h assms(2,4) c(2,3)] show ?thesis
    using c(1) s(1) holds_none(1) [OF h assms(2)] by (simp add: clone_into_def load_slot_def)
qed

lemma move_init_step:
  assumes h: "holds_values E w e own" and "e x = None" "e y = Some v"
  shows "performs E w (move_construct x (Var y) w) (e(x \<mapsto> v, y \<mapsto> JNull))"
proof -
  obtain s B where s: "vars w y = Some s" by (rule holds_var [OF h assms(3)])
  have "x \<noteq> y" using assms(2,3) by auto
  from holds_moved [OF h this holds_none(2) [OF h assms(2)] s assms(3)] show ?thesis
    by (rule performsI)
      (use s holds_none(1) [OF h assms(2)] \<open>x \<noteq> y\<close> in \<open>simp_all add: move_construct_def load_slot_def store_slot_def\<close>)
qed

lemma destroy_at_var:
  assumes h: "holds_values E w e own" and "e x = Some u"
  obtains w1 where "destroy_at (Var x) w = Some w1" "holds_values E w1 (e(x \<mapsto> JNull)) (own(x := {}))"
    "live (mem w1) = live (mem w)" "vars w1 = (vars w)(x \<mapsto> SNull)"
proof -
  obtain s B where s: "vars w x = Some s" by (rule holds_var [OF h assms(2)])
  show ?thesis
    by (rule that [OF _ holds_destroyed(2) [OF h s]])
      (use holds_destroyed(1) [OF h s] s in \<open>simp_all add: destroy_at_def load_slot_def store_slot_def\<close>)
qed

lemma move_assign_step:
  assumes h: "holds_values E w e own" and "e x = Some u" "e y = Some v" "x \<noteq> y"
  shows "performs E w (move_assign (Var x) (Var y) w) (e(x \<mapsto> v, y \<mapsto> JNull))"
proof -
  obtain s B where s: "vars w y = Some s" by (rule holds_var [OF h assms(3)])
  obtain w1 where w1: "destroy_at (Var x) w = Some w1" "holds_values E w1 (e(x \<mapsto> JNull)) (own(x := {}))"
      "live (mem w1) = live (mem w)" "vars w1 = (vars w)(x \<mapsto> SNull)"
    by (rule destroy_at_var [OF h assms(2)])
  have "(e(x \<mapsto> JNull)) y = Some v" "(own(x := {})) x = {}" "vars w1 y = Some s" using assms(3,4) s w1(4) by auto
  from holds_moved [OF w1(2) assms(4) this(2,3,1)]
  have "holds_values E (w1\<lparr>vars := (vars w1)(x \<mapsto> s, y \<mapsto> SNull)\<rparr>) (e(x \<mapsto> v, y \<mapsto> JNull))
      ((own(x := {}))(x := (own(x := {})) y, y := {}))"
    unfolding fun_upd_upd .
  then show ?thesis
    by (rule performsI) (use w1 s assms(4) in \<open>simp_all add: move_assign_def load_slot_def store_slot_def\<close>)
qed

lemma assign_step:
  assumes h: "holds_values E w e own" and "e x = Some u" "plain_value E s = Some v"
  shows "performs E w (assign_value (Var x) s w) (e(x \<mapsto> v))"
proof -
  obtain w1 where w1: "destroy_at (Var x) w = Some w1" "holds_values E w1 (e(x \<mapsto> JNull)) (own(x := {}))"
      "live (mem w1) = live (mem w)" "vars w1 = (vars w)(x \<mapsto> SNull)"
    by (rule destroy_at_var [OF h assms(2)])
  obtain B where "tree (blocks (mem w1)) s v {} B" "B \<subseteq> dom E" by (rule plain_tree [OF w1(2) assms(3)])
  from holds_set [OF w1(2) _ this, of x] have "holds_values E (w1\<lparr>vars := (vars w1)(x \<mapsto> s)\<rparr>) (e(x \<mapsto> v)) (own(x := {}))" by simp
  then show ?thesis by (rule performsI) (use w1 in \<open>simp_all add: assign_value_def store_slot_def\<close>)
qed

lemma leave_step:
  assumes h: "holds_values E w e own" and "e x = Some u"
  shows "performs E w (leave_scope x w) (e(x := None))"
proof -
  obtain w1 where w1: "destroy_at (Var x) w = Some w1" "holds_values E w1 (e(x \<mapsto> JNull)) (own(x := {}))"
      "live (mem w1) = live (mem w)"
    by (rule destroy_at_var [OF h assms(2)])
  from holds_unset [OF w1(2), of x]
  have "holds_values E (w1\<lparr>vars := (vars w1)(x := None)\<rparr>) (e(x := None)) (own(x := {}))" by simp
  then show ?thesis by (rule performsI) (use w1 in \<open>simp_all add: leave_scope_def\<close>)
qed

lemma step_performs:
  assumes h: "holds_values E w e own" and "value_step E a e = Some e'" "alive (mem w) (op_resource a)"
  shows "performs E w (storage_step a w) e'"
proof (cases a)
  case (MoveAssign x y)
  show ?thesis
  proof (cases "x = y")
    case True
    then have "e' = e" "storage_step a w = Some w" using assms(2) MoveAssign by (auto simp: move_assign_def split: if_splits)
    then show ?thesis by (simp add: performsI [OF h])
  next
    case False
    then show ?thesis using assms(2) MoveAssign move_assign_step [OF h] by (auto split: if_splits)
  qed
next
  case (PushBack x y)
  then show ?thesis using assms(2) push_back_step [OF h] by (auto split: option.splits json.splits if_splits)
next
  case (InsertMember x key y r)
  then show ?thesis
    using assms(2,3) insert_member_step [OF h] by (auto split: option.splits json.splits if_splits)
next
  case (TakeElement x y i)
  then show ?thesis using assms(2) take_element_step [OF h] by (auto split: option.splits json.splits if_splits simp del: storage_step.simps)
next
  case (PutElement x i y)
  then show ?thesis using assms(2) put_element_step [OF h] by (auto split: option.splits json.splits if_splits simp del: storage_step.simps)
qed (use assms(2,3) declare_step [OF h] own_step [OF h] new_array_step [OF h] new_object_step [OF h] clone_step [OF h] move_init_step [OF h]
    assign_step [OF h] leave_step [OF h] in \<open>auto split: if_splits dest!: fresh_varD\<close>)

lemma run_performs:
  "holds_values E w e own \<Longrightarrow> value_run E as e = Some e' \<Longrightarrow> (\<forall>a \<in> set as. alive (mem w) (op_resource a)) \<Longrightarrow>
    performs E w (storage_run as w) e'"
proof (induction as arbitrary: w e own)
  case Nil
  then show ?case by (auto intro: performsI)
next
  case (Cons a as)
  from Cons.prems(2) obtain e1 where e1: "value_step E a e = Some e1" "value_run E as e1 = Some e'"
    by (auto simp: bind_eq_Some_conv)
  obtain w1 own1 where w1: "storage_step a w = Some w1" "holds_values E w1 e1 own1" "live (mem w1) = live (mem w)"
    using step_performs [OF Cons.prems(1) e1(1)] Cons.prems(3) by (auto simp: performs_def)
  then have "performs E w1 (storage_run as w1) e'" using Cons.prems(3) by (intro Cons.IH [OF w1(2) e1(2)]) (simp add: alive_def)
  then show ?case using w1 by (simp add: performs_def)
qed

lemma nothing_left:
  assumes "holds_values E w Map.empty own"
  shows "blocks (mem w) = E"
proof (rule ext)
  have "own x = {}" for x by (rule holds_none(2) [OF assms]) simp
  then have "dom (blocks (mem w)) = dom E" "\<forall>p \<in> dom E. blocks (mem w) p = E p"
    using assms by (auto simp: holds_values_def)
  then show "blocks (mem w) p = E p" for p by (metis domIff)
qed

text \<open>A program over one buffer: nested arrays, borrowed and owned strings, moves, a clone.\<close>

definition sample_buffer :: heap where
  "sample_buffer = [0 \<mapsto> (new_delete_resource, BText [0x61, 0x62, 0x63])]"

definition sample_cells :: cells where
  "sample_cells = \<lparr>mem = \<lparr>blocks = sample_buffer, unused = 1, live = [1]\<rparr>, vars = Map.empty\<rparr>"

definition sample_ops :: "op list" where
  "sample_ops =
     [NewArray 0 1, Own 1 (0, 0, 2) 1, PushBack 0 1, Declare 2 (SView (0, 1, 2)), PushBack 0 2,
      Clone 3 0 new_delete_resource, MoveAssign 1 0, PushBack 3 1, TakeElement 4 3 1, PutElement 3 0 4,
      NewObject 5 1, InsertMember 5 [0x6B] 3 1, InsertMember 5 [0x6B] 0 new_delete_resource,
      LeaveScope 0, LeaveScope 1, LeaveScope 2, LeaveScope 3, LeaveScope 4, LeaveScope 5]"

lemma sample_represents: "represents sample_buffer sample_cells Map.empty"
  unfolding represents_def
  by (intro exI [of _ "\<lambda>x. {}"])
    (auto simp: holds_values_def sample_cells_def sample_buffer_def tidy_def alive_def shown_def)

text \<open>
  C35: Variables of type \<^verbatim>\<open>Json\<close> are values. Any sequence of constructions, moves, assignments,
  clones, array and object insertions and ends of scope that respects declaration and index bounds runs
  without touching a dead block or a dead resource, and afterwards every variable shows the
  value the sequence gives it, in blocks no other variable owns. When all scopes are left
  every block has gone back to its resource.
\<close>

theorem storage_safe:
  assumes "represents E w e" "value_run E ops e = Some e'" "\<forall>a \<in> set ops. alive (mem w) (op_resource a)"
  shows "\<exists>w'. storage_run ops w = Some w' \<and> represents E w' e' \<and> (e' = Map.empty \<longrightarrow> blocks (mem w') = E)"
proof -
  obtain own where "holds_values E w e own" using assms(1) by (auto simp: represents_def)
  from run_performs [OF this assms(2,3)] show ?thesis
    unfolding performs_def represents_def using nothing_left by blast
qed

theorem storage_safe_witness:
  "\<exists>w'. storage_run sample_ops sample_cells = Some w' \<and> blocks (mem w') = sample_buffer"
proof -
  have "value_run sample_buffer sample_ops Map.empty = Some Map.empty"
    by (simp add: sample_ops_def fresh_var_def borrowed_def sample_buffer_def fun_eq_iff)
  from storage_safe [OF sample_represents this] show ?thesis
    by (auto simp: sample_ops_def sample_cells_def alive_def)
qed

text \<open>
  C36: Move assignment from a child of the target is a use after free: the target's destructor
  runs before the source is read, so \<^verbatim>\<open>x = std::move(x.as_array()[i])\<close> reads the element of a
  block that has been given back.
\<close>

theorem move_from_inside:
  assumes "represents E w e" "e x = Some (JArr vs)"
  shows "do { b \<leftarrow> element x i w; move_assign (Var x) b w } = None"
proof -
  obtain own where h: "holds_values E w e own" using assms(1) by (auto simp: represents_def)
  obtain p r ss F B where a: "vars w x = Some (SArray p)" "own x = insert p F"
    by (rule holds_array [OF h assms(2)])
  have "destroy_at (Var x) w = Some (w\<lparr>mem := without (own x) (mem w), vars := (vars w)(x \<mapsto> SNull)\<rparr>)"
    using holds_destroyed(1) [OF h a(1)] a(1) by (simp add: destroy_at_def load_slot_def store_slot_def)
  then show ?thesis using a by (simp add: element_def move_assign_def load_slot_def)
qed

theorem move_from_inside_witness:
  "\<exists>w. storage_run [NewArray 0 1, Declare 1 SNull, PushBack 0 1] sample_cells = Some w \<and>
     do { b \<leftarrow> element 0 0 w; move_assign (Var 0) b w } = None"
proof -
  let ?ops = "[NewArray 0 1, Declare 1 SNull, PushBack 0 1]"
  let ?e = "[0 \<mapsto> JArr [JNull], 1 \<mapsto> JNull] :: env"
  obtain own where h: "holds_values sample_buffer sample_cells Map.empty own"
    using sample_represents by (auto simp: represents_def)
  have "value_run sample_buffer ?ops Map.empty = Some ?e" by (simp add: fresh_var_def fun_eq_iff)
  then obtain w own' where w: "storage_run ?ops sample_cells = Some w" "holds_values sample_buffer w ?e own'"
    using run_performs [OF h, of ?ops ?e] by (auto simp: performs_def sample_cells_def alive_def)
  then have "represents sample_buffer w ?e" by (auto simp: represents_def)
  from move_from_inside [OF this, of 0 "[JNull]"] w(1) show ?thesis by auto
qed

end
