(* ===== verification/Documents.thy ===== *)
theory Documents
  imports Ownership
begin

text \<open>
  The special member functions of \<^verbatim>\<open>class Document\<close> (\<^verbatim>\<open>src/document.cpp\<close>): an arena, a
  root and a text buffer that the root borrows from, moved and destroyed in an order that
  never leaves one of them behind the resource it lives in.
\<close>

section \<open>Resources of a document\<close>

datatype storage_policy = Pooled | Arena | SystemDefault

text \<open>A new memory resource, and its destructor, which releases every block it has given out.\<close>

definition new_resource :: "memory \<Rightarrow> res \<times> memory" where
  "new_resource m = (let r = Suc (foldr max (live m) 0) in (r, m\<lparr>live := r # live m\<rparr>))"

definition kill :: "res \<Rightarrow> memory \<Rightarrow> memory" where
  "kill r m =
     m\<lparr>live := removeAll r (live m),
       blocks := (\<lambda>p. case blocks m p of None \<Rightarrow> None | Some (q, b) \<Rightarrow> if q = r then None else Some (q, b))\<rparr>"

definition kill_arena :: "res option \<Rightarrow> memory \<Rightarrow> memory" where
  "kill_arena a m = (case a of None \<Rightarrow> m | Some r \<Rightarrow> kill r m)"

text \<open>
  \<^verbatim>\<open>Document::make_arena\<close>: a pool or a monotonic resource on top of the system's; the counting
  wrapper of debug builds behaves as the resource it wraps.
\<close>

definition make_arena :: "storage_policy \<Rightarrow> memory \<Rightarrow> res option \<times> memory" where
  "make_arena storage m =
     (case storage of
        Pooled \<Rightarrow> map_prod Some id (new_resource m)
      | Arena \<Rightarrow> map_prod Some id (new_resource m)
      | SystemDefault \<Rightarrow> (None, m))"

section \<open>The text buffer\<close>

text \<open>
  A \<^verbatim>\<open>std::pmr::string\<close>: its allocator and, when it is not empty, its heap block; the buffers of
  documents are empty or at least \<^verbatim>\<open>kPaddingWidth\<close> bytes long, never in the small-string form.
  Every operation may ask the resource, so it has to be alive even when the string is empty.
\<close>

record pmr_string =
  ps_alloc :: res
  ps_block :: "ptr option"

definition empty_string :: pmr_string where
  "empty_string = \<lparr>ps_alloc = new_delete_resource, ps_block = None\<rparr>"

definition ps_destroy :: "pmr_string \<Rightarrow> memory \<Rightarrow> memory option" where
  "ps_destroy s m =
     (if \<not> alive m (ps_alloc s) then None
      else (case ps_block s of
              None \<Rightarrow> Some m
            | Some p \<Rightarrow>
                (case blocks m p of
                   Some (r, BText _) \<Rightarrow> if r = ps_alloc s then dealloc p m else None
                 | _ \<Rightarrow> None)))"

text \<open>The move constructor: the new string, and the empty source, which keeps the allocator.\<close>

definition ps_move :: "pmr_string \<Rightarrow> pmr_string \<times> pmr_string" where
  "ps_move other = (other, other\<lparr>ps_block := None\<rparr>)"

text \<open>
  The move constructor with an allocator steals the block of an equal allocator and copies
  the text otherwise; the source of the copy keeps its own block.
\<close>

definition ps_move_into :: "pmr_string \<Rightarrow> res \<Rightarrow> memory \<Rightarrow> (pmr_string \<times> pmr_string \<times> memory) option" where
  "ps_move_into other r m =
     (if \<not> alive m r \<or> \<not> alive m (ps_alloc other) then None
      else if r = ps_alloc other then Some (other, other\<lparr>ps_block := None\<rparr>, m)
      else (case ps_block other of
              None \<Rightarrow> Some (\<lparr>ps_alloc = r, ps_block = None\<rparr>, other, m)
            | Some p \<Rightarrow>
                do { bs \<leftarrow> text_at p m; (q, m') \<leftarrow> alloc r (BText bs) m;
                     Some (\<lparr>ps_alloc = r, ps_block = Some q\<rparr>, other, m') }))"

section \<open>Documents\<close>

record doc =
  m_arena :: "res option"
  m_root :: jslot
  m_buffer :: pmr_string
  m_is_view :: bool
  m_storage :: storage_policy
  m_block :: nat
  m_thread_safe :: bool
  m_count :: bool

text \<open>The constructor of an empty document.\<close>

definition doc_new :: "storage_policy \<Rightarrow> nat \<Rightarrow> bool \<Rightarrow> bool \<Rightarrow> memory \<Rightarrow> doc \<times> memory" where
  "doc_new storage block thread_safe count m =
     (case make_arena storage m of
        (a, m') \<Rightarrow>
          (\<lparr>m_arena = a, m_root = SNull, m_buffer = empty_string, m_is_view = False, m_storage = storage,
             m_block = block, m_thread_safe = thread_safe, m_count = count\<rparr>, m'))"

text \<open>The implicit destructor: the members in reverse order.\<close>

definition doc_destroy :: "doc \<Rightarrow> memory \<Rightarrow> memory option" where
  "doc_destroy d m =
     do { m1 \<leftarrow> ps_destroy (m_buffer d) m; m2 \<leftarrow> destroy (m_root d) m1; Some (kill_arena (m_arena d) m2) }"

text \<open>
  The move constructor, and the source it leaves: without arena, null, with a fresh empty
  buffer on the system's resource.
\<close>

definition doc_move :: "doc \<Rightarrow> memory \<Rightarrow> ((doc \<times> doc) \<times> memory) option" where
  "doc_move other m =
     (case ps_move (m_buffer other) of
        (buffer, source) \<Rightarrow>
          do { m' \<leftarrow> ps_destroy source m;
               Some ((other\<lparr>m_buffer := buffer\<rparr>,
                      other\<lparr>m_arena := None, m_root := SNull, m_buffer := empty_string\<rparr>), m') })"

text \<open>The move assignment of two different documents: the new target, the source, the memory.\<close>

definition doc_move_assign :: "doc \<Rightarrow> doc \<Rightarrow> memory \<Rightarrow> ((doc \<times> doc) \<times> memory) option" where
  "doc_move_assign this other m =
     (let res = ps_alloc (m_buffer other) in
      do { m1 \<leftarrow> destroy (m_root this) m;
           m2 \<leftarrow> ps_destroy (m_buffer this) m1;
           (buffer, source, m3) \<leftarrow>
             (if ps_block (m_buffer other) = None then Some (empty_string, m_buffer other, m2)
              else ps_move_into (m_buffer other) res m2);
           m5 \<leftarrow> ps_destroy source (kill_arena (m_arena this) m3);
           Some ((\<lparr>m_arena = m_arena other, m_root = m_root other, m_buffer = buffer,
                   m_is_view = m_is_view other, m_storage = m_storage other, m_block = m_block other,
                   m_thread_safe = m_thread_safe other, m_count = m_count other\<rparr>,
                  other\<lparr>m_arena := None, m_root := SNull, m_buffer := empty_string\<rparr>), m5) })"

text \<open>\<^verbatim>\<open>Document::reset\<close>: a fresh document with the same settings moves in.\<close>

definition doc_reset :: "doc \<Rightarrow> memory \<Rightarrow> (doc \<times> memory) option" where
  "doc_reset d m =
     (case doc_new (m_storage d) (m_block d) (m_thread_safe d) (m_count d) m of
        (fresh, m1) \<Rightarrow>
          do { ((d', rest), m2) \<leftarrow> doc_move_assign d fresh m1; m3 \<leftarrow> doc_destroy rest m2; Some (d', m3) })"

definition doc_resource :: "doc \<Rightarrow> res" where
  "doc_resource d = (case m_arena d of Some a \<Rightarrow> a | None \<Rightarrow> new_delete_resource)"

section \<open>Programs over documents\<close>

datatype doc_op =
    DocNew nat storage_policy nat bool bool
  | DocMove nat nat
  | DocAssign nat nat
  | DocReset nat
  | DocDestroy nat

record docs =
  heap_of :: memory
  doc_at :: "nat \<Rightarrow> doc option"

fun doc_step :: "doc_op \<Rightarrow> docs \<Rightarrow> docs option" where
  "doc_step (DocNew x s b t c) w =
     (if doc_at w x \<noteq> None then None
      else (case doc_new s b t c (heap_of w) of (d, m) \<Rightarrow> Some \<lparr>heap_of = m, doc_at = (doc_at w)(x \<mapsto> d)\<rparr>))"
| "doc_step (DocMove x y) w =
     (if doc_at w x \<noteq> None then None
      else do { other \<leftarrow> doc_at w y; ((d, s), m) \<leftarrow> doc_move other (heap_of w);
                Some \<lparr>heap_of = m, doc_at = (doc_at w)(x \<mapsto> d, y \<mapsto> s)\<rparr> })"
| "doc_step (DocAssign x y) w =
     do { this \<leftarrow> doc_at w x; other \<leftarrow> doc_at w y;
          if x = y then Some w
          else do { ((d, s), m) \<leftarrow> doc_move_assign this other (heap_of w);
                    Some \<lparr>heap_of = m, doc_at = (doc_at w)(x \<mapsto> d, y \<mapsto> s)\<rparr> } }"
| "doc_step (DocReset x) w =
     do { d \<leftarrow> doc_at w x; (d', m) \<leftarrow> doc_reset d (heap_of w);
          Some \<lparr>heap_of = m, doc_at = (doc_at w)(x \<mapsto> d')\<rparr> }"
| "doc_step (DocDestroy x) w =
     do { d \<leftarrow> doc_at w x; m \<leftarrow> doc_destroy d (heap_of w);
          Some \<lparr>heap_of = m, doc_at = (doc_at w)(x := None)\<rparr> }"

fun doc_run :: "doc_op list \<Rightarrow> docs \<Rightarrow> docs option" where
  "doc_run [] w = Some w"
| "doc_run (a # as) w = do { w' \<leftarrow> doc_step a w; doc_run as w' }"

end
