(* ===== verification/DocumentProofs.thy ===== *)
theory DocumentProofs
  imports Documents
begin

text \<open>
  Documents as values: any order of moves, assignments, resets and ends of life is defined,
  keeps every root readable together with the buffer it borrows from, and loses nothing.
\<close>

section \<open>Documents without memory\<close>

type_synonym settings = "bool \<times> storage_policy \<times> nat \<times> bool \<times> bool"
type_synonym doc_env = "nat \<Rightarrow> (jvalue \<times> settings) option"

definition settings_of :: "doc \<Rightarrow> settings" where
  "settings_of d = (m_is_view d, m_storage d, m_block d, m_thread_safe d, m_count d)"

fun doc_value_step :: "doc_op \<Rightarrow> doc_env \<Rightarrow> doc_env option" where
  "doc_value_step (DocNew x s b t c) e = (if e x = None then Some (e(x \<mapsto> (JNull, False, s, b, t, c))) else None)"
| "doc_value_step (DocMove x y) e =
     (case e y of
        Some (v, st) \<Rightarrow> if e x = None then Some (e(x \<mapsto> (v, st), y \<mapsto> (JNull, st))) else None
      | None \<Rightarrow> None)"
| "doc_value_step (DocAssign x y) e =
     (case e y of
        Some (v, st) \<Rightarrow>
          if e x = None then None else if x = y then Some e else Some (e(x \<mapsto> (v, st), y \<mapsto> (JNull, st)))
      | None \<Rightarrow> None)"
| "doc_value_step (DocReset x) e =
     (case e x of Some (v, view, st) \<Rightarrow> Some (e(x \<mapsto> (JNull, False, st))) | None \<Rightarrow> None)"
| "doc_value_step (DocDestroy x) e = (if e x = None then None else Some (e(x := None)))"

fun doc_value_run :: "doc_op list \<Rightarrow> doc_env \<Rightarrow> doc_env option" where
  "doc_value_run [] e = Some e"
| "doc_value_run (a # as) e = do { e' \<leftarrow> doc_value_step a e; doc_value_run as e' }"

section \<open>Memory that represents documents\<close>

definition ps_blocks :: "pmr_string \<Rightarrow> ptr set" where
  "ps_blocks s = set_option (ps_block s)"

definition buffer_ok :: "memory \<Rightarrow> pmr_string \<Rightarrow> bool" where
  "buffer_ok m s \<longleftrightarrow>
     (case ps_block s of
        None \<Rightarrow> ps_alloc s = new_delete_resource
      | Some p \<Rightarrow> \<exists>t. blocks m p = Some (ps_alloc s, BText t))"

text \<open>A root that shows its value, and borrows from the document's buffer or from \<open>E\<close>.\<close>

definition doc_ok :: "heap \<Rightarrow> memory \<Rightarrow> doc \<Rightarrow> jvalue \<Rightarrow> ptr set \<Rightarrow> bool" where
  "doc_ok E m d v G \<longleftrightarrow>
     (\<exists>F B. tree (blocks m) (m_root d) v F B \<and> buffer_ok m (m_buffer d) \<and>
        F \<inter> ps_blocks (m_buffer d) = {} \<and> G = F \<union> ps_blocks (m_buffer d) \<and>
        B \<subseteq> dom E \<union> ps_blocks (m_buffer d))"

definition doc_shown :: "heap \<Rightarrow> memory \<Rightarrow> doc option \<Rightarrow> (jvalue \<times> settings) option \<Rightarrow> ptr set \<Rightarrow> bool" where
  "doc_shown E m d e G =
     (case d of
        None \<Rightarrow> e = None \<and> G = {}
      | Some d' \<Rightarrow> (\<exists>v. e = Some (v, settings_of d') \<and> doc_ok E m d' v G))"

definition arenas :: "(nat \<Rightarrow> doc option) \<Rightarrow> res set" where
  "arenas ds = {a. \<exists>x d. ds x = Some d \<and> m_arena d = Some a}"

text \<open>An arena is one document's, and so is every block that comes from it.\<close>

definition arena_ok :: "res set \<Rightarrow> memory \<Rightarrow> (nat \<Rightarrow> doc option) \<Rightarrow> nat \<Rightarrow> ptr set \<Rightarrow> bool" where
  "arena_ok L m ds x G \<longleftrightarrow>
     (\<forall>d a. ds x = Some d \<longrightarrow> m_arena d = Some a \<longrightarrow>
        a \<notin> L \<and> a \<noteq> new_delete_resource \<and> (\<forall>p b. blocks m p = Some (a, b) \<longrightarrow> p \<in> G) \<and>
        (\<forall>y d'. y \<noteq> x \<longrightarrow> ds y = Some d' \<longrightarrow> m_arena d' \<noteq> Some a))"

definition docs_hold :: "heap \<Rightarrow> res set \<Rightarrow> docs \<Rightarrow> doc_env \<Rightarrow> (nat \<Rightarrow> ptr set) \<Rightarrow> bool" where
  "docs_hold E L w e own \<longleftrightarrow>
     tidy (heap_of w) \<and> (\<forall>p r b. blocks (heap_of w) p = Some (r, b) \<longrightarrow> alive (heap_of w) r) \<and>
     (\<forall>p \<in> dom E. blocks (heap_of w) p = E p) \<and>
     (\<forall>x. doc_shown E (heap_of w) (doc_at w x) (e x) (own x)) \<and>
     (\<forall>x y. x \<noteq> y \<longrightarrow> own x \<inter> own y = {}) \<and> (\<forall>x. own x \<inter> dom E = {}) \<and>
     dom (blocks (heap_of w)) = dom E \<union> (\<Union>x. own x) \<and>
     (\<forall>x. arena_ok L (heap_of w) (doc_at w) x (own x)) \<and>
     set (live (heap_of w)) = L \<union> arenas (doc_at w)"

definition docs_represent :: "heap \<Rightarrow> res set \<Rightarrow> docs \<Rightarrow> doc_env \<Rightarrow> bool" where
  "docs_represent E L w e \<longleftrightarrow> finite (dom e) \<and> (\<exists>own. docs_hold E L w e own)"

lemma docs_facts:
  assumes "docs_hold E L w e own"
  shows docs_tidy: "tidy (heap_of w)"
    and docs_fixed: "p \<in> dom E \<Longrightarrow> blocks (heap_of w) p = E p"
    and docs_shown: "doc_shown E (heap_of w) (doc_at w x) (e x) (own x)"
    and docs_apart: "x \<noteq> y \<Longrightarrow> own x \<inter> own y = {}"
    and docs_outside: "own x \<inter> dom E = {}"
    and docs_dom: "dom (blocks (heap_of w)) = dom E \<union> (\<Union>x. own x)"
    and docs_arena: "arena_ok L (heap_of w) (doc_at w) x (own x)"
    and docs_live: "set (live (heap_of w)) = L \<union> arenas (doc_at w)"
  using assms unfolding docs_hold_def by simp_all

lemma docs_alive: "docs_hold E L w e own \<Longrightarrow> blocks (heap_of w) p = Some (r, b) \<Longrightarrow> alive (heap_of w) r"
  unfolding docs_hold_def by (elim conjE allE [of _ p] allE [of _ r] allE [of _ b]) (erule mp)

lemma buffer_ok_frame:
  "buffer_ok m s \<Longrightarrow> (\<And>p. p \<in> ps_blocks s \<Longrightarrow> blocks m' p = blocks m p) \<Longrightarrow> buffer_ok m' s"
  by (auto simp: buffer_ok_def ps_blocks_def split: option.splits)

lemma doc_ok_frame:
  assumes "doc_ok E m d v G" "\<And>p. p \<in> G \<union> dom E \<Longrightarrow> blocks m' p = blocks m p"
  shows "doc_ok E m' d v G"
proof -
  obtain F B where a: "tree (blocks m) (m_root d) v F B" "buffer_ok m (m_buffer d)"
      "F \<inter> ps_blocks (m_buffer d) = {}" "G = F \<union> ps_blocks (m_buffer d)" "B \<subseteq> dom E \<union> ps_blocks (m_buffer d)"
    using assms(1) unfolding doc_ok_def by blast
  have "tree (blocks m') (m_root d) v F B" by (rule tree_frame(1) [OF a(1)]) (use a(4,5) assms(2) in blast)
  moreover have "buffer_ok m' (m_buffer d)" by (rule buffer_ok_frame [OF a(2)]) (use a(4) assms(2) in blast)
  ultimately show ?thesis using a(3-5) unfolding doc_ok_def by blast
qed

lemma doc_shown_frame:
  "doc_shown E m d e G \<Longrightarrow> (\<And>p. p \<in> G \<union> dom E \<Longrightarrow> blocks m' p = blocks m p) \<Longrightarrow> doc_shown E m' d e G"
  unfolding doc_shown_def by (auto split: option.splits intro: doc_ok_frame)

text \<open>A step concerns the documents of \<open>Z\<close>, and gives back the blocks \<open>G\<close> of theirs.\<close>

lemma docs_change:
  assumes h: "docs_hold E L w e own"
    and m': "blocks (heap_of w') = blocks (without G (heap_of w))" "unused (heap_of w') = unused (heap_of w)"
    and G: "G \<subseteq> \<Union>(own ` Z)" "\<Union>(own' ` Z) = \<Union>(own ` Z) - G"
    and rest: "\<And>z. z \<notin> Z \<Longrightarrow> doc_at w' z = doc_at w z \<and> e' z = e z \<and> own' z = own z"
    and Z: "\<And>z. z \<in> Z \<Longrightarrow> doc_shown E (heap_of w') (doc_at w' z) (e' z) (own' z)"
      "\<And>x y. x \<in> Z \<Longrightarrow> y \<in> Z \<Longrightarrow> x \<noteq> y \<Longrightarrow> own' x \<inter> own' y = {}"
    and res: "\<And>z. z \<in> Z \<Longrightarrow> arena_ok L (heap_of w') (doc_at w') z (own' z)"
      "\<And>p r b. blocks (heap_of w') p = Some (r, b) \<Longrightarrow> alive (heap_of w') r"
      "set (live (heap_of w')) = L \<union> arenas (doc_at w')"
  shows "docs_hold E L w' e' own'"
proof -
  have same: "blocks (heap_of w') p = blocks (heap_of w) p" if "p \<in> dom E \<or> (\<exists>z. z \<notin> Z \<and> p \<in> own z)" for p
  proof -
    have "p \<notin> \<Union>(own ` Z)" using that docs_outside [OF h] docs_apart [OF h] by (metis UN_E disjoint_iff)
    then show ?thesis using m'(1) G(1) by auto
  qed
  have sep: "own' x \<inter> own' y = {}" if "x \<noteq> y" for x y
  proof -
    have "own' x \<inter> own y = {}" if "x \<in> Z" "y \<notin> Z" for x y
    proof -
      have "own' x \<subseteq> \<Union>(own ` Z)" using G(2) that(1) by blast
      moreover have "own z \<inter> own y = {}" if "z \<in> Z" for z using docs_apart [OF h, of z y] that \<open>y \<notin> Z\<close> by metis
      ultimately show ?thesis by blast
    qed
    from this [of x y] this [of y x] show ?thesis
      using that Z(2) rest [of x] rest [of y] docs_apart [OF h that] by (cases "x \<in> Z"; cases "y \<in> Z") auto
  qed
  have out: "own' x \<inter> dom E = {}" for x
  proof (cases "x \<in> Z")
    case True
    then have "own' x \<subseteq> \<Union>(own ` Z)" using G(2) by blast
    then show ?thesis using docs_outside [OF h] by blast
  qed (use rest docs_outside [OF h] in simp)
  have dom: "dom (blocks (heap_of w')) = dom E \<union> (\<Union>x. own' x)"
  proof -
    have "dom (blocks (heap_of w')) = dom (blocks (heap_of w)) - G" using m'(1) by (auto simp: domIff split: if_splits)
    moreover have "(\<Union>x. own x) = \<Union>(own ` Z) \<union> \<Union>(own ` (- Z))" by blast
    moreover have "(\<Union>x. own' x) = \<Union>(own' ` Z) \<union> \<Union>(own ` (- Z))" using rest by auto
    moreover have "dom E - G = dom E" using G(1) docs_outside [OF h] by blast
    moreover have "\<Union>(own ` (- Z)) - G = \<Union>(own ` (- Z))"
    proof -
      have "x = y" if "p \<in> own x" "p \<in> own y" for p x y using docs_apart [OF h, of x y] that by blast
      then show ?thesis using G(1) by blast
    qed
    ultimately show ?thesis unfolding docs_dom [OF h] G(2) by (simp add: Un_Diff)
  qed
  have shown: "doc_shown E (heap_of w') (doc_at w' x) (e' x) (own' x)" for x
  proof (cases "x \<in> Z")
    case False
    have "doc_shown E (heap_of w') (doc_at w x) (e x) (own x)"
      by (rule doc_shown_frame [OF docs_shown [OF h]]) (use same False in blast)
    then show ?thesis using rest [OF False] by simp
  qed (rule Z(1))
  have arena: "arena_ok L (heap_of w') (doc_at w') x (own' x)" for x
  proof (cases "x \<in> Z")
    case False
    show ?thesis
      unfolding arena_ok_def
    proof (intro allI impI)
      fix d a assume d: "doc_at w' x = Some d" "m_arena d = Some a"
      have old: "a \<notin> L \<and> a \<noteq> new_delete_resource \<and> (\<forall>p b. blocks (heap_of w) p = Some (a, b) \<longrightarrow> p \<in> own x) \<and>
          (\<forall>y d'. y \<noteq> x \<longrightarrow> doc_at w y = Some d' \<longrightarrow> m_arena d' \<noteq> Some a)"
        using docs_arena [OF h, of x] d rest [OF False] unfolding arena_ok_def by simp
      have "m_arena d' \<noteq> Some a" if "y \<noteq> x" "doc_at w' y = Some d'" for y d'
        using res(1) [of y] old that d rest [of y] unfolding arena_ok_def by (cases "y \<in> Z") metis+
      moreover have "p \<in> own' x" if "blocks (heap_of w') p = Some (a, b)" for p b
        using old that m'(1) rest [OF False] by (auto split: if_splits)
      ultimately show "a \<notin> L \<and> a \<noteq> new_delete_resource \<and> (\<forall>p b. blocks (heap_of w') p = Some (a, b) \<longrightarrow> p \<in> own' x) \<and>
          (\<forall>y d'. y \<noteq> x \<longrightarrow> doc_at w' y = Some d' \<longrightarrow> m_arena d' \<noteq> Some a)"
        using old by blast
    qed
  qed (rule res(1))
  have "tidy (heap_of w')" using docs_tidy [OF h] m' by (auto simp: tidy_def split: if_splits)
  moreover have "blocks (heap_of w') p = E p" if "p \<in> dom E" for p using same docs_fixed [OF h] that by simp
  ultimately show ?thesis unfolding docs_hold_def using res(2,3) sep out dom shown arena by blast
qed

section \<open>The parts of a document\<close>

lemma docs_var:
  assumes "docs_hold E L w e own" "e x = Some (v, st)"
  obtains d F B where "doc_at w x = Some d" "st = settings_of d" "tree (blocks (heap_of w)) (m_root d) v F B"
    "buffer_ok (heap_of w) (m_buffer d)" "F \<inter> ps_blocks (m_buffer d) = {}" "own x = F \<union> ps_blocks (m_buffer d)"
    "B \<subseteq> dom E \<union> ps_blocks (m_buffer d)"
proof -
  have "doc_shown E (heap_of w) (doc_at w x) (Some (v, st)) (own x)" using docs_shown [OF assms(1), of x] assms(2) by simp
  then show ?thesis using that unfolding doc_shown_def doc_ok_def by (cases "doc_at w x") auto
qed

lemma docs_none:
  assumes "docs_hold E L w e own" "e x = None" shows "doc_at w x = None" "own x = {}"
proof -
  have "doc_shown E (heap_of w) (doc_at w x) None (own x)" using docs_shown [OF assms(1), of x] assms(2) by simp
  then show "doc_at w x = None" "own x = {}" by (cases "doc_at w x"; simp add: doc_shown_def)+
qed

text \<open>The root is destroyed, and the buffer, in either order.\<close>

lemma destroy_root:
  assumes "tree (blocks m) s v F B" "tidy m" "\<And>p r b. blocks m p = Some (r, b) \<Longrightarrow> alive m r" "F \<inter> G = {}"
  shows "destroy s (without G m) = Some (without (F \<union> G) m)"
proof -
  have F: "F \<subseteq> dom (blocks m)" using tree_blocks(1) [OF assms(1)] by blast
  have "usable (blocks m) F m"
    unfolding usable_def
  proof
    fix p assume "p \<in> F"
    with F obtain r b where "blocks m p = Some (r, b)" by fastforce
    with assms(3) show "blocks m p = blocks m p \<and> (\<exists>r b. blocks m p = Some (r, b) \<and> alive m r)" by blast
  qed
  then have "usable (blocks m) F (without G m)" using assms(4) by (rule usable_without)
  from destroy_tree(1) [OF assms(1) this, of "Suc (unused m)"] tidy_card [OF assms(2) F]
  have "destroy_slot (Suc (unused m)) s (without G m) = Some (without (F \<union> G) m)" by (simp only: without_without)
  then show ?thesis unfolding destroy_def without_sel(2) .
qed

lemma destroy_buffer:
  assumes "buffer_ok m s" "\<And>p r b. blocks m p = Some (r, b) \<Longrightarrow> alive m r" "G \<inter> ps_blocks s = {}"
  shows "ps_destroy s (without G m) = Some (without (ps_blocks s \<union> G) m)"
proof (cases "ps_block s")
  case None
  then show ?thesis using assms(1) by (simp add: ps_destroy_def ps_blocks_def buffer_ok_def alive_def)
next
  case (Some p)
  then obtain t where "blocks m p = Some (ps_alloc s, BText t)" using assms(1) by (auto simp: buffer_ok_def)
  moreover from this have "alive m (ps_alloc s)" by (rule assms(2))
  ultimately show ?thesis
    using Some assms(3) by (auto simp: ps_destroy_def ps_blocks_def dealloc_def without_def alive_def fun_eq_iff)
qed

text \<open>An arena dies when its blocks are gone.\<close>

lemma kill_gone:
  assumes "arena_ok L m ds x G" "ds x = Some d" "G \<subseteq> H"
  shows "blocks (kill_arena (m_arena d) (without H m)) = blocks (without H m)"
    and "unused (kill_arena (m_arena d) (without H m)) = unused m"
    and "set (live (kill_arena (m_arena d) (without H m))) = set (live m) - set_option (m_arena d)"
proof -
  show "blocks (kill_arena (m_arena d) (without H m)) = blocks (without H m)"
  proof (rule ext)
    fix p
    have "p \<in> G" if "m_arena d = Some a" "blocks m p = Some (a, b)" for a b
      using assms(1,2) that unfolding arena_ok_def by blast
    then show "blocks (kill_arena (m_arena d) (without H m)) p = blocks (without H m) p"
      using assms(3) by (auto simp: kill_arena_def kill_def split: option.splits)
  qed
qed (auto simp: kill_arena_def kill_def split: option.splits)

lemma arenas_update:
  assumes "arena_ok L m ds x G" "ds x = Some d"
  shows "arenas ds - set_option (m_arena d) = arenas (ds(x := None))"
proof (rule set_eqI)
  fix a
  show "a \<in> arenas ds - set_option (m_arena d) \<longleftrightarrow> a \<in> arenas (ds(x := None))"
  proof (cases "m_arena d = Some a")
    case True
    then show ?thesis using assms unfolding arena_ok_def arenas_def by auto
  next
    case False
    then show ?thesis using assms(2) unfolding arenas_def by auto (metis option.inject)
  qed
qed

definition performs_docs :: "heap \<Rightarrow> res set \<Rightarrow> docs option \<Rightarrow> doc_env \<Rightarrow> bool" where
  "performs_docs E L x e' \<longleftrightarrow> (\<exists>w' own'. x = Some w' \<and> docs_hold E L w' e' own')"

lemma performs_docsI: "docs_hold E L w' e' own' \<Longrightarrow> x = Some w' \<Longrightarrow> performs_docs E L x e'"
  unfolding performs_docs_def by blast

text \<open>The end of a document.\<close>

lemma doc_destroy_step:
  assumes h: "docs_hold E L w e own" and "e x \<noteq> None"
  shows "performs_docs E L (doc_step (DocDestroy x) w) (e(x := None))"
proof -
  obtain v st where "e x = Some (v, st)" using assms(2) by auto
  from docs_var [OF h this] obtain d F B where d: "doc_at w x = Some d" "tree (blocks (heap_of w)) (m_root d) v F B"
      "buffer_ok (heap_of w) (m_buffer d)" "F \<inter> ps_blocks (m_buffer d) = {}" "own x = F \<union> ps_blocks (m_buffer d)"
    by metis
  let ?m = "kill_arena (m_arena d) (without (own x) (heap_of w))"
  let ?w = "\<lparr>heap_of = ?m, doc_at = (doc_at w)(x := None)\<rparr>"
  note k = kill_gone [OF docs_arena [OF h] d(1), of "own x", OF subset_refl]
  have "ps_destroy (m_buffer d) (heap_of w) = Some (without (ps_blocks (m_buffer d)) (heap_of w))"
    using destroy_buffer [OF d(3) docs_alive [OF h], where G = "{}"] by simp
  moreover have "destroy (m_root d) (without (ps_blocks (m_buffer d)) (heap_of w)) = Some (without (own x) (heap_of w))"
    using destroy_root [OF d(2) docs_tidy [OF h] docs_alive [OF h] d(4)] d(5) by simp
  ultimately have step: "doc_step (DocDestroy x) w = Some ?w" using d(1) by (simp add: doc_destroy_def)
  have live: "set (live ?m) = L \<union> arenas ((doc_at w)(x := None))"
    using k(3) docs_live [OF h] arenas_update [OF docs_arena [OF h] d(1)] docs_arena [OF h, of x] d(1)
    unfolding arena_ok_def by auto
  have "docs_hold E L ?w (e(x := None)) (own(x := {}))"
  proof (rule docs_change [OF h, of _ "own x" "{x}"])
    show "alive (heap_of ?w) r" if b: "blocks (heap_of ?w) p = Some (r, b)" for p r b
    proof -
      have o: "p \<notin> own x" "blocks (heap_of w) p = Some (r, b)" using b k(1) by (simp_all split: if_splits)
      then have "alive (heap_of w) r" "m_arena d \<noteq> Some r"
        using docs_alive [OF h] docs_arena [OF h, of x] d(1) unfolding arena_ok_def by blast+
      then show ?thesis using k(3) by (auto simp: alive_def)
    qed
  qed (use k live in \<open>auto simp: doc_shown_def arena_ok_def\<close>)
  then show ?thesis using step by (rule performs_docsI)
qed

text \<open>A new document.\<close>

lemma fresh_resource: "r \<in> set rs \<Longrightarrow> r \<le> foldr max rs (0::nat)"
  by (induction rs) auto

lemma make_arena_facts:
  assumes "make_arena s m = (a, m')"
  shows "blocks m' = blocks m" "unused m' = unused m" "set (live m') = set (live m) \<union> set_option a"
    "\<And>r. a = Some r \<Longrightarrow> r \<notin> set (live m) \<and> r \<noteq> new_delete_resource"
  using assms fresh_resource [of "Suc (foldr max (live m) 0)" "live m"]
  by (auto simp: make_arena_def new_resource_def Let_def new_delete_resource_def split: storage_policy.splits)

lemma doc_new_step:
  assumes h: "docs_hold E L w e own" and x: "e x = None"
  shows "performs_docs E L (doc_step (DocNew x s b t c) w) (e(x \<mapsto> (JNull, False, s, b, t, c)))"
proof -
  obtain a m' where am: "make_arena s (heap_of w) = (a, m')" by fastforce
  note m = make_arena_facts [OF am]
  note n = docs_none [OF h x]
  let ?d = "\<lparr>m_arena = a, m_root = SNull, m_buffer = empty_string, m_is_view = False, m_storage = s,
    m_block = b, m_thread_safe = t, m_count = c\<rparr>"
  let ?w = "\<lparr>heap_of = m', doc_at = (doc_at w)(x \<mapsto> ?d)\<rparr>"
  have alive: "alive m' r" if "alive (heap_of w) r" for r using that m(3) by (auto simp: alive_def)
  have unused_arena: "blocks (heap_of w) p \<noteq> Some (r, b)" "\<And>y d'. doc_at w y = Some d' \<Longrightarrow> m_arena d' \<noteq> Some r" "r \<notin> L"
    if "a = Some r" for p r b
    using docs_alive [OF h, of p r b] docs_live [OF h] m(4) [OF that] unfolding alive_def arenas_def by blast+
  have "docs_hold E L ?w (e(x \<mapsto> (JNull, False, s, b, t, c))) own"
  proof (rule docs_change [OF h, of _ "{}" "{x}"])
    show "doc_shown E (heap_of ?w) (doc_at ?w z) ((e(x \<mapsto> (JNull, False, s, b, t, c))) z) (own z)" if "z \<in> {x}" for z
      using that n(2) by (auto simp: doc_shown_def doc_ok_def settings_of_def buffer_ok_def empty_string_def ps_blocks_def
          intro!: exI [of _ "{}"] tree_null)
    show "arena_ok L (heap_of ?w) (doc_at ?w) z (own z)" if "z \<in> {x}" for z
      using that unused_arena m(1,4) by (auto simp: arena_ok_def split: if_splits)
    show "set (live (heap_of ?w)) = L \<union> arenas (doc_at ?w)"
    proof -
      have "arenas (doc_at ?w) = arenas (doc_at w) \<union> set_option a"
      proof (rule set_eqI)
        show "q \<in> arenas (doc_at ?w) \<longleftrightarrow> q \<in> arenas (doc_at w) \<union> set_option a" for q
          using n(1) unfolding arenas_def by (auto split: if_splits) (metis option.distinct(1))+
      qed
      then show ?thesis using m(3) docs_live [OF h] by auto
    qed
    show "alive (heap_of ?w) r" if "blocks (heap_of ?w) p = Some (r, b)" for p r b
      using that docs_alive [OF h] alive m(1) by simp
  qed (use m(1,2) in auto)
  moreover have "doc_step (DocNew x s b t c) w = Some ?w" using n(1) am by (simp add: doc_new_def)
  ultimately show ?thesis by (rule performs_docsI)
qed

text \<open>A document that moves: the arena, the root and the buffer go together.\<close>

lemma doc_move_step:
  assumes h: "docs_hold E L w e own" and x: "e x = None" and y: "e y = Some (v, st)"
  shows "performs_docs E L (doc_step (DocMove x y) w) (e(x \<mapsto> (v, st), y \<mapsto> (JNull, st)))"
proof -
  note n = docs_none [OF h x]
  have xy: "x \<noteq> y" using x y by auto
  from docs_var [OF h y] obtain d F B where d: "doc_at w y = Some d" "st = settings_of d"
      "buffer_ok (heap_of w) (m_buffer d)"
    by metis
  have ok: "doc_ok E (heap_of w) d v (own y)"
    using docs_shown [OF h, of y] d(1) y by (simp add: doc_shown_def)
  let ?s = "d\<lparr>m_arena := None, m_root := SNull, m_buffer := empty_string\<rparr>"
  let ?w = "\<lparr>heap_of = heap_of w, doc_at = (doc_at w)(x \<mapsto> d, y \<mapsto> ?s)\<rparr>"
  let ?own = "own(x := own y, y := {})"
  have arena: "arena_ok L (heap_of w) (doc_at w) y (own y)" by (rule docs_arena [OF h])
  have "docs_hold E L ?w (e(x \<mapsto> (v, st), y \<mapsto> (JNull, st))) ?own"
  proof (rule docs_change [OF h, of _ "{}" "{x, y}"])
    have s: "doc_ok E (heap_of w) ?s JNull {}"
      by (auto simp: doc_ok_def buffer_ok_def empty_string_def ps_blocks_def intro!: exI [of _ "{}"] tree_null)
    show "doc_shown E (heap_of ?w) (doc_at ?w z) ((e(x \<mapsto> (v, st), y \<mapsto> (JNull, st))) z) (?own z)" if "z \<in> {x, y}" for z
      using that xy ok s d(2) by (auto simp: doc_shown_def settings_of_def)
    show "arena_ok L (heap_of ?w) (doc_at ?w) z (?own z)" if "z \<in> {x, y}" for z
      using that xy arena d(1) n(1) unfolding arena_ok_def by auto
    show "set (live (heap_of ?w)) = L \<union> arenas (doc_at ?w)"
    proof -
      have "arenas (doc_at ?w) = arenas (doc_at w)"
      proof (rule set_eqI)
        show "a \<in> arenas (doc_at ?w) \<longleftrightarrow> a \<in> arenas (doc_at w)" for a
          using xy d(1) n(1) unfolding arenas_def
          by (auto split: if_splits) (metis option.distinct(1) option.inject)
      qed
      then show ?thesis using docs_live [OF h] by simp
    qed
    show "alive (heap_of ?w) r" if "blocks (heap_of ?w) p = Some (r, b)" for p r b
      using that docs_alive [OF h] by simp
  qed (use n(2) xy in auto)
  moreover have "doc_step (DocMove x y) w = Some ?w"
  proof -
    have "alive (heap_of w) (ps_alloc (m_buffer d))"
      using d(3) docs_alive [OF h] by (auto simp: buffer_ok_def alive_def split: option.splits)
    then show ?thesis using n(1) d(1) by (simp add: doc_move_def ps_move_def ps_destroy_def)
  qed
  ultimately show ?thesis by (rule performs_docsI)
qed

text \<open>Move assignment is the end of the target and a move into its place.\<close>

lemma assign_is_move:
  assumes h: "docs_hold E L w e own" and "e x = Some (u, su)" "e y = Some (v, st)" "x \<noteq> y"
  shows "doc_step (DocAssign x y) w = do { w1 \<leftarrow> doc_step (DocDestroy x) w; doc_step (DocMove x y) w1 }"
proof -
  from docs_var [OF h assms(2)] obtain d F B where d: "doc_at w x = Some d" "tree (blocks (heap_of w)) (m_root d) u F B"
      "buffer_ok (heap_of w) (m_buffer d)" "F \<inter> ps_blocks (m_buffer d) = {}" "own x = F \<union> ps_blocks (m_buffer d)"
    by metis
  from docs_var [OF h assms(3)] obtain o' F' B' where o: "doc_at w y = Some o'" "buffer_ok (heap_of w) (m_buffer o')"
    by metis
  let ?m = "kill_arena (m_arena d) (without (own x) (heap_of w))"
  let ?r = "ps_alloc (m_buffer o')"
  note k = kill_gone [OF docs_arena [OF h] d(1), of "own x", OF subset_refl]
  have b1: "ps_destroy (m_buffer d) (heap_of w) = Some (without (ps_blocks (m_buffer d)) (heap_of w))"
    using destroy_buffer [OF d(3) docs_alive [OF h], where G = "{}"] by simp
  have r1: "destroy (m_root d) (without (ps_blocks (m_buffer d)) (heap_of w)) = Some (without (own x) (heap_of w))"
    using destroy_root [OF d(2) docs_tidy [OF h] docs_alive [OF h] d(4)] d(5) by simp
  have r2: "destroy (m_root d) (heap_of w) = Some (without F (heap_of w))"
    using destroy_root [OF d(2) docs_tidy [OF h] docs_alive [OF h], where G = "{}"] by simp
  have b2: "ps_destroy (m_buffer d) (without F (heap_of w)) = Some (without (own x) (heap_of w))"
    using destroy_buffer [OF d(3) docs_alive [OF h] d(4)] d(5) by (simp add: Un_commute)
  have al: "alive (heap_of w) ?r" using o(2) docs_alive [OF h] by (auto simp: buffer_ok_def alive_def split: option.splits)
  have "m_arena d \<noteq> Some ?r"
  proof
    assume "m_arena d = Some ?r"
    then have "?r \<noteq> new_delete_resource" "\<And>p b. blocks (heap_of w) p = Some (?r, b) \<Longrightarrow> p \<in> own x"
      using docs_arena [OF h, of x] d(1) unfolding arena_ok_def by blast+
    moreover have "own y = F'' \<union> ps_blocks (m_buffer o') \<Longrightarrow> p \<in> ps_blocks (m_buffer o') \<Longrightarrow> p \<notin> own x" for p F''
      using docs_apart [OF h assms(4)] by auto
    moreover obtain F'' where "own y = F'' \<union> ps_blocks (m_buffer o')" using docs_var [OF h assms(3)] o(1) by (metis option.inject)
    ultimately show False using o(2) by (auto simp: buffer_ok_def ps_blocks_def split: option.splits)
  qed
  then have al': "alive ?m ?r" using al k(3) by (auto simp: alive_def)
  have eb: "m_buffer o' = empty_string" if "ps_block (m_buffer o') = None"
    using o(2) that by (simp add: buffer_ok_def empty_string_def)
  have assign: "doc_move_assign d o' (heap_of w) =
      Some ((o', o'\<lparr>m_arena := None, m_root := SNull, m_buffer := empty_string\<rparr>), ?m)"
    using r2 b2 al al' eb by (cases "ps_block (m_buffer o')")
      (auto simp: doc_move_assign_def Let_def ps_move_into_def ps_destroy_def)
  have "doc_step (DocDestroy x) w = Some \<lparr>heap_of = ?m, doc_at = (doc_at w)(x := None)\<rparr>"
    using b1 r1 d(1) by (simp add: doc_destroy_def)
  then show ?thesis
    using assign d(1) o(1) assms(4) al' by (simp add: doc_move_def ps_move_def ps_destroy_def)
qed

lemma doc_assign_step:
  assumes h: "docs_hold E L w e own" and "e x \<noteq> None" "e y = Some (v, st)" "x \<noteq> y"
  shows "performs_docs E L (doc_step (DocAssign x y) w) (e(x \<mapsto> (v, st), y \<mapsto> (JNull, st)))"
proof -
  obtain u su where u: "e x = Some (u, su)" using assms(2) by auto
  obtain w1 own1 where w1: "doc_step (DocDestroy x) w = Some w1" "docs_hold E L w1 (e(x := None)) own1"
    using doc_destroy_step [OF h assms(2)] unfolding performs_docs_def by blast
  have "performs_docs E L (doc_step (DocMove x y) w1) ((e(x := None))(x \<mapsto> (v, st), y \<mapsto> (JNull, st)))"
    using assms(3,4) by (intro doc_move_step [OF w1(2)]) simp_all
  then show ?thesis unfolding assign_is_move [OF h u assms(3,4)] w1(1) by simp
qed

text \<open>A reset is an assignment from a new document that lives no longer.\<close>

lemma reset_is_assign:
  assumes "doc_at w x = Some d" "doc_at w t = None"
  shows "doc_step (DocReset x) w =
    do { w1 \<leftarrow> doc_step (DocNew t (m_storage d) (m_block d) (m_thread_safe d) (m_count d)) w;
         w2 \<leftarrow> doc_step (DocAssign x t) w1; doc_step (DocDestroy t) w2 }"
proof -
  obtain fresh m1 where n: "doc_new (m_storage d) (m_block d) (m_thread_safe d) (m_count d) (heap_of w) = (fresh, m1)"
    by fastforce
  have xt: "x \<noteq> t" using assms by auto
  show ?thesis
  proof (cases "doc_move_assign d fresh m1")
    case None
    then show ?thesis using n assms xt by (simp add: doc_reset_def)
  next
    case (Some r)
    obtain d' rest m2 where r: "r = ((d', rest), m2)" by (metis prod.exhaust)
    have "((doc_at w)(t \<mapsto> fresh, x \<mapsto> d', t \<mapsto> rest))(t := None) = (doc_at w)(x \<mapsto> d')"
      using assms(2) xt by (auto simp: fun_eq_iff)
    then show ?thesis using n assms xt Some r by (cases "doc_destroy rest m2") (simp_all add: doc_reset_def)
  qed
qed

lemma doc_reset_step:
  assumes h: "docs_hold E L w e own" and "finite (dom e)" and x: "e x = Some (v, view, st)"
  shows "performs_docs E L (doc_step (DocReset x) w) (e(x \<mapsto> (JNull, False, st)))"
proof -
  obtain t where t: "e t = None" using ex_new_if_finite [OF infinite_UNIV_nat assms(2)] by (metis domIff)
  have xt: "x \<noteq> t" using t x by auto
  obtain s b ts c where st: "st = (s, b, ts, c)" by (cases st) auto
  from docs_var [OF h x] obtain d where d: "doc_at w x = Some d" "settings_of d = (view, st)" by metis
  have set: "m_storage d = s" "m_block d = b" "m_thread_safe d = ts" "m_count d = c" using d(2) st by (simp_all add: settings_of_def)
  let ?e1 = "e(t \<mapsto> (JNull, False, st))"
  let ?e2 = "?e1(x \<mapsto> (JNull, False, st), t \<mapsto> (JNull, False, st))"
  obtain w1 own1 where w1: "doc_step (DocNew t s b ts c) w = Some w1" "docs_hold E L w1 ?e1 own1"
    using doc_new_step [OF h t, of s b ts c] unfolding performs_docs_def st by blast
  have "?e1 x \<noteq> None" "?e1 t = Some (JNull, False, st)" using x xt by (simp_all del: not_None_eq)
  from doc_assign_step [OF w1(2) this xt]
  obtain w2 own2 where w2: "doc_step (DocAssign x t) w1 = Some w2" "docs_hold E L w2 ?e2 own2"
    unfolding performs_docs_def by blast
  have "?e2 t \<noteq> None" by simp
  from doc_destroy_step [OF w2(2) this]
  have "performs_docs E L (doc_step (DocDestroy t) w2) (?e2(t := None))" .
  moreover have "?e2(t := None) = e(x \<mapsto> (JNull, False, st))" using t xt by (auto simp: fun_eq_iff)
  ultimately show ?thesis
    unfolding reset_is_assign [OF d(1) docs_none(1) [OF h t]] set w1(1) bind.bind_lunit w2(1) by (simp only:)
qed

section \<open>Every operation\<close>

lemma doc_step_performs:
  assumes h: "docs_hold E L w e own" and "finite (dom e)" "doc_value_step a e = Some e'"
  shows "performs_docs E L (doc_step a w) e' \<and> finite (dom e')"
proof (cases a)
  case (DocAssign x y)
  show ?thesis
  proof (cases "x = y")
    case True
    then obtain d where d: "doc_at w x = Some d" "e' = e"
      using assms(3) DocAssign docs_var [OF h, of x] by (cases "e x") (auto, metis)
    then have "doc_step a w = Some w" using DocAssign True by simp
    then show ?thesis using performs_docsI [OF h] assms(2) d(2) by simp
  next
    case False
    then show ?thesis
      using assms(2,3) DocAssign doc_assign_step [OF h] by (auto split: option.splits if_splits simp del: doc_step.simps)
  qed
qed (use assms(2,3) doc_new_step [OF h] doc_move_step [OF h] doc_reset_step [OF h assms(2)] doc_destroy_step [OF h]
    in \<open>auto split: option.splits if_splits simp del: doc_step.simps\<close>)

lemma doc_run_performs:
  "docs_hold E L w e own \<Longrightarrow> finite (dom e) \<Longrightarrow> doc_value_run as e = Some e' \<Longrightarrow>
    performs_docs E L (doc_run as w) e' \<and> finite (dom e')"
proof (induction as arbitrary: w e own)
  case Nil
  then show ?case by (auto intro: performs_docsI)
next
  case (Cons a as)
  from Cons.prems(3) obtain e1 where e1: "doc_value_step a e = Some e1" "doc_value_run as e1 = Some e'"
    by (auto simp: bind_eq_Some_conv)
  obtain w1 own1 where w1: "doc_step a w = Some w1" "docs_hold E L w1 e1 own1" "finite (dom e1)"
    using doc_step_performs [OF Cons.prems(1,2) e1(1)] unfolding performs_docs_def by blast
  show ?case using Cons.IH [OF w1(2,3) e1(2)] w1(1) by (simp add: performs_docs_def)
qed

lemma no_documents:
  assumes "docs_hold E L w Map.empty own"
  shows "blocks (heap_of w) = E" "set (live (heap_of w)) = L"
proof -
  have n: "own x = {}" "doc_at w x = None" for x using docs_none [OF assms, of x] by simp_all
  have "dom (blocks (heap_of w)) = dom E" using docs_dom [OF assms] n(1) by simp
  then show "blocks (heap_of w) = E" using docs_fixed [OF assms] by (intro ext) (metis domIff)
  show "set (live (heap_of w)) = L" using docs_live [OF assms] n(2) by (simp add: arenas_def)
qed

text \<open>A document parsed from a buffer in its own arena, with borrowed and decoded strings.\<close>

definition sample_doc :: doc where
  "sample_doc = \<lparr>m_arena = Some 1, m_root = SArray 1, m_buffer = \<lparr>ps_alloc = new_delete_resource, ps_block = Some 0\<rparr>,
     m_is_view = False, m_storage = Pooled, m_block = 4096, m_thread_safe = False, m_count = False\<rparr>"

definition sample_docs :: docs where
  "sample_docs = \<lparr>heap_of = \<lparr>blocks = [0 \<mapsto> (new_delete_resource, BText [0x5B, 0x22, 0x61, 0x22, 0x5D]),
       1 \<mapsto> (1, BArray [SView (0, 2, 1)])], unused = 2, live = [1]\<rparr>, doc_at = [0 \<mapsto> sample_doc]\<rparr>"

definition sample_doc_env :: doc_env where
  "sample_doc_env = [0 \<mapsto> (JArr [JStr [0x61]], False, Pooled, 4096, False, False)]"

lemma sample_doc_ok: "doc_ok Map.empty (heap_of sample_docs) sample_doc (JArr [JStr [0x61]]) {0, 1}"
proof -
  let ?h = "blocks (heap_of sample_docs)"
  have "tree ?h (SView (0, 2, 1)) (JStr [0x61]) {} {0}"
    by (rule tree_view) (simp add: text_in_def sample_docs_def numeral_2_eq_2)
  from elems_cons [OF this elems_nil] have "elems ?h [SView (0, 2, 1)] [JStr [0x61]] {} {0}" by simp
  then have "tree ?h (SArray 1) (JArr [JStr [0x61]]) (insert 1 {}) {0}"
    by (rule tree_array [of _ _ 1, rotated]) (simp_all add: sample_docs_def)
  then show ?thesis
    unfolding doc_ok_def sample_doc_def
    by (intro exI [of _ "{1}"] exI [of _ "{0}"]) (auto simp: buffer_ok_def ps_blocks_def sample_docs_def)
qed

lemma sample_docs_represent: "docs_represent Map.empty {} sample_docs sample_doc_env"
proof -
  have "docs_hold Map.empty {} sample_docs sample_doc_env (\<lambda>x. if x = 0 then {0, 1} else {})"
    unfolding docs_hold_def
    using sample_doc_ok
    by (auto simp: sample_docs_def sample_doc_env_def sample_doc_def doc_shown_def settings_of_def tidy_def alive_def
        arena_ok_def arenas_def new_delete_resource_def split: if_splits)
  then show ?thesis by (auto simp: docs_represent_def sample_doc_env_def)
qed

text \<open>
  C37: A \<^verbatim>\<open>Document\<close> is a value too. Whatever the order of moves, move assignments, resets and ends
  of life, no destructor, assignment or string operation touches a block that is gone or a
  resource that has died, every root keeps showing its value although it borrows from a
  buffer that changes its owner, the settings follow the contract, and when the last
  document is gone so are all blocks and all arenas.
\<close>

theorem documents_safe:
  assumes "docs_represent E L w e" "doc_value_run ops e = Some e'"
  shows "\<exists>w'. doc_run ops w = Some w' \<and> docs_represent E L w' e' \<and>
    (e' = Map.empty \<longrightarrow> blocks (heap_of w') = E \<and> set (live (heap_of w')) = L)"
proof -
  obtain own where h: "docs_hold E L w e own" "finite (dom e)" using assms(1) by (auto simp: docs_represent_def)
  from doc_run_performs [OF this assms(2)] obtain w' own' where w': "doc_run ops w = Some w'" "docs_hold E L w' e' own'"
      "finite (dom e')"
    unfolding performs_docs_def by blast
  then show ?thesis using no_documents unfolding docs_represent_def by blast
qed

theorem documents_safe_witness:
  "\<exists>w'. doc_run [DocMove 1 0, DocReset 0, DocAssign 0 1, DocNew 2 SystemDefault 4096 False False, DocAssign 1 2,
      DocDestroy 1, DocDestroy 0, DocDestroy 2] sample_docs = Some w' \<and> blocks (heap_of w') = Map.empty"
proof -
  have "doc_value_run [DocMove 1 0, DocReset 0, DocAssign 0 1, DocNew 2 SystemDefault 4096 False False, DocAssign 1 2,
      DocDestroy 1, DocDestroy 0, DocDestroy 2] sample_doc_env = Some Map.empty"
    by (simp add: sample_doc_env_def fun_eq_iff)
  from documents_safe [OF sample_docs_represent this] show ?thesis by (metis (full_types))
qed

end
