(* ===== verification/Config.thy ===== *)
theory Config
  imports DocumentProofs
begin

text \<open>
  The process-wide configuration (\<^verbatim>\<open>src/config.cpp\<close>, \<^verbatim>\<open>include/pjh_json/config.hpp\<close>): the
  settings, the global document whose resource is everyone's default, and the lock-free cache
  of that resource, with the interleavings of the threads that use it.
\<close>

section \<open>The singleton\<close>

record global_config =
  g_strict_duplicate_keys :: bool
  g_arena_block_size :: nat
  g_max_depth :: nat
  g_strip_bom :: bool
  g_strict_utf8 :: bool
  g_json5 :: bool
  g_storage :: storage_policy
  g_block :: nat
  g_global :: doc
  g_cached :: "res option"
  g_memory :: memory

definition config_block :: nat where "config_block = 4096"
definition kDefaultMaxDepth :: nat where "kDefaultMaxDepth = 512"
definition kUnlimitedDepth :: nat where "kUnlimitedDepth = 0"

text \<open>The constructor: a pooled, thread-safe, counted document, and its resource in the cache.\<close>

definition config_init :: "memory \<Rightarrow> global_config" where
  "config_init m =
     (case doc_new Pooled config_block True True m of
        (g, m') \<Rightarrow>
          \<lparr>g_strict_duplicate_keys = False, g_arena_block_size = 0, g_max_depth = kDefaultMaxDepth,
            g_strip_bom = False, g_strict_utf8 = False, g_json5 = False, g_storage = Pooled, g_block = 4096,
            g_global = g, g_cached = Some (doc_resource g), g_memory = m'\<rparr>)"

definition configure :: "storage_policy \<Rightarrow> nat \<Rightarrow> global_config \<Rightarrow> global_config" where
  "configure storage block_size c = c\<lparr>g_storage := storage, g_block := block_size\<rparr>"

definition set_strict_duplicate_keys :: "bool \<Rightarrow> global_config \<Rightarrow> global_config" where
  "set_strict_duplicate_keys enable c = c\<lparr>g_strict_duplicate_keys := enable\<rparr>"

definition set_arena_block_size :: "nat \<Rightarrow> global_config \<Rightarrow> global_config" where
  "set_arena_block_size bytes c = c\<lparr>g_arena_block_size := bytes\<rparr>"

definition set_max_depth :: "nat \<Rightarrow> global_config \<Rightarrow> global_config" where
  "set_max_depth depth c = c\<lparr>g_max_depth := depth\<rparr>"

definition set_strip_bom :: "bool \<Rightarrow> global_config \<Rightarrow> global_config" where
  "set_strip_bom enable c = c\<lparr>g_strip_bom := enable\<rparr>"

definition set_strict_utf8 :: "bool \<Rightarrow> global_config \<Rightarrow> global_config" where
  "set_strict_utf8 enable c = c\<lparr>g_strict_utf8 := enable\<rparr>"

definition set_json5 :: "bool \<Rightarrow> global_config \<Rightarrow> global_config" where
  "set_json5 enable c = c\<lparr>g_json5 := enable\<rparr>"

text \<open>\<^verbatim>\<open>resource\<close>: the cached pointer, or the global document's resource, which is cached again.\<close>

definition recache :: "res \<Rightarrow> global_config \<Rightarrow> global_config" where
  "recache r c = c\<lparr>g_cached := Some r\<rparr>"

definition config_resource :: "global_config \<Rightarrow> res \<times> global_config" where
  "config_resource c =
     (case g_cached c of
        Some r \<Rightarrow> (r, c)
      | None \<Rightarrow> (let r = doc_resource (g_global c) in (r, recache r c)))"

text \<open>
  \<^verbatim>\<open>release_locked\<close>: the cache is cleared, then the global document starts anew. Debug builds
  assert before that that nothing allocated from its arena is left.
\<close>

definition invalidate :: "global_config \<Rightarrow> global_config" where
  "invalidate c = c\<lparr>g_cached := None\<rparr>"

definition none_outstanding :: "global_config \<Rightarrow> bool" where
  "none_outstanding c =
     (case m_arena (g_global c) of
        None \<Rightarrow> True
      | Some a \<Rightarrow>
          list_all (\<lambda>p. case blocks (g_memory c) p of Some (r, _) \<Rightarrow> r \<noteq> a | None \<Rightarrow> True) [0..<unused (g_memory c)])"

definition rebuild :: "bool \<Rightarrow> global_config \<Rightarrow> global_config option" where
  "rebuild debug c =
     (if debug \<and> m_count (g_global c) \<and> \<not> none_outstanding c then None
      else do { (g, m) \<leftarrow> doc_reset (g_global c) (g_memory c); Some (c\<lparr>g_global := g, g_memory := m\<rparr>) })"

definition release_locked :: "bool \<Rightarrow> global_config \<Rightarrow> global_config option" where
  "release_locked debug c = rebuild debug (invalidate c)"

definition config_release :: "bool \<Rightarrow> global_config \<Rightarrow> global_config option" where
  "config_release debug c = release_locked debug c"

definition default_settings :: "global_config \<Rightarrow> global_config" where
  "default_settings c =
     c\<lparr>g_storage := Pooled, g_block := 4096, g_strict_duplicate_keys := False, g_arena_block_size := 0,
       g_max_depth := kDefaultMaxDepth, g_strip_bom := False, g_strict_utf8 := False, g_json5 := False\<rparr>"

definition config_reset :: "bool \<Rightarrow> global_config \<Rightarrow> global_config option" where
  "config_reset debug c = release_locked debug (default_settings c)"

section \<open>Threads\<close>

text \<open>
  Where a thread stands in \<^verbatim>\<open>resource()\<close> (the atomic load, the shared lock, the read, the
  store) and in \<^verbatim>\<open>release()\<close> or \<^verbatim>\<open>reset()\<close> (the exclusive lock, the cleared cache, the new
  arena).
\<close>

datatype pc =
    Idle
  | Loading | Waiting | Sharing | Read res | Got res
  | Entering | Locked | Cleared | Rebuilt

fun shares :: "pc \<Rightarrow> bool" where
  "shares Sharing = True"
| "shares (Read r) = True"
| "shares _ = False"

fun excludes :: "pc \<Rightarrow> bool" where
  "excludes Locked = True"
| "excludes Cleared = True"
| "excludes Rebuilt = True"
| "excludes _ = False"

record machine =
  conf :: global_config
  at_pc :: "nat \<Rightarrow> pc"

definition goes :: "nat \<Rightarrow> pc \<Rightarrow> machine \<Rightarrow> machine" where
  "goes t l s = s\<lparr>at_pc := (at_pc s)(t := l)\<rparr>"

inductive config_step :: "bool \<Rightarrow> machine \<Rightarrow> machine \<Rightarrow> bool" for debug where
  call: "at_pc s t = Idle \<Longrightarrow> config_step debug s (goes t Loading s)"
| fast: "at_pc s t = Loading \<Longrightarrow> g_cached (conf s) = Some r \<Longrightarrow> config_step debug s (goes t (Got r) s)"
| miss: "at_pc s t = Loading \<Longrightarrow> g_cached (conf s) = None \<Longrightarrow> config_step debug s (goes t Waiting s)"
| lock_shared: "at_pc s t = Waiting \<Longrightarrow> \<forall>u. \<not> excludes (at_pc s u) \<Longrightarrow> config_step debug s (goes t Sharing s)"
| read_global: "at_pc s t = Sharing \<Longrightarrow> config_step debug s (goes t (Read (doc_resource (g_global (conf s)))) s)"
| store_cache: "at_pc s t = Read r \<Longrightarrow> config_step debug s (goes t (Got r) (s\<lparr>conf := recache r (conf s)\<rparr>))"
| use_done: "at_pc s t = Got r \<Longrightarrow> config_step debug s (goes t Idle s)"
| enter: "at_pc s t = Idle \<Longrightarrow> config_step debug s (goes t Entering s)"
| lock: "at_pc s t = Entering \<Longrightarrow> \<forall>u. \<not> excludes (at_pc s u) \<and> \<not> shares (at_pc s u) \<Longrightarrow>
    config_step debug s (goes t Locked s)"
| defaults: "at_pc s t = Locked \<Longrightarrow> config_step debug s (s\<lparr>conf := default_settings (conf s)\<rparr>)"
| clear: "at_pc s t = Locked \<Longrightarrow> config_step debug s (goes t Cleared (s\<lparr>conf := invalidate (conf s)\<rparr>))"
| rebuild_arena: "at_pc s t = Cleared \<Longrightarrow> rebuild debug (conf s) = Some c \<Longrightarrow>
    config_step debug s (goes t Rebuilt (s\<lparr>conf := c\<rparr>))"
| unlock: "at_pc s t = Rebuilt \<Longrightarrow> config_step debug s (goes t Idle s)"

definition machine_start :: machine where
  "machine_start = \<lparr>conf = config_init \<lparr>blocks = Map.empty, unused = 0, live = []\<rparr>, at_pc = (\<lambda>t. Idle)\<rparr>"

inductive config_reach :: "bool \<Rightarrow> machine \<Rightarrow> bool" for debug where
  reach_start: "config_reach debug machine_start"
| reach_step: "config_reach debug s \<Longrightarrow> config_step debug s s' \<Longrightarrow> config_reach debug s'"

section \<open>The cache never points to a dead arena\<close>

text \<open>The global document is empty, in an arena of its own, and the cache shows it or nothing.\<close>

definition config_ok :: "global_config \<Rightarrow> bool" where
  "config_ok c \<longleftrightarrow>
     (\<exists>a. a \<noteq> new_delete_resource \<and> live (g_memory c) = [a] \<and> blocks (g_memory c) = Map.empty \<and>
        g_global c = \<lparr>m_arena = Some a, m_root = SNull, m_buffer = empty_string, m_is_view = False,
          m_storage = Pooled, m_block = config_block, m_thread_safe = True, m_count = True\<rparr> \<and>
        (g_cached c = None \<or> g_cached c = Some a))"

definition locks_ok :: "(nat \<Rightarrow> pc) \<Rightarrow> global_config \<Rightarrow> bool" where
  "locks_ok l c \<longleftrightarrow>
     (\<forall>t u. excludes (l t) \<longrightarrow> t \<noteq> u \<longrightarrow> \<not> excludes (l u)) \<and>
     (\<forall>t u. excludes (l t) \<longrightarrow> \<not> shares (l u)) \<and>
     (\<forall>t r. l t = Read r \<longrightarrow> r = doc_resource (g_global c)) \<and>
     (\<forall>t. l t = Cleared \<longrightarrow> g_cached c = None)"

lemma goes_sel [simp]: "conf (goes t l s) = conf s" "at_pc (goes t l s) = (at_pc s)(t := l)"
  by (simp_all add: goes_def)

lemma config_sel [simp]:
  "g_global (recache r c) = g_global c" "g_memory (recache r c) = g_memory c" "g_cached (recache r c) = Some r"
  "g_global (invalidate c) = g_global c" "g_memory (invalidate c) = g_memory c" "g_cached (invalidate c) = None"
  by (simp_all add: recache_def invalidate_def)

lemma default_sel [simp]:
  "g_global (default_settings c) = g_global c" "g_memory (default_settings c) = g_memory c"
  "g_cached (default_settings c) = g_cached c"
  by (simp_all add: default_settings_def)

lemma config_ok_init: "config_ok (config_init \<lparr>blocks = Map.empty, unused = 0, live = []\<rparr>)"
  by (simp add: config_ok_def config_init_def doc_new_def make_arena_def new_resource_def doc_resource_def
      new_delete_resource_def)

lemma config_ok_resource: "config_ok c \<Longrightarrow> alive (g_memory c) (doc_resource (g_global c))"
  by (auto simp: config_ok_def doc_resource_def alive_def)

lemma config_ok_cached: "config_ok c \<Longrightarrow> g_cached c = Some r \<Longrightarrow> r = doc_resource (g_global c)"
  by (auto simp: config_ok_def doc_resource_def)

lemma config_ok_recache: "config_ok c \<Longrightarrow> config_ok (recache (doc_resource (g_global c)) c)"
  by (auto simp: config_ok_def doc_resource_def)

lemma config_ok_invalidate: "config_ok c \<Longrightarrow> config_ok (invalidate c)"
  by (auto simp: config_ok_def)

text \<open>A rebuild is defined: the arena is exchanged, the assertion holds.\<close>

lemma rebuild_ok:
  assumes "config_ok c" "g_cached c = None"
  obtains c' where "rebuild debug c = Some c'" "config_ok c'" "g_cached c' = None"
proof -
  obtain a where a: "a \<noteq> new_delete_resource" "live (g_memory c) = [a]" "blocks (g_memory c) = Map.empty"
    "g_global c = \<lparr>m_arena = Some a, m_root = SNull, m_buffer = empty_string, m_is_view = False,
       m_storage = Pooled, m_block = config_block, m_thread_safe = True, m_count = True\<rparr>"
    using assms(1) unfolding config_ok_def by blast
  have n: "none_outstanding c" using a(3) by (simp add: none_outstanding_def list_all_iff split: option.split)
  have "\<exists>g m r. doc_reset (g_global c) (g_memory c) = Some (g, m) \<and> r \<noteq> new_delete_resource \<and> live m = [r] \<and>
      blocks m = Map.empty \<and> g = \<lparr>m_arena = Some r, m_root = SNull, m_buffer = empty_string, m_is_view = False,
        m_storage = Pooled, m_block = config_block, m_thread_safe = True, m_count = True\<rparr>"
    using a by (simp add: doc_reset_def doc_new_def make_arena_def new_resource_def Let_def doc_move_assign_def
        destroy_def ps_destroy_def empty_string_def alive_def kill_arena_def kill_def doc_destroy_def
        new_delete_resource_def fun_eq_iff)
  then obtain g m r where g: "doc_reset (g_global c) (g_memory c) = Some (g, m)" "r \<noteq> new_delete_resource" "live m = [r]"
      "blocks m = Map.empty" "g = \<lparr>m_arena = Some r, m_root = SNull, m_buffer = empty_string, m_is_view = False,
        m_storage = Pooled, m_block = config_block, m_thread_safe = True, m_count = True\<rparr>"
    by blast
  show ?thesis
    by (rule that [of "c\<lparr>g_global := g, g_memory := m\<rparr>"]) (use g n assms(2) in \<open>simp_all add: rebuild_def config_ok_def\<close>)
qed

text \<open>One thread moves on.\<close>

lemma locks_move:
  assumes "locks_ok l c"
    and "excludes k \<Longrightarrow> excludes (l t) \<or> (\<forall>u. \<not> excludes (l u) \<and> \<not> shares (l u))"
    and "shares k \<Longrightarrow> shares (l t) \<or> (\<forall>u. \<not> excludes (l u))"
    and "\<And>r. k = Read r \<Longrightarrow> r = doc_resource (g_global c')"
    and "g_global c' = g_global c \<or> excludes (l t)"
    and "k = Cleared \<Longrightarrow> g_cached c' = None" "g_cached c' = g_cached c \<or> shares (l t) \<or> excludes (l t)"
  shows "locks_ok (l(t := k)) c'"
proof -
  have ex: "\<And>t u. excludes (l t) \<Longrightarrow> t \<noteq> u \<Longrightarrow> \<not> excludes (l u)" and sh: "\<And>t u. excludes (l t) \<Longrightarrow> \<not> shares (l u)"
    and rd: "\<And>t r. l t = Read r \<Longrightarrow> r = doc_resource (g_global c)"
    and cl: "\<And>t. l t = Cleared \<Longrightarrow> g_cached c = None"
    using assms(1) unfolding locks_ok_def by blast+
  have "r = doc_resource (g_global c')" if "l u = Read r" for u r
    using rd [OF that] sh [of t u] that assms(5) by auto
  moreover have "g_cached c' = None" if "l u = Cleared" "u \<noteq> t" for u
    using cl [OF that(1)] sh [of u t] ex [of u t] that assms(7) by auto
  moreover have "\<not> excludes (l u)" if "excludes k" "u \<noteq> t" for u using assms(2) [OF that(1)] ex [of t u] that(2) by blast
  moreover have "\<not> shares (l u)" if "excludes k" for u using assms(2) [OF that] sh by blast
  moreover have "\<not> excludes (l u)" if "shares k" for u using assms(3) [OF that] sh by blast
  moreover have "\<not> (excludes k \<and> shares k)" by (cases k) auto
  ultimately show ?thesis using assms(4,6) ex sh unfolding locks_ok_def by (auto simp: fun_upd_def)
qed

text \<open>
  Every thread step keeps the lock discipline and the configuration.
\<close>

lemma step_keeps:
  assumes "config_step debug s s'" and c: "config_ok (conf s)" and l: "locks_ok (at_pc s) (conf s)"
  shows "config_ok (conf s') \<and> locks_ok (at_pc s') (conf s')"
  using assms(1)
proof cases
  case (lock_shared t)
  have "locks_ok ((at_pc s)(t := Sharing)) (conf s)" by (rule locks_move [OF l]) (use lock_shared in auto)
  then show ?thesis using c lock_shared(1) by simp
next
  case (read_global t)
  have "locks_ok ((at_pc s)(t := Read (doc_resource (g_global (conf s))))) (conf s)"
    by (rule locks_move [OF l]) (use read_global in auto)
  then show ?thesis using c read_global(1) by simp
next
  case (store_cache t r)
  then have r: "r = doc_resource (g_global (conf s))" using l unfolding locks_ok_def by blast
  have "locks_ok ((at_pc s)(t := Got r)) (recache r (conf s))" by (rule locks_move [OF l]) (use store_cache in auto)
  then show ?thesis using config_ok_recache [OF c] r store_cache(1) by simp
next
  case (lock t)
  have "locks_ok ((at_pc s)(t := Locked)) (conf s)" by (rule locks_move [OF l]) (use lock in auto)
  then show ?thesis using c lock(1) by simp
next
  case (clear t)
  have "locks_ok ((at_pc s)(t := Cleared)) (invalidate (conf s))" by (rule locks_move [OF l]) (use clear in auto)
  then show ?thesis using config_ok_invalidate [OF c] clear(1) by simp
next
  case (rebuild_arena t c')
  have n: "g_cached (conf s) = None" using l rebuild_arena(2) unfolding locks_ok_def by blast
  obtain c'' where c'': "rebuild debug (conf s) = Some c''" "config_ok c''" "g_cached c'' = None"
    by (rule rebuild_ok [OF c n])
  have "locks_ok ((at_pc s)(t := Rebuilt)) c''" by (rule locks_move [OF l]) (use rebuild_arena n c'' in auto)
  then show ?thesis using c'' rebuild_arena(1,3) by simp
next
  case (defaults t)
  then show ?thesis using c l by (simp add: config_ok_def locks_ok_def)
next
  case (call t)
  have "locks_ok ((at_pc s)(t := Loading)) (conf s)" by (rule locks_move [OF l]) auto
  then show ?thesis using c call(1) by simp
next
  case (fast t r)
  have "locks_ok ((at_pc s)(t := Got r)) (conf s)" by (rule locks_move [OF l]) auto
  then show ?thesis using c fast(1) by simp
next
  case (miss t)
  have "locks_ok ((at_pc s)(t := Waiting)) (conf s)" by (rule locks_move [OF l]) auto
  then show ?thesis using c miss(1) by simp
next
  case (use_done t)
  have "locks_ok ((at_pc s)(t := Idle)) (conf s)" by (rule locks_move [OF l]) auto
  then show ?thesis using c use_done(1) by simp
next
  case (enter t)
  have "locks_ok ((at_pc s)(t := Entering)) (conf s)" by (rule locks_move [OF l]) auto
  then show ?thesis using c enter(1) by simp
next
  case (unlock t)
  have "locks_ok ((at_pc s)(t := Idle)) (conf s)" by (rule locks_move [OF l]) auto
  then show ?thesis using c unlock(1) by simp
qed

lemma reach_keeps: "config_reach debug s \<Longrightarrow> config_ok (conf s) \<and> locks_ok (at_pc s) (conf s)"
proof (induction rule: config_reach.induct)
  case reach_start
  then show ?case using config_ok_init by (simp add: machine_start_def locks_ok_def)
next
  case (reach_step s s')
  then show ?case using step_keeps by blast
qed

text \<open>
  C38: However many threads call \<^verbatim>\<open>resource()\<close>, \<^verbatim>\<open>release()\<close> and \<^verbatim>\<open>reset()\<close>, and however their steps
  interleave, the cached pointer is null or the resource of the global document, which is
  alive; a thread of the slow path stores nothing else; and a thread inside \<^verbatim>\<open>release()\<close> never
  gets stuck: the arena is exchanged and the outstanding-allocation assertion holds.
\<close>

theorem config_cache_current:
  assumes "config_reach debug s"
  shows "(g_cached (conf s) = None \<or> g_cached (conf s) = Some (doc_resource (g_global (conf s)))) \<and>
    alive (g_memory (conf s)) (doc_resource (g_global (conf s))) \<and>
    (\<forall>t r. at_pc s t = Read r \<longrightarrow> r = doc_resource (g_global (conf s))) \<and>
    (\<forall>t. at_pc s t = Cleared \<longrightarrow> (\<exists>c. rebuild debug (conf s) = Some c))"
proof -
  have c: "config_ok (conf s)" and l: "locks_ok (at_pc s) (conf s)" using reach_keeps [OF assms] by blast+
  have "\<exists>c. rebuild debug (conf s) = Some c" if "at_pc s t = Cleared" for t
    using rebuild_ok [OF c] l that unfolding locks_ok_def by metis
  then show ?thesis
    using config_ok_cached [OF c] config_ok_resource [OF c] l unfolding locks_ok_def by (cases "g_cached (conf s)") auto
qed

text \<open>
  The fast path is only as safe as the documented quiescence: a thread that has loaded the
  cached pointer can still hold it when another thread has finished \<^verbatim>\<open>release()\<close>, and then it
  is not the resource of the global document any more.
\<close>

theorem config_stale_pointer:
  "\<exists>s r. config_reach debug s \<and> at_pc s 0 = Got r \<and> at_pc s 1 = Idle \<and> \<not> alive (g_memory (conf s)) r"
proof -
  let ?c = "conf machine_start"
  let ?s0 = "goes 0 (Got 1) (goes 0 Loading machine_start)"
  let ?s1 = "goes 1 Locked (goes 1 Entering ?s0)"
  let ?s2 = "goes 1 Cleared (?s1\<lparr>conf := invalidate ?c\<rparr>)"
  have cached: "g_cached ?c = Some 1"
    by (simp add: machine_start_def config_init_def doc_new_def make_arena_def new_resource_def doc_resource_def)
  have idle: "at_pc machine_start t = Idle" for t by (simp add: machine_start_def)
  have "config_reach debug (goes 0 Loading machine_start)" by (rule reach_step [OF reach_start call]) (rule idle)
  then have "config_reach debug ?s0" by (rule reach_step) (rule fast, simp_all add: cached)
  then have "config_reach debug (goes 1 Entering ?s0)" by (rule reach_step) (rule enter, simp add: idle)
  then have "config_reach debug ?s1" by (rule reach_step) (rule lock, auto simp: idle)
  then have s2: "config_reach debug ?s2" by (rule reach_step) (use clear [of ?s1 1 debug] in simp)
  obtain c where c: "rebuild debug (invalidate ?c) = Some c" "\<not> alive (g_memory c) 1"
  proof -
    have "none_outstanding (invalidate ?c)"
      by (simp add: none_outstanding_def list_all_iff machine_start_def config_init_def doc_new_def make_arena_def
          new_resource_def split: option.split)
    moreover have "\<exists>g m. doc_reset (g_global ?c) (g_memory ?c) = Some (g, m) \<and> \<not> alive m 1"
      by (simp add: machine_start_def config_init_def doc_reset_def doc_new_def make_arena_def new_resource_def Let_def
          doc_move_assign_def destroy_def ps_destroy_def empty_string_def alive_def kill_arena_def kill_def doc_destroy_def
          new_delete_resource_def)
    ultimately show ?thesis using that by (auto simp: rebuild_def)
  qed
  have "config_reach debug (goes 1 Rebuilt (?s2\<lparr>conf := c\<rparr>))"
    by (rule reach_step [OF s2], rule rebuild_arena) (simp_all add: c(1))
  then have "config_reach debug (goes 1 Idle (goes 1 Rebuilt (?s2\<lparr>conf := c\<rparr>)))"
    by (rule reach_step) (rule unlock, simp)
  then show ?thesis using c(2)
    by (intro exI [of _ "goes 1 Idle (goes 1 Rebuilt (?s2\<lparr>conf := c\<rparr>))"] exI [of _ 1] conjI) simp_all
qed

text \<open>The start, and a thread in the middle of a release, are reachable.\<close>

theorem config_cache_current_witness:
  "\<exists>s. config_reach False s \<and> at_pc s 0 = Cleared \<and> (\<exists>c. rebuild False (conf s) = Some c)"
proof -
  let ?s1 = "goes 0 Locked (goes 0 Entering machine_start)"
  let ?s2 = "goes 0 Cleared (?s1\<lparr>conf := invalidate (conf machine_start)\<rparr>)"
  have idle: "at_pc machine_start t = Idle" for t by (simp add: machine_start_def)
  have "config_reach False (goes 0 Entering machine_start)" by (rule reach_step [OF reach_start enter]) (rule idle)
  then have "config_reach False ?s1" by (rule reach_step) (rule lock, auto simp: idle)
  then have s2: "config_reach False ?s2" by (rule reach_step) (use clear [of ?s1 0 False] in simp)
  have "at_pc ?s2 0 = Cleared" by simp
  with config_cache_current [OF s2] s2 show ?thesis by blast
qed

end
