(* ===== verification/StdInterop.thy ===== *)
theory StdInterop
  imports JsonOps
begin

text \<open>
  Conversions to and from standard containers (\<^verbatim>\<open>include/pjh_json/std_interop.hpp\<close>,
  \<^verbatim>\<open>src/std_interop.cpp\<close>).
\<close>

section \<open>The standard value\<close>

datatype stdvalue =
    StdNull
  | StdBool bool
  | StdInt u64
  | StdDouble u64
  | StdString bytes
  | StdArray "stdvalue list"
  | StdObject "(bytes \<times> stdvalue) list"

text \<open>\<^verbatim>\<open>operator==\<close>: the alternatives first, then their own equality, doubles as numbers.\<close>

fun std_eq :: "stdvalue \<Rightarrow> stdvalue \<Rightarrow> bool"
  and std_eq_array :: "stdvalue list \<Rightarrow> stdvalue list \<Rightarrow> bool"
  and std_eq_object :: "(bytes \<times> stdvalue) list \<Rightarrow> (bytes \<times> stdvalue) list \<Rightarrow> bool" where
  "std_eq StdNull StdNull = True"
| "std_eq (StdBool a) (StdBool b) = (a = b)"
| "std_eq (StdInt a) (StdInt b) = (a = b)"
| "std_eq (StdDouble a) (StdDouble b) = f_eq a b"
| "std_eq (StdString a) (StdString b) = (a = b)"
| "std_eq (StdArray as) (StdArray bs) = std_eq_array as bs"
| "std_eq (StdObject as) (StdObject bs) = std_eq_object as bs"
| "std_eq _ _ = False"
| "std_eq_array [] [] = True"
| "std_eq_array (a # as) (b # bs) = (std_eq a b \<and> std_eq_array as bs)"
| "std_eq_array _ _ = False"
| "std_eq_object [] [] = True"
| "std_eq_object ((k, a) # as) ((l, b) # bs) = (k = l \<and> std_eq a b \<and> std_eq_object as bs)"
| "std_eq_object _ _ = False"

text \<open>\<^verbatim>\<open>to_std\<close>: alternative by alternative, elements and entries in order.\<close>

fun to_std :: "jvalue \<Rightarrow> stdvalue"
  and to_std_array :: "jvalue list \<Rightarrow> stdvalue list"
  and to_std_object :: "jentries \<Rightarrow> (bytes \<times> stdvalue) list" where
  "to_std JNull = StdNull"
| "to_std (JBool b) = StdBool b"
| "to_std (JInt i) = StdInt i"
| "to_std (JFloat d) = StdDouble d"
| "to_std (JStr s) = StdString s"
| "to_std (JArr xs) = StdArray (to_std_array xs)"
| "to_std (JObj es) = StdObject (to_std_object es)"
| "to_std_array [] = []"
| "to_std_array (x # xs) = to_std x # to_std_array xs"
| "to_std_object [] = []"
| "to_std_object ((k, v) # es) = (k, to_std v) # to_std_object es"

text \<open>
  \<^verbatim>\<open>from_std\<close>: an object is built by \<^verbatim>\<open>Object::insert\<close>, with its lookup cache; the result is
  \<^term>\<open>None\<close> when a probe does not return.
\<close>

fun from_std :: "stdvalue \<Rightarrow> jvalue option"
  and from_std_array :: "stdvalue list \<Rightarrow> jvalue list option"
  and from_std_object :: "(bytes \<times> stdvalue) list \<Rightarrow> jvalue obj \<Rightarrow> jvalue obj option" where
  "from_std StdNull = Some JNull"
| "from_std (StdBool b) = Some (JBool b)"
| "from_std (StdInt i) = Some (JInt i)"
| "from_std (StdDouble d) = Some (JFloat d)"
| "from_std (StdString s) = Some (JStr s)"
| "from_std (StdArray vs) = map_option JArr (from_std_array vs)"
| "from_std (StdObject es) = map_option (\<lambda>ob. JObj (o_data ob)) (from_std_object es (Obj [] None))"
| "from_std_array [] = Some []"
| "from_std_array (v # vs) =
     (case from_std v of
        None \<Rightarrow> None
      | Some x \<Rightarrow> map_option (\<lambda>xs. x # xs) (from_std_array vs))"
| "from_std_object [] ob = Some ob"
| "from_std_object ((k, v) # es) ob =
     (case from_std v of
        None \<Rightarrow> None
      | Some x \<Rightarrow> (case obj_insert k x ob of None \<Rightarrow> None | Some ob' \<Rightarrow> from_std_object es ob'))"

section \<open>There and back\<close>

text \<open>Objects within the range of the lookup cache's positions.\<close>

fun objects_fit :: "jvalue \<Rightarrow> bool" where
  "objects_fit (JArr xs) = list_all objects_fit xs"
| "objects_fit (JObj es) = (length es < 2 ^ 30 \<and> list_all (\<lambda>e. objects_fit (snd e)) es)"
| "objects_fit _ = True"

text \<open>The meaning of \<^verbatim>\<open>from_std\<close> without a cache: a repeated key takes the last value.\<close>

fun std_value :: "stdvalue \<Rightarrow> jvalue"
  and std_values :: "stdvalue list \<Rightarrow> jvalue list"
  and std_entries :: "(bytes \<times> stdvalue) list \<Rightarrow> jentries \<Rightarrow> jentries" where
  "std_value StdNull = JNull"
| "std_value (StdBool b) = JBool b"
| "std_value (StdInt i) = JInt i"
| "std_value (StdDouble d) = JFloat d"
| "std_value (StdString s) = JStr s"
| "std_value (StdArray vs) = JArr (std_values vs)"
| "std_value (StdObject es) = JObj (std_entries es [])"
| "std_values [] = []"
| "std_values (v # vs) = std_value v # std_values vs"
| "std_entries [] acc = acc"
| "std_entries ((k, v) # es) acc = std_entries es (obj_put acc k (std_value v))"

fun std_fits :: "stdvalue \<Rightarrow> bool" where
  "std_fits (StdArray vs) = list_all std_fits vs"
| "std_fits (StdObject es) = (length es < 2 ^ 30 \<and> list_all (\<lambda>e. std_fits (snd e)) es)"
| "std_fits _ = True"

fun std_unique :: "stdvalue \<Rightarrow> bool" where
  "std_unique (StdArray vs) = list_all std_unique vs"
| "std_unique (StdObject es) = (distinct (map fst es) \<and> list_all (\<lambda>e. std_unique (snd e)) es)"
| "std_unique _ = True"

lemma length_put_le: "length (obj_put es k v) \<le> Suc (length es)"
  by (induction es) auto

lemma from_std_value:
  "std_fits s \<Longrightarrow> from_std s = Some (std_value s)"
  "list_all std_fits vs \<Longrightarrow> from_std_array vs = Some (std_values vs)"
  "list_all (\<lambda>e. std_fits (snd e)) es \<Longrightarrow> obj_ok ob \<Longrightarrow> length (o_data ob) + length es < 2 ^ 30 \<Longrightarrow>
    \<exists>ob'. from_std_object es ob = Some ob' \<and> obj_ok ob' \<and> o_data ob' = std_entries es (o_data ob)"
proof (induction s and vs and es ob rule: from_std_from_std_array_from_std_object.induct)
  case (7 es)
  have "obj_ok (Obj [] None)" by (simp add: obj_ok_def cache_ok_def)
  then show ?case using 7 by force
next
  case (11 k v es ob)
  have v: "from_std v = Some (std_value v)" using 11 by simp
  obtain ob1 where ob1: "obj_insert k (std_value v) ob = Some ob1" "obj_ok ob1" "o_data ob1 = obj_put (o_data ob) k (std_value v)"
    using obj_insert_ok [OF 11(4), of k "std_value v"] 11(5) by auto
  show ?case using 11(2) [OF v ob1(1)] 11(3,5) v ob1 length_put_le [of "o_data ob" k "std_value v"] by simp
qed simp_all

lemma std_entries_append:
  "distinct (map fst acc @ map fst es) \<Longrightarrow> std_entries es acc = acc @ map (\<lambda>(k, v). (k, std_value v)) es"
  by (induction es arbitrary: acc) (auto simp: obj_put_new)

lemma to_std_lists:
  "to_std_array xs = map to_std xs" "to_std_object es = map (\<lambda>(k, v). (k, to_std v)) es" "std_values vs = map std_value vs"
  by (induction xs, simp_all) (induction es, auto, induction vs, simp_all)

lemma std_value_to_std: "unique_keys v \<Longrightarrow> std_value (to_std v) = v"
proof (induction v)
  case (JArr xs)
  then show ?case by (simp add: to_std_lists list_all_iff map_idI)
next
  case (JObj es)
  have "distinct (map fst (to_std_object es))" using JObj.prems by (simp add: to_std_lists comp_def case_prod_unfold)
  then have "std_value (to_std (JObj es)) = JObj (map (\<lambda>(k, v). (k, std_value v)) (to_std_object es))"
    using std_entries_append [of "[]"] by simp
  also have "\<dots> = JObj es"
    using JObj by (auto simp: to_std_lists list_all_iff case_prod_unfold intro!: map_idI)
  finally show ?case .
qed simp_all

lemma to_std_std_value: "std_unique s \<Longrightarrow> to_std (std_value s) = s"
proof (induction s)
  case (StdArray vs)
  then show ?case by (simp add: to_std_lists list_all_iff map_idI)
next
  case (StdObject es)
  then have "std_entries es [] = map (\<lambda>(k, v). (k, std_value v)) es" using std_entries_append [of "[]" es] by simp
  then show ?case
    using StdObject by (auto simp: to_std_lists list_all_iff case_prod_unfold intro!: map_idI)
qed simp_all

lemma to_std_fits: "objects_fit v \<Longrightarrow> std_fits (to_std v)"
  by (induction v) (auto simp: to_std_lists list_all_iff)

text \<open>
  C39: A value whose objects have distinct keys goes to standard containers and back unchanged,
  member order included, and a standard value with distinct keys survives the other round
  trip. The object cache behind \<^verbatim>\<open>insert\<close> never shows.
\<close>

theorem std_roundtrip:
  "(unique_keys v \<and> objects_fit v \<longrightarrow> from_std (to_std v) = Some v) \<and>
   (std_unique s \<and> std_fits s \<longrightarrow> map_option to_std (from_std s) = Some s)"
  using from_std_value(1) [OF to_std_fits, of v] std_value_to_std [of v] from_std_value(1) [of s] to_std_std_value [of s]
  by simp

theorem std_roundtrip_witness:
  "from_std (to_std (JObj [([0x62], JArr [JInt 1]), ([0x61], JNull)])) = Some (JObj [([0x62], JArr [JInt 1]), ([0x61], JNull)])"
  by (rule std_roundtrip [THEN conjunct1, THEN mp]) simp

end
