(* ===== verification/Accessors.thy ===== *)
theory Accessors
  imports StorageProofs JsonOps
begin

unbundle bit_operations_syntax

text \<open>
  Reading the tagged union (\<^verbatim>\<open>include/pjh_json/json.hpp\<close>, \<^verbatim>\<open>src/json.cpp\<close>): type tests, the
  unchecked, strict and probing accessors, the checked conversions, the visitor's variant,
  and the range-for over children. Reading an inactive union member is undefined.
\<close>

section \<open>Tags\<close>

datatype json_type =
    TyNull | TyBoolean | TyInteger | TyFloating | TyStringView | TyStringOwned | TyArray | TyObject

fun m_type :: "jslot \<Rightarrow> json_type" where
  "m_type SNull = TyNull"
| "m_type (SBool b) = TyBoolean"
| "m_type (SInt i) = TyInteger"
| "m_type (SFloat d) = TyFloating"
| "m_type (SView v) = TyStringView"
| "m_type (SOwned p) = TyStringOwned"
| "m_type (SArray p) = TyArray"
| "m_type (SObject p) = TyObject"

definition slot_is_null :: "jslot \<Rightarrow> bool" where "slot_is_null s \<longleftrightarrow> m_type s = TyNull"
definition slot_is_boolean :: "jslot \<Rightarrow> bool" where "slot_is_boolean s \<longleftrightarrow> m_type s = TyBoolean"
definition slot_is_int :: "jslot \<Rightarrow> bool" where "slot_is_int s \<longleftrightarrow> m_type s = TyInteger"
definition slot_is_float :: "jslot \<Rightarrow> bool" where "slot_is_float s \<longleftrightarrow> m_type s = TyFloating"
definition slot_is_number :: "jslot \<Rightarrow> bool" where "slot_is_number s \<longleftrightarrow> slot_is_int s \<or> slot_is_float s"
definition slot_is_string :: "jslot \<Rightarrow> bool" where
  "slot_is_string s \<longleftrightarrow> m_type s = TyStringView \<or> m_type s = TyStringOwned"
definition slot_is_array :: "jslot \<Rightarrow> bool" where "slot_is_array s \<longleftrightarrow> m_type s = TyArray"
definition slot_is_object :: "jslot \<Rightarrow> bool" where "slot_is_object s \<longleftrightarrow> m_type s = TyObject"

section \<open>Union members\<close>

text \<open>What an access gives: a value, a \<^verbatim>\<open>TypeError\<close>, or nothing the language defines.\<close>

datatype 'a access = Gives 'a | Throws bytes | NotDefined

fun of_option :: "'a option \<Rightarrow> 'a access" where
  "of_option (Some x) = Gives x"
| "of_option None = NotDefined"

definition boolean_member :: "jslot \<Rightarrow> bool option" where
  "boolean_member s = (case s of SBool b \<Rightarrow> Some b | _ \<Rightarrow> None)"

definition integer_member :: "jslot \<Rightarrow> u64 option" where
  "integer_member s = (case s of SInt i \<Rightarrow> Some i | _ \<Rightarrow> None)"

definition floating_member :: "jslot \<Rightarrow> u64 option" where
  "floating_member s = (case s of SFloat d \<Rightarrow> Some d | _ \<Rightarrow> None)"

text \<open>The text behind either string tag, and the vector behind a container's pointer.\<close>

definition string_member :: "memory \<Rightarrow> jslot \<Rightarrow> bytes option" where
  "string_member m s = (case s of SView v \<Rightarrow> view_text v m | SOwned p \<Rightarrow> text_at p m | _ \<Rightarrow> None)"

definition array_member :: "memory \<Rightarrow> jslot \<Rightarrow> jslot list option" where
  "array_member m s =
     (case s of SArray p \<Rightarrow> (case blocks m p of Some (_, BArray ss) \<Rightarrow> Some ss | _ \<Rightarrow> None) | _ \<Rightarrow> None)"

definition object_member :: "memory \<Rightarrow> jslot \<Rightarrow> (sstring \<times> jslot) list option" where
  "object_member m s =
     (case s of SObject p \<Rightarrow> (case blocks m p of Some (_, BObject es) \<Rightarrow> Some es | _ \<Rightarrow> None) | _ \<Rightarrow> None)"

definition mismatch :: "string \<Rightarrow> bytes" where
  "mismatch name = lit ''type mismatch in as_'' @ lit name @ lit ''()''"

text \<open>\<^verbatim>\<open>debug_check_type\<close> is there in debug builds only, \<^verbatim>\<open>check_type_strict\<close> always.\<close>

definition debug_check_type :: "bool \<Rightarrow> json_type \<Rightarrow> json_type \<Rightarrow> string \<Rightarrow> 'a access \<Rightarrow> 'a access" where
  "debug_check_type debug actual expected name k = (if debug \<and> actual \<noteq> expected then Throws (mismatch name) else k)"

definition debug_check_type2 :: "bool \<Rightarrow> json_type \<Rightarrow> json_type \<Rightarrow> json_type \<Rightarrow> string \<Rightarrow> 'a access \<Rightarrow> 'a access" where
  "debug_check_type2 debug actual a b name k =
     (if debug \<and> actual \<noteq> a \<and> actual \<noteq> b then Throws (mismatch name) else k)"

definition check_type_strict :: "json_type \<Rightarrow> json_type \<Rightarrow> string \<Rightarrow> 'a access \<Rightarrow> 'a access" where
  "check_type_strict actual expected name k = (if actual \<noteq> expected then Throws (mismatch name) else k)"

definition check_type_strict2 :: "json_type \<Rightarrow> json_type \<Rightarrow> json_type \<Rightarrow> string \<Rightarrow> 'a access \<Rightarrow> 'a access" where
  "check_type_strict2 actual a b name k = (if actual \<noteq> a \<and> actual \<noteq> b then Throws (mismatch name) else k)"

section \<open>Accessors\<close>

definition as_boolean :: "bool \<Rightarrow> jslot \<Rightarrow> bool access" where
  "as_boolean debug s = debug_check_type debug (m_type s) TyBoolean ''boolean'' (of_option (boolean_member s))"

definition as_int :: "bool \<Rightarrow> jslot \<Rightarrow> u64 access" where
  "as_int debug s = debug_check_type debug (m_type s) TyInteger ''int'' (of_option (integer_member s))"

definition as_float :: "bool \<Rightarrow> jslot \<Rightarrow> u64 access" where
  "as_float debug s = debug_check_type debug (m_type s) TyFloating ''float'' (of_option (floating_member s))"

definition as_string :: "bool \<Rightarrow> memory \<Rightarrow> jslot \<Rightarrow> bytes access" where
  "as_string debug m s =
     debug_check_type2 debug (m_type s) TyStringView TyStringOwned ''string'' (of_option (string_member m s))"

definition as_array :: "bool \<Rightarrow> memory \<Rightarrow> jslot \<Rightarrow> jslot list access" where
  "as_array debug m s = debug_check_type debug (m_type s) TyArray ''array'' (of_option (array_member m s))"

definition as_object :: "bool \<Rightarrow> memory \<Rightarrow> jslot \<Rightarrow> (sstring \<times> jslot) list access" where
  "as_object debug m s = debug_check_type debug (m_type s) TyObject ''object'' (of_option (object_member m s))"

definition as_null_strict :: "jslot \<Rightarrow> unit access" where
  "as_null_strict s = check_type_strict (m_type s) TyNull ''null_strict'' (Gives ())"

definition as_boolean_strict :: "jslot \<Rightarrow> bool access" where
  "as_boolean_strict s = check_type_strict (m_type s) TyBoolean ''boolean_strict'' (of_option (boolean_member s))"

definition as_int_strict :: "jslot \<Rightarrow> u64 access" where
  "as_int_strict s = check_type_strict (m_type s) TyInteger ''int_strict'' (of_option (integer_member s))"

definition as_float_strict :: "jslot \<Rightarrow> u64 access" where
  "as_float_strict s = check_type_strict (m_type s) TyFloating ''float_strict'' (of_option (floating_member s))"

definition as_string_strict :: "memory \<Rightarrow> jslot \<Rightarrow> bytes access" where
  "as_string_strict m s =
     check_type_strict2 (m_type s) TyStringView TyStringOwned ''string_strict'' (of_option (string_member m s))"

definition as_array_strict :: "memory \<Rightarrow> jslot \<Rightarrow> jslot list access" where
  "as_array_strict m s = check_type_strict (m_type s) TyArray ''array_strict'' (of_option (array_member m s))"

definition as_object_strict :: "memory \<Rightarrow> jslot \<Rightarrow> (sstring \<times> jslot) list access" where
  "as_object_strict m s = check_type_strict (m_type s) TyObject ''object_strict'' (of_option (object_member m s))"

text \<open>
  The language's conversion to \<^verbatim>\<open>float\<close>: the nearest of its 24-bit values, ties to even; beyond
  its range an infinity, a NaN stays one, quieted, with the upper bits of its payload.
\<close>

definition round_exp_float :: "nat \<Rightarrow> nat \<Rightarrow> int" where
  "round_exp_float N D =
     (let k0 = int (bitlen N) - int (bitlen D) - 24; (n, d) = scaled N D k0
      in max (if 2 ^ 24 \<le> n div d then k0 + 1 else k0) (- 149))"

definition float_sign :: "bool \<Rightarrow> 32 word" where
  "float_sign neg = (if neg then 0x80000000 else 0)"

definition round_float :: "bool \<Rightarrow> nat \<Rightarrow> nat \<Rightarrow> 32 word" where
  "round_float neg N D =
     (if N = 0 then float_sign neg
      else
        let k = round_exp_float N D; (n, d) = scaled N D k;
            bits = nat (k + 149) * 2 ^ 23 + round_quot n d
        in word_of_nat (min bits 0x7F800000) OR float_sign neg)"

definition int_to_float :: "u64 \<Rightarrow> 32 word" where
  "int_to_float i = round_float (sint i < 0) (nat \<bar>sint i\<bar>) 1"

definition double_to_float :: "u64 \<Rightarrow> 32 word" where
  "double_to_float b =
     (if f_isnan b then word_of_nat (0x7FC00000 + f_mant b div 2 ^ 29 mod 2 ^ 22) OR float_sign (f_sign b)
      else if \<not> f_isfinite b then 0x7F800000 OR float_sign (f_sign b)
      else
        let m = (if f_exp b = 0 then f_mant b else f_mant b + 2 ^ 52); e = int (max 1 (f_exp b)) - 1075
        in if 0 \<le> e then round_float (f_sign b) (m * 2 ^ nat e) 1
           else round_float (f_sign b) m (2 ^ nat (- e)))"

text \<open>\<^verbatim>\<open>get<T>\<close> and \<^verbatim>\<open>try_get<T>\<close> for the four targets, the guard in every build.\<close>

datatype target = ToBool | ToInt | ToFloat | ToDouble
datatype number_value = BoolValue bool | IntValue u64 | FloatValue "32 word" | DoubleValue u64

text \<open>The conversion of the member that the tag admits; \<^term>\<open>None\<close> for every other tag.\<close>

definition admitted :: "target \<Rightarrow> jslot \<Rightarrow> number_value access option" where
  "admitted t s =
     (case t of
        ToBool \<Rightarrow> if m_type s \<noteq> TyBoolean then None else Some (of_option (map_option BoolValue (boolean_member s)))
      | ToInt \<Rightarrow> if m_type s \<noteq> TyInteger then None else Some (of_option (map_option IntValue (integer_member s)))
      | ToFloat \<Rightarrow>
          if m_type s = TyInteger then Some (of_option (map_option (FloatValue \<circ> int_to_float) (integer_member s)))
          else if m_type s = TyFloating
          then Some (of_option (map_option (FloatValue \<circ> double_to_float) (floating_member s)))
          else None
      | ToDouble \<Rightarrow>
          if m_type s = TyInteger then Some (of_option (map_option (DoubleValue \<circ> int_to_double) (integer_member s)))
          else if m_type s = TyFloating then Some (of_option (map_option DoubleValue (floating_member s)))
          else None)"

definition get_value :: "target \<Rightarrow> jslot \<Rightarrow> number_value access" where
  "get_value t s = (case admitted t s of Some r \<Rightarrow> r | None \<Rightarrow> Throws (lit ''type mismatch in get()''))"

definition try_get_value :: "target \<Rightarrow> jslot \<Rightarrow> number_value option access" where
  "try_get_value t s =
     (case admitted t s of
        Some (Gives x) \<Rightarrow> Gives (Some x)
      | Some (Throws e) \<Rightarrow> Throws e
      | Some NotDefined \<Rightarrow> NotDefined
      | None \<Rightarrow> Gives None)"

text \<open>\<^verbatim>\<open>as_variant\<close>: the two string tags share an alternative.\<close>

datatype variant =
    VMono | VBool bool | VInt u64 | VDouble u64 | VText bytes
  | VArray "jslot list" | VObject "(sstring \<times> jslot) list"

definition as_variant :: "bool \<Rightarrow> memory \<Rightarrow> jslot \<Rightarrow> variant access" where
  "as_variant debug m s =
     (case m_type s of
        TyNull \<Rightarrow> Gives VMono
      | TyBoolean \<Rightarrow> of_option (map_option VBool (boolean_member s))
      | TyInteger \<Rightarrow> of_option (map_option VInt (integer_member s))
      | TyFloating \<Rightarrow> of_option (map_option VDouble (floating_member s))
      | TyArray \<Rightarrow> of_option (map_option VArray (array_member m s))
      | TyObject \<Rightarrow> of_option (map_option VObject (object_member m s))
      | _ \<Rightarrow> (case as_string debug m s of Gives t \<Rightarrow> Gives (VText t) | Throws e \<Rightarrow> Throws e | NotDefined \<Rightarrow> NotDefined))"

text \<open>\<^verbatim>\<open>for (auto [key, value] : j)\<close>: the pairs that the iterators show from \<^verbatim>\<open>begin\<close> to \<^verbatim>\<open>end\<close>.\<close>

fun entry_views :: "memory \<Rightarrow> (sstring \<times> jslot) list \<Rightarrow> (bytes \<times> jslot) list access" where
  "entry_views m [] = Gives []"
| "entry_views m ((k, s) # es) =
     (case string_view_of k m of
        None \<Rightarrow> NotDefined
      | Some t \<Rightarrow> (case entry_views m es of Gives r \<Rightarrow> Gives ((t, s) # r) | x \<Rightarrow> x))"

definition child_range :: "bool \<Rightarrow> memory \<Rightarrow> jslot \<Rightarrow> (bytes \<times> jslot) list access" where
  "child_range debug m s =
     (if slot_is_array s then
        (case as_array debug m s of Gives ss \<Rightarrow> Gives (map (\<lambda>c. ([], c)) ss) | Throws e \<Rightarrow> Throws e | NotDefined \<Rightarrow> NotDefined)
      else if slot_is_object s then
        (case as_object debug m s of Gives es \<Rightarrow> entry_views m es | Throws e \<Rightarrow> Throws e | NotDefined \<Rightarrow> NotDefined)
      else Throws (lit ''expected array or object''))"

definition keys_view :: "bool \<Rightarrow> memory \<Rightarrow> jslot \<Rightarrow> bytes list access" where
  "keys_view debug m s =
     (if \<not> slot_is_object s then Throws (lit ''expected object'')
      else (case as_object debug m s of
              Gives es \<Rightarrow> (case entry_views m es of Gives r \<Rightarrow> Gives (map fst r) | Throws e \<Rightarrow> Throws e | NotDefined \<Rightarrow> NotDefined)
            | Throws e \<Rightarrow> Throws e | NotDefined \<Rightarrow> NotDefined))"

definition values_view :: "bool \<Rightarrow> memory \<Rightarrow> jslot \<Rightarrow> jslot list access" where
  "values_view debug m s =
     (if \<not> slot_is_object s then Throws (lit ''expected object'')
      else (case as_object debug m s of Gives es \<Rightarrow> Gives (map snd es) | Throws e \<Rightarrow> Throws e | NotDefined \<Rightarrow> NotDefined))"

text \<open>Comparison with a plain value: the tag first.\<close>

definition eq_bool :: "jslot \<Rightarrow> bool \<Rightarrow> bool access" where
  "eq_bool s b = (if slot_is_boolean s then of_option (map_option (\<lambda>x. x = b) (boolean_member s)) else Gives False)"

definition eq_int :: "jslot \<Rightarrow> u64 \<Rightarrow> bool access" where
  "eq_int s i = (if slot_is_int s then of_option (map_option (\<lambda>x. x = i) (integer_member s)) else Gives False)"

definition eq_double :: "jslot \<Rightarrow> u64 \<Rightarrow> bool access" where
  "eq_double s d = (if slot_is_float s then of_option (map_option (\<lambda>x. f_eq x d) (floating_member s)) else Gives False)"

definition eq_string :: "memory \<Rightarrow> jslot \<Rightarrow> bytes \<Rightarrow> bool access" where
  "eq_string m s t = (if slot_is_string s then of_option (map_option (\<lambda>x. x = t) (string_member m s)) else Gives False)"

section \<open>What they give for a value\<close>

text \<open>An accessor of the union implements an accessor of the value.\<close>

lemma tree_tags:
  assumes "tree (blocks m) s v F B"
  shows "boolean_member s = try_as_boolean v" "integer_member s = try_as_int v" "floating_member s = try_as_float v"
    "string_member m s = try_as_string v"
    "m_type s = TyBoolean \<longleftrightarrow> try_as_boolean v \<noteq> None" "m_type s = TyInteger \<longleftrightarrow> try_as_int v \<noteq> None"
    "m_type s = TyFloating \<longleftrightarrow> try_as_float v \<noteq> None"
    "m_type s = TyStringView \<or> m_type s = TyStringOwned \<longleftrightarrow> try_as_string v \<noteq> None"
    "m_type s = TyArray \<longleftrightarrow> is_array v" "m_type s = TyObject \<longleftrightarrow> is_object v" "m_type s = TyNull \<longleftrightarrow> v = JNull"
  using assms
  by (cases rule: tree.cases;
      simp add: boolean_member_def integer_member_def floating_member_def string_member_def is_array_def is_object_def
        text_reads text_at_def)+

text \<open>A child reference that shows a value.\<close>

definition shows_value :: "memory \<Rightarrow> jvalue \<Rightarrow> jslot \<Rightarrow> bool" where
  "shows_value m v s \<longleftrightarrow> (\<exists>F B. tree (blocks m) s v F B)"

lemma elems_shown: "elems (blocks m) ss vs F B \<Longrightarrow> list_all2 (\<lambda>s v. shows_value m v s) ss vs"
proof (induction ss arbitrary: vs F B)
  case Nil
  then show ?case by (auto elim: elems.cases)
next
  case (Cons s ss)
  from Cons.prems show ?case by (cases rule: elems.cases) (auto simp: shows_value_def dest: Cons.IH)
qed

lemma members_shown:
  "members (blocks m) es ms F B \<Longrightarrow>
    \<exists>cs. entry_views m es = Gives cs \<and> map snd es = map snd cs \<and>
      list_all2 (\<lambda>c e. fst c = fst e \<and> shows_value m (snd e) (snd c)) cs ms"
proof (induction es arbitrary: ms F B)
  case Nil
  then show ?case by (auto elim: members.cases)
next
  case (Cons e es)
  from Cons.prems show ?case
  proof (cases rule: members.cases)
    case (members_view kv k Bk s v F1 B1 ms' F2 B2)
    have "string_view_of (TextView kv) m = Some k"
      using text_reads [OF members_view(5), of m] by (simp add: string_view_of_def)
    moreover have "shows_value m v s" using members_view(6) unfolding shows_value_def by blast
    ultimately show ?thesis using Cons.IH [OF members_view(7)] members_view(1,2) by auto
  next
    case (members_owned p r k s v F1 B1 ms' F2 B2)
    have "string_view_of (TextOwned p) m = Some k" using members_owned by (simp add: string_view_of_def text_at_def)
    moreover have "shows_value m v s" using members_owned unfolding shows_value_def by blast
    ultimately show ?thesis using Cons.IH [of ms' F2 B2] members_owned by auto
  qed
qed

lemma array_reads: "tree (blocks m) s (JArr vs) F B \<Longrightarrow>
    \<exists>ss. array_member m s = Some ss \<and> m_type s = TyArray \<and> list_all2 (\<lambda>s v. shows_value m v s) ss vs"
  by (erule tree.cases) (auto simp: array_member_def intro: elems_shown)

lemma object_reads: "tree (blocks m) s (JObj ms) F B \<Longrightarrow>
    \<exists>es cs. object_member m s = Some es \<and> m_type s = TyObject \<and> entry_views m es = Gives cs \<and>
      list_all2 (\<lambda>c e. fst c = fst e \<and> shows_value m (snd e) (snd c)) cs ms"
  by (erule tree.cases) (auto simp: object_member_def dest: members_shown)

definition or_throw :: "string \<Rightarrow> 'a option \<Rightarrow> 'a access" where
  "or_throw name x = (case x of Some y \<Rightarrow> Gives y | None \<Rightarrow> Throws (mismatch name))"

lemmas access_defs = check_type_strict_def check_type_strict2_def debug_check_type_def debug_check_type2_def or_throw_def

lemma children_shown:
  assumes "tree (blocks m) s v F B"
  shows "case v of
      JArr xs \<Rightarrow> \<exists>cs. child_range debug m s = Gives cs \<and> list_all2 (\<lambda>c x. fst c = [] \<and> shows_value m x (snd c)) cs xs
    | JObj es \<Rightarrow> \<exists>cs. child_range debug m s = Gives cs \<and>
        list_all2 (\<lambda>c e. fst c = fst e \<and> shows_value m (snd e) (snd c)) cs es
    | _ \<Rightarrow> child_range debug m s = Throws (lit ''expected array or object'')"
proof (cases v)
  case (JArr xs)
  with array_reads assms obtain ss where "array_member m s = Some ss" "m_type s = TyArray"
      "list_all2 (\<lambda>s v. shows_value m v s) ss xs" by blast
  then show ?thesis
    using JArr by (simp add: child_range_def slot_is_array_def as_array_def access_defs list_all2_map1)
next
  case (JObj es)
  with object_reads assms obtain fs cs where "object_member m s = Some fs" "m_type s = TyObject" "entry_views m fs = Gives cs"
      "list_all2 (\<lambda>c e. fst c = fst e \<and> shows_value m (snd e) (snd c)) cs es" by blast
  then show ?thesis
    using JObj by (simp add: child_range_def slot_is_array_def slot_is_object_def as_object_def access_defs)
qed (use tree_tags(9,10) [OF assms] in \<open>auto simp: child_range_def slot_is_array_def slot_is_object_def is_array_def is_object_def\<close>)



end
