(* ===== verification/Spec2Isabelle.thy ===== *)
theory Spec2Isabelle
  imports WriterEntry PatchProofs ValidateProofs ConstJson SchemaProofs StreamItemsProofs JsonlProofs
    Config StdInterop Accessors
begin

text \<open>
  A verification of pjh_json, a C++20 JSON library (\<^verbatim>\<open>src/include/pjh_json\<close>, \<^verbatim>\<open>src/src\<close>): a
  recursive in-place parser for RFC 8259 and JSON5 texts, a streaming reader, a value type
  with objects that keep insertion order, paths, JSON Pointer and Patch, a writer, a
  compile-time validator with compile-time values, and a schema validator.

  \<^bigskip>
  How the parts interact.  The entry points (\<^verbatim>\<open>parse.cpp\<close>) pad the text, create an arena and
  run the recursive parser (\<^verbatim>\<open>parser.hpp\<close>, \<^verbatim>\<open>value.cpp\<close>, \<^verbatim>\<open>array.cpp\<close>, \<^verbatim>\<open>object.cpp\<close>) over the
  lexer (\<^verbatim>\<open>utils.cpp\<close>, \<^verbatim>\<open>literal.cpp\<close>, \<^verbatim>\<open>string.cpp\<close>, \<^verbatim>\<open>number.cpp\<close>), which shares its predicates
  with the validator and the streaming reader through \<^verbatim>\<open>grammar.hpp\<close>.  The result is a
  \<^verbatim>\<open>Document\<close>: arena, root, text buffer.  Values are read through \<^verbatim>\<open>json.cpp\<close>, \<^verbatim>\<open>object.cpp\<close> and
  \<^verbatim>\<open>access.cpp\<close>, changed by \<^verbatim>\<open>patch.cpp\<close>, written by \<^verbatim>\<open>writer/\<close>.  \<^verbatim>\<open>stream.cpp\<close> reads the same
  grammar from a stream in chunks, as events.

  \<^bigskip>
  Representation.  Bytes are \<^typ>\<open>8 word\<close>, sizes are \<^typ>\<open>nat\<close> with the width written out where
  the code depends on it, 64-bit integers and doubles are \<^typ>\<open>64 word\<close> (two's complement and
  the IEEE pattern).  A value is \<^typ>\<open>bytes json\<close>; the parser's own strings are views into
  its buffer.  Errors are values with code, category and offset; a read outside the padded
  buffer, or a recursion that does not end, is an outcome of its own, so that its absence is
  a theorem.  \<^verbatim>\<open>std::from_chars\<close>, \<^verbatim>\<open>std::to_chars\<close> and \<^verbatim>\<open>std::hash\<close> are modelled by correct
  rounding, by a search for the shortest decimal that rounds back, and by a parameter.

  \<^bigskip>
  The theories, and what their lemmas show.

  \<^item> \<^verbatim>\<open>Prelude\<close>, \<^verbatim>\<open>Errors\<close> (\<^verbatim>\<open>error.hpp\<close>), \<^verbatim>\<open>Grammar\<close> (\<^verbatim>\<open>grammar.hpp\<close>), \<^verbatim>\<open>JsonData\<close>, \<^verbatim>\<open>Numbers\<close>
    (\<^verbatim>\<open>number.cpp\<close>), \<^verbatim>\<open>Utf8\<close> (\<^verbatim>\<open>detail/utf8.hpp\<close>), \<^verbatim>\<open>Unicode\<close> (\<^verbatim>\<open>unicode.hpp\<close>): scanners against their
    grammar, the codec, the incremental UTF-8 checker, the identifier tables.
  \<^item> \<^verbatim>\<open>ParserState\<close>, \<^verbatim>\<open>Strings\<close>, \<^verbatim>\<open>Kernel\<close>, \<^verbatim>\<open>KeyIndex\<close>, \<^verbatim>\<open>Parser\<close>: the parser, in RFC and JSON5 mode,
    with its SIMD scans, in-place decoding, depth frame and lazy key index.  \<^verbatim>\<open>JsonText\<close> is the
    grammar with its meaning; \<^verbatim>\<open>StringProofs\<close>, \<^verbatim>\<open>ScalarProofs\<close>, \<^verbatim>\<open>ParserProofs\<close> (completeness),
    \<^verbatim>\<open>ParserSound\<close>, \<^verbatim>\<open>ParserTotal\<close> relate the two; \<^verbatim>\<open>EntryProofs\<close> states them of the entry points.
  \<^item> \<^verbatim>\<open>OpenAddress\<close> (the interface of both open-addressing tables, as a locale), \<^verbatim>\<open>ObjectIndex\<close>,
    \<^verbatim>\<open>ObjectOps\<close>, \<^verbatim>\<open>JsonOps\<close> (\<^verbatim>\<open>object.cpp\<close>, \<^verbatim>\<open>json.cpp\<close>): objects as association lists whatever the
    cache holds; equality, order, hash.
  \<^item> \<^verbatim>\<open>Path\<close> (\<^verbatim>\<open>path.cpp\<close>, \<^verbatim>\<open>access.cpp\<close>), \<^verbatim>\<open>Patch\<close>, \<^verbatim>\<open>PatchProofs\<close> (\<^verbatim>\<open>patch.cpp\<close>): path text, the
    walkers, RFC 6901 pointers, RFC 6902 patches, RFC 7386 merge patches, each against a
    direct reading of its RFC.
  \<^item> \<^verbatim>\<open>ToChars\<close>, \<^verbatim>\<open>RoundProofs\<close>, \<^verbatim>\<open>EscapeProofs\<close>, \<^verbatim>\<open>Writer\<close>, \<^verbatim>\<open>WriterProofs\<close>, \<^verbatim>\<open>WriterEntry\<close>
    (\<^verbatim>\<open>writer/\<close>): what is written is in the grammar, denotes the value, and parses back to it.
  \<^item> \<^verbatim>\<open>Validate\<close>, \<^verbatim>\<open>ValidateProofs\<close>, \<^verbatim>\<open>ConstJson\<close> (\<^verbatim>\<open>validate.hpp\<close>, \<^verbatim>\<open>json_constexpr.hpp\<close>): the
    compile-time validator against the grammar and the run-time parser, the compile-time dump
    against the run-time one.
  \<^item> \<^verbatim>\<open>Schema\<close>, \<^verbatim>\<open>SchemaProofs\<close> (\<^verbatim>\<open>schema.hpp\<close>): acceptance against a declarative reading, and
    where an error points.
  \<^item> \<^verbatim>\<open>Stream\<close>, \<^verbatim>\<open>StreamProofs\<close>, \<^verbatim>\<open>StreamStrings\<close>, \<^verbatim>\<open>StreamSim\<close>, \<^verbatim>\<open>StreamGrammar\<close>, \<^verbatim>\<open>StreamEvents\<close>,
    \<^verbatim>\<open>StreamEnds\<close>, \<^verbatim>\<open>StreamItems\<close>, \<^verbatim>\<open>StreamItemsProofs\<close>, \<^verbatim>\<open>JsonlReader\<close>, \<^verbatim>\<open>JsonlProofs\<close>
    (\<^verbatim>\<open>stream.cpp\<close>, \<^verbatim>\<open>stream.hpp\<close>): the event reader, its filtered cursor and the line reader.  The
    refill loop simulates an abstract reader of the whole text (so the chunk size is
    invisible), which is the grammar; \<^verbatim>\<open>PullReader\<close> is the locale of everything that pulls
    until it has ended, interpreted for the three readers.
  \<^item> \<^verbatim>\<open>Storage\<close>, \<^verbatim>\<open>StorageProofs\<close>, \<^verbatim>\<open>Ownership\<close> (\<^verbatim>\<open>json.hpp\<close>, \<^verbatim>\<open>string.hpp\<close>, \<^verbatim>\<open>array.cpp\<close>, \<^verbatim>\<open>object.cpp\<close>),
    \<^verbatim>\<open>Documents\<close>,
    \<^verbatim>\<open>DocumentProofs\<close> (\<^verbatim>\<open>document.cpp\<close>), \<^verbatim>\<open>Config\<close> (\<^verbatim>\<open>config.cpp\<close>): values, documents and the
    global configuration over a memory of blocks that belong to resources.  An operation is
    \<^term>\<open>None\<close> where it touches a block or a resource that is gone.  Programs of special member
    functions implement programs over plain values, with disjoint ownership and no leak;
    the cached default resource is an \<^theory_text>\<open>inductive\<close> step relation of interleaved threads.
  \<^item> \<^verbatim>\<open>Accessors\<close> (\<^verbatim>\<open>json.hpp\<close>): every way to read the tagged union, in debug and release builds.
  \<^item> \<^verbatim>\<open>StdInterop\<close> (\<^verbatim>\<open>std_interop.cpp\<close>): conversions to standard containers.

  \<^bigskip>
  Bounds and fuel.  Recursions that C++ writes over the cursor carry the number of unread
  bytes as fuel; since every round consumes a byte, it never runs out, which the totality
  lemmas of \<^verbatim>\<open>ParserTotal\<close>, \<^verbatim>\<open>Validate\<close> and \<^verbatim>\<open>StreamEnds\<close> show.  Texts are below 4 GiB, objects
  below \<^term>\<open>2 ^ 30\<close> entries, the bounds of the code's 32-bit positions.  \<^verbatim>\<open>destroy\<close> and
  \<^verbatim>\<open>clone\<close> bound the nesting by the number of blocks, which a value that owns each block once
  never exceeds.

  \<^bigskip>
  Not modelled.  Allocation failure, \<^verbatim>\<open>reserve\<close> hints and the capacity of vectors; iterators and
  views over containers (they have no behaviour beside that of the vectors); the throwing
  shells where they only rethrow the error of the \<^verbatim>\<open>_result\<close> form; files and streams other than
  the bytes they deliver; examples, fuzz drivers, benchmarks, build information.
\<close>

end
